(* ===== verification/Prelude.thy ===== *)
theory Prelude
  imports Main "HOL-Library.Word" "HOL-Library.Monad_Syntax"
begin

text \<open>
  Shared vocabulary of the development: the names of C's fixed-width integer types, the
  collections of rewrite rules that the component theories fill, little-endian byte
  encodings of words and generic facts on lists, bits and functional iteration.
\<close>

unbundle bit_operations_syntax

section \<open>Types\<close>

type_synonym u8 = "8 word"
type_synonym u16 = "16 word"
type_synonym u32 = "32 word"
type_synonym u64 = "64 word"

named_theorems le_simps "little-endian encodings of words"
named_theorems crc_simps "rewrite rules of the table-driven checksums"

section \<open>Little-endian encodings\<close>

text \<open>
  The wire format and the in-memory structures of the program are little-endian: these are
  the bytes the C code writes with \<open>x & 0xff\<close> and \<open>x >> 8\<close>, or that a structure of integers
  has in memory on the little-endian ARM and x86 targets.
\<close>

definition le16 :: "u16 \<Rightarrow> u8 list" where
  "le16 x = [ucast (x AND 0xff), ucast (drop_bit 8 x)]"

definition le32 :: "u32 \<Rightarrow> u8 list" where
  "le32 x = [ucast x, ucast (drop_bit 8 x), ucast (drop_bit 16 x), ucast (drop_bit 24 x)]"

definition le64 :: "u64 \<Rightarrow> u8 list" where
  "le64 x = le32 (ucast x) @ le32 (ucast (drop_bit 32 x))"

definition of_le16 :: "u8 list \<Rightarrow> u16" where
  "of_le16 bs = (case bs of [a, b] \<Rightarrow> ucast a OR push_bit 8 (ucast b) | _ \<Rightarrow> 0)"

definition of_le32 :: "u8 list \<Rightarrow> u32" where
  "of_le32 bs = (case bs of [a, b, c, d] \<Rightarrow>
     ucast a OR push_bit 8 (ucast b) OR push_bit 16 (ucast c) OR push_bit 24 (ucast d) | _ \<Rightarrow> 0)"

definition of_le64 :: "u8 list \<Rightarrow> u64" where
  "of_le64 bs = ucast (of_le32 (take 4 bs)) OR push_bit 32 (ucast (of_le32 (drop 4 bs)))"

lemma length_le [simp]: "length (le16 x) = 2" "length (le32 y) = 4" "length (le64 z) = 8"
  by (simp_all add: le16_def le32_def le64_def)

lemma and_ff_eq_take_bit: "x AND 0xff = take_bit 8 x" for x :: "'a::len word"
  by (simp add: take_bit_eq_mask mask_eq_exp_minus_1)

lemma sub_cancel_nat: "\<not> n < k \<Longrightarrow> k + (n - k) = n" for n k :: nat
  by simp

lemma of_le16_le16 [simp, le_simps]: "of_le16 (le16 x) = x"
proof (rule bit_word_eqI)
  fix n
  assume "n < LENGTH(16)"
  then show "bit (of_le16 (le16 x)) n = bit x n"
    by (cases "n < 8") (auto simp: of_le16_def le16_def and_ff_eq_take_bit bit_simps)
qed

lemma of_le32_le32 [simp, le_simps]: "of_le32 (le32 x) = x"
proof (rule bit_word_eqI)
  fix n
  assume n: "n < LENGTH(32)"
  then consider "n < 8" | "8 \<le> n" "n < 16" | "16 \<le> n" "n < 24" | "24 \<le> n" "n < 32"
    by fastforce
  then show "bit (of_le32 (le32 x)) n = bit x n"
    by cases (use n in \<open>auto simp: of_le32_def le32_def bit_simps\<close>)
qed

lemma of_le64_le64 [simp, le_simps]: "of_le64 (le64 x) = x"
  by (rule bit_eqI) (auto simp: of_le64_def le64_def bit_simps)

section \<open>Generic facts\<close>

lemma xor_cancel_right [simp]: "(x XOR z = y XOR z) \<longleftrightarrow> x = y" for x y z :: "'a::len word"
  by (metis xor.assoc xor.right_neutral xor_self_eq)

lemma xor_cancel_left [simp]: "(z XOR x = z XOR y) \<longleftrightarrow> x = y" for x y z :: "'a::len word"
  by (metis xor.commute xor_cancel_right)

lemma xor_common: "(d XOR a) XOR (d XOR b) = a XOR b" for a b d :: "'a::len word"
  by (rule bit_word_eqI) (auto simp: bit_simps)

lemma unat_Suc_less: "x < y \<Longrightarrow> unat (x + 1) = Suc (unat x)" for x y :: "'a::len word"
proof -
  assume "x < y"
  then have "Suc (unat x) < 2 ^ LENGTH('a)"
    using unsigned_less [of y] by (simp add: word_less_nat_alt) (metis Suc_leI le_less_trans unsigned_less)
  then show ?thesis by (simp add: unat_word_ariths)
qed

lemma unat_add_small: "unat x + unat y < 2 ^ 32 \<Longrightarrow> unat (x + y) = unat x + unat y" for x y :: u32
  by (simp add: unat_word_ariths)

lemma unat_add_of_nat: "unat x + n < 2 ^ 32 \<Longrightarrow> unat (x + of_nat n) = unat x + n" for x :: u32
  by (simp add: unat_word_ariths unat_of_nat)

lemma unat_of_nat_small: "n < 2 ^ 32 \<Longrightarrow> unat (of_nat n :: u32) = n"
  by (simp add: unat_of_nat)

lemma unat_and_mask: "unat (x AND mask k) = unat x mod 2 ^ k" for x :: u32
  by (simp only: take_bit_eq_mask [symmetric] unsigned_take_bit_eq) (simp add: take_bit_eq_mod)

lemma unat_and_low: "unat (x AND 3) = unat x mod 4" "unat (x AND 15) = unat x mod 16" for x :: u32
  using unat_and_mask [of x 2] unat_and_mask [of x 4] by (simp_all add: mask_eq_exp_minus_1)

lemma and_not_mask: "x AND NOT (mask k) = push_bit k (drop_bit k x)" for x :: "'a::len word"
  by (rule bit_word_eqI) (auto simp: bit_simps)

lemma unat_and_not_mask: "unat (x AND NOT (mask k)) = unat x - unat x mod 2 ^ k" for x :: "'a::len word"
proof -
  have "unat (x AND NOT (mask k)) = push_bit k (drop_bit k (unat x)) mod 2 ^ LENGTH('a)"
    by (simp add: and_not_mask unsigned_push_bit_eq unsigned_drop_bit_eq take_bit_eq_mod)
  also have "push_bit k (drop_bit k (unat x)) = unat x - unat x mod 2 ^ k"
    by (simp add: push_bit_eq_mult drop_bit_eq_div minus_mod_eq_div_mult)
  finally show ?thesis using unsigned_less [of x, where 'a = nat] by (simp add: less_imp_diff_less)
qed

lemma funpow_hom:
  assumes "\<And>x y. f (g x y) = g (f x) (f y)"
  shows "(f ^^ n) (g x y) = g ((f ^^ n) x) ((f ^^ n) y)"
  by (induction n) (simp_all add: assms)

lemma fold_inj_on_acc:
  assumes "\<And>b x y. f b x = f b y \<Longrightarrow> x = y" and "fold f bs x = fold f bs y"
  shows "x = y"
  using assms(2)
proof (induction bs arbitrary: x y)
  case Nil
  then show ?case by simp
next
  case (Cons b bs)
  then have "f b x = f b y" by (metis comp_apply fold_simps(2))
  then show ?case by (rule assms(1))
qed

end
