(* ===== verification/Checksum.thy ===== *)
theory Checksum
  imports Prelude
begin

text \<open>
  The two checksums of the upload protocol: the 16-bit frame check sequence of
  \<^verbatim>\<open>pup/fcs.c\<close> and the CRC-32 of \<^verbatim>\<open>pup/crc.c\<close>, both table driven, and the table generator
  and loop of \<^verbatim>\<open>pup/xz-embedded/xz_crc32.c\<close>. The locale \<open>reflected_crc\<close> states what a
  table-driven reflected CRC relies on (the table holds the eight-fold bit step of each
  byte) and proves, once for every width, that the table loop computes the bit-serial
  CRC and that it is injective in the register and in each byte.
\<close>

section \<open>The bit-serial reference\<close>

definition crc_bit :: "'a::len word \<Rightarrow> 'a word \<Rightarrow> 'a word" where
  "crc_bit poly v = (if bit v 0 then drop_bit 1 v XOR poly else drop_bit 1 v)"

definition crc_entry :: "'a::len word \<Rightarrow> nat \<Rightarrow> 'a word" where
  "crc_entry p i = (crc_bit p ^^ 8) (of_nat i)"

definition crc_serial :: "'a::len word \<Rightarrow> 'a word \<Rightarrow> u8 list \<Rightarrow> 'a word" where
  "crc_serial poly v bs = fold (\<lambda>b v. (crc_bit poly ^^ 8) (v XOR ucast b)) bs v"

lemma crc_bit_xor: "crc_bit p (x XOR y) = crc_bit p x XOR crc_bit p y"
  by (auto simp: crc_bit_def bit_simps drop_bit_xor ac_simps)

lemma crc_bit_pow_xor: "(crc_bit p ^^ n) (x XOR y) = (crc_bit p ^^ n) x XOR (crc_bit p ^^ n) y"
  by (rule funpow_hom) (rule crc_bit_xor)

lemma crc_bit_pow_shift:
  "\<lbrakk>\<And>i. i < n \<Longrightarrow> \<not> bit v i\<rbrakk> \<Longrightarrow> (crc_bit p ^^ n) v = drop_bit n v"
proof (induction n)
  case (Suc n)
  then have "(crc_bit p ^^ n) v = drop_bit n v" by simp
  moreover have "\<not> bit (drop_bit n v) 0" using Suc.prems [of n] by (simp add: bit_simps)
  ultimately have "crc_bit p ((crc_bit p ^^ n) v) = drop_bit 1 (drop_bit n v)"
    by (simp only: crc_bit_def if_False)
  then show ?case by simp
qed simp

lemma crc_bit_inj: "bit p (LENGTH('a) - 1) \<Longrightarrow> crc_bit p x = crc_bit p y \<Longrightarrow> x = y"
  for p x y :: "'a::len word"
proof -
  assume p: "bit p (LENGTH('a) - 1)" and eq: "crc_bit p x = crc_bit p y"
  let ?d = "x XOR y"
  have z: "crc_bit p ?d = 0"
    by (simp add: crc_bit_xor eq)
  have top: "\<not> bit (drop_bit 1 ?d) (LENGTH('a) - 1)"
    by (simp add: bit_simps)
  have b0: "\<not> bit ?d 0"
  proof
    assume "bit ?d 0"
    with z have "drop_bit 1 ?d = p"
      by (simp only: crc_bit_def if_True xor_self_eq [of p, symmetric] xor_cancel_right)
    with p top show False by simp
  qed
  with z have d: "drop_bit 1 ?d = 0" by (simp only: crc_bit_def if_False)
  have "?d = 0"
  proof (rule bit_word_eqI)
    fix n
    show "bit ?d n = bit (0 :: 'a word) n"
    proof (cases n)
      case 0
      with b0 show ?thesis by simp
    next
      case (Suc m)
      have "bit (drop_bit 1 ?d) m = bit (0 :: 'a word) m" by (simp only: d)
      with Suc show ?thesis by (simp add: bit_simps)
    qed
  qed
  then show "x = y" by (metis xor.assoc xor.right_neutral xor_self_eq)
qed

subsection \<open>The table of all byte entries, by doubling\<close>

lemma crc_bit_num [crc_simps]:
  "crc_bit p 0 = 0"
  "crc_bit p 1 = p"
  "crc_bit p (numeral (num.Bit0 n)) = drop_bit 1 (numeral (num.Bit0 n))"
  "crc_bit p (numeral (num.Bit1 n)) = drop_bit 1 (numeral (num.Bit1 n)) XOR p"
  by (simp_all add: crc_bit_def)
lemma funpow_8 [crc_simps]: "(f ^^ 8) x = f (f (f (f (f (f (f (f x)))))))"
  by (simp add: eval_nat_numeral)

lemma of_nat_add_exp:
  assumes "i < 2 ^ k"
  shows "of_nat (i + 2 ^ k) = (of_nat i :: 'a::len word) XOR of_nat (2 ^ k)"
proof -
  have "take_bit k i = i" using assms by (simp add: take_bit_nat_eq_self_iff)
  then have "bit i k = False" using bit_take_bit_iff [of k i k] by auto
  then have "(of_nat i :: 'a word) AND 2 ^ k = 0"
    by (intro bit_word_eqI) (auto simp: bit_simps)
  then show ?thesis by (simp add: disjunctive_add_eq_xor)
qed

lemma crc_table_double:
  "map (crc_entry p) [0..<2 ^ Suc k] =
     (let t = map (crc_entry p) [0..<2 ^ k] in t @ map (\<lambda>x. x XOR crc_entry p (2 ^ k)) t)"
proof -
  have "[0..<2 ^ Suc k] = [0..<2 ^ k] @ map (\<lambda>i. i + 2 ^ k) [0..<2 ^ k]"
    using upt_add_eq_append [of 0 "2 ^ k" "2 ^ k"] by (simp add: map_add_upt mult_2)
  then show ?thesis
    by (simp add: crc_entry_def crc_bit_pow_xor of_nat_add_exp del: upt_Suc of_nat_add)
qed

lemma power_numeral_256: "(2 :: nat) ^ 8 = 256"
  by simp

lemma crc_table_256:
  "map (crc_entry p) [0..<256] =
     fold (\<lambda>k t. t @ map (\<lambda>x. x XOR crc_entry p (2 ^ k)) t) [0..<8] [0]"
proof -
  have "map (crc_entry p) [0..<2 ^ n] =
     fold (\<lambda>k t. t @ map (\<lambda>x. x XOR crc_entry p (2 ^ k)) t) [0..<n] [0]" for n
  proof (induction n)
    case 0
    have "(crc_bit p ^^ m) 0 = 0" for m by (induction m) (simp_all add: crc_bit_num)
    then show ?case by (simp add: crc_entry_def)
  next
    case (Suc n)
    then show ?case by (simp only: crc_table_double Let_def) simp
  qed
  from this [of 8] show ?thesis by (simp only: power_numeral_256)
qed

section \<open>What a table-driven CRC relies on\<close>

text \<open>
  The interface between a checksum loop and its table: the loop body is the register shifted
  right by a byte, combined with the entry the low byte of register and datum selects; the
  entry is the eight-fold bit step of the index.
\<close>

locale reflected_crc =
  fixes poly :: "'a::len word" and tab :: "'a word list"
  assumes width: "8 \<le> LENGTH('a)"
    and poly_top: "bit poly (LENGTH('a) - 1)"
    and tab_eq: "tab = map (crc_entry poly) [0..<256]"
begin

definition table_step :: "u8 \<Rightarrow> 'a word \<Rightarrow> 'a word" where
  "table_step b v = drop_bit 8 v XOR tab ! unat ((v XOR ucast b) AND 0xff)"

lemma ucast_low: "(v XOR ucast (b :: u8)) AND 0xff = take_bit 8 v XOR ucast b" for v :: "'a word"
  by (rule bit_word_eqI) (auto simp: and_ff_eq_take_bit bit_simps dest: bit_imp_le_length)

lemma low_index_less: "unat (v AND 0xff) < 256" for v :: "'a word"
proof -
  have "unat (take_bit 8 v) = take_bit 8 (unat v)"
    by (simp add: unsigned_take_bit_eq)
  also have "\<dots> < 2 ^ 8" by (rule take_bit_nat_less_exp)
  finally show ?thesis by (simp add: and_ff_eq_take_bit)
qed

lemma tab_nth: "tab ! unat (v AND 0xff) = (crc_bit poly ^^ 8) (v AND 0xff)"
  using low_index_less [of v] by (simp add: tab_eq crc_entry_def)

lemma table_step_serial: "table_step b v = (crc_bit poly ^^ 8) (v XOR ucast b)"
proof -
  let ?x = "v XOR ucast b" and ?hi = "\<lambda>x :: 'a word. push_bit 8 (drop_bit 8 x)"
  have split: "?x = (?x AND 0xff) XOR ?hi ?x"
  proof (rule bit_word_eqI)
    fix n
    assume "n < LENGTH('a)"
    then show "bit ?x n = bit ((?x AND 0xff) XOR ?hi ?x) n"
      by (cases "n < 8") (auto simp: and_ff_eq_take_bit bit_simps)
  qed
  have hi: "drop_bit 8 (?hi ?x) = drop_bit 8 v"
    by (rule bit_word_eqI) (auto simp: bit_simps dest: bit_imp_le_length)
  have "(crc_bit poly ^^ 8) (?hi ?x) = drop_bit 8 (?hi ?x)"
    by (rule crc_bit_pow_shift) (simp add: bit_simps)
  then have "(crc_bit poly ^^ 8) ?x = (crc_bit poly ^^ 8) (?x AND 0xff) XOR drop_bit 8 v"
    by (subst split) (simp only: crc_bit_pow_xor hi)
  then show ?thesis by (simp add: table_step_def tab_nth xor.commute)
qed

lemma table_loop_serial: "fold table_step bs v = crc_serial poly v bs"
proof -
  have "table_step = (\<lambda>b v. (crc_bit poly ^^ 8) (v XOR ucast b))"
    by (intro ext) (rule table_step_serial)
  then show ?thesis by (simp add: crc_serial_def)
qed

lemma crc_bit_pow_inj: "(crc_bit poly ^^ n) x = (crc_bit poly ^^ n) y \<Longrightarrow> x = y"
  by (induction n arbitrary: x y) (auto dest: crc_bit_inj [OF poly_top])

lemma table_step_inj_reg: "table_step b x = table_step b y \<Longrightarrow> x = y"
  by (auto simp: table_step_serial dest: crc_bit_pow_inj)

lemma table_step_inj_byte: "table_step a x = table_step b x \<Longrightarrow> a = b"
proof -
  assume "table_step a x = table_step b x"
  then have eq: "(ucast a :: 'a word) = ucast b"
    by (auto simp: table_step_serial dest: crc_bit_pow_inj)
  show "a = b"
  proof (rule bit_word_eqI)
    fix n
    assume "n < LENGTH(8)"
    moreover have "bit (ucast a :: 'a word) n = bit (ucast b :: 'a word) n" by (simp only: eq)
    ultimately show "bit a n = bit b n" using width by (simp add: bit_simps)
  qed
qed

lemma table_loop_inj_reg: "fold table_step bs x = fold table_step bs y \<Longrightarrow> x = y"
  by (rule fold_inj_on_acc) (rule table_step_inj_reg)

lemma table_loop_one_byte:
  "fold table_step (pre @ a # post) v = fold table_step (pre @ b # post) v \<longleftrightarrow> a = b"
  by (auto dest!: table_loop_inj_reg table_step_inj_byte)

end

section \<open>pup/fcs.c\<close>

definition fcstab :: "u16 list" where
  "fcstab = [
   0x0000, 0x1189, 0x2312, 0x329b, 0x4624, 0x57ad, 0x6536, 0x74bf,
   0x8c48, 0x9dc1, 0xaf5a, 0xbed3, 0xca6c, 0xdbe5, 0xe97e, 0xf8f7,
   0x1081, 0x0108, 0x3393, 0x221a, 0x56a5, 0x472c, 0x75b7, 0x643e,
   0x9cc9, 0x8d40, 0xbfdb, 0xae52, 0xdaed, 0xcb64, 0xf9ff, 0xe876,
   0x2102, 0x308b, 0x0210, 0x1399, 0x6726, 0x76af, 0x4434, 0x55bd,
   0xad4a, 0xbcc3, 0x8e58, 0x9fd1, 0xeb6e, 0xfae7, 0xc87c, 0xd9f5,
   0x3183, 0x200a, 0x1291, 0x0318, 0x77a7, 0x662e, 0x54b5, 0x453c,
   0xbdcb, 0xac42, 0x9ed9, 0x8f50, 0xfbef, 0xea66, 0xd8fd, 0xc974,
   0x4204, 0x538d, 0x6116, 0x709f, 0x0420, 0x15a9, 0x2732, 0x36bb,
   0xce4c, 0xdfc5, 0xed5e, 0xfcd7, 0x8868, 0x99e1, 0xab7a, 0xbaf3,
   0x5285, 0x430c, 0x7197, 0x601e, 0x14a1, 0x0528, 0x37b3, 0x263a,
   0xdecd, 0xcf44, 0xfddf, 0xec56, 0x98e9, 0x8960, 0xbbfb, 0xaa72,
   0x6306, 0x728f, 0x4014, 0x519d, 0x2522, 0x34ab, 0x0630, 0x17b9,
   0xef4e, 0xfec7, 0xcc5c, 0xddd5, 0xa96a, 0xb8e3, 0x8a78, 0x9bf1,
   0x7387, 0x620e, 0x5095, 0x411c, 0x35a3, 0x242a, 0x16b1, 0x0738,
   0xffcf, 0xee46, 0xdcdd, 0xcd54, 0xb9eb, 0xa862, 0x9af9, 0x8b70,
   0x8408, 0x9581, 0xa71a, 0xb693, 0xc22c, 0xd3a5, 0xe13e, 0xf0b7,
   0x0840, 0x19c9, 0x2b52, 0x3adb, 0x4e64, 0x5fed, 0x6d76, 0x7cff,
   0x9489, 0x8500, 0xb79b, 0xa612, 0xd2ad, 0xc324, 0xf1bf, 0xe036,
   0x18c1, 0x0948, 0x3bd3, 0x2a5a, 0x5ee5, 0x4f6c, 0x7df7, 0x6c7e,
   0xa50a, 0xb483, 0x8618, 0x9791, 0xe32e, 0xf2a7, 0xc03c, 0xd1b5,
   0x2942, 0x38cb, 0x0a50, 0x1bd9, 0x6f66, 0x7eef, 0x4c74, 0x5dfd,
   0xb58b, 0xa402, 0x9699, 0x8710, 0xf3af, 0xe226, 0xd0bd, 0xc134,
   0x39c3, 0x284a, 0x1ad1, 0x0b58, 0x7fe7, 0x6e6e, 0x5cf5, 0x4d7c,
   0xc60c, 0xd785, 0xe51e, 0xf497, 0x8028, 0x91a1, 0xa33a, 0xb2b3,
   0x4a44, 0x5bcd, 0x6956, 0x78df, 0x0c60, 0x1de9, 0x2f72, 0x3efb,
   0xd68d, 0xc704, 0xf59f, 0xe416, 0x90a9, 0x8120, 0xb3bb, 0xa232,
   0x5ac5, 0x4b4c, 0x79d7, 0x685e, 0x1ce1, 0x0d68, 0x3ff3, 0x2e7a,
   0xe70e, 0xf687, 0xc41c, 0xd595, 0xa12a, 0xb0a3, 0x8238, 0x93b1,
   0x6b46, 0x7acf, 0x4854, 0x59dd, 0x2d62, 0x3ceb, 0x0e70, 0x1ff9,
   0xf78f, 0xe606, 0xd49d, 0xc514, 0xb1ab, 0xa022, 0x92b9, 0x8330,
   0x7bc7, 0x6a4e, 0x58d5, 0x495c, 0x3de3, 0x2c6a, 0x1ef1, 0x0f78]"

definition fcs16 :: "u16 \<Rightarrow> u8 list \<Rightarrow> u16" where
  "fcs16 fcs p = fold (\<lambda>b fcs. drop_bit 8 fcs XOR fcstab ! unat ((fcs XOR ucast b) AND 0xff)) p fcs"

section \<open>pup/crc.c\<close>

definition crc32_tab :: "u32 list" where
  "crc32_tab = [
   0x00000000, 0x77073096, 0xee0e612c, 0x990951ba, 0x076dc419, 0x706af48f,
   0xe963a535, 0x9e6495a3, 0x0edb8832, 0x79dcb8a4, 0xe0d5e91e, 0x97d2d988,
   0x09b64c2b, 0x7eb17cbd, 0xe7b82d07, 0x90bf1d91, 0x1db71064, 0x6ab020f2,
   0xf3b97148, 0x84be41de, 0x1adad47d, 0x6ddde4eb, 0xf4d4b551, 0x83d385c7,
   0x136c9856, 0x646ba8c0, 0xfd62f97a, 0x8a65c9ec, 0x14015c4f, 0x63066cd9,
   0xfa0f3d63, 0x8d080df5, 0x3b6e20c8, 0x4c69105e, 0xd56041e4, 0xa2677172,
   0x3c03e4d1, 0x4b04d447, 0xd20d85fd, 0xa50ab56b, 0x35b5a8fa, 0x42b2986c,
   0xdbbbc9d6, 0xacbcf940, 0x32d86ce3, 0x45df5c75, 0xdcd60dcf, 0xabd13d59,
   0x26d930ac, 0x51de003a, 0xc8d75180, 0xbfd06116, 0x21b4f4b5, 0x56b3c423,
   0xcfba9599, 0xb8bda50f, 0x2802b89e, 0x5f058808, 0xc60cd9b2, 0xb10be924,
   0x2f6f7c87, 0x58684c11, 0xc1611dab, 0xb6662d3d, 0x76dc4190, 0x01db7106,
   0x98d220bc, 0xefd5102a, 0x71b18589, 0x06b6b51f, 0x9fbfe4a5, 0xe8b8d433,
   0x7807c9a2, 0x0f00f934, 0x9609a88e, 0xe10e9818, 0x7f6a0dbb, 0x086d3d2d,
   0x91646c97, 0xe6635c01, 0x6b6b51f4, 0x1c6c6162, 0x856530d8, 0xf262004e,
   0x6c0695ed, 0x1b01a57b, 0x8208f4c1, 0xf50fc457, 0x65b0d9c6, 0x12b7e950,
   0x8bbeb8ea, 0xfcb9887c, 0x62dd1ddf, 0x15da2d49, 0x8cd37cf3, 0xfbd44c65,
   0x4db26158, 0x3ab551ce, 0xa3bc0074, 0xd4bb30e2, 0x4adfa541, 0x3dd895d7,
   0xa4d1c46d, 0xd3d6f4fb, 0x4369e96a, 0x346ed9fc, 0xad678846, 0xda60b8d0,
   0x44042d73, 0x33031de5, 0xaa0a4c5f, 0xdd0d7cc9, 0x5005713c, 0x270241aa,
   0xbe0b1010, 0xc90c2086, 0x5768b525, 0x206f85b3, 0xb966d409, 0xce61e49f,
   0x5edef90e, 0x29d9c998, 0xb0d09822, 0xc7d7a8b4, 0x59b33d17, 0x2eb40d81,
   0xb7bd5c3b, 0xc0ba6cad, 0xedb88320, 0x9abfb3b6, 0x03b6e20c, 0x74b1d29a,
   0xead54739, 0x9dd277af, 0x04db2615, 0x73dc1683, 0xe3630b12, 0x94643b84,
   0x0d6d6a3e, 0x7a6a5aa8, 0xe40ecf0b, 0x9309ff9d, 0x0a00ae27, 0x7d079eb1,
   0xf00f9344, 0x8708a3d2, 0x1e01f268, 0x6906c2fe, 0xf762575d, 0x806567cb,
   0x196c3671, 0x6e6b06e7, 0xfed41b76, 0x89d32be0, 0x10da7a5a, 0x67dd4acc,
   0xf9b9df6f, 0x8ebeeff9, 0x17b7be43, 0x60b08ed5, 0xd6d6a3e8, 0xa1d1937e,
   0x38d8c2c4, 0x4fdff252, 0xd1bb67f1, 0xa6bc5767, 0x3fb506dd, 0x48b2364b,
   0xd80d2bda, 0xaf0a1b4c, 0x36034af6, 0x41047a60, 0xdf60efc3, 0xa867df55,
   0x316e8eef, 0x4669be79, 0xcb61b38c, 0xbc66831a, 0x256fd2a0, 0x5268e236,
   0xcc0c7795, 0xbb0b4703, 0x220216b9, 0x5505262f, 0xc5ba3bbe, 0xb2bd0b28,
   0x2bb45a92, 0x5cb36a04, 0xc2d7ffa7, 0xb5d0cf31, 0x2cd99e8b, 0x5bdeae1d,
   0x9b64c2b0, 0xec63f226, 0x756aa39c, 0x026d930a, 0x9c0906a9, 0xeb0e363f,
   0x72076785, 0x05005713, 0x95bf4a82, 0xe2b87a14, 0x7bb12bae, 0x0cb61b38,
   0x92d28e9b, 0xe5d5be0d, 0x7cdcefb7, 0x0bdbdf21, 0x86d3d2d4, 0xf1d4e242,
   0x68ddb3f8, 0x1fda836e, 0x81be16cd, 0xf6b9265b, 0x6fb077e1, 0x18b74777,
   0x88085ae6, 0xff0f6a70, 0x66063bca, 0x11010b5c, 0x8f659eff, 0xf862ae69,
   0x616bffd3, 0x166ccf45, 0xa00ae278, 0xd70dd2ee, 0x4e048354, 0x3903b3c2,
   0xa7672661, 0xd06016f7, 0x4969474d, 0x3e6e77db, 0xaed16a4a, 0xd9d65adc,
   0x40df0b66, 0x37d83bf0, 0xa9bcae53, 0xdebb9ec5, 0x47b2cf7f, 0x30b5ffe9,
   0xbdbdf21c, 0xcabac28a, 0x53b39330, 0x24b4a3a6, 0xbad03605, 0xcdd70693,
   0x54de5729, 0x23d967bf, 0xb3667a2e, 0xc4614ab8, 0x5d681b02, 0x2a6f2b94,
   0xb40bbe37, 0xc30c8ea1, 0x5a05df1b, 0x2d02ef8d]"

definition crc32 :: "u32 \<Rightarrow> u8 list \<Rightarrow> u32" where
  "crc32 crc p =
     fold (\<lambda>b crc. crc32_tab ! unat ((crc XOR ucast b) AND 0xff) XOR drop_bit 8 crc) p
       (crc XOR NOT 0) XOR NOT 0"

section \<open>pup/xz-embedded/xz\_crc32.c\<close>

definition xz_crc32_entry :: "u32 \<Rightarrow> u32" where
  "xz_crc32_entry i =
     fold (\<lambda>_ r. drop_bit 1 r XOR (0xEDB88320 AND NOT ((r AND 1) - 1))) [0..<8] i"

definition xz_crc32_init :: "u32 list" where
  "xz_crc32_init = map (\<lambda>i. xz_crc32_entry (of_nat i)) [0..<256]"

definition xz_crc32 :: "u32 list \<Rightarrow> u8 list \<Rightarrow> u32 \<Rightarrow> u32" where
  "xz_crc32 table buf crc =
     NOT (fold (\<lambda>b crc. table ! unat (ucast b XOR (crc AND 0xff)) XOR drop_bit 8 crc) buf (NOT crc))"

section \<open>The tables are those of the two polynomials\<close>

definition fcs_poly :: u16 where "fcs_poly = 0x8408"

definition crc32_poly :: u32 where "crc32_poly = 0xEDB88320"

lemma fcstab_entries: "fcstab = map (crc_entry fcs_poly) [0..<256]"
  unfolding fcstab_def crc_table_256 fcs_poly_def
  by (simp add: upt_rec crc_entry_def crc_simps)

lemma crc32_tab_entries: "crc32_tab = map (crc_entry crc32_poly) [0..<256]"
  unfolding crc32_tab_def crc_table_256 crc32_poly_def
  by (simp add: upt_rec crc_entry_def crc_simps)

lemma xz_step_crc_bit: "drop_bit 1 r XOR (p AND NOT ((r AND 1) - 1)) = crc_bit p r" for r p :: u32
proof (cases "bit r 0")
  case True
  then have "r AND 1 = 1" by (simp add: and_one_eq mod_2_eq_odd bit_0)
  with True show ?thesis by (simp add: crc_bit_def)
next
  case False
  then have "r AND 1 = 0" by (simp add: and_one_eq mod_2_eq_odd bit_0)
  with False show ?thesis by (simp add: crc_bit_def)
qed

lemma fold_const_funpow: "fold (\<lambda>_. f) xs = f ^^ length xs"
  by (induction xs) (simp_all add: funpow_Suc_right del: funpow.simps)

lemma xz_crc32_init_entries: "xz_crc32_init = map (crc_entry crc32_poly) [0..<256]"
  unfolding xz_crc32_init_def xz_crc32_entry_def xz_step_crc_bit fold_const_funpow crc32_poly_def
  by (rule map_cong) (simp_all add: crc_entry_def)

interpretation fcs: reflected_crc fcs_poly fcstab
  by unfold_locales (simp_all add: fcstab_entries fcs_poly_def)

interpretation crc: reflected_crc crc32_poly crc32_tab
  by unfold_locales (simp_all add: crc32_tab_entries crc32_poly_def)

interpretation xz: reflected_crc crc32_poly xz_crc32_init
  by unfold_locales (simp_all add: xz_crc32_init_entries crc32_poly_def)

lemma fcs16_fold: "fcs16 v bs = fold fcs.table_step bs v"
  unfolding fcs16_def fcs.table_step_def by simp

lemma crc32_fold: "crc32 v bs = NOT (fold crc.table_step bs (NOT v))"
proof -
  have "(\<lambda>b crc. crc32_tab ! unat ((crc XOR ucast b) AND 0xff) XOR drop_bit 8 crc) = crc.table_step"
    by (intro ext) (simp add: crc.table_step_def xor.commute)
  then show ?thesis by (simp add: crc32_def)
qed

lemma xz_crc32_fold: "xz_crc32 xz_crc32_init bs v = NOT (fold xz.table_step bs (NOT v))"
proof -
  have low: "ucast b XOR (c AND 0xff) = (c XOR ucast b) AND 0xff" for b :: u8 and c :: u32
    by (simp only: xz.ucast_low) (simp add: and_ff_eq_take_bit xor.commute)
  have "(\<lambda>b crc. xz_crc32_init ! unat (ucast b XOR (crc AND 0xff)) XOR drop_bit 8 crc) = xz.table_step"
    by (intro ext) (simp add: xz.table_step_def low xor.commute)
  then show ?thesis by (simp add: xz_crc32_def)
qed

lemma fcs16_Nil [simp]: "fcs16 v [] = v"
  by (simp add: fcs16_def)

lemma fcs16_append: "fcs16 v (xs @ ys) = fcs16 (fcs16 v xs) ys"
  by (simp add: fcs16_def)

lemma crc32_append: "crc32 v (xs @ ys) = crc32 (crc32 v xs) ys"
  by (simp add: crc32_fold)

section \<open>Properties\<close>

text \<open>
  C28: the table-driven frame check sequence of \<^verbatim>\<open>pup/fcs.c\<close>, with its literal 256-entry table,
  is the bit-serial CRC-16 of RFC 1662 (reflected polynomial 0x8408), for every start value
  and every byte string.
\<close>

theorem fcs16_bit_serial: "fcs16 fcs p = crc_serial 0x8408 fcs p"
  using fcs.table_loop_serial by (simp add: fcs16_fold fcs_poly_def)

text \<open>
  The table-driven CRC-32 of \<^verbatim>\<open>pup/crc.c\<close>, with its literal table and both complements, is
  the bit-serial CRC with the reflected polynomial 0xEDB88320 between complements.
\<close>

theorem crc32_bit_serial: "crc32 crc p = NOT (crc_serial 0xEDB88320 (NOT crc) p)"
  using crc.table_loop_serial by (simp add: crc32_fold crc32_poly_def)

text \<open>
  The CRC-32 that the XZ decoder uses, with the table its \<open>xz_crc32_init\<close> computes, agrees
  with the uploader's own \<open>crc32\<close> on every input.
\<close>

theorem xz_crc32_eq_crc32: "xz_crc32 xz_crc32_init p crc = crc32 crc p"
  using crc.table_loop_serial xz.table_loop_serial by (simp add: crc32_fold xz_crc32_fold)

text \<open>
  The frame check sequence tells apart any two strings that differ in exactly one byte, so
  a single corrupted byte of a header, body or acknowledgement is always detected.
\<close>

theorem fcs16_one_byte: "fcs16 fcs (pre @ a # post) = fcs16 fcs (pre @ b # post) \<longleftrightarrow> a = b"
  using fcs.table_loop_one_byte by (simp only: fcs16_fold)

end
