(* ===== verification/Wire.thy ===== *)
theory Wire
  imports Checksum
begin

text \<open>
  The wire layer of the uploader, \<^verbatim>\<open>pup/common.h\<close> and the first half of \<^verbatim>\<open>pup/fsm.c\<close>:
  timeouts, timers, the frame and acknowledgement senders, and the two receivers.
  The receivers poll the platform: an element of \<open>rx\<close> is the outcome of one call of
  \<open>platform_can_read\<close> (\<open>None\<close>, or \<open>Some c\<close> and then \<open>platform_read\<close> yields \<open>c\<close>), and
  \<open>clock\<close> gives the successive results of \<open>platform_time\<close>. When the observed polls run out
  while a loop still waits the result is \<open>Hang\<close>: the code has not returned yet.
\<close>

section \<open>Constants of common.h\<close>

definition ASC_SOH :: u8 where "ASC_SOH = 0x01"
definition ASC_STX :: u8 where "ASC_STX = 0x02"
definition ASC_ETX :: u8 where "ASC_ETX = 0x03"
definition ASC_EOT :: u8 where "ASC_EOT = 0x04"
definition ASC_ACK :: u8 where "ASC_ACK = 0x06"

lemmas asc_defs = ASC_SOH_def ASC_STX_def ASC_ETX_def ASC_EOT_def ASC_ACK_def

definition FCS_INIT :: u16 where "FCS_INIT = 0xffff"
definition FCS_OK :: u16 where "FCS_OK = 0xf0b8"

definition HOST_POLL :: "u8 list" where "HOST_POLL = [0x50, 0x4F, 0x4C, 0x4C]"
definition HOST_CHNK :: "u8 list" where "HOST_CHNK = [0x43, 0x48, 0x4E, 0x4B]"
definition DEV_RQCH :: "u8 list" where "DEV_RQCH = [0x52, 0x51, 0x43, 0x48]"
definition DEV_BEAT :: "u8 list" where "DEV_BEAT = [0x42, 0x45, 0x41, 0x54]"
definition DEV_BOOT :: "u8 list" where "DEV_BOOT = [0x42, 0x4F, 0x4F, 0x54]"

lemmas type_defs = HOST_POLL_def HOST_CHNK_def DEV_RQCH_def DEV_BEAT_def DEV_BOOT_def

section \<open>Timeouts\<close>

record config_t =
  baud :: u32
  symbol_timeout :: u32
  resend_timeout :: u32
  reset_timeout :: u32
  heartbeat_interval :: u32

text \<open>
  The three \<open>config_*_timeout_us\<close> share one body; it divides by \<open>baud / 10\<close>, and \<open>None\<close>
  is the division by zero.
\<close>

definition timeout_us :: "u32 \<Rightarrow> u32 \<Rightarrow> u64 option" where
  "timeout_us bd symbols =
     (if bd div 10 = 0 then None
      else let baseline = (ucast symbols * 1000000) div ucast (bd div 10)
           in Some (if baseline = 0 then 1 else baseline))"

definition config_symbol_timeout_us :: "config_t \<Rightarrow> u64 option" where
  "config_symbol_timeout_us config = timeout_us (baud config) (symbol_timeout config)"

definition config_resend_timeout_us :: "config_t \<Rightarrow> u64 option" where
  "config_resend_timeout_us config = timeout_us (baud config) (resend_timeout config)"

definition config_reset_timeout_us :: "config_t \<Rightarrow> u64 option" where
  "config_reset_timeout_us config = timeout_us (baud config) (reset_timeout config)"

section \<open>Timers and the state of the machine\<close>

datatype fsm_timer = TIMER_RESET | TIMER_RESEND | TIMER_SYMBOL

record timer_t =
  last :: u64
  period :: u64
  active :: bool

datatype fsm_status = FSM_OK | FSM_RESET | FSM_RESEND

record io =
  timers :: "fsm_timer \<Rightarrow> timer_t"
  fsm_iden :: u16
  raw_hdr :: "nat \<Rightarrow> u8"
  raw_body :: "nat \<Rightarrow> u8"
  raw_ack :: "nat \<Rightarrow> u8"
  clock :: "nat \<Rightarrow> u64"
  ticks :: nat
  rx :: "u8 option list"
  tx :: "u8 list"
  passthru :: bool
  passed :: "u8 list"

definition fsm_init :: "io \<Rightarrow> io" where
  "fsm_init s = s\<lparr>timers := (\<lambda>_. \<lparr>last = 0, period = 0, active = False\<rparr>)\<rparr>"

definition platform_time :: "io \<Rightarrow> u64 \<times> io" where
  "platform_time s = (clock s (ticks s), s\<lparr>ticks := Suc (ticks s)\<rparr>)"

definition timer_triggered :: "timer_t \<Rightarrow> u64 \<Rightarrow> bool" where
  "timer_triggered timer now \<longleftrightarrow> active timer \<and> last timer + period timer \<le> now"

definition fsm_timer_tick :: "fsm_timer \<Rightarrow> io \<Rightarrow> bool \<times> io" where
  "fsm_timer_tick timer s =
     (let (now, s) = platform_time s
      in if timer_triggered (timers s timer) now
         then (True, s\<lparr>timers := (timers s)(timer := (timers s timer)\<lparr>last := now\<rparr>)\<rparr>)
         else (False, s))"

definition fsm_timer_clear :: "fsm_timer \<Rightarrow> io \<Rightarrow> io" where
  "fsm_timer_clear timer s =
     (let (now, s) = platform_time s
      in s\<lparr>timers := (timers s)(timer := (timers s timer)\<lparr>last := now, active := True\<rparr>)\<rparr>)"

section \<open>Receiving\<close>

text \<open>
  The outcome of a wait inside a receiver: the awaited value, a jump back to the start
  label (the \<open>goto\<close> of the source), or no more polls observed.
\<close>

datatype 'a wait = Got 'a io | Goto io | Starved io

primrec wait_symbol :: "u8 option list \<Rightarrow> io \<Rightarrow> u8 wait" where
  "wait_symbol [] s = Starved (s\<lparr>rx := []\<rparr>)"
| "wait_symbol (r # rs) s =
     (case r of
        Some c \<Rightarrow> Got c (s\<lparr>rx := rs\<rparr>)
      | None \<Rightarrow> (let (expired, s) = fsm_timer_tick TIMER_SYMBOL s
                 in if expired then Goto (s\<lparr>rx := rs\<rparr>) else wait_symbol rs s))"

lemma wait_symbol_Cons [simp]:
  "wait_symbol (Some c # rs) s = Got c (s\<lparr>rx := rs\<rparr>)"
  "wait_symbol (None # rs) s =
     (let t = fsm_timer_tick TIMER_SYMBOL s
      in if fst t then Goto ((snd t)\<lparr>rx := rs\<rparr>) else wait_symbol rs (snd t))"
  by (simp_all add: split_def)

declare wait_symbol.simps(2) [simp del]

definition recv_byte :: "io \<Rightarrow> u8 wait" where
  "recv_byte s = (let s = fsm_timer_clear TIMER_SYMBOL s in wait_symbol (rx s) s)"

fun recv_bytes :: "(nat \<Rightarrow> u8 \<Rightarrow> io \<Rightarrow> io) \<Rightarrow> nat \<Rightarrow> nat \<Rightarrow> io \<Rightarrow> unit wait" where
  "recv_bytes put i 0 s = Got () s"
| "recv_bytes put i (Suc n) s =
     (case recv_byte s of
        Got c s \<Rightarrow> recv_bytes put (Suc i) n (put i c s)
      | Goto s \<Rightarrow> Goto s
      | Starved s \<Rightarrow> Starved s)"

definition wait_for :: "u8 \<Rightarrow> io \<Rightarrow> unit wait" where
  "wait_for x s =
     (case recv_byte s of
        Got c s \<Rightarrow> (if c \<noteq> x then Goto s else Got () s)
      | Goto s \<Rightarrow> Goto s
      | Starved s \<Rightarrow> Starved s)"

definition put_hdr :: "nat \<Rightarrow> u8 \<Rightarrow> io \<Rightarrow> io" where
  "put_hdr i c s = s\<lparr>raw_hdr := (raw_hdr s)(i := c)\<rparr>"

definition put_body :: "nat \<Rightarrow> u8 \<Rightarrow> io \<Rightarrow> io" where
  "put_body i c s = s\<lparr>raw_body := (raw_body s)(i := c)\<rparr>"

definition put_ack :: "nat \<Rightarrow> u8 \<Rightarrow> io \<Rightarrow> io" where
  "put_ack i c s = s\<lparr>raw_ack := (raw_ack s)(i := c)\<rparr>"

definition frame_iden :: "io \<Rightarrow> u16" where
  "frame_iden s = of_le16 [raw_hdr s 0, raw_hdr s 1]"

definition frame_plen :: "io \<Rightarrow> u16" where
  "frame_plen s = of_le16 [raw_hdr s 2, raw_hdr s 3]"

definition frame_type :: "io \<Rightarrow> u8 list" where
  "frame_type s = map (raw_hdr s) [4..<8]"

definition frame_body :: "io \<Rightarrow> u8 list" where
  "frame_body s = map (raw_body s) [0..<unat (frame_plen s)]"

text \<open>The loop before the start byte: reset and resend timers first, then one poll.\<close>

datatype start = Started io | Status fsm_status io | NoStart io

definition check_timers :: "io \<Rightarrow> fsm_status option \<times> io" where
  "check_timers s =
     (let (reset, s) = fsm_timer_tick TIMER_RESET s
      in if reset then (Some FSM_RESET, s)
         else let (resend, s) = fsm_timer_tick TIMER_RESEND s
              in (if resend then Some FSM_RESEND else None, s))"

definition pass_byte :: "u8 \<Rightarrow> io \<Rightarrow> io" where
  "pass_byte c s = (if passthru s then s\<lparr>passed := passed s @ [c]\<rparr> else s)"

primrec wait_start :: "u8 \<Rightarrow> u8 option list \<Rightarrow> io \<Rightarrow> start" where
  "wait_start x [] s =
     (case check_timers s of
        (Some st, s) \<Rightarrow> Status st (s\<lparr>rx := []\<rparr>)
      | (None, s) \<Rightarrow> NoStart (s\<lparr>rx := []\<rparr>))"
| "wait_start x (r # rs) s =
     (case check_timers s of
        (Some st, s) \<Rightarrow> Status st (s\<lparr>rx := r # rs\<rparr>)
      | (None, s) \<Rightarrow>
          (case r of
             None \<Rightarrow> wait_start x rs s
           | Some c \<Rightarrow> if c = x then Started (s\<lparr>rx := rs\<rparr>) else wait_start x rs (pass_byte c s)))"

datatype outcome = Returned fsm_status io | Hang io

text \<open>
  The part of \<open>fsm_recv\<close> after the start byte, up to the next \<open>goto wait_for_soh\<close> or
  \<open>return FSM_OK\<close>.
\<close>

definition recv_frame :: "io \<Rightarrow> unit wait" where
  "recv_frame s =
     (case recv_bytes put_hdr 0 10 s of
        Starved s \<Rightarrow> Starved s | Goto s \<Rightarrow> Goto s
      | Got _ s \<Rightarrow>
        if FCS_OK \<noteq> fcs16 FCS_INIT (map (raw_hdr s) [0..<10]) then Goto s
        else (case wait_for ASC_STX s of
            Starved s \<Rightarrow> Starved s | Goto s \<Rightarrow> Goto s
          | Got _ s \<Rightarrow>
            (let body_size = 2 + unat (frame_plen s)
             in case recv_bytes put_body 0 body_size s of
                 Starved s \<Rightarrow> Starved s | Goto s \<Rightarrow> Goto s
               | Got _ s \<Rightarrow>
                 (case wait_for ASC_ETX s of
                    Starved s \<Rightarrow> Starved s | Goto s \<Rightarrow> Goto s
                  | Got _ s \<Rightarrow>
                    (case wait_for ASC_EOT s of
                       Starved s \<Rightarrow> Starved s | Goto s \<Rightarrow> Goto s
                     | Got _ s \<Rightarrow>
                       if FCS_OK \<noteq> fcs16 FCS_INIT (map (raw_body s) [0..<body_size]) then Goto s
                       else Got () s)))))"

text \<open>Likewise for \<open>fsm_recv_ack\<close>, whose local \<open>ack\<close> union is the buffer \<open>raw_ack\<close>.\<close>

definition recv_ack_frame :: "u16 \<Rightarrow> io \<Rightarrow> unit wait" where
  "recv_ack_frame iden s =
     (case recv_bytes put_ack 0 4 s of
        Starved s \<Rightarrow> Starved s | Goto s \<Rightarrow> Goto s
      | Got _ s \<Rightarrow>
        (case wait_for ASC_EOT s of
           Starved s \<Rightarrow> Starved s | Goto s \<Rightarrow> Goto s
         | Got _ s \<Rightarrow>
           if FCS_OK \<noteq> fcs16 FCS_INIT (map (raw_ack s) [0..<4]) then Goto s
           else if of_le16 [raw_ack s 0, raw_ack s 1] \<noteq> iden then Goto s
           else Got () s))"

section \<open>What waiting leaves alone\<close>

text \<open>
  Waiting for a symbol touches the symbol timer, the clock position and the polls; every
  other part of the state is a view that the wait loops keep.
\<close>

locale io_view =
  fixes get :: "io \<Rightarrow> 'v"
  assumes view_ticks [simp]: "get (s\<lparr>ticks := n\<rparr>) = get s"
    and view_rx [simp]: "get (s\<lparr>rx := r\<rparr>) = get s"
    and view_symbol [simp]: "get (s\<lparr>timers := (timers s)(TIMER_SYMBOL := t)\<rparr>) = get s"
begin

lemma view_clear [simp]: "get (fsm_timer_clear TIMER_SYMBOL s) = get s"
proof -
  have "get (s\<lparr>ticks := n, timers := (timers s)(TIMER_SYMBOL := t)\<rparr>) = get s" for n t
    using view_symbol [of "s\<lparr>ticks := n\<rparr>" t] by simp
  then show ?thesis by (simp add: fsm_timer_clear_def platform_time_def)
qed

lemma view_tick [simp]: "get (snd (fsm_timer_tick TIMER_SYMBOL s)) = get s"
proof -
  have "get (s\<lparr>ticks := n, timers := (timers s)(TIMER_SYMBOL := t)\<rparr>) = get s" for n t
    using view_symbol [of "s\<lparr>ticks := n\<rparr>" t] by simp
  then show ?thesis by (simp add: fsm_timer_tick_def platform_time_def)
qed

lemma view_wait_symbol:
  "wait_symbol rs s = Got c s' \<Longrightarrow> get s' = get s"
  "wait_symbol rs s = Goto s' \<Longrightarrow> get s' = get s"
  "wait_symbol rs s = Starved s' \<Longrightarrow> get s' = get s"
proof (induction rs arbitrary: s)
  case (Cons r rs)
  {
    case 1
    then show ?case by (cases r) (auto simp: Let_def split: if_splits dest: Cons.IH(1))
  next
    case 2
    then show ?case by (cases r) (auto simp: Let_def split: if_splits dest: Cons.IH(2))
  next
    case 3
    then show ?case by (cases r) (auto simp: Let_def split: if_splits dest: Cons.IH(3))
  }
qed auto

lemma view_recv_byte:
  "recv_byte s = Got c s' \<Longrightarrow> get s' = get s"
  "recv_byte s = Goto s' \<Longrightarrow> get s' = get s"
  "recv_byte s = Starved s' \<Longrightarrow> get s' = get s"
  by (auto simp: recv_byte_def Let_def dest: view_wait_symbol)

lemma view_wait_for:
  "wait_for x s = Got u s' \<Longrightarrow> get s' = get s"
  "wait_for x s = Goto s' \<Longrightarrow> get s' = get s"
  "wait_for x s = Starved s' \<Longrightarrow> get s' = get s"
  by (auto simp: wait_for_def split: wait.splits if_splits dest: view_recv_byte)

end

section \<open>What waiting consumes\<close>

fun somes :: "'a option list \<Rightarrow> 'a list" where
  "somes [] = []"
| "somes (None # xs) = somes xs"
| "somes (Some x # xs) = x # somes xs"

lemma somes_append [simp]: "somes (xs @ ys) = somes xs @ somes ys"
  by (induction xs rule: somes.induct) auto

lemma somes_map_Some [simp]: "somes (map Some xs) = xs"
  by (induction xs) auto

text \<open>\<open>consumes s bs s'\<close>: between \<open>s\<close> and \<open>s'\<close> the polls delivered exactly the bytes \<open>bs\<close>.\<close>

definition consumes :: "io \<Rightarrow> u8 list \<Rightarrow> io \<Rightarrow> bool" where
  "consumes s bs s' \<longleftrightarrow> (\<exists>cs. rx s = cs @ rx s' \<and> somes cs = bs)"

lemma consumes_refl [simp, intro]: "consumes s [] s"
  by (auto simp: consumes_def)

lemma consumes_trans: "consumes s xs t \<Longrightarrow> consumes t ys u \<Longrightarrow> consumes s (xs @ ys) u"
  by (auto simp: consumes_def)

lemma consumes_length: "consumes s bs s' \<Longrightarrow> length (rx s') + length bs \<le> length (rx s)"
proof -
  have "length (somes cs) \<le> length cs" for cs :: "u8 option list"
    by (induction cs rule: somes.induct) auto
  then show "consumes s bs s' \<Longrightarrow> ?thesis" by (auto simp: consumes_def)
qed

lemma consumes_same_rx: "rx t = rx s \<Longrightarrow> consumes t bs s' = consumes s bs s'"
  by (simp add: consumes_def)

lemma rx_clear [simp]: "rx (fsm_timer_clear t s) = rx s"
  by (simp add: fsm_timer_clear_def platform_time_def)

lemma rx_tick [simp]: "rx (snd (fsm_timer_tick t s)) = rx s"
  by (simp add: fsm_timer_tick_def platform_time_def)

lemma wait_symbol_consumes:
  "wait_symbol rs s = Got c s' \<Longrightarrow> \<exists>cs. rs = cs @ rx s' \<and> somes cs = [c]"
  "wait_symbol rs s = Goto s' \<Longrightarrow> \<exists>cs. rs = cs @ rx s' \<and> somes cs = []"
proof (induction rs arbitrary: s)
  case (Cons r rs)
  {
    case 1
    show ?case
    proof (cases r)
      case None
      with 1 obtain t where "wait_symbol rs t = Got c s'"
        by (auto simp: Let_def split: if_splits)
      then obtain cs where "rs = cs @ rx s' \<and> somes cs = [c]" using Cons.IH(1) by blast
      then show ?thesis using None by (intro exI [of _ "None # cs"]) simp
    next
      case (Some d)
      with 1 show ?thesis by (intro exI [of _ "[Some d]"]) auto
    qed
  next
    case 2
    show ?case
    proof (cases r)
      case None
      with 2 consider "rx s' = rs" | t where "wait_symbol rs t = Goto s'"
        by (auto simp: Let_def split: if_splits)
      then show ?thesis
      proof cases
        case 1
        with None show ?thesis by (intro exI [of _ "[None]"]) simp
      next
        case 2
        then obtain cs where "rs = cs @ rx s' \<and> somes cs = []" using Cons.IH(2) by blast
        then show ?thesis using None by (intro exI [of _ "None # cs"]) simp
      qed
    next
      case (Some d)
      with 2 show ?thesis by simp
    qed
  }
qed auto

lemma recv_byte_consumes:
  "recv_byte s = Got c s' \<Longrightarrow> consumes s [c] s'"
  "recv_byte s = Goto s' \<Longrightarrow> consumes s [] s'"
  by (auto simp: recv_byte_def consumes_def Let_def dest!: wait_symbol_consumes)

lemma wait_for_consumes:
  "wait_for x s = Got u s' \<Longrightarrow> consumes s [x] s'"
  "wait_for x s = Goto s' \<Longrightarrow> \<exists>bs. consumes s bs s'"
  by (auto simp: wait_for_def split: wait.splits if_splits dest: recv_byte_consumes)

section \<open>Bytes that arrive with pauses\<close>

text \<open>
  A byte arrives after a number of polls that found nothing: the polls of a sequence of bytes, each with
  the number of empty polls before it.
\<close>

definition delayed :: "(nat \<times> u8) list \<Rightarrow> u8 option list" where
  "delayed as = concat (map (\<lambda>(n, c). replicate n None @ [Some c]) as)"

text \<open>
  Waiting for a byte reads the clock once to arm the symbol timer and once per empty poll. \<open>prompt clk p t as\<close>:
  when these readings begin with number \<open>t\<close>, the timer of period \<open>p\<close> has expired at none of them.
\<close>

definition polls_of :: "(nat \<times> u8) list \<Rightarrow> nat" where
  "polls_of as = sum_list (map (Suc \<circ> fst) as)"

primrec prompt :: "(nat \<Rightarrow> u64) \<Rightarrow> u64 \<Rightarrow> nat \<Rightarrow> (nat \<times> u8) list \<Rightarrow> bool" where
  "prompt clk p t [] = True"
| "prompt clk p t (a # as) =
     ((\<forall>j < fst a. \<not> clk t + p \<le> clk (t + 1 + j)) \<and> prompt clk p (t + 1 + fst a) as)"

lemma delayed_simps [simp]:
  "delayed [] = []" "delayed (a # as) = replicate (fst a) None @ Some (snd a) # delayed as"
  "delayed (as @ bs) = delayed as @ delayed bs"
  by (simp_all add: delayed_def split_def)

lemma polls_of_simps [simp]:
  "polls_of [] = 0" "polls_of (a # as) = Suc (fst a) + polls_of as" "polls_of (as @ bs) = polls_of as + polls_of bs"
  by (simp_all add: polls_of_def)

lemma prompt_append [simp]:
  "prompt clk p t (as @ bs) \<longleftrightarrow> prompt clk p t as \<and> prompt clk p (t + polls_of as) bs"
  by (induction as arbitrary: t) (simp_all add: add.assoc)

lemma somes_replicate [simp]: "somes (replicate n None) = []"
  by (induction n) simp_all

lemma somes_delayed [simp]: "somes (delayed as) = map snd as"
  by (induction as) simp_all

text \<open>Bytes that arrive without a pause.\<close>

lemma delayed_at_once [simp]: "delayed (map (Pair 0) bs) = map Some bs"
  by (induction bs) simp_all

lemma prompt_at_once [simp]: "prompt clk p t (map (Pair 0) bs)"
  by (induction bs arbitrary: t) simp_all

text \<open>\<open>later n s s'\<close>: \<open>n\<close> readings of the clock lie between the states.\<close>

definition later :: "nat \<Rightarrow> io \<Rightarrow> io \<Rightarrow> bool" where
  "later n s s' \<longleftrightarrow> ticks s' = ticks s + n \<and> clock s' = clock s \<and>
     period (timers s' TIMER_SYMBOL) = period (timers s TIMER_SYMBOL)"

abbreviation on_pace :: "io \<Rightarrow> (nat \<times> u8) list \<Rightarrow> bool" where
  "on_pace s as \<equiv> prompt (clock s) (period (timers s TIMER_SYMBOL)) (ticks s) as"

lemma later_refl [simp, intro]: "later 0 s s"
  by (simp add: later_def)

lemma later_trans: "later m s t \<Longrightarrow> later n t u \<Longrightarrow> later (m + n) s u"
  by (simp add: later_def)

lemma on_pace_later: "on_pace s (as @ bs) \<Longrightarrow> later (polls_of as) s t \<Longrightarrow> on_pace t bs"
  by (simp add: later_def)

lemma wait_symbol_delayed:
  "timers s TIMER_SYMBOL = \<lparr>last = l, period = p, active = a\<rparr> \<Longrightarrow>
   \<forall>j < n. \<not> l + p \<le> clock s (ticks s + j) \<Longrightarrow>
   wait_symbol (replicate n None @ Some c # rest) s = Got c (s\<lparr>ticks := ticks s + n, rx := rest\<rparr>)"
proof (induction n arbitrary: s)
  case (Suc n)
  have "fsm_timer_tick TIMER_SYMBOL s = (False, s\<lparr>ticks := Suc (ticks s)\<rparr>)"
    using Suc.prems by (auto simp: fsm_timer_tick_def platform_time_def timer_triggered_def)
  moreover have "\<forall>j < n. \<not> l + p \<le> clock s (Suc (ticks s) + j)"
    using Suc.prems(2) by (metis Suc_mono add_Suc_shift)
  ultimately show ?case using Suc.IH [of "s\<lparr>ticks := Suc (ticks s)\<rparr>"] Suc.prems(1) by simp
qed simp

lemma recv_byte_delayed:
  assumes "rx s = replicate n None @ Some c # rest" and "on_pace s [(n, c)]"
  shows "\<exists>s'. recv_byte s = Got c s' \<and> rx s' = rest \<and> later (Suc n) s s'"
proof -
  let ?t = "fsm_timer_clear TIMER_SYMBOL s"
  have t: "timers ?t TIMER_SYMBOL = \<lparr>last = clock s (ticks s), period = period (timers s TIMER_SYMBOL), active = True\<rparr>"
    "clock ?t = clock s" "ticks ?t = Suc (ticks s)"
    by (simp_all add: fsm_timer_clear_def platform_time_def)
  have "wait_symbol (replicate n None @ Some c # rest) ?t = Got c (?t\<lparr>ticks := ticks ?t + n, rx := rest\<rparr>)"
    by (rule wait_symbol_delayed [OF t(1)]) (use assms(2) t in simp)
  then show ?thesis using assms(1) t by (auto simp: recv_byte_def Let_def later_def)
qed

lemma wait_for_delayed:
  assumes "rx s = replicate n None @ Some x # rest" and "on_pace s [(n, x)]"
  shows "\<exists>s'. wait_for x s = Got () s' \<and> rx s' = rest \<and> later (Suc n) s s'"
  using recv_byte_delayed [OF assms] by (auto simp: wait_for_def)

section \<open>Receiving into a buffer\<close>

text \<open>
  The header and the body are received by the same loop into two buffers. The interface
  of that loop: storing a byte updates one view of the state at its index and keeps the
  polls and a second view.
\<close>

locale frame_store =
  g: io_view get + o: io_view other
  for get :: "io \<Rightarrow> nat \<Rightarrow> u8" and other :: "io \<Rightarrow> 'v" +
  fixes put :: "nat \<Rightarrow> u8 \<Rightarrow> io \<Rightarrow> io"
  assumes get_put: "get (put i c s) = (get s)(i := c)"
    and other_put: "other (put i c s) = other s"
    and rx_put: "rx (put i c s) = rx s"
    and later_put: "later 0 s (put i c s)"
begin

lemma recv_bytes_Got:
  assumes "recv_bytes put i n s = Got u s'"
  shows "\<exists>bs. length bs = n \<and> consumes s bs s' \<and> other s' = other s
    \<and> get s' = (\<lambda>j. if i \<le> j \<and> j < i + n then bs ! (j - i) else get s j)"
  using assms
proof (induction n arbitrary: i s)
  case 0
  then have "s' = s" by simp
  then show ?case by (intro exI [of _ "[]"]) (auto simp: fun_eq_iff)
next
  case (Suc n)
  then obtain c t where t: "recv_byte s = Got c t"
    and r: "recv_bytes put (Suc i) n (put i c t) = Got u s'"
    by (auto split: wait.splits)
  from Suc.IH [OF r] obtain bs where bs: "length bs = n" "consumes (put i c t) bs s'"
    "other s' = other (put i c t)"
    "get s' = (\<lambda>j. if Suc i \<le> j \<and> j < Suc i + n then bs ! (j - Suc i) else get (put i c t) j)"
    by auto
  have "consumes s ([c] @ bs) s'"
    using recv_byte_consumes(1) [OF t] bs(2) [unfolded consumes_same_rx [OF rx_put]]
    by (rule consumes_trans)
  moreover have "get s' = (\<lambda>j. if i \<le> j \<and> j < i + Suc n then (c # bs) ! (j - i) else get s j)"
    by (rule ext) (auto simp: bs(4) get_put g.view_recv_byte(1) [OF t] nth_Cons' Suc_le_eq)
  moreover have "other s' = other s"
    using bs(3) o.view_recv_byte(1) [OF t] by (simp add: other_put)
  ultimately show ?case using bs(1) by (intro exI [of _ "c # bs"]) simp
qed

lemma recv_bytes_Got0:
  assumes "recv_bytes put 0 n s = Got u s'"
  shows "\<exists>bs. length bs = n \<and> consumes s bs s' \<and> other s' = other s
    \<and> get s' = (\<lambda>j. if j < n then bs ! j else get s j)"
  using recv_bytes_Got [OF assms] by (simp cong: if_cong)

lemma recv_bytes_Goto:
  "recv_bytes put i n s = Goto s' \<Longrightarrow> other s' = other s \<and> (\<exists>bs. consumes s bs s')"
proof (induction n arbitrary: i s)
  case (Suc n)
  show ?case
  proof (cases "recv_byte s")
    case (Got c t)
    with Suc.prems have "recv_bytes put (Suc i) n (put i c t) = Goto s'" by simp
    from Suc.IH [OF this] obtain bs where
      "other s' = other t" "consumes t bs s'"
      by (auto simp: other_put consumes_same_rx [OF rx_put])
    with recv_byte_consumes(1) [OF Got] o.view_recv_byte(1) [OF Got] show ?thesis
      by (auto intro: consumes_trans)
  next
    case (Goto t)
    with Suc.prems show ?thesis
      by (auto dest: recv_byte_consumes(2) o.view_recv_byte(2))
  next
    case (Starved t)
    with Suc.prems show ?thesis by simp
  qed
qed simp

lemma recv_bytes_complete:
  "rx s = delayed as @ rest \<Longrightarrow> on_pace s as \<Longrightarrow>
   \<exists>s'. recv_bytes put i (length as) s = Got () s' \<and> rx s' = rest \<and> later (polls_of as) s s'"
proof (induction as arbitrary: i s)
  case (Cons a as)
  obtain t where t: "recv_byte s = Got (snd a) t" "rx t = delayed as @ rest" "later (Suc (fst a)) s t"
    using recv_byte_delayed [of s "fst a" "snd a" "delayed as @ rest"] Cons.prems by auto
  let ?t = "put i (snd a) t"
  have l: "later (Suc (fst a)) s ?t" using later_trans [OF t(3) later_put] by simp
  have "rx ?t = delayed as @ rest" "on_pace ?t as"
    using t(2) on_pace_later [of s "[a]" as ?t] Cons.prems(2) l by (simp_all add: rx_put)
  from Cons.IH [OF this, of "Suc i"] obtain s' where
    "recv_bytes put (Suc i) (length as) ?t = Got () s'" "rx s' = rest" "later (polls_of as) ?t s'" by blast
  with t(1) later_trans [OF l] show ?case by auto
qed auto

lemma recv_bytes_exact:
  assumes "rx s = delayed as @ rest" "on_pace s as" "map snd as = bs"
  shows "\<exists>s'. recv_bytes put 0 (length bs) s = Got () s' \<and> rx s' = rest \<and> later (polls_of as) s s' \<and>
    other s' = other s \<and> get s' = (\<lambda>j. if j < length bs then bs ! j else get s j)"
proof -
  have l: "length as = length bs" by (simp flip: assms(3))
  obtain s' where s': "recv_bytes put 0 (length bs) s = Got () s'" "rx s' = rest" "later (polls_of as) s s'"
    using recv_bytes_complete [OF assms(1,2)] l by auto
  from recv_bytes_Got0 [OF s'(1)] obtain bs' cs where
    "rx s = cs @ rx s'" "somes cs = bs'" "other s' = other s"
    "get s' = (\<lambda>j. if j < length bs then bs' ! j else get s j)"
    by (auto simp: consumes_def)
  moreover from this(1) assms(1) s'(2) have "cs = delayed as" by simp
  ultimately show ?thesis using s' assms(3) by auto
qed

lemma recv_bytes_Starved: "recv_bytes put i n s = Starved s' \<Longrightarrow> other s' = other s"
  by (induction n arbitrary: i s)
     (auto split: wait.splits simp: other_put dest: o.view_recv_byte)

end

interpretation hdr: frame_store raw_hdr "\<lambda>s. (raw_body s, raw_ack s, tx s, passthru s, passed s,
    fsm_iden s, clock s, timers s TIMER_RESET, timers s TIMER_RESEND)" put_hdr
  by unfold_locales (simp_all add: put_hdr_def later_def)

interpretation bdy: frame_store raw_body "\<lambda>s. (raw_hdr s, raw_ack s, tx s, passthru s, passed s,
    fsm_iden s, clock s, timers s TIMER_RESET, timers s TIMER_RESEND)" put_body
  by unfold_locales (simp_all add: put_body_def later_def)

interpretation ack: frame_store raw_ack "\<lambda>s. (raw_hdr s, raw_body s, tx s, passthru s, passed s,
    fsm_iden s, clock s, timers s TIMER_RESET, timers s TIMER_RESEND)" put_ack
  by unfold_locales (simp_all add: put_ack_def later_def)

text \<open>The parts of the state no wait loop and no buffer store touches.\<close>

definition base :: "io \<Rightarrow> u8 list \<times> bool \<times> u8 list \<times> u16 \<times> (nat \<Rightarrow> u64) \<times> timer_t \<times> timer_t" where
  "base s = (tx s, passthru s, passed s, fsm_iden s, clock s, timers s TIMER_RESET,
     timers s TIMER_RESEND)"

interpretation base: io_view base
  by unfold_locales (simp_all add: base_def)

lemma base_eqs:
  "base s' = base s \<longleftrightarrow> tx s' = tx s \<and> passthru s' = passthru s \<and> passed s' = passed s \<and>
     fsm_iden s' = fsm_iden s \<and> clock s' = clock s \<and>
     timers s' TIMER_RESET = timers s TIMER_RESET \<and> timers s' TIMER_RESEND = timers s TIMER_RESEND"
  by (simp add: base_def)

section \<open>The receivers\<close>

text \<open>A well-formed frame on the wire, as the receiver checks it.\<close>

definition frame_ok :: "u8 list \<Rightarrow> u8 list \<Rightarrow> bool" where
  "frame_ok h b \<longleftrightarrow> length h = 10 \<and> fcs16 FCS_INIT h = FCS_OK \<and>
     length b = 2 + unat (of_le16 (take 2 (drop 2 h))) \<and> fcs16 FCS_INIT b = FCS_OK"

lemma map_store: "length bs = n \<Longrightarrow> map (\<lambda>j. if j < n then bs ! j else f j) [0..<n] = bs"
  by (rule nth_equalityI) simp_all

lemma recv_frame_Got:
  assumes "recv_frame s = Got u s'"
  shows "\<exists>h b. frame_ok h b \<and> consumes s (h @ [ASC_STX] @ b @ [ASC_ETX, ASC_EOT]) s' \<and>
    map (raw_hdr s') [0..<10] = h \<and> map (raw_body s') [0..<length b] = b \<and> base s' = base s"
proof -
  from assms obtain s1 s2 s3 s4 where
    r1: "recv_bytes put_hdr 0 10 s = Got () s1"
    and f1: "fcs16 FCS_INIT (map (raw_hdr s1) [0..<10]) = FCS_OK"
    and r2: "wait_for ASC_STX s1 = Got () s2"
    and r3: "recv_bytes put_body 0 (2 + unat (frame_plen s2)) s2 = Got () s3"
    and r4: "wait_for ASC_ETX s3 = Got () s4"
    and r5: "wait_for ASC_EOT s4 = Got () s'"
    and f2: "fcs16 FCS_INIT (map (raw_body s') [0..<2 + unat (frame_plen s2)]) = FCS_OK"
    unfolding recv_frame_def Let_def by (auto split: wait.splits if_splits)
  from hdr.recv_bytes_Got0 [OF r1] obtain h where h: "length h = 10" "consumes s h s1"
    "base s1 = base s" "raw_hdr s1 = (\<lambda>j. if j < 10 then h ! j else raw_hdr s j)"
    by (auto simp: base_eqs)
  from bdy.recv_bytes_Got0 [OF r3] obtain b where b: "length b = 2 + unat (frame_plen s2)"
    "consumes s2 b s3" "base s3 = base s2" "raw_hdr s3 = raw_hdr s2"
    "raw_body s3 = (\<lambda>j. if j < 2 + unat (frame_plen s2) then b ! j else raw_body s2 j)"
    by (auto simp: base_eqs)
  have hd: "raw_hdr s2 = raw_hdr s1" "raw_hdr s' = raw_hdr s3" "raw_body s' = raw_body s3"
    using hdr.g.view_wait_for(1) [OF r2] hdr.g.view_wait_for(1) [OF r4]
      hdr.g.view_wait_for(1) [OF r5] bdy.g.view_wait_for(1) [OF r4] bdy.g.view_wait_for(1) [OF r5]
    by simp_all
  have mh: "map (raw_hdr s1) [0..<10] = h" using h(1) by (simp add: h(4) map_store)
  have mb: "map (raw_body s') [0..<length b] = b" unfolding hd(3) b(5) b(1) [symmetric] by (rule map_store) simp
  have "frame_plen s2 = of_le16 (take 2 (drop 2 h))"
    using h(1) by (simp add: frame_plen_def hd(1) h(4) take_Suc_conv_app_nth numeral_2_eq_2 numeral_3_eq_3)
  then have "frame_ok h b" using h(1) b(1) f1 f2 mh mb by (simp add: frame_ok_def)
  moreover have "consumes s (h @ [ASC_STX] @ b @ [ASC_ETX] @ [ASC_EOT]) s'"
    by (intro consumes_trans [OF h(2)] consumes_trans [OF wait_for_consumes(1) [OF r2]]
        consumes_trans [OF b(2)] consumes_trans [OF wait_for_consumes(1) [OF r4]]
        wait_for_consumes(1) [OF r5])
  moreover have "base s' = base s"
    using base.view_wait_for(1) [OF r2] base.view_wait_for(1) [OF r4]
      base.view_wait_for(1) [OF r5] h(3) b(3) by simp
  ultimately show ?thesis using mh mb b(4) hd by auto
qed

text \<open>
  Every wait that ends, by success or by a jump, advances: it keeps the base part of the
  state and consumes polls in order.
\<close>

definition advance :: "io \<Rightarrow> io \<Rightarrow> bool" where
  "advance s s' \<longleftrightarrow> base s' = base s \<and> (\<exists>bs. consumes s bs s')"

lemma advance_trans: "advance s t \<Longrightarrow> advance t u \<Longrightarrow> advance s u"
  by (auto simp: advance_def intro: consumes_trans)

lemma advance_refl [simp, intro]: "advance s s"
  by (auto simp: advance_def)

lemma wait_for_advance:
  "wait_for x s = Got u s' \<Longrightarrow> advance s s'"
  "wait_for x s = Goto s' \<Longrightarrow> advance s s'"
  by (auto simp: advance_def dest: base.view_wait_for wait_for_consumes)

lemma recv_bytes_advance:
  "recv_bytes put_hdr 0 n s = Got u s' \<Longrightarrow> advance s s'"
  "recv_bytes put_hdr 0 n s = Goto s' \<Longrightarrow> advance s s'"
  "recv_bytes put_body 0 n s = Got u s' \<Longrightarrow> advance s s'"
  "recv_bytes put_body 0 n s = Goto s' \<Longrightarrow> advance s s'"
  "recv_bytes put_ack 0 n s = Got u s' \<Longrightarrow> advance s s'"
  "recv_bytes put_ack 0 n s = Goto s' \<Longrightarrow> advance s s'"
  by (auto simp: advance_def base_eqs dest!: hdr.recv_bytes_Got hdr.recv_bytes_Goto
      bdy.recv_bytes_Got bdy.recv_bytes_Goto ack.recv_bytes_Got ack.recv_bytes_Goto)

lemmas advances = wait_for_advance recv_bytes_advance

lemma recv_frame_Goto: "recv_frame s = Goto s' \<Longrightarrow> advance s s'"
  unfolding recv_frame_def Let_def
  by (auto split: wait.splits if_splits dest!: advances simp del: recv_bytes.simps)
     (meson advance_trans)+

lemma recv_ack_frame_Goto: "recv_ack_frame iden s = Goto s' \<Longrightarrow> advance s s'"
  unfolding recv_ack_frame_def
  by (auto split: wait.splits if_splits dest!: advances simp del: recv_bytes.simps)
     (meson advance_trans)+

lemma recv_ack_frame_Got:
  assumes "recv_ack_frame iden s = Got u s'"
  shows "\<exists>a. length a = 4 \<and> fcs16 FCS_INIT a = FCS_OK \<and> of_le16 (take 2 a) = iden \<and>
    consumes s (a @ [ASC_EOT]) s' \<and> base s' = base s"
proof -
  from assms obtain t where
    r1: "recv_bytes put_ack 0 4 s = Got () t"
    and r2: "wait_for ASC_EOT t = Got () s'"
    and f: "fcs16 FCS_INIT (map (raw_ack s') [0..<4]) = FCS_OK"
    and i: "of_le16 [raw_ack s' 0, raw_ack s' 1] = iden"
    unfolding recv_ack_frame_def by (auto split: wait.splits if_splits)
  from ack.recv_bytes_Got0 [OF r1] obtain a where a: "length a = 4" "consumes s a t"
    "base t = base s" "raw_ack t = (\<lambda>j. if j < 4 then a ! j else raw_ack s j)"
    by (auto simp: base_eqs)
  have ra: "raw_ack s' = raw_ack t" using ack.g.view_wait_for(1) [OF r2] by simp
  have "map (raw_ack s') [0..<4] = a" unfolding ra a(4) a(1) [symmetric] by (rule map_store) simp
  moreover have "take 2 a = [raw_ack s' 0, raw_ack s' 1]"
    using a(1) by (simp add: ra a(4) take_Suc_conv_app_nth numeral_2_eq_2)
  moreover have "consumes s (a @ [ASC_EOT]) s'"
    by (rule consumes_trans [OF a(2) wait_for_consumes(1) [OF r2]])
  ultimately show ?thesis using f i a base.view_wait_for(1) [OF r2] by auto
qed

lemma wait_start_Started:
  "wait_start x rs s = Started s' \<Longrightarrow> \<exists>cs. rs = cs @ Some x # rx s' \<and> x \<notin> set (somes cs)"
proof (induction rs arbitrary: s)
  case (Cons r rs)
  show ?case
  proof (cases "r = Some x")
    case True
    with Cons.prems show ?thesis
      by (intro exI [of _ "[]"]) (auto split: prod.splits option.splits)
  next
    case False
    with Cons.prems obtain t where "wait_start x rs t = Started s'"
      by (auto split: prod.splits option.splits if_splits)
    then obtain cs where "rs = cs @ Some x # rx s' \<and> x \<notin> set (somes cs)" using Cons.IH by blast
    then show ?thesis using False by (intro exI [of _ "r # cs"]) (cases r; auto)
  qed
qed (auto split: prod.splits option.splits)

function fsm_recv :: "io \<Rightarrow> outcome" where
  "fsm_recv s =
     (case wait_start ASC_SOH (rx s) s of
        Status st s \<Rightarrow> Returned st s
      | NoStart s \<Rightarrow> Hang s
      | Started s \<Rightarrow>
          (case recv_frame s of
             Got _ s \<Rightarrow> Returned FSM_OK s
           | Goto s \<Rightarrow> fsm_recv s
           | Starved s \<Rightarrow> Hang s))"
  by pat_completeness auto
termination
  by (relation "measure (length \<circ> rx)")
     (auto simp: advance_def dest!: wait_start_Started recv_frame_Goto consumes_length)

function fsm_recv_ack :: "u16 \<Rightarrow> io \<Rightarrow> outcome" where
  "fsm_recv_ack iden s =
     (case wait_start ASC_ACK (rx s) s of
        Status st s \<Rightarrow> Returned st s
      | NoStart s \<Rightarrow> Hang s
      | Started s \<Rightarrow>
          (case recv_ack_frame iden s of
             Got _ s \<Rightarrow> Returned FSM_OK s
           | Goto s \<Rightarrow> fsm_recv_ack iden s
           | Starved s \<Rightarrow> Hang s))"
  by pat_completeness auto
termination
  by (relation "measure (length \<circ> rx \<circ> snd)")
     (auto simp: advance_def dest!: wait_start_Started recv_ack_frame_Goto consumes_length)

declare fsm_recv.simps [simp del] fsm_recv_ack.simps [simp del]

section \<open>Sending\<close>

definition platform_put :: "u8 \<Rightarrow> io \<Rightarrow> io" where
  "platform_put x s = s\<lparr>tx := tx s @ [x]\<rparr>"

definition platform_write :: "u8 list \<Rightarrow> io \<Rightarrow> io" where
  "platform_write p s = s\<lparr>tx := tx s @ p\<rparr>"

definition fsm_put_fcs :: "u8 \<Rightarrow> u16 \<Rightarrow> io \<Rightarrow> u16 \<times> io" where
  "fsm_put_fcs x fcs s = (fcs16 fcs [x], platform_put x s)"

definition fsm_write_fcs :: "u8 list \<Rightarrow> u16 \<Rightarrow> io \<Rightarrow> u16 \<times> io" where
  "fsm_write_fcs p fcs s = (fcs16 fcs p, platform_write p s)"

definition fsm_put16 :: "u16 \<Rightarrow> io \<Rightarrow> io" where
  "fsm_put16 x s = platform_put (ucast (drop_bit 8 x)) (platform_put (ucast (x AND 0xff)) s)"

definition fsm_put16_fcs :: "u16 \<Rightarrow> u16 \<Rightarrow> io \<Rightarrow> u16 \<times> io" where
  "fsm_put16_fcs x fcs s =
     (let (fcs, s) = fsm_put_fcs (ucast (x AND 0xff)) fcs s
      in fsm_put_fcs (ucast (drop_bit 8 x)) fcs s)"

definition fsm_send :: "u8 list \<Rightarrow> u8 list \<Rightarrow> u16 \<Rightarrow> io \<Rightarrow> io" where
  "fsm_send type payload payload_len s =
     (let s = platform_put ASC_SOH s;
          fcs = FCS_INIT;
          (fcs, s) = fsm_put16_fcs (fsm_iden s) fcs s;
          (fcs, s) = fsm_put16_fcs payload_len fcs s;
          (fcs, s) = fold (\<lambda>i (fcs, s). fsm_put_fcs (type ! i) fcs s) [0..<4] (fcs, s);
          s = fsm_put16 (fcs XOR 0xffff) s;
          s = platform_put ASC_STX s;
          fcs = FCS_INIT;
          (fcs, s) = fsm_write_fcs (take (unat payload_len) payload) fcs s;
          s = fsm_put16 (fcs XOR 0xffff) s;
          s = platform_put ASC_ETX s
      in platform_put ASC_EOT s)"

definition fsm_send_ack :: "u16 \<Rightarrow> io \<Rightarrow> io" where
  "fsm_send_ack iden s =
     (let s = platform_put ASC_ACK s;
          fcs = FCS_INIT;
          (fcs, s) = fsm_put16_fcs iden fcs s;
          s = fsm_put16 (fcs XOR 0xffff) s
      in platform_put ASC_EOT s)"

section \<open>What is on the wire\<close>

text \<open>The message and acknowledgement formats of \<^verbatim>\<open>pup/README.md\<close>, as byte strings.\<close>

definition with_fcs :: "u8 list \<Rightarrow> u8 list" where
  "with_fcs bs = bs @ le16 (fcs16 FCS_INIT bs XOR 0xffff)"

definition wire_frame :: "u16 \<Rightarrow> u8 list \<Rightarrow> u8 list \<Rightarrow> u8 list" where
  "wire_frame iden type payload =
     [ASC_SOH] @ with_fcs (le16 iden @ le16 (of_nat (length payload)) @ type) @
     [ASC_STX] @ with_fcs payload @ [ASC_ETX, ASC_EOT]"

definition wire_ack :: "u16 \<Rightarrow> u8 list" where
  "wire_ack iden = [ASC_ACK] @ with_fcs (le16 iden) @ [ASC_EOT]"

lemma fsm_put16_fcs_eq: "fsm_put16_fcs x fcs s = (fcs16 fcs (le16 x), s\<lparr>tx := tx s @ le16 x\<rparr>)"
  by (simp add: fsm_put16_fcs_def fsm_put_fcs_def platform_put_def le16_def fcs16_append [symmetric])

lemma fsm_put16_eq: "fsm_put16 x s = s\<lparr>tx := tx s @ le16 x\<rparr>"
  by (simp add: fsm_put16_def platform_put_def le16_def)

lemma put_type_eq:
  "length type = 4 \<Longrightarrow>
   fold (\<lambda>i (fcs, s). fsm_put_fcs (type ! i) fcs s) [0..<4] (fcs, s) =
     (fcs16 fcs type, s\<lparr>tx := tx s @ type\<rparr>)"
proof -
  assume len: "length type = 4"
  then obtain a b c d where "type = [a, b, c, d]"
    by (auto simp: length_Suc_conv numeral_eq_Suc)
  then show ?thesis
    by (simp add: upt_rec fsm_put_fcs_def platform_put_def fcs16_append [symmetric])
qed

lemma fsm_send_eq:
  assumes "length type = 4" and "length payload < 65536"
  shows "fsm_send type payload (of_nat (length payload)) s =
    s\<lparr>tx := tx s @ wire_frame (fsm_iden s) type payload\<rparr>"
proof -
  have "unat (of_nat (length payload) :: u16) = length payload"
    using assms(2) by (simp add: unat_of_nat)
  then show ?thesis
    unfolding fsm_send_def Let_def fsm_put16_fcs_eq fsm_put16_eq prod.case
      put_type_eq [OF assms(1)]
    by (simp add: platform_put_def fsm_write_fcs_def platform_write_def wire_frame_def with_fcs_def
        fcs16_append)
qed

lemma fsm_send_ack_eq: "fsm_send_ack iden s = s\<lparr>tx := tx s @ wire_ack iden\<rparr>"
  by (simp add: fsm_send_ack_def Let_def fsm_put16_fcs_eq fsm_put16_eq platform_put_def
      wire_ack_def with_fcs_def)

section \<open>The residue of a checked string\<close>

lemma mask_8: "(mask 8 :: u16) = 0xff"
  by (simp add: mask_eq_exp_minus_1)

lemma fcs_step_low: "fcs16 v [ucast (NOT v AND 0xff)] = drop_bit 8 v XOR 0x0f78"
proof -
  have "(v XOR ucast (ucast (NOT v AND 0xff) :: u8)) AND 0xff = mask 8"
    by (rule bit_word_eqI) (auto simp: and_ff_eq_take_bit bit_simps)
  moreover have "fcstab ! 255 = 0x0f78" by (simp add: fcstab_def)
  ultimately show ?thesis by (simp add: fcs16_def mask_8)
qed

lemma fcs_step_high: "fcs16 (drop_bit 8 v XOR 0x0f78) [ucast (drop_bit 8 (NOT v))] = FCS_OK"
proof -
  have "ucast (ucast (drop_bit 8 (NOT v)) :: u8) = drop_bit 8 v XOR mask 8"
    by (rule bit_word_eqI) (auto simp: bit_simps dest: bit_imp_le_length)
  then have "((drop_bit 8 v XOR 0x0f78) XOR ucast (ucast (drop_bit 8 (NOT v)) :: u8)) AND 0xff =
      (0x0f78 XOR 0xff) AND 0xff"
    by (simp only: mask_8 xor_common)
  moreover have "drop_bit 8 (drop_bit 8 v XOR 0x0f78) = 0x0f"
  proof -
    have "drop_bit 8 (drop_bit 8 v) = (0 :: u16)"
      by (rule bit_word_eqI) (auto simp: bit_simps dest: bit_imp_le_length)
    then show ?thesis by simp
  qed
  moreover have "fcstab ! 0x87 = 0xf0b7" by (simp add: fcstab_def)
  ultimately show ?thesis by (simp add: fcs16_def FCS_OK_def)
qed

lemma fcs_residue: "fcs16 v (le16 (v XOR 0xffff)) = FCS_OK"
proof -
  have "(0xffff :: u16) = - 1" by simp
  then have "v XOR 0xffff = NOT v" by (simp only: bit.xor_one_right)
  then have "fcs16 v (le16 (v XOR 0xffff)) =
      fcs16 (fcs16 v [ucast (NOT v AND 0xff)]) [ucast (drop_bit 8 (NOT v))]"
    by (simp add: le16_def fcs16_append [symmetric])
  then show ?thesis by (simp only: fcs_step_low fcs_step_high)
qed

lemma fcs_with_fcs [simp]: "fcs16 FCS_INIT (with_fcs bs) = FCS_OK"
  by (simp add: with_fcs_def fcs16_append fcs_residue)

end
