(* ===== verification/Wire_Correct.thy ===== *)
theory Wire_Correct
  imports Wire
begin

text \<open>
  Correctness of the wire layer: what the senders emit is what the receivers accept
  (round trips), what the receivers accept is a well-formed frame (soundness), when they
  report a timer, and when they are still waiting.
\<close>

section \<open>Completeness of the receivers\<close>

text \<open>Neither the reset nor the resend timer fires at any clock reading still to come.\<close>

definition quiet :: "io \<Rightarrow> bool" where
  "quiet s \<longleftrightarrow> (\<forall>k \<ge> ticks s. \<not> timer_triggered (timers s TIMER_RESET) (clock s k) \<and>
     \<not> timer_triggered (timers s TIMER_RESEND) (clock s k))"

text \<open>
  Neither fires at the readings of the next \<open>n\<close> polls for a start byte: each such poll checks the reset
  timer and then the resend timer.
\<close>

definition patient :: "nat \<Rightarrow> io \<Rightarrow> bool" where
  "patient n s \<longleftrightarrow> (\<forall>j < n. \<not> timer_triggered (timers s TIMER_RESET) (clock s (ticks s + 2 * j)) \<and>
     \<not> timer_triggered (timers s TIMER_RESEND) (clock s (ticks s + 2 * j + 1)))"

lemma quiet_rx [simp]: "quiet (s\<lparr>rx := rs\<rparr>) = quiet s"
  by (simp add: quiet_def)

lemma quiet_patient: "quiet s \<Longrightarrow> patient n s"
  by (simp add: quiet_def patient_def)

lemma check_timers_patient:
  "patient (Suc n) s \<Longrightarrow> check_timers s = (None, s\<lparr>ticks := ticks s + 2\<rparr>)"
  by (auto simp: patient_def check_timers_def fsm_timer_tick_def platform_time_def dest: spec [of _ 0])

lemma patient_next: "patient (Suc n) s \<Longrightarrow> patient n (s\<lparr>ticks := Suc (Suc (ticks s))\<rparr>)"
  by (auto simp: patient_def dest: spec [of _ "Suc _"])

lemma patient_pass_byte [simp]: "patient n (pass_byte c s) = patient n s"
  by (simp add: patient_def pass_byte_def)

lemma passed_pass_byte: "passed (pass_byte c s) = passed s @ (if passthru s then [c] else [])"
  by (simp add: pass_byte_def)

lemma fields_pass_byte [simp]:
  "passthru (pass_byte c s) = passthru s" "tx (pass_byte c s) = tx s" "rx (pass_byte c s) = rx s"
  "fsm_iden (pass_byte c s) = fsm_iden s" "timers (pass_byte c s) = timers s"
  "ticks (pass_byte c s) = ticks s" "clock (pass_byte c s) = clock s"
  by (simp_all add: pass_byte_def)

lemma wait_start_complete:
  "patient (Suc (length cs)) s \<Longrightarrow> x \<notin> set (somes cs) \<Longrightarrow>
   \<exists>s'. wait_start x (cs @ Some x # rest) s = Started s' \<and> rx s' = rest \<and> later (2 * Suc (length cs)) s s' \<and>
     passed s' = passed s @ (if passthru s then somes cs else [])"
proof (induction cs arbitrary: s rule: somes.induct)
  case 1
  then show ?case by (simp add: check_timers_patient later_def)
next
  case (2 cs)
  from "2.prems"(1) have p: "patient (Suc (length cs)) (s\<lparr>ticks := Suc (Suc (ticks s))\<rparr>)"
    using patient_next by auto
  from "2.IH" [OF p] "2.prems" show ?case
    by (cases "passthru s") (auto simp: check_timers_patient later_def)
next
  case (3 c cs)
  from "3.prems"(1) have p: "patient (Suc (length cs)) (pass_byte c (s\<lparr>ticks := Suc (Suc (ticks s))\<rparr>))"
    using patient_next by auto
  from "3.IH" [OF p] "3.prems" show ?case
    by (cases "passthru s") (auto simp: check_timers_patient passed_pass_byte later_def)
qed

lemma map_snd_split:
  "map snd as = h @ x # r \<Longrightarrow> \<exists>ha i as'. as = ha @ (i, x) # as' \<and> map snd ha = h \<and> map snd as' = r"
proof -
  assume "map snd as = h @ x # r"
  then obtain ha p as' where "as = ha @ p # as'" "map snd ha = h" "snd p = x" "map snd as' = r"
    by (force simp: map_eq_append_conv)
  then show ?thesis by (metis prod.collapse)
qed

lemma recv_frame_complete:
  assumes rx: "rx s = delayed as @ rest" and as: "map snd as = h @ [ASC_STX] @ b @ [ASC_ETX, ASC_EOT]"
    and pace: "on_pace s as" and ok: "frame_ok h b"
  shows "\<exists>s'. recv_frame s = Got () s' \<and> rx s' = rest \<and> later (polls_of as) s s' \<and> base s' = base s \<and>
    map (raw_hdr s') [0..<10] = h \<and> map (raw_body s') [0..<length b] = b"
proof -
  from ok have h10: "length h = 10"
    and fcs: "fcs16 FCS_INIT h = FCS_OK" "fcs16 FCS_INIT b = FCS_OK"
    by (simp_all add: frame_ok_def)
  from map_snd_split [of as h ASC_STX "b @ [ASC_ETX, ASC_EOT]"] as obtain ha i as' where
    "as = ha @ (i, ASC_STX) # as'" and ha: "map snd ha = h" and "map snd as' = b @ [ASC_ETX, ASC_EOT]"
    by auto
  moreover from map_snd_split [OF this(3)] obtain ba j k where
    "as' = ba @ [(j, ASC_ETX), (k, ASC_EOT)]" and ba: "map snd ba = b"
    by (auto simp: map_eq_Cons_conv)
  ultimately have e: "as = ha @ (i, ASC_STX) # ba @ [(j, ASC_ETX), (k, ASC_EOT)]" by simp
  have "rx s = delayed ha @ replicate i None @ Some ASC_STX # delayed (ba @ [(j, ASC_ETX), (k, ASC_EOT)]) @ rest"
    "on_pace s ha" using rx pace e by simp_all
  from hdr.recv_bytes_exact [OF this ha] h10 obtain s1 where
    s1: "recv_bytes put_hdr 0 10 s = Got () s1"
      "rx s1 = replicate i None @ Some ASC_STX # delayed (ba @ [(j, ASC_ETX), (k, ASC_EOT)]) @ rest"
      "later (polls_of ha) s s1" "raw_hdr s1 = (\<lambda>j. if j < 10 then h ! j else raw_hdr s j)"
    by auto
  have mh: "map (raw_hdr s1) [0..<10] = h" unfolding s1(4) using h10 by (rule map_store)
  have "on_pace s1 [(i, ASC_STX)]" by (rule on_pace_later [OF _ s1(3)]) (use pace e in simp)
  from wait_for_delayed [OF s1(2) this] obtain s2 where s2: "wait_for ASC_STX s1 = Got () s2"
    "rx s2 = delayed ba @ replicate j None @ Some ASC_ETX # replicate k None @ Some ASC_EOT # rest" "later (Suc i) s1 s2"
    by auto
  have "raw_hdr s2 = raw_hdr s1" using hdr.g.view_wait_for(1) [OF s2(1)] .
  then have "frame_plen s2 = of_le16 (take 2 (drop 2 h))"
    using h10 by (simp add: frame_plen_def s1(4) take_Suc_conv_app_nth numeral_2_eq_2 numeral_3_eq_3)
  with ok have bl: "2 + unat (frame_plen s2) = length b" by (simp add: frame_ok_def)
  have l2: "later (polls_of (ha @ [(i, ASC_STX)])) s s2" using later_trans [OF s1(3) s2(3)] by simp
  have "on_pace s2 ba" by (rule on_pace_later [OF _ l2]) (use pace e in simp)
  from bdy.recv_bytes_exact [OF s2(2) this ba] obtain s3 where
    s3: "recv_bytes put_body 0 (length b) s2 = Got () s3"
      "rx s3 = replicate j None @ Some ASC_ETX # replicate k None @ Some ASC_EOT # rest" "later (polls_of ba) s2 s3"
      "raw_body s3 = (\<lambda>j. if j < length b then b ! j else raw_body s2 j)"
    by auto
  have l3: "later (polls_of (ha @ (i, ASC_STX) # ba)) s s3" using later_trans [OF l2 s3(3)] by (simp add: add.assoc)
  have "on_pace s3 [(j, ASC_ETX)]" by (rule on_pace_later [OF _ l3]) (use pace e in \<open>simp add: add.assoc\<close>)
  from wait_for_delayed [OF s3(2) this] obtain s4 where
    s4: "wait_for ASC_ETX s3 = Got () s4" "rx s4 = replicate k None @ Some ASC_EOT # rest" "later (Suc j) s3 s4" by blast
  have l4: "later (polls_of (ha @ (i, ASC_STX) # ba @ [(j, ASC_ETX)])) s s4"
    using later_trans [OF l3 s4(3)] by (simp add: add.assoc)
  have "on_pace s4 [(k, ASC_EOT)]" by (rule on_pace_later [OF _ l4]) (use pace e in \<open>simp add: add.assoc\<close>)
  from wait_for_delayed [OF s4(2) this] obtain s5 where
    s5: "wait_for ASC_EOT s4 = Got () s5" "rx s5 = rest" "later (Suc k) s4 s5" by blast
  have l5: "later (polls_of as) s s5" using later_trans [OF l4 s5(3)] by (simp add: e add.assoc)
  have "raw_body s5 = raw_body s3"
    using bdy.g.view_wait_for(1) [OF s4(1)] bdy.g.view_wait_for(1) [OF s5(1)] by simp
  then have mb: "map (raw_body s5) [0..<length b] = b"
    unfolding s3(4) by (simp only:) (rule map_store, simp)
  have "recv_frame s = Got () s5"
    unfolding recv_frame_def Let_def s1(1) wait.case mh s2(1)
    by (simp only: fcs bl s3(1) s4(1) s5(1) mb wait.case if_False simp_thms)
  moreover from recv_frame_Got [OF this] obtain h' b' where
    hb: "consumes s (h' @ [ASC_STX] @ b' @ [ASC_ETX, ASC_EOT]) s5" "base s5 = base s"
      "map (raw_hdr s5) [0..<10] = h'" "length h' = 10"
    by (auto simp: frame_ok_def)
  moreover have "h' = h"
    using hb(1,4) s5(2) rx as h10 by (auto simp: consumes_def)
  ultimately show ?thesis using s5(2) l5 mb by auto
qed

lemma recv_ack_frame_complete:
  assumes rx: "rx s = delayed as @ rest" and as: "map snd as = a @ [ASC_EOT]" and pace: "on_pace s as"
    and a: "length a = 4" "fcs16 FCS_INIT a = FCS_OK" "of_le16 (take 2 a) = iden"
  shows "\<exists>s'. recv_ack_frame iden s = Got () s' \<and> rx s' = rest \<and> later (polls_of as) s s' \<and> base s' = base s"
proof -
  from as obtain aa k where e: "as = aa @ [(k, ASC_EOT)]" and aa: "map snd aa = a"
    by (auto simp: map_eq_append_conv map_eq_Cons_conv)
  have "rx s = delayed aa @ replicate k None @ Some ASC_EOT # rest" "on_pace s aa" using rx pace e by simp_all
  from ack.recv_bytes_exact [OF this aa] a(1) obtain s1 where
    s1: "recv_bytes put_ack 0 4 s = Got () s1" "rx s1 = replicate k None @ Some ASC_EOT # rest"
      "later (polls_of aa) s s1" "raw_ack s1 = (\<lambda>j. if j < 4 then a ! j else raw_ack s j)"
    by auto
  have "on_pace s1 [(k, ASC_EOT)]" by (rule on_pace_later [OF _ s1(3)]) (use pace e in simp)
  from wait_for_delayed [OF s1(2) this] obtain s2 where
    s2: "wait_for ASC_EOT s1 = Got () s2" "rx s2 = rest" "later (Suc k) s1 s2" by blast
  have l2: "later (polls_of as) s s2" using later_trans [OF s1(3) s2(3)] by (simp add: e)
  have r: "raw_ack s2 = raw_ack s1" using ack.g.view_wait_for(1) [OF s2(1)] .
  have m: "map (raw_ack s2) [0..<4] = a" unfolding r s1(4) using a(1) by (rule map_store)
  have t: "take 2 a = [raw_ack s2 0, raw_ack s2 1]"
    using a(1) by (simp add: r s1(4) take_Suc_conv_app_nth numeral_2_eq_2)
  have "recv_ack_frame iden s = Got () s2"
    unfolding recv_ack_frame_def using s1(1) s2(1) a(2,3) t
    by (simp add: m del: recv_bytes.simps)
  with recv_ack_frame_Got [OF this] s2(2) l2 show ?thesis by auto
qed

section \<open>What the loop before the start byte leaves alone\<close>

definition still :: "io \<Rightarrow> io \<Rightarrow> bool" where
  "still s s' \<longleftrightarrow> tx s' = tx s \<and> passthru s' = passthru s \<and> fsm_iden s' = fsm_iden s \<and> clock s' = clock s"

lemma still_refl [simp, intro]: "still s s"
  by (simp add: still_def)

lemma still_trans: "still s t \<Longrightarrow> still t u \<Longrightarrow> still s u"
  by (simp add: still_def)

lemma advance_still: "advance s s' \<Longrightarrow> still s s'"
  by (simp add: advance_def base_eqs still_def)

lemma still_simps [simp]:
  "still s (t\<lparr>ticks := n\<rparr>) = still s t" "still s (t\<lparr>rx := r\<rparr>) = still s t"
  "still s (t\<lparr>timers := tm\<rparr>) = still s t" "still s (pass_byte c t) = still s t"
  by (simp_all add: still_def pass_byte_def)

text \<open>
  One look at the two timers: it reports the first of the reset and the resend timer that
  has fired, and without a report it only moves the clock position.
\<close>

lemma check_timers_cases:
  "check_timers s = (r, s') \<Longrightarrow>
   (r = Some FSM_RESET \<and> timer_triggered (timers s TIMER_RESET) (clock s (ticks s)) \<or>
    r = Some FSM_RESEND \<and> timer_triggered (timers s TIMER_RESEND) (clock s (Suc (ticks s))) \<or>
    r = None \<and> timers s' = timers s) \<and> still s s' \<and> rx s' = rx s \<and> ticks s \<le> ticks s'"
  by (auto simp: check_timers_def fsm_timer_tick_def platform_time_def split: if_splits prod.splits)

text \<open>\<open>fired t s\<close>: the timer \<open>t\<close>, as it stands in \<open>s\<close>, is past its deadline at some reading from \<open>s\<close> on.\<close>

definition fired :: "fsm_timer \<Rightarrow> io \<Rightarrow> bool" where
  "fired t s \<longleftrightarrow> (\<exists>k \<ge> ticks s. timer_triggered (timers s t) (clock s k))"

fun status_timer :: "fsm_status \<Rightarrow> fsm_timer option" where
  "status_timer FSM_OK = None"
| "status_timer FSM_RESET = Some TIMER_RESET"
| "status_timer FSM_RESEND = Some TIMER_RESEND"

lemma fired_later:
  "fired t s' \<Longrightarrow> timers s' t = timers s t \<Longrightarrow> clock s' = clock s \<Longrightarrow> ticks s \<le> ticks s' \<Longrightarrow> fired t s"
  by (auto simp: fired_def dest: le_trans)

lemma check_timers_status:
  "check_timers s = (Some st, s') \<Longrightarrow> \<exists>t. status_timer st = Some t \<and> fired t s"
  by (drule check_timers_cases) (auto simp: fired_def, meson le_SucI order_refl)

lemma wait_start_Status:
  "wait_start x rs s = Status st s' \<Longrightarrow>
   (\<exists>t. status_timer st = Some t \<and> fired t s) \<and> still s s' \<and> (\<exists>cs. rs = cs @ rx s')"
proof (induction rs arbitrary: s)
  case Nil
  then show ?case
    by (auto split: prod.splits option.splits dest: check_timers_status check_timers_cases)
next
  case (Cons r rs)
  obtain c s1 where c: "check_timers s = (c, s1)" by fastforce
  show ?case
  proof (cases c)
    case None
    note k = check_timers_cases [OF c [unfolded None]]
    from Cons.prems c None obtain s2 where w: "wait_start x rs s2 = Status st s'"
      and s2: "s2 = s1 \<or> (\<exists>b. s2 = pass_byte b s1)"
      by (auto split: option.splits if_splits)
    from Cons.IH [OF w] obtain t cs where t: "status_timer st = Some t" "fired t s2" "still s2 s'" "rs = cs @ rx s'"
      by blast
    from s2 k have "timers s2 = timers s" "clock s2 = clock s" "ticks s \<le> ticks s2" "still s s2"
      by (auto simp: still_def)
    then have "fired t s" "still s s'" using t(2,3) by (auto intro: fired_later still_trans)
    moreover have "r # rs = (r # cs) @ rx s'" using t(4) by simp
    ultimately show ?thesis using t(1) by blast
  next
    case (Some st')
    with Cons.prems c show ?thesis
      by (auto dest: check_timers_status check_timers_cases)
  qed
qed

lemma wait_start_Started_still:
  "wait_start x rs s = Started s' \<Longrightarrow> still s s' \<and> timers s' = timers s \<and> ticks s \<le> ticks s'"
proof (induction rs arbitrary: s)
  case (Cons r rs)
  obtain c s1 where c: "check_timers s = (c, s1)" by fastforce
  from Cons.prems c have "c = None" by (simp split: option.splits)
  with check_timers_cases [OF c] have
    k: "timers s1 = timers s" "still s s1" "ticks s \<le> ticks s1"
    by simp_all
  have step: ?case if "wait_start x rs s2 = Started s'" "timers s2 = timers s1" "still s1 s2"
    "ticks s1 \<le> ticks s2" for s2
    using Cons.IH [OF that(1)] that(2-) k by (auto intro: still_trans)
  show ?case
  proof (cases r)
    case None
    with Cons.prems c \<open>c = None\<close> show ?thesis by (intro step [of s1]) simp_all
  next
    case (Some b)
    show ?thesis
    proof (cases "b = x")
      case True
      with Some Cons.prems c \<open>c = None\<close> have "s' = s1\<lparr>rx := rs\<rparr>" by simp
      with k show ?thesis by simp
    next
      case False
      with Some Cons.prems c \<open>c = None\<close> show ?thesis by (intro step [of "pass_byte b s1"]) simp_all
    qed
  qed
qed (auto split: prod.splits option.splits)

section \<open>The clock only moves forward\<close>

fun wait_state :: "'a wait \<Rightarrow> io" where
  "wait_state (Got _ s) = s"
| "wait_state (Goto s) = s"
| "wait_state (Starved s) = s"

lemma ticks_tick [simp]: "ticks (snd (fsm_timer_tick t s)) = Suc (ticks s)"
  by (simp add: fsm_timer_tick_def platform_time_def)

lemma ticks_wait_symbol: "ticks s \<le> ticks (wait_state (wait_symbol rs s))"
proof (induction rs arbitrary: s)
  case (Cons r rs)
  from Cons.IH [of "snd (fsm_timer_tick TIMER_SYMBOL s)"] show ?case
    by (cases r) (simp_all add: Let_def)
qed simp

lemma ticks_recv_byte: "ticks s \<le> ticks (wait_state (recv_byte s))"
  using ticks_wait_symbol [of "fsm_timer_clear TIMER_SYMBOL s"]
  by (simp add: recv_byte_def fsm_timer_clear_def platform_time_def) (meson Suc_leD)

lemma ticks_wait_for: "ticks s \<le> ticks (wait_state (wait_for x s))"
  using ticks_recv_byte [of s] by (cases "recv_byte s") (simp_all add: wait_for_def)

lemma ticks_recv_bytes:
  assumes "\<And>i c s. ticks (put i c s) = ticks s"
  shows "ticks s \<le> ticks (wait_state (recv_bytes put i n s))"
proof (induction n arbitrary: i s)
  case (Suc n)
  from ticks_recv_byte [of s] show ?case
    by (auto split: wait.splits intro: le_trans [OF _ Suc.IH] simp: assms)
qed simp

lemma ticks_recv_hdr: "ticks s \<le> ticks (wait_state (recv_bytes put_hdr i n s))"
  by (rule ticks_recv_bytes) (simp add: put_hdr_def)

lemma ticks_recv_body: "ticks s \<le> ticks (wait_state (recv_bytes put_body i n s))"
  by (rule ticks_recv_bytes) (simp add: put_body_def)

lemma ticks_recv_ack: "ticks s \<le> ticks (wait_state (recv_bytes put_ack i n s))"
  by (rule ticks_recv_bytes) (simp add: put_ack_def)

lemma ticks_bind:
  assumes "ticks s \<le> ticks (wait_state w)"
    and "\<And>u t. w = Got u t \<Longrightarrow> ticks t \<le> ticks (wait_state (f u t))"
  shows "ticks s \<le> ticks (wait_state (case w of Got u t \<Rightarrow> f u t | Goto t \<Rightarrow> Goto t | Starved t \<Rightarrow> Starved t))"
  using assms by (cases w) (auto intro: le_trans)

lemma ticks_if:
  "ticks s \<le> ticks (wait_state x) \<Longrightarrow> ticks s \<le> ticks (wait_state y) \<Longrightarrow>
   ticks s \<le> ticks (wait_state (if b then x else y))"
  by simp

lemmas ticks_intros = ticks_bind ticks_if ticks_recv_hdr ticks_recv_body ticks_recv_ack ticks_wait_for

lemma ticks_recv_frame: "ticks s \<le> ticks (wait_state (recv_frame s))"
  unfolding recv_frame_def Let_def by (intro ticks_intros) simp_all

lemma ticks_recv_ack_frame: "ticks s \<le> ticks (wait_state (recv_ack_frame iden s))"
  unfolding recv_ack_frame_def by (intro ticks_intros) simp_all

section \<open>Soundness of the receivers\<close>

text \<open>What an accepted frame is, in terms of the bytes that the polls delivered.\<close>

definition accepted :: "io \<Rightarrow> io \<Rightarrow> bool" where
  "accepted s s' \<longleftrightarrow> (\<exists>pre h b. frame_ok h b \<and>
     consumes s (pre @ [ASC_SOH] @ h @ [ASC_STX] @ b @ [ASC_ETX, ASC_EOT]) s' \<and>
     frame_iden s' = of_le16 (take 2 h) \<and> frame_type s' = take 4 (drop 4 h) \<and>
     frame_body s' = take (length b - 2) b)"

definition acked :: "u16 \<Rightarrow> io \<Rightarrow> io \<Rightarrow> bool" where
  "acked iden s s' \<longleftrightarrow> (\<exists>pre a. length a = 4 \<and> fcs16 FCS_INIT a = FCS_OK \<and>
     of_le16 (take 2 a) = iden \<and> consumes s (pre @ [ASC_ACK] @ a @ [ASC_EOT]) s')"

lemma header_fields:
  assumes "map (raw_hdr s) [0..<10] = h" and "map (raw_body s) [0..<length b] = b" and "frame_ok h b"
  shows "frame_iden s = of_le16 (take 2 h)" "frame_plen s = of_le16 (take 2 (drop 2 h))"
    "frame_type s = take 4 (drop 4 h)" "frame_body s = take (length b - 2) b"
proof -
  have e: "h ! i = raw_hdr s i" if "i < 10" for i using that by (simp flip: assms(1))
  have l: "length h = 10" by (simp flip: assms(1))
  show "frame_iden s = of_le16 (take 2 h)"
    using l by (simp add: frame_iden_def e take_Suc_conv_app_nth numeral_2_eq_2)
  show pl: "frame_plen s = of_le16 (take 2 (drop 2 h))"
    using l by (simp add: frame_plen_def e take_Suc_conv_app_nth numeral_2_eq_2 numeral_3_eq_3)
  show "frame_type s = take 4 (drop 4 h)"
    using l by (intro nth_equalityI) (auto simp: frame_type_def e less_Suc_eq numeral_eq_Suc)
  from pl assms(3) have "length b - 2 = unat (frame_plen s)" by (simp add: frame_ok_def)
  moreover have "b ! i = raw_body s i" if "i < length b" for i
    using arg_cong [OF assms(2), of "\<lambda>l. l ! i"] that by simp
  ultimately show "frame_body s = take (length b - 2) b"
    by (intro nth_equalityI) (auto simp: frame_body_def)
qed

lemma Started_consumes:
  "wait_start x (rx s) s = Started t \<Longrightarrow> \<exists>pre. consumes s (pre @ [x]) t"
  by (drule wait_start_Started) (auto simp: consumes_def intro!: exI [of _ "_ @ [Some x]"])

lemma recv_frame_accepted:
  assumes "wait_start ASC_SOH (rx s) s = Started t" and "recv_frame t = Got u s'"
  shows "accepted s s'"
proof -
  from recv_frame_Got [OF assms(2)] obtain h b where
    hb: "frame_ok h b" "consumes t (h @ [ASC_STX] @ b @ [ASC_ETX, ASC_EOT]) s'"
      "map (raw_hdr s') [0..<10] = h" "map (raw_body s') [0..<length b] = b" by blast
  from Started_consumes [OF assms(1)] obtain pre where "consumes s (pre @ [ASC_SOH]) t" by blast
  from consumes_trans [OF this hb(2)] header_fields [OF hb(3,4,1)] hb(1) show ?thesis
    by (auto simp: accepted_def)
qed

lemma consumes_shift: "consumes s bs t \<Longrightarrow> consumes t (pre @ r) s' \<Longrightarrow> consumes s ((bs @ pre) @ r) s'"
  using consumes_trans [of s bs t "pre @ r" s'] by simp

lemma accepted_trans: "consumes s bs t \<Longrightarrow> accepted t s' \<Longrightarrow> accepted s s'"
  unfolding accepted_def by (blast dest: consumes_shift)

lemma acked_trans: "consumes s bs t \<Longrightarrow> acked iden t s' \<Longrightarrow> acked iden s s'"
  unfolding acked_def by (blast dest: consumes_shift)

lemma recv_ack_frame_acked:
  assumes "wait_start ASC_ACK (rx s) s = Started t" and "recv_ack_frame iden t = Got u s'"
  shows "acked iden s s'"
proof -
  from recv_ack_frame_Got [OF assms(2)] obtain a where
    a: "length a = 4" "fcs16 FCS_INIT a = FCS_OK" "of_le16 (take 2 a) = iden"
      "consumes t (a @ [ASC_EOT]) s'" by blast
  from Started_consumes [OF assms(1)] obtain pre where "consumes s (pre @ [ASC_ACK]) t" by blast
  from consumes_trans [OF this a(4)] a show ?thesis by (auto simp: acked_def)
qed

lemma consumesI: "rx s = cs @ rx s' \<Longrightarrow> \<exists>bs. consumes s bs s'"
  by (auto simp: consumes_def)

text \<open>A retry inside a receiver: from the start label back to it.\<close>

definition retry :: "io \<Rightarrow> io \<Rightarrow> bool" where
  "retry s s' \<longleftrightarrow> still s s' \<and> (\<exists>bs. consumes s bs s') \<and> ticks s \<le> ticks s' \<and>
     timers s' TIMER_RESET = timers s TIMER_RESET \<and> timers s' TIMER_RESEND = timers s TIMER_RESEND"

lemma retryI:
  assumes "wait_start x (rx s) s = Started t" "advance t s'" "ticks t \<le> ticks s'"
  shows "retry s s'"
  using Started_consumes [OF assms(1)] wait_start_Started_still [OF assms(1)] assms(2,3)
    advance_still [OF assms(2)]
  by (auto simp: retry_def advance_def base_eqs intro: consumes_trans still_trans)

lemma recv_frame_retry:
  assumes "wait_start ASC_SOH (rx s) s = Started t"
  shows "recv_frame t = Goto s' \<Longrightarrow> retry s s'" "recv_frame t = Got u s' \<Longrightarrow> retry s s'"
  using ticks_recv_frame [of t] recv_frame_Goto [of t s'] recv_frame_Got [of t u s']
  by (auto simp: advance_def intro!: retryI [OF assms])

lemma recv_ack_frame_retry:
  assumes "wait_start ASC_ACK (rx s) s = Started t"
  shows "recv_ack_frame iden t = Goto s' \<Longrightarrow> retry s s'" "recv_ack_frame iden t = Got u s' \<Longrightarrow> retry s s'"
  using ticks_recv_ack_frame [of t iden] recv_ack_frame_Goto [of iden t s'] recv_ack_frame_Got [of iden t u s']
  by (auto simp: advance_def intro!: retryI [OF assms])

lemma retry_fired:
  "retry s s' \<Longrightarrow> status_timer st = Some t \<Longrightarrow> fired t s' \<Longrightarrow> fired t s"
  by (cases st) (auto simp: retry_def still_def intro: fired_later)

definition explained :: "(io \<Rightarrow> io \<Rightarrow> bool) \<Rightarrow> fsm_status \<Rightarrow> io \<Rightarrow> io \<Rightarrow> bool" where
  "explained good st s s' \<longleftrightarrow> still s s' \<and> (\<exists>bs. consumes s bs s') \<and>
     (case status_timer st of
        None \<Rightarrow> good s s' \<and> timers s' TIMER_RESET = timers s TIMER_RESET \<and>
          timers s' TIMER_RESEND = timers s TIMER_RESEND
      | Some t \<Rightarrow> fired t s)"

lemma explained_retry:
  assumes "retry s t" "explained good st t s'" "\<And>bs. consumes s bs t \<Longrightarrow> good t s' \<Longrightarrow> good s s'"
  shows "explained good st s s'"
  using assms retry_fired [OF assms(1)]
  by (auto simp: explained_def retry_def intro: still_trans consumes_trans split: option.splits)

lemma fsm_recv_explained:
  "fsm_recv s = Returned st s' \<Longrightarrow> explained accepted st s s'"
proof (induction s rule: fsm_recv.induct)
  case (1 s)
  show ?case
  proof (cases "wait_start ASC_SOH (rx s) s")
    case (Status st1 s1)
    with "1.prems" wait_start_Status [OF Status] show ?thesis
      by (auto simp: fsm_recv.simps [of s] explained_def intro: consumesI)
  next
    case (NoStart s1)
    with "1.prems" show ?thesis by (simp add: fsm_recv.simps [of s])
  next
    case (Started t)
    show ?thesis
    proof (cases "recv_frame t")
      case (Got u s1)
      with "1.prems" Started recv_frame_retry(2) [OF Started Got] recv_frame_accepted [OF Started Got]
      show ?thesis by (auto simp: fsm_recv.simps [of s] explained_def retry_def)
    next
      case (Goto s1)
      with "1.prems" Started have "fsm_recv s1 = Returned st s'" by (simp add: fsm_recv.simps [of s])
      from "1.IH" [OF Started Goto this] recv_frame_retry(1) [OF Started Goto] show ?thesis
        by (auto intro: explained_retry accepted_trans)
    next
      case (Starved s1)
      with "1.prems" Started show ?thesis by (simp add: fsm_recv.simps [of s])
    qed
  qed
qed

lemma fsm_recv_ack_explained:
  "fsm_recv_ack iden s = Returned st s' \<Longrightarrow> explained (acked iden) st s s'"
proof (induction iden s rule: fsm_recv_ack.induct)
  case (1 iden s)
  show ?case
  proof (cases "wait_start ASC_ACK (rx s) s")
    case (Status st1 s1)
    with "1.prems" wait_start_Status [OF Status] show ?thesis
      by (auto simp: fsm_recv_ack.simps [of iden s] explained_def intro: consumesI)
  next
    case (NoStart s1)
    with "1.prems" show ?thesis by (simp add: fsm_recv_ack.simps [of iden s])
  next
    case (Started t)
    show ?thesis
    proof (cases "recv_ack_frame iden t")
      case (Got u s1)
      with "1.prems" Started recv_ack_frame_retry(2) [OF Started Got] recv_ack_frame_acked [OF Started Got]
      show ?thesis by (auto simp: fsm_recv_ack.simps [of iden s] explained_def retry_def)
    next
      case (Goto s1)
      with "1.prems" Started have "fsm_recv_ack iden s1 = Returned st s'"
        by (simp add: fsm_recv_ack.simps [of iden s])
      from "1.IH" [OF Started Goto this] recv_ack_frame_retry(1) [OF Started Goto] show ?thesis
        by (auto intro: explained_retry acked_trans)
    next
      case (Starved s1)
      with "1.prems" Started show ?thesis by (simp add: fsm_recv_ack.simps [of iden s])
    qed
  qed
qed

section \<open>Completeness, for whole receptions\<close>

text \<open>
  A frame arrives: its start byte behind the polls \<open>junk\<close>, the other bytes with pauses, in time for the
  three timers.
\<close>

lemma fsm_recv_arrives:
  assumes "patient (Suc (length junk)) s" and "ASC_SOH \<notin> set (somes junk)" and "frame_ok h b"
    and "rx s = junk @ Some ASC_SOH # delayed as @ rest"
    and "map snd as = h @ [ASC_STX] @ b @ [ASC_ETX, ASC_EOT]"
    and "prompt (clock s) (period (timers s TIMER_SYMBOL)) (ticks s + 2 * Suc (length junk)) as"
  shows "\<exists>s'. fsm_recv s = Returned FSM_OK s' \<and> rx s' = rest \<and> still s s' \<and>
    later (2 * Suc (length junk) + polls_of as) s s' \<and>
    timers s' TIMER_RESET = timers s TIMER_RESET \<and> timers s' TIMER_RESEND = timers s TIMER_RESEND \<and>
    passed s' = passed s @ (if passthru s then somes junk else []) \<and>
    frame_iden s' = of_le16 (take 2 h) \<and> frame_plen s' = of_le16 (take 2 (drop 2 h)) \<and>
    frame_type s' = take 4 (drop 4 h) \<and> frame_body s' = take (length b - 2) b"
proof -
  from wait_start_complete [OF assms(1,2)] obtain t where
    t: "wait_start ASC_SOH (rx s) s = Started t" "rx t = delayed as @ rest" "later (2 * Suc (length junk)) s t"
      "passed t = passed s @ (if passthru s then somes junk else [])"
    unfolding assms(4) by blast
  have "on_pace t as" using assms(6) t(3) by (simp add: later_def)
  from recv_frame_complete [OF t(2) assms(5) this assms(3)] obtain s' where
    s': "recv_frame t = Got () s'" "rx s' = rest" "later (polls_of as) t s'" "base s' = base t"
      "map (raw_hdr s') [0..<10] = h" "map (raw_body s') [0..<length b] = b" by blast
  have "fsm_recv s = Returned FSM_OK s'" using t(1) s'(1) by (simp add: fsm_recv.simps [of s])
  moreover have "still s s'" "timers s' TIMER_RESET = timers s TIMER_RESET" "timers s' TIMER_RESEND = timers s TIMER_RESEND"
    using fsm_recv_explained [OF calculation] by (simp_all add: explained_def)
  ultimately show ?thesis
    using header_fields [OF s'(5,6) assms(3)] s'(2,4) t(4) later_trans [OF t(3) s'(3)] by (auto simp: base_eqs)
qed

lemma fsm_recv_ack_arrives:
  assumes "patient (Suc (length junk)) s" and "ASC_ACK \<notin> set (somes junk)"
    and "length a = 4" "fcs16 FCS_INIT a = FCS_OK" "of_le16 (take 2 a) = iden"
    and "rx s = junk @ Some ASC_ACK # delayed as @ rest" "map snd as = a @ [ASC_EOT]"
    and "prompt (clock s) (period (timers s TIMER_SYMBOL)) (ticks s + 2 * Suc (length junk)) as"
  shows "\<exists>s'. fsm_recv_ack iden s = Returned FSM_OK s' \<and> rx s' = rest \<and> still s s' \<and>
    later (2 * Suc (length junk) + polls_of as) s s' \<and>
    timers s' TIMER_RESET = timers s TIMER_RESET \<and> timers s' TIMER_RESEND = timers s TIMER_RESEND \<and>
    passed s' = passed s @ (if passthru s then somes junk else [])"
proof -
  from wait_start_complete [OF assms(1,2)] obtain t where
    t: "wait_start ASC_ACK (rx s) s = Started t" "rx t = delayed as @ rest" "later (2 * Suc (length junk)) s t"
      "passed t = passed s @ (if passthru s then somes junk else [])"
    unfolding assms(6) by blast
  have "on_pace t as" using assms(8) t(3) by (simp add: later_def)
  from recv_ack_frame_complete [OF t(2) assms(7) this assms(3-5)] obtain s' where
    s': "recv_ack_frame iden t = Got () s'" "rx s' = rest" "later (polls_of as) t s'" "base s' = base t" by blast
  have "fsm_recv_ack iden s = Returned FSM_OK s'"
    using t(1) s'(1) by (simp add: fsm_recv_ack.simps [of iden s])
  moreover have "still s s'" "timers s' TIMER_RESET = timers s TIMER_RESET" "timers s' TIMER_RESEND = timers s TIMER_RESEND"
    using fsm_recv_ack_explained [OF calculation] by (simp_all add: explained_def)
  ultimately show ?thesis using s'(2,4) t(4) later_trans [OF t(3) s'(3)] by (auto simp: base_eqs)
qed

text \<open>The same without a pause in the frame.\<close>

lemma fsm_recv_complete:
  assumes "quiet s" and "ASC_SOH \<notin> set (somes junk)" and "frame_ok h b"
    and "rx s = junk @ map Some ([ASC_SOH] @ h @ [ASC_STX] @ b @ [ASC_ETX, ASC_EOT]) @ rest"
  shows "\<exists>s'. fsm_recv s = Returned FSM_OK s' \<and> rx s' = rest \<and> still s s' \<and>
    passed s' = passed s @ (if passthru s then somes junk else []) \<and>
    frame_iden s' = of_le16 (take 2 h) \<and> frame_plen s' = of_le16 (take 2 (drop 2 h)) \<and>
    frame_type s' = take 4 (drop 4 h) \<and> frame_body s' = take (length b - 2) b"
  using fsm_recv_arrives [OF quiet_patient [OF assms(1)] assms(2,3),
      of "map (Pair 0) (h @ [ASC_STX] @ b @ [ASC_ETX, ASC_EOT])" rest] assms(4)
  unfolding delayed_at_once by (auto simp: comp_def)

lemma fsm_recv_ack_complete:
  assumes "quiet s" and "ASC_ACK \<notin> set (somes junk)"
    and "length a = 4" "fcs16 FCS_INIT a = FCS_OK" "of_le16 (take 2 a) = iden"
    and "rx s = junk @ map Some ([ASC_ACK] @ a @ [ASC_EOT]) @ rest"
  shows "\<exists>s'. fsm_recv_ack iden s = Returned FSM_OK s' \<and> rx s' = rest \<and> still s s' \<and>
    passed s' = passed s @ (if passthru s then somes junk else [])"
  using fsm_recv_ack_arrives [OF quiet_patient [OF assms(1)] assms(2-5), of "map (Pair 0) (a @ [ASC_EOT])" rest] assms(6)
  unfolding delayed_at_once by (auto simp: comp_def)

lemma wire_frame_ok:
  assumes "length type = 4" and "length payload < 65536"
    and h: "h = with_fcs (le16 iden @ le16 (of_nat (length payload)) @ type)"
    and b: "b = with_fcs payload"
  shows "frame_ok h b" "of_le16 (take 2 h) = iden"
    "of_le16 (take 2 (drop 2 h)) = of_nat (length payload)"
    "take 4 (drop 4 h) = type" "take (length b - 2) b = payload"
proof -
  have "fcs16 FCS_INIT h = FCS_OK" "fcs16 FCS_INIT b = FCS_OK" by (simp_all add: h b)
  then show "frame_ok h b" "of_le16 (take 2 h) = iden"
    "of_le16 (take 2 (drop 2 h)) = of_nat (length payload)"
    "take 4 (drop 4 h) = type" "take (length b - 2) b = payload"
    using assms(1,2) unfolding frame_ok_def by (simp_all add: h b with_fcs_def unat_of_nat)
qed

text \<open>A state of the machine with no timer armed, for concrete runs.\<close>

definition idle_io :: io where
  "idle_io = \<lparr>timers = (\<lambda>_. \<lparr>last = 0, period = 0, active = False\<rparr>), fsm_iden = 0,
     raw_hdr = (\<lambda>_. 0), raw_body = (\<lambda>_. 0), raw_ack = (\<lambda>_. 0), clock = (\<lambda>_. 0), ticks = 0,
     rx = [], tx = [], passthru = True, passed = []\<rparr>"

lemma quiet_idle [simp]: "quiet idle_io"
  by (simp add: quiet_def idle_io_def timer_triggered_def)

lemma idle_fields [simp]:
  "tx idle_io = []" "passed idle_io = []" "passthru idle_io" "fsm_iden idle_io = 0"
  by (simp_all add: idle_io_def)

section \<open>Properties\<close>

text \<open>
  C6: what \<open>fsm_send\<close> puts on the wire, \<open>fsm_recv\<close> on the other side accepts: for every frame
  type, every payload below 64 KiB and every noise without a start byte before it, the
  receiver returns \<open>FSM_OK\<close> with the sender's identifier, type and payload in the frame
  buffer, the rest of the line unread, and hands the noise to the pass-through hook.
  The frame's bytes come without a pause, and no timer of the receiver expires (\<open>quiet\<close>);
  \<open>recv_frame_complete\<close> is the form with pauses.
\<close>

theorem fsm_send_recv_roundtrip:
  assumes "length type = 4" and "length payload < 65536"
    and "tx (fsm_send type payload (of_nat (length payload)) s) = tx s @ sent"
    and "rx r = junk @ map Some sent @ rest" and "ASC_SOH \<notin> set (somes junk)" and "quiet r"
  shows "\<exists>r'. fsm_recv r = Returned FSM_OK r' \<and> frame_iden r' = fsm_iden s \<and>
    frame_plen r' = of_nat (length payload) \<and> frame_type r' = type \<and> frame_body r' = payload \<and>
    rx r' = rest \<and> tx r' = tx r \<and> fsm_iden r' = fsm_iden r \<and>
    passed r' = passed r @ (if passthru r then somes junk else [])"
proof -
  let ?h = "with_fcs (le16 (fsm_iden s) @ le16 (of_nat (length payload)) @ type)"
  have "sent = wire_frame (fsm_iden s) type payload"
    using assms(3) fsm_send_eq [OF assms(1,2)] by simp
  then have "rx r = junk @ map Some ([ASC_SOH] @ ?h @ [ASC_STX] @ with_fcs payload @
      [ASC_ETX, ASC_EOT]) @ rest"
    using assms(4) by (simp add: wire_frame_def)
  from fsm_recv_complete [OF assms(6,5) wire_frame_ok(1) [OF assms(1,2) refl refl] this]
  show ?thesis unfolding wire_frame_ok [OF assms(1,2) refl refl] by (auto simp: still_def)
qed

theorem fsm_send_recv_roundtrip_witness:
  "\<exists>r'. fsm_recv (idle_io\<lparr>rx := [Some 0x55, None] @ map Some (wire_frame 0 HOST_POLL [1, 2, 3]) @ [None]\<rparr>) =
     Returned FSM_OK r' \<and> frame_type r' = HOST_POLL \<and> frame_body r' = [1, 2, 3] \<and> passed r' = [0x55]"
proof -
  let ?r = "idle_io\<lparr>rx := [Some 0x55, None] @ map Some (wire_frame 0 HOST_POLL [1, 2, 3]) @ [None]\<rparr>"
  have "fsm_send HOST_POLL [1, 2, 3] (of_nat (length [1, 2, 3 :: u8])) idle_io =
      idle_io\<lparr>tx := tx idle_io @ wire_frame (fsm_iden idle_io) HOST_POLL [1, 2, 3]\<rparr>"
    by (rule fsm_send_eq) (simp_all add: HOST_POLL_def)
  then have "tx (fsm_send HOST_POLL [1, 2, 3] (of_nat (length [1, 2, 3 :: u8])) idle_io) =
      tx idle_io @ wire_frame 0 HOST_POLL [1, 2, 3]"
    by (simp add: idle_io_def)
  from fsm_send_recv_roundtrip [OF _ _ this, of ?r "[Some 0x55, None]" "[None]"] show ?thesis
    by (auto simp: HOST_POLL_def ASC_SOH_def)
qed

text \<open>
  An acknowledgement sent with \<open>fsm_send_ack\<close> is accepted by \<open>fsm_recv_ack\<close> waiting for the
  same identifier, whatever noise without an ACK byte precedes it.
\<close>

theorem fsm_send_ack_roundtrip:
  assumes "tx (fsm_send_ack iden s) = tx s @ sent"
    and "rx r = junk @ map Some sent @ rest" and "ASC_ACK \<notin> set (somes junk)" and "quiet r"
  shows "\<exists>r'. fsm_recv_ack iden r = Returned FSM_OK r' \<and> rx r' = rest \<and> tx r' = tx r \<and>
    passed r' = passed r @ (if passthru r then somes junk else [])"
proof -
  have "rx r = junk @ map Some ([ASC_ACK] @ with_fcs (le16 iden) @ [ASC_EOT]) @ rest"
    using assms(1,2) fsm_send_ack_eq [of iden s] by (simp add: wire_ack_def)
  moreover have "length (with_fcs (le16 iden)) = 4" "of_le16 (take 2 (with_fcs (le16 iden))) = iden"
    by (simp_all add: with_fcs_def)
  ultimately show ?thesis
    using fsm_recv_ack_complete [OF assms(4,3) _ fcs_with_fcs] by (fastforce simp: still_def)
qed

theorem fsm_send_ack_roundtrip_witness:
  "\<exists>r'. fsm_recv_ack 7 (idle_io\<lparr>rx := [None, Some 1] @ map Some (wire_ack 7)\<rparr>) = Returned FSM_OK r' \<and> rx r' = []"
  using fsm_send_ack_roundtrip [of 7 idle_io "wire_ack 7"
      "idle_io\<lparr>rx := [None, Some 1] @ map Some (wire_ack 7)\<rparr>" "[None, Some 1]" "[]"]
  by (auto simp: fsm_send_ack_eq ASC_ACK_def)

text \<open>
  C7: \<open>fsm_recv\<close> returns for a reason. \<open>FSM_OK\<close> means that the bytes read end in a complete
  frame (start byte, ten header bytes and a body of the announced length, each with the good
  check sequence, and all three delimiters) and that the frame buffer holds its identifier,
  type and body; \<open>FSM_RESET\<close> and \<open>FSM_RESEND\<close> mean that the corresponding timer, as armed at
  the call, was past its deadline at a later reading of the clock. Nothing is sent and the
  machine's identifier is unchanged.
\<close>

theorem fsm_recv_sound:
  assumes "fsm_recv s = Returned st s'"
  shows "tx s' = tx s \<and> fsm_iden s' = fsm_iden s \<and>
    (case st of FSM_OK \<Rightarrow> accepted s s' | FSM_RESET \<Rightarrow> fired TIMER_RESET s | FSM_RESEND \<Rightarrow> fired TIMER_RESEND s)"
  using fsm_recv_explained [OF assms] by (cases st) (simp_all add: explained_def still_def)

theorem fsm_recv_sound_witness:
  "\<exists>s'. fsm_recv (idle_io\<lparr>timers := (\<lambda>_. \<lparr>last = 0, period = 5, active = True\<rparr>), clock := (\<lambda>_. 9)\<rparr>) =
      Returned FSM_RESET s' \<and> tx s' = [] \<and>
      fired TIMER_RESET (idle_io\<lparr>timers := (\<lambda>_. \<lparr>last = 0, period = 5, active = True\<rparr>), clock := (\<lambda>_. 9)\<rparr>)"
proof -
  let ?s = "idle_io\<lparr>timers := (\<lambda>_. \<lparr>last = 0, period = 5, active = True\<rparr>), clock := (\<lambda>_. 9)\<rparr>"
  obtain s' where s': "fsm_recv ?s = Returned FSM_RESET s'"
    by (simp add: fsm_recv.simps idle_io_def check_timers_def fsm_timer_tick_def platform_time_def
        timer_triggered_def)
  with fsm_recv_sound [OF s'] show ?thesis by (simp add: idle_io_def)
qed

text \<open>
  \<open>fsm_recv_ack\<close> returns \<open>FSM_OK\<close> only for an acknowledgement on the line with a good check
  sequence that carries exactly the awaited identifier, and \<open>FSM_RESET\<close> or \<open>FSM_RESEND\<close> only
  when that timer is past its deadline.
\<close>

theorem fsm_recv_ack_sound:
  assumes "fsm_recv_ack iden s = Returned st s'"
  shows "tx s' = tx s \<and> fsm_iden s' = fsm_iden s \<and>
    (case st of FSM_OK \<Rightarrow> acked iden s s' | FSM_RESET \<Rightarrow> fired TIMER_RESET s | FSM_RESEND \<Rightarrow> fired TIMER_RESEND s)"
  using fsm_recv_ack_explained [OF assms] by (cases st) (simp_all add: explained_def still_def)

theorem fsm_recv_ack_sound_witness:
  "\<exists>s'. fsm_recv_ack 7 (idle_io\<lparr>rx := map Some (wire_ack 7)\<rparr>) = Returned FSM_OK s' \<and>
     acked 7 (idle_io\<lparr>rx := map Some (wire_ack 7)\<rparr>) s'"
proof -
  let ?s = "idle_io\<lparr>rx := map Some (wire_ack 7)\<rparr>"
  have "\<exists>s'. fsm_recv_ack 7 ?s = Returned FSM_OK s'"
    using fsm_recv_ack_complete [of ?s "[]" "with_fcs (le16 7)" 7 "[]"]
    by (auto simp: wire_ack_def with_fcs_def fcs_residue fcs16_append)
  then obtain s' where s': "fsm_recv_ack 7 ?s = Returned FSM_OK s'" ..
  with fsm_recv_ack_sound [OF s'] show ?thesis by simp
qed

end
