(* ===== verification/Fsm.thy ===== *)
theory Fsm
  imports Wire_Correct
begin

text \<open>
  The two protocol machines of \<^verbatim>\<open>pup/fsm.c\<close>: \<open>fsm_download\<close>, run by the boot loader on the
  device, and \<open>fsm_upload\<close>, run by the host. Each is a step function on a control point (the
  label or loop head where the code stands) and the machine's variables; a step is one pass
  from a control point to the next, the whole code between them. The platform operations
  each machine calls are arguments: a record of functions for the device, the marshalling
  function for the host.
\<close>

section \<open>Metadata, chunk requests and boot reports\<close>

record meta_t =
  image_format :: u32
  compression_type :: u32
  wire_size :: u32
  mem_size :: u32
  mem_crc32 :: u32
  load_addr :: u64

text \<open>
  The bytes of a \<open>meta_t\<close>: five 32-bit words, four bytes of padding and the 64-bit load
  address. The padding has no defined value, so it is an argument.
\<close>

definition META_SIZE :: nat where "META_SIZE = 32"

definition meta_bytes :: "u8 list \<Rightarrow> meta_t \<Rightarrow> u8 list" where
  "meta_bytes pad m = le32 (image_format m) @ le32 (compression_type m) @ le32 (wire_size m) @
     le32 (mem_size m) @ le32 (mem_crc32 m) @ pad @ le64 (load_addr m)"

definition of_meta_bytes :: "u8 list \<Rightarrow> meta_t" where
  "of_meta_bytes bs = \<lparr>image_format = of_le32 (take 4 bs),
     compression_type = of_le32 (take 4 (drop 4 bs)),
     wire_size = of_le32 (take 4 (drop 8 bs)), mem_size = of_le32 (take 4 (drop 12 bs)),
     mem_crc32 = of_le32 (take 4 (drop 16 bs)), load_addr = of_le64 (take 8 (drop 24 bs))\<rparr>"

lemma length_meta_bytes [simp]: "length pad = 4 \<Longrightarrow> length (meta_bytes pad m) = META_SIZE"
  by (simp add: meta_bytes_def META_SIZE_def)

lemma of_meta_bytes_meta_bytes [simp]: "length pad = 4 \<Longrightarrow> of_meta_bytes (meta_bytes pad m) = m"
  by (simp add: meta_bytes_def of_meta_bytes_def)

text \<open>The chunk size of the protocol is 65535 bytes.\<close>

definition chunks_of :: "u32 \<Rightarrow> u32" where
  "chunks_of sz = (sz + 0xfffe) div 0xffff"

section \<open>Arming the timers\<close>

definition set_period :: "fsm_timer \<Rightarrow> u64 \<Rightarrow> io \<Rightarrow> io" where
  "set_period t p s = s\<lparr>timers := (timers s)(t := (timers s t)\<lparr>period := p\<rparr>)\<rparr>"

definition set_active :: "fsm_timer \<Rightarrow> bool \<Rightarrow> io \<Rightarrow> io" where
  "set_active t b s = s\<lparr>timers := (timers s)(t := (timers s t)\<lparr>active := b\<rparr>)\<rparr>"

definition set_periods :: "config_t \<Rightarrow> io \<Rightarrow> io option" where
  "set_periods config s = do {
     reset \<leftarrow> config_reset_timeout_us config;
     resend \<leftarrow> config_resend_timeout_us config;
     symbol \<leftarrow> config_symbol_timeout_us config;
     Some (set_active TIMER_SYMBOL True
       (set_period TIMER_SYMBOL symbol (set_period TIMER_RESEND resend (set_period TIMER_RESET reset s))))
   }"

definition set_iden :: "u16 \<Rightarrow> io \<Rightarrow> io" where
  "set_iden i s = s\<lparr>fsm_iden := i\<rparr>"

section \<open>The downloader\<close>

text \<open>
  What the machine calls on the device. \<open>None\<close> is a call that does not return: a panic, or
  a loop without end.
\<close>

record 'p device_ops =
  init_meta :: "meta_t \<Rightarrow> 'p \<Rightarrow> bool \<times> 'p"
  feed_op :: "u32 \<Rightarrow> u8 list \<Rightarrow> 'p \<Rightarrow> (bool \<times> 'p) option"
  load_op :: "'p \<Rightarrow> io \<Rightarrow> (bool \<times> 'p \<times> io) option"

datatype dl_pc = DL_Reset | DL_Init | DL_Chunk | DL_Load | DL_Boot | DL_Done | DL_Hang

record 'p dl =
  dl_pc :: dl_pc
  dl_io :: io
  dl_dev :: 'p
  dl_meta :: meta_t
  chunk_num :: u32
  chunk_count :: u32
  boot_ok :: bool

text \<open>The label \<open>reset\<close>.\<close>

definition dl_reset :: "'p dl \<Rightarrow> 'p dl" where
  "dl_reset d = d\<lparr>dl_pc := DL_Init,
     dl_io := set_active TIMER_RESEND False (set_active TIMER_RESET False (set_iden 0 (dl_io d)))\<rparr>"

text \<open>A poll frame was received: check and store the metadata, acknowledge, count the chunks.\<close>

definition dl_poll :: "'p device_ops \<Rightarrow> 'p dl \<Rightarrow> 'p dl" where
  "dl_poll ops d =
     (let meta = of_meta_bytes (frame_body (dl_io d));
          (ok, p) = init_meta ops meta (dl_dev d)
      in if \<not> ok then d\<lparr>dl_pc := DL_Reset, dl_dev := p, dl_meta := meta\<rparr>
         else d\<lparr>dl_pc := DL_Chunk, dl_dev := p, dl_meta := meta,
           dl_io := fsm_send_ack 0 (fsm_timer_clear TIMER_RESET (dl_io d)),
           chunk_count := chunks_of (wire_size meta), chunk_num := 0\<rparr>)"

definition dl_init :: "'p device_ops \<Rightarrow> 'p dl \<Rightarrow> 'p dl" where
  "dl_init ops d =
     (case fsm_recv (dl_io d) of
        Hang s \<Rightarrow> d\<lparr>dl_pc := DL_Hang, dl_io := s\<rparr>
      | Returned r s \<Rightarrow>
          let d = d\<lparr>dl_io := s\<rparr>
          in if r = FSM_OK \<and> frame_type s = HOST_POLL \<and> frame_iden s = 0 \<and>
               unat (frame_plen s) = META_SIZE
             then dl_poll ops d else d)"

text \<open>The awaited chunk was received: hand it to the platform and move to the next one.\<close>

definition dl_feed :: "'p device_ops \<Rightarrow> 'p dl \<Rightarrow> 'p dl" where
  "dl_feed ops d =
     (case feed_op ops (chunk_num d) (frame_body (dl_io d)) (dl_dev d) of
        None \<Rightarrow> d\<lparr>dl_pc := DL_Hang\<rparr>
      | Some (ok, p) \<Rightarrow>
          if \<not> ok then d\<lparr>dl_pc := DL_Reset, dl_dev := p\<rparr>
          else let s = fsm_timer_clear TIMER_RESET (dl_io d)
               in d\<lparr>dl_dev := p, dl_io := set_iden (fsm_iden s + 1) s, chunk_num := chunk_num d + 1\<rparr>)"

definition dl_chunk :: "'p device_ops \<Rightarrow> 'p dl \<Rightarrow> 'p dl" where
  "dl_chunk ops d =
     (if \<not> chunk_num d < chunk_count d then d\<lparr>dl_pc := DL_Load\<rparr>
      else
        let s = fsm_timer_clear TIMER_RESEND (fsm_send DEV_RQCH (le32 (chunk_num d)) 4 (dl_io d))
        in case fsm_recv s of
             Hang s \<Rightarrow> d\<lparr>dl_pc := DL_Hang, dl_io := s\<rparr>
           | Returned r s \<Rightarrow>
               let d = d\<lparr>dl_io := s\<rparr>
               in if r = FSM_RESET then d\<lparr>dl_pc := DL_Reset\<rparr>
                  else if r = FSM_RESEND then d
                  else if frame_type s = HOST_CHNK \<and> frame_iden s = fsm_iden s then dl_feed ops d
                  else d)"

definition dl_load :: "'p device_ops \<Rightarrow> 'p dl \<Rightarrow> 'p dl" where
  "dl_load ops d =
     (case load_op ops (dl_dev d) (dl_io d) of
        None \<Rightarrow> d\<lparr>dl_pc := DL_Hang\<rparr>
      | Some (ok, p, s) \<Rightarrow>
          d\<lparr>dl_pc := DL_Boot, dl_dev := p, boot_ok := ok, dl_io := fsm_timer_clear TIMER_RESET s\<rparr>)"

definition dl_boot :: "'p dl \<Rightarrow> 'p dl" where
  "dl_boot d =
     (let s = fsm_timer_clear TIMER_RESEND
                (fsm_send DEV_BOOT [if boot_ok d then 1 else 0] 1 (dl_io d))
      in case fsm_recv_ack (fsm_iden s) s of
           Hang s \<Rightarrow> d\<lparr>dl_pc := DL_Hang, dl_io := s\<rparr>
         | Returned r s \<Rightarrow>
             let d = d\<lparr>dl_io := s\<rparr>
             in if r = FSM_RESET then d\<lparr>dl_pc := DL_Reset\<rparr>
                else if r = FSM_RESEND then d
                else d\<lparr>dl_pc := DL_Done\<rparr>)"

definition dl_step :: "'p device_ops \<Rightarrow> 'p dl \<Rightarrow> 'p dl" where
  "dl_step ops d =
     (case dl_pc d of
        DL_Reset \<Rightarrow> dl_reset d
      | DL_Init \<Rightarrow> dl_init ops d
      | DL_Chunk \<Rightarrow> dl_chunk ops d
      | DL_Load \<Rightarrow> dl_load ops d
      | DL_Boot \<Rightarrow> dl_boot d
      | DL_Done \<Rightarrow> d
      | DL_Hang \<Rightarrow> d)"

definition fsm_heartbeat :: "io \<Rightarrow> io" where
  "fsm_heartbeat s = fsm_send DEV_BEAT [] 0 s"

text \<open>
  \<open>fsm_download\<close> up to its \<open>n\<close>-th control point; the result is \<open>None\<close> when the timeouts
  divide by zero. The code returns when \<open>DL_Done\<close> is reached.
\<close>

definition fsm_download :: "'p device_ops \<Rightarrow> config_t \<Rightarrow> nat \<Rightarrow> 'p dl \<Rightarrow> 'p dl option" where
  "fsm_download ops config n d = do {
     s \<leftarrow> set_periods config (dl_io d);
     Some ((dl_step ops ^^ n) (d\<lparr>dl_pc := DL_Reset, dl_io := s\<rparr>))
   }"

section \<open>The uploader\<close>

datatype fsm_upload_status = UPLOAD_OK | UPLOAD_TIMEOUT | UPLOAD_FAILED

datatype hook = on_poll_acked | on_sent_chunk u32 | on_heartbeat | on_all_chunks

datatype ul_pc = UL_Reset | UL_Poll | UL_Serve | UL_Beat | UL_Boot | UL_Done fsm_upload_status | UL_Exit | UL_Hang

record ul =
  ul_pc :: ul_pc
  ul_io :: io
  retries :: u16
  last_chunk_no :: u32
  hooks :: "hook list"

definition run_hook :: "hook \<Rightarrow> ul \<Rightarrow> ul" where
  "run_hook h u = u\<lparr>hooks := hooks u @ [h]\<rparr>"

definition ul_reset :: "ul \<Rightarrow> ul" where
  "ul_reset u =
     (let r = retries u; u = u\<lparr>retries := r - 1\<rparr>
      in if r = 0 then u\<lparr>ul_pc := UL_Done UPLOAD_TIMEOUT\<rparr>
         else u\<lparr>ul_pc := UL_Poll,
           ul_io := fsm_timer_clear TIMER_RESET (set_active TIMER_RESEND False (set_iden 0 (ul_io u)))\<rparr>)"

definition ul_poll :: "u8 list \<Rightarrow> ul \<Rightarrow> ul" where
  "ul_poll meta u =
     (let s = fsm_timer_clear TIMER_RESEND (fsm_send HOST_POLL meta (of_nat META_SIZE) (ul_io u))
      in case fsm_recv_ack 0 s of
           Hang s \<Rightarrow> u\<lparr>ul_pc := UL_Hang, ul_io := s\<rparr>
         | Returned r s \<Rightarrow>
             let u = u\<lparr>ul_io := s\<rparr>
             in if r = FSM_RESET then u\<lparr>ul_pc := UL_Reset\<rparr>
                else if r = FSM_OK then
                  (run_hook on_poll_acked u)\<lparr>ul_pc := UL_Serve, last_chunk_no := 0,
                    ul_io := set_active TIMER_RESEND False (fsm_timer_clear TIMER_RESET s)\<rparr>
                else u)"

text \<open>
  Answering a chunk request, with the identifier of the request. The marshalling function
  yields \<open>None\<close> when it exits the program and \<open>Some None\<close> when it returns false.
\<close>

definition ul_chunk :: "(u32 \<Rightarrow> u8 list option option) \<Rightarrow> ul \<Rightarrow> ul" where
  "ul_chunk marshal u =
     (let num = of_le32 (take 4 (frame_body (ul_io u)))
      in case marshal num of
           None \<Rightarrow> u\<lparr>ul_pc := UL_Exit\<rparr>
         | Some None \<Rightarrow> u
         | Some (Some data) \<Rightarrow>
             let save_iden = fsm_iden (ul_io u);
                 s = set_iden (frame_iden (ul_io u)) (ul_io u);
                 s = fsm_send HOST_CHNK data (of_nat (length data)) s;
                 s = set_iden save_iden s;
                 u = run_hook (on_sent_chunk num) u;
                 s = (if last_chunk_no u \<noteq> num then fsm_timer_clear TIMER_RESET s else s)
             in u\<lparr>ul_io := s, last_chunk_no := num\<rparr>)"

definition ul_serve :: "(u32 \<Rightarrow> u8 list option option) \<Rightarrow> ul \<Rightarrow> ul" where
  "ul_serve marshal u =
     (case fsm_recv (ul_io u) of
        Hang s \<Rightarrow> u\<lparr>ul_pc := UL_Hang, ul_io := s\<rparr>
      | Returned r s \<Rightarrow>
          let u = u\<lparr>ul_io := s\<rparr>
          in if r = FSM_RESET then u\<lparr>ul_pc := UL_Reset\<rparr>
             else if frame_type s = DEV_BEAT \<and> frame_plen s = 0 then
               (run_hook on_heartbeat (run_hook on_all_chunks u))
                 \<lparr>ul_pc := UL_Beat, ul_io := fsm_timer_clear TIMER_RESET s\<rparr>
             else if frame_type s = DEV_BOOT \<and> frame_plen s = 1 then
               (run_hook on_all_chunks u)\<lparr>ul_pc := UL_Boot\<rparr>
             else if frame_type s = DEV_RQCH \<and> frame_plen s = 4 then ul_chunk marshal u
             else u)"

definition ul_beat :: "ul \<Rightarrow> ul" where
  "ul_beat u =
     (case fsm_recv (ul_io u) of
        Hang s \<Rightarrow> u\<lparr>ul_pc := UL_Hang, ul_io := s\<rparr>
      | Returned r s \<Rightarrow>
          let u = u\<lparr>ul_io := s\<rparr>
          in if r = FSM_RESET then u\<lparr>ul_pc := UL_Reset\<rparr>
             else let u = (if frame_type s = DEV_BEAT \<and> frame_plen s = 0
                           then (run_hook on_heartbeat u)\<lparr>ul_io := fsm_timer_clear TIMER_RESET s\<rparr>
                           else u)
                  in if frame_type s = DEV_BOOT \<and> frame_plen s = 1 then u\<lparr>ul_pc := UL_Boot\<rparr> else u)"

definition ul_boot :: "ul \<Rightarrow> ul" where
  "ul_boot u =
     (let s = ul_io u; is_ok = raw_body s 0
      in u\<lparr>ul_io := fsm_send_ack (frame_iden s) s,
           ul_pc := UL_Done (if is_ok \<noteq> 0 then UPLOAD_OK else UPLOAD_FAILED)\<rparr>)"

definition ul_step :: "u8 list \<Rightarrow> (u32 \<Rightarrow> u8 list option option) \<Rightarrow> ul \<Rightarrow> ul" where
  "ul_step meta marshal u =
     (case ul_pc u of
        UL_Reset \<Rightarrow> ul_reset u
      | UL_Poll \<Rightarrow> ul_poll meta u
      | UL_Serve \<Rightarrow> ul_serve marshal u
      | UL_Beat \<Rightarrow> ul_beat u
      | UL_Boot \<Rightarrow> ul_boot u
      | UL_Done _ \<Rightarrow> u
      | UL_Exit \<Rightarrow> u
      | UL_Hang \<Rightarrow> u)"

text \<open>The state at the first visit of \<open>reset\<close>; \<open>main\<close> passes a pass-through hook.\<close>

definition ul_start :: "u8 \<Rightarrow> io \<Rightarrow> ul" where
  "ul_start retries0 s = \<lparr>ul_pc = UL_Reset, ul_io = s\<lparr>passthru := True\<rparr>,
     retries = ucast retries0 + 1, last_chunk_no = 0, hooks = []\<rparr>"

definition fsm_upload ::
  "config_t \<Rightarrow> u8 list \<Rightarrow> (u32 \<Rightarrow> u8 list option option) \<Rightarrow> u8 \<Rightarrow> nat \<Rightarrow> io \<Rightarrow> ul option" where
  "fsm_upload config meta marshal retries0 n s = do {
     s \<leftarrow> set_periods config s;
     Some ((ul_step meta marshal ^^ n) (ul_start retries0 s))
   }"

end
