(* ===== verification/Fsm_Correct.thy ===== *)
theory Fsm_Correct
  imports Fsm
begin

text \<open>
  Correctness of the two protocol machines: invariants of every reachable state of the
  downloader, bounded retries of the uploader, and completion of both machines when the
  other end behaves as the protocol says, with exactly the bytes each puts on the wire.
\<close>

section \<open>Arrival in time\<close>

text \<open>
  A frame arrives as a list of its bytes, each with the number of empty polls before it. While a receiver waits for
  it the clock is read twice for each poll up to the start byte, and once for each later poll.
\<close>

fun readings :: "(nat \<times> u8) list \<Rightarrow> nat" where
  "readings [] = 0"
| "readings (a # as) = 2 * Suc (fst a) + polls_of as"

text \<open>A timer that is off, or was last cleared at the reading \<open>a\<close>, has not expired at the reading \<open>k\<close>.\<close>

definition holds_at :: "(nat \<Rightarrow> u64) \<Rightarrow> u64 \<Rightarrow> nat option \<Rightarrow> nat \<Rightarrow> bool" where
  "holds_at clk p arm k = (case arm of None \<Rightarrow> True | Some a \<Rightarrow> \<not> clk a + p \<le> clk k)"

text \<open>
  The frame arrives in time for a receiver whose first reading of the clock has the number \<open>t\<close>: with the reset and the
  resend timer as given, neither has expired when it is looked at before the start byte, and behind it no pause
  is as long as the symbol timeout. The periods are those of the configuration.
\<close>

primrec timeouts :: "config_t \<Rightarrow> fsm_timer \<Rightarrow> u64" where
  "timeouts config TIMER_RESET = the (config_reset_timeout_us config)"
| "timeouts config TIMER_RESEND = the (config_resend_timeout_us config)"
| "timeouts config TIMER_SYMBOL = the (config_symbol_timeout_us config)"

fun arrives_in_time ::
  "(nat \<Rightarrow> u64) \<Rightarrow> (fsm_timer \<Rightarrow> u64) \<Rightarrow> nat option \<Rightarrow> nat option \<Rightarrow> nat \<Rightarrow> (nat \<times> u8) list \<Rightarrow> bool" where
  "arrives_in_time clk P reset resend t [] = True"
| "arrives_in_time clk P reset resend t (a # as) =
     ((\<forall>j \<le> fst a. holds_at clk (P TIMER_RESET) reset (t + 2 * j) \<and>
         holds_at clk (P TIMER_RESEND) resend (t + 2 * j + 1)) \<and>
      prompt clk (P TIMER_SYMBOL) (t + 2 * Suc (fst a)) as)"

text \<open>The timers of the machine: their periods, and the readings at which the reset and the resend timer were cleared.\<close>

definition cleared_at :: "io \<Rightarrow> fsm_timer \<Rightarrow> nat option \<Rightarrow> bool" where
  "cleared_at s t arm \<longleftrightarrow> active (timers s t) = (arm \<noteq> None) \<and> (arm \<noteq> None \<longrightarrow> last (timers s t) = clock s (the arm))"

definition armed :: "(fsm_timer \<Rightarrow> u64) \<Rightarrow> nat option \<Rightarrow> nat option \<Rightarrow> io \<Rightarrow> bool" where
  "armed P reset resend s \<longleftrightarrow> (\<forall>t. period (timers s t) = P t) \<and>
     cleared_at s TIMER_RESET reset \<and> cleared_at s TIMER_RESEND resend"

lemmas armed_defs = armed_def cleared_at_def

lemma cleared_holds:
  "cleared_at s t arm \<Longrightarrow> period (timers s t) = p \<Longrightarrow> holds_at (clock s) p arm k \<Longrightarrow> \<not> timer_triggered (timers s t) (clock s k)"
  by (auto simp: cleared_at_def holds_at_def timer_triggered_def split: option.splits)

lemma armed_patient:
  assumes "armed P reset resend s" "arrives_in_time (clock s) P reset resend (ticks s) ((n, x) # as)"
  shows "patient (Suc n) s"
  using assms unfolding armed_def patient_def less_Suc_eq_le by (auto dest: cleared_holds)

lemma armed_cong:
  assumes "timers s' TIMER_RESET = timers s TIMER_RESET" "timers s' TIMER_RESEND = timers s TIMER_RESEND"
    "clock s' = clock s" "period (timers s' TIMER_SYMBOL) = period (timers s TIMER_SYMBOL)" "armed P reset resend s"
  shows "armed P reset resend s'"
proof -
  have "period (timers s' t) = period (timers s t)" for t using assms(1,2,4) by (cases t) simp_all
  with assms show ?thesis by (simp add: armed_defs)
qed

lemma armed_fields [simp]:
  "armed P reset resend (s\<lparr>tx := x\<rparr>) = armed P reset resend s" "armed P reset resend (set_iden i s) = armed P reset resend s"
  "armed P reset resend (s\<lparr>passthru := b\<rparr>) = armed P reset resend s"
  by (simp_all add: armed_defs set_iden_def)

lemma armed_clear:
  "armed P reset resend s \<Longrightarrow> armed P (Some (ticks s)) resend (fsm_timer_clear TIMER_RESET s)"
  "armed P reset resend s \<Longrightarrow> armed P reset (Some (ticks s)) (fsm_timer_clear TIMER_RESEND s)"
  by (simp_all add: armed_defs fsm_timer_clear_def platform_time_def)

lemma armed_disarm:
  "armed P reset resend s \<Longrightarrow> armed P reset None (set_active TIMER_RESEND False s)"
  by (simp add: armed_defs set_active_def)

lemma armed_reset:
  "\<forall>t. period (timers s t) = P t \<Longrightarrow> armed P None None (set_active TIMER_RESEND False (set_active TIMER_RESET False s))"
  by (simp add: armed_defs set_active_def)

lemma io_fields_clear [simp]:
  "tx (fsm_timer_clear t s) = tx s" "fsm_iden (fsm_timer_clear t s) = fsm_iden s"
  "raw_hdr (fsm_timer_clear t s) = raw_hdr s" "raw_body (fsm_timer_clear t s) = raw_body s"
  "clock (fsm_timer_clear t s) = clock s" "ticks (fsm_timer_clear t s) = Suc (ticks s)"
  by (simp_all add: fsm_timer_clear_def platform_time_def)

lemma io_fields_set [simp]:
  "tx (set_iden i s) = tx s" "rx (set_iden i s) = rx s" "fsm_iden (set_iden i s) = i"
  "clock (set_iden i s) = clock s" "ticks (set_iden i s) = ticks s"
  "tx (set_active t b s) = tx s" "rx (set_active t b s) = rx s" "fsm_iden (set_active t b s) = fsm_iden s"
  "clock (set_active t b s) = clock s" "ticks (set_active t b s) = ticks s"
  by (simp_all add: set_iden_def set_active_def)

lemma length_types [simp]:
  "length HOST_POLL = 4" "length HOST_CHNK = 4" "length DEV_RQCH = 4" "length DEV_BEAT = 4"
  "length DEV_BOOT = 4"
  by (simp_all add: type_defs)

lemma types_differ [simp]:
  "DEV_RQCH \<noteq> DEV_BEAT" "DEV_RQCH \<noteq> DEV_BOOT" "DEV_BEAT \<noteq> DEV_BOOT" "DEV_BOOT \<noteq> DEV_BEAT"
  by (simp_all add: type_defs)

lemma fsm_send_wire [simp]:
  "length type = 4 \<Longrightarrow> length x < 65536 \<Longrightarrow> n = of_nat (length x) \<Longrightarrow>
   fsm_send type x n s = s\<lparr>tx := tx s @ wire_frame (fsm_iden s) type x\<rparr>"
  using fsm_send_eq by simp

text \<open>What a frame in time leaves behind: its readings of the clock, and the timers as they were.\<close>

definition heard :: "(fsm_timer \<Rightarrow> u64) \<Rightarrow> nat option \<Rightarrow> nat option \<Rightarrow> nat \<Rightarrow> io \<Rightarrow> io \<Rightarrow> bool" where
  "heard P reset resend n s s' \<longleftrightarrow> armed P reset resend s' \<and> clock s' = clock s \<and> ticks s' = ticks s + n \<and>
     tx s' = tx s \<and> fsm_iden s' = fsm_iden s"

lemma heardI:
  assumes "armed P reset resend s" "later n s s'" "still s s'"
    "timers s' TIMER_RESET = timers s TIMER_RESET" "timers s' TIMER_RESEND = timers s TIMER_RESEND"
  shows "heard P reset resend n s s'"
  using assms armed_cong [OF assms(4,5) _ _ assms(1)] by (simp add: heard_def later_def still_def)

lemma recv_wire_frame:
  assumes "armed P reset resend s" "arrives_in_time (clock s) P reset resend (ticks s) as"
    and "rx s = delayed as @ rest" "map snd as = wire_frame iden type x"
    and "length type = 4" and "length x < 65536"
  shows "\<exists>s'. fsm_recv s = Returned FSM_OK s' \<and> frame_iden s' = iden \<and>
    frame_plen s' = of_nat (length x) \<and> frame_type s' = type \<and> frame_body s' = x \<and>
    rx s' = rest \<and> heard P reset resend (readings as) s s'"
proof -
  let ?h = "with_fcs (le16 iden @ le16 (of_nat (length x)) @ type)"
  obtain n as' where e: "as = (n, ASC_SOH) # as'" and
    as': "map snd as' = ?h @ [ASC_STX] @ with_fcs x @ [ASC_ETX, ASC_EOT]"
    using assms(4) by (cases as) (auto simp: wire_frame_def)
  have p: "patient (Suc (length (replicate n (None :: u8 option)))) s"
    using armed_patient [OF assms(1)] assms(2) by (simp add: e)
  have rx: "rx s = replicate n None @ Some ASC_SOH # delayed as' @ rest" using assms(3) by (simp add: e)
  have sy: "prompt (clock s) (period (timers s TIMER_SYMBOL)) (ticks s + 2 * Suc (length (replicate n (None :: u8 option)))) as'"
    using assms(1,2) by (simp add: e armed_def)
  have r: "2 * Suc (length (replicate n (None :: u8 option))) + polls_of as' = readings as" by (simp add: e)
  from fsm_recv_arrives [OF p _ wire_frame_ok(1) [OF assms(5,6) refl refl] rx as' sy]
  obtain s' where "fsm_recv s = Returned FSM_OK s'" "frame_iden s' = iden"
    "frame_plen s' = of_nat (length x)" "frame_type s' = type" "frame_body s' = x"
    "rx s' = rest" "still s s'" "later (readings as) s s'"
    "timers s' TIMER_RESET = timers s TIMER_RESET" "timers s' TIMER_RESEND = timers s TIMER_RESEND"
    unfolding wire_frame_ok [OF assms(5,6) refl refl] r by auto
  with heardI [OF assms(1)] show ?thesis by blast
qed

lemma recv_wire_ack:
  assumes "armed P reset resend s" "arrives_in_time (clock s) P reset resend (ticks s) as"
    and "rx s = delayed as @ rest" "map snd as = wire_ack iden"
  shows "\<exists>s'. fsm_recv_ack iden s = Returned FSM_OK s' \<and> rx s' = rest \<and> heard P reset resend (readings as) s s'"
proof -
  let ?a = "with_fcs (le16 iden)"
  obtain n as' where e: "as = (n, ASC_ACK) # as'" and as': "map snd as' = ?a @ [ASC_EOT]"
    using assms(4) by (cases as) (auto simp: wire_ack_def)
  have p: "patient (Suc (length (replicate n (None :: u8 option)))) s"
    using armed_patient [OF assms(1)] assms(2) by (simp add: e)
  have rx: "rx s = replicate n None @ Some ASC_ACK # delayed as' @ rest" using assms(3) by (simp add: e)
  have sy: "prompt (clock s) (period (timers s TIMER_SYMBOL)) (ticks s + 2 * Suc (length (replicate n (None :: u8 option)))) as'"
    using assms(1,2) by (simp add: e armed_def)
  have r: "2 * Suc (length (replicate n (None :: u8 option))) + polls_of as' = readings as" by (simp add: e)
  have a: "length ?a = 4" "of_le16 (take 2 ?a) = iden" by (simp_all add: with_fcs_def)
  from fsm_recv_ack_arrives [OF p _ a(1) fcs_with_fcs a(2) rx as' sy]
  obtain s' where "fsm_recv_ack iden s = Returned FSM_OK s'" "rx s' = rest" "still s s'" "later (readings as) s s'"
    "timers s' TIMER_RESET = timers s TIMER_RESET" "timers s' TIMER_RESEND = timers s TIMER_RESEND"
    unfolding r by auto
  with heardI [OF assms(1)] show ?thesis by blast
qed

section \<open>The lines of a complete upload\<close>

primrec chnk_frames :: "u16 \<Rightarrow> u8 list list \<Rightarrow> u8 list list" where
  "chnk_frames i [] = []"
| "chnk_frames i (x # xs) = wire_frame i HOST_CHNK x # chnk_frames (i + 1) xs"

primrec rqch_frames :: "u16 \<Rightarrow> u32 \<Rightarrow> nat \<Rightarrow> u8 list list" where
  "rqch_frames i c 0 = []"
| "rqch_frames i c (Suc n) = wire_frame i DEV_RQCH (le32 c) # rqch_frames (i + 1) (c + 1) n"

primrec beat_line :: "u16 \<Rightarrow> nat \<Rightarrow> u8 list" where
  "beat_line i 0 = []"
| "beat_line i (Suc n) = wire_frame i DEV_BEAT [] @ beat_line i n"

lemma concat_beats [simp]: "concat (replicate n (wire_frame i DEV_BEAT [])) = beat_line i n"
  by (induction n) simp_all

text \<open>What the host and the device put on the wire for the chunks \<open>xs\<close>, frame by frame.\<close>

definition host_frames :: "u8 list \<Rightarrow> u8 list list \<Rightarrow> u8 list list" where
  "host_frames meta xs = wire_frame 0 HOST_POLL meta # chnk_frames 0 xs @ [wire_ack (of_nat (length xs))]"

definition device_frames :: "nat \<Rightarrow> nat \<Rightarrow> bool \<Rightarrow> u8 list list" where
  "device_frames n beats ok = wire_ack 0 # rqch_frames 0 0 n @
     replicate beats (wire_frame (of_nat n) DEV_BEAT []) @ [wire_frame (of_nat n) DEV_BOOT [if ok then 1 else 0]]"

abbreviation host_line :: "u8 list \<Rightarrow> u8 list list \<Rightarrow> u8 list" where
  "host_line meta xs \<equiv> concat (host_frames meta xs)"

abbreviation device_line :: "nat \<Rightarrow> nat \<Rightarrow> bool \<Rightarrow> u8 list" where
  "device_line n beats ok \<equiv> concat (device_frames n beats ok)"

text \<open>\<open>hears s fs ys\<close>: the machine's polls from \<open>s\<close> on deliver the frames \<open>ys\<close>, with the pauses in \<open>fs\<close>.\<close>

definition hears :: "io \<Rightarrow> (nat \<times> u8) list list \<Rightarrow> u8 list list \<Rightarrow> bool" where
  "hears s fs ys \<longleftrightarrow> rx s = concat (map delayed fs) \<and> map (map snd) fs = ys"

text \<open>
  When the frames arrive in time for the downloader. The poll is awaited with the reset and resend timers off. The
  reset timer is cleared when a frame is accepted, the resend timer after each request, and once loading is over
  the reset timer is cleared again.
\<close>

primrec device_in_time :: "(nat \<Rightarrow> u64) \<Rightarrow> (fsm_timer \<Rightarrow> u64) \<Rightarrow> nat \<Rightarrow> (nat \<times> u8) list list \<Rightarrow> bool" where
  "device_in_time clk P t [] = True"
| "device_in_time clk P t (f # fs) =
     (if fs = [] then arrives_in_time clk P (Some (t + 1)) (Some (t + 2)) (t + 3) f
      else arrives_in_time clk P (Some t) (Some (t + 1)) (t + 2) f \<and> device_in_time clk P (t + 2 + readings f) fs)"

fun download_in_time :: "(nat \<Rightarrow> u64) \<Rightarrow> (fsm_timer \<Rightarrow> u64) \<Rightarrow> nat \<Rightarrow> (nat \<times> u8) list list \<Rightarrow> bool" where
  "download_in_time clk P t [] = True"
| "download_in_time clk P t (poll # fs) =
     (arrives_in_time clk P None None t poll \<and> device_in_time clk P (t + readings poll) fs)"

text \<open>
  When they arrive in time for the uploader. It clears the reset timer before the poll, the resend timer after it,
  and the reset timer again for the acknowledgement, where the resend timer goes off; then for every frame
  but the request of chunk 0, whose number is the one that it remembers from the start.
\<close>

primrec host_in_time :: "(nat \<Rightarrow> u64) \<Rightarrow> (fsm_timer \<Rightarrow> u64) \<Rightarrow> bool \<Rightarrow> nat \<Rightarrow> nat \<Rightarrow> (nat \<times> u8) list list \<Rightarrow> bool" where
  "host_in_time clk P first r t [] = True"
| "host_in_time clk P first r t (f # fs) =
     (arrives_in_time clk P (Some r) None t f \<and>
      (if first then host_in_time clk P False r (t + readings f) fs
       else host_in_time clk P False (t + readings f) (Suc (t + readings f)) fs))"

fun upload_in_time :: "(nat \<Rightarrow> u64) \<Rightarrow> (fsm_timer \<Rightarrow> u64) \<Rightarrow> bool \<Rightarrow> nat \<Rightarrow> (nat \<times> u8) list list \<Rightarrow> bool" where
  "upload_in_time clk P chunks t [] = True"
| "upload_in_time clk P chunks t (ack # fs) =
     (arrives_in_time clk P (Some t) (Some (t + 1)) (t + 2) ack \<and>
      host_in_time clk P chunks (t + 2 + readings ack) (Suc (t + 2 + readings ack)) fs)"

section \<open>The downloader completes\<close>

primrec feed_all :: "'p device_ops \<Rightarrow> u32 \<Rightarrow> u8 list list \<Rightarrow> 'p \<Rightarrow> 'p option" where
  "feed_all ops n [] p = Some p"
| "feed_all ops n (x # xs) p =
     (case feed_op ops n x p of Some (True, p') \<Rightarrow> feed_all ops (n + 1) xs p' | _ \<Rightarrow> None)"

text \<open>\<open>fresh P resend s\<close>: the last thing that read the clock was the clearing of the reset timer.\<close>

definition fresh :: "(fsm_timer \<Rightarrow> u64) \<Rightarrow> nat option \<Rightarrow> nat \<Rightarrow> (nat \<Rightarrow> u64) \<Rightarrow> io \<Rightarrow> bool" where
  "fresh P resend t clk s \<longleftrightarrow> armed P (Some t) resend s \<and> ticks s = Suc t \<and> clock s = clk"

lemma fresh_fields [simp]:
  "fresh P resend t clk (s\<lparr>tx := x\<rparr>) = fresh P resend t clk s" "fresh P resend t clk (set_iden i s) = fresh P resend t clk s"
  by (simp_all add: fresh_def)

lemma fresh_clear:
  "heard P reset resend n s s' \<Longrightarrow> fresh P resend (ticks s + n) (clock s) (fsm_timer_clear TIMER_RESET s')"
  using armed_clear(1) [of P reset resend s'] by (simp add: fresh_def heard_def)

lemma dl_poll_ok:
  assumes "dl_pc d = DL_Init" "armed P None None (dl_io d)" "length pad = 4"
    and "arrives_in_time (clock (dl_io d)) P None None (ticks (dl_io d)) f"
    and "rx (dl_io d) = delayed f @ rest" "map snd f = wire_frame 0 HOST_POLL (meta_bytes pad m)"
    and "init_meta ops m (dl_dev d) = (True, p)"
  shows "\<exists>s'. dl_step ops d = d\<lparr>dl_pc := DL_Chunk, dl_dev := p, dl_meta := m, dl_io := s',
      chunk_count := chunks_of (wire_size m), chunk_num := 0\<rparr> \<and>
    fresh P None (ticks (dl_io d) + readings f) (clock (dl_io d)) s' \<and> rx s' = rest \<and>
    tx s' = tx (dl_io d) @ wire_ack 0 \<and> fsm_iden s' = fsm_iden (dl_io d)"
proof -
  have len: "length (meta_bytes pad m) < 65536" "length (meta_bytes pad m) = META_SIZE"
    using assms(3) by (simp_all add: META_SIZE_def)
  from recv_wire_frame [OF assms(2,4,5,6) _ len(1)] obtain s where
    s: "fsm_recv (dl_io d) = Returned FSM_OK s" "frame_iden s = 0" "frame_type s = HOST_POLL"
      "frame_plen s = of_nat META_SIZE" "frame_body s = meta_bytes pad m"
      "rx s = rest" and h: "heard P None None (readings f) (dl_io d) s"
    using len(2) by auto
  have "unat (of_nat META_SIZE :: u16) = META_SIZE" by (simp add: META_SIZE_def)
  then have "dl_step ops d = d\<lparr>dl_pc := DL_Chunk, dl_dev := p, dl_meta := m,
      dl_io := fsm_send_ack 0 (fsm_timer_clear TIMER_RESET s),
      chunk_count := chunks_of (wire_size m), chunk_num := 0\<rparr>"
    using assms(1,3,7) s by (simp add: dl_step_def dl_init_def dl_poll_def)
  with s h fresh_clear [OF h] show ?thesis
    by (intro exI [of _ "fsm_send_ack 0 (fsm_timer_clear TIMER_RESET s)"]) (simp add: fsm_send_ack_eq heard_def)
qed

lemma dl_chunk_ok:
  assumes "dl_pc d = DL_Chunk" "chunk_num d < chunk_count d" "fresh P r t clk (dl_io d)" "length x < 65536"
    and "arrives_in_time clk P (Some t) (Some (t + 1)) (t + 2) f"
    and "rx (dl_io d) = delayed f @ rest" "map snd f = wire_frame (fsm_iden (dl_io d)) HOST_CHNK x"
    and "feed_op ops (chunk_num d) x (dl_dev d) = Some (True, p)"
  shows "\<exists>s'. dl_step ops d = d\<lparr>dl_dev := p, dl_io := s', chunk_num := chunk_num d + 1\<rparr> \<and>
    fresh P (Some (t + 1)) (t + 2 + readings f) clk s' \<and> rx s' = rest \<and> fsm_iden s' = fsm_iden (dl_io d) + 1 \<and>
    tx s' = tx (dl_io d) @ wire_frame (fsm_iden (dl_io d)) DEV_RQCH (le32 (chunk_num d))"
proof -
  let ?s = "fsm_timer_clear TIMER_RESEND (fsm_send DEV_RQCH (le32 (chunk_num d)) 4 (dl_io d))"
  have a: "armed P (Some t) (Some (t + 1)) ?s" "clock ?s = clk" "ticks ?s = t + 2" "rx ?s = delayed f @ rest"
    using assms(3,6) armed_clear(2) [of P "Some t" r "fsm_send DEV_RQCH (le32 (chunk_num d)) 4 (dl_io d)"]
    by (simp_all add: fresh_def)
  have "arrives_in_time (clock ?s) P (Some t) (Some (t + 1)) (ticks ?s) f" using a assms(5) by simp
  from recv_wire_frame [OF a(1) this a(4) assms(7) _ assms(4)] obtain s where
    s: "fsm_recv ?s = Returned FSM_OK s" "frame_iden s = fsm_iden (dl_io d)" "frame_type s = HOST_CHNK"
      "frame_body s = x" "rx s = rest" and h: "heard P (Some t) (Some (t + 1)) (readings f) ?s s"
    by auto
  have i: "fsm_iden s = fsm_iden (dl_io d)" "tx s = tx ?s" using h by (simp_all add: heard_def)
  have "dl_step ops d = d\<lparr>dl_dev := p,
      dl_io := set_iden (fsm_iden s + 1) (fsm_timer_clear TIMER_RESET s), chunk_num := chunk_num d + 1\<rparr>"
    using assms(1,2,8) s i by (simp add: dl_step_def dl_chunk_def dl_feed_def)
  with s i fresh_clear [OF h] a(2,3) show ?thesis
    by (intro exI [of _ "set_iden (fsm_iden s + 1) (fsm_timer_clear TIMER_RESET s)"]) simp
qed

lemma dl_chunks_ok:
  assumes "dl_pc d = DL_Chunk" "fresh P r t clk (dl_io d)" "\<And>x. x \<in> set xs \<Longrightarrow> length x < 65536"
    and "unat (chunk_num d) + length xs \<le> unat (chunk_count d)"
    and "rx (dl_io d) = concat (map delayed fs) @ delayed ack @ rest" "map (map snd) fs = chnk_frames (fsm_iden (dl_io d)) xs"
    and "device_in_time clk P t (fs @ [ack])"
    and "feed_all ops (chunk_num d) xs (dl_dev d) = Some p"
  shows "\<exists>s' r t. (dl_step ops ^^ length xs) d =
      d\<lparr>dl_dev := p, dl_io := s', chunk_num := chunk_num d + of_nat (length xs)\<rparr> \<and>
    fresh P r t clk s' \<and> arrives_in_time clk P (Some (t + 1)) (Some (t + 2)) (t + 3) ack \<and>
    rx s' = delayed ack @ rest \<and> fsm_iden s' = fsm_iden (dl_io d) + of_nat (length xs) \<and>
    tx s' = tx (dl_io d) @ concat (rqch_frames (fsm_iden (dl_io d)) (chunk_num d) (length xs))"
  using assms
proof (induction xs arbitrary: d r t fs)
  case Nil
  then show ?case by (intro exI [of _ "dl_io d"] exI [of _ r] exI [of _ t]) simp
next
  case (Cons x xs)
  from Cons.prems(8) obtain p1 where p1: "feed_op ops (chunk_num d) x (dl_dev d) = Some (True, p1)"
    "feed_all ops (chunk_num d + 1) xs p1 = Some p"
    by (auto split: option.splits bool.splits)
  from Cons.prems(6) obtain f gs where fs: "fs = f # gs" "map snd f = wire_frame (fsm_iden (dl_io d)) HOST_CHNK x"
    "map (map snd) gs = chnk_frames (fsm_iden (dl_io d) + 1) xs" by (cases fs) auto
  have lt: "chunk_num d < chunk_count d" using Cons.prems(4) by (simp add: word_less_nat_alt)
  have it: "arrives_in_time clk P (Some t) (Some (t + 1)) (t + 2) f" "device_in_time clk P (t + 2 + readings f) (gs @ [ack])"
    using Cons.prems(7) by (simp_all add: fs)
  have "rx (dl_io d) = delayed f @ concat (map delayed gs) @ delayed ack @ rest" using Cons.prems(5) by (simp add: fs)
  from dl_chunk_ok [OF Cons.prems(1) lt Cons.prems(2) _ it(1) this fs(2) p1(1)] Cons.prems(3) obtain s1 where
    s1: "dl_step ops d = d\<lparr>dl_dev := p1, dl_io := s1, chunk_num := chunk_num d + 1\<rparr>" (is "_ = ?d")
      "fresh P (Some (t + 1)) (t + 2 + readings f) clk s1" "rx s1 = concat (map delayed gs) @ delayed ack @ rest"
      "fsm_iden s1 = fsm_iden (dl_io d) + 1"
      "tx s1 = tx (dl_io d) @ wire_frame (fsm_iden (dl_io d)) DEV_RQCH (le32 (chunk_num d))"
    by auto
  have "unat (chunk_num d + 1) = Suc (unat (chunk_num d))"
    using lt by (rule unat_Suc_less)
  with Cons.IH [of ?d "Some (t + 1)" "t + 2 + readings f" gs] Cons.prems(1,3,4) it(2) fs(3) p1(2) s1 obtain s' r' t' where
    "(dl_step ops ^^ length xs) ?d =
      ?d\<lparr>dl_dev := p, dl_io := s', chunk_num := chunk_num d + 1 + of_nat (length xs)\<rparr>"
    "fresh P r' t' clk s'" "arrives_in_time clk P (Some (t' + 1)) (Some (t' + 2)) (t' + 3) ack"
    "rx s' = delayed ack @ rest" "fsm_iden s' = fsm_iden (dl_io d) + 1 + of_nat (length xs)"
    "tx s' = tx s1 @ concat (rqch_frames (fsm_iden (dl_io d) + 1) (chunk_num d + 1) (length xs))"
    by auto
  with s1 show ?case
    by (intro exI [of _ s'] exI [of _ r'] exI [of _ t']) (simp add: funpow_Suc_right add.assoc del: funpow.simps)
qed

lemma dl_load_ok:
  assumes "dl_pc d = DL_Chunk" "chunk_num d = chunk_count d" "fresh P r t clk (dl_io d)"
    and "load_op ops (dl_dev d) (dl_io d) = Some (ok, p, (dl_io d)\<lparr>tx := tx (dl_io d) @ bs\<rparr>)"
  shows "\<exists>s'. (dl_step ops ^^ 2) d = d\<lparr>dl_pc := DL_Boot, dl_dev := p, boot_ok := ok, dl_io := s'\<rparr> \<and>
    fresh P r (t + 1) clk s' \<and> rx s' = rx (dl_io d) \<and> fsm_iden s' = fsm_iden (dl_io d) \<and> tx s' = tx (dl_io d) @ bs"
proof -
  have "(dl_step ops ^^ 2) d = d\<lparr>dl_pc := DL_Boot, dl_dev := p, boot_ok := ok,
      dl_io := fsm_timer_clear TIMER_RESET ((dl_io d)\<lparr>tx := tx (dl_io d) @ bs\<rparr>)\<rparr>"
    using assms by (simp add: numeral_2_eq_2 dl_step_def dl_chunk_def dl_load_def)
  with assms(3) armed_clear(1) [of P "Some t" r "(dl_io d)\<lparr>tx := tx (dl_io d) @ bs\<rparr>"] show ?thesis
    by (intro exI [of _ "fsm_timer_clear TIMER_RESET ((dl_io d)\<lparr>tx := tx (dl_io d) @ bs\<rparr>)"]) (simp add: fresh_def)
qed

lemma dl_boot_ok:
  assumes "dl_pc d = DL_Boot" "fresh P r t clk (dl_io d)"
    and "arrives_in_time clk P (Some t) (Some (t + 1)) (t + 2) f"
    and "rx (dl_io d) = delayed f @ rest" "map snd f = wire_ack (fsm_iden (dl_io d))"
  shows "\<exists>s'. dl_step ops d = d\<lparr>dl_pc := DL_Done, dl_io := s'\<rparr> \<and> rx s' = rest \<and>
    tx s' = tx (dl_io d) @ wire_frame (fsm_iden (dl_io d)) DEV_BOOT [if boot_ok d then 1 else 0]"
proof -
  let ?t = "fsm_send DEV_BOOT [if boot_ok d then 1 else 0] 1 (dl_io d)"
  let ?s = "fsm_timer_clear TIMER_RESEND ?t"
  have a: "armed P (Some t) (Some (t + 1)) ?s" "arrives_in_time (clock ?s) P (Some t) (Some (t + 1)) (ticks ?s) f"
    "rx ?s = delayed f @ rest" "map snd f = wire_ack (fsm_iden ?s)"
    using assms armed_clear(2) [of P "Some t" r ?t] by (simp_all add: fresh_def)
  from recv_wire_ack [OF a] obtain s where
    s: "fsm_recv_ack (fsm_iden ?s) ?s = Returned FSM_OK s" "rx s = rest" "tx s = tx ?s"
    by (auto simp: heard_def)
  then have "dl_step ops d = d\<lparr>dl_pc := DL_Done, dl_io := s\<rparr>"
    using assms(1) by (simp add: dl_step_def dl_boot_def Let_def)
  with s show ?thesis by (intro exI [of _ s]) simp
qed

lemma set_periods_fields:
  assumes "set_periods config s = Some s'"
  shows "tx s' = tx s" "rx s' = rx s" "clock s' = clock s" "ticks s' = ticks s" "\<forall>t. period (timers s' t) = timeouts config t"
proof -
  show "tx s' = tx s" "rx s' = rx s" "clock s' = clock s" "ticks s' = ticks s"
    using assms by (auto simp: set_periods_def set_period_def set_active_def split: Option.bind_splits)
  have "period (timers s' t) = timeouts config t" for t
    using assms by (cases t) (auto simp: set_periods_def set_period_def set_active_def split: Option.bind_splits)
  then show "\<forall>t. period (timers s' t) = timeouts config t" ..
qed

lemma funpow_one: "(f ^^ 1) x = f x" for f :: "'a \<Rightarrow> 'a"
  by simp

lemma download_completes:
  assumes s0: "set_periods config (dl_io d0) = Some s0"
    and m: "length pad = 4" "init_meta ops m (dl_dev d0) = (True, p0)"
    and xs: "\<And>x. x \<in> set xs \<Longrightarrow> length x < 65536" "length xs = unat (chunks_of (wire_size m))"
      "feed_all ops 0 xs p0 = Some p1"
    and ld: "\<And>t. fsm_iden t = of_nat (length xs) \<Longrightarrow> load_op ops p1 t =
      Some (ok, p2, t\<lparr>tx := tx t @ beat_line (of_nat (length xs)) beats\<rparr>)"
    and rx: "hears (dl_io d0) fs (host_frames (meta_bytes pad m) xs)"
    and it: "download_in_time (clock (dl_io d0)) (timeouts config) (ticks (dl_io d0)) fs"
  shows "\<exists>d. fsm_download ops config (length xs + 5) d0 = Some d \<and> dl_pc d = DL_Done \<and>
    dl_dev d = p2 \<and> dl_meta d = m \<and> boot_ok d = ok \<and> rx (dl_io d) = [] \<and>
    tx (dl_io d) = tx (dl_io d0) @ device_line (length xs) beats ok"
proof -
  let ?st = "dl_step ops" and ?P = "timeouts config" and ?clk = "clock (dl_io d0)" and ?n = "of_nat (length xs)"
  from rx obtain poll gs ack where fs: "fs = poll # gs @ [ack]"
    "map snd poll = wire_frame 0 HOST_POLL (meta_bytes pad m)" "map (map snd) gs = chnk_frames 0 xs" "map snd ack = wire_ack ?n"
    by (auto simp: hears_def host_frames_def map_eq_Cons_conv map_eq_append_conv)
  have r0: "rx (dl_io d0) = delayed poll @ concat (map delayed gs) @ delayed ack @ []" using rx by (simp add: hears_def fs(1))
  define t1 where "t1 = ticks (dl_io d0) + readings poll"
  have it: "arrives_in_time ?clk ?P None None (ticks (dl_io d0)) poll" "device_in_time ?clk ?P t1 (gs @ [ack])"
    using it by (simp_all add: fs(1) t1_def)
  define d1 where "d1 = ?st (d0\<lparr>dl_pc := DL_Reset, dl_io := s0\<rparr>)"
  note f = set_periods_fields [OF s0(1)]
  have d1: "dl_pc d1 = DL_Init" "armed ?P None None (dl_io d1)" "dl_dev d1 = dl_dev d0" "fsm_iden (dl_io d1) = 0"
    "tx (dl_io d1) = tx (dl_io d0)" "rx (dl_io d1) = delayed poll @ concat (map delayed gs) @ delayed ack @ []"
    "clock (dl_io d1) = ?clk" "ticks (dl_io d1) = ticks (dl_io d0)"
    using f r0 armed_reset [of "set_iden 0 s0" ?P] by (simp_all add: d1_def dl_step_def dl_reset_def set_iden_def)
  from dl_poll_ok [OF d1(1,2) m(1), unfolded d1, OF it(1) refl fs(2) m(2)] obtain s2 where
    s2: "?st d1 = d1\<lparr>dl_pc := DL_Chunk, dl_dev := p0, dl_meta := m, dl_io := s2,
        chunk_count := chunks_of (wire_size m), chunk_num := 0\<rparr>" (is "_ = ?d2") "fresh ?P None t1 ?clk s2"
      "rx s2 = concat (map delayed gs) @ delayed ack @ []" "tx s2 = tx (dl_io d0) @ wire_ack 0" "fsm_iden s2 = 0"
    unfolding t1_def by blast
  have "\<exists>s' r t. (?st ^^ length xs) ?d2 =
      ?d2\<lparr>dl_dev := p1, dl_io := s', chunk_num := chunk_num ?d2 + of_nat (length xs)\<rparr> \<and>
    fresh ?P r t ?clk s' \<and> arrives_in_time ?clk ?P (Some (t + 1)) (Some (t + 2)) (t + 3) ack \<and>
    rx s' = delayed ack @ [] \<and> fsm_iden s' = fsm_iden (dl_io ?d2) + of_nat (length xs) \<and>
    tx s' = tx (dl_io ?d2) @ concat (rqch_frames (fsm_iden (dl_io ?d2)) (chunk_num ?d2) (length xs))"
    by (rule dl_chunks_ok [where fs = gs and t = t1 and r = None]) (use s2 xs it(2) fs(3) in \<open>simp_all\<close>)
  then obtain s3 r t where
    s3: "(?st ^^ length xs) ?d2 = ?d2\<lparr>dl_dev := p1, dl_io := s3, chunk_num := of_nat (length xs)\<rparr>"
      (is "_ = ?d3") "fresh ?P r t ?clk s3" "arrives_in_time ?clk ?P (Some (t + 1)) (Some (t + 2)) (t + 3) ack" "rx s3 = delayed ack @ []"
      "fsm_iden s3 = of_nat (length xs)" "tx s3 = tx s2 @ concat (rqch_frames 0 0 (length xs))"
    using s2(5) by auto
  have "\<exists>s'. (?st ^^ 2) ?d3 = ?d3\<lparr>dl_pc := DL_Boot, dl_dev := p2, boot_ok := ok, dl_io := s'\<rparr> \<and>
    fresh ?P r (t + 1) ?clk s' \<and> rx s' = rx (dl_io ?d3) \<and> fsm_iden s' = fsm_iden (dl_io ?d3) \<and>
    tx s' = tx (dl_io ?d3) @ beat_line (of_nat (length xs)) beats"
    by (rule dl_load_ok) (use s3 ld xs(2) in \<open>simp_all\<close>)
  then obtain s4 where
    s4: "(?st ^^ 2) ?d3 = ?d3\<lparr>dl_pc := DL_Boot, dl_dev := p2, boot_ok := ok, dl_io := s4\<rparr>" (is "_ = ?d4")
      "fresh ?P r (t + 1) ?clk s4" "rx s4 = rx s3" "fsm_iden s4 = fsm_iden s3"
      "tx s4 = tx s3 @ beat_line (of_nat (length xs)) beats"
    by auto
  have b: "arrives_in_time ?clk ?P (Some (t + 1)) (Some (t + 1 + 1)) (t + 1 + 2) ack" using s3(3) by (simp add: numeral_3_eq_3)
  have d4: "dl_pc ?d4 = DL_Boot" "fresh ?P r (t + 1) ?clk (dl_io ?d4)" "rx (dl_io ?d4) = delayed ack @ []"
    "map snd ack = wire_ack (fsm_iden (dl_io ?d4))"
    using s3(4,5) s4(2-4) fs(4) by simp_all
  from dl_boot_ok [OF d4(1,2) b d4(3,4), of ops] obtain s5 where
    s5: "?st ?d4 = ?d4\<lparr>dl_pc := DL_Done, dl_io := s5\<rparr>" "rx s5 = []"
      "tx s5 = tx s4 @ wire_frame (of_nat (length xs)) DEV_BOOT [if ok then 1 else 0]"
    using s3(5) s4(4) by auto
  have "(?st ^^ (1 + (2 + (length xs + (1 + 1))))) (d0\<lparr>dl_pc := DL_Reset, dl_io := s0\<rparr>) =
      ?d4\<lparr>dl_pc := DL_Done, dl_io := s5\<rparr>"
    by (simp only: funpow_add comp_apply funpow_one d1_def [symmetric] s2(1) s3(1) s4(1) s5(1))
  moreover have "1 + (2 + (length xs + (1 + 1))) = length xs + 5" by simp
  ultimately have "fsm_download ops config (length xs + 5) d0 = Some (?d4\<lparr>dl_pc := DL_Done, dl_io := s5\<rparr>)"
    by (simp only: fsm_download_def s0(1) Option.bind.simps)
  then show ?thesis using s2 s3 s4 s5 by (simp add: device_frames_def)
qed

section \<open>The uploader completes\<close>

lemma ul_reset_ok:
  assumes "ul_pc u = UL_Reset" "retries u \<noteq> 0" "\<forall>t. period (timers (ul_io u) t) = P t"
  shows "\<exists>s'. ul_step meta marshal u = u\<lparr>ul_pc := UL_Poll, retries := retries u - 1, ul_io := s'\<rparr> \<and>
    fresh P None (ticks (ul_io u)) (clock (ul_io u)) s' \<and> rx s' = rx (ul_io u) \<and> tx s' = tx (ul_io u) \<and> fsm_iden s' = 0"
proof -
  let ?t = "set_active TIMER_RESEND False (set_iden 0 (ul_io u))"
  let ?s = "fsm_timer_clear TIMER_RESET ?t"
  have "fresh P None (ticks (ul_io u)) (clock (ul_io u)) ?s"
    using assms(3) by (simp add: fresh_def armed_defs set_iden_def set_active_def fsm_timer_clear_def platform_time_def)
  moreover have "ul_step meta marshal u = u\<lparr>ul_pc := UL_Poll, retries := retries u - 1, ul_io := ?s\<rparr>"
    using assms(1,2) by (simp add: ul_step_def ul_reset_def Let_def)
  ultimately show ?thesis by (intro exI [of _ ?s]) simp
qed

lemma fresh_disarm: "fresh P resend t clk s \<Longrightarrow> fresh P None t clk (set_active TIMER_RESEND False s)"
  by (auto simp: fresh_def intro: armed_disarm)

lemma ul_poll_ok:
  assumes "ul_pc u = UL_Poll" "fresh P r t clk (ul_io u)" "length meta = META_SIZE"
    and "arrives_in_time clk P (Some t) (Some (t + 1)) (t + 2) f"
    and "rx (ul_io u) = delayed f @ rest" "map snd f = wire_ack 0"
  shows "\<exists>s'. ul_step meta marshal u = u\<lparr>ul_pc := UL_Serve, ul_io := s', last_chunk_no := 0,
      hooks := hooks u @ [on_poll_acked]\<rparr> \<and> fresh P None (t + 2 + readings f) clk s' \<and> rx s' = rest \<and>
    tx s' = tx (ul_io u) @ wire_frame (fsm_iden (ul_io u)) HOST_POLL meta"
proof -
  let ?t = "fsm_send HOST_POLL meta (of_nat META_SIZE) (ul_io u)"
  let ?s = "fsm_timer_clear TIMER_RESEND ?t"
  have snd: "?t = (ul_io u)\<lparr>tx := tx (ul_io u) @ wire_frame (fsm_iden (ul_io u)) HOST_POLL meta\<rparr>"
    using assms(3) by (intro fsm_send_wire) (simp_all add: META_SIZE_def)
  have a: "armed P (Some t) (Some (t + 1)) ?s" "arrives_in_time (clock ?s) P (Some t) (Some (t + 1)) (ticks ?s) f"
    "rx ?s = delayed f @ rest" "clock ?s = clk" "ticks ?s = t + 2"
    using assms armed_clear(2) [of P "Some t" r ?t] by (simp_all add: fresh_def snd)
  from recv_wire_ack [OF a(1-3) assms(6)] obtain s where
    s: "fsm_recv_ack 0 ?s = Returned FSM_OK s" "rx s = rest" and h: "heard P (Some t) (Some (t + 1)) (readings f) ?s s"
    by blast
  let ?u = "set_active TIMER_RESEND False (fsm_timer_clear TIMER_RESET s)"
  have "ul_step meta marshal u = u\<lparr>ul_pc := UL_Serve, ul_io := ?u, last_chunk_no := 0,
      hooks := hooks u @ [on_poll_acked]\<rparr>"
    using assms(1) s(1) by (simp add: ul_step_def ul_poll_def run_hook_def Let_def)
  moreover have "tx s = tx (ul_io u) @ wire_frame (fsm_iden (ul_io u)) HOST_POLL meta"
    using h by (simp add: heard_def snd)
  ultimately show ?thesis using s(2) fresh_disarm [OF fresh_clear [OF h]] a(4,5) by (intro exI [of _ ?u]) simp
qed

text \<open>The state of the uploader between frames: the reset timer was cleared at \<open>r\<close>, the next reading is number \<open>t\<close>.\<close>

definition serving :: "(fsm_timer \<Rightarrow> u64) \<Rightarrow> nat \<Rightarrow> nat \<Rightarrow> (nat \<Rightarrow> u64) \<Rightarrow> io \<Rightarrow> bool" where
  "serving P r t clk s \<longleftrightarrow> armed P (Some r) None s \<and> ticks s = t \<and> clock s = clk"

lemma fresh_serving: "fresh P None t clk s \<Longrightarrow> serving P t (Suc t) clk s"
  by (simp add: fresh_def serving_def)

lemma serving_fields [simp]:
  "serving P r t clk (s\<lparr>tx := x\<rparr>) = serving P r t clk s" "serving P r t clk (set_iden i s) = serving P r t clk s"
  by (simp_all add: serving_def)

lemma serving_heard: "serving P r t clk s \<Longrightarrow> heard P (Some r) None n s s' \<Longrightarrow> serving P r (t + n) clk s'"
  by (simp add: serving_def heard_def)

lemma serving_clear: "serving P r t clk s \<Longrightarrow> serving P t (Suc t) clk (fsm_timer_clear TIMER_RESET s)"
  using armed_clear(1) [of P "Some r" None s] by (simp add: serving_def)

lemma recv_serving:
  assumes "serving P r t clk s" "arrives_in_time clk P (Some r) None t f"
    and "rx s = delayed f @ rest" "map snd f = wire_frame iden type x" "length type = 4" "length x < 65536"
  shows "\<exists>s'. fsm_recv s = Returned FSM_OK s' \<and> frame_iden s' = iden \<and> frame_plen s' = of_nat (length x) \<and>
    frame_type s' = type \<and> frame_body s' = x \<and> rx s' = rest \<and> tx s' = tx s \<and> serving P r (t + readings f) clk s'"
proof -
  have "armed P (Some r) None s" "arrives_in_time (clock s) P (Some r) None (ticks s) f"
    using assms(1,2) by (simp_all add: serving_def)
  from recv_wire_frame [OF this assms(3-6)] obtain s' where
    "fsm_recv s = Returned FSM_OK s'" "frame_iden s' = iden" "frame_plen s' = of_nat (length x)" "frame_type s' = type"
    "frame_body s' = x" "rx s' = rest" "heard P (Some r) None (readings f) s s'" by blast
  with serving_heard [OF assms(1)] show ?thesis by (auto simp: heard_def)
qed

text \<open>Where the uploader stands after a frame that does, or does not, clear the reset timer.\<close>

lemma host_in_time_next:
  assumes "host_in_time clk P first r t (f # fs)"
    and "serving P r (t + readings f) clk s" "s' = (if first then s else fsm_timer_clear TIMER_RESET s)"
  shows "\<exists>r t. serving P r t clk s' \<and> host_in_time clk P False r t fs"
proof (cases first)
  case True
  with assms show ?thesis by auto
next
  case False
  with serving_clear [OF assms(2)] assms(1,3) show ?thesis by auto
qed

lemma ul_serve_ok:
  assumes "ul_pc u = UL_Serve" "serving P r t clk (ul_io u)" "length x < 65536" "marshal c = Some (Some x)"
    and "host_in_time clk P (last_chunk_no u = c) r t (f # fs)"
    and "rx (ul_io u) = delayed f @ rest" "map snd f = wire_frame i DEV_RQCH (le32 c)"
  shows "\<exists>s' r t. ul_step meta marshal u =
      u\<lparr>ul_io := s', last_chunk_no := c, hooks := hooks u @ [on_sent_chunk c]\<rparr> \<and>
    serving P r t clk s' \<and> host_in_time clk P False r t fs \<and> rx s' = rest \<and> tx s' = tx (ul_io u) @ wire_frame i HOST_CHNK x"
proof -
  have "arrives_in_time clk P (Some r) None t f" using assms(5) by simp
  from recv_serving [OF assms(2) this assms(6,7)] obtain s where
    s: "fsm_recv (ul_io u) = Returned FSM_OK s" "frame_iden s = i" "frame_type s = DEV_RQCH"
      "frame_plen s = 4" "frame_body s = le32 c" "rx s = rest" "tx s = tx (ul_io u)" "serving P r (t + readings f) clk s"
    by auto
  let ?s = "set_iden (fsm_iden s) (fsm_send HOST_CHNK x (of_nat (length x)) (set_iden i s))"
  let ?t = "if last_chunk_no u \<noteq> c then fsm_timer_clear TIMER_RESET ?s else ?s"
  have "ul_step meta marshal u = u\<lparr>ul_io := ?t, last_chunk_no := c, hooks := hooks u @ [on_sent_chunk c]\<rparr>"
    using assms(1,4) s by (simp add: ul_step_def ul_serve_def ul_chunk_def run_hook_def)
  moreover have "serving P r (t + readings f) clk ?s" using s(8) assms(3) by simp
  from host_in_time_next [OF assms(5) this, of ?t] have "\<exists>r t. serving P r t clk ?t \<and> host_in_time clk P False r t fs"
    by simp
  moreover have "rx ?t = rest" "tx ?t = tx (ul_io u) @ wire_frame i HOST_CHNK x" using s assms(3) by simp_all
  ultimately show ?thesis by blast
qed

lemma ul_chunks_ok:
  assumes "ul_pc u = UL_Serve" "serving P r t clk (ul_io u)" "\<And>x. x \<in> set xs \<Longrightarrow> length x < 65536"
    and "\<And>k. k < length xs \<Longrightarrow> marshal (c + of_nat k) = Some (Some (xs ! k))"
    and "rx (ul_io u) = concat (map delayed fs) @ rest" "map (map snd) fs = rqch_frames i c (length xs)"
    and "host_in_time clk P (xs \<noteq> [] \<and> last_chunk_no u = c) r t (fs @ gs)"
  shows "\<exists>s' r t l h. (ul_step meta marshal ^^ length xs) u = u\<lparr>ul_io := s', last_chunk_no := l, hooks := h\<rparr> \<and>
    serving P r t clk s' \<and> host_in_time clk P False r t gs \<and> rx s' = rest \<and> tx s' = tx (ul_io u) @ concat (chnk_frames i xs)"
  using assms
proof (induction xs arbitrary: u c i r t fs)
  case Nil
  then show ?case
    by (intro exI [of _ "ul_io u"] exI [of _ r] exI [of _ t] exI [of _ "last_chunk_no u"] exI [of _ "hooks u"]) simp
next
  case (Cons x xs)
  from Cons.prems(4) [of 0] have m: "marshal c = Some (Some x)" by simp
  from Cons.prems(6) obtain f fs' where fs: "fs = f # fs'" "map snd f = wire_frame i DEV_RQCH (le32 c)"
    "map (map snd) fs' = rqch_frames (i + 1) (c + 1) (length xs)" by (cases fs) auto
  have rx: "rx (ul_io u) = delayed f @ concat (map delayed fs') @ rest" using Cons.prems(5) by (simp add: fs(1))
  have it: "host_in_time clk P (last_chunk_no u = c) r t (f # fs' @ gs)" using Cons.prems(7) by (simp add: fs(1))
  have "length x < 65536" using Cons.prems(3) by simp
  from ul_serve_ok [where marshal = marshal and c = c, OF Cons.prems(1,2) this m it rx fs(2), of meta] obtain s1 r1 t1 where
    s1: "ul_step meta marshal u = u\<lparr>ul_io := s1, last_chunk_no := c, hooks := hooks u @ [on_sent_chunk c]\<rparr>"
      (is "_ = ?u") "serving P r1 t1 clk s1" "host_in_time clk P False r1 t1 (fs' @ gs)" "rx s1 = concat (map delayed fs') @ rest"
      "tx s1 = tx (ul_io u) @ wire_frame i HOST_CHNK x"
    by auto
  have next': "marshal (c + 1 + of_nat k) = Some (Some (xs ! k))" if "k < length xs" for k
    using Cons.prems(4) [of "Suc k"] that by (simp add: add.assoc)
  have "host_in_time clk P (xs \<noteq> [] \<and> last_chunk_no ?u = c + 1) r1 t1 (fs' @ gs)" using s1(3) by simp
  from Cons.IH [where i = "i + 1", OF _ _ _ next' _ _ this] Cons.prems(1,3) s1(2,4) fs(3) obtain s' r' t' l h where
    "(ul_step meta marshal ^^ length xs) ?u = ?u\<lparr>ul_io := s', last_chunk_no := l, hooks := h\<rparr>"
    "serving P r' t' clk s'" "host_in_time clk P False r' t' gs" "rx s' = rest" "tx s' = tx s1 @ concat (chnk_frames (i + 1) xs)"
    by auto
  with s1 show ?case
    by (intro exI [of _ s'] exI [of _ r'] exI [of _ t'] exI [of _ l] exI [of _ h])
       (simp add: funpow_Suc_right del: funpow.simps)
qed

lemma frame_body_one: "frame_plen s = 1 \<Longrightarrow> frame_body s = [raw_body s 0]"
  by (simp add: frame_body_def)

lemma ul_boot_frame_ok:
  assumes "ul_pc u = UL_Serve \<or> ul_pc u = UL_Beat" "serving P r t clk (ul_io u)" "arrives_in_time clk P (Some r) None t f"
    and "rx (ul_io u) = delayed f @ rest" "map snd f = wire_frame i DEV_BOOT [b]"
  shows "\<exists>u'. (ul_step meta marshal ^^ 2) u = u' \<and>
    ul_pc u' = UL_Done (if b \<noteq> 0 then UPLOAD_OK else UPLOAD_FAILED) \<and>
    rx (ul_io u') = rest \<and> tx (ul_io u') = tx (ul_io u) @ wire_ack i"
proof -
  from recv_serving [OF assms(2-5)] obtain s where
    s: "fsm_recv (ul_io u) = Returned FSM_OK s" "frame_iden s = i" "frame_type s = DEV_BOOT"
      "frame_plen s = 1" "frame_body s = [b]" "rx s = rest" "tx s = tx (ul_io u)"
    by auto
  have b: "raw_body s 0 = b" using s(4,5) frame_body_one [of s] by simp
  define u1 where "u1 = ul_step meta marshal u"
  have "ul_pc u1 = UL_Boot" "ul_io u1 = s"
    using assms(1) s by (auto simp: u1_def ul_step_def ul_serve_def ul_beat_def run_hook_def)
  then show ?thesis
    using s b by (simp add: numeral_2_eq_2 u1_def [symmetric])
      (simp add: ul_step_def ul_boot_def Let_def fsm_send_ack_eq)
qed

lemma ul_beat_ok:
  assumes "ul_pc u = UL_Serve \<or> ul_pc u = UL_Beat" "serving P r t clk (ul_io u)"
    and "host_in_time clk P False r t (f # fs)"
    and "rx (ul_io u) = delayed f @ rest" "map snd f = wire_frame i DEV_BEAT []"
  shows "\<exists>s' r t h. ul_step meta marshal u = u\<lparr>ul_pc := UL_Beat, ul_io := s', hooks := h\<rparr> \<and> serving P r t clk s' \<and>
    host_in_time clk P False r t fs \<and> rx s' = rest \<and> tx s' = tx (ul_io u)"
proof -
  have "arrives_in_time clk P (Some r) None t f" using assms(3) by simp
  from recv_serving [OF assms(2) this assms(4,5)] obtain s where
    s: "fsm_recv (ul_io u) = Returned FSM_OK s" "frame_type s = DEV_BEAT"
      "frame_plen s = 0" "rx s = rest" "tx s = tx (ul_io u)" "serving P r (t + readings f) clk s"
    by auto
  let ?h = "hooks u @ (if ul_pc u = UL_Serve then [on_all_chunks] else []) @ [on_heartbeat]"
  let ?t = "fsm_timer_clear TIMER_RESET s"
  have "ul_step meta marshal u = u\<lparr>ul_pc := UL_Beat, ul_io := ?t, hooks := ?h\<rparr>"
    using assms(1) s by (auto simp: ul_step_def ul_serve_def ul_beat_def run_hook_def)
  moreover from host_in_time_next [OF assms(3) s(6), of ?t] obtain r t where
    "serving P r t clk ?t" "host_in_time clk P False r t fs" by auto
  moreover have "rx ?t = rest" "tx ?t = tx (ul_io u)" using s by simp_all
  ultimately show ?thesis by blast
qed

lemma ul_beats_ok:
  assumes "ul_pc u = UL_Serve \<or> ul_pc u = UL_Beat" "serving P r t clk (ul_io u)"
    and "rx (ul_io u) = concat (map delayed fs) @ rest" "map (map snd) fs = replicate n (wire_frame i DEV_BEAT [])"
    and "host_in_time clk P False r t (fs @ gs)"
  shows "\<exists>u' r t. (ul_step meta marshal ^^ n) u = u' \<and> (ul_pc u' = UL_Serve \<or> ul_pc u' = UL_Beat) \<and>
    serving P r t clk (ul_io u') \<and> host_in_time clk P False r t gs \<and> rx (ul_io u') = rest \<and> tx (ul_io u') = tx (ul_io u)"
  using assms
proof (induction n arbitrary: u r t fs)
  case 0
  then show ?case by auto
next
  case (Suc n)
  from Suc.prems(4) obtain f fs' where fs: "fs = f # fs'" "map snd f = wire_frame i DEV_BEAT []"
    "map (map snd) fs' = replicate n (wire_frame i DEV_BEAT [])" by (cases fs) auto
  have "rx (ul_io u) = delayed f @ concat (map delayed fs') @ rest" "host_in_time clk P False r t (f # fs' @ gs)"
    using Suc.prems(3,5) by (simp_all add: fs(1))
  from ul_beat_ok [OF Suc.prems(1,2) this(2,1) fs(2), of meta marshal] obtain s' r' t' h where
    s': "ul_step meta marshal u = u\<lparr>ul_pc := UL_Beat, ul_io := s', hooks := h\<rparr>" (is "_ = ?u")
      "serving P r' t' clk s'" "host_in_time clk P False r' t' (fs' @ gs)" "rx s' = concat (map delayed fs') @ rest"
      "tx s' = tx (ul_io u)"
    by auto
  from Suc.IH [of ?u r' t' fs'] fs(3) s' show ?case by (simp add: funpow_Suc_right del: funpow.simps)
qed

lemma unat_retries_start: "unat (ucast r + 1 :: u16) = unat r + 1" for r :: u8
proof -
  have "unat r < 256" using unsigned_less [of r, where 'a = nat] by simp
  then show ?thesis by (simp add: unat_word_ariths unsigned_ucast_eq take_bit_eq_mod)
qed

lemma retries_start: "ucast r + 1 \<noteq> (0 :: u16)" for r :: u8
proof
  assume "ucast r + 1 = (0 :: u16)"
  then have "unat (ucast r + 1 :: u16) = 0" by simp
  then show False by (simp only: unat_retries_start)
qed

lemma map_eq_appendD: "map f xs = ys @ zs \<Longrightarrow> \<exists>us vs. xs = us @ vs \<and> map f us = ys \<and> map f vs = zs"
  by (auto simp: map_eq_append_conv)

lemma upload_completes:
  assumes s0: "set_periods config s = Some s0" and meta: "length meta = META_SIZE"
    and xs: "\<And>x. x \<in> set xs \<Longrightarrow> length x < 65536"
      "\<And>k. k < length xs \<Longrightarrow> marshal (of_nat k) = Some (Some (xs ! k))"
    and rx: "hears s fs (device_frames (length xs) beats ok)"
    and it: "upload_in_time (clock s) (timeouts config) (xs \<noteq> []) (ticks s) fs"
  shows "\<exists>u. fsm_upload config meta marshal retries0 (length xs + beats + 4) s = Some u \<and>
    ul_pc u = UL_Done (if ok then UPLOAD_OK else UPLOAD_FAILED) \<and> rx (ul_io u) = [] \<and>
    tx (ul_io u) = tx s @ host_line meta xs"
proof -
  let ?st = "ul_step meta marshal" and ?n = "of_nat (length xs) :: u16" and ?P = "timeouts config" and ?clk = "clock s"
  let ?u0 = "ul_start retries0 s0"
  have "map (map snd) fs = wire_ack 0 # rqch_frames 0 0 (length xs) @ replicate beats (wire_frame ?n DEV_BEAT []) @
      [wire_frame ?n DEV_BOOT [if ok then 1 else 0]]"
    using rx by (simp add: hears_def device_frames_def)
  then obtain ack gs hs f where fs: "fs = ack # gs @ hs @ [f]" "map snd ack = wire_ack 0"
    "map (map snd) gs = rqch_frames 0 0 (length xs)" "map (map snd) hs = replicate beats (wire_frame ?n DEV_BEAT [])"
    "map snd f = wire_frame ?n DEV_BOOT [if ok then 1 else 0]"
    by (auto dest!: map_eq_appendD simp: map_eq_Cons_conv)
  have r0: "rx s = delayed ack @ concat (map delayed gs) @ concat (map delayed hs) @ delayed f @ []"
    using rx by (simp add: hears_def fs(1))
  define t1 where "t1 = ticks s + 2 + readings ack"
  have it: "arrives_in_time ?clk ?P (Some (ticks s)) (Some (ticks s + 1)) (ticks s + 2) ack"
    "host_in_time ?clk ?P (xs \<noteq> []) t1 (Suc t1) (gs @ hs @ [f])"
    using it by (simp_all add: fs(1) t1_def)
  note f0 = set_periods_fields [OF s0(1)]
  have "ul_pc ?u0 = UL_Reset" "retries ?u0 \<noteq> 0" "\<forall>t. period (timers (ul_io ?u0) t) = ?P t"
    using retries_start [of retries0] f0(5) by (simp_all add: ul_start_def)
  from ul_reset_ok [OF this, of meta marshal] obtain s1 where
    s1: "?st ?u0 = ?u0\<lparr>ul_pc := UL_Poll, retries := ucast retries0, ul_io := s1\<rparr>" (is "_ = ?u1")
      "fresh ?P None (ticks s) ?clk s1" "rx s1 = rx s" "tx s1 = tx s" "fsm_iden s1 = 0"
    using f0 by (auto simp: ul_start_def)
  have u1: "ul_pc ?u1 = UL_Poll" "fresh ?P None (ticks s) ?clk (ul_io ?u1)"
    "rx (ul_io ?u1) = delayed ack @ concat (map delayed gs) @ concat (map delayed hs) @ delayed f @ []"
    using s1 r0 by simp_all
  from ul_poll_ok [OF u1(1,2) meta it(1) u1(3) fs(2), of marshal] s1(4,5) obtain s2 where
    s2: "?st ?u1 = ?u1\<lparr>ul_pc := UL_Serve, ul_io := s2, last_chunk_no := 0, hooks := [on_poll_acked]\<rparr>"
      (is "_ = ?u2") "serving ?P t1 (Suc t1) ?clk s2" "tx s2 = tx s @ wire_frame 0 HOST_POLL meta"
      "rx s2 = concat (map delayed gs) @ concat (map delayed hs) @ delayed f @ []"
    by (auto simp: ul_start_def t1_def dest: fresh_serving)
  have "\<exists>s' r t l h. (?st ^^ length xs) ?u2 = ?u2\<lparr>ul_io := s', last_chunk_no := l, hooks := h\<rparr> \<and>
      serving ?P r t ?clk s' \<and> host_in_time ?clk ?P False r t (hs @ [f]) \<and>
      rx s' = concat (map delayed hs) @ delayed f @ [] \<and> tx s' = tx (ul_io ?u2) @ concat (chnk_frames 0 xs)"
    by (rule ul_chunks_ok [where c = 0 and i = 0 and fs = gs and r = t1 and t = "Suc t1"]) (use s2 xs it(2) fs(3) in \<open>simp_all\<close>)
  then obtain s3 r3 t3 l h where
    s3: "(?st ^^ length xs) ?u2 = ?u2\<lparr>ul_io := s3, last_chunk_no := l, hooks := h\<rparr>" (is "_ = ?u3")
      "serving ?P r3 t3 ?clk s3" "host_in_time ?clk ?P False r3 t3 (hs @ [f])" "tx s3 = tx s2 @ concat (chnk_frames 0 xs)"
      "rx s3 = concat (map delayed hs) @ delayed f @ []"
    by auto
  from ul_beats_ok [of ?u3 ?P r3 t3 ?clk hs "delayed f @ []" beats ?n "[f]" meta marshal] s3 fs(4) obtain u4 r4 t4 where
    u4: "(?st ^^ beats) ?u3 = u4" "ul_pc u4 = UL_Serve \<or> ul_pc u4 = UL_Beat" "serving ?P r4 t4 ?clk (ul_io u4)"
      "arrives_in_time ?clk ?P (Some r4) None t4 f" "rx (ul_io u4) = delayed f @ []" "tx (ul_io u4) = tx s3"
    by auto
  from ul_boot_frame_ok [OF u4(2-5) fs(5), of meta marshal] obtain u5 where
    u5: "(?st ^^ 2) u4 = u5" "ul_pc u5 = UL_Done (if ok then UPLOAD_OK else UPLOAD_FAILED)"
      "rx (ul_io u5) = []" "tx (ul_io u5) = tx s3 @ wire_ack ?n"
    using u4(6) by (auto split: if_splits)
  have "(?st ^^ (2 + (beats + (length xs + (1 + 1))))) ?u0 = u5"
    by (simp only: funpow_add comp_apply funpow_one s1(1) s2(1) s3(1) u4(1) u5(1))
  moreover have "2 + (beats + (length xs + (1 + 1))) = length xs + beats + 4" by simp
  ultimately have "fsm_upload config meta marshal retries0 (length xs + beats + 4) s = Some u5"
    by (simp only: fsm_upload_def s0(1) Option.bind.simps)
  then show ?thesis using u5 s2(3) s3(4) by (simp add: host_frames_def)
qed

section \<open>Safety of the downloader\<close>

lemma ucast_inc: "ucast (x + 1) = (ucast x + 1 :: u16)" for x :: u32
proof transfer
  fix x :: int
  have "take_bit 16 (take_bit 32 (x + 1)) = take_bit 16 (take_bit 16 x + 1)"
    by (simp add: take_bit_eq_mod mod_mod_cancel mod_simps)
  also have "take_bit 16 x = take_bit 16 (take_bit 32 x)" by (simp add: min_def)
  finally show "take_bit LENGTH(16) (take_bit LENGTH(32) (x + 1)) =
      take_bit LENGTH(16) (take_bit LENGTH(32) x + 1)"
    by (simp add: take_bit_eq_mod mod_simps)
qed

lemma inc_le_of_less: "x < y \<Longrightarrow> x + 1 \<le> y" for x y :: "'a::len word"
  using unat_Suc_less [of x y] by (simp add: word_le_nat_alt word_less_nat_alt Suc_le_eq)

inductive dl_reach :: "'p device_ops \<Rightarrow> 'p dl \<Rightarrow> 'p dl \<Rightarrow> bool" for ops d0 where
  dl_start: "dl_reach ops d0 d0"
| dl_next: "dl_reach ops d0 d \<Longrightarrow> dl_reach ops d0 (dl_step ops d)"

lemma dl_reach_funpow: "dl_reach ops d ((dl_step ops ^^ n) d)"
  by (induction n) (auto intro: dl_reach.intros)

text \<open>
  What the line has delivered. \<open>frame_bytes type iden x f\<close>: the bytes \<open>f\<close> are a frame with good check sequences,
  of the given type, identifier and body. \<open>delivers m xs line\<close>: on the line there is a poll whose body is the
  metadata \<open>m\<close>, and after it, in this order, a frame of type \<open>CHNK\<close> for each of the chunks \<open>xs\<close>, numbered from 0 on;
  other bytes may stand between these frames.
\<close>

definition frame_bytes :: "u8 list \<Rightarrow> u16 \<Rightarrow> u8 list \<Rightarrow> u8 list \<Rightarrow> bool" where
  "frame_bytes type iden x f \<longleftrightarrow> (\<exists>h b. frame_ok h b \<and> f = [ASC_SOH] @ h @ [ASC_STX] @ b @ [ASC_ETX, ASC_EOT] \<and>
     of_le16 (take 2 h) = iden \<and> take 4 (drop 4 h) = type \<and> take (length b - 2) b = x)"

inductive delivers :: "meta_t \<Rightarrow> u8 list list \<Rightarrow> u8 list \<Rightarrow> bool" for m where
  poll_frame: "frame_bytes HOST_POLL 0 body f \<Longrightarrow> length body = META_SIZE \<Longrightarrow> of_meta_bytes body = m \<Longrightarrow>
    delivers m [] (pre @ f)"
| chunk_frame: "delivers m xs line \<Longrightarrow> frame_bytes HOST_CHNK (of_nat (length xs)) x f \<Longrightarrow>
    delivers m (xs @ [x]) (line @ pre @ f)"

text \<open>\<open>delivered s m xs s'\<close>: the bytes that the polls between the two states delivered begin with such a line.\<close>

definition delivered :: "io \<Rightarrow> meta_t \<Rightarrow> u8 list list \<Rightarrow> io \<Rightarrow> bool" where
  "delivered s m xs s' \<longleftrightarrow> (\<exists>line rest. consumes s (line @ rest) s' \<and> delivers m xs line)"

lemma frame_bytes_length: "frame_bytes type iden x f \<Longrightarrow> length x \<le> 65535"
proof -
  have "unat p \<le> 65535" for p :: u16
    using unsigned_less [of p, where 'a = nat] by simp
  then show "frame_bytes type iden x f \<Longrightarrow> length x \<le> 65535" by (auto simp: frame_bytes_def frame_ok_def)
qed

lemma delivers_length: "delivers m xs line \<Longrightarrow> \<forall>x \<in> set xs. length x \<le> 65535"
  by (induction rule: delivers.induct) (auto dest: frame_bytes_length)

lemma accepted_bytes:
  "accepted s s' \<Longrightarrow> \<exists>pre f. consumes s (pre @ f) s' \<and> frame_bytes (frame_type s') (frame_iden s') (frame_body s') f"
proof -
  assume "accepted s s'"
  then obtain pre h b where a: "frame_ok h b" "consumes s (pre @ ([ASC_SOH] @ h @ [ASC_STX] @ b @ [ASC_ETX, ASC_EOT])) s'"
    "frame_iden s' = of_le16 (take 2 h)" "frame_type s' = take 4 (drop 4 h)" "frame_body s' = take (length b - 2) b"
    unfolding accepted_def by blast
  then have "frame_bytes (frame_type s') (frame_iden s') (frame_body s') ([ASC_SOH] @ h @ [ASC_STX] @ b @ [ASC_ETX, ASC_EOT])"
    unfolding frame_bytes_def by (intro exI [of _ h] exI [of _ b]) simp
  with a(2) show ?thesis by blast
qed

lemma recv_consumes: "fsm_recv s = Returned st s' \<Longrightarrow> \<exists>bs. consumes s bs s'"
  by (drule fsm_recv_explained) (simp add: explained_def)

lemma recv_ack_consumes: "fsm_recv_ack i s = Returned st s' \<Longrightarrow> \<exists>bs. consumes s bs s'"
  by (drule fsm_recv_ack_explained) (simp add: explained_def)

lemma recv_bytes_of_frame:
  "fsm_recv s = Returned FSM_OK s' \<Longrightarrow>
   \<exists>pre f. consumes s (pre @ f) s' \<and> frame_bytes (frame_type s') (frame_iden s') (frame_body s') f"
  by (rule accepted_bytes, drule fsm_recv_explained) (simp add: explained_def)

text \<open>Sending and the timers leave the polls alone.\<close>

lemma consumes_fields [simp]:
  "consumes s bs (fsm_timer_clear t s') = consumes s bs s'" "consumes (fsm_timer_clear t s) bs s' = consumes s bs s'"
  "consumes s bs (s'\<lparr>tx := x\<rparr>) = consumes s bs s'" "consumes (s\<lparr>tx := x\<rparr>) bs s' = consumes s bs s'"
  "consumes s bs (set_iden i s') = consumes s bs s'" "consumes s bs (set_active t b s') = consumes s bs s'"
  by (simp_all add: consumes_def)

lemma delivered_fields [simp]:
  "delivered s m xs (fsm_timer_clear t s') = delivered s m xs s'" "delivered s m xs (s'\<lparr>tx := x\<rparr>) = delivered s m xs s'"
  "delivered s m xs (set_iden i s') = delivered s m xs s'"
  by (simp_all add: delivered_def)

lemma delivered_same_end: "rx t = rx s' \<Longrightarrow> delivered s m xs t = delivered s m xs s'"
  by (simp add: delivered_def consumes_def)

lemma delivered_later: "delivered s m xs s' \<Longrightarrow> consumes s' bs t \<Longrightarrow> delivered s m xs t"
  unfolding delivered_def using consumes_trans by (metis append_assoc)

lemma delivered_poll:
  assumes "consumes s0 bs s" "fsm_recv s = Returned FSM_OK s'" "frame_type s' = HOST_POLL" "frame_iden s' = 0"
    and "unat (frame_plen s') = META_SIZE"
  shows "delivered s0 (of_meta_bytes (frame_body s')) [] s'"
proof -
  from recv_bytes_of_frame [OF assms(2)] obtain pre f where
    f: "consumes s (pre @ f) s'" "frame_bytes HOST_POLL 0 (frame_body s') f"
    using assms(3,4) by auto
  have "length (frame_body s') = META_SIZE" using assms(5) by (simp add: frame_body_def)
  from poll_frame [OF f(2) this refl] have "delivers (of_meta_bytes (frame_body s')) [] ((bs @ pre) @ f)" .
  moreover have "consumes s0 (((bs @ pre) @ f) @ []) s'" using consumes_trans [OF assms(1) f(1)] by simp
  ultimately show ?thesis unfolding delivered_def by blast
qed

lemma delivered_chunk:
  assumes "delivered s0 m xs s" "fsm_recv s = Returned FSM_OK s'" "frame_type s' = HOST_CHNK"
    and "frame_iden s' = of_nat (length xs)"
  shows "delivered s0 m (xs @ [frame_body s']) s'"
proof -
  from recv_bytes_of_frame [OF assms(2)] obtain pre f where
    f: "consumes s (pre @ f) s'" "frame_bytes HOST_CHNK (of_nat (length xs)) (frame_body s') f"
    using assms(3,4) by auto
  from assms(1) obtain line rest where l: "consumes s0 (line @ rest) s" "delivers m xs line"
    by (auto simp: delivered_def)
  from chunk_frame [OF l(2) f(2)] have "delivers m (xs @ [frame_body s']) (line @ (rest @ pre) @ f)" .
  moreover have "consumes s0 ((line @ (rest @ pre) @ f) @ []) s'" using consumes_trans [OF l(1) f(1)] by simp
  ultimately show ?thesis unfolding delivered_def by blast
qed

text \<open>
  What the downloader relies on: the platform holds the data fed since the last accepted
  metadata, and a successful load turns the held data into a loaded image. Loading sends
  heartbeats but does not change the frame identifier and reads nothing from the line.
\<close>

locale download_platform =
  fixes ops :: "'p device_ops"
    and holds :: "meta_t \<Rightarrow> u8 list \<Rightarrow> 'p \<Rightarrow> bool"
    and loaded :: "meta_t \<Rightarrow> u8 list \<Rightarrow> 'p \<Rightarrow> bool"
    and good :: "'p \<Rightarrow> bool"
  assumes init_holds: "good p \<Longrightarrow> init_meta ops m p = (True, p') \<Longrightarrow> holds m [] p'"
    and feed_holds: "holds m d p \<Longrightarrow> feed_op ops n x p = Some (True, p') \<Longrightarrow> holds m (d @ x) p'"
    and load_loaded: "holds m d p \<Longrightarrow> load_op ops p s = Some (True, p', s') \<Longrightarrow> loaded m d p'"
    and load_iden: "load_op ops p s = Some (ok, p', s') \<Longrightarrow> fsm_iden s' = fsm_iden s"
    and load_rx: "load_op ops p s = Some (ok, p', s') \<Longrightarrow> rx s' = rx s"
    and init_good: "good p \<Longrightarrow> init_meta ops m p = (ok, p') \<Longrightarrow> good p'"
    and feed_good: "good p \<Longrightarrow> feed_op ops n x p = Some (ok, p') \<Longrightarrow> good p'"
    and load_good: "good p \<Longrightarrow> load_op ops p s = Some (ok, p', s') \<Longrightarrow> good p'"
begin

definition progress :: "io \<Rightarrow> 'p dl \<Rightarrow> bool" where
  "progress s0 d \<longleftrightarrow> chunk_count d = chunks_of (wire_size (dl_meta d)) \<and> chunk_num d \<le> chunk_count d \<and>
     fsm_iden (dl_io d) = ucast (chunk_num d) \<and>
     (\<exists>xs. length xs = unat (chunk_num d) \<and> delivered s0 (dl_meta d) xs (dl_io d) \<and>
        holds (dl_meta d) (concat xs) (dl_dev d))"

definition finished :: "io \<Rightarrow> 'p dl \<Rightarrow> bool" where
  "finished s0 d \<longleftrightarrow> chunk_num d = chunks_of (wire_size (dl_meta d)) \<and>
     fsm_iden (dl_io d) = ucast (chunk_num d) \<and>
     (boot_ok d \<longrightarrow> (\<exists>xs. length xs = unat (chunk_num d) \<and> delivered s0 (dl_meta d) xs (dl_io d) \<and>
        loaded (dl_meta d) (concat xs) (dl_dev d)))"

definition dl_inv :: "io \<Rightarrow> 'p dl \<Rightarrow> bool" where
  "dl_inv s0 d \<longleftrightarrow> (\<exists>bs. consumes s0 bs (dl_io d)) \<and>
     (case dl_pc d of
        DL_Reset \<Rightarrow> True
      | DL_Init \<Rightarrow> fsm_iden (dl_io d) = 0
      | DL_Chunk \<Rightarrow> progress s0 d
      | DL_Load \<Rightarrow> progress s0 d \<and> chunk_num d = chunk_count d
      | DL_Boot \<Rightarrow> finished s0 d
      | DL_Done \<Rightarrow> finished s0 d
      | DL_Hang \<Rightarrow> True) \<or> dl_pc d = DL_Hang"

lemma dl_inv_Hang [simp]: "dl_pc d = DL_Hang \<Longrightarrow> dl_inv s0 d"
  by (simp add: dl_inv_def)

lemma dl_inv_pc:
  "dl_pc d = DL_Reset \<Longrightarrow> dl_inv s0 d \<longleftrightarrow> (\<exists>bs. consumes s0 bs (dl_io d))"
  "dl_pc d = DL_Init \<Longrightarrow> dl_inv s0 d \<longleftrightarrow> (\<exists>bs. consumes s0 bs (dl_io d)) \<and> fsm_iden (dl_io d) = 0"
  "dl_pc d = DL_Chunk \<Longrightarrow> dl_inv s0 d \<longleftrightarrow> (\<exists>bs. consumes s0 bs (dl_io d)) \<and> progress s0 d"
  "dl_pc d = DL_Load \<Longrightarrow> dl_inv s0 d \<longleftrightarrow> (\<exists>bs. consumes s0 bs (dl_io d)) \<and> progress s0 d \<and> chunk_num d = chunk_count d"
  "dl_pc d = DL_Boot \<Longrightarrow> dl_inv s0 d \<longleftrightarrow> (\<exists>bs. consumes s0 bs (dl_io d)) \<and> finished s0 d"
  "dl_pc d = DL_Done \<Longrightarrow> dl_inv s0 d \<longleftrightarrow> (\<exists>bs. consumes s0 bs (dl_io d)) \<and> finished s0 d"
  by (simp_all add: dl_inv_def)

lemma recv_iden: "fsm_recv s = Returned r s' \<Longrightarrow> fsm_iden s' = fsm_iden s"
  by (auto dest: fsm_recv_explained simp: explained_def still_def)

lemma recv_ack_iden: "fsm_recv_ack i s = Returned r s' \<Longrightarrow> fsm_iden s' = fsm_iden s"
  by (auto dest: fsm_recv_ack_explained simp: explained_def still_def)

lemma onward:
  "consumes s0 bs s \<Longrightarrow> fsm_recv s = Returned r s' \<Longrightarrow> \<exists>bs. consumes s0 bs s'"
  "consumes s0 bs s \<Longrightarrow> fsm_recv_ack i s = Returned r s' \<Longrightarrow> \<exists>bs. consumes s0 bs s'"
  by (meson consumes_trans recv_consumes recv_ack_consumes)+

lemma inv_poll:
  assumes "good (dl_dev d)" "delivered s0 (of_meta_bytes (frame_body (dl_io d))) [] (dl_io d)"
    and "consumes s0 bs (dl_io d)" "fsm_iden (dl_io d) = 0"
  shows "dl_inv s0 (dl_poll ops d)"
proof -
  let ?m = "of_meta_bytes (frame_body (dl_io d))"
  obtain ok p where i: "init_meta ops ?m (dl_dev d) = (ok, p)" by fastforce
  have c: "consumes s0 bs (fsm_send_ack 0 (fsm_timer_clear TIMER_RESET (dl_io d)))"
    "delivered s0 ?m [] (fsm_send_ack 0 (fsm_timer_clear TIMER_RESET (dl_io d)))"
    using assms(2,3) by (simp_all add: fsm_send_ack_eq)
  show ?thesis
  proof (cases ok)
    case True
    with i init_holds [OF assms(1), of ?m p] have "holds ?m [] p" by simp
    with i True c assms(4) show ?thesis
      by (simp add: dl_poll_def Let_def dl_inv_pc progress_def fsm_send_ack_eq) (metis concat.simps(1) list.size(3))
  next
    case False
    with i assms(3) show ?thesis by (auto simp: dl_poll_def Let_def dl_inv_pc)
  qed
qed

lemma inv_init:
  assumes d: "dl_pc d = DL_Init" "good (dl_dev d)" "dl_inv s0 d"
  shows "dl_inv s0 (dl_init ops d)"
proof (cases "fsm_recv (dl_io d)")
  case (Hang s)
  then show ?thesis by (simp add: dl_init_def)
next
  case (Returned r s)
  from d obtain bs where bs: "consumes s0 bs (dl_io d)" and i: "fsm_iden (dl_io d) = 0" by (auto simp: dl_inv_pc)
  from onward(1) [OF bs Returned] obtain cs where cs: "consumes s0 cs s" by blast
  have i: "fsm_iden s = 0" using recv_iden [OF Returned] i by simp
  show ?thesis
  proof (cases "r = FSM_OK \<and> frame_type s = HOST_POLL \<and> frame_iden s = 0 \<and> unat (frame_plen s) = META_SIZE")
    case True
    with Returned have p: "fsm_recv (dl_io d) = Returned FSM_OK s" by simp
    from True have "frame_type s = HOST_POLL" "frame_iden s = 0" "unat (frame_plen s) = META_SIZE" by simp_all
    from inv_poll [of "d\<lparr>dl_io := s\<rparr>" s0 cs] delivered_poll [OF bs p this] d(2) cs i
    have "dl_inv s0 (dl_poll ops (d\<lparr>dl_io := s\<rparr>))" by simp
    with Returned True show ?thesis by (simp add: dl_init_def Let_def)
  next
    case False
    with Returned d(1) cs i show ?thesis by (auto simp: dl_init_def Let_def dl_inv_pc)
  qed
qed

lemma inv_feed:
  assumes d: "dl_pc d = DL_Chunk" "chunk_count d = chunks_of (wire_size (dl_meta d))" "chunk_num d < chunk_count d"
    "fsm_iden (dl_io d) = ucast (chunk_num d)"
    and xs: "length xs = unat (chunk_num d)" "holds (dl_meta d) (concat xs) (dl_dev d)"
    and l: "delivered s0 (dl_meta d) (xs @ [frame_body (dl_io d)]) (dl_io d)" and cs: "consumes s0 cs (dl_io d)"
  shows "dl_inv s0 (dl_feed ops d)"
proof (cases "feed_op ops (chunk_num d) (frame_body (dl_io d)) (dl_dev d)")
  case None
  then show ?thesis by (simp add: dl_feed_def)
next
  case (Some okp)
  then obtain ok p where f: "feed_op ops (chunk_num d) (frame_body (dl_io d)) (dl_dev d) = Some (ok, p)"
    by (cases okp) auto
  let ?xs = "xs @ [frame_body (dl_io d)]"
  show ?thesis
  proof (cases ok)
    case True
    have "holds (dl_meta d) (concat ?xs) p"
      using feed_holds [OF xs(2), of "chunk_num d" "frame_body (dl_io d)" p] f True by simp
    moreover have "length ?xs = unat (chunk_num d + 1)" using xs(1) unat_Suc_less [OF d(3)] by simp
    ultimately have "progress s0 (dl_feed ops d)" "\<exists>bs. consumes s0 bs (dl_io (dl_feed ops d))" "dl_pc (dl_feed ops d) = DL_Chunk"
      using f True d l cs ucast_inc [of "chunk_num d"] inc_le_of_less [OF d(3)]
      by (auto simp: dl_feed_def Let_def progress_def simp del: concat_append intro!: exI [of _ ?xs])
    then show ?thesis by (simp add: dl_inv_pc)
  next
    case False
    with f d cs show ?thesis by (auto simp: dl_feed_def Let_def dl_inv_pc)
  qed
qed

lemma inv_chunk:
  assumes d: "dl_pc d = DL_Chunk" "dl_inv s0 d"
  shows "dl_inv s0 (dl_chunk ops d)"
proof (cases "chunk_num d < chunk_count d")
  case False
  with d show ?thesis by (auto simp: dl_chunk_def dl_inv_pc progress_def)
next
  case True
  let ?s = "fsm_timer_clear TIMER_RESEND (fsm_send DEV_RQCH (le32 (chunk_num d)) 4 (dl_io d))"
  from d obtain bs where bs: "consumes s0 bs ?s" and p: "progress s0 d" by (auto simp: dl_inv_pc)
  then obtain xs where xs: "length xs = unat (chunk_num d)" "delivered s0 (dl_meta d) xs ?s"
    "holds (dl_meta d) (concat xs) (dl_dev d)" by (auto simp: progress_def)
  show ?thesis
  proof (cases "fsm_recv ?s")
    case (Hang s)
    with True show ?thesis by (simp add: dl_chunk_def Let_def)
  next
    case (Returned r s)
    from onward(1) [OF bs Returned] obtain cs where cs: "consumes s0 cs s" by blast
    from recv_consumes [OF Returned] obtain es where "consumes ?s es s" by blast
    with xs(2) have "delivered s0 (dl_meta d) xs s" by (rule delivered_later)
    then have p': "progress s0 (d\<lparr>dl_io := s\<rparr>)"
      using p xs recv_iden [OF Returned] by (auto simp: progress_def)
    show ?thesis
    proof (cases "r = FSM_OK \<and> frame_type s = HOST_CHNK \<and> frame_iden s = fsm_iden s")
      case yes: True
      with Returned have r: "fsm_recv ?s = Returned FSM_OK s" by simp
      have i: "fsm_iden s = ucast (chunk_num d)" using p' by (simp add: progress_def)
      then have "frame_iden s = of_nat (length xs)" using yes xs(1) by simp
      from delivered_chunk [OF xs(2) r _ this] inv_feed [of "d\<lparr>dl_io := s\<rparr>" xs s0 cs] d(1) p True yes i xs cs
      have "dl_inv s0 (dl_feed ops (d\<lparr>dl_io := s\<rparr>))" by (simp add: progress_def)
      with yes r True show ?thesis by (simp add: dl_chunk_def Let_def)
    next
      case False
      with True Returned d(1) p' cs show ?thesis
        by (cases r) (auto simp: dl_chunk_def dl_inv_pc Let_def)
    qed
  qed
qed

lemma inv_load:
  assumes d: "dl_pc d = DL_Load" "dl_inv s0 d"
  shows "dl_inv s0 (dl_load ops d)"
proof (cases "load_op ops (dl_dev d) (dl_io d)")
  case None
  then show ?thesis by (simp add: dl_load_def)
next
  case (Some r)
  then obtain ok p s where l: "load_op ops (dl_dev d) (dl_io d) = Some (ok, p, s)" by (cases r) auto
  from d obtain bs xs where x: "consumes s0 bs (dl_io d)" "length xs = unat (chunk_num d)" "delivered s0 (dl_meta d) xs (dl_io d)"
    "holds (dl_meta d) (concat xs) (dl_dev d)" by (auto simp: dl_inv_pc progress_def)
  have c: "consumes s0 bs s" "delivered s0 (dl_meta d) xs s"
    using x load_rx [OF l] delivered_same_end [OF load_rx [OF l]] by (simp_all add: consumes_def)
  have "finished s0 (dl_load ops d)"
    using d x l c load_iden [OF l] load_loaded [OF x(4), of "dl_io d" p s]
    by (auto simp: dl_load_def dl_inv_pc finished_def progress_def)
  moreover have "dl_pc (dl_load ops d) = DL_Boot" "consumes s0 bs (dl_io (dl_load ops d))" using l c by (simp_all add: dl_load_def)
  ultimately show ?thesis by (auto simp: dl_inv_pc)
qed

lemma inv_boot:
  assumes d: "dl_pc d = DL_Boot" "dl_inv s0 d"
  shows "dl_inv s0 (dl_boot d)"
proof -
  let ?s = "fsm_timer_clear TIMER_RESEND (fsm_send DEV_BOOT [if boot_ok d then 1 else 0] 1 (dl_io d))"
  from d obtain bs where bs: "consumes s0 bs ?s" and f: "finished s0 d" by (auto simp: dl_inv_pc)
  show ?thesis
  proof (cases "fsm_recv_ack (fsm_iden ?s) ?s")
    case (Hang s)
    then show ?thesis by (simp add: dl_boot_def Let_def)
  next
    case (Returned r s)
    from onward(2) [OF bs Returned] obtain cs where cs: "consumes s0 cs s" by blast
    from recv_ack_consumes [OF Returned] obtain es where "consumes (dl_io d) es s" by auto
    then have f': "finished s0 (d\<lparr>dl_io := s\<rparr>)"
      using f recv_ack_iden [OF Returned] delivered_later [of s0 "dl_meta d" _ "dl_io d" es s] by (auto simp: finished_def)
    then have "finished s0 (d\<lparr>dl_io := s, dl_pc := DL_Done\<rparr>)" by (simp add: finished_def cong: conj_cong)
    with f' Returned d(1) cs show ?thesis
      by (cases r) (auto simp: dl_boot_def Let_def dl_inv_pc)
  qed
qed

text \<open>What is true of the platform from the start, whatever is received.\<close>

lemma good_step: "good (dl_dev d) \<Longrightarrow> good (dl_dev (dl_step ops d))"
  by (cases "dl_pc d")
     (auto simp: dl_step_def dl_reset_def dl_init_def dl_poll_def dl_chunk_def dl_feed_def dl_load_def dl_boot_def Let_def
       split: outcome.splits option.splits prod.splits intro: init_good feed_good load_good)

lemma inv_reset:
  assumes "dl_pc d = DL_Reset" "dl_inv s0 d"
  shows "dl_inv s0 (dl_reset d)"
proof -
  from assms obtain bs where "consumes s0 bs (dl_io d)" by (auto simp: dl_inv_pc)
  then show ?thesis by (auto simp: dl_reset_def dl_inv_pc)
qed

lemma inv_step: "good (dl_dev d) \<Longrightarrow> dl_inv s0 d \<Longrightarrow> dl_inv s0 (dl_step ops d)"
  by (cases "dl_pc d") (simp_all add: dl_step_def inv_reset inv_init inv_chunk inv_load inv_boot)

lemma reach_inv:
  assumes "dl_reach ops d0 d" "dl_pc d0 = DL_Reset" "good (dl_dev d0)"
  shows "good (dl_dev d) \<and> dl_inv (dl_io d0) d"
  using assms
proof (induction rule: dl_reach.induct)
  case dl_start
  then show ?case using consumes_refl [of "dl_io d0"] by (auto simp: dl_inv_pc)
qed (simp_all add: good_step inv_step)

lemma download_safe:
  assumes "fsm_download ops config n d0 = Some d" "dl_pc d = DL_Done" "boot_ok d" "good (dl_dev d0)"
  shows "\<exists>xs. length xs = unat (chunks_of (wire_size (dl_meta d))) \<and> delivered (dl_io d0) (dl_meta d) xs (dl_io d) \<and>
    loaded (dl_meta d) (concat xs) (dl_dev d)"
proof -
  from assms(1) obtain s where s: "set_periods config (dl_io d0) = Some s"
    and "d = (dl_step ops ^^ n) (d0\<lparr>dl_pc := DL_Reset, dl_io := s\<rparr>)"
    by (auto simp: fsm_download_def split: Option.bind_splits)
  then have "dl_reach ops (d0\<lparr>dl_pc := DL_Reset, dl_io := s\<rparr>) d" by (simp add: dl_reach_funpow)
  from reach_inv [OF this] assms(4) have "dl_inv s d" by simp
  moreover have "delivered s m xs t = delivered (dl_io d0) m xs t" for m xs t
    using set_periods_fields(2) [OF s] by (simp add: delivered_def consumes_def)
  ultimately show ?thesis using assms(2,3) by (auto simp: dl_inv_pc finished_def)
qed

end

section \<open>The uploader gives up after its retries\<close>

lemma ul_retries_step:
  "ul_pc u \<noteq> UL_Reset \<Longrightarrow> retries (ul_step meta marshal u) = retries u \<and>
   (ul_pc (ul_step meta marshal u) = UL_Done UPLOAD_TIMEOUT \<longleftrightarrow> ul_pc u = UL_Done UPLOAD_TIMEOUT)"
  by (cases "ul_pc u")
     (auto simp: ul_step_def ul_poll_def ul_serve_def ul_chunk_def ul_beat_def ul_boot_def run_hook_def Let_def
       split: outcome.splits option.splits)

lemma ul_reset_step:
  "ul_pc u = UL_Reset \<Longrightarrow> retries u = 0 \<Longrightarrow> ul_pc (ul_step meta marshal u) = UL_Done UPLOAD_TIMEOUT"
  "ul_pc u = UL_Reset \<Longrightarrow> retries u \<noteq> 0 \<Longrightarrow> ul_pc (ul_step meta marshal u) = UL_Poll \<and>
   retries (ul_step meta marshal u) = retries u - 1"
  by (simp_all add: ul_step_def ul_reset_def)

text \<open>The visits of the label \<open>reset\<close> within the first \<open>n\<close> control points.\<close>

definition resets :: "u8 list \<Rightarrow> (u32 \<Rightarrow> u8 list option option) \<Rightarrow> ul \<Rightarrow> nat \<Rightarrow> nat" where
  "resets meta marshal u n =
     length (filter (\<lambda>k. ul_pc ((ul_step meta marshal ^^ k) u) = UL_Reset) [0..<n])"

lemma resets_Suc:
  "resets meta marshal u (Suc n) = resets meta marshal u n +
     (if ul_pc ((ul_step meta marshal ^^ n) u) = UL_Reset then 1 else 0)"
  by (simp add: resets_def)

lemma resets_retries:
  assumes "ul_pc u \<noteq> UL_Done UPLOAD_TIMEOUT"
  shows "(ul_pc ((ul_step meta marshal ^^ n) u) \<noteq> UL_Done UPLOAD_TIMEOUT \<and>
      resets meta marshal u n + unat (retries ((ul_step meta marshal ^^ n) u)) = unat (retries u)) \<or>
    (ul_pc ((ul_step meta marshal ^^ n) u) = UL_Done UPLOAD_TIMEOUT \<and>
      resets meta marshal u n = unat (retries u) + 1)"
proof (induction n)
  case 0
  then show ?case using assms by (simp add: resets_def)
next
  case (Suc n)
  let ?u = "(ul_step meta marshal ^^ n) u"
  show ?case
  proof (cases "ul_pc ?u = UL_Reset")
    case False
    with ul_retries_step [OF False, of meta marshal] Suc.IH show ?thesis by (simp add: resets_Suc)
  next
    case True
    show ?thesis
    proof (cases "retries ?u = 0")
      case zero: True
      with True Suc.IH ul_reset_step(1) [OF True zero] show ?thesis by (simp add: resets_Suc)
    next
      case False
      then have "unat (retries ?u - 1) + 1 = unat (retries ?u)"
        by (metis Suc_eq_plus1 Suc_pred' unat_gt_0 unat_minus_one)
      with True Suc.IH ul_reset_step(2) [OF True False] show ?thesis by (simp add: resets_Suc)
    qed
  qed
qed

section \<open>Properties\<close>

text \<open>
  C24: the uploader makes at most \<open>retries + 1\<close> attempts. Whatever the device sends and whatever
  the clock does, the label \<open>reset\<close> is visited at most \<open>retries + 2\<close> times in any number of
  steps, and the machine returns \<open>UPLOAD_TIMEOUT\<close> only after exactly that many visits, that is,
  once every attempt has run into the reset timeout.
\<close>

theorem fsm_upload_bounded_retries:
  "resets meta marshal (ul_start retries0 s) n \<le> unat retries0 + 2 \<and>
   (ul_pc ((ul_step meta marshal ^^ n) (ul_start retries0 s)) = UL_Done UPLOAD_TIMEOUT \<longleftrightarrow>
    resets meta marshal (ul_start retries0 s) n = unat retries0 + 2)"
proof -
  have "ul_pc (ul_start retries0 s) \<noteq> UL_Done UPLOAD_TIMEOUT"
    "unat (retries (ul_start retries0 s)) = unat retries0 + 1"
    by (simp_all add: ul_start_def unat_retries_start)
  with resets_retries [of "ul_start retries0 s" n meta marshal] show ?thesis by auto
qed

end
