(* ===== verification/Memory.thy ===== *)
theory Memory
  imports Prelude
begin

text \<open>
  Byte-addressed memory, shared by the boot loader, the ELF loader and the DMA library: reading
  and writing byte ranges, little-endian loads, and the C library's block operations.
\<close>

type_synonym mem = "nat \<Rightarrow> u8"

named_theorems mem_simps "reads and writes of byte ranges"

definition mem_read :: "mem \<Rightarrow> nat \<Rightarrow> nat \<Rightarrow> u8 list" where
  "mem_read m a n = map m [a..<a + n]"

definition mem_write :: "nat \<Rightarrow> u8 list \<Rightarrow> mem \<Rightarrow> mem" where
  "mem_write a bs m = (\<lambda>i. if a \<le> i \<and> i < a + length bs then bs ! (i - a) else m i)"

text \<open>
  \<open>memcpy\<close> for ranges that do not overlap, \<open>memmove\<close> for any two ranges, and \<open>memset\<close>.
\<close>

definition mem_copy :: "nat \<Rightarrow> nat \<Rightarrow> nat \<Rightarrow> mem \<Rightarrow> mem" where
  "mem_copy dst src n m = mem_write dst (mem_read m src n) m"

definition load16 :: "mem \<Rightarrow> nat \<Rightarrow> u16" where
  "load16 m a = of_le16 (mem_read m a 2)"

definition load32 :: "mem \<Rightarrow> nat \<Rightarrow> u32" where
  "load32 m a = of_le32 (mem_read m a 4)"

lemma length_mem_read [simp]: "length (mem_read m a n) = n"
  by (simp add: mem_read_def)

lemma nth_mem_read [simp]: "i < n \<Longrightarrow> mem_read m a n ! i = m (a + i)"
  by (simp add: mem_read_def)

lemma mem_read_0 [simp]: "mem_read m a 0 = []"
  by (simp add: mem_read_def)

lemma mem_write_Nil [simp]: "mem_write a [] m = m"
  by (auto simp: mem_write_def fun_eq_iff)

lemma mem_read_append: "mem_read m a (n + k) = mem_read m a n @ mem_read m (a + n) k"
proof -
  have "[a..<a + (n + k)] = [a..<a + n] @ [a + n..<a + n + k]"
    using upt_add_eq_append [of a "a + n" k] by (simp add: add.assoc)
  then show ?thesis by (simp add: mem_read_def)
qed

lemma mem_read_write_same [simp]: "mem_read (mem_write a bs m) a (length bs) = bs"
  by (rule nth_equalityI) (simp_all add: mem_write_def)

lemma mem_read_write_same' [mem_simps]:
  "n = length bs \<Longrightarrow> mem_read (mem_write a bs m) a n = bs"
  by simp

lemma mem_read_write_disjoint [mem_simps]:
  "a + n \<le> b \<or> b + length bs \<le> a \<Longrightarrow> mem_read (mem_write b bs m) a n = mem_read m a n"
  by (rule nth_equalityI) (auto simp: mem_write_def)

lemma mem_read_write_part [mem_simps]:
  "k + n \<le> length bs \<Longrightarrow> mem_read (mem_write a bs m) (a + k) n = take n (drop k bs)"
  by (rule nth_equalityI) (auto simp: mem_write_def)

lemma mem_write_outside: "i < a \<or> a + length bs \<le> i \<Longrightarrow> mem_write a bs m i = m i"
  by (auto simp: mem_write_def)

lemma mem_write_append: "mem_write a (xs @ ys) m = mem_write (a + length xs) ys (mem_write a xs m)"
  by (auto simp: mem_write_def fun_eq_iff nth_append)

lemma mem_read_cong: "(\<And>i. a \<le> i \<Longrightarrow> i < a + n \<Longrightarrow> m i = m' i) \<Longrightarrow> mem_read m a n = mem_read m' a n"
  by (rule nth_equalityI) auto

lemma mem_read_eq_iff:
  "mem_read m a n = mem_read m' b n \<longleftrightarrow> (\<forall>i < n. m (a + i) = m' (b + i))"
  by (auto simp: list_eq_iff_nth_eq)

lemma take_mem_read: "k \<le> n \<Longrightarrow> take k (mem_read m a n) = mem_read m a k"
  by (rule nth_equalityI) auto

lemma drop_mem_read: "drop k (mem_read m a n) = mem_read m (a + k) (n - k)"
  by (rule nth_equalityI) (auto simp: add.assoc)

lemma mem_copy_read [mem_simps]: "mem_read (mem_copy d s n m) d n = mem_read m s n"
  by (simp add: mem_copy_def mem_simps)

lemma mem_copy_outside: "i < d \<or> d + n \<le> i \<Longrightarrow> mem_copy d s n m i = m i"
  by (simp add: mem_copy_def mem_write_outside)

text \<open>A copy between disjoint ranges can be done in two pieces.\<close>

lemma mem_copy_append:
  assumes "s + (n + k) \<le> d \<or> d + (n + k) \<le> s"
  shows "mem_copy (d + n) (s + n) k (mem_copy d s n m) = mem_copy d s (n + k) m"
proof -
  have "mem_read (mem_copy d s n m) (s + n) k = mem_read m (s + n) k"
    using assms by (auto simp: mem_copy_def intro!: mem_read_write_disjoint)
  then show ?thesis by (simp add: mem_copy_def mem_read_append mem_write_append)
qed

lemma load32_write [mem_simps]: "load32 (mem_write a (le32 v) m) a = v"
  by (simp add: load32_def mem_simps)

end
