(* ===== verification/Elf_Loader.thy ===== *)
theory Elf_Loader
  imports Memory
begin

text \<open>
  The ELF loader of the boot loader, \<^verbatim>\<open>pup/elf_loader.c\<close>: header validation, the sorted map of
  claimed address ranges, the first-fit allocator over it, the list of copy and fill
  operations for the second-stage trampoline, and \<open>load_elf_image\<close>, which ties them together.
  Addresses and sizes are 32-bit and wrap. \<open>Panic\<close> is a failed assertion, \<open>Overrun\<close> a write
  past the end of \<open>memory_map\<close>.
\<close>

section \<open>Reading the image\<close>

record Elf32_Ehdr =
  e_ident :: "u8 list"
  e_type :: u16
  e_machine :: u16
  e_version :: u32
  e_entry :: u32
  e_phoff :: u32
  e_phentsize :: u16
  e_phnum :: u16

definition read_ehdr :: "mem \<Rightarrow> nat \<Rightarrow> Elf32_Ehdr" where
  "read_ehdr m a = \<lparr>e_ident = mem_read m a 16, e_type = load16 m (a + 16), e_machine = load16 m (a + 18),
     e_version = load32 m (a + 20), e_entry = load32 m (a + 24), e_phoff = load32 m (a + 28),
     e_phentsize = load16 m (a + 42), e_phnum = load16 m (a + 44)\<rparr>"

record Elf32_Phdr =
  p_type :: u32
  p_offset :: u32
  p_vaddr :: u32
  p_filesz :: u32
  p_memsz :: u32

definition read_phdr :: "mem \<Rightarrow> nat \<Rightarrow> Elf32_Phdr" where
  "read_phdr m a = \<lparr>p_type = load32 m a, p_offset = load32 m (a + 4), p_vaddr = load32 m (a + 8),
     p_filesz = load32 m (a + 16), p_memsz = load32 m (a + 20)\<rparr>"

definition PT_LOAD :: u32 where "PT_LOAD = 1"
definition EM_ARM :: u16 where "EM_ARM = 40"
definition ELFMAG :: "u8 list" where "ELFMAG = [0x7f, 0x45, 0x4c, 0x46]"

definition validate_elf_header :: "Elf32_Ehdr \<Rightarrow> bool \<Rightarrow> bool \<Rightarrow> u16 \<Rightarrow> bool" where
  "validate_elf_header ehdr elf32_p elfle_p machine \<longleftrightarrow>
     take 4 (e_ident ehdr) = ELFMAG \<and>
     e_ident ehdr ! 4 = (if elf32_p then 1 else 2) \<and>
     e_ident ehdr ! 5 = (if elfle_p then 1 else 2) \<and>
     e_ident ehdr ! 6 = 1 \<and>
     e_ident ehdr ! 7 = 0 \<and>
     e_ident ehdr ! 8 = 0 \<and>
     e_type ehdr = 2 \<and>
     e_machine ehdr = machine \<and>
     e_version ehdr = 1"

section \<open>The map of claimed ranges\<close>

record range =
  start :: u32
  stop :: u32

datatype elf_loader_op = OP_COPY (op_dst: u32) (op_src: u32) (op_size: u32)
  | OP_ZERO (op_dst: u32) (op_size: u32) (op_fill: u32)

definition ELF_MAX_SEGMENTS :: nat where "ELF_MAX_SEGMENTS = 16"

text \<open>
  The static variables. \<open>memory_map\<close> is the whole array of \<open>ELF_MAX_SEGMENTS + 2\<close> slots, of
  which the first \<open>range_count\<close> are in use; likewise \<open>loader_ops\<close>.
\<close>

record elf_state =
  memory_map :: "range list"
  range_count :: nat
  loader_ops :: "elf_loader_op list"
  op_count :: nat
  elf_trampoline_ptr :: u32

datatype 'a checked = Ok 'a | Panic | Overrun

text \<open>\<open>memmove\<close> of \<open>n\<close> slots from index \<open>i\<close> to index \<open>i + 1\<close>.\<close>

definition shift_slots :: "nat \<Rightarrow> nat \<Rightarrow> 'a list \<Rightarrow> 'a list" where
  "shift_slots i n xs = take (i + 1) xs @ take n (drop i xs) @ drop (i + 1 + n) xs"

definition claim_space :: "range \<Rightarrow> bool \<Rightarrow> elf_state \<Rightarrow> (bool \<times> elf_state) checked" where
  "claim_space r force es =
     (if ELF_MAX_SEGMENTS \<le> range_count es \<and> \<not> force then Ok (False, es)
      else
        let cnt = range_count es + 1; mm = memory_map es
        in if \<not> cnt \<le> ELF_MAX_SEGMENTS + 2 then Panic
           else case find (\<lambda>i. start r < start (mm ! i)) [0..<cnt] of
             Some i \<Rightarrow>
               if ELF_MAX_SEGMENTS + 2 < i + 1 + (cnt - i) then Overrun
               else Ok (True, es\<lparr>range_count := cnt, memory_map := (shift_slots i (cnt - i) mm)[i := r]\<rparr>)
           | None \<Rightarrow> Ok (True, es\<lparr>range_count := cnt, memory_map := mm[cnt - 1 := r]\<rparr>))"

text \<open>
  The search of \<open>allocate_space\<close>: \<open>None\<close> when it gives up, otherwise the place found. The
  function itself returns \<open>UINTPTR_MAX\<close> for failure, which is \<open>None\<close> here.
\<close>

definition UINTPTR_MAX :: u32 where "UINTPTR_MAX = 0xffffffff"

fun alloc_scan :: "u32 \<Rightarrow> range \<Rightarrow> u32 \<Rightarrow> range list \<Rightarrow> u32 option" where
  "alloc_scan sz allowed p [] = (if sz \<le> stop allowed - p then Some p else None)"
| "alloc_scan sz allowed p (r # rs) =
     (if start r < p then alloc_scan sz allowed p rs
      else if stop allowed < p + sz then None
      else if sz \<le> start r - p then Some p
      else alloc_scan sz allowed (stop r) rs)"

definition allocate_space :: "u32 \<Rightarrow> range \<Rightarrow> bool \<Rightarrow> elf_state \<Rightarrow> (u32 option \<times> elf_state) checked" where
  "allocate_space sz allowed force es =
     (if sz = 0 then Panic
      else case alloc_scan sz allowed (start allowed) (take (range_count es) (memory_map es)) of
        None \<Rightarrow> Ok (None, es)
      | Some p \<Rightarrow>
          (case claim_space \<lparr>start = p, stop = p + sz\<rparr> force es of
             Ok (claimed, es) \<Rightarrow> Ok (if claimed \<and> p \<noteq> UINTPTR_MAX then Some p else None, es)
           | Panic \<Rightarrow> Panic
           | Overrun \<Rightarrow> Overrun))"

definition register_loader_op :: "elf_loader_op \<Rightarrow> elf_state \<Rightarrow> bool \<times> elf_state" where
  "register_loader_op p es =
     (if ELF_MAX_SEGMENTS \<le> op_count es then (False, es)
      else (True, es\<lparr>loader_ops := (loader_ops es)[op_count es := p], op_count := op_count es + 1\<rparr>))"

section \<open>Loading an image\<close>

definition phdrs :: "mem \<Rightarrow> u32 \<Rightarrow> Elf32_Ehdr \<Rightarrow> Elf32_Phdr list" where
  "phdrs m img_start ehdr = map (\<lambda>i. read_phdr m
     (unat (img_start + e_phoff ehdr + of_nat i * ucast (e_phentsize ehdr)))) [0..<unat (e_phnum ehdr)]"

text \<open>The first pass over the program headers: claim the memory of every loadable segment.\<close>

fun claim_segments :: "Elf32_Phdr list \<Rightarrow> elf_state \<Rightarrow> elf_state checked" where
  "claim_segments [] es = Ok es"
| "claim_segments (ph # phs) es =
     (if p_type ph = PT_LOAD then
        (case claim_space \<lparr>start = p_vaddr ph, stop = p_vaddr ph + p_memsz ph\<rparr> False es of
           Ok (_, es) \<Rightarrow> claim_segments phs es
         | Panic \<Rightarrow> Panic
         | Overrun \<Rightarrow> Overrun)
      else claim_segments phs es)"

text \<open>The second pass: a copy for the file part and a fill for the rest of every segment.\<close>

fun register_segments :: "u32 \<Rightarrow> Elf32_Phdr list \<Rightarrow> elf_state \<Rightarrow> bool \<times> elf_state" where
  "register_segments elf_alloc [] es = (True, es)"
| "register_segments elf_alloc (ph # phs) es =
     (if p_type ph = PT_LOAD then
        let (ok, es) = (if 0 < p_filesz ph
              then register_loader_op (OP_COPY (p_vaddr ph) (elf_alloc + p_offset ph) (p_filesz ph)) es
              else (True, es))
        in if \<not> ok then (False, es)
           else let (ok, es) = (if p_filesz ph < p_memsz ph
                  then register_loader_op
                    (OP_ZERO (p_vaddr ph + p_filesz ph) (p_memsz ph - p_filesz ph) 0) es
                  else (True, es))
                in if \<not> ok then (False, es) else register_segments elf_alloc phs es
      else register_segments elf_alloc phs es)"

fun op_bytes :: "elf_loader_op \<Rightarrow> u8 list" where
  "op_bytes (OP_COPY dst src sz) = le32 1 @ le32 dst @ le32 src @ le32 sz"
| "op_bytes (OP_ZERO dst sz fill) = le32 2 @ le32 dst @ le32 sz @ le32 fill"

text \<open>What the linker and the assembler provide: the loader's own extent, the trampoline's bytes and
  the offset of its parameter block.\<close>

record elf_env =
  prog_start :: u32
  prog_end :: u32
  trampoline_code :: "u8 list"
  params_off :: nat

text \<open>The parameter block, in the order it is written: up to \<open>elf_src\<close>, then the rest.\<close>

definition params_head :: "elf_state \<Rightarrow> u32 \<Rightarrow> u8 list" where
  "params_head es elf_src =
     concat (map op_bytes (loader_ops es)) @ le32 (of_nat (op_count es)) @ le32 elf_src"

definition params_tail :: "u32 \<Rightarrow> u32 \<Rightarrow> u32 \<Rightarrow> u8 list \<Rightarrow> u8 list" where
  "params_tail entry elf elf_size cmdline =
     le32 entry @ le32 elf @ le32 elf_size @ le32 (of_nat (length cmdline)) @ cmdline"

text \<open>Space for the second stage below the loader, or else above it.\<close>

definition allocate_boot ::
  "elf_env \<Rightarrow> u32 \<Rightarrow> u32 \<Rightarrow> elf_state \<Rightarrow> (u32 option \<times> elf_state) checked" where
  "allocate_boot env boot_size mem_hi es =
     (case allocate_space boot_size \<lparr>start = 0, stop = prog_start env\<rparr> True es of
        Ok (None, es) \<Rightarrow> allocate_space boot_size \<lparr>start = prog_end env, stop = mem_hi\<rparr> True es
      | r \<Rightarrow> r)"

text \<open>Copy the trampoline to its place and fill in its parameter block.\<close>

definition install_boot ::
  "elf_env \<Rightarrow> u32 \<Rightarrow> u32 \<Rightarrow> u32 \<Rightarrow> u32 \<Rightarrow> u8 list \<Rightarrow> elf_state \<Rightarrow> mem \<Rightarrow> elf_state \<times> mem" where
  "install_boot env boot_alloc img_start elf_alloc elf_size cmdline es m =
     (let m = mem_write (unat boot_alloc) (trampoline_code env) m;
          es = es\<lparr>elf_trampoline_ptr := boot_alloc\<rparr>;
          params = unat boot_alloc + params_off env;
          m = mem_write params (params_head es img_start) m;
          entry = e_entry (read_ehdr m (unat img_start));
          m = mem_write (params + 264) (params_tail entry elf_alloc elf_size cmdline) m
      in (es, m))"

text \<open>
  The middle of \<open>load_elf_image\<close>, which does not touch memory: claim the segments, place the
  ELF image, register the operations, place the second stage. \<open>Ok (None, _)\<close> is a return of false.
\<close>

definition plan_image ::
  "elf_env \<Rightarrow> Elf32_Phdr list \<Rightarrow> u32 \<Rightarrow> u32 \<Rightarrow> u8 list \<Rightarrow> elf_state \<Rightarrow>
    ((u32 \<times> u32) option \<times> elf_state) checked" where
  "plan_image env phs elf_size mem_hi cmdline es =
     (case claim_segments phs (es\<lparr>range_count := 0, op_count := 0\<rparr>) of
        Panic \<Rightarrow> Panic | Overrun \<Rightarrow> Overrun
      | Ok es \<Rightarrow>
          (case allocate_space elf_size \<lparr>start = 0, stop = mem_hi\<rparr> True es of
             Panic \<Rightarrow> Panic | Overrun \<Rightarrow> Overrun
           | Ok (None, es) \<Rightarrow> Ok (None, es)
           | Ok (Some elf_alloc, es) \<Rightarrow>
               (case register_segments elf_alloc phs es of
                  (False, es) \<Rightarrow> Ok (None, es)
                | (True, es) \<Rightarrow>
                    let boot_size = of_nat (length (trampoline_code env)) + of_nat (length cmdline)
                    in case allocate_boot env boot_size mem_hi es of
                         Panic \<Rightarrow> Panic | Overrun \<Rightarrow> Overrun
                       | Ok (None, es) \<Rightarrow> Ok (None, es)
                       | Ok (Some boot_alloc, es) \<Rightarrow> Ok (Some (elf_alloc, boot_alloc), es))))"

definition load_elf_image ::
  "elf_env \<Rightarrow> u32 \<Rightarrow> u32 \<Rightarrow> bool \<Rightarrow> bool \<Rightarrow> u16 \<Rightarrow> u32 \<Rightarrow> u8 list \<Rightarrow> elf_state \<Rightarrow> mem \<Rightarrow>
    (bool \<times> elf_state \<times> mem) checked" where
  "load_elf_image env img_start img_end elf32_p elfle_p machine mem_hi cmdline es m =
     (let ehdr = read_ehdr m (unat img_start)
      in if \<not> validate_elf_header ehdr elf32_p elfle_p machine then Ok (False, es, m)
         else
           let elf_size = img_end - img_start
           in case plan_image env (phdrs m img_start ehdr) elf_size mem_hi cmdline es of
                Panic \<Rightarrow> Panic | Overrun \<Rightarrow> Overrun
              | Ok (None, es) \<Rightarrow> Ok (False, es, m)
              | Ok (Some (elf_alloc, boot_alloc), es) \<Rightarrow>
                  Ok (True, install_boot env boot_alloc img_start elf_alloc elf_size cmdline es m))"

section \<open>The map refines sorted insertion\<close>

definition ranges :: "elf_state \<Rightarrow> range list" where
  "ranges es = take (range_count es) (memory_map es)"

definition insert_range :: "range \<Rightarrow> range list \<Rightarrow> range list" where
  "insert_range r rs = takeWhile (\<lambda>x. start x \<le> start r) rs @ r # dropWhile (\<lambda>x. start x \<le> start r) rs"

definition elf_wf :: "elf_state \<Rightarrow> bool" where
  "elf_wf es \<longleftrightarrow> length (memory_map es) = ELF_MAX_SEGMENTS + 2 \<and> range_count es \<le> ELF_MAX_SEGMENTS + 2 \<and>
     length (loader_ops es) = ELF_MAX_SEGMENTS \<and> op_count es \<le> ELF_MAX_SEGMENTS"

lemma find_upt_None: "find P [0..<n] = None \<longleftrightarrow> (\<forall>i < n. \<not> P i)"
  by (auto simp: find_None_iff)

lemma find_upt_Some: "find P [0..<n] = Some i \<Longrightarrow> i < n \<and> P i \<and> (\<forall>j < i. \<not> P j)"
  by (auto simp: find_Some_iff)

lemma takeWhile_dropWhile_nth:
  assumes "i \<le> length xs" "\<And>j. j < i \<Longrightarrow> P (xs ! j)" "i < length xs \<Longrightarrow> \<not> P (xs ! i)"
  shows "takeWhile P xs = take i xs" "dropWhile P xs = drop i xs"
proof -
  show t: "takeWhile P xs = take i xs"
  proof (cases "i < length xs")
    case True
    then show ?thesis using assms by (intro takeWhile_eq_take_P_nth) auto
  next
    case False
    with assms show ?thesis by (auto simp: takeWhile_eq_all_conv in_set_conv_nth)
  qed
  have "takeWhile P xs @ dropWhile P xs = take i xs @ drop i xs" by simp
  then show "dropWhile P xs = drop i xs" unfolding t by (simp only: same_append_eq)
qed

lemma length_shift_slots: "i + 1 + n \<le> length xs \<Longrightarrow> length (shift_slots i n xs) = length xs"
  by (simp add: shift_slots_def)

lemma shift_insert:
  assumes "i \<le> n" "n + 1 < length xs"
  shows "take (n + 1) ((shift_slots i (n + 1 - i) xs)[i := r]) = take i xs @ r # drop i (take n xs)"
proof (rule nth_equalityI)
  show "length (take (n + 1) ((shift_slots i (n + 1 - i) xs)[i := r])) =
      length (take i xs @ r # drop i (take n xs))"
    using assms by (simp add: shift_slots_def)
next
  fix j
  assume "j < length (take (n + 1) ((shift_slots i (n + 1 - i) xs)[i := r]))"
  then have "j < n + 1" by simp
  then show "take (n + 1) ((shift_slots i (n + 1 - i) xs)[i := r]) ! j =
      (take i xs @ r # drop i (take n xs)) ! j"
    using assms by (auto simp: shift_slots_def nth_append nth_list_update min_def nth_Cons' not_less)
qed

lemma claim_space_Ok:
  assumes wf: "elf_wf es" and ok: "claim_space r force es = Ok (b, es')"
  shows "elf_wf es' \<and> (if b then ranges es' = insert_range r (ranges es) \<and> range_count es' = range_count es + 1
    else es' = es \<and> ELF_MAX_SEGMENTS \<le> range_count es \<and> \<not> force)"
proof (cases "ELF_MAX_SEGMENTS \<le> range_count es \<and> \<not> force")
  case True
  with ok wf show ?thesis by (simp add: claim_space_def)
next
  case False
  let ?n = "range_count es" and ?mm = "memory_map es"
  have len: "length ?mm = ELF_MAX_SEGMENTS + 2" using wf by (simp add: elf_wf_def)
  from ok False have n: "?n + 1 \<le> ELF_MAX_SEGMENTS + 2"
    by (auto simp: claim_space_def Let_def split: if_splits)
  show ?thesis
  proof (cases "find (\<lambda>i. start r < start (?mm ! i)) [0..<?n + 1]")
    case None
    with ok False n have e: "b" "es' = es\<lparr>range_count := ?n + 1, memory_map := ?mm[?n := r]\<rparr>"
      by (auto simp: claim_space_def Let_def)
    from None have "\<forall>i < ?n + 1. \<not> start r < start (?mm ! i)" by (simp only: find_upt_None)
    then have "takeWhile (\<lambda>x. start x \<le> start r) (ranges es) = ranges es"
      "dropWhile (\<lambda>x. start x \<le> start r) (ranges es) = []"
      using n len by (auto simp: takeWhile_eq_all_conv dropWhile_eq_Nil_conv ranges_def in_set_conv_nth not_less)
    then have "insert_range r (ranges es) = ranges es @ [r]" by (simp only: insert_range_def)
    then show ?thesis
      using e n len wf by (simp add: elf_wf_def ranges_def take_Suc_conv_app_nth)
  next
    case (Some i)
    note i = find_upt_Some [OF Some]
    from ok False n Some have e: "b" "?n + 1 < ELF_MAX_SEGMENTS + 2"
      "es' = es\<lparr>range_count := ?n + 1, memory_map := (shift_slots i (?n + 1 - i) ?mm)[i := r]\<rparr>"
      using i by (auto simp: claim_space_def Let_def split: if_splits)
    have pre: "i \<le> length (ranges es)" "\<And>j. j < i \<Longrightarrow> start (ranges es ! j) \<le> start r"
      "i < length (ranges es) \<Longrightarrow> \<not> start (ranges es ! i) \<le> start r"
      using i n len by (auto simp: ranges_def not_less not_le)
    note takeWhile_dropWhile_nth [of i "ranges es" "\<lambda>x. start x \<le> start r", OF pre]
    moreover have "take (?n + 1) ((shift_slots i (?n + 1 - i) ?mm)[i := r]) =
        take i ?mm @ r # drop i (take ?n ?mm)"
      using i e(2) len by (intro shift_insert) auto
    ultimately show ?thesis
      using e i n len wf by (simp add: elf_wf_def insert_range_def ranges_def length_shift_slots min_def)
  qed
qed

end
