(* ===== verification/Elf_Correct.thy ===== *)
theory Elf_Correct
  imports Elf_Loader
begin

text \<open>
  Correctness of the ELF loader: the range map stays sorted and free of overlaps, the
  allocator is a sound and complete first-fit search as long as no claimed range straddles
  an end of the allowed interval, and the loader operations are those of the segments.
\<close>

section \<open>Sorted maps without overlaps\<close>

definition apart :: "range \<Rightarrow> range \<Rightarrow> bool" where
  "apart r s \<longleftrightarrow> stop r \<le> start s \<or> stop s \<le> start r"

definition sorted_map :: "range list \<Rightarrow> bool" where
  "sorted_map rs \<longleftrightarrow> sorted_wrt (\<lambda>r s. stop r \<le> start s) rs \<and> (\<forall>r \<in> set rs. start r < stop r)"

lemma sorted_map_Cons:
  "sorted_map (r # rs) \<longleftrightarrow> start r < stop r \<and> (\<forall>s \<in> set rs. stop r \<le> start s) \<and> sorted_map rs"
  by (auto simp: sorted_map_def)

lemma sorted_map_Nil [simp]: "sorted_map []"
  by (simp add: sorted_map_def)

lemma insert_range_Cons:
  "insert_range r (x # xs) = (if start x \<le> start r then x # insert_range r xs else r # x # xs)"
  by (simp add: insert_range_def)

lemma insert_range_Nil [simp]: "insert_range r [] = [r]"
  by (simp add: insert_range_def)

lemma set_insert_range [simp]: "set (insert_range r rs) = insert r (set rs)"
  by (induction rs) (auto simp: insert_range_Cons)

lemma insert_range_sorted:
  "\<lbrakk>sorted_map rs; start r < stop r; \<forall>x \<in> set rs. apart x r\<rbrakk> \<Longrightarrow> sorted_map (insert_range r rs)"
proof (induction rs)
  case Nil
  then show ?case by (simp add: sorted_map_Cons)
next
  case (Cons x xs)
  then have x: "start x < stop x" "\<forall>s \<in> set xs. stop x \<le> start s" "sorted_map xs" "apart x r"
    by (auto simp: sorted_map_Cons)
  show ?case
  proof (cases "start x \<le> start r")
    case True
    with x Cons.prems(2) have "stop x \<le> start r" by (auto simp: apart_def)
    with True x Cons show ?thesis by (auto simp: insert_range_Cons sorted_map_Cons)
  next
    case False
    with x have "stop r \<le> start x" by (auto simp: apart_def)
    with False x Cons.prems show ?thesis
      by (auto simp: insert_range_Cons sorted_map_Cons intro: order_trans less_imp_le)
  qed
qed

section \<open>The first-fit search\<close>

text \<open>No claimed range lies across the address \<open>a\<close>.\<close>

definition clear_of :: "u32 \<Rightarrow> range list \<Rightarrow> bool" where
  "clear_of a rs \<longleftrightarrow> (\<forall>r \<in> set rs. start r < a \<longrightarrow> stop r \<le> a)"

text \<open>\<open>[q, q + sz)\<close> is inside the allowed interval from \<open>p\<close> on and meets no claimed range.\<close>

definition free_at :: "u32 \<Rightarrow> range \<Rightarrow> u32 \<Rightarrow> range list \<Rightarrow> u32 \<Rightarrow> bool" where
  "free_at sz allowed p rs q \<longleftrightarrow> p \<le> q \<and> unat q + unat sz \<le> unat (stop allowed) \<and>
     (\<forall>r \<in> set rs. unat (stop r) \<le> unat q \<or> unat q + unat sz \<le> unat (start r))"

lemma no_wrap_add:
  "p \<le> stop al \<Longrightarrow> unat (stop al) + unat sz < 2 ^ 32 \<Longrightarrow> unat (p + sz) = unat p + unat sz"
  for p sz :: u32
  by (simp add: unat_word_ariths word_le_nat_alt)

lemma unat_sub_le: "p \<le> q \<Longrightarrow> unat (q - p) = unat q - unat p" for p q :: u32
  by (simp add: unat_sub_if' word_le_nat_alt)

lemma clear_of_Cons: "clear_of a (r # rs) \<longleftrightarrow> (start r < a \<longrightarrow> stop r \<le> a) \<and> clear_of a rs"
  by (simp add: clear_of_def)

lemma alloc_scan_spec:
  assumes "sorted_map rs" "clear_of p rs" "clear_of (stop al) rs" "p \<le> stop al"
    and "unat (stop al) + unat sz < 2 ^ 32"
  shows "case alloc_scan sz al p rs of
      Some q \<Rightarrow> free_at sz al p rs q \<and> (\<forall>q'. free_at sz al p rs q' \<longrightarrow> q \<le> q')
    | None \<Rightarrow> (\<forall>q. \<not> free_at sz al p rs q)"
  using assms
proof (induction rs arbitrary: p)
  case Nil
  then show ?case
    by (auto simp: free_at_def word_le_nat_alt unat_sub_le)
next
  case (Cons r rs)
  then have r: "start r < stop r" "\<forall>s \<in> set rs. stop r \<le> start s" "sorted_map rs"
    by (simp_all add: sorted_map_Cons)
  have add: "unat (p + sz) = unat p + unat sz" using Cons.prems(4,5) by (rule no_wrap_add)
  consider (skip) "start r < p" | (full) "p \<le> start r" "stop al < p + sz"
    | (fit) "p \<le> start r" "p + sz \<le> stop al" "sz \<le> start r - p"
    | (past) "p \<le> start r" "p + sz \<le> stop al" "start r - p < sz"
    by fastforce
  then show ?case
  proof cases
    case skip
    with Cons.prems have "stop r \<le> p" by (simp add: clear_of_Cons)
    then have "free_at sz al p (r # rs) q = free_at sz al p rs q" for q
      by (auto simp: free_at_def word_le_nat_alt)
    with skip Cons.IH [of p] Cons.prems r(3) show ?thesis
      by (simp add: clear_of_Cons split: option.splits)
  next
    case full
    then have "\<not> free_at sz al p (r # rs) q" for q
      using add by (auto simp: free_at_def word_le_nat_alt word_less_nat_alt)
    moreover have "alloc_scan sz al p (r # rs) = None" using full by auto
    ultimately show ?thesis by simp
  next
    case fit
    then have "unat p + unat sz \<le> unat (start r)"
      by (simp add: word_le_nat_alt unat_sub_le)
    moreover from this r(1,2) have "\<forall>s \<in> set rs. unat p + unat sz \<le> unat (start s)"
      by (fastforce simp: word_le_nat_alt word_less_nat_alt)
    ultimately have "free_at sz al p (r # rs) p"
      using fit add by (auto simp: free_at_def word_le_nat_alt)
    moreover have "alloc_scan sz al p (r # rs) = Some p" using fit by auto
    ultimately show ?thesis by (auto simp: free_at_def)
  next
    case past
    have lt: "unat (start r) < unat p + unat sz"
      using past by (simp add: word_less_nat_alt unat_sub_le word_le_nat_alt)
    then have "start r < stop al" using past add by (simp add: word_le_nat_alt word_less_nat_alt)
    with Cons.prems have s: "stop r \<le> stop al" by (simp add: clear_of_Cons)
    have "clear_of (stop r) rs" using r(2) by (auto simp: clear_of_def)
    with Cons.IH [of "stop r"] Cons.prems r(3) s have
      "case alloc_scan sz al (stop r) rs of
        Some q \<Rightarrow> free_at sz al (stop r) rs q \<and> (\<forall>q'. free_at sz al (stop r) rs q' \<longrightarrow> q \<le> q')
      | None \<Rightarrow> (\<forall>q. \<not> free_at sz al (stop r) rs q)"
      by (simp add: clear_of_Cons)
    moreover have "free_at sz al p (r # rs) q = free_at sz al (stop r) rs q" for q
      using past(1) r(1) lt by (auto simp: free_at_def word_le_nat_alt word_less_nat_alt)
    moreover have "alloc_scan sz al p (r # rs) = alloc_scan sz al (stop r) rs" using past by auto
    ultimately show ?thesis by (simp split: option.splits)
  qed
qed

section \<open>The loader operations\<close>

definition segment_ops :: "u32 \<Rightarrow> Elf32_Phdr list \<Rightarrow> elf_loader_op list" where
  "segment_ops elf_alloc phs = concat (map (\<lambda>ph. if p_type ph = PT_LOAD then
     (if 0 < p_filesz ph then [OP_COPY (p_vaddr ph) (elf_alloc + p_offset ph) (p_filesz ph)] else []) @
     (if p_filesz ph < p_memsz ph
      then [OP_ZERO (p_vaddr ph + p_filesz ph) (p_memsz ph - p_filesz ph) 0] else []) else []) phs)"

definition ops_of :: "elf_state \<Rightarrow> elf_loader_op list" where
  "ops_of es = take (op_count es) (loader_ops es)"

definition same_map :: "elf_state \<Rightarrow> elf_state \<Rightarrow> bool" where
  "same_map es es' \<longleftrightarrow> memory_map es' = memory_map es \<and> range_count es' = range_count es"

lemma register_loader_op_ok:
  assumes "elf_wf es"
  shows "register_loader_op p es = (True, es') \<Longrightarrow>
      elf_wf es' \<and> ops_of es' = ops_of es @ [p] \<and> same_map es es'"
    and "register_loader_op p es = (False, es') \<Longrightarrow> es' = es \<and> op_count es = ELF_MAX_SEGMENTS"
  using assms
  by (auto simp: register_loader_op_def elf_wf_def ops_of_def same_map_def take_Suc_conv_app_nth split: if_splits)

text \<open>Registering under a condition, the step both halves of a segment share.\<close>

lemma register_if_ok:
  assumes "elf_wf es" "(if c then register_loader_op p es else (True, es)) = (True, es')"
  shows "elf_wf es' \<and> ops_of es' = ops_of es @ (if c then [p] else []) \<and> same_map es es'"
  using assms register_loader_op_ok(1) [of es p es'] by (auto simp: same_map_def split: if_splits)

lemma same_map_trans: "same_map a b \<Longrightarrow> same_map b c \<Longrightarrow> same_map a c"
  by (simp add: same_map_def)

lemma segment_ops_Cons:
  "segment_ops e (ph # phs) = (if p_type ph = PT_LOAD then
     (if 0 < p_filesz ph then [OP_COPY (p_vaddr ph) (e + p_offset ph) (p_filesz ph)] else []) @
     (if p_filesz ph < p_memsz ph
      then [OP_ZERO (p_vaddr ph + p_filesz ph) (p_memsz ph - p_filesz ph) 0] else []) else []) @
   segment_ops e phs"
  by (simp add: segment_ops_def)

lemma register_segments_ok:
  "elf_wf es \<Longrightarrow> register_segments e phs es = (True, es') \<Longrightarrow>
   elf_wf es' \<and> ops_of es' = ops_of es @ segment_ops e phs \<and> same_map es es'"
proof (induction phs arbitrary: es)
  case Nil
  then show ?case by (simp add: segment_ops_def same_map_def)
next
  case (Cons ph phs)
  show ?case
  proof (cases "p_type ph = PT_LOAD")
    case False
    with Cons show ?thesis by (simp add: segment_ops_Cons)
  next
    case True
    let ?c = "OP_COPY (p_vaddr ph) (e + p_offset ph) (p_filesz ph)"
    let ?z = "OP_ZERO (p_vaddr ph + p_filesz ph) (p_memsz ph - p_filesz ph) 0"
    obtain ok1 es1 where r1: "(if 0 < p_filesz ph then register_loader_op ?c es else (True, es)) = (ok1, es1)"
      by fastforce
    obtain ok2 es2 where
      r2: "(if p_filesz ph < p_memsz ph then register_loader_op ?z es1 else (True, es1)) = (ok2, es2)"
      by fastforce
    from Cons.prems(2) True have ok: "ok1" "ok2" "register_segments e phs es2 = (True, es')"
      unfolding register_segments.simps r1 Let_def prod.case by (auto simp: r2 split: if_splits)
    note s1 = register_if_ok [OF Cons.prems(1) r1 [unfolded eqTrueI [OF ok(1)]]]
    note s2 = register_if_ok [OF conjunct1 [OF s1] r2 [unfolded eqTrueI [OF ok(2)]]]
    from Cons.IH [OF conjunct1 [OF s2] ok(3)] s1 s2 True show ?thesis
      by (auto simp: segment_ops_Cons intro: same_map_trans)
  qed
qed

section \<open>Claiming and allocating\<close>

definition same_ops :: "elf_state \<Rightarrow> elf_state \<Rightarrow> bool" where
  "same_ops es es' \<longleftrightarrow> loader_ops es' = loader_ops es \<and> op_count es' = op_count es"

lemma same_ops_ops: "same_ops es es' \<Longrightarrow> ops_of es' = ops_of es"
  by (simp add: same_ops_def ops_of_def)

lemma same_ops_trans: "same_ops a b \<Longrightarrow> same_ops b c \<Longrightarrow> same_ops a c"
  by (simp add: same_ops_def)

lemma claim_space_same_ops: "claim_space r force es = Ok (b, es') \<Longrightarrow> same_ops es es'"
  by (auto simp: claim_space_def same_ops_def Let_def split: if_splits option.splits)

lemma claim_space_total:
  assumes "elf_wf es" "range_count es \<le> ELF_MAX_SEGMENTS" "force \<or> range_count es < ELF_MAX_SEGMENTS"
  shows "\<exists>es'. claim_space r force es = Ok (True, es') \<and> elf_wf es' \<and>
    ranges es' = insert_range r (ranges es) \<and> range_count es' = range_count es + 1 \<and> same_ops es es'"
proof -
  have "\<exists>es'. claim_space r force es = Ok (True, es')"
  proof (cases "find (\<lambda>i. start r < start (memory_map es ! i)) [0..<range_count es + 1]")
    case None
    with assms(2,3) show ?thesis by (auto simp: claim_space_def Let_def simp del: upt_Suc)
  next
    case (Some i)
    from find_upt_Some [OF Some] have "i < range_count es + 1" by blast
    with Some assms(2,3) show ?thesis by (auto simp: claim_space_def Let_def simp del: upt_Suc)
  qed
  then obtain es' where "claim_space r force es = Ok (True, es')" by blast
  with claim_space_Ok [OF assms(1) this] claim_space_same_ops [OF this] show ?thesis by auto
qed

definition load_ranges :: "Elf32_Phdr list \<Rightarrow> range list" where
  "load_ranges phs = map (\<lambda>ph. \<lparr>start = p_vaddr ph, stop = p_vaddr ph + p_memsz ph\<rparr>)
     (filter (\<lambda>ph. p_type ph = PT_LOAD) phs)"

lemma claim_segments_ok:
  "elf_wf es \<Longrightarrow> range_count es + length (load_ranges phs) \<le> ELF_MAX_SEGMENTS \<Longrightarrow>
   \<exists>es'. claim_segments phs es = Ok es' \<and> elf_wf es' \<and> same_ops es es' \<and>
     ranges es' = fold insert_range (load_ranges phs) (ranges es)"
proof (induction phs arbitrary: es)
  case Nil
  then show ?case by (simp add: load_ranges_def same_ops_def)
next
  case (Cons ph phs)
  show ?case
  proof (cases "p_type ph = PT_LOAD")
    case False
    with Cons show ?thesis by (simp add: load_ranges_def)
  next
    case True
    let ?r = "\<lparr>start = p_vaddr ph, stop = p_vaddr ph + p_memsz ph\<rparr>"
    from Cons.prems True have "range_count es < ELF_MAX_SEGMENTS" by (simp add: load_ranges_def)
    with claim_space_total [OF Cons.prems(1), of False ?r] obtain es1 where
      e1: "claim_space ?r False es = Ok (True, es1)" "elf_wf es1"
        "ranges es1 = insert_range ?r (ranges es)" "range_count es1 = range_count es + 1" "same_ops es es1"
      by auto
    from Cons.IH [OF e1(2)] e1(4) Cons.prems(2) True obtain es' where
      "claim_segments phs es1 = Ok es'" "elf_wf es'" "same_ops es1 es'"
      "ranges es' = fold insert_range (load_ranges phs) (ranges es1)"
      by (auto simp: load_ranges_def)
    with e1 True show ?thesis by (auto simp: load_ranges_def intro: same_ops_trans)
  qed
qed

lemma fold_insert_sorted:
  "sorted_map rs \<Longrightarrow> \<forall>r \<in> set xs. start r < stop r \<Longrightarrow> sorted_wrt apart xs \<Longrightarrow>
   \<forall>x \<in> set xs. \<forall>r \<in> set rs. apart r x \<Longrightarrow>
   sorted_map (fold insert_range xs rs) \<and> set (fold insert_range xs rs) = set xs \<union> set rs"
proof (induction xs arbitrary: rs)
  case (Cons x xs)
  then have "sorted_map (insert_range x rs)" by (intro insert_range_sorted) auto
  with Cons.IH [of "insert_range x rs"] Cons.prems show ?case by auto
qed simp

lemma allocate_space_ok:
  assumes wf: "elf_wf es" and ok: "allocate_space sz al force es = Ok (Some q, es')"
    and "sorted_map (ranges es)" "clear_of (start al) (ranges es)" "clear_of (stop al) (ranges es)"
      "start al \<le> stop al" "unat (stop al) + unat sz < 2 ^ 32"
  shows "free_at sz al (start al) (ranges es) q \<and> elf_wf es' \<and> same_ops es es' \<and>
    ranges es' = insert_range \<lparr>start = q, stop = q + sz\<rparr> (ranges es) \<and>
    (\<forall>q'. free_at sz al (start al) (ranges es) q' \<longrightarrow> q \<le> q')"
proof -
  from ok have q: "alloc_scan sz al (start al) (ranges es) = Some q"
    "claim_space \<lparr>start = q, stop = q + sz\<rparr> force es = Ok (True, es')"
    by (auto simp: allocate_space_def ranges_def split: if_splits option.splits checked.splits prod.splits)
  from alloc_scan_spec [OF assms(3-7)] q(1) claim_space_Ok [OF wf q(2)] claim_space_same_ops [OF q(2)]
  show ?thesis by simp
qed

lemma allocate_space_same_ops: "allocate_space sz al force es = Ok (r, es') \<Longrightarrow> same_ops es es'"
  by (auto simp: allocate_space_def same_ops_def split: if_splits option.splits checked.splits prod.splits
      dest!: claim_space_same_ops)

lemma allocate_boot_same_ops: "allocate_boot env sz hi es = Ok (r, es') \<Longrightarrow> same_ops es es'"
  by (auto simp: allocate_boot_def split: checked.splits option.splits prod.splits
      dest!: allocate_space_same_ops intro: same_ops_trans)

section \<open>Loading an image\<close>

text \<open>The loadable segments: not too many, not empty, pairwise disjoint and below \<open>mem_hi\<close>.\<close>

definition segments_ok :: "u32 \<Rightarrow> Elf32_Phdr list \<Rightarrow> bool" where
  "segments_ok mem_hi phs \<longleftrightarrow> length (load_ranges phs) \<le> ELF_MAX_SEGMENTS \<and>
     sorted_wrt apart (load_ranges phs) \<and> (\<forall>r \<in> set (load_ranges phs). start r < stop r \<and> stop r \<le> mem_hi)"

lemma load_elf_image_success:
  assumes "load_elf_image env a b e32 ele mach mem_hi cmd es m = Ok (True, es', m')"
  shows "\<exists>es1 elf_alloc es2 es3 boot_alloc es4.
    claim_segments (phdrs m a (read_ehdr m (unat a))) (es\<lparr>range_count := 0, op_count := 0\<rparr>) = Ok es1 \<and>
    allocate_space (b - a) \<lparr>start = 0, stop = mem_hi\<rparr> True es1 = Ok (Some elf_alloc, es2) \<and>
    register_segments elf_alloc (phdrs m a (read_ehdr m (unat a))) es2 = (True, es3) \<and>
    allocate_boot env (of_nat (length (trampoline_code env)) + of_nat (length cmd)) mem_hi es3 =
      Ok (Some boot_alloc, es4) \<and>
    (es', m') = install_boot env boot_alloc a elf_alloc (b - a) cmd es4 m \<and>
    validate_elf_header (read_ehdr m (unat a)) e32 ele mach"
  using assms unfolding load_elf_image_def plan_image_def Let_def
  by (auto split: if_splits checked.splits option.splits prod.splits bool.splits)

lemma install_boot_same_ops: "(es', m') = install_boot env ba a ea sz cmd es m \<Longrightarrow> same_ops es es'"
  by (auto simp: install_boot_def same_ops_def Let_def)

lemma load_elf_image_places:
  assumes wf: "elf_wf es" and ok: "load_elf_image env a b e32 ele mach mem_hi cmd es m = Ok (True, es', m')"
    and segs: "segments_ok mem_hi (phdrs m a (read_ehdr m (unat a)))"
    and hi: "unat mem_hi + unat (b - a) < 2 ^ 32"
  shows "\<exists>elf_alloc. ops_of es' = segment_ops elf_alloc (phdrs m a (read_ehdr m (unat a))) \<and>
    free_at (b - a) \<lparr>start = 0, stop = mem_hi\<rparr> 0 (load_ranges (phdrs m a (read_ehdr m (unat a)))) elf_alloc"
proof -
  let ?phs = "phdrs m a (read_ehdr m (unat a))" and ?es = "es\<lparr>range_count := 0, op_count := 0\<rparr>"
  let ?al = "\<lparr>start = 0, stop = mem_hi\<rparr>"
  from load_elf_image_success [OF ok] obtain es1 elf_alloc es2 es3 boot_alloc es4 where
    st: "claim_segments ?phs ?es = Ok es1" "allocate_space (b - a) ?al True es1 = Ok (Some elf_alloc, es2)"
      "register_segments elf_alloc ?phs es2 = (True, es3)"
      "allocate_boot env (of_nat (length (trampoline_code env)) + of_nat (length cmd)) mem_hi es3 =
        Ok (Some boot_alloc, es4)"
      "(es', m') = install_boot env boot_alloc a elf_alloc (b - a) cmd es4 m"
    by blast
  have wf0: "elf_wf ?es" using wf by (simp add: elf_wf_def)
  have r0: "ranges ?es = []" "ops_of ?es = []" by (simp_all add: ranges_def ops_of_def)
  from claim_segments_ok [OF wf0, of ?phs] st(1) segs r0 have
    c: "elf_wf es1" "same_ops ?es es1" "ranges es1 = fold insert_range (load_ranges ?phs) []"
    by (auto simp: segments_ok_def)
  from fold_insert_sorted [of "[]" "load_ranges ?phs"] segs have
    m: "sorted_map (ranges es1)" "set (ranges es1) = set (load_ranges ?phs)"
    by (auto simp: c(3) segments_ok_def)
  have "clear_of mem_hi (ranges es1)" "clear_of 0 (ranges es1)"
    using segs m(2) by (auto simp: clear_of_def segments_ok_def)
  with allocate_space_ok [OF c(1) st(2) m(1)] hi have
    al: "free_at (b - a) ?al 0 (ranges es1) elf_alloc" "elf_wf es2" "same_ops es1 es2" by auto
  from register_segments_ok [OF al(2) st(3)] have "ops_of es3 = ops_of es2 @ segment_ops elf_alloc ?phs"
    by blast
  moreover have "ops_of es2 = []"
    using same_ops_ops [OF same_ops_trans [OF c(2) al(3)]] r0 by simp
  moreover have "ops_of es' = ops_of es3"
    using same_ops_trans [OF allocate_boot_same_ops [OF st(4)] install_boot_same_ops [OF st(5)]]
    by (rule same_ops_ops)
  ultimately show ?thesis using al(1) m(2) by (auto simp: free_at_def)
qed

section \<open>A small executable, for concrete runs\<close>

definition elf_init :: elf_state where
  "elf_init = \<lparr>memory_map = replicate 18 \<lparr>start = 0, stop = 0\<rparr>, range_count = 0,
     loader_ops = replicate 16 (OP_COPY 0 0 0), op_count = 0, elf_trampoline_ptr = 0\<rparr>"

lemma elf_wf_init [simp]: "elf_wf elf_init"
  by (simp add: elf_init_def elf_wf_def ELF_MAX_SEGMENTS_def)

text \<open>An ARM executable of 84 bytes: the header and one loadable segment.\<close>

definition tiny_elf :: "u32 \<Rightarrow> u32 \<Rightarrow> u32 \<Rightarrow> u8 list" where
  "tiny_elf entry vaddr memsz =
     [0x7f, 0x45, 0x4c, 0x46, 1, 1, 1, 0, 0, 0, 0, 0, 0, 0, 0, 0] @ le16 2 @ le16 40 @ le32 1 @
     le32 entry @ le32 52 @ le32 0 @ le32 0 @ le16 52 @ le16 32 @ le16 1 @ le16 0 @ le16 0 @ le16 0 @
     le32 1 @ le32 0 @ le32 vaddr @ le32 vaddr @ le32 84 @ le32 memsz @ le32 5 @ le32 4"

definition tiny_env :: elf_env where
  "tiny_env = \<lparr>prog_start = 0x8000, prog_end = 0x230000, trampoline_code = replicate 400 0,
     params_off = 120\<rparr>"

abbreviation tiny_seg :: "u32 \<Rightarrow> u32 \<Rightarrow> Elf32_Phdr" where
  "tiny_seg vaddr memsz \<equiv>
     \<lparr>p_type = 1, p_offset = 0, p_vaddr = vaddr, p_filesz = 84, p_memsz = memsz\<rparr>"

definition tiny_mem :: "u32 \<Rightarrow> u32 \<Rightarrow> u32 \<Rightarrow> mem" where
  "tiny_mem entry vaddr memsz = mem_write 0x230000 (tiny_elf entry vaddr memsz) (\<lambda>_. 0)"

lemma tiny_ehdr_at:
  "read_ehdr (mem_write a (tiny_elf entry vaddr memsz) m) a =
     \<lparr>e_ident = [0x7f, 0x45, 0x4c, 0x46, 1, 1, 1, 0, 0, 0, 0, 0, 0, 0, 0, 0], e_type = 2,
      e_machine = 40, e_version = 1, e_entry = entry, e_phoff = 52, e_phentsize = 32, e_phnum = 1\<rparr>"
  using mem_read_write_part [of 0 16 "tiny_elf entry vaddr memsz" a m]
  by (simp add: read_ehdr_def load16_def load32_def mem_read_write_part tiny_elf_def)

lemma tiny_phdr_at:
  "read_phdr (mem_write a (tiny_elf entry vaddr memsz) m) (a + 52) = tiny_seg vaddr memsz"
  by (simp add: read_phdr_def load32_def mem_read_write_part
      mem_read_write_part [of _ _ _ a, simplified add.commute [of a]] tiny_elf_def)

lemma tiny_phdrs [simp]:
  "phdrs (tiny_mem entry vaddr memsz) 0x230000 (read_ehdr (tiny_mem entry vaddr memsz) 0x230000) =
     [tiny_seg vaddr memsz]"
  using tiny_phdr_at [of "0x230000" entry vaddr memsz "\<lambda>_. 0"]
  by (simp add: phdrs_def tiny_ehdr_at tiny_mem_def)

lemma tiny_valid [simp]:
  "validate_elf_header (read_ehdr (tiny_mem entry vaddr memsz) 0x230000) True True EM_ARM"
  by (simp add: tiny_mem_def tiny_ehdr_at validate_elf_header_def ELFMAG_def EM_ARM_def)

lemma plan_Some:
  "(case r of Ok (Some (e, b), es) \<Rightarrow> P e b es | _ \<Rightarrow> False) \<Longrightarrow>
   \<exists>e b es. r = Ok (Some (e, b), es) \<and> P e b es"
  by (auto split: checked.splits option.splits prod.splits)

lemma tiny_load:
  assumes "plan_image tiny_env [tiny_seg vaddr memsz] 84 0x20000000 [] elf_init = Ok (Some (e, b), es)"
  shows "load_elf_image tiny_env 0x230000 0x230054 True True EM_ARM 0x20000000 [] elf_init
      (tiny_mem entry vaddr memsz) =
    Ok (True, install_boot tiny_env b 0x230000 e 84 [] es (tiny_mem entry vaddr memsz))"
  using assms by (simp add: load_elf_image_def)

section \<open>Properties\<close>

text \<open>
  C27: \<open>claim_space\<close> refines insertion into a sorted list. Whenever it returns, with the
  arrays in their proper shape, either it refused because 16 ranges are claimed and force is
  off, and changed nothing, or the ranges in use are exactly the old ones with the new one
  inserted after those that start no later; and the arrays keep their shape.
\<close>

theorem claim_space_refines:
  assumes "elf_wf es" and "claim_space r force es = Ok (b, es')"
  shows "elf_wf es' \<and>
    (if b then ranges es' = insert_range r (ranges es) \<and> range_count es' = range_count es + 1
     else es' = es \<and> ELF_MAX_SEGMENTS \<le> range_count es \<and> \<not> force)"
  by (rule claim_space_Ok [OF assms])

theorem claim_space_refines_witness:
  "\<exists>es'. claim_space \<lparr>start = 5, stop = 9\<rparr> False elf_init = Ok (True, es') \<and>
     ranges es' = [\<lparr>start = 5, stop = 9\<rparr>]"
proof -
  have "case claim_space \<lparr>start = 5, stop = 9\<rparr> False elf_init of Ok (b, _) \<Rightarrow> b | _ \<Rightarrow> False"
    by code_simp
  then obtain es' where e: "claim_space \<lparr>start = 5, stop = 9\<rparr> False elf_init = Ok (True, es')"
    by (auto split: checked.splits)
  have "ranges elf_init = []" by (simp add: ranges_def elf_init_def)
  with claim_space_refines [OF elf_wf_init e] e show ?thesis by simp
qed

text \<open>
  When no claimed range lies across an end of the allowed interval, \<open>allocate_space\<close> is a
  correct first-fit allocator: the block it returns is inside the interval, meets no claimed
  range, is the lowest such block, and is now claimed itself, the map staying sorted and
  free of overlaps.
\<close>

theorem allocate_space_first_fit:
  assumes "elf_wf es" "allocate_space sz al force es = Ok (Some q, es')"
    and "sorted_map (ranges es)" "clear_of (start al) (ranges es)" "clear_of (stop al) (ranges es)"
    and "start al \<le> stop al" "unat (stop al) + unat sz < 2 ^ 32"
  shows "free_at sz al (start al) (ranges es) q \<and>
    (\<forall>q'. free_at sz al (start al) (ranges es) q' \<longrightarrow> q \<le> q') \<and>
    set (ranges es') = insert \<lparr>start = q, stop = q + sz\<rparr> (set (ranges es)) \<and> sorted_map (ranges es')"
proof -
  note a = allocate_space_ok [OF assms]
  have "sz \<noteq> 0" using assms(2) by (auto simp: allocate_space_def)
  have q: "q \<le> stop al" using a by (simp add: free_at_def word_le_nat_alt)
  have add: "unat (q + sz) = unat q + unat sz" using q assms(7) by (rule no_wrap_add)
  have "sorted_map (insert_range \<lparr>start = q, stop = q + sz\<rparr> (ranges es))"
  proof (rule insert_range_sorted [OF assms(3)])
    show "start \<lparr>start = q, stop = q + sz\<rparr> < stop \<lparr>start = q, stop = q + sz\<rparr>"
      using add \<open>sz \<noteq> 0\<close> by (simp add: word_less_nat_alt unat_gt_0)
    show "\<forall>x \<in> set (ranges es). apart x \<lparr>start = q, stop = q + sz\<rparr>"
      using a add by (auto simp: free_at_def apart_def word_le_nat_alt)
  qed
  with a show ?thesis by simp
qed

theorem allocate_space_first_fit_witness:
  "\<exists>es'. allocate_space 16 \<lparr>start = 0, stop = 64\<rparr> False elf_init = Ok (Some 0, es') \<and>
     set (ranges es') = {\<lparr>start = 0, stop = 16\<rparr>}"
proof -
  have "case allocate_space 16 \<lparr>start = 0, stop = 64\<rparr> False elf_init of Ok (r, _) \<Rightarrow> r = Some 0 | _ \<Rightarrow> False"
    by code_simp
  then obtain es' where e: "allocate_space 16 \<lparr>start = 0, stop = 64\<rparr> False elf_init = Ok (Some 0, es')"
    by (auto split: checked.splits)
  have "ranges elf_init = []" by (simp add: ranges_def elf_init_def)
  with allocate_space_first_fit [OF elf_wf_init e] e show ?thesis by (simp add: clear_of_def)
qed

text \<open>
  C11: \<open>load_elf_image\<close>, when it succeeds on an image whose loadable segments are at most 16,
  non-empty, disjoint and below the memory limit, has chosen a place for the ELF image below
  the limit that overlaps no segment, and has registered exactly one copy per segment with
  file contents, from that place, and one zero fill per segment with a tail.
\<close>

theorem load_elf_image_plan:
  assumes "elf_wf es" and "load_elf_image env a b e32 ele mach mem_hi cmd es m = Ok (True, es', m')"
    and "segments_ok mem_hi (phdrs m a (read_ehdr m (unat a)))"
    and "unat mem_hi + unat (b - a) < 2 ^ 32"
  shows "\<exists>elf_alloc. ops_of es' = segment_ops elf_alloc (phdrs m a (read_ehdr m (unat a))) \<and>
    free_at (b - a) \<lparr>start = 0, stop = mem_hi\<rparr> 0 (load_ranges (phdrs m a (read_ehdr m (unat a)))) elf_alloc"
  by (rule load_elf_image_places [OF assms])

theorem load_elf_image_plan_witness:
  "\<exists>es' m' elf_alloc. load_elf_image tiny_env 0x230000 0x230054 True True EM_ARM 0x20000000 [] elf_init
      (tiny_mem 0x8000 0x8000 0x100) = Ok (True, es', m') \<and>
    ops_of es' = [OP_COPY 0x8000 elf_alloc 84, OP_ZERO 0x8054 0xac 0]"
proof -
  let ?l = "load_elf_image tiny_env 0x230000 0x230054 True True EM_ARM 0x20000000 [] elf_init
      (tiny_mem 0x8000 0x8000 0x100)"
  have "case plan_image tiny_env [tiny_seg 0x8000 0x100] 84 0x20000000 [] elf_init of
      Ok (Some (e, b), es) \<Rightarrow> True | _ \<Rightarrow> False"
    by code_simp
  from plan_Some [OF this] obtain e b es where
    "plan_image tiny_env [tiny_seg 0x8000 0x100] 84 0x20000000 [] elf_init = Ok (Some (e, b), es)"
    by blast
  from tiny_load [OF this] obtain es' m' where l: "?l = Ok (True, es', m')" by (metis prod.exhaust)
  have "segments_ok 0x20000000 [tiny_seg 0x8000 0x100]"
    by (simp add: segments_ok_def load_ranges_def PT_LOAD_def ELF_MAX_SEGMENTS_def)
  with load_elf_image_plan [OF elf_wf_init l] l show ?thesis
    by (auto simp: segment_ops_def PT_LOAD_def)
qed

text \<open>
  The allowed interval is not respected in general. With one range claimed from 0 to
  beyond the limit, the final comparison \<open>allowed.end - p >= size\<close> wraps around and
  \<open>allocate_space\<close> hands out the block after the range, outside the allowed interval.
\<close>

theorem allocate_space_escapes:
  "case claim_space \<lparr>start = 0, stop = 0x20001000\<rparr> False elf_init of
     Ok (_, es) \<Rightarrow> (case allocate_space 0x1000 \<lparr>start = 0, stop = 0x20000000\<rparr> True es of
       Ok (r, _) \<Rightarrow> r = Some 0x20001000 | _ \<Rightarrow> False)
   | _ \<Rightarrow> False"
  by code_simp

text \<open>
  \<open>claim_space\<close> writes past the end of \<open>memory_map\<close>. With 17 ranges claimed, a forced claim
  below an existing range moves one slot too many and stores into slot 18 of the 18-slot
  array; this is the state after 16 segments and the ELF image, when the second stage is
  placed.
\<close>

theorem claim_space_overrun:
  assumes "elf_wf es" "range_count es = 17" "x \<in> set (ranges es)" "start r < start x"
  shows "claim_space r True es = Overrun"
proof -
  from assms(1-3) obtain j where j: "j < 17" "memory_map es ! j = x"
    by (auto simp: ranges_def in_set_conv_nth elf_wf_def ELF_MAX_SEGMENTS_def)
  have "find (\<lambda>i. start r < start (memory_map es ! i)) [0..<18] \<noteq> None"
    using j assms(4) by (auto simp: find_upt_None intro!: exI [of _ j])
  then obtain i where i: "find (\<lambda>i. start r < start (memory_map es ! i)) [0..<18] = Some i" by blast
  from find_upt_Some [OF i] have "i < 18" by blast
  with i assms(2) show ?thesis by (simp add: claim_space_def ELF_MAX_SEGMENTS_def del: upt_Suc)
qed

text \<open>A map with 17 ranges claimed.\<close>

definition full_map :: elf_state where
  "full_map = elf_init\<lparr>range_count := 17, memory_map := map (\<lambda>i. \<lparr>start = of_nat i, stop = of_nat i\<rparr>) [0..<18]\<rparr>"

theorem claim_space_overrun_witness: "claim_space \<lparr>start = 2, stop = 3\<rparr> True full_map = Overrun"
proof (rule claim_space_overrun [of _ "\<lparr>start = 3, stop = 3\<rparr>"])
  show "elf_wf full_map" by (simp add: full_map_def elf_init_def elf_wf_def ELF_MAX_SEGMENTS_def)
  show "range_count full_map = 17" by (simp add: full_map_def)
  have "ranges full_map ! 3 = \<lparr>start = 3, stop = 3\<rparr>" "3 < length (ranges full_map)"
    by (simp_all add: ranges_def full_map_def elf_init_def del: upt_Suc)
  then show "\<lparr>start = 3, stop = 3\<rparr> \<in> set (ranges full_map)" by (metis nth_mem)
  show "start \<lparr>start = 2, stop = 3\<rparr> < start \<lparr>start = 3, stop = 3\<rparr>" by simp
qed

lemma length_op_bytes [simp]: "length (op_bytes p) = 16"
  by (cases p) simp_all

lemma of_le32_zeros: "of_le32 (replicate 4 0) = 0"
  by code_simp

lemma length_params_head: "length (loader_ops es) = 16 \<Longrightarrow> length (params_head es src) = 264"
  by (simp add: params_head_def length_concat comp_def sum_list_triv)

text \<open>The entry point in the parameter block is the header's at the time the block is filled.\<close>

lemma install_boot_entry:
  assumes "length (loader_ops es) = 16"
  shows "load32 (snd (install_boot env b a e sz cmd es m)) (unat b + params_off env + 264) =
    e_entry (read_ehdr (mem_write (unat b + params_off env) (params_head es a)
      (mem_write (unat b) (trampoline_code env) m)) (unat a))"
proof -
  have "params_head (es\<lparr>elf_trampoline_ptr := b\<rparr>) a = params_head es a"
    by (simp add: params_head_def)
  moreover have "load32 (mem_write q (params_tail x e' sz' cmd') m') q = x" for q x e' sz' cmd' m'
    using mem_read_write_part [of 0 4 "params_tail x e' sz' cmd'" q m']
    by (simp add: load32_def params_tail_def)
  ultimately show ?thesis by (simp add: install_boot_def Let_def)
qed

text \<open>
  \<open>load_elf_image\<close> can overwrite the very image it loads. The map knows the segments and the
  new place of the ELF image, but not the place where the image was received, directly after
  the boot loader; for a program whose segment fills the memory below the boot loader, the
  second stage is placed on top of the received ELF header, and the entry point put into the
  parameter block is read from the overwritten header.
\<close>

theorem load_elf_image_clobbers_header:
  "\<exists>es' m'. load_elf_image tiny_env 0x230000 0x230054 True True EM_ARM 0x20000000 [] elf_init
      (tiny_mem 0x4000 0 0x9000) = Ok (True, es', m') \<and> elf_trampoline_ptr es' = 0x230000 \<and>
    load32 m' (0x230000 + params_off tiny_env + 264) \<noteq>
      e_entry (read_ehdr (tiny_mem 0x4000 0 0x9000) 0x230000)"
proof -
  let ?p = "plan_image tiny_env [tiny_seg 0 0x9000] 84 0x20000000 [] elf_init"
  have "case ?p of Ok (Some (e, b), es) \<Rightarrow> b = 0x230000 \<and> length (loader_ops es) = 16 | _ \<Rightarrow> False"
    by code_simp
  from plan_Some [OF this] obtain e es where
    p: "?p = Ok (Some (e, 0x230000), es)" and l: "length (loader_ops es) = 16"
    by blast
  let ?m = "tiny_mem 0x4000 0 0x9000"
  obtain es' m' where i: "install_boot tiny_env 0x230000 0x230000 e 84 [] es ?m = (es', m')" by fastforce
  have z: "load32 (mem_write (a + 120) (params_head es src) (mem_write a (replicate 400 0) m)) (a + 24) = 0"
    for a m src
    using mem_read_write_part [of 24 4 "replicate 400 0" a m]
    by (simp add: load32_def mem_read_write_disjoint of_le32_zeros)
  have env: "trampoline_code tiny_env = replicate 400 0" "params_off tiny_env = 120"
    and u: "unat (0x230000 :: u32) = 0x230000" by (simp_all add: tiny_env_def)
  have entry: "e_entry (read_ehdr m a) = load32 m (a + 24)" for m a by (simp add: read_ehdr_def)
  have "load32 m' (0x230000 + params_off tiny_env + 264) = 0"
    using install_boot_entry [OF l, of tiny_env "0x230000" "0x230000" e 84 "[]" ?m]
    by (simp only: i snd_conv env u entry z)
  moreover have "e_entry (read_ehdr ?m 0x230000) = 0x4000" by (simp add: tiny_mem_def tiny_ehdr_at)
  moreover have "elf_trampoline_ptr es' = 0x230000" using i by (auto simp: install_boot_def Let_def)
  ultimately show ?thesis using tiny_load [OF p] i by simp
qed

end
