(* ===== verification/Boot_Loader.thy ===== *)
theory Boot_Loader
  imports Fsm_Correct Elf_Correct
begin

text \<open>
  The device side of the uploader, \<^verbatim>\<open>pup/bcm2835.c\<close>: the arena of the XZ decoder, the placement
  of the image and of its relocation buffer (\<open>platform_init_meta\<close>), the copying of received data
  (\<open>feed_impl\<close>, \<open>platform_feed\<close>), the final check (\<open>platform_load_image\<close>) and the trampoline.
  The XZ decoder is an argument: a function from the decoder's state and the remaining input
  to the return code, the number of bytes consumed, the output and the new state.
\<close>

section \<open>The arena of the XZ decoder\<close>

definition XZ_ARENA_SIZE :: u32 where "XZ_ARENA_SIZE = 0x200000"

text \<open>
  \<open>xz_malloc_stub\<close> with the arena's address and the current pointer; the result is the block,
  if any, and the new pointer.
\<close>

definition xz_malloc_stub :: "u32 \<Rightarrow> u32 \<Rightarrow> u32 \<Rightarrow> u32 option \<times> u32" where
  "xz_malloc_stub arena sz ptr =
     (let arena_end = arena + XZ_ARENA_SIZE
      in if XZ_ARENA_SIZE \<le> sz \<or> arena_end - sz \<le> ptr then (None, ptr)
         else (Some ptr, (ptr + sz + 7) AND - 8))"

section \<open>State\<close>

datatype xz_ret = XZ_OK | XZ_STREAM_END | XZ_UNSUPPORTED_CHECK | XZ_MEM_ERROR | XZ_MEMLIMIT_ERROR
  | XZ_FORMAT_ERROR | XZ_OPTIONS_ERROR | XZ_DATA_ERROR | XZ_BUF_ERROR

record 'x xz_ops =
  xz_dec_init :: "'x option"
  xz_dec_run :: "'x \<Rightarrow> u8 list \<Rightarrow> xz_ret \<times> nat \<times> u8 list \<times> 'x"

record reloc =
  tgt_start :: u32
  tgt_end :: u32
  buf_start :: u32
  buf_end :: u32
  stub_start :: u32
  stub_end :: u32
  reloc_size :: u32

record 'x boot =
  boot_mem :: mem
  boot_meta :: meta_t
  boot_reloc :: reloc
  img_start :: u32
  img_end :: u32
  feed :: u32
  boot_xz :: "'x option"
  boot_elf :: elf_state

text \<open>The code of the flat-binary trampoline extends what the linker provides to the ELF loader.\<close>

record boot_env = elf_env +
  stub_code :: "u8 list"

definition DRAM_LIMIT :: u32 where "DRAM_LIMIT = 0x20000000"
definition COMPRESS_NONE :: u32 where "COMPRESS_NONE = 0"
definition COMPRESS_XZ :: u32 where "COMPRESS_XZ = 1"
definition NUM_COMPRESS_TYPES :: u32 where "NUM_COMPRESS_TYPES = 2"
definition IMAGE_FLAT_BINARY :: u32 where "IMAGE_FLAT_BINARY = 0"
definition IMAGE_ELF :: u32 where "IMAGE_ELF = 1"
definition NUM_IMAGE_FORMATS :: u32 where "NUM_IMAGE_FORMATS = 2"

lemmas format_defs = COMPRESS_NONE_def COMPRESS_XZ_def NUM_COMPRESS_TYPES_def IMAGE_FLAT_BINARY_def
  IMAGE_ELF_def NUM_IMAGE_FORMATS_def

definition no_reloc :: reloc where
  "no_reloc = \<lparr>tgt_start = 0, tgt_end = 0, buf_start = 0, buf_end = 0, stub_start = 0, stub_end = 0,
     reloc_size = 0\<rparr>"

section \<open>Accepting metadata\<close>

text \<open>Where the image goes: \<open>None\<close> is a refusal.\<close>

definition image_start :: "boot_env \<Rightarrow> meta_t \<Rightarrow> u32 option" where
  "image_start env meta =
     (if image_format meta = IMAGE_FLAT_BINARY then
        (if ucast DRAM_LIMIT \<le> load_addr meta then None
         else if ucast DRAM_LIMIT \<le> load_addr meta + ucast (mem_size meta) then None
         else if load_addr meta AND 3 \<noteq> 0 then None
         else Some (ucast (load_addr meta)))
      else if image_format meta = IMAGE_ELF then Some (prog_end env)
      else None)"

text \<open>
  The relocation of the part of the image that overlaps the running boot loader; \<open>None\<close> when
  the buffer and the stub do not fit.
\<close>

definition plan_reloc :: "boot_env \<Rightarrow> u32 \<Rightarrow> u32 \<Rightarrow> reloc option" where
  "plan_reloc env istart iend =
     (let tgt_s = max istart (prog_start env);
          tgt_e = min iend (prog_end env);
          rsize = (if (prog_start env \<le> istart \<and> istart < prog_end env) \<or>
                      (istart < prog_start env \<and> prog_start env < iend)
                   then tgt_e - tgt_s else 0);
          stub_size = of_nat (length (stub_code env))
      in if rsize \<noteq> 0 then
           let buf_s = max (prog_end env) iend
           in if DRAM_LIMIT - rsize - stub_size \<le> buf_s then None
              else let buf_e = buf_s + rsize; stub_s = (buf_e + 3) AND - 4
                   in Some \<lparr>tgt_start = tgt_s, tgt_end = tgt_e, buf_start = buf_s, buf_end = buf_e,
                        stub_start = stub_s, stub_end = stub_s + stub_size, reloc_size = rsize\<rparr>
         else Some no_reloc)"

definition platform_init_meta :: "boot_env \<Rightarrow> 'x xz_ops \<Rightarrow> meta_t \<Rightarrow> 'x boot \<Rightarrow> bool \<times> 'x boot" where
  "platform_init_meta env xz meta b =
     (if NUM_COMPRESS_TYPES \<le> compression_type meta then (False, b)
      else if NUM_IMAGE_FORMATS \<le> image_format meta then (False, b)
      else case image_start env meta of
        None \<Rightarrow> (False, b)
      | Some istart \<Rightarrow>
          let b = b\<lparr>img_start := istart, img_end := istart + mem_size meta, boot_meta := meta\<rparr>
          in case plan_reloc env istart (istart + mem_size meta) of
               None \<Rightarrow> (False, b)
             | Some r \<Rightarrow>
                 let b = b\<lparr>boot_reloc := r, boot_xz := xz_dec_init xz\<rparr>
                 in if xz_dec_init xz = None then (False, b)
                    else (True, b\<lparr>feed := istart\<rparr>))"

section \<open>Receiving data\<close>

text \<open>One \<open>memcpy\<close> of received data and the advance of the three cursors.\<close>

definition put_data :: "u32 \<Rightarrow> nat \<Rightarrow> u8 list \<Rightarrow> 'x boot \<Rightarrow> u8 list \<times> 'x boot" where
  "put_data addr cnt data b =
     (drop cnt data, b\<lparr>boot_mem := mem_write (unat addr) (take cnt data) (boot_mem b), feed := feed b + of_nat cnt\<rparr>)"

definition feed_impl :: "u8 list \<Rightarrow> 'x boot \<Rightarrow> 'x boot" where
  "feed_impl data b =
     (let r = boot_reloc b;
          (data, b) =
            (if reloc_size r \<noteq> 0 \<and> feed b < tgt_start r \<and> tgt_start r < feed b + of_nat (length data)
             then put_data (feed b) (unat (tgt_start r - feed b)) data b else (data, b));
          (data, b) =
            (if reloc_size r \<noteq> 0 \<and> tgt_start r \<le> feed b \<and> feed b < tgt_end r
             then put_data (buf_start r + (feed b - tgt_start r))
               (min (unat (tgt_end r - feed b)) (length data)) data b
             else (data, b))
      in if data \<noteq> [] then snd (put_data (feed b) (length data) data b) else b)"

text \<open>The loop over the decoder, which ends when the whole chunk is consumed.\<close>

partial_function (option) feed_xz :: "'x xz_ops \<Rightarrow> 'x \<Rightarrow> u8 list \<Rightarrow> 'x boot \<Rightarrow> (bool \<times> 'x boot) option" where
  "feed_xz xz x inp b =
     (if inp = [] then Some (True, b\<lparr>boot_xz := Some x\<rparr>)
      else case xz_dec_run xz x inp of
        (r, n, out, x) \<Rightarrow>
          if r = XZ_OK \<or> r = XZ_STREAM_END then feed_xz xz x (drop n inp) (feed_impl out b)
          else if r = XZ_UNSUPPORTED_CHECK then feed_xz xz x (drop n inp) b
          else Some (False, b\<lparr>boot_xz := Some x\<rparr>))"

declare feed_xz.simps [code]

definition platform_feed :: "'x xz_ops \<Rightarrow> u32 \<Rightarrow> u8 list \<Rightarrow> 'x boot \<Rightarrow> (bool \<times> 'x boot) option" where
  "platform_feed xz chunk_no data b =
     (if compression_type (boot_meta b) = COMPRESS_XZ then
        (case boot_xz b of Some x \<Rightarrow> feed_xz xz x data b | None \<Rightarrow> None)
      else Some (True, feed_impl data b))"

section \<open>Checking the image\<close>

definition CRC_BLOCKSIZE :: nat where "CRC_BLOCKSIZE = 0x4000"

function crc_with_heartbeat :: "mem \<Rightarrow> u32 \<Rightarrow> nat \<Rightarrow> nat \<Rightarrow> io \<Rightarrow> u32 \<times> io" where
  "crc_with_heartbeat m crc data until s =
     (if data < until then
        let s = fsm_heartbeat s; blocksz = min (until - data) CRC_BLOCKSIZE
        in crc_with_heartbeat m (crc32 crc (mem_read m data blocksz)) (data + blocksz) until s
      else (crc, s))"
  by pat_completeness auto
termination
  by (relation "measure (\<lambda>(m, crc, data, until, s). until - data)") (auto simp: CRC_BLOCKSIZE_def)

declare crc_with_heartbeat.simps [simp del]

text \<open>The CRC of the whole image, taken in up to three pieces around the relocated part.\<close>

definition image_crc :: "'x boot \<Rightarrow> u32 \<Rightarrow> io \<Rightarrow> u32 \<times> u32 \<times> io" where
  "image_crc b end s =
     (let r = boot_reloc b; m = boot_mem b; fd = img_start b; crc = 0;
          (crc, fd, s) =
            (if reloc_size r \<noteq> 0 \<and> fd < tgt_start r \<and> tgt_start r < end then
               let cnt = tgt_start r - fd; (crc, s) = crc_with_heartbeat m crc (unat fd) (unat (fd + cnt)) s
               in (crc, fd + cnt, s)
             else (crc, fd, s));
          (crc, fd, s) =
            (if reloc_size r \<noteq> 0 \<and> tgt_start r \<le> fd \<and> fd < tgt_end r then
               let off = fd - tgt_start r; cnt = min (tgt_end r - fd) (end - fd);
                   (crc, s) = crc_with_heartbeat m crc (unat (buf_start r + off)) (unat (buf_start r + off + cnt)) s
               in (crc, fd + cnt, s)
             else (crc, fd, s));
          (crc, s) = (if fd < end then crc_with_heartbeat m crc (unat fd) (unat end) s else (crc, s))
      in (crc, fd, s))"

definition platform_load_image :: "boot_env \<Rightarrow> 'x boot \<Rightarrow> io \<Rightarrow> (bool \<times> 'x boot \<times> io) option" where
  "platform_load_image env b s =
     (let end = img_start b + mem_size (boot_meta b)
      in if feed b \<noteq> end then Some (False, b, s)
         else
           let checked_crc =
             (if compression_type (boot_meta b) = COMPRESS_NONE then
                let (crc, fd, s) = image_crc b end s
                in Some (crc = mem_crc32 (boot_meta b), b\<lparr>feed := fd\<rparr>, s)
              else if compression_type (boot_meta b) = COMPRESS_XZ then Some (True, b, s)
              else None)
           in case checked_crc of
                None \<Rightarrow> Some (False, b, s)
              | Some (crc_ok, b, s) \<Rightarrow>
                  if image_format (boot_meta b) = IMAGE_FLAT_BINARY then Some (crc_ok, b, s)
                  else if image_format (boot_meta b) = IMAGE_ELF then
                    (case load_elf_image (elf_env.truncate env) (img_start b) (img_end b) True True EM_ARM
                        0x20000000 [] (boot_elf b) (boot_mem b) of
                       Ok (format_ok, es, m) \<Rightarrow>
                         Some (crc_ok \<and> format_ok, b\<lparr>boot_elf := es, boot_mem := m\<rparr>, s)
                     | _ \<Rightarrow> None)
                  else Some (False, b, s))"

text \<open>The platform operations as the protocol machine calls them.\<close>

definition bcm2835_ops :: "boot_env \<Rightarrow> 'x xz_ops \<Rightarrow> 'x boot device_ops" where
  "bcm2835_ops env xz = \<lparr>init_meta = platform_init_meta env xz, feed_op = platform_feed xz,
     load_op = platform_load_image env\<rparr>"

section \<open>The trampoline\<close>

text \<open>
  The copy loops of the flat-binary stub, \<^verbatim>\<open>pup/trampolines/bin.bcm2835.S\<close>: copy \<open>w\<close> bytes, with an
  \<open>LDM\<close> and an \<open>STM\<close> of four registers or with an \<open>LDR\<close> and an \<open>STR\<close>, subtract \<open>w\<close> from the counter, stop when it
  is zero. These instructions want addresses that are multiples of four: otherwise the ARM1176 aborts (\<open>LDM\<close>, \<open>STM\<close>) or,
  depending on its control register, reads and writes other bytes (\<open>LDR\<close>, \<open>STR\<close>), and the result is \<open>None\<close>.
\<close>

partial_function (option) copy_loop :: "nat \<Rightarrow> u32 \<Rightarrow> u32 \<Rightarrow> u32 \<Rightarrow> mem \<Rightarrow> (u32 \<times> u32 \<times> mem) option" where
  "copy_loop w r8 r0 r1 m =
     (if unat r0 mod 4 \<noteq> 0 \<or> unat r1 mod 4 \<noteq> 0 then None
      else let m = mem_copy (unat r0) (unat r1) w m; r0 = r0 + of_nat w; r1 = r1 + of_nat w; r8 = r8 - of_nat w
      in if r8 = 0 then Some (r0, r1, m) else copy_loop w r8 r0 r1 m)"

declare copy_loop.simps [code]

definition fastreloc :: "u32 \<Rightarrow> u32 \<Rightarrow> u32 \<Rightarrow> mem \<Rightarrow> mem option" where
  "fastreloc r0 r1 r2 m = do {
     (r0, r1, m) \<leftarrow> (let r8 = r2 AND NOT 15 in if r8 = 0 then Some (r0, r1, m) else copy_loop 16 r8 r0 r1 m);
     (r0, r1, m) \<leftarrow> (let r8 = r2 AND 15 in if r8 = 0 then Some (r0, r1, m) else copy_loop 4 r8 r0 r1 m);
     Some m
   }"

text \<open>
  \<open>trampoline\<close>: the address control goes to and the memory at that moment. For a flat binary the
  stub is part of it; for an ELF image control goes to the second stage that
  \<open>load_elf_image\<close> installed. \<open>None\<close> is a panic, a loop without end or a misaligned access.
\<close>

definition trampoline :: "boot_env \<Rightarrow> 'x boot \<Rightarrow> (u32 \<times> mem) option" where
  "trampoline env b =
     (if image_format (boot_meta b) = IMAGE_FLAT_BINARY then
        let r = boot_reloc b;
            m = (if reloc_size r \<noteq> 0 then mem_write (unat (stub_start r)) (stub_code env) (boot_mem b)
                 else boot_mem b)
        in do { m \<leftarrow> fastreloc (tgt_start r) (buf_start r) (reloc_size r) m; Some (img_start b, m) }
      else if image_format (boot_meta b) = IMAGE_ELF then Some (elf_trampoline_ptr (boot_elf b), boot_mem b)
      else None)"

end
