(* ===== verification/Boot_Correct.thy ===== *)
theory Boot_Correct
  imports Boot_Loader
begin

text \<open>
  Correctness of the device side: the layout that \<open>platform_init_meta\<close> plans, that received data
  lands at its place of the image without touching the running boot loader, that the final
  check is a check of the whole image, and that the trampoline produces the image in memory.
  These facts are collected in an interpretation of \<open>download_platform\<close>.
\<close>

section \<open>Planned layouts\<close>

text \<open>What the linker script guarantees of the boot loader and its stub.\<close>

definition env_ok :: "boot_env \<Rightarrow> bool" where
  "env_ok env \<longleftrightarrow> unat (prog_start env) < unat (prog_end env) \<and> unat (prog_end env) < 2 ^ 28 \<and>
     length (stub_code env) < 2 ^ 20 \<and> 4 dvd length (stub_code env)"

text \<open>
  A layout is good for an image of \<open>n\<close> bytes at \<open>s\<close> when the relocated part is the overlap of the
  image with the boot loader, and the buffer lies above both, below the end of memory, with
  room for the stub after it.
\<close>

definition placed :: "boot_env \<Rightarrow> nat \<Rightarrow> nat \<Rightarrow> reloc \<Rightarrow> bool" where
  "placed env s n r \<longleftrightarrow>
     (let p = unat (prog_start env); q = unat (prog_end env)
      in if reloc_size r = 0 then r = no_reloc \<and> (n = 0 \<or> s + n \<le> p \<or> q \<le> s)
         else unat (tgt_start r) = max s p \<and> unat (tgt_end r) = min (s + n) q \<and>
           tgt_start r < tgt_end r \<and> unat (reloc_size r) = unat (tgt_end r) - unat (tgt_start r) \<and>
           unat (buf_start r) = max q (s + n) \<and> unat (buf_end r) = unat (buf_start r) + unat (reloc_size r) \<and>
           buf_end r \<le> stub_start r \<and> unat (stub_end r) = unat (stub_start r) + length (stub_code env) \<and>
           unat (stub_end r) \<le> unat DRAM_LIMIT)"

lemma unat_DRAM_LIMIT: "unat DRAM_LIMIT = 2 ^ 29"
  by (simp add: DRAM_LIMIT_def)

lemma unat_max_min: "unat (max x y) = max (unat x) (unat y)" "unat (min x y) = min (unat x) (unat y)"
  for x y :: u32
  by (auto simp: max_def min_def word_le_nat_alt)

lemma and_minus_4: "unat (x AND - 4) = unat x - unat x mod 4" for x :: u32
  using unat_and_not_mask [of x 2] by (simp add: mask_eq_exp_minus_1)

text \<open>Rounding up to a multiple of four.\<close>

lemma unat_align4:
  "unat x + 3 < 2 ^ 32 \<Longrightarrow> unat x \<le> unat ((x + 3) AND - 4) \<and> unat ((x + 3) AND - 4) \<le> unat x + 3 \<and>
   unat ((x + 3) AND - 4) mod 4 = 0" for x :: u32
proof -
  assume "unat x + 3 < 2 ^ 32"
  then have "unat (x + 3) = unat x + 3" by (simp add: unat_word_ariths)
  then have "unat ((x + 3) AND - 4) = (unat x + 3) - (unat x + 3) mod 4" by (simp add: and_minus_4)
  moreover have "((unat x + 3) - (unat x + 3) mod 4) mod 4 = 0" by (simp add: minus_mod_eq_mult_div)
  moreover have "(unat x + 3) mod 4 \<le> 3" by (simp add: less_Suc_eq_le [symmetric])
  ultimately show ?thesis by auto
qed

lemma below_limit: "4 dvd n \<Longrightarrow> a mod 4 = 0 \<Longrightarrow> a + n < 536870912 + 3 \<Longrightarrow> a + n \<le> 536870912" for a n :: nat
  by presburger

lemma plan_reloc_placed:
  assumes env: "env_ok env" and n: "unat s + n < 2 ^ 29" "unat e = unat s + n"
    and r: "plan_reloc env s e = Some r"
  shows "placed env (unat s) n r"
proof -
  let ?p = "prog_start env" and ?q = "prog_end env"
  let ?ts = "max s ?p" and ?te = "min e ?q" and ?stub = "of_nat (length (stub_code env)) :: u32"
  let ?over = "(?p \<le> s \<and> s < ?q) \<or> (s < ?p \<and> ?p < e)"
  have pq: "unat ?p < unat ?q" "unat ?q < 2 ^ 28" using env by (simp_all add: env_ok_def)
  have stub: "unat ?stub = length (stub_code env)" "length (stub_code env) < 2 ^ 20"
    "4 dvd length (stub_code env)"
    using env by (simp_all add: env_ok_def unat_of_nat)
  show ?thesis
  proof (cases "?over \<and> ?te - ?ts \<noteq> 0")
    case False
    then have z: "(if ?over then ?te - ?ts else 0) = 0" by auto
    with r have "r = no_reloc" unfolding plan_reloc_def Let_def by (simp only: z) simp
    moreover have "n = 0 \<or> unat s + n \<le> unat ?p \<or> unat ?q \<le> unat s"
      using False pq n
      by (auto simp: word_le_nat_alt word_less_nat_alt max_def min_def split: if_splits)
    ultimately show ?thesis by (simp add: placed_def no_reloc_def)
  next
    case True
    then have rs: "(if ?over then ?te - ?ts else 0) = ?te - ?ts" by auto
    from True have "?te \<noteq> ?ts" by auto
    then have "unat ?te \<noteq> unat ?ts" by (simp only: word_unat_eq_iff not_False_eq_True)
    then have lt: "unat ?ts < unat ?te"
      using True pq n by (auto simp: unat_max_min word_le_nat_alt word_less_nat_alt max_def min_def split: if_splits)
    then have sz: "unat (?te - ?ts) = unat ?te - unat ?ts" by (simp add: unat_sub_le word_le_nat_alt)
    define bs where "bs = max ?q e"
    define rsz where "rsz = ?te - ?ts"
    have small: "unat rsz < 2 ^ 28" using sz pq by (simp add: unat_max_min rsz_def)
    have lim: "unat (DRAM_LIMIT - rsz - ?stub) = 2 ^ 29 - unat rsz - length (stub_code env)"
      using small stub unat_DRAM_LIMIT by (simp add: unat_sub_le word_le_nat_alt)
    from r True have nl: "\<not> DRAM_LIMIT - rsz - ?stub \<le> bs"
      unfolding plan_reloc_def Let_def rs bs_def [symmetric] rsz_def [symmetric] by (auto split: if_splits)
    then have bs: "unat bs + unat rsz + length (stub_code env) < 2 ^ 29"
      using lim by (simp add: word_le_nat_alt not_le less_diff_conv ac_simps)
    define be where "be = bs + rsz"
    have be: "unat be = unat bs + unat rsz" unfolding be_def using bs by (intro unat_add_small) simp
    define ss where "ss = (be + 3) AND - 4"
    have ss: "unat be \<le> unat ss" "unat ss \<le> unat be + 3" "unat ss mod 4 = 0"
      using unat_align4 [of be] bs be by (simp_all add: ss_def)
    have se: "unat (ss + ?stub) = unat ss + length (stub_code env)"
      using ss bs be stub by (subst unat_add_small) simp_all
    have "unat ss + length (stub_code env) \<le> 2 ^ 29"
      using below_limit [OF stub(3) ss(3)] ss(2) bs be by simp
    moreover from r True nl have "r = \<lparr>tgt_start = ?ts, tgt_end = ?te, buf_start = bs, buf_end = be,
        stub_start = ss, stub_end = ss + ?stub, reloc_size = rsz\<rparr>"
      unfolding plan_reloc_def Let_def rs bs_def [symmetric] rsz_def [symmetric]
      by (auto simp: be_def ss_def split: if_splits)
    moreover have "rsz \<noteq> 0" "unat rsz = unat ?te - unat ?ts" using True sz by (simp_all add: rsz_def)
    moreover have "unat bs = max (unat ?q) (unat s + n)" using n by (simp add: bs_def unat_max_min)
    moreover have "unat ?ts = max (unat s) (unat ?p)" "unat ?te = min (unat s + n) (unat ?q)"
      using n by (simp_all add: unat_max_min)
    moreover have "be \<le> ss" "?ts < ?te" using ss(1) lt by (simp_all only: word_le_nat_alt word_less_nat_alt)
    ultimately show ?thesis
      unfolding placed_def Let_def using be se unat_DRAM_LIMIT by (simp only: reloc.simps if_False simp_thms)
  qed
qed

section \<open>The image as it will be\<close>

text \<open>
  Where byte \<open>a\<close> of the final memory is kept while the boot loader runs: in the relocation buffer
  when it belongs to the relocated part, else at its own address.
\<close>

definition phys :: "reloc \<Rightarrow> nat \<Rightarrow> nat" where
  "phys r a = (if reloc_size r \<noteq> 0 \<and> unat (tgt_start r) \<le> a \<and> a < unat (tgt_end r)
     then unat (buf_start r) + (a - unat (tgt_start r)) else a)"

definition view :: "'x boot \<Rightarrow> nat \<Rightarrow> u8" where
  "view b a = boot_mem b (phys (boot_reloc b) a)"

definition img_lo :: "'x boot \<Rightarrow> nat" where
  "img_lo b = unat (img_start b)"

definition img_hi :: "'x boot \<Rightarrow> nat" where
  "img_hi b = unat (img_start b) + unat (mem_size (boot_meta b))"

definition boot_placed :: "boot_env \<Rightarrow> 'x boot \<Rightarrow> bool" where
  "boot_placed env b \<longleftrightarrow> env_ok env \<and> img_hi b < 2 ^ 29 \<and>
     placed env (img_lo b) (unat (mem_size (boot_meta b))) (boot_reloc b)"

lemma placed_reloc:
  assumes "placed env s n r" "reloc_size r \<noteq> 0"
  shows "unat (tgt_start r) = max s (unat (prog_start env))" "unat (tgt_end r) = min (s + n) (unat (prog_end env))"
    "unat (buf_start r) = max (unat (prog_end env)) (s + n)" "unat (tgt_start r) < unat (tgt_end r)"
proof -
  from assms have "unat (tgt_start r) = max s (unat (prog_start env)) \<and>
    unat (tgt_end r) = min (s + n) (unat (prog_end env)) \<and>
    unat (buf_start r) = max (unat (prog_end env)) (s + n) \<and> tgt_start r < tgt_end r"
    unfolding placed_def Let_def by (simp only: if_False simp_thms)
  then show "unat (tgt_start r) = max s (unat (prog_start env))"
    "unat (tgt_end r) = min (s + n) (unat (prog_end env))"
    "unat (buf_start r) = max (unat (prog_end env)) (s + n)" "unat (tgt_start r) < unat (tgt_end r)"
    unfolding word_less_nat_alt by blast+
qed

lemma phys_inj:
  assumes "placed env s n r" "s \<le> a" "a < s + n" "s \<le> a'" "a' < s + n" "phys r a = phys r a'"
  shows "a = a'"
proof (cases "reloc_size r = 0")
  case True
  with assms(6) show ?thesis by (simp add: phys_def)
next
  case False
  from placed_reloc(3) [OF assms(1) False] have "s + n \<le> unat (buf_start r)" by simp
  with assms(2-6) False show ?thesis by (auto simp: phys_def split: if_splits)
qed

lemma phys_not_prog:
  assumes "placed env s n r" "s \<le> a" "a < s + n"
  shows "phys r a < unat (prog_start env) \<or> unat (prog_end env) \<le> phys r a"
proof (cases "reloc_size r = 0")
  case True
  with assms show ?thesis by (auto simp: phys_def placed_def Let_def)
next
  case False
  note r = placed_reloc [OF assms(1) False]
  show ?thesis
  proof (cases "unat (tgt_start r) \<le> a \<and> a < unat (tgt_end r)")
    case True
    moreover have "unat (prog_end env) \<le> unat (buf_start r)" using r(3) by simp
    ultimately have "unat (prog_end env) \<le> phys r a" using False by (auto simp: phys_def)
    then show ?thesis ..
  next
    case outside: False
    with r(1,2) assms(2,3) show ?thesis by (auto simp: phys_def)
  qed
qed

section \<open>Feeding\<close>

text \<open>
  \<open>fed env b data b'\<close>: between \<open>b\<close> and \<open>b'\<close> exactly \<open>data\<close> was added to the image at the feed
  position; the rest of the image, the boot loader and the other variables are unchanged.
\<close>

definition fed :: "boot_env \<Rightarrow> 'x boot \<Rightarrow> u8 list \<Rightarrow> 'x boot \<Rightarrow> bool" where
  "fed env b data b' \<longleftrightarrow>
     unat (feed b') = unat (feed b) + length data \<and>
     b' = b\<lparr>feed := feed b', boot_mem := boot_mem b'\<rparr> \<and>
     (\<forall>a. img_lo b \<le> a \<and> a < img_hi b \<longrightarrow> view b' a =
        (if unat (feed b) \<le> a \<and> a < unat (feed b) + length data then data ! (a - unat (feed b)) else view b a)) \<and>
     (\<forall>a. unat (prog_start env) \<le> a \<and> a < unat (prog_end env) \<longrightarrow> boot_mem b' a = boot_mem b a)"

lemma fed_same:
  assumes "fed env b data b'"
  shows "img_start b' = img_start b" "boot_meta b' = boot_meta b" "boot_reloc b' = boot_reloc b"
    "img_end b' = img_end b" "boot_xz b' = boot_xz b" "boot_elf b' = boot_elf b"
    "img_lo b' = img_lo b" "img_hi b' = img_hi b" "boot_placed env b' = boot_placed env b"
proof -
  from assms have e: "b' = b\<lparr>feed := feed b', boot_mem := boot_mem b'\<rparr>" by (simp add: fed_def)
  show f: "img_start b' = img_start b" "boot_meta b' = boot_meta b" "boot_reloc b' = boot_reloc b"
    "img_end b' = img_end b" "boot_xz b' = boot_xz b" "boot_elf b' = boot_elf b"
    by (subst e, simp)+
  show "img_lo b' = img_lo b" "img_hi b' = img_hi b" by (simp_all add: img_lo_def img_hi_def f)
  then show "boot_placed env b' = boot_placed env b" by (simp add: boot_placed_def f)
qed

lemma fed_refl [simp]: "fed env b [] b"
  by (auto simp: fed_def)

lemma fed_trans:
  assumes "fed env b xs b1" "fed env b1 ys b2"
  shows "fed env b (xs @ ys) b2"
proof -
  note s = fed_same [OF assms(1)]
  have "b2 = b\<lparr>feed := feed b2, boot_mem := boot_mem b2\<rparr>"
  proof -
    have e1: "b1 = b\<lparr>feed := feed b1, boot_mem := boot_mem b1\<rparr>" using assms(1) by (simp add: fed_def)
    have "b2 = b1\<lparr>feed := feed b2, boot_mem := boot_mem b2\<rparr>" using assms(2) by (simp add: fed_def)
    also have "\<dots> = b\<lparr>feed := feed b2, boot_mem := boot_mem b2\<rparr>" by (subst e1) simp
    finally show ?thesis .
  qed
  moreover have "view b2 a = (if unat (feed b) \<le> a \<and> a < unat (feed b) + length (xs @ ys)
      then (xs @ ys) ! (a - unat (feed b)) else view b a)" if "img_lo b \<le> a \<and> a < img_hi b" for a
    using assms that s(7,8) unfolding fed_def by (auto simp: nth_append)
  ultimately show ?thesis using assms by (simp add: fed_def)
qed

lemma put_data_fed:
  assumes "boot_placed env b" "img_lo b \<le> unat (feed b)" "unat (feed b) + cnt \<le> img_hi b" "cnt \<le> length data"
    and "\<And>i. i < cnt \<Longrightarrow> phys (boot_reloc b) (unat (feed b) + i) = unat addr + i"
  shows "fed env b (take cnt data) (snd (put_data addr cnt data b))"
proof -
  let ?b = "snd (put_data addr cnt data b)" and ?f = "unat (feed b)"
  have pl: "placed env (img_lo b) (unat (mem_size (boot_meta b))) (boot_reloc b)"
    and hi: "img_lo b + unat (mem_size (boot_meta b)) = img_hi b"
    using assms(1) by (simp_all add: boot_placed_def img_lo_def img_hi_def)
  have cnt: "length (take cnt data) = cnt" using assms(4) by simp
  have "?f + cnt < 2 ^ 32" using assms(1,3) by (simp add: boot_placed_def)
  then have f: "unat (feed ?b) = ?f + cnt" by (simp add: put_data_def unat_word_ariths unat_of_nat)
  have "view ?b a = (if ?f \<le> a \<and> a < ?f + cnt then take cnt data ! (a - ?f) else view b a)"
    if a: "img_lo b \<le> a \<and> a < img_hi b" for a
  proof (cases "?f \<le> a \<and> a < ?f + cnt")
    case True
    then obtain i where i: "a = ?f + i" "i < cnt" by (metis le_Suc_ex nat_add_left_cancel_less)
    then show ?thesis using assms(5) cnt by (simp add: view_def put_data_def mem_write_def)
  next
    case False
    have "\<not> (unat addr \<le> phys (boot_reloc b) a \<and> phys (boot_reloc b) a < unat addr + cnt)"
    proof
      assume "unat addr \<le> phys (boot_reloc b) a \<and> phys (boot_reloc b) a < unat addr + cnt"
      then obtain i where i: "i < cnt" "phys (boot_reloc b) a = unat addr + i" by (metis le_Suc_ex nat_add_left_cancel_less)
      with assms(5) have "phys (boot_reloc b) a = phys (boot_reloc b) (?f + i)" by simp
      moreover have "img_lo b \<le> ?f + i" "?f + i < img_lo b + unat (mem_size (boot_meta b))"
        "a < img_lo b + unat (mem_size (boot_meta b))"
        using a i(1) assms(2,3) hi by simp_all
      ultimately have "a = ?f + i" using phys_inj [OF pl] a by blast
      with i False show False by simp
    qed
    with False cnt show ?thesis by (auto simp: view_def put_data_def mem_write_outside not_le not_less)
  qed
  moreover have "boot_mem ?b a = boot_mem b a"
    if a: "unat (prog_start env) \<le> a \<and> a < unat (prog_end env)" for a
  proof -
    have "\<not> (unat addr \<le> a \<and> a < unat addr + cnt)"
    proof
      assume "unat addr \<le> a \<and> a < unat addr + cnt"
      then obtain i where i: "i < cnt" "a = unat addr + i" by (metis le_Suc_ex nat_add_left_cancel_less)
      with assms(2,3,5) hi phys_not_prog [OF pl, of "?f + i"] a show False by simp
    qed
    with cnt show ?thesis by (simp add: put_data_def mem_write_outside not_le not_less)
  qed
  ultimately show ?thesis using f cnt by (simp add: fed_def) (simp add: put_data_def)
qed

text \<open>The three steps of \<open>feed_impl\<close>: up to the relocated part, inside it, and after it.\<close>

lemma feed_before:
  assumes "boot_placed env b" "img_lo b \<le> unat (feed b)" "unat (feed b) + length data \<le> img_hi b"
    and "reloc_size (boot_reloc b) \<noteq> 0" "feed b < tgt_start (boot_reloc b)"
      "unat (tgt_start (boot_reloc b)) < unat (feed b) + length data"
  shows "fed env b (take (unat (tgt_start (boot_reloc b) - feed b)) data)
    (snd (put_data (feed b) (unat (tgt_start (boot_reloc b) - feed b)) data b))"
proof (rule put_data_fed)
  have "unat (tgt_start (boot_reloc b) - feed b) = unat (tgt_start (boot_reloc b)) - unat (feed b)"
    using assms(5) by (simp add: unat_sub_le)
  then show "unat (feed b) + unat (tgt_start (boot_reloc b) - feed b) \<le> img_hi b"
    "unat (tgt_start (boot_reloc b) - feed b) \<le> length data"
    "\<And>i. i < unat (tgt_start (boot_reloc b) - feed b) \<Longrightarrow>
      phys (boot_reloc b) (unat (feed b) + i) = unat (feed b) + i"
    using assms by (auto simp: word_less_nat_alt phys_def)
qed (use assms in simp_all)

lemma feed_inside:
  assumes "boot_placed env b" "img_lo b \<le> unat (feed b)" "unat (feed b) + length data \<le> img_hi b"
    and "reloc_size (boot_reloc b) \<noteq> 0" "tgt_start (boot_reloc b) \<le> feed b" "feed b < tgt_end (boot_reloc b)"
  shows "fed env b (take (min (unat (tgt_end (boot_reloc b) - feed b)) (length data)) data)
    (snd (put_data (buf_start (boot_reloc b) + (feed b - tgt_start (boot_reloc b)))
      (min (unat (tgt_end (boot_reloc b) - feed b)) (length data)) data b))"
proof (rule put_data_fed)
  let ?r = "boot_reloc b"
  have pl: "placed env (img_lo b) (unat (mem_size (boot_meta b))) ?r"
    and hi: "img_lo b + unat (mem_size (boot_meta b)) = img_hi b" "img_hi b < 2 ^ 29" "env_ok env"
    using assms(1) by (simp_all add: boot_placed_def img_lo_def img_hi_def)
  note r = placed_reloc [OF pl assms(4)]
  have e: "unat (tgt_end ?r - feed b) = unat (tgt_end ?r) - unat (feed b)"
    and o: "unat (feed b - tgt_start ?r) = unat (feed b) - unat (tgt_start ?r)"
    using assms(5,6) by (simp_all add: unat_sub_le)
  have "unat (tgt_end ?r) \<le> img_hi b" "unat (buf_start ?r) < 2 ^ 29"
    using r(2,3) hi by (simp_all add: env_ok_def)
  then have "unat (buf_start ?r + (feed b - tgt_start ?r)) = unat (buf_start ?r) + (unat (feed b) - unat (tgt_start ?r))"
    using o hi assms(3,6) by (subst unat_add_small) (simp_all add: word_less_nat_alt)
  then show "phys ?r (unat (feed b) + i) = unat (buf_start ?r + (feed b - tgt_start ?r)) + i"
    if "i < min (unat (tgt_end ?r - feed b)) (length data)" for i
    using that assms(4,5) e by (auto simp: phys_def word_le_nat_alt)
  show "unat (feed b) + min (unat (tgt_end ?r - feed b)) (length data) \<le> img_hi b"
    using assms(3) by (simp add: min_def)
qed (use assms in simp_all)

lemma feed_after:
  assumes "boot_placed env b" "img_lo b \<le> unat (feed b)" "unat (feed b) + length data \<le> img_hi b"
    and "reloc_size (boot_reloc b) = 0 \<or> unat (feed b) + length data \<le> unat (tgt_start (boot_reloc b)) \<or>
      tgt_end (boot_reloc b) \<le> feed b"
  shows "fed env b data (snd (put_data (feed b) (length data) data b))"
proof -
  have "fed env b (take (length data) data) (snd (put_data (feed b) (length data) data b))"
    by (rule put_data_fed) (use assms in \<open>auto simp: phys_def word_le_nat_alt\<close>)
  then show ?thesis by simp
qed

lemma feed_impl_fed:
  assumes pl: "boot_placed env b" and lo: "img_lo b \<le> unat (feed b)"
    and hi: "unat (feed b) + length data \<le> img_hi b"
  shows "fed env b data (feed_impl data b)"
proof -
  let ?r = "boot_reloc b"
  define c1 where "c1 \<longleftrightarrow> reloc_size ?r \<noteq> 0 \<and> feed b < tgt_start ?r \<and> tgt_start ?r < feed b + of_nat (length data)"
  define n1 where "n1 = (if c1 then unat (tgt_start ?r - feed b) else 0)"
  define b1 where "b1 = (if c1 then snd (put_data (feed b) n1 data b) else b)"
  define d1 where "d1 = drop n1 data"
  have "unat (feed b + of_nat (length data)) = unat (feed b) + length data"
    using hi pl by (simp add: boot_placed_def unat_word_ariths unat_of_nat)
  then have c1: "c1 \<longleftrightarrow> reloc_size ?r \<noteq> 0 \<and> feed b < tgt_start ?r \<and> unat (tgt_start ?r) < unat (feed b) + length data"
    by (simp add: c1_def word_less_nat_alt)
  have f1: "fed env b (take n1 data) b1"
    using feed_before [OF pl lo hi] c1 by (simp add: b1_def n1_def)
  have n1: "n1 \<le> length data" using c1 by (auto simp: n1_def unat_sub_le word_less_nat_alt word_le_nat_alt)
  note s1 = fed_same [OF f1]
  have F1: "unat (feed b1) = unat (feed b) + n1" using f1 n1 by (simp add: fed_def)
  have st1: "boot_placed env b1" "img_lo b1 \<le> unat (feed b1)" "unat (feed b1) + length d1 \<le> img_hi b1"
    using pl lo hi n1 F1 s1 by (simp_all add: d1_def)
  define c2 where "c2 \<longleftrightarrow> reloc_size ?r \<noteq> 0 \<and> tgt_start ?r \<le> feed b1 \<and> feed b1 < tgt_end ?r"
  define n2 where "n2 = (if c2 then min (unat (tgt_end ?r - feed b1)) (length d1) else 0)"
  define b2 where "b2 = (if c2 then snd (put_data (buf_start ?r + (feed b1 - tgt_start ?r)) n2 d1 b1) else b1)"
  define d2 where "d2 = drop n2 d1"
  have f2: "fed env b1 (take n2 d1) b2"
    using feed_inside [OF st1] s1(3) by (simp add: b2_def n2_def c2_def)
  have n2: "n2 \<le> length d1" by (simp add: n2_def)
  note s2 = fed_same [OF f2]
  have F2: "unat (feed b2) = unat (feed b1) + n2" using f2 n2 by (simp add: fed_def)
  have st2: "boot_placed env b2" "img_lo b2 \<le> unat (feed b2)" "unat (feed b2) + length d2 \<le> img_hi b2"
    using st1 n2 F2 s2 by (simp_all add: d2_def)
  have out: "reloc_size ?r = 0 \<or> unat (feed b2) + length d2 \<le> unat (tgt_start ?r) \<or> tgt_end ?r \<le> feed b2"
    if "d2 \<noteq> []"
  proof (cases c2)
    case True
    have "n2 < length d1" using that by (simp add: d2_def)
    with True have "n2 = unat (tgt_end ?r - feed b1)" by (simp add: n2_def)
    also have "\<dots> = unat (tgt_end ?r) - unat (feed b1)" using True by (simp add: c2_def unat_sub_le word_le_nat_alt word_less_nat_alt)
    finally have "tgt_end ?r \<le> feed b2" using F2 unfolding word_le_nat_alt by linarith
    then show ?thesis by blast
  next
    case False
    then have z: "n2 = 0" "d2 = d1" by (simp_all add: n2_def d2_def)
    show ?thesis
    proof (cases c1)
      case True
      then have "n1 = unat (tgt_start ?r) - unat (feed b)"
        unfolding n1_def using c1 by (simp add: unat_sub_le word_less_nat_alt word_le_nat_alt)
      then have "unat (feed b1) = unat (tgt_start ?r)" using True c1 F1 by (simp add: word_less_nat_alt)
      with False z F2 show ?thesis by (auto simp: c2_def word_le_nat_alt word_less_nat_alt)
    next
      case no: False
      then have "n1 = 0" "d1 = data" by (simp_all add: n1_def d1_def)
      with no False z F1 F2 c1 show ?thesis
        by (auto simp: c2_def word_le_nat_alt word_less_nat_alt)
    qed
  qed
  have impl: "feed_impl data b = (if d2 \<noteq> [] then snd (put_data (feed b2) (length d2) d2 b2) else b2)"
  proof -
    have p1: "(if c1 then put_data (feed b) (unat (tgt_start ?r - feed b)) data b else (data, b)) = (d1, b1)"
      by (cases c1) (simp_all add: d1_def b1_def n1_def put_data_def)
    have p2: "(if c2 then put_data (buf_start ?r + (feed b1 - tgt_start ?r))
        (min (unat (tgt_end ?r - feed b1)) (length d1)) d1 b1 else (d1, b1)) = (d2, b2)"
      by (cases c2) (simp_all add: d2_def b2_def n2_def put_data_def)
    show ?thesis
      unfolding feed_impl_def Let_def c1_def [symmetric] p1 prod.case c2_def [symmetric] p2 ..
  qed
  have f3: "fed env b2 d2 (if d2 \<noteq> [] then snd (put_data (feed b2) (length d2) d2 b2) else b2)"
    using feed_after [OF st2] out s1(3) s2(3) by auto
  have parts: "take n1 data @ take n2 d1 @ d2 = data"
    unfolding d2_def append_take_drop_id unfolding d1_def append_take_drop_id ..
  show ?thesis using fed_trans [OF f1 fed_trans [OF f2 f3]] unfolding parts impl [symmetric] .
qed

section \<open>The check of the image\<close>

definition beats :: "nat \<Rightarrow> io \<Rightarrow> io" where
  "beats n s = s\<lparr>tx := tx s @ beat_line (fsm_iden s) n\<rparr>"

lemma beats_0 [simp]: "beats 0 s = s"
  by (simp add: beats_def)

lemma beats_iden [simp]: "fsm_iden (beats n s) = fsm_iden s" "rx (beats n s) = rx s"
  by (simp_all add: beats_def)

lemma beat_line_add: "beat_line i (n + k) = beat_line i n @ beat_line i k"
  by (induction n) simp_all

lemma beats_beats: "beats k (beats n s) = beats (n + k) s"
  by (simp add: beats_def beat_line_add)

lemma fsm_heartbeat_beats: "fsm_heartbeat s = beats 1 s"
  by (simp add: fsm_heartbeat_def beats_def)

text \<open>The number of heartbeats while checking \<open>n\<close> bytes.\<close>

definition blocks :: "nat \<Rightarrow> nat" where
  "blocks n = (n + (CRC_BLOCKSIZE - 1)) div CRC_BLOCKSIZE"

lemma blocks_0 [simp]: "blocks 0 = 0"
  by (simp add: blocks_def CRC_BLOCKSIZE_def)

lemma blocks_step: "0 < n \<Longrightarrow> blocks n = 1 + blocks (n - min n CRC_BLOCKSIZE)"
  unfolding blocks_def CRC_BLOCKSIZE_def by (cases "n \<le> 0x4000") (auto simp: min_def div_if le_div_geq)

lemma crc_with_heartbeat_eq:
  "crc_with_heartbeat m crc a e s = (crc32 crc (mem_read m a (e - a)), beats (blocks (e - a)) s)"
proof (induction m crc a e s rule: crc_with_heartbeat.induct)
  case (1 m crc a e s)
  show ?case
  proof (cases "a < e")
    case False
    then show ?thesis by (simp add: crc_with_heartbeat.simps [of m crc a e s] crc32_fold)
  next
    case True
    let ?n = "min (e - a) CRC_BLOCKSIZE"
    have "mem_read m a (e - a) = mem_read m a ?n @ mem_read m (a + ?n) (e - (a + ?n))"
      using mem_read_append [of m a ?n "e - (a + ?n)"] True by (simp add: min_def split: if_splits)
    moreover have "blocks (e - a) = 1 + blocks (e - (a + ?n))" using True blocks_step [of "e - a"] by simp
    ultimately show ?thesis
      using "1.IH" [OF True refl refl] True
      by (simp add: crc_with_heartbeat.simps [of m crc a e s] Let_def crc32_append fsm_heartbeat_beats beats_beats)
  qed
qed

lemma crc32_Nil [simp]: "crc32 crc [] = crc"
  by (simp add: crc32_fold)

text \<open>The image as a byte string.\<close>

definition image :: "'x boot \<Rightarrow> u8 list" where
  "image b = map (view b) [img_lo b..<img_hi b]"

lemma map_view_outside:
  assumes "reloc_size (boot_reloc b) = 0 \<or> e \<le> unat (tgt_start (boot_reloc b)) \<or> unat (tgt_end (boot_reloc b)) \<le> a"
  shows "map (view b) [a..<e] = mem_read (boot_mem b) a (e - a)"
  using assms by (intro nth_equalityI) (auto simp: view_def phys_def)

lemma map_view_inside:
  assumes "reloc_size (boot_reloc b) \<noteq> 0" "unat (tgt_start (boot_reloc b)) \<le> a" "e \<le> unat (tgt_end (boot_reloc b))"
  shows "map (view b) [a..<e] =
    mem_read (boot_mem b) (unat (buf_start (boot_reloc b)) + (a - unat (tgt_start (boot_reloc b)))) (e - a)"
  using assms by (intro nth_equalityI) (auto simp: view_def phys_def ac_simps intro!: arg_cong [of _ _ "boot_mem b"])

lemma map_upt_split: "a \<le> c \<Longrightarrow> c \<le> e \<Longrightarrow> map f [a..<e] = map f [a..<c] @ map f [c..<e]"
  by (metis (no_types) le_Suc_ex map_append upt_add_eq_append)

lemma image_crc_plain:
  assumes "boot_placed env b" "unat e = img_hi b" "reloc_size (boot_reloc b) = 0"
  shows "\<exists>k fd. image_crc b e s = (crc32 0 (image b), fd, beats k s)"
proof -
  have im: "image b = mem_read (boot_mem b) (unat (img_start b)) (unat e - unat (img_start b))"
    using map_view_outside [of b "img_hi b" "img_lo b"] assms(3) by (simp add: image_def img_lo_def assms(2))
  show ?thesis
  proof (cases "img_start b < e")
    case True
    then show ?thesis by (simp add: image_crc_def Let_def assms(3) crc_with_heartbeat_eq im) blast
  next
    case False
    then have "image b = []" by (simp add: im word_less_nat_alt)
    with False show ?thesis
      by (simp add: image_crc_def Let_def assms(3)) (metis beats_0)
  qed
qed

text \<open>The order of the four addresses when a part of the image is relocated.\<close>

lemma reloc_order:
  assumes "boot_placed env b" "reloc_size (boot_reloc b) \<noteq> 0"
  shows "img_lo b \<le> unat (tgt_start (boot_reloc b))"
    "unat (tgt_start (boot_reloc b)) < unat (tgt_end (boot_reloc b))"
    "unat (tgt_end (boot_reloc b)) \<le> img_hi b" "unat (buf_start (boot_reloc b)) < 2 ^ 29" "img_hi b < 2 ^ 29"
proof -
  have pl: "placed env (img_lo b) (unat (mem_size (boot_meta b))) (boot_reloc b)"
    and hi: "img_lo b + unat (mem_size (boot_meta b)) = img_hi b" "img_hi b < 2 ^ 29" "env_ok env"
    using assms(1) by (simp_all add: boot_placed_def img_lo_def img_hi_def)
  note r = placed_reloc [OF pl assms(2)]
  show "img_lo b \<le> unat (tgt_start (boot_reloc b))" "unat (tgt_end (boot_reloc b)) \<le> img_hi b"
    "unat (buf_start (boot_reloc b)) < 2 ^ 29"
    using r(1-3) hi by (simp_all add: env_ok_def)
qed (use assms placed_reloc(4) in \<open>auto simp: boot_placed_def\<close>)

lemma image_pieces:
  assumes "boot_placed env b" "reloc_size (boot_reloc b) \<noteq> 0"
  shows "image b =
    mem_read (boot_mem b) (img_lo b) (unat (tgt_start (boot_reloc b)) - img_lo b) @
    mem_read (boot_mem b) (unat (buf_start (boot_reloc b)))
      (unat (tgt_end (boot_reloc b)) - unat (tgt_start (boot_reloc b))) @
    mem_read (boot_mem b) (unat (tgt_end (boot_reloc b))) (img_hi b - unat (tgt_end (boot_reloc b)))"
proof -
  let ?ts = "unat (tgt_start (boot_reloc b))" and ?te = "unat (tgt_end (boot_reloc b))"
  note o = reloc_order [OF assms]
  show ?thesis
    using map_view_outside [of b ?ts "img_lo b"] map_view_inside [OF assms(2), of ?ts ?te]
      map_view_outside [of b "img_hi b" ?te] map_upt_split [of "img_lo b" ?ts "img_hi b" "view b"]
      map_upt_split [of ?ts ?te "img_hi b" "view b"] o
    by (simp add: image_def)
qed

lemma image_crc_eq:
  assumes pl: "boot_placed env b" and e: "unat e = img_hi b"
  shows "\<exists>k fd. image_crc b e s = (crc32 0 (image b), fd, beats k s)"
proof (cases "reloc_size (boot_reloc b) = 0")
  case True
  with assms show ?thesis by (intro image_crc_plain)
next
  case False
  let ?r = "boot_reloc b" and ?m = "boot_mem b" and ?is = "img_start b"
  let ?ts = "tgt_start ?r" and ?te = "tgt_end ?r" and ?bs = "buf_start ?r"
  note o = reloc_order [OF pl False]
  have d1: "unat (?te - ?ts) = unat ?te - unat ?ts" using o by (simp add: unat_sub_le word_le_nat_alt)
  have be: "unat (?bs + (?te - ?ts)) = unat ?bs + (unat ?te - unat ?ts)"
    using o by (subst unat_add_small) (simp_all add: d1)
  have mn: "min (?te - ?ts) (e - ?ts) = ?te - ?ts"
    using o e diff_le_mono [OF o(3), of "unat ?ts"] by (simp add: min_def word_le_nat_alt unat_sub_le)
  define crc1 where "crc1 = crc32 0 (mem_read ?m (img_lo b) (unat ?ts - img_lo b))"
  have "\<exists>k. (if reloc_size ?r \<noteq> 0 \<and> ?is < ?ts \<and> ?ts < e then
      let cnt = ?ts - ?is; (crc, s) = crc_with_heartbeat ?m 0 (unat ?is) (unat (?is + cnt)) s
      in (crc, ?is + cnt, s) else (0, ?is, s)) = (crc1, ?ts, beats k s)"
  proof (cases "?is < ?ts")
    case True
    moreover have "?ts < e" using o e by (simp add: word_less_nat_alt)
    ultimately show ?thesis using False by (simp add: crc1_def crc_with_heartbeat_eq img_lo_def) blast
  next
    case nless: False
    then have "?is = ?ts" using o(1) by (simp add: img_lo_def word_less_nat_alt word_unat_eq_iff)
    with nless show ?thesis by (intro exI [of _ 0]) (simp add: crc1_def img_lo_def)
  qed
  then obtain k where k: "(if reloc_size ?r \<noteq> 0 \<and> ?is < ?ts \<and> ?ts < e then
      let cnt = ?ts - ?is; (crc, s) = crc_with_heartbeat ?m 0 (unat ?is) (unat (?is + cnt)) s
      in (crc, ?is + cnt, s) else (0, ?is, s)) = (crc1, ?ts, beats k s)" ..
  have crc: "crc32 0 (image b) = crc32 (crc32 crc1 (mem_read ?m (unat ?bs) (unat ?te - unat ?ts)))
      (mem_read ?m (unat ?te) (unat e - unat ?te))"
    by (simp add: image_pieces [OF pl False] crc1_def crc32_append e)
  have "?ts < ?te" using o by (simp add: word_less_nat_alt)
  moreover have "mem_read ?m (unat ?te) (unat e - unat ?te) = []" if "\<not> ?te < e"
    using that by (simp add: word_less_nat_alt)
  ultimately show ?thesis
    unfolding image_crc_def Let_def k [unfolded Let_def] prod.case using False
    by (cases "?te < e") (simp_all add: mn crc_with_heartbeat_eq be crc beats_beats, blast+)
qed

section \<open>The platform keeps its promises to the protocol machine\<close>

text \<open>
  Metadata whose image fits below the end of memory. For flat binaries \<open>platform_init_meta\<close>
  checks this itself; for ELF images it relies on the host.
\<close>

definition meta_fits :: "boot_env \<Rightarrow> meta_t \<Rightarrow> bool" where
  "meta_fits env m \<longleftrightarrow> compression_type m = COMPRESS_NONE \<and>
     (image_format m = IMAGE_ELF \<longrightarrow> unat (prog_end env) + unat (mem_size m) < 2 ^ 29)"

definition boot_holds :: "boot_env \<Rightarrow> meta_t \<Rightarrow> u8 list \<Rightarrow> 'x boot \<Rightarrow> bool" where
  "boot_holds env m d b \<longleftrightarrow> boot_meta b = m \<and>
     (env_ok env \<and> meta_fits env m \<and> length d < 2 ^ 32 \<longrightarrow> boot_placed env b \<and> feed b = img_start b + of_nat (length d) \<and>
       (length d \<le> unat (mem_size m) \<longrightarrow> (\<forall>k < length d. view b (img_lo b + k) = d ! k)))"

definition boot_loaded :: "boot_env \<Rightarrow> meta_t \<Rightarrow> u8 list \<Rightarrow> 'x boot \<Rightarrow> bool" where
  "boot_loaded env m d b \<longleftrightarrow> boot_meta b = m \<and>
     (env_ok env \<and> meta_fits env m \<and> length d < 2 ^ 32 \<longrightarrow>
       length d = unat (mem_size m) \<and> crc32 0 d = mem_crc32 m \<and>
       (image_format m = IMAGE_FLAT_BINARY \<longrightarrow> boot_placed env b \<and> image b = d))"

lemma unat_ucast_64: "unat (ucast x :: u64) = unat x" for x :: u32
  using unsigned_less [of x, where 'a = nat] by (simp add: unsigned_ucast_eq take_bit_eq_mod)

lemma image_start_fits:
  assumes "image_start env m = Some s"
    and "image_format m = IMAGE_ELF \<Longrightarrow> unat (prog_end env) + unat (mem_size m) < 2 ^ 29"
  shows "unat s + unat (mem_size m) < 2 ^ 29"
proof (cases "image_format m = IMAGE_FLAT_BINARY")
  case True
  with assms(1) have s: "s = ucast (load_addr m)" "\<not> ucast DRAM_LIMIT \<le> load_addr m"
    "\<not> ucast DRAM_LIMIT \<le> load_addr m + ucast (mem_size m)"
    by (simp_all add: image_start_def split: if_splits)
  have la: "unat (load_addr m) < 2 ^ 29"
    using s(2) unat_DRAM_LIMIT by (simp add: word_le_nat_alt unat_ucast_64 not_le)
  then have us: "unat s = unat (load_addr m)" by (simp add: s(1) unsigned_ucast_eq take_bit_eq_mod)
  have ms: "unat (mem_size m) < 2 ^ 32" using unsigned_less [of "mem_size m", where 'a = nat] by simp
  have "unat (load_addr m + ucast (mem_size m)) = unat (load_addr m) + unat (mem_size m)"
    using la ms by (simp add: unat_word_ariths unat_ucast_64)
  then show ?thesis
    using s(3) unat_DRAM_LIMIT us by (simp add: word_le_nat_alt unat_ucast_64 not_le)
next
  case False
  with assms show ?thesis by (auto simp: image_start_def split: if_splits)
qed

lemma init_meta_placed:
  assumes "platform_init_meta env xz m b = (True, b')" "env_ok env"
    and "image_format m = IMAGE_ELF \<Longrightarrow> unat (prog_end env) + unat (mem_size m) < 2 ^ 29"
  shows "boot_placed env b' \<and> feed b' = img_start b'"
proof -
  from assms obtain s r where s: "image_start env m = Some s" "plan_reloc env s (s + mem_size m) = Some r"
    and b': "b' = b\<lparr>img_start := s, img_end := s + mem_size m, boot_meta := m, boot_reloc := r,
      boot_xz := xz_dec_init xz, feed := s\<rparr>"
    by (auto simp: platform_init_meta_def Let_def split: if_splits option.splits)
  have fits: "unat s + unat (mem_size m) < 2 ^ 29" by (rule image_start_fits [OF s(1) assms(3)])
  then have "unat (s + mem_size m) = unat s + unat (mem_size m)" by (intro unat_add_small) simp
  with plan_reloc_placed [OF _ fits _ s(2)] assms(2) fits show ?thesis
    by (simp add: b' boot_placed_def img_lo_def img_hi_def)
qed

lemma init_meta_holds:
  assumes "platform_init_meta env xz m b = (True, b')"
  shows "boot_holds env m [] b'"
proof -
  have "boot_meta b' = m"
    using assms by (auto simp: platform_init_meta_def Let_def split: if_splits option.splits)
  with init_meta_placed [OF assms] show ?thesis by (simp add: boot_holds_def meta_fits_def)
qed

lemma put_data_fields [simp]:
  "boot_meta (snd (put_data a n d b)) = boot_meta b" "img_start (snd (put_data a n d b)) = img_start b"
  "boot_reloc (snd (put_data a n d b)) = boot_reloc b" "img_end (snd (put_data a n d b)) = img_end b"
  "boot_elf (snd (put_data a n d b)) = boot_elf b"
  by (simp_all add: put_data_def)

lemma feed_impl_fields:
  "boot_meta (feed_impl d b) = boot_meta b" "img_start (feed_impl d b) = img_start b"
  "boot_reloc (feed_impl d b) = boot_reloc b" "img_end (feed_impl d b) = img_end b" "boot_elf (feed_impl d b) = boot_elf b"
proof -
  have c: "f (snd (if c then put_data x n d b else (d, b))) = f b"
    if "\<And>x n d b. f (snd (put_data x n d b)) = f b" for f :: "'a boot \<Rightarrow> 'b" and c x n d b
    using that by simp
  show "boot_meta (feed_impl d b) = boot_meta b" "img_start (feed_impl d b) = img_start b"
    "boot_reloc (feed_impl d b) = boot_reloc b" "img_end (feed_impl d b) = img_end b" "boot_elf (feed_impl d b) = boot_elf b"
    unfolding feed_impl_def Let_def split_def if_distrib [of boot_meta] if_distrib [of img_start]
      if_distrib [of boot_reloc] if_distrib [of img_end] if_distrib [of boot_elf] by (simp_all only: c put_data_fields if_cancel)
qed

lemma put_data_length:
  "n \<le> length d \<Longrightarrow> put_data a n d b = (d', b') \<Longrightarrow>
   feed b' + of_nat (length d') = feed b + of_nat (length d) \<and> length d' \<le> length d \<and> boot_reloc b' = boot_reloc b"
  by (auto simp: put_data_def of_nat_diff)

lemma before_length:
  fixes f t :: u32
  assumes "f < t" "t < f + of_nat n" "n < 2 ^ 32"
  shows "unat (t - f) \<le> n"
proof -
  have "unat (f + of_nat n) = (unat f + n) mod 2 ^ 32"
    using assms(3) by (simp add: unat_word_ariths unat_of_nat)
  moreover have "(unat f + n) mod 2 ^ 32 \<le> unat f + n" by (rule mod_less_eq_dividend)
  ultimately have "unat t \<le> unat f + n" using assms(2) unfolding word_less_nat_alt by linarith
  then show ?thesis using assms(1) by (simp add: unat_sub_le)
qed

lemma feed_impl_feed:
  assumes "length d < 2 ^ 32"
  shows "feed (feed_impl d b) = feed b + of_nat (length d)"
proof -
  let ?r = "boot_reloc b"
  obtain d1 b1 where p1: "(if reloc_size ?r \<noteq> 0 \<and> feed b < tgt_start ?r \<and> tgt_start ?r < feed b + of_nat (length d)
      then put_data (feed b) (unat (tgt_start ?r - feed b)) d b else (d, b)) = (d1, b1)"
    by fastforce
  then have f1: "feed b1 + of_nat (length d1) = feed b + of_nat (length d)"
    using before_length [of "feed b" "tgt_start ?r" "length d"] assms
    by (auto split: if_splits dest: put_data_length)
  obtain d2 b2 where p2: "(if reloc_size ?r \<noteq> 0 \<and> tgt_start ?r \<le> feed b1 \<and> feed b1 < tgt_end ?r
      then put_data (buf_start ?r + (feed b1 - tgt_start ?r)) (min (unat (tgt_end ?r - feed b1)) (length d1)) d1 b1
      else (d1, b1)) = (d2, b2)"
    by fastforce
  then have f2: "feed b2 + of_nat (length d2) = feed b1 + of_nat (length d1)"
    by (auto split: if_splits dest!: put_data_length [rotated])
  have "feed_impl d b = (if d2 \<noteq> [] then snd (put_data (feed b2) (length d2) d2 b2) else b2)"
    unfolding feed_impl_def Let_def p1 prod.case p2 ..
  with f1 f2 show ?thesis by (cases "d2 = []") (simp_all add: put_data_def)
qed

text \<open>What the received data do not touch.\<close>

lemma feed_xz_keeps:
  assumes k: "\<And>d b. f (feed_impl d b) = f b" "\<And>b x. f (b\<lparr>boot_xz := x\<rparr>) = f b"
    and r: "feed_xz xz x inp b = Some r"
  shows "f (snd r) = f b"
proof (rule feed_xz.raw_induct [where P = "\<lambda>_ _ _ b r. f (snd r) = f b"
      and xa = "(((xz, x), inp), b)" and y = r, unfolded prod.case])
  fix g and xz' :: "'a xz_ops" and x' inp' b' r'
  assume IH: "\<And>xz x inp b r. g xz x inp b = Some r \<Longrightarrow> f (snd r) = f b"
    and eq: "(if inp' = [] then Some (True, b'\<lparr>boot_xz := Some x'\<rparr>)
      else case xz_dec_run xz' x' inp' of
        (r, n, out, x) \<Rightarrow>
          if r = XZ_OK \<or> r = XZ_STREAM_END then g xz' x (drop n inp') (feed_impl out b')
          else if r = XZ_UNSUPPORTED_CHECK then g xz' x (drop n inp') b'
          else Some (False, b'\<lparr>boot_xz := Some x\<rparr>)) = Some r'"
  obtain q n out x1 where q: "xz_dec_run xz' x' inp' = (q, n, out, x1)" by (cases "xz_dec_run xz' x' inp'")
  from eq [unfolded q prod.case] consider "snd r' = b'\<lparr>boot_xz := Some x'\<rparr>" | "snd r' = b'\<lparr>boot_xz := Some x1\<rparr>"
    | "g xz' x1 (drop n inp') (feed_impl out b') = Some r'" | "g xz' x1 (drop n inp') b' = Some r'"
    by (metis option.inject snd_conv)
  then show "f (snd r') = f b'"
    by cases (simp_all add: k IH [of xz' x1 "drop n inp'" _ r'])
qed (rule r)

lemma platform_feed_keeps:
  assumes k: "\<And>d b. f (feed_impl d b) = f b" "\<And>b x. f (b\<lparr>boot_xz := x\<rparr>) = f b"
    and r: "platform_feed xz n x b = Some (ok, b')"
  shows "f b' = f b"
  using r feed_xz_keeps [of f, OF k, of xz _ x b "(ok, b')"] by (auto simp: platform_feed_def k split: if_splits option.splits)

lemma boot_feed_holds:
  assumes h: "boot_holds env m d b" and f: "platform_feed xz n x b = Some (True, b')"
  shows "boot_holds env m (d @ x) b'"
proof -
  have meta: "boot_meta b = m" using h by (simp add: boot_holds_def)
  show ?thesis
  proof (cases "env_ok env \<and> meta_fits env m \<and> length (d @ x) < 2 ^ 32")
    case False
    have "boot_meta b' = m"
      using platform_feed_keeps [OF _ _ f, of boot_meta] meta by (simp add: feed_impl_fields)
    with False show ?thesis by (auto simp: boot_holds_def)
  next
    case True
    then have b': "b' = feed_impl x b"
      using f meta by (auto simp: platform_feed_def meta_fits_def format_defs)
    from True h have pl: "boot_placed env b" and fd: "feed b = img_start b + of_nat (length d)"
      and im: "length d \<le> unat (mem_size m) \<Longrightarrow> \<forall>k < length d. view b (img_lo b + k) = d ! k"
      by (auto simp: boot_holds_def)
    have st: "boot_meta b' = m" "img_start b' = img_start b" "boot_placed env b'" "img_lo b' = img_lo b"
      using pl meta by (simp_all add: b' feed_impl_fields boot_placed_def img_lo_def img_hi_def)
    have "feed b' = img_start b' + of_nat (length (d @ x))"
      using True by (simp add: b' feed_impl_feed feed_impl_fields fd add.assoc)
    moreover have "view b' (img_lo b + k) = (d @ x) ! k"
      if len: "length (d @ x) \<le> unat (mem_size m)" and k: "k < length (d @ x)" for k
    proof -
      have hi: "img_hi b = img_lo b + unat (mem_size m)" "img_hi b < 2 ^ 29"
        using pl meta by (simp_all add: img_hi_def img_lo_def boot_placed_def)
      have fd': "unat (feed b) = img_lo b + length d"
        using fd hi len by (simp add: img_lo_def unat_word_ariths unat_of_nat)
      have "fed env b x b'" unfolding b' using pl fd' hi len by (intro feed_impl_fed) simp_all
      then have "view b' (img_lo b + k) = (if unat (feed b) \<le> img_lo b + k \<and>
          img_lo b + k < unat (feed b) + length x then x ! (img_lo b + k - unat (feed b)) else view b (img_lo b + k))"
        using hi len k by (simp add: fed_def)
      then show ?thesis using fd' im k len by (auto simp: nth_append)
    qed
    ultimately show ?thesis using st by (simp add: boot_holds_def)
  qed
qed

lemma boot_load_image:
  assumes h: "boot_holds env m d b" and l: "platform_load_image env b s = Some (True, b', s')"
  shows "boot_loaded env m d b'"
proof -
  have meta: "boot_meta b = m" using h by (simp add: boot_holds_def)
  have meta': "boot_meta b' = m"
    using l meta by (auto simp: platform_load_image_def Let_def split: if_splits option.splits checked.splits prod.splits)
  show ?thesis
  proof (cases "env_ok env \<and> meta_fits env m \<and> length d < 2 ^ 32")
    case False
    with meta' show ?thesis by (auto simp: boot_loaded_def)
  next
    case True
    then have none: "compression_type (boot_meta b) = COMPRESS_NONE" using meta by (simp add: meta_fits_def)
    from True h have pl: "boot_placed env b" and fd: "feed b = img_start b + of_nat (length d)"
      and im: "length d \<le> unat (mem_size m) \<Longrightarrow> \<forall>k < length d. view b (img_lo b + k) = d ! k"
      by (auto simp: boot_holds_def)
    let ?e = "img_start b + mem_size (boot_meta b)"
    from l have fe: "feed b = ?e" by (auto simp: platform_load_image_def Let_def split: if_splits)
    with fd have "of_nat (length d) = mem_size m" by (simp add: meta)
    moreover have "unat (of_nat (length d) :: u32) = length d" using True by (simp add: unat_of_nat)
    ultimately have len: "length d = unat (mem_size m)" by simp
    have hi: "img_hi b = img_lo b + length d" using len meta by (simp add: img_hi_def img_lo_def)
    have "unat ?e = img_hi b"
      using pl unfolding boot_placed_def img_hi_def by (intro unat_add_small) simp
    then obtain k fd' where crc: "image_crc b ?e s = (crc32 0 (image b), fd', beats k s)"
      using image_crc_eq [OF pl] by blast
    have d: "image b = d" using im len by (intro nth_equalityI) (simp_all add: image_def hi)
    have "crc32 0 d = mem_crc32 m"
      using l none fe crc meta d
      by (auto simp: platform_load_image_def Let_def split: if_splits option.splits checked.splits prod.splits)
    moreover have "boot_placed env b' \<and> image b' = d" if "image_format m = IMAGE_FLAT_BINARY"
    proof -
      have "b' = b\<lparr>feed := fd'\<rparr>"
        using l none fe crc meta that
        by (auto simp: platform_load_image_def Let_def split: if_splits option.splits checked.splits prod.splits)
      then show ?thesis
        using pl d by (simp add: boot_placed_def image_def img_lo_def img_hi_def view_def [abs_def])
    qed
    ultimately show ?thesis using meta' len by (simp add: boot_loaded_def)
  qed
qed

lemma boot_load_io:
  assumes "platform_load_image env b s = Some (ok, b', s')"
  shows "fsm_iden s' = fsm_iden s \<and> rx s' = rx s"
proof -
  let ?e = "img_start b + mem_size (boot_meta b)"
  have hb: "fsm_iden (snd (crc_with_heartbeat m c a e s)) = fsm_iden s"
    "rx (snd (crc_with_heartbeat m c a e s)) = rx s" for m c a e s
    by (simp_all add: crc_with_heartbeat_eq)
  obtain c f s1 where i: "image_crc b ?e s = (c, f, s1)" by (cases "image_crc b ?e s") auto
  have "fsm_iden (snd (snd (image_crc b ?e s))) = fsm_iden s" "rx (snd (snd (image_crc b ?e s))) = rx s"
    by (simp_all add: image_crc_def Let_def hb split_def)
  then have "fsm_iden s1 = fsm_iden s" "rx s1 = rx s" by (simp_all add: i)
  with assms i show ?thesis
    by (auto simp: platform_load_image_def Let_def split: if_splits option.splits checked.splits prod.splits)
qed

interpretation bcm: download_platform "bcm2835_ops env xz" "boot_holds env" "boot_loaded env" "\<lambda>_. True"
  for env and xz :: "'x xz_ops"
  by unfold_locales
     (auto simp: bcm2835_ops_def intro: init_meta_holds boot_feed_holds boot_load_image dest: boot_load_io)

end
