(* ===== verification/Boot_Start.thy ===== *)
theory Boot_Start
  imports Boot_Correct
begin

text \<open>
  The end of the boot loader's run: the stub's copy loop, the memory at the moment control
  goes to a flat binary, and the properties of the device side.
\<close>

section \<open>The copy loop of the stub\<close>

lemma copy_loop_exact:
  assumes "0 < w" "w mod 4 = 0" "0 < k" "unat r8 = w * k" "w < 2 ^ 32" "unat r0 mod 4 = 0" "unat r1 mod 4 = 0"
    and "unat r0 + w * k < 2 ^ 32" "unat r1 + w * k < 2 ^ 32"
    and "unat r1 + w * k \<le> unat r0 \<or> unat r0 + w * k \<le> unat r1"
  shows "copy_loop w r8 r0 r1 m = Some (r0 + of_nat (w * k), r1 + of_nat (w * k), mem_copy (unat r0) (unat r1) (w * k) m)"
  using assms(3-)
proof (induction k arbitrary: r8 r0 r1 m)
  case 0
  then show ?case by simp
next
  case (Suc k)
  have r8: "unat (r8 - of_nat w) = w * k"
    using Suc.prems(2,3) by (simp add: unat_sub_le word_le_nat_alt unat_of_nat)
  show ?case
  proof (cases "k = 0")
    case True
    with Suc.prems(2) r8 have "r8 - of_nat w = 0" by (simp add: unat_eq_zero)
    with True Suc.prems(4,5) show ?thesis by (subst copy_loop.simps) (simp add: Let_def)
  next
    case False
    then have nz: "r8 - of_nat w \<noteq> 0" using r8 assms(1) by (metis mult_is_0 neq0_conv unat_0)
    have u: "unat (r0 + of_nat w) = unat r0 + w" "unat (r1 + of_nat w) = unat r1 + w"
      using Suc.prems(6,7) by (simp_all add: unat_word_ariths unat_of_nat)
    have al: "unat (r0 + of_nat w) mod 4 = 0" "unat (r1 + of_nat w) mod 4 = 0"
      unfolding u using Suc.prems(4,5) assms(2) by presburger+
    have "copy_loop w (r8 - of_nat w) (r0 + of_nat w) (r1 + of_nat w) (mem_copy (unat r0) (unat r1) w m) =
        Some (r0 + of_nat w + of_nat (w * k), r1 + of_nat w + of_nat (w * k),
          mem_copy (unat r0 + w) (unat r1 + w) (w * k) (mem_copy (unat r0) (unat r1) w m))"
      using Suc.IH [of "r8 - of_nat w" "r0 + of_nat w" "r1 + of_nat w"] False r8 u al Suc.prems by auto
    moreover have "mem_copy (unat r0 + w) (unat r1 + w) (w * k) (mem_copy (unat r0) (unat r1) w m) =
        mem_copy (unat r0) (unat r1) (w + w * k) m"
      using Suc.prems(8) by (intro mem_copy_append) simp
    ultimately show ?thesis using nz Suc.prems(4,5) by (subst copy_loop.simps) (simp add: Let_def add.assoc)
  qed
qed

lemma mod_4_sub: "unat (r - 4) mod 4 = unat r mod 4" for r :: u32
proof -
  have "(- 4 :: u32) = 4294967292" by simp
  then have "unat (r - 4) = unat (r + 4294967292)" by (metis diff_conv_add_uminus)
  also have "\<dots> = (unat r + 4294967292) mod 4294967296" by (simp add: unat_word_ariths)
  finally have "unat (r - 4) mod 4 = ((unat r + 4294967292) mod 4294967296) mod 4" by simp
  also have "\<dots> = (unat r + 4294967292) mod 4" by (rule mod_mod_cancel) simp
  also have "\<dots> = unat r mod 4" by presburger
  finally show ?thesis .
qed

lemma copy_loop_Some_mod_4:
  assumes "copy_loop w r8 r0 r1 m = Some r"
  shows "w = 4 \<longrightarrow> unat r8 mod 4 = 0"
proof (rule copy_loop.raw_induct [where P = "\<lambda>w r8 _ _ _ _. w = 4 \<longrightarrow> unat r8 mod 4 = 0", OF _ assms])
  fix f w r8 r0 r1 m r
  assume IH: "\<And>w r8 r0 r1 m r. f w r8 r0 r1 m = Some r \<Longrightarrow> w = 4 \<longrightarrow> unat (r8 :: u32) mod 4 = 0"
    and eq: "(if unat r0 mod 4 \<noteq> 0 \<or> unat r1 mod 4 \<noteq> 0 then None else let m = mem_copy (unat r0) (unat r1) w m; r0 = r0 + of_nat w; r1 = r1 + of_nat w;
        r8 = r8 - of_nat w in if r8 = 0 then Some (r0, r1, m) else f w r8 r0 r1 m) = Some r"
  have "unat r8 mod 4 = 0" if w: "w = 4"
  proof (cases "r8 - 4 = 0")
    case False
    with eq w have "f 4 (r8 - 4) (r0 + 4) (r1 + 4) (mem_copy (unat r0) (unat r1) 4 m) = Some r"
      by (simp add: Let_def split: if_splits)
    from IH [OF this] show ?thesis using mod_4_sub [of r8] by simp
  qed simp
  then show "w = 4 \<longrightarrow> unat r8 mod 4 = 0" ..
qed

lemma unat_and_not_15: "unat (r AND NOT 15) = 16 * (unat r div 16)" for r :: u32
  using unat_and_not_mask [of r 4] by (simp add: mask_eq_exp_minus_1 minus_mod_eq_mult_div)

lemma fastreloc_copies:
  assumes "unat r2 mod 4 = 0" "unat r0 + unat r2 < 2 ^ 32" "unat r1 + unat r2 < 2 ^ 32"
    and al: "unat r0 mod 4 = 0" "unat r1 mod 4 = 0"
    and "unat r1 + unat r2 \<le> unat r0 \<or> unat r0 + unat r2 \<le> unat r1"
  shows "fastreloc r0 r1 r2 m = Some (mem_copy (unat r0) (unat r1) (unat r2) m)"
proof -
  define q where "q = unat r2 div 16"
  define p where "p = unat r2 mod 16"
  have n: "unat r2 = 16 * q + p" by (simp add: q_def p_def)
  have c: "(let r8 = r2 AND NOT 15 in if r8 = 0 then Some (r0, r1, m) else copy_loop 16 r8 r0 r1 m) =
      Some (r0 + of_nat (16 * q), r1 + of_nat (16 * q), mem_copy (unat r0) (unat r1) (16 * q) m)"
  proof (cases "q = 0")
    case True
    then have "r2 AND NOT 15 = 0" using unat_and_not_15 [of r2] by (simp add: q_def unat_eq_zero)
    with True show ?thesis by (simp add: mem_copy_def)
  next
    case False
    then have "r2 AND NOT 15 \<noteq> 0" using unat_and_not_15 [of r2] q_def by (metis mult_is_0 unat_0 zero_neq_numeral)
    moreover have "copy_loop 16 (r2 AND NOT 15) r0 r1 m =
        Some (r0 + of_nat (16 * q), r1 + of_nat (16 * q), mem_copy (unat r0) (unat r1) (16 * q) m)"
    proof (rule copy_loop_exact)
      show "unat (r2 AND NOT 15) = 16 * q" using unat_and_not_15 [of r2] by (simp add: q_def)
      show "unat r0 + 16 * q < 2 ^ 32" "unat r1 + 16 * q < 2 ^ 32" "unat r1 + 16 * q \<le> unat r0 \<or> unat r0 + 16 * q \<le> unat r1"
        using assms(2,3,6) n by linarith+
    qed (use False al in simp_all)
    ultimately show ?thesis by (simp only: Let_def if_False)
  qed
  let ?r0 = "r0 + of_nat (16 * q)" and ?r1 = "r1 + of_nat (16 * q)"
  have u: "unat ?r0 = unat r0 + 16 * q" "unat ?r1 = unat r1 + 16 * q"
    using assms(2,3) n by (simp_all add: unat_word_ariths unat_of_nat del: of_nat_mult)
  have f: "(let r8 = r2 AND 15 in if r8 = 0 then Some (?r0, ?r1, m') else copy_loop 4 r8 ?r0 ?r1 m') =
      Some (?r0 + of_nat p, ?r1 + of_nat p, mem_copy (unat ?r0) (unat ?r1) p m')" for m'
  proof (cases "p = 0")
    case True
    then have "r2 AND 15 = 0" using unat_and_low(2) [of r2] by (simp add: p_def unat_eq_zero)
    with True show ?thesis by (simp add: mem_copy_def)
  next
    case False
    then have nz: "r2 AND 15 \<noteq> 0" using unat_and_low(2) [of r2] p_def by (metis unat_0)
    have "p mod 4 = 0" using assms(1) by (simp add: p_def mod_mod_cancel)
    then obtain k where k: "p = 4 * k" by (auto elim: dvdE simp: mod_eq_0_iff_dvd)
    have "copy_loop 4 (r2 AND 15) ?r0 ?r1 m' =
        Some (?r0 + of_nat (4 * k), ?r1 + of_nat (4 * k), mem_copy (unat ?r0) (unat ?r1) (4 * k) m')"
    proof (rule copy_loop_exact)
      show "unat (r2 AND 15) = 4 * k" using unat_and_low(2) [of r2] k p_def by simp
      show "unat ?r0 + 4 * k < 2 ^ 32" "unat ?r1 + 4 * k < 2 ^ 32"
        "unat ?r1 + 4 * k \<le> unat ?r0 \<or> unat ?r0 + 4 * k \<le> unat ?r1"
        unfolding u using assms(2,3,6) n k by linarith+
      show "unat ?r0 mod 4 = 0" "unat ?r1 mod 4 = 0" unfolding u using al by presburger+
    qed (use False k in simp_all)
    with nz show ?thesis by (simp only: Let_def if_False k)
  qed
  have "mem_copy (unat r0 + 16 * q) (unat r1 + 16 * q) p (mem_copy (unat r0) (unat r1) (16 * q) m) =
      mem_copy (unat r0) (unat r1) (16 * q + p) m"
    using assms(6) n by (intro mem_copy_append) simp
  then show ?thesis
    unfolding fastreloc_def c Option.bind.simps prod.case f by (simp add: u n del: of_nat_mult)
qed

lemma fastreloc_stuck_step: "unat r2 mod 4 \<noteq> 0 \<Longrightarrow> r2 AND 15 \<noteq> 0 \<and> unat (r2 AND 15) mod 4 \<noteq> 0" for r2 :: u32
proof -
  assume "unat r2 mod 4 \<noteq> 0"
  moreover have "unat (r2 AND 15) mod 4 = unat r2 mod 4" using unat_and_low(2) [of r2] by (simp add: mod_mod_cancel)
  moreover have "unat (0 :: u32) mod 4 = 0" by simp
  ultimately show ?thesis by metis
qed

text \<open>An address that is not a multiple of four stops the stub at its first access.\<close>

lemma fastreloc_unaligned:
  assumes "unat r0 mod 4 \<noteq> 0 \<or> unat r1 mod 4 \<noteq> 0" "r2 \<noteq> 0"
  shows "fastreloc r0 r1 r2 m = None"
proof -
  have c: "copy_loop w r8 r0 r1 m' = None" for w r8 m' using assms(1) by (subst copy_loop.simps) simp
  have "unat r2 = 16 * (unat r2 div 16) + unat r2 mod 16" by simp
  then have "r2 AND NOT 15 \<noteq> 0 \<or> r2 AND 15 \<noteq> 0"
    using assms(2) unat_and_not_15 [of r2] unat_and_low(2) [of r2] by (metis add.right_neutral mult_0_right unat_0 unat_eq_zero)
  then show ?thesis by (cases "r2 AND NOT 15 = 0") (simp_all add: fastreloc_def c)
qed

section \<open>The memory at the start of a flat binary\<close>

text \<open>
  What the stub needs of a relocation: the number of bytes and the two addresses are multiples of four. With the ends
  of the loader on such addresses, it is enough that the length of the image is one.
\<close>

definition reloc_aligned :: "reloc \<Rightarrow> bool" where
  "reloc_aligned r \<longleftrightarrow> unat (reloc_size r) mod 4 = 0 \<and> unat (tgt_start r) mod 4 = 0 \<and> unat (buf_start r) mod 4 = 0"

text \<open>The memory after the stub is written: everything below the stub is as before.\<close>

definition staged :: "boot_env \<Rightarrow> 'x boot \<Rightarrow> mem" where
  "staged env b = (if reloc_size (boot_reloc b) \<noteq> 0
     then mem_write (unat (stub_start (boot_reloc b))) (stub_code env) (boot_mem b) else boot_mem b)"

lemma trampoline_flat:
  "image_format (boot_meta b) = IMAGE_FLAT_BINARY \<Longrightarrow> trampoline env b =
     map_option (Pair (img_start b))
       (fastreloc (tgt_start (boot_reloc b)) (buf_start (boot_reloc b)) (reloc_size (boot_reloc b)) (staged env b))"
  by (cases "fastreloc (tgt_start (boot_reloc b)) (buf_start (boot_reloc b)) (reloc_size (boot_reloc b)) (staged env b)")
     (simp_all add: trampoline_def staged_def Let_def)

lemma placed_stub:
  assumes "placed env s n r" "reloc_size r \<noteq> 0"
  shows "unat (reloc_size r) = unat (tgt_end r) - unat (tgt_start r)"
    "unat (buf_start r) + unat (reloc_size r) \<le> unat (stub_start r)" "unat (stub_start r) \<le> 2 ^ 29"
proof -
  from assms have "unat (reloc_size r) = unat (tgt_end r) - unat (tgt_start r) \<and>
    unat (buf_end r) = unat (buf_start r) + unat (reloc_size r) \<and> buf_end r \<le> stub_start r \<and>
    unat (stub_end r) = unat (stub_start r) + length (stub_code env) \<and> unat (stub_end r) \<le> unat DRAM_LIMIT"
    unfolding placed_def Let_def if_not_P [OF assms(2)] by blast
  then show "unat (reloc_size r) = unat (tgt_end r) - unat (tgt_start r)"
    "unat (buf_start r) + unat (reloc_size r) \<le> unat (stub_start r)" "unat (stub_start r) \<le> 2 ^ 29"
    unfolding word_le_nat_alt unat_DRAM_LIMIT by linarith+
qed

lemma staged_view:
  assumes "boot_placed env b" "img_lo b \<le> a" "a < img_hi b"
  shows "staged env b (phys (boot_reloc b) a) = view b a"
proof (cases "reloc_size (boot_reloc b) = 0")
  case False
  from assms(1) have pl: "placed env (img_lo b) (unat (mem_size (boot_meta b))) (boot_reloc b)"
    by (simp add: boot_placed_def)
  note r = placed_reloc [OF pl False] placed_stub [OF pl False]
  have "img_lo b + unat (mem_size (boot_meta b)) \<le> unat (buf_start (boot_reloc b))" using r(3) by simp
  then have "img_hi b \<le> unat (buf_start (boot_reloc b))" by (simp add: img_hi_def img_lo_def)
  then have "phys (boot_reloc b) a < unat (stub_start (boot_reloc b))"
    using False r(4-6) assms(3) unfolding phys_def by (auto split: if_splits)
  then show ?thesis by (simp add: staged_def view_def mem_write_outside)
qed (simp add: staged_def view_def)

lemma trampoline_image:
  assumes pl: "boot_placed env b" and flat: "image_format (boot_meta b) = IMAGE_FLAT_BINARY"
    and al: "reloc_aligned (boot_reloc b)"
  shows "\<exists>m. trampoline env b = Some (img_start b, m) \<and>
    mem_read m (img_lo b) (unat (mem_size (boot_meta b))) = image b"
proof -
  let ?r = "boot_reloc b"
  let ?m = "mem_copy (unat (tgt_start ?r)) (unat (buf_start ?r)) (unat (reloc_size ?r)) (staged env b)"
  from pl have p: "placed env (img_lo b) (unat (mem_size (boot_meta b))) ?r" and top: "img_hi b < 2 ^ 29"
    by (simp_all add: boot_placed_def)
  have hi: "img_lo b + unat (mem_size (boot_meta b)) = img_hi b" by (simp add: img_hi_def img_lo_def)
  have ends: "unat (tgt_start ?r) + unat (reloc_size ?r) \<le> unat (buf_start ?r) \<and>
      unat (buf_start ?r) + unat (reloc_size ?r) \<le> 2 ^ 29 \<and>
      (reloc_size ?r \<noteq> 0 \<longrightarrow> unat (tgt_start ?r) + unat (reloc_size ?r) = unat (tgt_end ?r))"
  proof (cases "reloc_size ?r = 0")
    case True
    with p have "?r = no_reloc" by (simp add: placed_def)
    then show ?thesis by (simp add: no_reloc_def)
  next
    case False
    note r = placed_reloc [OF p False] placed_stub [OF p False]
    have "unat (tgt_end ?r) \<le> unat (buf_start ?r)" using r(2,3) by simp
    then show ?thesis using r(4-7) by linarith
  qed
  have "fastreloc (tgt_start ?r) (buf_start ?r) (reloc_size ?r) (staged env b) = Some ?m"
  proof (rule fastreloc_copies)
    show "unat (reloc_size ?r) mod 4 = 0" "unat (tgt_start ?r) mod 4 = 0" "unat (buf_start ?r) mod 4 = 0"
      using al by (simp_all add: reloc_aligned_def)
    have "(2 :: nat) ^ 29 < 2 ^ 32" by simp
    with ends show "unat (tgt_start ?r) + unat (reloc_size ?r) < 2 ^ 32"
      "unat (buf_start ?r) + unat (reloc_size ?r) < 2 ^ 32" by linarith+
    from ends show "unat (buf_start ?r) + unat (reloc_size ?r) \<le> unat (tgt_start ?r) \<or>
      unat (tgt_start ?r) + unat (reloc_size ?r) \<le> unat (buf_start ?r)" by blast
  qed
  moreover have "?m a = view b a" if a: "img_lo b \<le> a" "a < img_hi b" for a
  proof (cases "reloc_size ?r \<noteq> 0 \<and> unat (tgt_start ?r) \<le> a \<and> a < unat (tgt_end ?r)")
    case True
    then have i: "a - unat (tgt_start ?r) < unat (reloc_size ?r)" using ends by linarith
    have "?m a = mem_read (staged env b) (unat (buf_start ?r)) (unat (reloc_size ?r)) ! (a - unat (tgt_start ?r))"
      using True ends by (simp add: mem_copy_def mem_write_def)
    also have "\<dots> = staged env b (phys ?r a)" unfolding nth_mem_read [OF i] using True by (simp add: phys_def)
    finally show ?thesis using staged_view [OF pl a] by simp
  next
    case False
    then have "a < unat (tgt_start ?r) \<or> unat (tgt_start ?r) + unat (reloc_size ?r) \<le> a"
      using ends by fastforce
    then have "?m a = staged env b a" by (rule mem_copy_outside)
    with False staged_view [OF pl a] show ?thesis by (auto simp: phys_def)
  qed
  then have "mem_read ?m (img_lo b) (unat (mem_size (boot_meta b))) = image b"
    using hi by (intro nth_equalityI) (auto simp: image_def)
  ultimately show ?thesis using trampoline_flat [OF flat, of env] by auto
qed

lemma placed_aligned:
  assumes "placed env s n r" "s mod 4 = 0" "n mod 4 = 0" "unat (prog_start env) mod 4 = 0" "unat (prog_end env) mod 4 = 0"
  shows "reloc_aligned r"
proof (cases "reloc_size r = 0")
  case True
  with assms(1) have "r = no_reloc" by (simp add: placed_def)
  then show ?thesis by (simp add: reloc_aligned_def no_reloc_def)
next
  case False
  have "(s + n) mod 4 = 0" using assms(2,3) by presburger
  moreover have "unat (tgt_start r) = max s (unat (prog_start env)) \<and> unat (tgt_end r) = min (s + n) (unat (prog_end env)) \<and>
      unat (reloc_size r) = unat (tgt_end r) - unat (tgt_start r) \<and> unat (buf_start r) = max (unat (prog_end env)) (s + n)"
    using assms(1) unfolding placed_def Let_def if_not_P [OF False] by blast
  ultimately show ?thesis using assms(2-5) by (auto simp: reloc_aligned_def max_def min_def mod_eq_0_iff_dvd dvd_diff_nat)
qed

text \<open>
  \<open>platform_init_meta\<close> does not ask for that length: a flat binary over the whole loader and beyond its end, with a length that is
  not a multiple of four, is accepted, and its relocation buffer, which begins where the image ends, stops the stub.
\<close>

lemma trampoline_misaligned_buffer:
  assumes "boot_placed env b" "image_format (boot_meta b) = IMAGE_FLAT_BINARY" "env_ok env"
    and "img_lo b \<le> unat (prog_start env)" "unat (prog_end env) \<le> img_hi b" "img_hi b mod 4 \<noteq> 0"
  shows "trampoline env b = None"
proof -
  let ?r = "boot_reloc b"
  have p: "placed env (img_lo b) (unat (mem_size (boot_meta b))) ?r" using assms(1) by (simp add: boot_placed_def)
  have e: "img_lo b + unat (mem_size (boot_meta b)) = img_hi b" by (simp add: img_hi_def img_lo_def)
  have nz: "reloc_size ?r \<noteq> 0"
    using p assms(3-5) e by (auto simp: placed_def Let_def env_ok_def)
  then have "unat (buf_start ?r) = max (unat (prog_end env)) (img_hi b)"
    using p e unfolding placed_def Let_def if_not_P [OF nz] by simp
  with assms(5,6) have "unat (buf_start ?r) mod 4 \<noteq> 0" by (simp add: max_def)
  from fastreloc_unaligned [OF disjI2 [OF this] nz] show ?thesis using trampoline_flat [OF assms(2)] by simp
qed

section \<open>The arena of the decoder\<close>

text \<open>The arena pointer stays inside the arena and aligned to eight bytes.\<close>

definition arena_ok :: "u32 \<Rightarrow> u32 \<Rightarrow> bool" where
  "arena_ok arena ptr \<longleftrightarrow> unat arena mod 8 = 0 \<and> unat arena + unat XZ_ARENA_SIZE < 2 ^ 32 \<and>
     arena \<le> ptr \<and> unat ptr \<le> unat arena + unat XZ_ARENA_SIZE \<and> unat ptr mod 8 = 0"

lemma and_minus_8: "unat (x AND - 8) = unat x - unat x mod 8" for x :: u32
  using unat_and_not_mask [of x 3] by (simp add: mask_eq_exp_minus_1)

lemma align8_between:
  assumes "(a :: nat) mod 8 = 0" "n \<le> a"
  shows "n + 7 - (n + 7) mod 8 \<le> a"
proof -
  have "(n + 7) div 8 \<le> (a + 7) div 8" using assms(2) by (intro div_le_mono) simp
  also have "(a + 7) div 8 = a div 8" using assms(1) by (auto simp: mod_eq_0_iff_dvd elim!: dvdE)
  finally have "8 * ((n + 7) div 8) \<le> 8 * (a div 8)" by simp
  with assms(1) show ?thesis by (simp add: minus_mod_eq_mult_div mod_0_imp_dvd)
qed

lemma align8_up: "n \<le> (n + 7 :: nat) - (n + 7) mod 8" "((n + 7) - (n + 7) mod 8) mod 8 = (0 :: nat)"
proof -
  have "(n + 7) mod 8 \<le> 7" by (simp add: less_Suc_eq_le [symmetric])
  then show "n \<le> (n + 7 :: nat) - (n + 7) mod 8" by linarith
qed (simp add: minus_mod_eq_mult_div)

lemma xz_malloc_stub_ok:
  assumes ok: "arena_ok arena ptr" and m: "xz_malloc_stub arena sz ptr = (Some p, ptr')"
  shows "p = ptr \<and> unat p + unat sz \<le> unat ptr' \<and> arena_ok arena ptr'"
proof -
  let ?e = "arena + XZ_ARENA_SIZE"
  from m have sz: "\<not> XZ_ARENA_SIZE \<le> sz" and lt: "\<not> ?e - sz \<le> ptr" and p: "p = ptr"
    and ptr': "ptr' = (ptr + sz + 7) AND - 8"
    by (auto simp: xz_malloc_stub_def Let_def split: if_splits)
  have A: "unat XZ_ARENA_SIZE = 2097152" by (simp add: XZ_ARENA_SIZE_def)
  have e: "unat ?e = unat arena + unat XZ_ARENA_SIZE"
    using ok by (intro unat_add_small) (simp add: arena_ok_def)
  have szn: "unat sz < unat XZ_ARENA_SIZE" using sz by (simp add: word_le_nat_alt)
  then have "sz \<le> ?e" using e by (simp add: word_le_nat_alt)
  then have "unat (?e - sz) = unat ?e - unat sz" by (rule unat_sub_le)
  then have l: "unat ptr + unat sz < unat arena + unat XZ_ARENA_SIZE"
    using lt e by (simp add: word_le_nat_alt)
  have top: "unat arena + unat XZ_ARENA_SIZE < 2 ^ 32" using ok by (simp add: arena_ok_def)
  have a8: "(unat arena + unat XZ_ARENA_SIZE) mod 8 = 0"
  proof -
    have "unat arena mod 8 = 0" using ok by (simp add: arena_ok_def)
    then show ?thesis unfolding A by presburger
  qed
  have "unat ptr + unat sz + 7 < 2 ^ 32"
  proof -
    from a8 obtain k where "unat arena + unat XZ_ARENA_SIZE = 8 * k" by (metis mod_0_imp_dvd dvdE)
    with l top show ?thesis by simp
  qed
  then have "unat (ptr + sz + 7) = unat ptr + unat sz + 7" by (simp add: unat_word_ariths)
  then have u: "unat ptr' = unat ptr + unat sz + 7 - (unat ptr + unat sz + 7) mod 8"
    unfolding ptr' by (simp only: and_minus_8)
  have "unat ptr' \<le> unat arena + unat XZ_ARENA_SIZE"
    unfolding u by (rule align8_between) (use a8 l in auto)
  moreover have "unat ptr + unat sz \<le> unat ptr'" "unat ptr' mod 8 = 0"
    unfolding u by (rule align8_up)+
  ultimately show ?thesis using ok p top by (auto simp: arena_ok_def word_le_nat_alt)
qed

section \<open>Properties of the boot loader\<close>

text \<open>A small boot loader of 4 KiB at 0x8000 with a stub of one word, and metadata for an image over it.\<close>

definition small_env :: boot_env where
  "small_env = \<lparr>prog_start = 0x8000, prog_end = 0x9000, trampoline_code = [], params_off = 0,
     stub_code = [0, 0, 0, 0]\<rparr>"

definition small_meta :: meta_t where
  "small_meta = \<lparr>image_format = IMAGE_FLAT_BINARY, compression_type = COMPRESS_NONE, wire_size = 8, mem_size = 8,
     mem_crc32 = 0, load_addr = 0x8000\<rparr>"

definition idle_xz :: "unit xz_ops" where
  "idle_xz = \<lparr>xz_dec_init = Some (), xz_dec_run = \<lambda>_ _. (XZ_DATA_ERROR, 0, [], ())\<rparr>"

definition small_boot :: "unit boot" where
  "small_boot = \<lparr>boot_mem = \<lambda>_. 0, boot_meta = small_meta, boot_reloc = no_reloc, img_start = 0, img_end = 0,
     feed = 0, boot_xz = None, boot_elf = elf_init\<rparr>"

definition small_ready :: "unit boot" where
  "small_ready = small_boot\<lparr>img_start := 0x8000, img_end := 0x8008, boot_reloc :=
     \<lparr>tgt_start = 0x8000, tgt_end = 0x8008, buf_start = 0x9000, buf_end = 0x9008, stub_start = 0x9008,
       stub_end = 0x900c, reloc_size = 8\<rparr>, boot_xz := Some (), feed := 0x8000\<rparr>"

lemma env_ok_small [simp]: "env_ok small_env"
proof -
  have "length [0, 0, 0, 0 :: u8] = 4" by simp
  then have "4 dvd length [0, 0, 0, 0 :: u8]" by (simp only: dvd_refl)
  then show ?thesis by (simp add: env_ok_def small_env_def)
qed

lemma meta_fits_small [simp]: "meta_fits small_env small_meta"
  by (simp add: meta_fits_def small_meta_def format_defs)

lemma small_init: "platform_init_meta small_env idle_xz small_meta small_boot = (True, small_ready)"
  by (simp add: platform_init_meta_def image_start_def plan_reloc_def small_env_def small_meta_def small_boot_def
      small_ready_def idle_xz_def format_defs DRAM_LIMIT_def max_def min_def)

lemma boot_placed_small: "boot_placed small_env small_ready"
  using init_meta_holds [OF small_init] by (simp add: boot_holds_def)

text \<open>
  C8: When \<open>platform_init_meta\<close> accepts metadata for an image, then the image lies below the end of
  memory, no byte of it is stored inside the running boot loader, no two bytes share a place, and reception starts at
  the image's first byte; for a flat binary that is the requested load address. For an ELF image it has to be known
  that it fits behind the loader, which the code checks for a flat binary only; the extent of the loader and of its
  stub are those of \<open>env_ok\<close>.
\<close>

theorem init_meta_layout:
  assumes "env_ok env" "platform_init_meta env xz m b = (True, b')"
    and "image_format m = IMAGE_ELF \<Longrightarrow> unat (prog_end env) + unat (mem_size m) < 2 ^ 29"
  shows "img_hi b' < 2 ^ 29 \<and> feed b' = img_start b' \<and>
    (\<forall>a. img_lo b' \<le> a \<and> a < img_hi b' \<longrightarrow>
       phys (boot_reloc b') a < unat (prog_start env) \<or> unat (prog_end env) \<le> phys (boot_reloc b') a) \<and>
    inj_on (phys (boot_reloc b')) {img_lo b'..<img_hi b'} \<and>
    (image_format m = IMAGE_FLAT_BINARY \<longrightarrow> img_start b' = ucast (load_addr m))"
proof -
  have pl: "boot_placed env b'" and f: "feed b' = img_start b'"
    using init_meta_placed [OF assms(2,1,3)] by auto
  then have p: "placed env (img_lo b') (unat (mem_size (boot_meta b'))) (boot_reloc b')" and hi: "img_hi b' < 2 ^ 29"
    by (simp_all add: boot_placed_def)
  have e: "img_lo b' + unat (mem_size (boot_meta b')) = img_hi b'" by (simp add: img_hi_def img_lo_def)
  have inj: "inj_on (phys (boot_reloc b')) {img_lo b'..<img_hi b'}"
    by (rule inj_onI) (use phys_inj [OF p] e in auto)
  have "img_start b' = ucast (load_addr m)" if "image_format m = IMAGE_FLAT_BINARY"
    using assms(2) that
    by (auto simp: platform_init_meta_def image_start_def Let_def split: if_splits option.splits)
  with hi f inj phys_not_prog [OF p] e show ?thesis by simp
qed

theorem init_meta_layout_witness:
  "phys (boot_reloc small_ready) 0x8004 = 0x9004 \<and> img_hi small_ready < 2 ^ 29 \<and>
    inj_on (phys (boot_reloc small_ready)) {img_lo small_ready..<img_hi small_ready}"
proof -
  have "image_format small_meta = IMAGE_ELF \<Longrightarrow> unat (prog_end small_env) + unat (mem_size small_meta) < 2 ^ 29"
    by (simp add: small_meta_def format_defs)
  from init_meta_layout [OF env_ok_small small_init this] show ?thesis
    by (simp add: phys_def small_ready_def)
qed

text \<open>
  C9: Received data lands at its place: after \<open>feed_impl\<close> the image holds exactly the new bytes at the
  feed position, every other byte of the image and every byte of the running boot loader is
  unchanged, and the feed position has advanced by the length of the data.
\<close>

theorem feed_impl_places_data:
  assumes "boot_placed env b" "img_lo b \<le> unat (feed b)" "unat (feed b) + length data \<le> img_hi b"
  shows "unat (feed (feed_impl data b)) = unat (feed b) + length data \<and>
    (\<forall>a. img_lo b \<le> a \<and> a < img_hi b \<longrightarrow> view (feed_impl data b) a =
       (if unat (feed b) \<le> a \<and> a < unat (feed b) + length data then data ! (a - unat (feed b)) else view b a)) \<and>
    (\<forall>a. unat (prog_start env) \<le> a \<and> a < unat (prog_end env) \<longrightarrow> boot_mem (feed_impl data b) a = boot_mem b a)"
  using feed_impl_fed [OF assms] by (simp add: fed_def)

theorem feed_impl_places_data_witness:
  "unat (feed (feed_impl [1, 2, 3] small_ready)) = 0x8003 \<and> view (feed_impl [1, 2, 3] small_ready) 0x8001 = 2"
  using feed_impl_places_data [OF boot_placed_small, of "[1, 2, 3]"]
  by (auto simp: small_ready_def small_boot_def small_meta_def img_lo_def img_hi_def)

text \<open>
  C10: When the relocated part of a flat binary is a multiple of four bytes long, and its place and the relocation buffer
  lie at multiples of four, the trampoline ends and control reaches the image's start with the whole image at its load
  address. (The code asks for none of the three; without the first the stub does not end, without the others it stops.)
\<close>

theorem trampoline_starts_image:
  assumes "boot_placed env b" "image_format (boot_meta b) = IMAGE_FLAT_BINARY"
    and "unat (reloc_size (boot_reloc b)) mod 4 = 0" "unat (tgt_start (boot_reloc b)) mod 4 = 0"
    and "unat (buf_start (boot_reloc b)) mod 4 = 0"
  shows "\<exists>m. trampoline env b = Some (img_start b, m) \<and>
    mem_read m (img_lo b) (unat (mem_size (boot_meta b))) = image b"
  using trampoline_image [OF assms(1,2)] assms(3-5) by (simp add: reloc_aligned_def)

theorem trampoline_starts_image_witness:
  "\<exists>m. trampoline small_env small_ready = Some (0x8000, m) \<and> mem_read m 0x8000 8 = image small_ready"
  using trampoline_starts_image [OF boot_placed_small]
  by (simp add: small_ready_def small_boot_def small_meta_def img_lo_def)

text \<open>
  C29: The stub's copy never ends when the number of bytes to relocate is not a multiple of four: the
  fine loop subtracts four until the counter is exactly zero.
\<close>

theorem fastreloc_never_ends:
  assumes "unat r2 mod 4 \<noteq> 0"
  shows "fastreloc r0 r1 r2 m = None"
proof -
  note s = fastreloc_stuck_step [OF assms]
  have "copy_loop 4 (r2 AND 15) a b m' = None" for a b m'
    using copy_loop_Some_mod_4 [of 4 "r2 AND 15" a b m'] s
    by (cases "copy_loop 4 (r2 AND 15) a b m'") auto
  then show ?thesis
    using s unfolding fastreloc_def Let_def if_not_P [OF conjunct1 [OF s]]
    by (auto split: Option.bind_splits)
qed

theorem fastreloc_never_ends_witness: "fastreloc 0x8000 0x9000 6 (\<lambda>_. 0) = None"
  by (rule fastreloc_never_ends) simp

text \<open>
  C30: Every block that \<open>xz_malloc_stub\<close> returns is aligned to eight bytes and lies inside the arena,
  and the arena pointer moves past its end, so that successive blocks are disjoint.
\<close>

theorem xz_malloc_stub_safe:
  assumes "arena_ok arena ptr" "xz_malloc_stub arena sz ptr = (Some p, ptr')"
  shows "arena \<le> p \<and> unat p mod 8 = 0 \<and> unat p + unat sz \<le> unat ptr' \<and>
    unat ptr' \<le> unat arena + unat XZ_ARENA_SIZE \<and> arena_ok arena ptr'"
  using xz_malloc_stub_ok [OF assms] assms(1) by (auto simp: arena_ok_def)

theorem xz_malloc_stub_safe_witness:
  "xz_malloc_stub 0x10000 100 0x10008 = (Some 0x10008, 0x10070) \<and> arena_ok 0x10000 0x10070"
proof -
  have e: "xz_malloc_stub 0x10000 100 0x10008 = (Some 0x10008, 0x10070)"
    by (simp add: xz_malloc_stub_def XZ_ARENA_SIZE_def)
  have "arena_ok 0x10000 0x10008" by (simp add: arena_ok_def XZ_ARENA_SIZE_def)
  from xz_malloc_stub_safe [OF this e] e show ?thesis by blast
qed

end
