(* ===== verification/Host.thy ===== *)
theory Host
  imports Boot_Loader
begin

text \<open>
  The host side of the uploader, \<^verbatim>\<open>pup/host.c\<close>: the command line, the recognition of compressed
  and ELF files, the marshalling of chunks and \<open>main\<close>, which builds the metadata and runs the
  protocol machine. Files, devices and liblzma are arguments. A result \<open>None\<close> is a call of
  \<^verbatim>\<open>exit(1)\<close>; messages are not modelled.
\<close>

section \<open>Options\<close>

datatype find_status = FIND_OK | FIND_NXDEV | FIND_NOT_CHR | FIND_OPEN_FAIL

definition DBG_NONE :: nat where "DBG_NONE = 0"
definition DBG_MIN :: nat where "DBG_MIN = 1"
definition DBG_FULL :: nat where "DBG_FULL = 2"

record opts_t =
  inp_path :: string
  inp_fd :: int
  dev_fd :: int
  opt_load_addr :: u64
  is_pty :: bool
  headless :: bool
  con_baud :: u32
  debug :: nat
  opt_retries :: u8
  print_usage :: bool
  reset_board :: bool

definition opts_init :: opts_t where
  "opts_init = \<lparr>inp_path = ''<UNINIT>'', inp_fd = -1, dev_fd = -1, opt_load_addr = - 1, is_pty = False,
     headless = False, con_baud = 115200, debug = DBG_MIN, opt_retries = 10, print_usage = False,
     reset_board = False\<rparr>"

text \<open>What the host system offers: finding a serial device, and opening a file (\<open>-1\<close> is a failure).\<close>

record host_sys =
  find_serial_device :: "string option \<Rightarrow> find_status \<times> int"
  open_rdonly :: "string \<Rightarrow> int"
  reset_device :: "int \<Rightarrow> bool"

section \<open>Numbers on the command line\<close>

text \<open>
  \<^verbatim>\<open>strtoull\<close> with base 0: the value, the rest of the string and whether \<^verbatim>\<open>errno\<close> is set. The
  binary prefix that C23 adds is not modelled.
\<close>

definition digit_value :: "char \<Rightarrow> nat" where
  "digit_value c = (let n = of_char c in
     if 48 \<le> n \<and> n \<le> 57 then n - 48 else if 97 \<le> n \<and> n \<le> 122 then n - 87
     else if 65 \<le> n \<and> n \<le> 90 then n - 55 else 36)"

definition is_space :: "char \<Rightarrow> bool" where
  "is_space c = (let n = of_char c :: nat in n = 32 \<or> 9 \<le> n \<and> n \<le> 13)"

definition digits_value :: "nat \<Rightarrow> string \<Rightarrow> nat" where
  "digits_value radix ds = fold (\<lambda>c v. v * radix + digit_value c) ds 0"

definition number_base :: "string \<Rightarrow> nat \<times> string" where
  "number_base s =
     (if take 1 s = ''0'' then
        (if take 1 (drop 1 s) \<in> {''x'', ''X''} \<and> drop 2 s \<noteq> [] \<and> digit_value (hd (drop 2 s)) < 16
         then (16, drop 2 s) else (8, s))
      else (10, s))"

definition strtoull :: "string \<Rightarrow> u64 \<times> string \<times> bool" where
  "strtoull s =
     (let t = dropWhile is_space s; neg = (take 1 t = ''-'');
          t = (if neg \<or> take 1 t = ''+'' then drop 1 t else t);
          (radix, t) = number_base t;
          ds = takeWhile (\<lambda>c. digit_value c < radix) t; rest = dropWhile (\<lambda>c. digit_value c < radix) t
      in if ds = [] then (0, s, False)
         else let v = digits_value radix ds
              in if 2 ^ 64 \<le> v then (- 1, rest, True)
                 else ((if neg then - of_nat v else of_nat v), rest, False))"

section \<open>The command line\<close>

datatype opt_state = OPT_NONE | OPT_DEV | OPT_LOAD | OPT_CON_BAUD | OPT_RETRIES

fun opt_code :: "opt_state \<Rightarrow> nat" where
  "opt_code OPT_NONE = 0"
| "opt_code OPT_DEV = 1"
| "opt_code OPT_LOAD = 2"
| "opt_code OPT_CON_BAUD = 3"
| "opt_code OPT_RETRIES = 4"

text \<open>The argument of an option.\<close>

definition parse_number :: "opt_state \<Rightarrow> string \<Rightarrow> opts_t \<Rightarrow> opts_t" where
  "parse_number cur a opts =
     (let (nv, rest, errno) = strtoull a
      in if rest \<noteq> [] then opts\<lparr>print_usage := True\<rparr>
         else if errno then opts\<lparr>print_usage := True\<rparr>
         else if cur = OPT_LOAD then opts\<lparr>opt_load_addr := nv\<rparr>
         else if cur = OPT_CON_BAUD then
           (if 0xFFFFFFFF < nv then opts\<lparr>print_usage := True\<rparr> else opts\<lparr>con_baud := ucast nv\<rparr>)
         else if cur = OPT_RETRIES then
           (if 0xFF < nv then opts\<lparr>print_usage := True\<rparr> else opts\<lparr>opt_retries := ucast nv\<rparr>)
         else opts)"

text \<open>An option, or the input file.\<close>

definition parse_option :: "host_sys \<Rightarrow> string \<Rightarrow> opts_t \<Rightarrow> opt_state \<times> opts_t" where
  "parse_option sys a opts =
     (if a = ''-h'' \<or> a = ''--help'' then (OPT_NONE, opts\<lparr>print_usage := True\<rparr>)
      else if a = ''-H'' \<or> a = ''--headless'' then (OPT_NONE, opts\<lparr>headless := True\<rparr>)
      else if a = ''-p'' \<or> a = ''--pty'' then (OPT_NONE, opts\<lparr>is_pty := True\<rparr>)
      else if a = ''-B'' \<or> a = ''--console-baud'' then (OPT_CON_BAUD, opts)
      else if a = ''-a'' \<or> a = ''--addr'' then (OPT_LOAD, opts)
      else if a = ''-d'' \<or> a = ''--dev'' then (OPT_DEV, opts)
      else if a = ''-D'' \<or> a = ''--debug'' then (OPT_NONE, opts\<lparr>debug := DBG_FULL\<rparr>)
      else if a = ''-q'' \<or> a = ''--quiet'' then (OPT_NONE, opts\<lparr>debug := DBG_NONE\<rparr>)
      else if a = ''-R'' \<or> a = ''--retries'' then (OPT_NONE, opts\<lparr>debug := opt_code OPT_RETRIES\<rparr>)
      else if a = ''-r'' \<or> a = ''--reset'' then (OPT_NONE, opts\<lparr>reset_board := True\<rparr>)
      else if inp_fd opts = -1 then
        let opts = opts\<lparr>inp_path := a\<rparr>; r = open_rdonly sys a
        in (OPT_NONE, if r = -1 then opts\<lparr>print_usage := True\<rparr> else opts\<lparr>inp_fd := r\<rparr>)
      else (OPT_NONE, opts\<lparr>print_usage := True\<rparr>))"

definition parse_arg :: "host_sys \<Rightarrow> string \<Rightarrow> opt_state \<times> opts_t \<Rightarrow> (opt_state \<times> opts_t) option" where
  "parse_arg sys a st =
     (let (cur, opts) = st
      in if cur = OPT_NONE then Some (parse_option sys a opts)
         else if cur = OPT_DEV then
           (let (fsta, fd) = find_serial_device sys (Some a)
            in if fsta = FIND_OK then Some (OPT_NONE, opts\<lparr>dev_fd := fd\<rparr>) else None)
         else Some (OPT_NONE, parse_number cur a opts))"

fun parse_args :: "host_sys \<Rightarrow> string list \<Rightarrow> opt_state \<times> opts_t \<Rightarrow> (opt_state \<times> opts_t) option" where
  "parse_args sys [] st = Some st"
| "parse_args sys (a # as) st = do { st \<leftarrow> parse_arg sys a st; parse_args sys as st }"

text \<open>The arguments after the program's name.\<close>

definition parse_opts :: "host_sys \<Rightarrow> string list \<Rightarrow> opts_t option" where
  "parse_opts sys args = do {
     (cur, opts) \<leftarrow> parse_args sys args (OPT_NONE, opts_init\<lparr>print_usage := (args = [])\<rparr>);
     Some (if cur \<noteq> OPT_NONE then opts\<lparr>print_usage := True\<rparr> else opts)
   }"

section \<open>Progress output\<close>

text \<open>The state is the number of chunks and the last shown length; the output is a string.\<close>

definition progress_bar :: "u32 \<Rightarrow> string" where
  "progress_bar show = map (\<lambda>i. if of_nat i < show then CHR ''='' else if of_nat i = show then CHR ''>'' else CHR '' '') [0..<80]"

definition hook_sent_chunk :: "nat \<Rightarrow> u32 \<Rightarrow> u32 \<times> u32 \<Rightarrow> string \<times> (u32 \<times> u32)" where
  "hook_sent_chunk dbg no st =
     (let (total_chunks, last_show) = st; show = 80 * (no + 1) div total_chunks;
          out = (if show \<noteq> last_show \<and> dbg = DBG_MIN then char_of (13 :: nat) # ''['' @ progress_bar show @ '']''
                 else if dbg = DBG_FULL then ''['' @ progress_bar show @ '']'' @ [char_of (10 :: nat)] else [])
      in (out, total_chunks, show))"

text \<open>What the hooks for the end of the chunks and for passed-through bytes print.\<close>

definition hook_all_chunks :: "nat \<Rightarrow> string" where
  "hook_all_chunks dbg = (if dbg = DBG_MIN then [char_of (10 :: nat)] else [])"

definition hex_digit :: "nat \<Rightarrow> char" where
  "hex_digit n = char_of (if n < 10 then 48 + n else 87 + n)"

definition hook_passthru :: "nat \<Rightarrow> u8 \<Rightarrow> string" where
  "hook_passthru dbg c =
     (let n = unat c; ch = char_of n
      in if dbg < DBG_FULL then []
         else if (32 \<le> n \<and> n < 127) \<or> c = 0x1b \<or> is_space ch \<or> 0x80 < c then [ch]
         else ''<'' @ (if n < 16 then [] else [hex_digit (n div 16)]) @ [hex_digit (n mod 16)] @ ''>'')"

section \<open>Reading the input\<close>

text \<open>
  The CRC over the results of the reads, which end with an empty one; \<open>None\<close> in the list is a failed
  read.
\<close>

fun input_crc :: "u32 \<Rightarrow> u8 list option list \<Rightarrow> u32 option" where
  "input_crc crc [] = Some crc"
| "input_crc crc (None # rs) = None"
| "input_crc crc (Some bs # rs) = (if bs = [] then Some crc else input_crc (crc32 crc bs) rs)"

definition STAGING_SIZE :: nat where "STAGING_SIZE = 0xffff"

text \<open>The marshalling function of the protocol machine: chunk \<open>chunk_no\<close> of the file.\<close>

definition platform_marshal :: "u8 list \<Rightarrow> u32 \<Rightarrow> u8 list option option" where
  "platform_marshal file chunk_no =
     (let r = take STAGING_SIZE (drop (unat chunk_no * STAGING_SIZE) file)
      in if r = [] then None else Some (Some r))"

text \<open>
  \<^verbatim>\<open>host_pread\<close> ignores its arguments but for the buffer: it reads the first six bytes of the file. The
  result is what it stores and how many bytes of it lie past a buffer of \<open>cap\<close> bytes.
\<close>

definition host_pread :: "u8 list \<Rightarrow> nat \<Rightarrow> u8 list \<times> nat" where
  "host_pread file cap = (let bs = take 6 file in (bs, length bs - cap))"

definition XZ_SIG :: "u8 list" where "XZ_SIG = [0xFD, 0x37, 0x7A, 0x58, 0x5A, 0x00]"

definition is_xz_file :: "u8 list \<Rightarrow> bool" where
  "is_xz_file file = (let (magic, over) = host_pread file 6 in if length magic < 6 then False else magic = XZ_SIG)"

section \<open>Decompression on the host\<close>

text \<open>
  liblzma is an argument: a step takes the decoder's state, the input available, whether the end of
  the input was reached and the room for output, and gives the return code, the new state, the
  number of bytes consumed and the output.
\<close>

datatype lzma_ret = LZMA_OK | LZMA_STREAM_END | LZMA_SEEK_NEEDED nat | LZMA_ERROR

record 's lzma =
  lzma_stream_decoder :: "'s option"
  lzma_file_info_decoder :: "nat \<Rightarrow> 's option"
  lzma_code :: "'s \<Rightarrow> u8 list \<Rightarrow> bool \<Rightarrow> nat \<Rightarrow> lzma_ret \<times> 's \<times> nat \<times> u8 list"
  lzma_index_uncompressed_size :: "'s \<Rightarrow> nat"

definition BUFSIZ :: nat where "BUFSIZ = 8192"

text \<open>Refilling the input buffer: the buffer, the position in the file and whether the end was read.\<close>

definition refill :: "u8 list \<Rightarrow> u8 list \<times> nat \<times> bool \<Rightarrow> u8 list \<times> nat \<times> bool" where
  "refill file st =
     (let (inbuf, pos, finish) = st
      in if inbuf = [] then let bs = take BUFSIZ (drop pos file) in (bs, pos + length bs, finish \<or> bs = []) else st)"

text \<open>
  The loop of \<^verbatim>\<open>decompress_xz_partial\<close>. The outer option is a loop without end; the inner one an exit;
  the result is whether \<open>nbytes\<close> bytes were decompressed, and the output.
\<close>

partial_function (option) decompress_loop ::
  "'s lzma \<Rightarrow> u8 list \<Rightarrow> nat \<Rightarrow> 's \<Rightarrow> u8 list \<times> nat \<times> bool \<Rightarrow> u8 list \<Rightarrow> (bool \<times> u8 list) option option" where
  "decompress_loop lz file nbytes s st outbuf =
     (case refill file st of (inbuf, pos, finish) \<Rightarrow>
        (case lzma_code lz s inbuf finish (nbytes - length outbuf) of (r, s, used, out) \<Rightarrow>
           let outbuf = outbuf @ out
           in if length outbuf = nbytes then Some (Some (True, outbuf))
              else case r of
                LZMA_STREAM_END \<Rightarrow> Some (Some (False, outbuf))
              | LZMA_OK \<Rightarrow> decompress_loop lz file nbytes s (drop used inbuf, pos, finish) outbuf
              | LZMA_SEEK_NEEDED p \<Rightarrow> decompress_loop lz file nbytes s ([], p, finish) outbuf
              | LZMA_ERROR \<Rightarrow> Some None))"

declare decompress_loop.simps [code]

definition decompress_xz_partial :: "'s lzma \<Rightarrow> u8 list \<Rightarrow> nat \<Rightarrow> (bool \<times> u8 list) option option" where
  "decompress_xz_partial lz file nbytes =
     (case lzma_stream_decoder lz of None \<Rightarrow> Some None
      | Some s \<Rightarrow> decompress_loop lz file nbytes s ([], 0, False) [])"

text \<open>
  Whether the file is an ELF file. The array \<^verbatim>\<open>magic\<close> has four bytes and \<^verbatim>\<open>host_pread\<close> stores up to six. In C the
  bytes past the array make the behaviour undefined; in a compiled program they do no harm when the stack frame leaves as
  many bytes behind the array unused. How many it leaves is the argument \<open>slack\<close>, and the result is \<open>None\<close> when they are
  not enough; with \<open>slack\<close> 0 that is what the standard says.
\<close>

definition is_elf_file :: "nat \<Rightarrow> 's lzma \<Rightarrow> u8 list \<Rightarrow> u32 \<Rightarrow> bool option option" where
  "is_elf_file slack lz file compression =
     (if compression = COMPRESS_NONE then
        (let (magic, over) = host_pread file 4
         in if slack < over then None
            else Some (Some (if length magic < 4 then False else take 4 magic = ELFMAG)))
      else
        case decompress_xz_partial lz file 4 of
          None \<Rightarrow> None
        | Some None \<Rightarrow> Some None
        | Some (Some (ok, magic)) \<Rightarrow> Some (Some (ok \<and> magic = ELFMAG)))"

partial_function (option) file_info_loop :: "'s lzma \<Rightarrow> u8 list \<Rightarrow> 's \<Rightarrow> u8 list \<Rightarrow> nat \<Rightarrow> nat option option" where
  "file_info_loop lz file s inbuf pos =
     (case refill file (inbuf, pos, False) of (inbuf, pos, _) \<Rightarrow>
        (case lzma_code lz s inbuf False 0 of (r, s, used, out) \<Rightarrow>
           (case r of
              LZMA_OK \<Rightarrow> file_info_loop lz file s (drop used inbuf) pos
            | LZMA_SEEK_NEEDED p \<Rightarrow> file_info_loop lz file s [] p
            | LZMA_STREAM_END \<Rightarrow> Some (Some (lzma_index_uncompressed_size lz s))
            | LZMA_ERROR \<Rightarrow> Some None)))"

declare file_info_loop.simps [code]

definition xz_uncompressed_size :: "'s lzma \<Rightarrow> u8 list \<Rightarrow> nat option option" where
  "xz_uncompressed_size lz file =
     (case lzma_file_info_decoder lz (length file) of None \<Rightarrow> Some None
      | Some s \<Rightarrow> file_info_loop lz file s [] 0)"

section \<open>The line\<close>

text \<open>The configuration of \<^verbatim>\<open>pup/config.h\<close>, shared by host and device, at three million baud.\<close>

definition BAUD_RATE :: u32 where "BAUD_RATE = 3000000"

definition pup_config :: config_t where
  "pup_config = \<lparr>baud = BAUD_RATE, symbol_timeout = 1000,
     resend_timeout = (if BAUD_RATE < 1500000 then 80000 else 70000),
     reset_timeout = (if BAUD_RATE < 1500000 then 300000 else 500000), heartbeat_interval = 100000\<rparr>"

section \<open>Writing to the device\<close>

text \<open>
  The loop over the results of \<^verbatim>\<open>write\<close>: \<open>None\<close> is an error, a number is how many bytes were taken.
  The result is \<open>None\<close> when a write fails or the results end before everything is written.
\<close>

fun host_write :: "nat option list \<Rightarrow> u8 list \<Rightarrow> u8 list \<Rightarrow> u8 list option" where
  "host_write rs [] out = Some out"
| "host_write [] p out = None"
| "host_write (None # rs) p out = None"
| "host_write (Some r # rs) p out = host_write rs (drop r p) (out @ take r p)"

section \<open>The program\<close>

text \<open>
  The metadata of an input file, with the outer option as in \<open>is_elf_file\<close>. The size of an XZ file is that of its contents, and the default load
  address is set for flat binaries only.
\<close>

definition host_meta :: "nat \<Rightarrow> 's lzma \<Rightarrow> u8 list \<Rightarrow> u8 list option list \<Rightarrow> opts_t \<Rightarrow> meta_t option option" where
  "host_meta slack lz file reads opts =
     (case input_crc 0 reads of
        None \<Rightarrow> Some None
      | Some inp_crc \<Rightarrow>
          let compress = (if is_xz_file file then COMPRESS_XZ else COMPRESS_NONE)
          in case (if is_xz_file file then xz_uncompressed_size lz file else Some (Some (length file))) of
               None \<Rightarrow> None
             | Some None \<Rightarrow> Some None
             | Some (Some inp_size) \<Rightarrow>
                 (case is_elf_file slack lz file compress of
                    None \<Rightarrow> None
                  | Some None \<Rightarrow> Some None
                  | Some (Some elf) \<Rightarrow>
                      if elf \<and> opt_load_addr opts \<noteq> - 1 then Some None
                      else Some (Some \<lparr>image_format = (if elf then IMAGE_ELF else IMAGE_FLAT_BINARY),
                        compression_type = compress, wire_size = of_nat (length file), mem_size = of_nat inp_size,
                        mem_crc32 = inp_crc,
                        load_addr = (if elf then 0 else if opt_load_addr opts = - 1 then 0x8000 else opt_load_addr opts)\<rparr>)))"

datatype host_exit = EXIT_SUCCESS | EXIT_FAILURE | EXEC_PICOCOM int

text \<open>
  \<^verbatim>\<open>main\<close>: the outer option is a loop without end, or undefined behaviour in \<open>is_elf_file\<close>. The machine runs for \<open>n\<close> control points on the
  link; the result has the exit code, once there is one, and the machine's last state. Without an
  input file the call of \<^verbatim>\<open>fstat\<close> fails. Unless headless, a successful upload ends with starting the
  terminal program at the console's baud rate, printed as a signed number.
\<close>

definition upload_exit :: "opts_t \<Rightarrow> ul \<Rightarrow> host_exit option" where
  "upload_exit opts u =
     (case ul_pc u of
        UL_Done UPLOAD_OK \<Rightarrow> Some (if headless opts then EXIT_SUCCESS else EXEC_PICOCOM (sint (con_baud opts)))
      | UL_Done UPLOAD_TIMEOUT \<Rightarrow> Some EXIT_FAILURE
      | UL_Done UPLOAD_FAILED \<Rightarrow> Some EXIT_FAILURE
      | UL_Exit \<Rightarrow> Some EXIT_FAILURE
      | _ \<Rightarrow> None)"

definition host_device :: "host_sys \<Rightarrow> opts_t \<Rightarrow> opts_t option" where
  "host_device sys opts =
     (if dev_fd opts = -1 then
        (let (fsta, fd) = find_serial_device sys None
         in if fsta = FIND_OK then Some (opts\<lparr>dev_fd := fd\<rparr>) else None)
      else Some opts)"

definition host_main ::
  "host_sys \<Rightarrow> nat \<Rightarrow> 's lzma \<Rightarrow> config_t \<Rightarrow> u8 list \<Rightarrow> string list \<Rightarrow> u8 list \<Rightarrow> u8 list option list \<Rightarrow> nat \<Rightarrow> io \<Rightarrow>
    (host_exit option \<times> ul option) option" where
  "host_main sys slack lz config pad args file reads n s =
     (case parse_opts sys args of
        None \<Rightarrow> Some (Some EXIT_FAILURE, None)
      | Some opts \<Rightarrow>
          if print_usage opts then Some (Some EXIT_FAILURE, None)
          else case host_device sys opts of
            None \<Rightarrow> Some (Some EXIT_FAILURE, None)
          | Some opts \<Rightarrow>
              if reset_board opts \<and> \<not> reset_device sys (dev_fd opts) then Some (Some EXIT_FAILURE, None)
              else if inp_fd opts = -1 then Some (Some EXIT_FAILURE, None)
              else case host_meta slack lz file reads opts of
                None \<Rightarrow> None
              | Some None \<Rightarrow> Some (Some EXIT_FAILURE, None)
              | Some (Some meta) \<Rightarrow>
                  (case fsm_upload config (meta_bytes pad meta) (platform_marshal file) (opt_retries opts) n s of
                     None \<Rightarrow> None
                   | Some u \<Rightarrow> Some (upload_exit opts u, Some u)))"

end
