(* ===== verification/Host_Correct.thy ===== *)
theory Host_Correct
  imports Host
begin

text \<open>
  Correctness of the host: the chunks it serves are the input file, the metadata it sends describe
  that file, and the command line parser never changes the number of retries.
\<close>

section \<open>The chunks of a file\<close>

definition file_chunks :: "u8 list \<Rightarrow> u8 list list" where
  "file_chunks file =
     map (\<lambda>k. take STAGING_SIZE (drop (k * STAGING_SIZE) file)) [0..<(length file + 0xfffe) div 0xffff]"

lemma concat_blocks:
  "concat (map (\<lambda>k. take c (drop (k * c) xs)) [0..<n]) = take (n * c) xs"
proof (induction n)
  case (Suc n)
  have "take (n * c + c) xs = take (n * c) xs @ take c (drop (n * c) xs)" by (rule take_add)
  with Suc show ?case by (simp add: add.commute)
qed simp

lemma length_file_chunks: "length (file_chunks file) = (length file + 0xfffe) div 0xffff"
  by (simp add: file_chunks_def)

lemma concat_file_chunks [simp]: "concat (file_chunks file) = file"
proof -
  have "length file \<le> ((length file + 0xfffe) div 0xffff) * STAGING_SIZE"
    unfolding STAGING_SIZE_def using dividend_less_div_times [of "0xffff" "length file + 0xfffe"] by linarith
  then show ?thesis
    unfolding file_chunks_def by (subst concat_blocks) (simp_all add: STAGING_SIZE_def)
qed

lemma file_chunk_length: "x \<in> set (file_chunks file) \<Longrightarrow> length x < 65536"
  by (auto simp: file_chunks_def STAGING_SIZE_def)

lemma chunks_of_length:
  assumes "length file < 2 ^ 31"
  shows "unat (chunks_of (of_nat (length file))) = length (file_chunks file)"
proof -
  have "unat (of_nat (length file) + 0xfffe :: u32) = length file + 0xfffe"
    using assms by (simp add: unat_word_ariths unat_of_nat)
  then show ?thesis by (simp add: chunks_of_def length_file_chunks unat_div)
qed

lemma chunk_start: "k < (n + 0xfffe) div 0xffff \<longleftrightarrow> k * 0xffff < n" for k n :: nat
proof -
  have "k < (n + 0xfffe) div 0xffff \<longleftrightarrow> (k + 1) * 0xffff \<le> n + 0xfffe"
    by (simp only: Suc_eq_plus1 [symmetric] Suc_le_eq [symmetric] less_eq_div_iff_mult_less_eq zero_less_numeral)
  then show ?thesis by auto
qed

lemma platform_marshal_eq:
  "platform_marshal file k =
    (if unat k < length (file_chunks file) then Some (Some (file_chunks file ! unat k)) else None)"
proof (cases "unat k < length (file_chunks file)")
  case True
  then have "unat k * STAGING_SIZE < length file" "unat k < (length file + 0xfffe) div 0xffff"
    by (simp_all only: length_file_chunks chunk_start STAGING_SIZE_def)
  with True show ?thesis by (simp add: platform_marshal_def file_chunks_def STAGING_SIZE_def)
next
  case False
  then have "length file \<le> unat k * STAGING_SIZE"
    by (simp only: length_file_chunks chunk_start STAGING_SIZE_def not_less)
  with False show ?thesis by (simp add: platform_marshal_def)
qed

section \<open>Metadata\<close>

text \<open>The results of the reads of a whole file: non-empty pieces, and an empty one at the end.\<close>

definition reads_of :: "u8 list \<Rightarrow> u8 list option list \<Rightarrow> bool" where
  "reads_of file reads \<longleftrightarrow> (\<exists>xs. reads = map Some (xs @ [[]]) \<and> [] \<notin> set xs \<and> concat xs = file)"

lemma input_crc_pieces: "[] \<notin> set xs \<Longrightarrow> input_crc crc (map Some (xs @ [[]])) = Some (crc32 crc (concat xs))"
  by (induction xs arbitrary: crc) (auto simp: crc32_append crc32_fold)

lemma input_crc_reads: "reads_of file reads \<Longrightarrow> input_crc 0 reads = Some (crc32 0 file)"
  unfolding reads_of_def using input_crc_pieces by blast

text \<open>A file that is sent as it is: neither compressed nor an ELF file.\<close>

definition plain_file :: "u8 list \<Rightarrow> bool" where
  "plain_file file \<longleftrightarrow> take 6 file \<noteq> XZ_SIG \<and> take 4 file \<noteq> ELFMAG"

definition plain_meta :: "u8 list \<Rightarrow> u64 \<Rightarrow> meta_t" where
  "plain_meta file addr = \<lparr>image_format = IMAGE_FLAT_BINARY, compression_type = COMPRESS_NONE,
     wire_size = of_nat (length file), mem_size = of_nat (length file), mem_crc32 = crc32 0 file,
     load_addr = (if addr = - 1 then 0x8000 else addr)\<rparr>"

lemma is_xz_file_iff: "is_xz_file file \<longleftrightarrow> take 6 file = XZ_SIG"
  by (auto simp: is_xz_file_def host_pread_def XZ_SIG_def)

lemma is_elf_file_plain:
  "2 \<le> slack \<Longrightarrow> is_elf_file slack lz file COMPRESS_NONE = Some (Some (take 4 file = ELFMAG))"
proof -
  have "take 4 file = ELFMAG \<Longrightarrow> 4 \<le> length file"
    by (drule arg_cong [of _ _ length]) (simp add: ELFMAG_def)
  then show "2 \<le> slack \<Longrightarrow> ?thesis"
    by (auto simp: is_elf_file_def host_pread_def min_def)
qed

lemma host_meta_plain:
  assumes "reads_of file reads" "plain_file file" "2 \<le> slack"
  shows "host_meta slack lz file reads opts = Some (Some (plain_meta file (opt_load_addr opts)))"
  using assms
  by (simp add: host_meta_def input_crc_reads is_xz_file_iff is_elf_file_plain plain_file_def plain_meta_def)

text \<open>
  By the standard alone \<^verbatim>\<open>main\<close> has no defined behaviour for any input file of five bytes or more that is not compressed.
\<close>

lemma host_meta_overruns:
  assumes "take 6 file \<noteq> XZ_SIG" "5 \<le> length file" "input_crc 0 reads = Some c"
  shows "host_meta 0 lz file reads opts = None"
  using assms by (auto simp: host_meta_def is_xz_file_iff is_elf_file_def host_pread_def)

section \<open>The retries\<close>

lemma parse_number_retries: "cur \<noteq> OPT_RETRIES \<Longrightarrow> opt_retries (parse_number cur a opts) = opt_retries opts"
  by (simp add: parse_number_def split_def Let_def)

lemma parse_option_retries:
  "opt_retries (snd (parse_option sys a opts)) = opt_retries opts \<and> fst (parse_option sys a opts) \<noteq> OPT_RETRIES"
  unfolding parse_option_def Let_def by (simp split: if_split)

lemma parse_arg_retries:
  assumes "parse_arg sys a (cur, opts) = Some (cur', opts')" "cur \<noteq> OPT_RETRIES"
  shows "cur' \<noteq> OPT_RETRIES \<and> opt_retries opts' = opt_retries opts"
proof (cases "cur = OPT_NONE")
  case True
  with assms(1) have "parse_option sys a opts = (cur', opts')" by (simp add: parse_arg_def)
  with parse_option_retries [of sys a opts] show ?thesis by simp
next
  case False
  with assms parse_number_retries [OF assms(2), of a opts] show ?thesis
    by (auto simp: parse_arg_def split: if_splits prod.splits)
qed

lemma parse_args_retries:
  "parse_args sys as (cur, opts) = Some (cur', opts') \<Longrightarrow> cur \<noteq> OPT_RETRIES \<Longrightarrow> opt_retries opts' = opt_retries opts"
proof (induction as arbitrary: cur opts)
  case (Cons a as)
  from Cons.prems(1) obtain c o1 where "parse_arg sys a (cur, opts) = Some (c, o1)"
    "parse_args sys as (c, o1) = Some (cur', opts')"
    by (auto split: Option.bind_splits)
  with parse_arg_retries Cons.IH Cons.prems(2) show ?case by metis
qed simp

section \<open>Properties\<close>

text \<open>
  C25: The chunks that the host serves are the file: the chunk with number \<open>k\<close> exists exactly when
  \<open>k\<close> is below the number of chunks that the device computes from the announced size, every other
  request ends the program, and the chunks in order are the whole file.
\<close>

theorem marshal_serves_file:
  assumes "length file < 2 ^ 31"
  shows "concat (map (\<lambda>k. the (the (platform_marshal file (of_nat k))))
      [0..<unat (chunks_of (wire_size (plain_meta file addr)))]) = file \<and>
    (\<forall>k. platform_marshal file k \<noteq> None \<longleftrightarrow> k < chunks_of (wire_size (plain_meta file addr)))"
proof -
  let ?n = "length (file_chunks file)"
  have n: "unat (chunks_of (wire_size (plain_meta file addr))) = ?n"
    using chunks_of_length [OF assms] by (simp add: plain_meta_def)
  have "?n < 2 ^ 32" unfolding n [symmetric] using unsigned_less [of "chunks_of (wire_size (plain_meta file addr))", where 'a = nat] by simp
  then have "map (\<lambda>k. the (the (platform_marshal file (of_nat k)))) [0..<?n] = file_chunks file"
    by (intro nth_equalityI) (simp_all add: platform_marshal_eq unat_of_nat)
  with n show ?thesis by (simp add: platform_marshal_eq word_less_nat_alt)
qed

theorem marshal_serves_file_witness:
  "concat (map (\<lambda>k. the (the (platform_marshal [1, 2, 3] (of_nat k))))
      [0..<unat (chunks_of (wire_size (plain_meta [1, 2, 3] 0)))]) = [1, 2, 3] \<and> platform_marshal [1, 2, 3] 1 = None"
proof -
  have "length [1, 2, 3 :: u8] < 2 ^ 31" by simp
  from marshal_serves_file [OF this, of 0] have
    "concat (map (\<lambda>k. the (the (platform_marshal [1, 2, 3] (of_nat k))))
      [0..<unat (chunks_of (wire_size (plain_meta [1, 2, 3] 0)))]) = [1, 2, 3]"
    "platform_marshal [1, 2, 3] 1 \<noteq> None \<longleftrightarrow> 1 < chunks_of (wire_size (plain_meta [1, 2, 3] 0))" by blast+
  then show ?thesis by (simp add: plain_meta_def chunks_of_def)
qed

text \<open>
  The number of retries cannot be chosen: whatever the command line, it stays at its initial
  value of ten, because the option for it sets the debug level instead of expecting a number.
\<close>

theorem retries_option_ignored:
  assumes "parse_opts sys args = Some opts"
  shows "opt_retries opts = 10"
proof -
  from assms obtain cur o1 where
    "parse_args sys args (OPT_NONE, opts_init\<lparr>print_usage := (args = [])\<rparr>) = Some (cur, o1)"
    "opts = (if cur \<noteq> OPT_NONE then o1\<lparr>print_usage := True\<rparr> else o1)"
    by (auto simp: parse_opts_def split: Option.bind_splits)
  then show ?thesis using parse_args_retries by (fastforce simp: opts_init_def)
qed

definition quiet_sys :: host_sys where
  "quiet_sys = \<lparr>find_serial_device = \<lambda>_. (FIND_OK, 4), open_rdonly = \<lambda>p. if p = ''f'' then 3 else -1,
     reset_device = \<lambda>_. True\<rparr>"

theorem retries_option_ignored_witness:
  "map_option (\<lambda>opts. (opt_retries opts, debug opts)) (parse_opts quiet_sys [''-R'', ''f'']) = Some (10, 4)"
proof -
  have "parse_opts quiet_sys [''-R'', ''f''] =
      Some (opts_init\<lparr>debug := 4, inp_path := ''f'', inp_fd := 3\<rparr>)"
    by (simp add: parse_opts_def parse_arg_def parse_option_def quiet_sys_def opts_init_def)
  from retries_option_ignored [OF this] this show ?thesis by simp
qed

end
