(* ===== verification/Upload_Session.thy ===== *)
theory Upload_Session
  imports Boot_Start Host_Correct
begin

text \<open>
  The two programs together: the uploader of the host and the boot loader of the device, each reading
  what the other writes, bring a file from the host into the device's memory and start it there.
\<close>

section \<open>The check of the image takes the same heartbeats whatever the state of the line\<close>

definition uniform :: "(io \<Rightarrow> u32 \<times> u32 \<times> io) \<Rightarrow> bool" where
  "uniform F \<longleftrightarrow> (\<exists>c f k. \<forall>s. F s = (c, f, beats k s))"

lemma uniform_start: "uniform (\<lambda>s. (c, f, s))"
  unfolding uniform_def by (intro exI [of _ c] exI [of _ f] exI [of _ 0]) simp

lemma uniform_stage:
  assumes "uniform F" "\<And>c f. uniform (G c f)"
  shows "uniform (\<lambda>s. case F s of (c, f, s) \<Rightarrow> G c f s)"
proof -
  from assms(1) obtain c f k where F: "\<And>s. F s = (c, f, beats k s)" by (auto simp: uniform_def)
  from assms(2) [of c f] obtain c' f' k' where G: "\<And>s. G c f s = (c', f', beats k' s)"
    by (auto simp: uniform_def)
  show ?thesis
    unfolding uniform_def F by (intro exI [of _ c'] exI [of _ f'] exI [of _ "k + k'"]) (simp add: G beats_beats)
qed

lemma uniform_if: "uniform F \<Longrightarrow> uniform G \<Longrightarrow> uniform (\<lambda>s. if P then F s else G s)"
  by (cases P) simp_all

lemma uniform_crc: "uniform (\<lambda>s. case crc_with_heartbeat m c a e s of (crc, s) \<Rightarrow> (crc, f, s))"
  unfolding uniform_def crc_with_heartbeat_eq by auto

lemma uniform_last:
  "uniform (\<lambda>s. case (if P then crc_with_heartbeat m c a e s else (c, s)) of (crc, s) \<Rightarrow> (crc, f, s))"
  by (cases P) (simp_all add: uniform_crc uniform_start)

lemma uniform_image_crc: "uniform (image_crc b e)"
  unfolding image_crc_def [abs_def] Let_def
  by (rule uniform_stage uniform_if uniform_crc uniform_last uniform_start)+

text \<open>The outcome of the check, with the number of heartbeats before the line's state.\<close>

lemma image_crc_beats:
  assumes "boot_placed env b" "unat e = img_hi b"
  shows "\<exists>fd k. \<forall>s. image_crc b e s = (crc32 0 (image b), fd, beats k s)"
proof -
  from uniform_image_crc [of b e] obtain c fd k where u: "\<And>s. image_crc b e s = (c, fd, beats k s)"
    by (auto simp: uniform_def)
  have "c = crc32 0 (image b)"
    using image_crc_eq [OF assms, of undefined] u [of undefined] by auto
  with u show ?thesis by blast
qed

section \<open>The device receives a plain file\<close>

lemma feed_all_plain:
  assumes "boot_holds env m d b" "compression_type m = COMPRESS_NONE"
  shows "\<exists>b'. feed_all (bcm2835_ops env xz) n xs b = Some b' \<and> boot_holds env m (d @ concat xs) b' \<and>
    boot_reloc b' = boot_reloc b \<and> img_start b' = img_start b"
  using assms(1)
proof (induction xs arbitrary: n d b)
  case (Cons x xs)
  have "boot_meta b = m" using Cons.prems by (simp add: boot_holds_def)
  then have f: "platform_feed xz n x b = Some (True, feed_impl x b)"
    using assms(2) by (simp add: platform_feed_def format_defs)
  from Cons.IH [OF boot_feed_holds [OF Cons.prems f], of "n + 1"] f show ?case
    by (simp add: bcm2835_ops_def feed_impl_fields)
qed simp

lemma plain_checked:
  assumes h: "boot_holds env m d b" and env: "env_ok env" "meta_fits env m" and len: "length d = unat (mem_size m)"
  shows "boot_meta b = m" "feed b = img_start b + mem_size m" "boot_placed env b" "image b = d"
    "\<exists>fd k. \<forall>s. image_crc b (img_start b + mem_size m) s = (crc32 0 d, fd, beats k s)"
proof -
  let ?e = "img_start b + mem_size m"
  have "length d < 2 ^ 32" using len unsigned_less [of "mem_size m", where 'a = nat] by simp
  with h env have b: "boot_meta b = m" "boot_placed env b" "feed b = img_start b + of_nat (length d)"
    "\<forall>k < length d. view b (img_lo b + k) = d ! k" by (simp_all add: boot_holds_def len)
  have e: "unat ?e = img_hi b"
    using b(1,2) unfolding boot_placed_def img_hi_def by (auto intro!: unat_add_small)
  have hi: "img_hi b = img_lo b + length d" using len b(1) by (simp add: img_hi_def img_lo_def)
  show "image b = d" using b(4) by (intro nth_equalityI) (simp_all add: image_def hi)
  then show "\<exists>fd k. \<forall>s. image_crc b ?e s = (crc32 0 d, fd, beats k s)" using image_crc_beats [OF b(2) e] by simp
  show "boot_meta b = m" "feed b = ?e" "boot_placed env b" using b(1-3) len by simp_all
qed

text \<open>The verdict on a flat binary is that of the CRC.\<close>

lemma load_flat:
  assumes h: "boot_holds env m d b" and env: "env_ok env" "meta_fits env m" "image_format m = IMAGE_FLAT_BINARY"
    and len: "length d = unat (mem_size m)"
  shows "\<exists>fd k. \<forall>s. platform_load_image env b s = Some (crc32 0 d = mem_crc32 m, b\<lparr>feed := fd\<rparr>, beats k s)"
proof -
  note p = plain_checked [OF h env(1,2) len]
  obtain fd k where "\<And>s. image_crc b (img_start b + mem_size m) s = (crc32 0 d, fd, beats k s)" using p(5) by blast
  then have "platform_load_image env b s = Some (crc32 0 d = mem_crc32 m, b\<lparr>feed := fd\<rparr>, beats k s)" for s
    using p(1,2) env by (simp add: platform_load_image_def meta_fits_def)
  then show ?thesis by blast
qed

lemma load_plain:
  assumes h: "boot_holds env m d b" and env: "env_ok env" "meta_fits env m" "image_format m = IMAGE_FLAT_BINARY"
    and len: "length d = unat (mem_size m)" and crc: "mem_crc32 m = crc32 0 d"
  shows "\<exists>b' k. (\<forall>s. platform_load_image env b s = Some (True, b', beats k s)) \<and> boot_loaded env m d b' \<and>
    boot_reloc b' = boot_reloc b \<and> img_start b' = img_start b"
proof -
  from load_flat [OF h env len] crc obtain fd k where
    l: "\<And>s. platform_load_image env b s = Some (True, b\<lparr>feed := fd\<rparr>, beats k s)" by auto
  from boot_load_image [OF h l] have "boot_loaded env m d (b\<lparr>feed := fd\<rparr>)" .
  with l show ?thesis by (intro exI [of _ "b\<lparr>feed := fd\<rparr>"] exI [of _ k]) simp
qed

section \<open>Chunks that the receiver accepts are short\<close>

lemma length_concat_le: "\<forall>x \<in> set xs. length x \<le> n \<Longrightarrow> length (concat xs) \<le> length xs * n"
  by (induction xs) auto

lemma delivered_length:
  assumes "delivered s m xs s'" "length xs = unat (chunks_of w)"
  shows "length (concat xs) < 2 ^ 32"
proof -
  have "length (concat xs) \<le> length xs * 65535"
    using assms(1) by (intro length_concat_le) (auto simp: delivered_def dest: delivers_length)
  also have "\<dots> = unat (w + 0xfffe) div 65535 * 65535" by (simp add: assms(2) chunks_of_def unat_div)
  also have "\<dots> \<le> unat (w + 0xfffe)" by simp
  also have "\<dots> < 2 ^ 32" using unsigned_less [of "w + 0xfffe", where 'a = nat] by simp
  finally show ?thesis .
qed

section \<open>The two machines over one line\<close>

text \<open>The timeouts of \<^verbatim>\<open>pup/config.h\<close> in microseconds.\<close>

lemma pup_timeouts [simp]:
  "timeouts pup_config TIMER_RESET = 1666666" "timeouts pup_config TIMER_RESEND = 233333"
  "timeouts pup_config TIMER_SYMBOL = 3333"
  by (simp_all add: pup_config_def BAUD_RATE_def config_reset_timeout_us_def config_resend_timeout_us_def
      config_symbol_timeout_us_def timeout_us_def)

declare timeouts.simps [simp del]

lemma set_periods_pup: "\<exists>s0. set_periods pup_config s = Some s0"
  by (simp add: set_periods_def pup_config_def BAUD_RATE_def config_reset_timeout_us_def
      config_resend_timeout_us_def config_symbol_timeout_us_def timeout_us_def)

text \<open>The frames of a session: what the host sends, and what the device sends with \<open>k\<close> heartbeats.\<close>

definition sent_by_host :: "u8 list \<Rightarrow> meta_t \<Rightarrow> u8 list \<Rightarrow> u8 list list" where
  "sent_by_host pad m file = host_frames (meta_bytes pad m) (file_chunks file)"

definition sent_by_device :: "nat \<Rightarrow> u8 list \<Rightarrow> u8 list list" where
  "sent_by_device k file = device_frames (length (file_chunks file)) k True"

text \<open>
  Each side hears the other side's frames: its polls deliver them with the pauses in \<open>fs\<close>, and they arrive in time, so that no
  timer has expired at the readings at which it is looked at.
\<close>

definition host_hears :: "io \<Rightarrow> (nat \<times> u8) list list \<Rightarrow> nat \<Rightarrow> u8 list \<Rightarrow> bool" where
  "host_hears s fs k file \<longleftrightarrow> hears s fs (sent_by_device k file) \<and>
     upload_in_time (clock s) (timeouts pup_config) (file \<noteq> []) (ticks s) fs"

definition device_hears :: "io \<Rightarrow> (nat \<times> u8) list list \<Rightarrow> u8 list \<Rightarrow> meta_t \<Rightarrow> u8 list \<Rightarrow> bool" where
  "device_hears s fs pad m file \<longleftrightarrow> hears s fs (sent_by_host pad m file) \<and>
     download_in_time (clock s) (timeouts pup_config) (ticks s) fs"

definition device_boots :: "boot_env \<Rightarrow> 'x xz_ops \<Rightarrow> u8 list \<Rightarrow> meta_t \<Rightarrow> u8 list \<Rightarrow> nat \<Rightarrow> 'x boot dl \<Rightarrow> bool" where
  "device_boots env xz pad m file k d0 \<longleftrightarrow>
     (\<exists>n d. fsm_download (bcm2835_ops env xz) pup_config n d0 = Some d \<and> dl_pc d = DL_Done \<and> boot_ok d \<and>
        dl_meta d = m \<and> tx (dl_io d) = tx (dl_io d0) @ concat (sent_by_device k file) \<and> boot_loaded env m file (dl_dev d))"

lemma plain_meta_fields [simp]:
  "image_format (plain_meta file a) = IMAGE_FLAT_BINARY" "compression_type (plain_meta file a) = COMPRESS_NONE"
  "mem_crc32 (plain_meta file a) = crc32 0 file" "wire_size (plain_meta file a) = of_nat (length file)"
  "mem_size (plain_meta file a) = of_nat (length file)"
  by (simp_all add: plain_meta_def)

text \<open>The whole download, when the platform takes the file and then loads it with \<open>k\<close> heartbeats.\<close>

lemma platform_completes:
  assumes pad: "length pad = 4" and len: "length file < 2 ^ 31" "wire_size m = of_nat (length file)"
    and init: "platform_init_meta env xz m b0 = (True, p0)"
    and feeds: "feed_all (bcm2835_ops env xz) 0 (file_chunks file) p0 = Some p1"
    and ld: "\<And>s. platform_load_image env p1 s = Some (ok, p2, beats k s)"
    and d0: "dl_dev d0 = b0" "device_hears (dl_io d0) fs pad m file"
  shows "\<exists>n d. fsm_download (bcm2835_ops env xz) pup_config n d0 = Some d \<and> dl_pc d = DL_Done \<and> boot_ok d = ok \<and>
    dl_meta d = m \<and> tx (dl_io d) = tx (dl_io d0) @ device_line (length (file_chunks file)) k ok \<and> dl_dev d = p2"
proof -
  let ?xs = "file_chunks file" and ?ops = "bcm2835_ops env xz"
  obtain s0 where s0: "set_periods pup_config (dl_io d0) = Some s0" using set_periods_pup by blast
  have "\<exists>d. fsm_download ?ops pup_config (length ?xs + 5) d0 = Some d \<and> dl_pc d = DL_Done \<and> dl_dev d = p2 \<and>
      dl_meta d = m \<and> boot_ok d = ok \<and> rx (dl_io d) = [] \<and>
      tx (dl_io d) = tx (dl_io d0) @ device_line (length ?xs) k ok"
  proof (rule download_completes [OF s0 pad])
    show "init_meta ?ops m (dl_dev d0) = (True, p0)" using init d0(1) by (simp add: bcm2835_ops_def)
    show "length ?xs = unat (chunks_of (wire_size m))" using chunks_of_length [OF len(1)] len(2) by simp
    show "load_op ?ops p1 t = Some (ok, p2, t\<lparr>tx := tx t @ beat_line (of_nat (length ?xs)) k\<rparr>)"
      if "fsm_iden t = of_nat (length ?xs)" for t
      using ld that by (simp add: bcm2835_ops_def beats_def)
    show "hears (dl_io d0) fs (host_frames (meta_bytes pad m) ?xs)"
      "download_in_time (clock (dl_io d0)) (timeouts pup_config) (ticks (dl_io d0)) fs"
      using d0(2) by (simp_all add: device_hears_def sent_by_host_def)
  qed (use feeds file_chunk_length in \<open>auto\<close>)
  then show ?thesis by blast
qed

lemma device_completes:
  assumes env: "env_ok env" "length file < 2 ^ 31" "length pad = 4"
    and init: "platform_init_meta env xz (plain_meta file addr) b0 = (True, p0)"
  shows "\<exists>k. \<forall>d0 fs. dl_dev d0 = b0 \<longrightarrow> device_hears (dl_io d0) fs pad (plain_meta file addr) file \<longrightarrow>
    device_boots env xz pad (plain_meta file addr) file k d0"
proof -
  let ?m = "plain_meta file addr"
  have fits: "meta_fits env ?m" by (simp add: meta_fits_def format_defs)
  obtain p1 where p1: "feed_all (bcm2835_ops env xz) 0 (file_chunks file) p0 = Some p1" "boot_holds env ?m file p1"
    using feed_all_plain [OF init_meta_holds [OF init], of xz 0 "file_chunks file"] by auto
  have len: "length file = unat (mem_size ?m)" using env(2) by (simp add: unat_of_nat)
  from load_plain [OF p1(2) env(1) fits _ len] obtain p2 k where
    ld: "\<And>s. platform_load_image env p1 s = Some (True, p2, beats k s)" "boot_loaded env ?m file p2"
    by auto
  have w: "wire_size ?m = of_nat (length file)" by simp
  have "device_boots env xz pad ?m file k d0"
    if d0: "dl_dev d0 = b0" "device_hears (dl_io d0) fs pad ?m file" for d0 fs
    using platform_completes [OF env(3,2) w init p1(1) ld(1) d0] ld(2) unfolding device_boots_def sent_by_device_def by blast
  then show ?thesis by blast
qed

text \<open>The host's options of a plain upload to a device that is named or found.\<close>

definition ready_opts :: "opts_t \<Rightarrow> bool" where
  "ready_opts opts \<longleftrightarrow> \<not> print_usage opts \<and> dev_fd opts \<noteq> -1 \<and> \<not> reset_board opts \<and> inp_fd opts \<noteq> -1"

definition upload_done :: "opts_t \<Rightarrow> host_exit" where
  "upload_done opts = (if headless opts then EXIT_SUCCESS else EXEC_PICOCOM (sint (con_baud opts)))"

definition host_uploads ::
  "host_sys \<Rightarrow> nat \<Rightarrow> 's lzma \<Rightarrow> u8 list \<Rightarrow> string list \<Rightarrow> u8 list \<Rightarrow> u8 list option list \<Rightarrow> opts_t \<Rightarrow> meta_t \<Rightarrow> io \<Rightarrow> bool" where
  "host_uploads sys slack lz pad args file reads opts m s \<longleftrightarrow>
     (\<exists>n u. host_main sys slack lz pup_config pad args file reads n s = Some (Some (upload_done opts), Some u) \<and>
        tx (ul_io u) = tx s @ concat (sent_by_host pad m file))"

lemma host_completes:
  assumes opts: "parse_opts sys args = Some opts" "ready_opts opts" and input: "plain_file file" "reads_of file reads"
    and len: "length file < 2 ^ 31" "length pad = 4" "2 \<le> slack" and s: "host_hears s fs k file"
  shows "host_uploads sys slack lz pad args file reads opts (plain_meta file (opt_load_addr opts)) s"
proof -
  let ?m = "plain_meta file (opt_load_addr opts)" and ?xs = "file_chunks file"
  obtain s0 where s0: "set_periods pup_config s = Some s0" using set_periods_pup by blast
  have "length ?xs < 2 ^ 32"
    using chunks_of_length [OF len(1)] unsigned_less [of "chunks_of (of_nat (length file))", where 'a = nat] by simp
  then have serve: "platform_marshal file (of_nat i) = Some (Some (?xs ! i))" if "i < length ?xs" for i
    using that by (simp add: platform_marshal_eq unat_of_nat)
  have "?xs \<noteq> [] \<longleftrightarrow> file \<noteq> []" by (simp add: length_file_chunks div_greater_zero_iff Suc_le_eq flip: length_greater_0_conv)
  then have rx: "hears s fs (device_frames (length ?xs) k True)"
    "upload_in_time (clock s) (timeouts pup_config) (?xs \<noteq> []) (ticks s) fs"
    using s by (simp_all add: host_hears_def sent_by_device_def)
  have "\<exists>u. fsm_upload pup_config (meta_bytes pad ?m) (platform_marshal file) (opt_retries opts)
        (length ?xs + k + 4) s = Some u \<and> ul_pc u = UL_Done (if True then UPLOAD_OK else UPLOAD_FAILED) \<and>
      rx (ul_io u) = [] \<and> tx (ul_io u) = tx s @ host_line (meta_bytes pad ?m) ?xs"
    by (rule upload_completes [OF s0 _ file_chunk_length serve rx]) (simp_all add: len(2))
  then obtain n u where u: "fsm_upload pup_config (meta_bytes pad ?m) (platform_marshal file) (opt_retries opts) n s = Some u"
    "ul_pc u = UL_Done UPLOAD_OK" "tx (ul_io u) = tx s @ host_line (meta_bytes pad ?m) ?xs"
    by auto
  have d: "host_device sys opts = Some opts" using opts(2) by (simp add: host_device_def ready_opts_def)
  have "host_main sys slack lz pup_config pad args file reads n s = Some (Some (upload_done opts), Some u)"
    using opts u(1,2)
    by (simp add: host_main_def d host_meta_plain [OF input(2,1) len(3)] ready_opts_def upload_exit_def upload_done_def)
  with u(3) show ?thesis unfolding host_uploads_def sent_by_host_def by blast
qed

section \<open>A clock of one millisecond for each reading\<close>

definition ms_clock :: "nat \<Rightarrow> u64" where
  "ms_clock n = of_nat (1000 * n)"

lemma ms_clock_waits:
  assumes "k < 1000000" "1000 * k < 1000 * a + unat p" "unat p < 2 ^ 32" "a < 1000000"
  shows "\<not> ms_clock a + p \<le> ms_clock k"
proof -
  have "unat (ms_clock k) = 1000 * k" "unat (ms_clock a + p) = 1000 * a + unat p"
    using assms by (simp_all add: ms_clock_def unat_word_ariths unat_of_nat)
  then show ?thesis using assms(2) by (simp add: word_le_nat_alt)
qed

lemma ms_clock_prompt: "t + 3 * length bs < 1000000 \<Longrightarrow> prompt ms_clock 3333 t (map (Pair 2) bs)"
proof (induction bs arbitrary: t)
  case (Cons b bs)
  then have "\<not> ms_clock t + 3333 \<le> ms_clock (t + 1 + j)" if "j < 2" for j
    using that by (intro ms_clock_waits) simp_all
  with Cons.IH [of "t + 3"] Cons.prems show ?case by (simp add: numeral_3_eq_3)
qed simp

lemma polls_of_pairs: "polls_of (map (Pair 2) bs) = 3 * length bs"
  by (induction bs) simp_all

lemma ms_clock_arrives:
  assumes "t + 6 + 3 * length bs < 1000000" "\<And>a. reset = Some a \<Longrightarrow> t \<le> a + 2 \<and> a \<le> t" "\<And>a. resend = Some a \<Longrightarrow> t \<le> a + 2 \<and> a \<le> t"
  shows "arrives_in_time ms_clock (timeouts pup_config) reset resend t (map (Pair 2) bs)"
proof (cases bs)
  case (Cons b cs)
  have w: "\<not> ms_clock a + p \<le> ms_clock k" if "t \<le> a + 2" "a \<le> t" "k \<le> t + 5" "10000 < unat p" "unat p < 2 ^ 32" for a p k
    using assms(1) that by (intro ms_clock_waits) simp_all
  have "holds_at ms_clock 1666666 reset (t + 2 * j)" "holds_at ms_clock 233333 resend (t + 2 * j + 1)" if "j \<le> 2" for j
    using assms(2,3) w [of _ "t + 2 * j" 1666666] w [of _ "t + 2 * j + 1" 233333] that
    by (auto simp: holds_at_def split: option.splits)
  moreover have "prompt ms_clock 3333 (t + 6) (map (Pair 2) cs)" using assms(1) Cons by (intro ms_clock_prompt) simp
  ultimately show ?thesis by (simp add: Cons)
qed simp

lemma readings_pairs: "readings (map (Pair 2) bs) \<le> 6 + 3 * length bs"
  by (cases bs) (simp_all add: polls_of_pairs)

lemma ms_clock_device:
  "t + sum_list (map (\<lambda>f. 12 + 3 * length f) fs) < 1000000 \<Longrightarrow>
   device_in_time ms_clock (timeouts pup_config) t (map (map (Pair 2)) fs)"
proof (induction fs arbitrary: t)
  case (Cons f fs)
  have "arrives_in_time ms_clock (timeouts pup_config) (Some t) (Some (t + 1)) (t + 2) (map (Pair 2) f)"
    "arrives_in_time ms_clock (timeouts pup_config) (Some (t + 1)) (Some (t + 2)) (t + 3) (map (Pair 2) f)"
    using Cons.prems by (auto intro!: ms_clock_arrives)
  moreover have "device_in_time ms_clock (timeouts pup_config) (t + 2 + readings (map (Pair 2) f)) (map (map (Pair 2)) fs)"
    using Cons.prems readings_pairs [of f] by (intro Cons.IH) simp
  ultimately show ?case by simp
qed simp

text \<open>A line whose every byte comes after two empty polls, and a clock that stops after a while.\<close>

definition slow_line :: "u8 list list \<Rightarrow> (nat \<times> u8) list list" where
  "slow_line ys = map (map (Pair 2)) ys"

lemma slow_line_bytes [simp]: "map (map snd) (slow_line ys) = ys"
  by (simp add: slow_line_def comp_def)

lemma ms_clock_download:
  assumes "sum_list (map (\<lambda>f. 12 + 3 * length f) ys) < 1000000"
  shows "download_in_time ms_clock (timeouts pup_config) 0 (slow_line ys)"
proof (cases ys)
  case (Cons y ys')
  have "arrives_in_time ms_clock (timeouts pup_config) None None 0 (map (Pair 2) y)"
    using assms Cons by (intro ms_clock_arrives) simp_all
  moreover have "device_in_time ms_clock (timeouts pup_config) (readings (map (Pair 2) y)) (map (map (Pair 2)) ys')"
    using assms Cons readings_pairs [of y] by (intro ms_clock_device) simp
  ultimately show ?thesis by (simp add: slow_line_def Cons)
qed (simp add: slow_line_def)

definition stopped_clock :: "nat \<Rightarrow> u64" where
  "stopped_clock n = of_nat (min n 3000)"

lemma stopped_clock_waits: "3000 < unat p \<Longrightarrow> unat p < 2 ^ 32 \<Longrightarrow> \<not> stopped_clock a + p \<le> stopped_clock k"
proof -
  assume p: "3000 < unat p" "unat p < 2 ^ 32"
  have "unat (stopped_clock n) = min n 3000" for n by (simp add: stopped_clock_def unat_of_nat)
  with p have "unat (stopped_clock a + p) = min a 3000 + unat p" "unat (stopped_clock k) \<le> 3000"
    by (simp_all add: unat_word_ariths)
  with p(1) show ?thesis by (simp add: word_le_nat_alt)
qed

lemma stopped_clock_arrives: "arrives_in_time stopped_clock (timeouts pup_config) reset resend t as"
proof -
  have w: "\<not> stopped_clock a + timeouts pup_config x \<le> stopped_clock k" for a k x
    by (cases x) (simp_all add: stopped_clock_waits)
  have "prompt stopped_clock (timeouts pup_config TIMER_SYMBOL) t as" for t as
    by (induction as arbitrary: t) (simp_all add: w del: pup_timeouts)
  then show ?thesis
    by (cases as) (auto simp: holds_at_def w simp del: pup_timeouts split: option.splits)
qed

lemma stopped_clock_host: "host_in_time stopped_clock (timeouts pup_config) first r t fs"
  by (induction fs arbitrary: first r t) (simp_all add: stopped_clock_arrives)

lemma stopped_clock_upload: "upload_in_time stopped_clock (timeouts pup_config) chunks t fs"
  by (cases fs) (simp_all add: stopped_clock_arrives stopped_clock_host)

section \<open>Properties\<close>

text \<open>
  C1: An upload completes. Take a plain file below two gigabytes, a command line that names it, a boot
  loader that accepts its metadata, and a host program whose stack frame leaves two bytes unused behind the array that
  \<^verbatim>\<open>host_pread\<close> overruns (otherwise \<^verbatim>\<open>main\<close> has no defined behaviour). For some number of heartbeats, two lines fit
  together: reading the device's frames, \<open>main\<close> of the host sends exactly the host's frames and ends with success; reading
  the host's frames, the boot loader sends exactly the device's and ends with the file as its image, checked and
  placed. On both sides the bytes may come after any number of empty polls, as long as they come in time: no timer has expired at a
  reading of the clock at which it is looked at.
\<close>

theorem upload_boots_file:
  assumes "env_ok env" "plain_file file" "reads_of file reads" "length file < 2 ^ 31" "length pad = 4" "2 \<le> slack"
    and "parse_opts sys args = Some opts" "ready_opts opts"
    and "platform_init_meta env xz (plain_meta file (opt_load_addr opts)) b0 = (True, p0)"
  shows "\<exists>k. (\<forall>s fs. host_hears s fs k file \<longrightarrow>
        host_uploads sys slack lz pad args file reads opts (plain_meta file (opt_load_addr opts)) s) \<and>
      (\<forall>d0 fs. dl_dev d0 = b0 \<longrightarrow> device_hears (dl_io d0) fs pad (plain_meta file (opt_load_addr opts)) file \<longrightarrow>
        device_boots env xz pad (plain_meta file (opt_load_addr opts)) file k d0)"
  using device_completes [OF assms(1,4,5,9)] host_completes [OF assms(7,8,2-6)] by blast

text \<open>
  A session with a file of eight bytes, loaded over the boot loader. Each byte comes after two empty polls; the device's clock
  advances by a millisecond with each reading.
\<close>

definition small_file :: "u8 list" where
  "small_file = [1, 2, 3, 4, 5, 6, 7, 8]"

definition no_lzma :: "unit lzma" where
  "no_lzma = \<lparr>lzma_stream_decoder = None, lzma_file_info_decoder = \<lambda>_. None,
     lzma_code = \<lambda>_ _ _ _. (LZMA_ERROR, (), 0, []), lzma_index_uncompressed_size = \<lambda>_. 0\<rparr>"

definition small_opts :: opts_t where
  "small_opts = opts_init\<lparr>dev_fd := 4, headless := True, inp_path := ''f'', inp_fd := 3\<rparr>"

lemma small_args: "parse_opts quiet_sys [''-d'', ''tty'', ''-H'', ''f''] = Some small_opts" "ready_opts small_opts"
  by (simp_all add: parse_opts_def parse_arg_def parse_option_def quiet_sys_def opts_init_def small_opts_def ready_opts_def)

lemma small_plain: "plain_file small_file" "reads_of small_file [Some small_file, Some []]" "length small_file < 2 ^ 31"
proof -
  show "reads_of small_file [Some small_file, Some []]"
    unfolding reads_of_def by (intro exI [of _ "[small_file]"]) (simp add: small_file_def)
qed (simp_all add: plain_file_def small_file_def XZ_SIG_def ELFMAG_def)

lemma small_accepts: "\<exists>p. platform_init_meta small_env idle_xz (plain_meta small_file (- 1)) small_boot = (True, p)"
  by (simp add: platform_init_meta_def image_start_def plan_reloc_def small_env_def plain_meta_def small_boot_def
      small_file_def idle_xz_def format_defs DRAM_LIMIT_def max_def min_def)

definition small_dl :: "u8 list list \<Rightarrow> unit boot dl" where
  "small_dl ys = \<lparr>dl_pc = DL_Reset, dl_io = idle_io\<lparr>rx := concat (map delayed (slow_line ys)), clock := ms_clock\<rparr>,
     dl_dev = small_boot, dl_meta = small_meta, chunk_num = 0, chunk_count = 0, boot_ok = False\<rparr>"

lemma small_dl_hears:
  assumes "length file < 65536" "length pad = 4"
  shows "device_hears (dl_io (small_dl (sent_by_host pad m file))) (slow_line (sent_by_host pad m file)) pad m file"
proof -
  have l: "length (wire_frame i type x) = length type + length x + 12" "length (wire_ack i) = 6" for i type x
    by (simp_all add: wire_frame_def wire_ack_def with_fcs_def)
  have "file_chunks file = (if file = [] then [] else [file])"
  proof (cases "file = []")
    case False
    then have "(length file + 0xfffe) div 0xffff = 1" using assms(1) by (intro div_nat_eqI) (simp_all add: Suc_le_eq)
    with False assms(1) show ?thesis by (simp add: file_chunks_def STAGING_SIZE_def)
  qed (simp add: file_chunks_def)
  then have "sum_list (map (\<lambda>f. 12 + 3 * length f) (sent_by_host pad m file)) < 1000000"
    using assms by (simp add: sent_by_host_def host_frames_def l META_SIZE_def)
  from ms_clock_download [OF this] show ?thesis
    by (simp add: device_hears_def hears_def small_dl_def idle_io_def)
qed

theorem upload_boots_file_witness:
  "\<exists>k. host_uploads quiet_sys 2 no_lzma [0, 0, 0, 0] [''-d'', ''tty'', ''-H'', ''f''] small_file
      [Some small_file, Some []] small_opts (plain_meta small_file (- 1))
      (idle_io\<lparr>rx := concat (map delayed (slow_line (sent_by_device k small_file))), clock := stopped_clock\<rparr>) \<and>
    device_boots small_env idle_xz [0, 0, 0, 0] (plain_meta small_file (- 1)) small_file k
      (small_dl (sent_by_host [0, 0, 0, 0] (plain_meta small_file (- 1)) small_file))"
proof -
  have a: "opt_load_addr small_opts = - 1" by (simp add: small_opts_def opts_init_def)
  have p: "length [0, 0, 0, 0 :: u8] = 4" "2 \<le> (2 :: nat)" by simp_all
  obtain p0 where p0: "platform_init_meta small_env idle_xz (plain_meta small_file (- 1)) small_boot = (True, p0)"
    using small_accepts by blast
  from upload_boots_file [OF env_ok_small small_plain p small_args, unfolded a, OF p0, of no_lzma] obtain k where
    k: "\<And>s fs. host_hears s fs k small_file \<Longrightarrow>
      host_uploads quiet_sys 2 no_lzma [0, 0, 0, 0] [''-d'', ''tty'', ''-H'', ''f''] small_file
        [Some small_file, Some []] small_opts (plain_meta small_file (- 1)) s"
    "\<And>d0 fs. dl_dev d0 = small_boot \<Longrightarrow> device_hears (dl_io d0) fs [0, 0, 0, 0] (plain_meta small_file (- 1)) small_file \<Longrightarrow>
      device_boots small_env idle_xz [0, 0, 0, 0] (plain_meta small_file (- 1)) small_file k d0" by blast
  have "host_hears (idle_io\<lparr>rx := concat (map delayed (slow_line (sent_by_device k small_file))), clock := stopped_clock\<rparr>)
      (slow_line (sent_by_device k small_file)) k small_file"
    by (simp add: host_hears_def hears_def stopped_clock_upload)
  moreover have "length small_file < 65536" by (simp add: small_file_def)
  moreover have "dl_dev (small_dl ys) = small_boot" for ys by (simp add: small_dl_def)
  ultimately show ?thesis using k small_dl_hears [OF _ p(1)] by blast
qed

text \<open>
  C2: Whatever arrives on the line, and whatever the clock does: when the boot loader ends and reports
  success for a flat binary that is not compressed, then the bytes that it read contain, in this order, a poll frame with the metadata
  that it ends with and for each of the announced chunks a frame of type \<open>CHNK\<close> with the chunk's number, all with good check
  sequences; the image in memory is exactly the concatenation of the bodies of these frames, and its CRC is the announced one.
\<close>

theorem booted_image_complete:
  assumes "fsm_download (bcm2835_ops env xz) config n d0 = Some d" "dl_pc d = DL_Done" "boot_ok d"
    and "env_ok env" "image_format (dl_meta d) = IMAGE_FLAT_BINARY" "compression_type (dl_meta d) = COMPRESS_NONE"
  shows "\<exists>xs. length xs = unat (chunks_of (wire_size (dl_meta d))) \<and> delivered (dl_io d0) (dl_meta d) xs (dl_io d) \<and>
    boot_placed env (dl_dev d) \<and> image (dl_dev d) = concat xs \<and>
    length (concat xs) = unat (mem_size (dl_meta d)) \<and> crc32 0 (concat xs) = mem_crc32 (dl_meta d)"
proof -
  from bcm.download_safe [OF assms(1-3) TrueI] obtain xs where
    xs: "length xs = unat (chunks_of (wire_size (dl_meta d)))" "delivered (dl_io d0) (dl_meta d) xs (dl_io d)"
      "boot_loaded env (dl_meta d) (concat xs) (dl_dev d)" by blast
  have "length (concat xs) < 2 ^ 32" by (rule delivered_length [OF xs(2,1)])
  moreover have "meta_fits env (dl_meta d)" using assms(5,6) by (simp add: meta_fits_def format_defs)
  ultimately show ?thesis using xs assms(4,5) by (auto simp: boot_loaded_def)
qed

theorem booted_image_complete_witness:
  "\<exists>n d xs. fsm_download (bcm2835_ops small_env idle_xz) pup_config n
      (small_dl (sent_by_host [0, 0, 0, 0] (plain_meta small_file (- 1)) small_file)) = Some d \<and>
    dl_pc d = DL_Done \<and> image (dl_dev d) = concat xs \<and>
    delivered (dl_io (small_dl (sent_by_host [0, 0, 0, 0] (plain_meta small_file (- 1)) small_file)))
      (plain_meta small_file (- 1)) xs (dl_io d)"
proof -
  have p: "length [0, 0, 0, 0 :: u8] = 4" "length small_file < 65536" by (simp_all add: small_file_def)
  obtain p0 where p0: "platform_init_meta small_env idle_xz (plain_meta small_file (- 1)) small_boot = (True, p0)"
    using small_accepts by blast
  let ?d0 = "small_dl (sent_by_host [0, 0, 0, 0] (plain_meta small_file (- 1)) small_file)"
  have "dl_dev ?d0 = small_boot" by (simp add: small_dl_def)
  with device_completes [OF env_ok_small small_plain(3) p(1) p0] small_dl_hears [OF p(2,1)] obtain k where
    "device_boots small_env idle_xz [0, 0, 0, 0] (plain_meta small_file (- 1)) small_file k ?d0" by blast
  then obtain n d where d: "fsm_download (bcm2835_ops small_env idle_xz) pup_config n ?d0 = Some d"
      "dl_pc d = DL_Done" "boot_ok d" "dl_meta d = plain_meta small_file (- 1)"
    by (auto simp: device_boots_def)
  have "image_format (dl_meta d) = IMAGE_FLAT_BINARY" "compression_type (dl_meta d) = COMPRESS_NONE"
    by (simp_all add: d(4))
  from booted_image_complete [OF d(1-3) env_ok_small this] d show ?thesis by auto
qed

end
