(* ===== verification/Mem_Routines.thy ===== *)
theory Mem_Routines
  imports Memory
begin

text \<open>
  The memory routines that the second stage of the boot loader brings along, the assembly of
  \<^verbatim>\<open>libc/newlib-arm/aeabi_memmove-arm.S\<close> and \<^verbatim>\<open>aeabi_memset-arm.S\<close>, register by register, and that they
  move and fill. The registers saved on the stack are left out; \<open>None\<close> is a loop without end.
\<close>

section \<open>Moving\<close>

partial_function (option) move_up :: "u32 \<Rightarrow> u32 \<Rightarrow> u32 \<Rightarrow> mem \<Rightarrow> mem option" where
  "move_up r1 r2 r3 m =
     (let ip = m (unat r1); r1 = r1 + 1; r3 = r3 + 1; m = m(unat r3 := ip)
      in if r2 = r1 then Some m else move_up r1 r2 r3 m)"

partial_function (option) move_down :: "u32 \<Rightarrow> u32 \<Rightarrow> u32 \<Rightarrow> mem \<Rightarrow> mem option" where
  "move_down r1 r2 r3 m =
     (let r3 = r3 - 1; ip = m (unat r3); r1 = r1 - 1; m = m(unat r1 := ip)
      in if r2 = r3 then Some m else move_down r1 r2 r3 m)"

declare move_up.simps [code] move_down.simps [code]

definition aeabi_memmove :: "u32 \<Rightarrow> u32 \<Rightarrow> u32 \<Rightarrow> mem \<Rightarrow> mem option" where
  "aeabi_memmove r0 r1 r2 m =
     (let r3 = r1 + r2
      in if r0 \<le> r1 \<or> r3 \<le> r0 then (if r2 = 0 then Some m else move_up r1 (r1 + r2) (r0 - 1) m)
         else if r2 = 0 then Some m
         else move_down (r0 + r2) (r3 - r2) r3 m)"

section \<open>Filling\<close>

text \<open>The byte loop up to an aligned address. The counter is one less than the bytes that remain; the left result is the end of the routine.\<close>

partial_function (option) fill_head :: "u32 \<Rightarrow> u32 \<Rightarrow> u8 \<Rightarrow> mem \<Rightarrow> (mem + u32 \<times> u32 \<times> mem) option" where
  "fill_head r1 r3 ip m =
     (let m = m(unat r3 := ip); r3 = r3 + 1
      in if r3 AND 3 = 0 then Some (Inr (r1, r3, m))
         else if r1 = 0 then Some (Inl m)
         else fill_head (r1 - 1) r3 ip m)"

partial_function (option) fill_blocks :: "u32 \<Rightarrow> u32 \<Rightarrow> u32 \<Rightarrow> mem \<Rightarrow> mem option" where
  "fill_blocks r4 ip lr m =
     (let r4 = r4 - 16;
          m = mem_write (unat (ip - 16)) (le32 lr) m; m = mem_write (unat (ip - 12)) (le32 lr) m;
          m = mem_write (unat (ip - 8)) (le32 lr) m; m = mem_write (unat (ip - 4)) (le32 lr) m;
          ip = ip + 16
      in if 15 < r4 then fill_blocks r4 ip lr m else Some m)"

partial_function (option) fill_words :: "u32 \<Rightarrow> u32 \<Rightarrow> u32 \<Rightarrow> mem \<Rightarrow> mem option" where
  "fill_words ip r4 lr m =
     (let ip = ip - 4; m = mem_write (unat r4) (le32 lr) m; r4 = r4 + 4
      in if 3 < ip then fill_words ip r4 lr m else Some m)"

partial_function (option) fill_bytes :: "u32 \<Rightarrow> u32 \<Rightarrow> u8 \<Rightarrow> mem \<Rightarrow> mem option" where
  "fill_bytes r3 r1 c m =
     (let m = m(unat r3 := c); r3 = r3 + 1 in if r3 = r1 then Some m else fill_bytes r3 r1 c m)"

declare fill_head.simps [code] fill_blocks.simps [code] fill_words.simps [code] fill_bytes.simps [code]

text \<open>The labels \<open>7\<close>, \<open>5\<close> and \<open>3\<close>, and the entry.\<close>

definition fill_tail :: "u32 \<Rightarrow> u32 \<Rightarrow> u32 \<Rightarrow> mem \<Rightarrow> mem option" where
  "fill_tail r1 r3 c m = (if r1 = 0 then Some m else fill_bytes r3 (r3 + r1) (ucast c) m)"

definition fill_middle :: "u32 \<Rightarrow> u32 \<Rightarrow> u32 \<Rightarrow> u32 \<Rightarrow> mem \<Rightarrow> mem option" where
  "fill_middle r1 r3 lr c m =
     do {
       m \<leftarrow> fill_words r1 r3 lr m;
       fill_tail (r1 AND 3) (r3 + (((r1 - 4) AND NOT 3) + 4)) c m
     }"

definition fill_aligned :: "u32 \<Rightarrow> u32 \<Rightarrow> u32 \<Rightarrow> mem \<Rightarrow> mem option" where
  "fill_aligned r1 r3 c m =
     (if r1 \<le> 3 then fill_tail r1 r3 c m
      else
        let lr = c AND 255; lr = lr OR push_bit 8 lr; lr = lr OR push_bit 16 lr
        in if r1 \<le> 15 then fill_middle r1 r3 lr c m
           else do {
             m \<leftarrow> fill_blocks r1 (r3 + 16) lr m;
             let ip = ((r1 - 16) AND NOT 15) + 16;
             let r1 = r1 AND 15;
             let r3 = r3 + ip;
             if r1 \<le> 3 then fill_tail r1 r3 c m else fill_middle r1 r3 lr c m
           })"

definition aeabi_memset :: "u32 \<Rightarrow> u32 \<Rightarrow> u32 \<Rightarrow> mem \<Rightarrow> mem option" where
  "aeabi_memset r0 r1 r2 m =
     (if r0 AND 3 = 0 then fill_aligned r1 r0 r2 m
      else if r1 = 0 then Some m
      else do {
        r \<leftarrow> fill_head (r1 - 1) r0 (ucast r2) m;
        case r of Inl m \<Rightarrow> Some m | Inr (r1, r3, m) \<Rightarrow> fill_aligned r1 r3 r2 m
      })"

section \<open>Correctness of moving\<close>

lemma move_up_copies:
  assumes "unat s + Suc n < 2 ^ 32" "unat d + Suc n < 2 ^ 32" "d \<le> s \<or> unat s + Suc n \<le> unat d"
  shows "move_up s (s + of_nat (Suc n)) (d - 1) m = Some (mem_copy (unat d) (unat s) (Suc n) m)"
  using assms
proof (induction n arbitrary: s d m)
  case 0
  have "m(unat d := m (unat s)) = mem_copy (unat d) (unat s) 1 m"
    by (auto simp: mem_copy_def mem_write_def fun_eq_iff)
  then show ?case by (subst move_up.simps) (simp add: Let_def)
next
  case (Suc n)
  have u: "unat (s + 1) = unat s + 1" "unat (d + 1) = unat d + 1"
    using Suc.prems unat_add_of_nat [of s 1] unat_add_of_nat [of d 1] by simp_all
  let ?m = "m(unat d := m (unat s))"
  have ne: "s + of_nat (Suc (Suc n)) \<noteq> s + 1"
  proof
    assume "s + of_nat (Suc (Suc n)) = s + 1"
    then have "unat (s + of_nat (Suc (Suc n))) = unat (s + 1)" by simp
    then show False using u unat_add_of_nat [OF Suc.prems(1)] by simp
  qed
  have "move_up (s + 1) ((s + 1) + of_nat (Suc n)) ((d + 1) - 1) ?m = Some (mem_copy (unat (d + 1)) (unat (s + 1)) (Suc n) ?m)"
    using Suc.prems u by (intro Suc.IH) (auto simp: word_le_nat_alt)
  moreover have "mem_copy (unat d + 1) (unat s + 1) (Suc n) ?m = mem_copy (unat d) (unat s) (Suc (Suc n)) m"
  proof -
    have "mem_read ?m (unat s + 1) (Suc n) = mem_read m (unat s + 1) (Suc n)"
      using Suc.prems by (intro mem_read_cong) (auto simp: word_le_nat_alt)
    moreover have "mem_read m (unat s) (Suc (Suc n)) = m (unat s) # mem_read m (unat s + 1) (Suc n)"
      using mem_read_append [of m "unat s" 1 "Suc n"] by (simp add: mem_read_def)
    ultimately show ?thesis by (auto simp: mem_copy_def mem_write_def fun_eq_iff nth_Cons')
  qed
  ultimately show ?case using ne u by (subst move_up.simps) (simp add: Let_def add.assoc)
qed

lemma move_down_copies:
  assumes "unat s + Suc n < 2 ^ 32" "unat d + Suc n < 2 ^ 32" "s < d"
  shows "move_down (d + of_nat (Suc n)) s (s + of_nat (Suc n)) m = Some (mem_copy (unat d) (unat s) (Suc n) m)"
  using assms
proof (induction n arbitrary: m)
  case 0
  have "m(unat d := m (unat s)) = mem_copy (unat d) (unat s) 1 m"
    by (auto simp: mem_copy_def mem_write_def fun_eq_iff)
  then show ?case by (subst move_down.simps) (simp add: Let_def)
next
  case (Suc n)
  have u: "unat (s + of_nat (Suc n)) = unat s + Suc n" "unat (d + of_nat (Suc n)) = unat d + Suc n"
    using Suc.prems by (intro unat_add_of_nat, simp)+
  let ?m = "m(unat d + Suc n := m (unat s + Suc n))"
  have ne: "s \<noteq> s + of_nat (Suc n)" using u(1) by (metis add_cancel_right_right nat.simps(3))
  have p: "x + of_nat (Suc (Suc n)) - 1 = x + of_nat (Suc n)" for x :: u32 by simp
  have "move_down (d + of_nat (Suc n)) s (s + of_nat (Suc n)) ?m = Some (mem_copy (unat d) (unat s) (Suc n) ?m)"
    using Suc.prems by (intro Suc.IH) auto
  moreover have "mem_copy (unat d) (unat s) (Suc n) ?m = mem_copy (unat d) (unat s) (Suc (Suc n)) m"
  proof -
    have "mem_read ?m (unat s) (Suc n) = mem_read m (unat s) (Suc n)"
      using Suc.prems by (intro mem_read_cong) (auto simp: word_less_nat_alt)
    moreover have "mem_read m (unat s) (Suc (Suc n)) = mem_read m (unat s) (Suc n) @ [m (unat s + Suc n)]"
      using mem_read_append [of m "unat s" "Suc n" 1] by (simp add: mem_read_def)
    ultimately show ?thesis by (auto simp: mem_copy_def mem_write_def fun_eq_iff nth_append)
  qed
  ultimately show ?case using ne u by (subst move_down.simps) (simp only: Let_def p if_False)
qed

lemma aeabi_memmove_copies:
  assumes "unat r0 + unat r2 < 2 ^ 32" "unat r1 + unat r2 < 2 ^ 32"
  shows "aeabi_memmove r0 r1 r2 m = Some (mem_copy (unat r0) (unat r1) (unat r2) m)"
proof (cases "r2 = 0")
  case True
  then show ?thesis by (simp add: aeabi_memmove_def mem_copy_def)
next
  case False
  then obtain n where n: "unat r2 = Suc n" by (metis not0_implies_Suc unat_eq_zero)
  have "of_nat (unat r2) = r2" by simp
  then have r2: "r2 = of_nat (Suc n)" by (simp only: n)
  have e: "unat (r1 + r2) = unat r1 + unat r2" using assms(2) by (simp add: unat_word_ariths)
  show ?thesis
  proof (cases "r0 \<le> r1 \<or> r1 + r2 \<le> r0")
    case True
    with assms n e show ?thesis using move_up_copies [of r1 n r0 m, folded r2] False
      by (auto simp: aeabi_memmove_def word_le_nat_alt)
  next
    case overlap: False
    with assms n show ?thesis using move_down_copies [of r1 n r0 m, folded r2] False
      by (auto simp: aeabi_memmove_def)
  qed
qed

section \<open>Correctness of filling\<close>

abbreviation mem_fill :: "nat \<Rightarrow> nat \<Rightarrow> u8 \<Rightarrow> mem \<Rightarrow> mem" where
  "mem_fill a n c m \<equiv> mem_write a (replicate n c) m"

lemma mem_fill_add: "mem_fill (a + n) k c (mem_fill a n c m) = mem_fill a (n + k) c m"
  using mem_write_append [of a "replicate n c" "replicate k c" m] by (simp add: replicate_add)

lemma mem_fill_1: "m(a := c) = mem_fill a 1 c m"
  by (auto simp: mem_write_def fun_eq_iff)

lemma le32_replicated:
  "le32 (((c AND 255) OR push_bit 8 (c AND 255)) OR push_bit 16 ((c AND 255) OR push_bit 8 (c AND 255))) = replicate 4 (ucast c)"
proof -
  have t: "c AND 255 = take_bit 8 c" by (simp add: take_bit_eq_mask mask_eq_exp_minus_1)
  let ?x = "take_bit 8 c" let ?w = "(?x OR push_bit 8 ?x) OR push_bit 16 (?x OR push_bit 8 ?x)"
  have "ucast ?w = (ucast c :: u8)" by (rule bit_word_eqI) (simp add: bit_simps)
  moreover have "ucast (drop_bit 8 ?w) = (ucast c :: u8)" by (rule bit_word_eqI) (simp add: bit_simps)
  moreover have "ucast (drop_bit 16 ?w) = (ucast c :: u8)" by (rule bit_word_eqI) (simp add: bit_simps)
  moreover have "ucast (drop_bit 24 ?w) = (ucast c :: u8)" by (rule bit_word_eqI) (simp add: bit_simps)
  moreover have "replicate 4 b = [b, b, b, b]" for b :: u8 by (simp add: numeral_eq_Suc)
  ultimately show ?thesis unfolding t le32_def by (simp only:)
qed

lemma fill_bytes_fills:
  assumes "unat r3 + Suc n < 2 ^ 32"
  shows "fill_bytes r3 (r3 + of_nat (Suc n)) c m = Some (mem_fill (unat r3) (Suc n) c m)"
  using assms
proof (induction n arbitrary: r3 m)
  case 0
  then show ?case by (subst fill_bytes.simps) (simp add: Let_def mem_fill_1)
next
  case (Suc n)
  have u: "unat (r3 + 1) = unat r3 + 1" using unat_add_of_nat [of r3 1] Suc.prems by simp
  have "unat (r3 + of_nat (Suc (Suc n))) \<noteq> unat (r3 + 1)" using u unat_add_of_nat [OF Suc.prems] by simp
  then have ne: "r3 + 1 \<noteq> r3 + of_nat (Suc (Suc n))" by metis
  have "fill_bytes (r3 + 1) ((r3 + 1) + of_nat (Suc n)) c (mem_fill (unat r3) 1 c m) =
      Some (mem_fill (unat (r3 + 1)) (Suc n) c (mem_fill (unat r3) 1 c m))"
    using Suc.prems u by (intro Suc.IH) simp
  also have "mem_fill (unat (r3 + 1)) (Suc n) c (mem_fill (unat r3) 1 c m) = mem_fill (unat r3) (Suc (Suc n)) c m"
    unfolding u using mem_fill_add [of "unat r3" 1 "Suc n" c m] by simp
  finally show ?case using ne by (subst fill_bytes.simps) (simp add: Let_def mem_fill_1 add.assoc)
qed

lemma fill_tail_fills:
  assumes "unat r3 + unat r1 < 2 ^ 32"
  shows "fill_tail r1 r3 c m = Some (mem_fill (unat r3) (unat r1) (ucast c) m)"
proof (cases "unat r1")
  case 0
  then show ?thesis by (simp add: fill_tail_def unat_eq_zero)
next
  case (Suc n)
  have "of_nat (unat r1) = r1" by simp
  then have r: "r1 = of_nat (Suc n)" by (simp only: Suc)
  have "r1 \<noteq> 0" using Suc by auto
  then show ?thesis using fill_bytes_fills [of r3 n "ucast c" m, folded r] assms Suc by (simp add: fill_tail_def)
qed

lemma fill_words_fills:
  assumes "unat ip = 4 * Suc n + k" "k < 4" "unat r4 + unat ip < 2 ^ 32" "le32 lr = replicate 4 c"
  shows "fill_words ip r4 lr m = Some (mem_fill (unat r4) (4 * Suc n) c m)"
  using assms(1,3)
proof (induction n arbitrary: ip r4 m)
  case 0
  have "unat (ip - 4) = k" using 0 by (simp add: unat_sub_if')
  then have "\<not> 3 < ip - 4" using assms(2) by (simp add: word_less_nat_alt)
  then show ?case by (subst fill_words.simps) (simp add: Let_def assms(4))
next
  case (Suc n)
  have u: "unat (ip - 4) = 4 * Suc n + k" using Suc.prems by (simp add: unat_sub_if')
  then have gt: "3 < ip - 4" by (simp add: word_less_nat_alt)
  have u4: "unat (r4 + 4) = unat r4 + 4" using unat_add_of_nat [of r4 4] Suc.prems by simp
  have "fill_words (ip - 4) (r4 + 4) lr (mem_fill (unat r4) 4 c m) =
      Some (mem_fill (unat (r4 + 4)) (4 * Suc n) c (mem_fill (unat r4) 4 c m))"
    using Suc.prems u u4 by (intro Suc.IH) simp_all
  also have "mem_fill (unat (r4 + 4)) (4 * Suc n) c (mem_fill (unat r4) 4 c m) = mem_fill (unat r4) (4 * Suc (Suc n)) c m"
    unfolding u4 using mem_fill_add [of "unat r4" 4 "4 * Suc n" c m] by simp
  finally show ?case using gt by (subst fill_words.simps) (simp add: Let_def assms(4))
qed

lemma fill_blocks_fills:
  assumes "unat r4 = 16 * Suc n + k" "k < 16" "unat r3 + unat r4 < 2 ^ 32" "le32 lr = replicate 4 c"
  shows "fill_blocks r4 (r3 + 16) lr m = Some (mem_fill (unat r3) (16 * Suc n) c m)"
proof -
  have b: "mem_write (unat (r + 16 - 4)) (le32 lr) (mem_write (unat (r + 16 - 8)) (le32 lr)
      (mem_write (unat (r + 16 - 12)) (le32 lr) (mem_write (unat (r + 16 - 16)) (le32 lr) m))) = mem_fill (unat r) 16 c m"
    if "unat r + 16 < 2 ^ 32" for r :: u32 and m
  proof -
    have e: "r + 16 - 4 = r + of_nat 12" "r + 16 - 8 = r + of_nat 8" "r + 16 - 12 = r + of_nat 4" "r + 16 - 16 = r" by simp_all
    have u: "unat (r + of_nat 12) = unat r + 12" "unat (r + of_nat 8) = unat r + 8" "unat (r + of_nat 4) = unat r + 4"
      using that by (intro unat_add_of_nat, simp)+
    show ?thesis unfolding e u assms(4)
      using mem_fill_add [of "unat r" 4 4 c m] mem_fill_add [of "unat r" 8 4 c m] mem_fill_add [of "unat r" 12 4 c m] by simp
  qed
  show ?thesis using assms(1,3)
  proof (induction n arbitrary: r4 r3 m)
    case 0
    have "unat (r4 - 16) = k" using 0 by (simp add: unat_sub_if')
    then have "\<not> 15 < r4 - 16" using assms(2) by (simp add: word_less_nat_alt)
    moreover have "unat r3 + 16 < 2 ^ 32" using 0 by simp
    ultimately show ?case by (subst fill_blocks.simps) (simp only: Let_def b if_False, simp)
  next
    case (Suc n)
    have u: "unat (r4 - 16) = 16 * Suc n + k" using Suc.prems by (simp add: unat_sub_if')
    then have gt: "15 < r4 - 16" by (simp add: word_less_nat_alt)
    have s: "unat r3 + 16 < 2 ^ 32" using Suc.prems by simp
    then have u3: "unat (r3 + 16) = unat r3 + 16" using unat_add_of_nat [of r3 16] by simp
    have "fill_blocks (r4 - 16) ((r3 + 16) + 16) lr (mem_fill (unat r3) 16 c m) =
        Some (mem_fill (unat (r3 + 16)) (16 * Suc n) c (mem_fill (unat r3) 16 c m))"
      using Suc.prems u u3 by (intro Suc.IH) simp_all
    also have "mem_fill (unat (r3 + 16)) (16 * Suc n) c (mem_fill (unat r3) 16 c m) = mem_fill (unat r3) (16 * Suc (Suc n)) c m"
      unfolding u3 using mem_fill_add [of "unat r3" 16 "16 * Suc n" c m] by simp
    finally show ?case using gt by (subst fill_blocks.simps) (simp only: Let_def b [OF s] if_True)
  qed
qed

lemma unat_done:
  fixes x :: u32
  shows "4 \<le> unat x \<Longrightarrow> unat (((x - 4) AND NOT 3) + 4) = 4 * (unat x div 4)"
    and "16 \<le> unat x \<Longrightarrow> unat (((x - 16) AND NOT 15) + 16) = 16 * (unat x div 16)"
proof -
  have b: "unat x < 2 ^ 32" using unsigned_less [of x, where 'a = nat] by simp
  show "unat (((x - 4) AND NOT 3) + 4) = 4 * (unat x div 4)" if "4 \<le> unat x"
  proof -
    have "unat (x - 4) = unat x - 4" using that by (simp add: unat_sub_if')
    then have "unat ((x - 4) AND NOT 3) = 4 * ((unat x - 4) div 4)"
      using unat_and_not_mask [of "x - 4" 2] by (simp add: mask_eq_exp_minus_1 minus_mod_eq_mult_div)
    moreover have "4 * ((unat x - 4) div 4) + 4 = 4 * (unat x div 4)" using that by (simp add: le_div_geq)
    ultimately show ?thesis using b by (simp add: unat_word_ariths)
  qed
  show "unat (((x - 16) AND NOT 15) + 16) = 16 * (unat x div 16)" if "16 \<le> unat x"
  proof -
    have "unat (x - 16) = unat x - 16" using that by (simp add: unat_sub_if')
    then have "unat ((x - 16) AND NOT 15) = 16 * ((unat x - 16) div 16)"
      using unat_and_not_mask [of "x - 16" 4] by (simp add: mask_eq_exp_minus_1 minus_mod_eq_mult_div)
    moreover have "16 * ((unat x - 16) div 16) + 16 = 16 * (unat x div 16)" using that by (simp add: le_div_geq)
    ultimately show ?thesis using b by (simp add: unat_word_ariths)
  qed
qed

lemma fill_middle_fills:
  assumes "4 \<le> unat r1" "unat r3 + unat r1 < 2 ^ 32" "le32 lr = replicate 4 (ucast c)"
  shows "fill_middle r1 r3 lr c m = Some (mem_fill (unat r3) (unat r1) (ucast c) m)"
proof -
  let ?q = "unat r1 div 4" let ?p = "unat r1 mod 4"
  obtain n where n: "?q = Suc n" using assms(1) by (metis div_greater_zero_iff gr0_implies_Suc zero_less_numeral)
  have e: "unat r1 = 4 * Suc n + ?p" using n by (metis mult_div_mod_eq)
  let ?r = "r3 + (((r1 - 4) AND NOT 3) + 4)"
  have u: "unat ?r = unat r3 + 4 * Suc n"
    using unat_add_small [of r3 "((r1 - 4) AND NOT 3) + 4"] assms(2) e unfolding unat_done(1) [OF assms(1)] n by linarith
  have "fill_tail (r1 AND 3) ?r c m' = Some (mem_fill (unat ?r) (unat (r1 AND 3)) (ucast c) m')" for m'
    by (rule fill_tail_fills) (unfold u unat_and_low, use assms(2) e in linarith)
  moreover have "fill_words r1 r3 lr m = Some (mem_fill (unat r3) (4 * Suc n) (ucast c) m)"
    using assms e by (intro fill_words_fills [where k = ?p]) simp_all
  ultimately show ?thesis
    using mem_fill_add [of "unat r3" "4 * Suc n" ?p "ucast c" m]
    by (simp only: fill_middle_def Option.bind.simps u unat_and_low e [symmetric])
qed

lemma fill_aligned_fills:
  assumes "unat r3 + unat r1 < 2 ^ 32"
  shows "fill_aligned r1 r3 c m = Some (mem_fill (unat r3) (unat r1) (ucast c) m)"
proof -
  define lr where "lr = ((c AND 255) OR push_bit 8 (c AND 255)) OR push_bit 16 ((c AND 255) OR push_bit 8 (c AND 255))"
  have lr: "le32 lr = replicate 4 (ucast c)" unfolding lr_def by (rule le32_replicated)
  consider (tail) "r1 \<le> 3" | (mid) "\<not> r1 \<le> 3" "r1 \<le> 15" | (blk) "\<not> r1 \<le> 3" "\<not> r1 \<le> 15" by blast
  then show ?thesis
  proof cases
    case tail
    then show ?thesis using fill_tail_fills [OF assms] by (simp add: fill_aligned_def)
  next
    case mid
    then have "fill_aligned r1 r3 c m = fill_middle r1 r3 lr c m"
      unfolding fill_aligned_def Let_def lr_def [symmetric] by simp
    with mid show ?thesis using fill_middle_fills [OF _ assms lr] by (simp add: word_le_nat_alt)
  next
    case blk
    let ?q = "unat r1 div 16" let ?p = "unat r1 mod 16"
    have g: "16 \<le> unat r1" using blk by (simp add: word_le_nat_alt)
    then obtain n where n: "?q = Suc n" by (metis div_greater_zero_iff gr0_implies_Suc zero_less_numeral)
    have e: "unat r1 = 16 * Suc n + ?p" using n by (metis mult_div_mod_eq)
    let ?r = "r3 + (((r1 - 16) AND NOT 15) + 16)"
    have u: "unat ?r = unat r3 + 16 * Suc n"
      using unat_add_small [of r3 "((r1 - 16) AND NOT 15) + 16"] assms e unfolding unat_done(2) [OF g] n by linarith
    have s: "unat ?r + unat (r1 AND 15) < 2 ^ 32" unfolding u unat_and_low using assms e by linarith
    have rest: "(if r1 AND 15 \<le> 3 then fill_tail (r1 AND 15) ?r c m' else fill_middle (r1 AND 15) ?r lr c m') =
        Some (mem_fill (unat ?r) (unat (r1 AND 15)) (ucast c) m')" for m'
      using fill_tail_fills [OF s] fill_middle_fills [OF _ s lr] by (simp add: word_le_nat_alt)
    have b: "fill_blocks r1 (r3 + 16) lr m = Some (mem_fill (unat r3) (16 * Suc n) (ucast c) m)"
      using assms e lr by (intro fill_blocks_fills [where k = ?p]) simp_all
    have "fill_aligned r1 r3 c m = Some (mem_fill (unat ?r) (unat (r1 AND 15)) (ucast c) (mem_fill (unat r3) (16 * Suc n) (ucast c) m))"
      using blk by (simp only: fill_aligned_def Let_def lr_def [symmetric] if_False b Option.bind.simps rest)
    then show ?thesis using mem_fill_add [of "unat r3" "16 * Suc n" ?p "ucast c" m]
      by (simp only: u unat_and_low e [symmetric])
  qed
qed

lemma fill_head_fills:
  assumes "unat r3 + Suc n < 2 ^ 32"
  shows "\<exists>k. k \<le> n \<and> (fill_head (of_nat n) r3 c m = Some (Inl (mem_fill (unat r3) (Suc n) c m)) \<or>
    fill_head (of_nat n) r3 c m = Some (Inr (of_nat (n - k), r3 + of_nat (Suc k), mem_fill (unat r3) (Suc k) c m)))"
  using assms
proof (induction n arbitrary: r3 m)
  case 0
  then show ?case by (subst (1 2) fill_head.simps) (simp add: Let_def mem_fill_1)
next
  case (Suc n)
  have u: "unat (r3 + 1) = unat r3 + 1" using unat_add_of_nat [of r3 1] Suc.prems by simp
  have nz: "of_nat (Suc n) \<noteq> (0 :: u32)" 
  proof -
    have "unat (of_nat (Suc n) :: u32) = Suc n" using Suc.prems by (intro unat_of_nat_small) simp
    then show ?thesis by (metis nat.simps(3) unat_0)
  qed
  have f: "mem_fill (unat (r3 + 1)) k c (mem_fill (unat r3) 1 c m) = mem_fill (unat r3) (Suc k) c m" for k
    unfolding u using mem_fill_add [of "unat r3" 1 k c m] by simp
  show ?case
  proof (cases "(r3 + 1) AND 3 = 0")
    case True
    then have "fill_head (of_nat (Suc n)) r3 c m = Some (Inr (of_nat (Suc n), r3 + of_nat (Suc 0), mem_fill (unat r3) (Suc 0) c m))"
      by (subst fill_head.simps) (simp add: Let_def mem_fill_1)
    then show ?thesis by (intro exI [of _ 0]) simp
  next
    case False
    have step: "fill_head (of_nat (Suc n)) r3 c m = fill_head (of_nat n) (r3 + 1) c (mem_fill (unat r3) 1 c m)"
      using False nz by (subst fill_head.simps) (simp add: Let_def mem_fill_1)
    have "unat (r3 + 1) + Suc n < 2 ^ 32" using Suc.prems u by simp
    from Suc.IH [OF this, of "mem_fill (unat r3) 1 c m"] obtain k where k: "k \<le> n"
      "fill_head (of_nat (Suc n)) r3 c m = Some (Inl (mem_fill (unat r3) (Suc (Suc n)) c m)) \<or>
       fill_head (of_nat (Suc n)) r3 c m = Some (Inr (of_nat (n - k), r3 + 1 + of_nat (Suc k), mem_fill (unat r3) (Suc (Suc k)) c m))"
      unfolding step f by blast
    have "r3 + 1 + of_nat (Suc k) = r3 + of_nat (Suc (Suc k))" by simp
    with k show ?thesis by (intro exI [of _ "Suc k"]) (simp only: diff_Suc_Suc Suc_le_mono simp_thms)
  qed
qed

lemma aeabi_memset_fills:
  assumes "unat r0 + unat r1 < 2 ^ 32"
  shows "aeabi_memset r0 r1 r2 m = Some (mem_fill (unat r0) (unat r1) (ucast r2) m)"
proof (cases "r0 AND 3 = 0")
  case True
  then show ?thesis using fill_aligned_fills [OF assms] by (simp add: aeabi_memset_def)
next
  case False
  show ?thesis
  proof (cases "unat r1")
    case 0
    then show ?thesis using False by (simp add: aeabi_memset_def unat_eq_zero)
  next
    case (Suc n)
    have "of_nat (unat r1) = r1" by simp
    then have r: "r1 - 1 = of_nat n" unfolding Suc by (metis add_diff_cancel_left' of_nat_Suc)
    have "r1 \<noteq> 0" using Suc by auto
    with False have e: "aeabi_memset r0 r1 r2 m = fill_head (of_nat n) r0 (ucast r2) m \<bind>
        (\<lambda>r. case r of Inl m \<Rightarrow> Some m | Inr (r1, r3, m) \<Rightarrow> fill_aligned r1 r3 r2 m)"
      by (simp add: aeabi_memset_def r)
    have s: "unat r0 + Suc n < 2 ^ 32" using assms Suc by simp
    from fill_head_fills [OF s] obtain k where k: "k \<le> n" "fill_head (of_nat n) r0 (ucast r2) m = Some (Inl (mem_fill (unat r0) (Suc n) (ucast r2) m)) \<or>
       fill_head (of_nat n) r0 (ucast r2) m = Some (Inr (of_nat (n - k), r0 + of_nat (Suc k), mem_fill (unat r0) (Suc k) (ucast r2) m))"
      by blast
    have u: "unat (r0 + of_nat (Suc k)) = unat r0 + Suc k" using s k by (intro unat_add_of_nat) simp
    have v: "unat (of_nat (n - k) :: u32) = n - k" using s by (intro unat_of_nat_small) simp
    have "fill_aligned (of_nat (n - k)) (r0 + of_nat (Suc k)) r2 m' = Some (mem_fill (unat r0 + Suc k) (n - k) (ucast r2) m')" for m'
      using fill_aligned_fills [of "r0 + of_nat (Suc k)" "of_nat (n - k)" r2 m'] s k(1) unfolding u v by simp
    moreover have "mem_fill (unat r0 + Suc k) (n - k) (ucast r2) (mem_fill (unat r0) (Suc k) (ucast r2) m) = mem_fill (unat r0) (Suc n) (ucast r2) m"
      using mem_fill_add [of "unat r0" "Suc k" "n - k" "ucast r2" m] k(1) by simp
    ultimately show ?thesis using k(2) unfolding e Suc by (elim disjE) (simp_all only: Option.bind.simps sum.case prod.case)
  qed
qed

section \<open>Properties\<close>

text \<open>
  C26: The two assembly routines compute what their C counterparts promise: \<open>__aeabi_memmove\<close> ends with the
  destination equal to the source as it was, however the two overlap, and \<open>__aeabi_memset\<close> ends with every byte of the
  area equal to the low byte of its argument, whatever the alignment. Nothing else changes, as long as no area wraps around.
\<close>

theorem memory_routines_compute:
  assumes "unat dst + unat n < 2 ^ 32" "unat src + unat n < 2 ^ 32"
  shows "aeabi_memmove dst src n m = Some (mem_write (unat dst) (mem_read m (unat src) (unat n)) m) \<and>
    aeabi_memset dst n c m = Some (mem_write (unat dst) (replicate (unat n) (ucast c)) m)"
  using aeabi_memmove_copies [OF assms, of m] aeabi_memset_fills [OF assms(1), of c m] by (simp add: mem_copy_def)

theorem memory_routines_compute_witness:
  "aeabi_memmove 0x1002 0x1000 5 (\<lambda>a. of_nat a) = Some (mem_write 0x1002 [0, 1, 2, 3, 4] (\<lambda>a. of_nat a)) \<and>
   aeabi_memset 0x1002 5 0xfff (\<lambda>a. of_nat a) = Some (mem_write 0x1002 [0xff, 0xff, 0xff, 0xff, 0xff] (\<lambda>a. of_nat a))"
proof -
  have "mem_read (\<lambda>a. of_nat a) 0x1000 5 = [0, 1, 2, 3, 4 :: u8]" "replicate 5 (ucast (0xfff :: u32)) = [0xff, 0xff, 0xff, 0xff, 0xff :: u8]"
    by code_simp+
  note r = this
  have u: "unat (0x1002 :: u32) = 0x1002" "unat (0x1000 :: u32) = 0x1000" "unat (5 :: u32) = 5" by simp_all
  show ?thesis using memory_routines_compute [of "0x1002" 5 "0x1000" "\<lambda>a. of_nat a" "0xfff"] by (simp only: u r) simp
qed

end
