(* ===== verification/Elf_Boot.thy ===== *)
theory Elf_Boot
  imports Elf_Correct Mem_Routines "HOL-Library.Monad_Syntax"
begin

text \<open>
  The second stage of the boot loader for ELF images, \<^verbatim>\<open>pup/trampolines/elf.bcm2835.S\<close>, and the memory it
  leaves: the composition of the loader that plans the copies with the code that carries them out. The
  code reads its parameters from memory as it goes. Its console output, its stack of 256 bytes inside of its own
  code, and the cache maintenance before the jump are left out; \<open>None\<close> is a panic or a fault.
\<close>

section \<open>The second stage\<close>

text \<open>The loop over the operations, \<open>n\<close> of which remain, from the address in \<open>r8\<close> on.\<close>

fun op_loop :: "nat \<Rightarrow> u32 \<Rightarrow> mem \<Rightarrow> mem option" where
  "op_loop 0 r8 m = Some m"
| "op_loop (Suc n) r8 m =
     (let r11 = load32 m (unat r8); r8 = r8 + 4;
          r0 = load32 m (unat r8); r1 = load32 m (unat r8 + 4); r2 = load32 m (unat r8 + 8); r8' = r8 + 12
      in if r11 = 1 then do { m \<leftarrow> aeabi_memmove r0 r1 r2 m; op_loop n r8' m }
         else if r11 = 2 then do { m \<leftarrow> aeabi_memset r0 r1 r2 m; op_loop n r8' m }
         else None)"

text \<open>
  The run from its entry at \<open>pc\<close>, with the offset of the parameters: the address that control goes to,
  the argument in \<open>r0\<close> and the memory. At an address that is not aligned the code does not run as ARM code.
\<close>

definition second_stage :: "nat \<Rightarrow> u32 \<Rightarrow> mem \<Rightarrow> (u32 \<times> u32 \<times> mem) option" where
  "second_stage off pc m =
     (if pc AND 3 \<noteq> 0 then None
      else do {
        let params = pc + of_nat off;
        let word = (\<lambda>m k. load32 m (unat params + k));
        m \<leftarrow> aeabi_memmove (word m 268) (word m 260) (word m 272) m;
        m \<leftarrow> op_loop (unat (word m 256)) params m;
        Some (word m 264, params + 268, m)
      })"

section \<open>Running the operations\<close>

fun op_target :: "elf_loader_op \<Rightarrow> nat \<times> nat" where
  "op_target (OP_COPY d s n) = (unat d, unat n)"
| "op_target (OP_ZERO d n c) = (unat d, unat n)"

fun exec_op :: "elf_loader_op \<Rightarrow> mem \<Rightarrow> mem" where
  "exec_op (OP_COPY d s n) m = mem_copy (unat d) (unat s) (unat n) m"
| "exec_op (OP_ZERO d n c) m = mem_fill (unat d) (unat n) (ucast c) m"

fun op_fits :: "elf_loader_op \<Rightarrow> bool" where
  "op_fits (OP_COPY d s n) \<longleftrightarrow> unat d + unat n < 2 ^ 32 \<and> unat s + unat n < 2 ^ 32"
| "op_fits (OP_ZERO d n c) \<longleftrightarrow> unat d + unat n < 2 ^ 32"

lemma exec_op_outside:
  "case op_target p of (d, n) \<Rightarrow> i < d \<or> d + n \<le> i \<Longrightarrow> exec_op p m i = m i"
  by (cases p) (auto simp: mem_copy_outside mem_write_outside)

lemma op_words:
  assumes "mem_read m a 16 = op_bytes p"
  shows "load32 m a = (case p of OP_COPY _ _ _ \<Rightarrow> 1 | OP_ZERO _ _ _ \<Rightarrow> 2)"
    "load32 m (a + 4) = (case p of OP_COPY d s n \<Rightarrow> d | OP_ZERO d n c \<Rightarrow> d)"
    "load32 m (a + 8) = (case p of OP_COPY d s n \<Rightarrow> s | OP_ZERO d n c \<Rightarrow> n)"
    "load32 m (a + 12) = (case p of OP_COPY d s n \<Rightarrow> n | OP_ZERO d n c \<Rightarrow> c)"
proof -
  have w: "load32 m (a + k) = of_le32 (take 4 (drop k (op_bytes p)))" if "k + 4 \<le> 16" for k
    unfolding assms [symmetric] load32_def using that by (simp add: drop_mem_read take_mem_read)
  show "load32 m a = (case p of OP_COPY _ _ _ \<Rightarrow> 1 | OP_ZERO _ _ _ \<Rightarrow> 2)" using w [of 0] by (cases p) simp_all
  show "load32 m (a + 4) = (case p of OP_COPY d s n \<Rightarrow> d | OP_ZERO d n c \<Rightarrow> d)" using w [of 4] by (cases p) simp_all
  show "load32 m (a + 8) = (case p of OP_COPY d s n \<Rightarrow> s | OP_ZERO d n c \<Rightarrow> n)" using w [of 8] by (cases p) simp_all
  show "load32 m (a + 12) = (case p of OP_COPY d s n \<Rightarrow> n | OP_ZERO d n c \<Rightarrow> c)" using w [of 12] by (cases p) simp_all
qed

lemma op_loop_runs:
  assumes "\<And>i. i < length ops \<Longrightarrow> mem_read m (unat q + 16 * i) 16 = op_bytes (ops ! i)"
    and "unat q + 16 * length ops < 2 ^ 32"
    and "\<And>p. p \<in> set ops \<Longrightarrow> op_fits p"
    and "\<And>p d n. p \<in> set ops \<Longrightarrow> op_target p = (d, n) \<Longrightarrow> d + n \<le> unat q \<or> unat q + 16 * length ops \<le> d"
  shows "op_loop (length ops) q m = Some (fold exec_op ops m)"
  using assms
proof (induction ops arbitrary: q m)
  case (Cons p ops)
  have "mem_read m (unat q) 16 = op_bytes p" using Cons.prems(1) [of 0] by simp
  note w = op_words [OF this]
  have u: "unat (q + 4) = unat q + 4" "unat (q + 4 + 12) = unat q + 16"
  proof -
    have e: "q + 4 + 12 = q + of_nat 16" "q + 4 = q + of_nat 4" by simp_all
    show "unat (q + 4) = unat q + 4" unfolding e(2) using Cons.prems(2) by (intro unat_add_of_nat) simp
    show "unat (q + 4 + 12) = unat q + 16" unfolding e(1) using Cons.prems(2) by (intro unat_add_of_nat) simp
  qed
  obtain d n where t: "op_target p = (d, n)" by fastforce
  have rest: "op_loop (length ops) (q + 4 + 12) (exec_op p m) = Some (fold exec_op ops (exec_op p m))"
  proof (rule Cons.IH)
    show "unat (q + 4 + 12) + 16 * length ops < 2 ^ 32" using Cons.prems(2) u by simp
    show "op_fits p'" if "p' \<in> set ops" for p' using Cons.prems(3) that by simp
    show "d' + n' \<le> unat (q + 4 + 12) \<or> unat (q + 4 + 12) + 16 * length ops \<le> d'"
      if "p' \<in> set ops" "op_target p' = (d', n')" for p' d' n'
      using Cons.prems(4) [OF _ that(2)] that(1) u by auto
    show "mem_read (exec_op p m) (unat (q + 4 + 12) + 16 * i) 16 = op_bytes (ops ! i)" if "i < length ops" for i
    proof -
      have "mem_read (exec_op p m) (unat q + 16 * Suc i) 16 = mem_read m (unat q + 16 * Suc i) 16"
        using Cons.prems(4) [OF _ t] that t by (intro mem_read_cong exec_op_outside) auto
      then show ?thesis using Cons.prems(1) [of "Suc i"] that u by (simp add: add.assoc)
    qed
  qed
  have "op_fits p" using Cons.prems(3) by simp
  then have "op_loop (Suc (length ops)) q m = op_loop (length ops) (q + 4 + 12) (exec_op p m)"
    using w u by (cases p) (simp_all add: Let_def aeabi_memmove_copies aeabi_memset_fills add.assoc)
  then show ?case using rest by simp
qed simp

section \<open>The segments in memory\<close>

text \<open>The file part of a segment lies inside of the file and is not longer than the segment.\<close>

definition in_file :: "u32 \<Rightarrow> Elf32_Phdr \<Rightarrow> bool" where
  "in_file sz ph \<longleftrightarrow> p_filesz ph \<le> p_memsz ph \<and> unat (p_offset ph) + unat (p_filesz ph) \<le> unat sz"

definition off_range :: "nat \<Rightarrow> range \<Rightarrow> bool" where
  "off_range i r \<longleftrightarrow> i < unat (start r) \<or> unat (stop r) \<le> i"

abbreviation seg_range :: "Elf32_Phdr \<Rightarrow> range" where
  "seg_range ph \<equiv> \<lparr>start = p_vaddr ph, stop = p_vaddr ph + p_memsz ph\<rparr>"

definition seg_ops :: "u32 \<Rightarrow> Elf32_Phdr \<Rightarrow> elf_loader_op list" where
  "seg_ops e ph =
     (if 0 < p_filesz ph then [OP_COPY (p_vaddr ph) (e + p_offset ph) (p_filesz ph)] else []) @
     (if p_filesz ph < p_memsz ph then [OP_ZERO (p_vaddr ph + p_filesz ph) (p_memsz ph - p_filesz ph) 0] else [])"

lemma segment_ops_seg: "segment_ops e (ph # phs) = (if p_type ph = PT_LOAD then seg_ops e ph else []) @ segment_ops e phs"
  by (simp add: segment_ops_Cons seg_ops_def)

lemma load_ranges_Cons:
  "load_ranges (ph # phs) = (if p_type ph = PT_LOAD then seg_range ph # load_ranges phs else load_ranges phs)"
  by (simp add: load_ranges_def)

lemma range_size:
  fixes v n :: u32
  assumes "v < v + n"
  shows "unat (v + n) = unat v + unat n"
proof -
  have "\<not> 2 ^ 32 \<le> unat v + unat n"
  proof
    assume b: "2 ^ 32 \<le> unat v + unat n"
    have "unat (v + n) = (unat v + unat n) mod 2 ^ 32" by (simp add: unat_word_ariths)
    also have "\<dots> < unat v" using b unsigned_less [of v, where 'a = nat] unsigned_less [of n, where 'a = nat]
      by (simp add: le_mod_geq)
    finally show False using assms by (simp add: word_less_nat_alt)
  qed
  then show ?thesis by (intro unat_add_small) simp
qed

lemma seg_sizes:
  assumes "p_vaddr ph < p_vaddr ph + p_memsz ph" "in_file sz ph" "unat e + unat sz < 2 ^ 32"
  shows "unat (p_vaddr ph + p_memsz ph) = unat (p_vaddr ph) + unat (p_memsz ph)"
    "unat (p_vaddr ph + p_filesz ph) = unat (p_vaddr ph) + unat (p_filesz ph)"
    "unat (p_memsz ph - p_filesz ph) = unat (p_memsz ph) - unat (p_filesz ph)"
    "unat (e + p_offset ph) = unat e + unat (p_offset ph)"
    "unat (p_filesz ph) \<le> unat (p_memsz ph)"
    "unat (p_offset ph) + unat (p_filesz ph) \<le> unat sz"
    "unat (p_vaddr ph) + unat (p_memsz ph) < 2 ^ 32"
proof -
  show le: "unat (p_filesz ph) \<le> unat (p_memsz ph)" and o: "unat (p_offset ph) + unat (p_filesz ph) \<le> unat sz"
    using assms(2) by (simp_all add: in_file_def word_le_nat_alt)
  show v: "unat (p_vaddr ph + p_memsz ph) = unat (p_vaddr ph) + unat (p_memsz ph)" by (rule range_size [OF assms(1)])
  show b: "unat (p_vaddr ph) + unat (p_memsz ph) < 2 ^ 32" unfolding v [symmetric] using unsigned_less [of "p_vaddr ph + p_memsz ph", where 'a = nat] by simp
  show "unat (p_vaddr ph + p_filesz ph) = unat (p_vaddr ph) + unat (p_filesz ph)" using b le by (intro unat_add_small) simp
  show "unat (p_memsz ph - p_filesz ph) = unat (p_memsz ph) - unat (p_filesz ph)"
    using le by (intro unat_sub_le) (simp add: word_le_nat_alt)
  show "unat (e + p_offset ph) = unat e + unat (p_offset ph)" using o assms(3) by (intro unat_add_small) simp
qed

text \<open>The operations of one segment.\<close>

lemma seg_ops_inside:
  assumes "p_vaddr ph < p_vaddr ph + p_memsz ph" "in_file sz ph" "unat e + unat sz < 2 ^ 32" "p \<in> set (seg_ops e ph)"
  shows "op_fits p" "op_target p = (d, n) \<Longrightarrow> unat (start (seg_range ph)) \<le> d \<and> d + n \<le> unat (stop (seg_range ph))"
  using seg_sizes [OF assms(1-3)] assms(3,4) by (auto simp: seg_ops_def split: if_splits)

lemma exec_seg:
  assumes "p_vaddr ph < p_vaddr ph + p_memsz ph" "in_file sz ph" "unat e + unat sz < 2 ^ 32"
  shows "fold exec_op (seg_ops e ph) m i =
    (if unat (p_vaddr ph) \<le> i \<and> i < unat (p_vaddr ph) + unat (p_filesz ph) then m (unat e + unat (p_offset ph) + (i - unat (p_vaddr ph)))
     else if unat (p_vaddr ph) + unat (p_filesz ph) \<le> i \<and> i < unat (p_vaddr ph) + unat (p_memsz ph) then 0
     else m i)"
proof -
  note z = seg_sizes [OF assms]
  have f: "\<not> 0 < p_filesz ph \<Longrightarrow> unat (p_filesz ph) = 0" by (simp add: word_less_nat_alt)
  have g: "\<not> p_filesz ph < p_memsz ph \<Longrightarrow> unat (p_filesz ph) = unat (p_memsz ph)" using z(5) by (simp add: word_less_nat_alt)
  show ?thesis using z f g by (auto simp: seg_ops_def mem_copy_def mem_write_def)
qed

lemma segment_ops_inside:
  assumes "\<forall>r \<in> set (load_ranges phs). start r < stop r" "\<forall>ph \<in> set phs. p_type ph = PT_LOAD \<longrightarrow> in_file sz ph"
    and "unat e + unat sz < 2 ^ 32" "p \<in> set (segment_ops e phs)"
  shows "op_fits p" "op_target p = (d, n) \<Longrightarrow> \<exists>r \<in> set (load_ranges phs). unat (start r) \<le> d \<and> d + n \<le> unat (stop r)"
proof -
  from assms(4) obtain ph where ph: "ph \<in> set phs" "p_type ph = PT_LOAD" "p \<in> set (seg_ops e ph)"
    unfolding segment_ops_def seg_ops_def by (auto split: if_splits)
  then have r: "seg_range ph \<in> set (load_ranges phs)" by (auto simp: load_ranges_def)
  with assms(1) have "p_vaddr ph < p_vaddr ph + p_memsz ph" by auto
  note s = seg_ops_inside [OF this _ assms(3) ph(3)]
  show "op_fits p" using s(1) assms(2) ph by blast
  show "op_target p = (d, n) \<Longrightarrow> \<exists>r \<in> set (load_ranges phs). unat (start r) \<le> d \<and> d + n \<le> unat (stop r)"
    using s(2) assms(2) ph r by blast
qed

definition seg_loaded :: "mem \<Rightarrow> nat \<Rightarrow> Elf32_Phdr \<Rightarrow> mem \<Rightarrow> bool" where
  "seg_loaded m b0 ph m' \<longleftrightarrow>
     (\<forall>i < unat (p_filesz ph). m' (unat (p_vaddr ph) + i) = m (b0 + unat (p_offset ph) + i)) \<and>
     (\<forall>i. unat (p_filesz ph) \<le> i \<longrightarrow> i < unat (p_memsz ph) \<longrightarrow> m' (unat (p_vaddr ph) + i) = 0)"

lemma exec_segments:
  assumes "sorted_wrt apart (load_ranges phs)" "\<forall>r \<in> set (load_ranges phs). start r < stop r"
    and "\<forall>ph \<in> set phs. p_type ph = PT_LOAD \<longrightarrow> in_file sz ph" and "unat e + unat sz < 2 ^ 32"
    and "\<forall>r \<in> set (load_ranges phs). unat (stop r) \<le> unat e \<or> unat e + unat sz \<le> unat (start r)"
  shows "(\<forall>i. (\<forall>r \<in> set (load_ranges phs). off_range i r) \<longrightarrow> fold exec_op (segment_ops e phs) m i = m i) \<and>
    (\<forall>ph \<in> set phs. p_type ph = PT_LOAD \<longrightarrow> seg_loaded m (unat e) ph (fold exec_op (segment_ops e phs) m))"
  using assms
proof (induction phs arbitrary: m)
  case Nil
  then show ?case by (simp add: segment_ops_def)
next
  case (Cons ph phs)
  show ?case
  proof (cases "p_type ph = PT_LOAD")
    case False
    with Cons show ?thesis by (simp add: segment_ops_seg load_ranges_Cons)
  next
    case True
    let ?m = "fold exec_op (seg_ops e ph) m" let ?m' = "fold exec_op (segment_ops e phs) ?m"
    have ap: "\<forall>r \<in> set (load_ranges phs). apart (seg_range ph) r" and v: "p_vaddr ph < p_vaddr ph + p_memsz ph"
      and f: "in_file sz ph" and ee: "unat (p_vaddr ph + p_memsz ph) \<le> unat e \<or> unat e + unat sz \<le> unat (p_vaddr ph)"
      using Cons.prems True by (simp_all add: load_ranges_Cons)
    note z = seg_sizes [OF v f Cons.prems(4)] and x = exec_seg [OF v f Cons.prems(4), of m]
    have "\<forall>r \<in> set (load_ranges phs). start r < stop r" "sorted_wrt apart (load_ranges phs)"
      "\<forall>r \<in> set (load_ranges phs). unat (stop r) \<le> unat e \<or> unat e + unat sz \<le> unat (start r)"
      using Cons.prems True by (simp_all add: load_ranges_Cons)
    then have ih: "\<And>i. \<forall>r \<in> set (load_ranges phs). off_range i r \<Longrightarrow> ?m' i = ?m i"
      "\<And>p. p \<in> set phs \<Longrightarrow> p_type p = PT_LOAD \<Longrightarrow> seg_loaded ?m (unat e) p ?m'"
      using Cons.IH [of ?m] Cons.prems(3,4) by auto
    have e: "fold exec_op (segment_ops e (ph # phs)) m = ?m'" using True by (simp add: segment_ops_seg)
    have src: "?m (unat e + j) = m (unat e + j)" if "j < unat sz" for j
      using that ee z(1,5) by (auto simp: x)
    have own: "?m' (unat (p_vaddr ph) + i) = ?m (unat (p_vaddr ph) + i)" if "i < unat (p_memsz ph)" for i
      using that ap z(1) by (intro ih(1)) (auto simp: off_range_def apart_def word_le_nat_alt)
    have "seg_loaded m (unat e) ph ?m'"
      unfolding seg_loaded_def using own z(5) by (auto simp: x)
    moreover have "seg_loaded m (unat e) p ?m'" if "p \<in> set phs" "p_type p = PT_LOAD" for p
      using ih(2) [OF that] src Cons.prems(3) that by (force simp: seg_loaded_def in_file_def add.assoc)
    moreover have "?m' i = m i" if "\<forall>r \<in> set (load_ranges (ph # phs)). off_range i r" for i
      using that True ih(1) [of i] z(1,5) by (auto simp: load_ranges_Cons off_range_def x)
    ultimately show ?thesis unfolding e by auto
  qed
qed

section \<open>The place of the second stage\<close>

lemma allocate_space_grows:
  assumes "elf_wf es" "allocate_space sz al force es = Ok (r, es')"
  shows "elf_wf es' \<and> set (ranges es) \<subseteq> set (ranges es')"
proof -
  consider "es' = es" | p c where "claim_space \<lparr>start = p, stop = p + sz\<rparr> force es = Ok (c, es')"
    using assms(2) unfolding allocate_space_def by (auto split: if_splits option.splits checked.splits prod.splits)
  then show ?thesis
  proof cases
    case 1
    then show ?thesis using assms(1) by simp
  next
    case 2
    note c = claim_space_Ok [OF assms(1) 2]
    then show ?thesis using assms(1) by (cases c) auto
  qed
qed

lemma allocate_boot_grows:
  assumes "elf_wf es" "allocate_boot env sz hi es = Ok (r, es')"
  shows "elf_wf es' \<and> set (ranges es) \<subseteq> set (ranges es')"
proof -
  obtain r1 es1 where a: "allocate_space sz \<lparr>start = 0, stop = prog_start env\<rparr> True es = Ok (r1, es1)"
    using assms(2) unfolding allocate_boot_def by (auto split: checked.splits prod.splits)
  note g = allocate_space_grows [OF assms(1) a]
  show ?thesis
  proof (cases r1)
    case (Some q)
    then show ?thesis using a assms(2) g by (simp add: allocate_boot_def)
  next
    case None
    then have "allocate_space sz \<lparr>start = prog_end env, stop = hi\<rparr> True es1 = Ok (r, es')"
      using a assms(2) by (simp add: allocate_boot_def)
    then show ?thesis using allocate_space_grows [OF conjunct1 [OF g]] g by blast
  qed
qed

lemma allocate_space_None:
  assumes "elf_wf es" "allocate_space sz al True es = Ok (None, es')" "sorted_map (ranges es)"
    and "clear_of (start al) (ranges es)" "clear_of (stop al) (ranges es)" "start al \<le> stop al" "unat (stop al) + unat sz < 2 ^ 32"
  shows "alloc_scan sz al (start al) (ranges es) = None \<and> es' = es"
proof (cases "alloc_scan sz al (start al) (ranges es)")
  case None
  with assms(2) show ?thesis by (auto simp: allocate_space_def ranges_def split: if_splits)
next
  case (Some p)
  have "sz \<noteq> 0" using assms(2) by (auto simp: allocate_space_def)
  then have "0 < unat sz" by (simp add: unat_gt_0)
  have "free_at sz al (start al) (ranges es) p" using alloc_scan_spec [OF assms(3-7)] Some by simp
  then have "unat p + unat sz \<le> unat (stop al)" by (simp add: free_at_def)
  then have "unat p \<noteq> unat UINTPTR_MAX" using assms(7) \<open>0 < unat sz\<close> unsigned_less [of "stop al", where 'a = nat]
    by (simp add: UINTPTR_MAX_def)
  then have "p \<noteq> UINTPTR_MAX" by auto
  moreover obtain claimed where c: "claim_space \<lparr>start = p, stop = p + sz\<rparr> True es = Ok (claimed, es')" "\<not> (claimed \<and> p \<noteq> UINTPTR_MAX)"
    using assms(2) Some by (auto simp: allocate_space_def ranges_def split: if_splits checked.splits prod.splits)
  ultimately have "\<not> claimed" by blast
  then show ?thesis using claim_space_Ok [OF assms(1) c(1)] by simp
qed

text \<open>It meets no claimed range and not the running loader.\<close>

lemma allocate_boot_ok:
  assumes wf: "elf_wf es" and ok: "allocate_boot env sz hi es = Ok (Some q, es')" and s: "sorted_map (ranges es)"
    and c: "clear_of (prog_start env) (ranges es)" "clear_of (prog_end env) (ranges es)" "clear_of hi (ranges es)"
    and l: "prog_start env \<le> prog_end env" "prog_end env \<le> hi" and b: "unat hi + unat sz < 2 ^ 32"
  shows "(\<forall>r \<in> set (ranges es). unat (stop r) \<le> unat q \<or> unat q + unat sz \<le> unat (start r)) \<and>
    (unat q + unat sz \<le> unat (prog_start env) \<or> prog_end env \<le> q) \<and> unat q + unat sz \<le> unat hi"
proof -
  let ?lo = "\<lparr>start = 0, stop = prog_start env\<rparr>" let ?hi = "\<lparr>start = prog_end env, stop = hi\<rparr>"
  have b1: "unat (prog_start env) + unat sz < 2 ^ 32" using l b by (simp add: word_le_nat_alt)
  have c0: "clear_of 0 (ranges es)" by (simp add: clear_of_def)
  obtain r1 es1 where a: "allocate_space sz ?lo True es = Ok (r1, es1)"
    using ok unfolding allocate_boot_def by (auto split: checked.splits prod.splits)
  show ?thesis
  proof (cases r1)
    case (Some q1)
    then have "q1 = q" using ok a by (simp add: allocate_boot_def)
    then have "free_at sz ?lo 0 (ranges es) q"
      using allocate_space_ok [OF wf a [unfolded Some] s] c0 c(1) b1 by simp
    then show ?thesis using l by (auto simp: free_at_def word_le_nat_alt)
  next
    case None
    then have "es1 = es" using allocate_space_None [OF wf a [unfolded None] s] c0 c(1) b1 by simp
    then have "allocate_space sz ?hi True es = Ok (Some q, es')" using ok a None by (simp add: allocate_boot_def)
    from this have "free_at sz ?hi (prog_end env) (ranges es) q"
      using allocate_space_ok [OF wf _ s, of sz ?hi True q es'] c(2,3) l(2) b by simp
    then show ?thesis by (auto simp: free_at_def word_le_nat_alt)
  qed
qed

text \<open>What a successful load has decided: the places of the file and of the second stage, and the operations.\<close>

lemma load_elf_image_decides:
  assumes wf: "elf_wf es" and ok: "load_elf_image env a b e32 ele mach mem_hi cmd es m = Ok (True, es', m')"
    and segs: "segments_ok mem_hi (phdrs m a (read_ehdr m (unat a)))" and hi: "unat mem_hi + unat (b - a) < 2 ^ 32"
    and c: "clear_of (prog_start env) (ranges es')" "clear_of (prog_end env) (ranges es')"
    and l: "prog_start env \<le> prog_end env" "prog_end env \<le> mem_hi"
    and sz: "unat mem_hi + length (trampoline_code env) + length cmd < 2 ^ 32"
  shows "\<exists>elf_alloc es4. elf_wf es4 \<and> ops_of es4 = segment_ops elf_alloc (phdrs m a (read_ehdr m (unat a))) \<and>
    (es', m') = install_boot env (elf_trampoline_ptr es') a elf_alloc (b - a) cmd es4 m \<and>
    unat elf_alloc + unat (b - a) \<le> unat mem_hi \<and>
    (\<forall>r \<in> set (load_ranges (phdrs m a (read_ehdr m (unat a)))). unat (stop r) \<le> unat elf_alloc \<or> unat elf_alloc + unat (b - a) \<le> unat (start r)) \<and>
    (\<forall>r \<in> insert \<lparr>start = elf_alloc, stop = elf_alloc + (b - a)\<rparr> (set (load_ranges (phdrs m a (read_ehdr m (unat a))))).
      unat (stop r) \<le> unat (elf_trampoline_ptr es') \<or>
      unat (elf_trampoline_ptr es') + (length (trampoline_code env) + length cmd) \<le> unat (start r)) \<and>
    unat (elf_trampoline_ptr es') + (length (trampoline_code env) + length cmd) \<le> unat mem_hi"
proof -
  let ?phs = "phdrs m a (read_ehdr m (unat a))" and ?es = "es\<lparr>range_count := 0, op_count := 0\<rparr>"
  let ?al = "\<lparr>start = 0, stop = mem_hi\<rparr>" let ?bsz = "of_nat (length (trampoline_code env)) + of_nat (length cmd) :: u32"
  from load_elf_image_success [OF ok] obtain es1 ea es2 es3 ba es4 where
    st: "claim_segments ?phs ?es = Ok es1" "allocate_space (b - a) ?al True es1 = Ok (Some ea, es2)"
      "register_segments ea ?phs es2 = (True, es3)" "allocate_boot env ?bsz mem_hi es3 = Ok (Some ba, es4)"
      "(es', m') = install_boot env ba a ea (b - a) cmd es4 m"
    by blast
  have wf0: "elf_wf ?es" and r0: "ranges ?es = []" "ops_of ?es = []" using wf by (simp_all add: elf_wf_def ranges_def ops_of_def)
  from claim_segments_ok [OF wf0, of ?phs] st(1) segs r0 have
    k: "elf_wf es1" "same_ops ?es es1" "ranges es1 = fold insert_range (load_ranges ?phs) []"
    by (auto simp: segments_ok_def)
  from fold_insert_sorted [of "[]" "load_ranges ?phs"] segs have
    o: "sorted_map (ranges es1)" "set (ranges es1) = set (load_ranges ?phs)"
    by (auto simp: k(3) segments_ok_def)
  have "clear_of mem_hi (ranges es1)" "clear_of 0 (ranges es1)"
    using segs o(2) by (auto simp: clear_of_def segments_ok_def)
  note al = allocate_space_ok [OF k(1) st(2) o(1)] allocate_space_first_fit [OF k(1) st(2) o(1)]
  have fa: "free_at (b - a) ?al 0 (ranges es1) ea" "elf_wf es2" "same_ops es1 es2"
    "set (ranges es2) = insert \<lparr>start = ea, stop = ea + (b - a)\<rparr> (set (ranges es1))" "sorted_map (ranges es2)"
    using al \<open>clear_of mem_hi (ranges es1)\<close> \<open>clear_of 0 (ranges es1)\<close> hi by auto
  from register_segments_ok [OF fa(2) st(3)] have g: "elf_wf es3" "ops_of es3 = ops_of es2 @ segment_ops ea ?phs" "ranges es3 = ranges es2"
    by (auto simp: same_map_def ranges_def)
  have "ops_of es2 = []" using same_ops_ops [OF same_ops_trans [OF k(2) fa(3)]] r0 by simp
  moreover have "ops_of es4 = ops_of es3" using allocate_boot_same_ops [OF st(4)] by (rule same_ops_ops)
  ultimately have ops: "ops_of es4 = segment_ops ea ?phs" using g by simp
  have tp: "elf_trampoline_ptr es' = ba" and rs: "ranges es' = ranges es4" using st(5) by (auto simp: install_boot_def Let_def ranges_def)
  have grow: "elf_wf es4" "set (ranges es3) \<subseteq> set (ranges es4)" using allocate_boot_grows [OF g(1) st(4)] by auto
  have u: "unat ?bsz = length (trampoline_code env) + length cmd"
    using sz unat_of_nat_small [of "length (trampoline_code env) + length cmd"] by simp
  have ea: "unat ea + unat (b - a) \<le> unat mem_hi" using fa(1) by (simp add: free_at_def)
  have eu: "unat (ea + (b - a)) = unat ea + unat (b - a)" using ea hi by (intro unat_add_small) simp
  have "clear_of mem_hi (ranges es3)" using segs o(2) ea eu fa(4) g(3) by (auto simp: clear_of_def segments_ok_def word_le_nat_alt)
  moreover have "clear_of (prog_start env) (ranges es3)" "clear_of (prog_end env) (ranges es3)"
    using c grow(2) unfolding rs by (auto simp: clear_of_def)
  moreover have "sorted_map (ranges es3)" using g(3) fa(5) by simp
  ultimately have bo: "\<forall>r \<in> set (ranges es3). unat (stop r) \<le> unat ba \<or> unat ba + unat ?bsz \<le> unat (start r)" "unat ba + unat ?bsz \<le> unat mem_hi"
    using allocate_boot_ok [OF g(1) st(4)] l sz u by auto
  show ?thesis
    using grow(1) ops st(5) ea fa(1,4) o(2) bo g(3) u unfolding tp
    by (intro exI [of _ ea] exI [of _ es4]) (simp add: free_at_def)
qed

section \<open>The parameters in memory\<close>

lemma concat_chunk:
  "i < length xs \<Longrightarrow> take 16 (drop (16 * i) (concat (map op_bytes xs))) = op_bytes (xs ! i)"
proof (induction xs arbitrary: i)
  case (Cons x xs)
  then show ?case by (cases i) simp_all
qed simp

text \<open>What \<open>install_boot\<close> leaves in the parameter block at \<open>P\<close>, when the code ends with the block.\<close>

lemma install_boot_params:
  assumes i: "(es', m') = install_boot env q a e sz cmd es m" and wf: "elf_wf es"
    and P: "P = unat q + params_off env" and c: "params_off env + 280 = length (trampoline_code env)"
    and cl: "length cmd < 2 ^ 32"
  shows "\<And>i. i < op_count es \<Longrightarrow> mem_read m' (P + 16 * i) 16 = op_bytes (ops_of es ! i)"
    "load32 m' (P + 256) = of_nat (op_count es)" "load32 m' (P + 260) = a"
    "load32 m' (P + 268) = e" "load32 m' (P + 272) = sz" "load32 m' (P + 276) = of_nat (length cmd)"
    "mem_read m' (P + 280) (length cmd) = cmd"
    "load32 m' (P + 264) = e_entry (read_ehdr (mem_write P (params_head es a) (mem_write (unat q) (trampoline_code env) m)) (unat a))"
    "\<And>i. i < unat q \<or> unat q + (length (trampoline_code env) + length cmd) \<le> i \<Longrightarrow> m' i = m i"
proof -
  have L: "length (loader_ops es) = 16" "op_count es \<le> 16" using wf by (simp_all add: elf_wf_def ELF_MAX_SEGMENTS_def)
  let ?h = "params_head es a" let ?m1 = "mem_write (unat q) (trampoline_code env) m"
  let ?t = "params_tail (e_entry (read_ehdr (mem_write P ?h ?m1) (unat a))) e sz cmd"
  have "params_head (es\<lparr>elf_trampoline_ptr := q\<rparr>) a = ?h" by (simp add: params_head_def)
  then have m': "m' = mem_write (P + 264) ?t (mem_write P ?h ?m1)" using i by (simp add: install_boot_def Let_def P)
  have lh: "length ?h = 264" using L(1) by (rule length_params_head)
  have lt: "length ?t = 16 + length cmd" by (simp add: params_tail_def)
  have hd: "mem_read m' (P + k) n = take n (drop k ?h)" if "k + n \<le> 264" for k n
    unfolding m' using that lh by (simp add: mem_read_write_disjoint mem_read_write_part)
  have tl: "mem_read m' (P + (264 + k)) n = take n (drop k ?t)" if "k + n \<le> 16 + length cmd" for k n
    unfolding m' using that lt mem_read_write_part [of k n ?t "P + 264"] by (simp add: add.assoc)
  show "mem_read m' (P + 16 * i) 16 = op_bytes (ops_of es ! i)" if "i < op_count es" for i
  proof -
    have "take 16 (drop (16 * i) ?h) = take 16 (drop (16 * i) (concat (map op_bytes (loader_ops es))))"
      using that L by (simp add: params_head_def length_concat comp_def sum_list_triv)
    then show ?thesis using hd [of "16 * i" 16] concat_chunk [of i "loader_ops es"] that L by (simp add: ops_of_def)
  qed
  have lc: "length (concat (map op_bytes (loader_ops es))) = 256" using L(1) by (simp add: length_concat comp_def sum_list_triv)
  show "load32 m' (P + 256) = of_nat (op_count es)" "load32 m' (P + 260) = a"
    using hd [of 256 4] hd [of 260 4] lc by (simp_all add: load32_def params_head_def)
  show "load32 m' (P + 268) = e" "load32 m' (P + 272) = sz" "load32 m' (P + 276) = of_nat (length cmd)"
    "mem_read m' (P + 280) (length cmd) = cmd"
    "load32 m' (P + 264) = e_entry (read_ehdr (mem_write P ?h ?m1) (unat a))"
    using tl [of 4 4] tl [of 8 4] tl [of 12 4] tl [of 16 "length cmd"] tl [of 0 4] by (simp_all add: load32_def params_tail_def)
  show "m' i = m i" if "i < unat q \<or> unat q + (length (trampoline_code env) + length cmd) \<le> i" for i
    unfolding m' using that lh lt P c by (subst mem_write_outside, force)+ simp
qed

text \<open>
  The run over a parameter block that lies apart from the file's new place and from all targets, within a range
  from \<open>q\<close> to \<open>h\<close>: the move, the operations, and the range is as before.
\<close>

lemma second_stage_runs:
  assumes al: "q AND 3 = 0" and P: "unat (q + of_nat off) = unat q + off" and h: "unat q + off + 280 \<le> h" "h < 2 ^ 32"
    and ops: "\<And>i. i < length ops \<Longrightarrow> mem_read m (unat q + off + 16 * i) 16 = op_bytes (ops ! i)" "length ops \<le> 16"
      "load32 m (unat q + off + 256) = of_nat (length ops)"
    and e: "unat (load32 m (unat q + off + 268)) + unat (load32 m (unat q + off + 272)) < 2 ^ 32"
      "unat (load32 m (unat q + off + 260)) + unat (load32 m (unat q + off + 272)) < 2 ^ 32"
      "unat (load32 m (unat q + off + 268)) + unat (load32 m (unat q + off + 272)) \<le> unat q \<or> h \<le> unat (load32 m (unat q + off + 268))"
    and fit: "\<And>p. p \<in> set ops \<Longrightarrow> op_fits p"
    and out: "\<And>p d n. p \<in> set ops \<Longrightarrow> op_target p = (d, n) \<Longrightarrow> d + n \<le> unat q \<or> h \<le> d"
  defines "m1 \<equiv> mem_copy (unat (load32 m (unat q + off + 268))) (unat (load32 m (unat q + off + 260))) (unat (load32 m (unat q + off + 272))) m"
  shows "second_stage off q m = Some (load32 m (unat q + off + 264), q + of_nat off + 268, fold exec_op ops m1)"
    "\<And>i. unat q \<le> i \<Longrightarrow> i < h \<Longrightarrow> fold exec_op ops m1 i = m i"
proof -
  have m1q: "m1 i = m i" if "unat q \<le> i" "i < h" for i
    unfolding m1_def using that e(3) by (intro mem_copy_outside) auto
  have fold_out: "fold exec_op xs m1 i = m1 i" if "set xs \<subseteq> set ops" "unat q \<le> i" "i < h" for xs i
    using that(1)
  proof (induction xs rule: rev_induct)
    case (snoc x xs)
    obtain d n where t: "op_target x = (d, n)" by fastforce
    have "i < d \<or> d + n \<le> i" using out [OF _ t] snoc.prems that(2,3) by force
    then have "exec_op x (fold exec_op xs m1) i = fold exec_op xs m1 i" by (intro exec_op_outside) (simp add: t)
    then show ?case using snoc by simp
  qed simp
  show frame: "fold exec_op ops m1 i = m i" if "unat q \<le> i" "i < h" for i
    using fold_out [OF order_refl that] m1q [OF that] by simp
  have word: "load32 x (unat q + off + k) = load32 m (unat q + off + k)"
    if "\<And>i. unat q \<le> i \<Longrightarrow> i < h \<Longrightarrow> x i = m i" "k + 4 \<le> 280" for x k
    unfolding load32_def using that h by (intro arg_cong [of _ _ of_le32] mem_read_cong) auto
  have run: "op_loop (length ops) (q + of_nat off) m1 = Some (fold exec_op ops m1)"
  proof (rule op_loop_runs)
    show "mem_read m1 (unat (q + of_nat off) + 16 * i) 16 = op_bytes (ops ! i)" if "i < length ops" for i
    proof -
      have "mem_read m1 (unat q + off + 16 * i) 16 = mem_read m (unat q + off + 16 * i) 16"
        using that ops(2) h by (intro mem_read_cong m1q) auto
      then show ?thesis using ops(1) [OF that] unfolding P by simp
    qed
    show "unat (q + of_nat off) + 16 * length ops < 2 ^ 32" unfolding P using h ops(2) by linarith
    show "d + n \<le> unat (q + of_nat off) \<or> unat (q + of_nat off) + 16 * length ops \<le> d" if "p \<in> set ops" "op_target p = (d, n)" for p d n
      unfolding P using out [OF that] h ops(2) by linarith
  qed (rule fit)
  have mv: "aeabi_memmove (load32 m (unat q + off + 268)) (load32 m (unat q + off + 260)) (load32 m (unat q + off + 272)) m = Some m1"
    unfolding m1_def by (rule aeabi_memmove_copies [OF e(1,2)])
  have cnt: "unat (of_nat (length ops) :: u32) = length ops" using ops(2) by (intro unat_of_nat_small) simp
  show "second_stage off q m = Some (load32 m (unat q + off + 264), q + of_nat off + 268, fold exec_op ops m1)"
    unfolding second_stage_def Let_def P mv using al
    by (simp add: mv word [OF m1q] ops(3) cnt run word [OF frame])
qed

section \<open>An accepted image runs\<close>

text \<open>The second stage is aligned, ends with its parameters, and does not lie on the received file.\<close>

definition stage_clear :: "elf_env \<Rightarrow> u32 \<Rightarrow> u32 \<Rightarrow> u8 list \<Rightarrow> u32 \<Rightarrow> bool" where
  "stage_clear env a b cmd q \<longleftrightarrow>
     params_off env + 280 = length (trampoline_code env) \<and> q AND 3 = 0 \<and>
     (unat a + unat (b - a) \<le> unat q \<or> unat q + (length (trampoline_code env) + length cmd) \<le> unat a)"

text \<open>The operations on the moved file: the segments are loaded and the file is intact.\<close>

lemma moved_image_loads:
  assumes "segments_ok hi phs" and inf: "\<forall>ph \<in> set phs. p_type ph = PT_LOAD \<longrightarrow> in_file sz ph"
    and e32: "unat e + unat sz < 2 ^ 32"
    and esep: "\<forall>r \<in> set (load_ranges phs). unat (stop r) \<le> unat e \<or> unat e + unat sz \<le> unat (start r)"
    and img: "\<And>i. i < unat sz \<Longrightarrow> m' (unat a + i) = m (unat a + i)"
  defines "m2 \<equiv> fold exec_op (segment_ops e phs) (mem_copy (unat e) (unat a) (unat sz) m')"
  shows "\<forall>ph \<in> set phs. p_type ph = PT_LOAD \<longrightarrow> seg_loaded m (unat a) ph m2"
    "mem_read m2 (unat e) (unat sz) = mem_read m (unat a) (unat sz)"
proof -
  let ?m1 = "mem_copy (unat e) (unat a) (unat sz) m'"
  have m1e: "?m1 (unat e + i) = m (unat a + i)" if "i < unat sz" for i
    using that img by (simp add: mem_copy_def mem_write_def)
  have "\<forall>r \<in> set (load_ranges phs). start r < stop r" "sorted_wrt apart (load_ranges phs)"
    using assms(1) by (simp_all add: segments_ok_def)
  note seg = exec_segments [OF this(2,1) inf e32 esep, of ?m1, folded m2_def]
  have m2e: "m2 (unat e + i) = m (unat a + i)" if "i < unat sz" for i
  proof -
    have "\<forall>r \<in> set (load_ranges phs). off_range (unat e + i) r" using esep that by (auto simp: off_range_def)
    then show ?thesis using seg m1e [OF that] by simp
  qed
  then show "mem_read m2 (unat e) (unat sz) = mem_read m (unat a) (unat sz)" by (simp add: mem_read_eq_iff)
  show "\<forall>ph \<in> set phs. p_type ph = PT_LOAD \<longrightarrow> seg_loaded m (unat a) ph m2"
    using seg inf m1e by (force simp: seg_loaded_def in_file_def add.assoc)
qed

text \<open>The entry point is read after the second stage is written, from a file that is still there.\<close>

lemma entry_kept:
  assumes "elf_wf es" "stage_clear env a b cmd q" "52 \<le> unat (b - a)"
  shows "e_entry (read_ehdr (mem_write (unat q + params_off env) (params_head es a) (mem_write (unat q) (trampoline_code env) m)) (unat a)) =
    e_entry (read_ehdr m (unat a))"
proof -
  have "mem_read (mem_write (unat q + params_off env) (params_head es a) (mem_write (unat q) (trampoline_code env) m)) (unat a + 24) 4 =
      mem_read m (unat a + 24) 4"
    using assms length_params_head [of es a]
    by (intro mem_read_cong) (auto simp: stage_clear_def mem_write_outside elf_wf_def ELF_MAX_SEGMENTS_def)
  then show ?thesis by (simp add: read_ehdr_def load32_def)
qed

text \<open>From an accepted image to the running program.\<close>

lemma accepted_image_runs:
  assumes "elf_wf es" "load_elf_image env a b e32 ele mach mem_hi cmd es m = Ok (True, es', m')"
    and "segments_ok mem_hi (phdrs m a (read_ehdr m (unat a)))"
    and "\<forall>ph \<in> set (phdrs m a (read_ehdr m (unat a))). p_type ph = PT_LOAD \<longrightarrow> in_file (b - a) ph"
    and "52 \<le> unat (b - a)" "unat a + unat (b - a) < 2 ^ 32" "unat mem_hi + unat (b - a) < 2 ^ 32"
    and "unat mem_hi + length (trampoline_code env) + length cmd < 2 ^ 32"
    and "prog_start env \<le> prog_end env" "prog_end env \<le> mem_hi"
    and "clear_of (prog_start env) (ranges es')" "clear_of (prog_end env) (ranges es')"
    and "stage_clear env a b cmd (elf_trampoline_ptr es')"
  shows "\<exists>args m'' elf. second_stage (params_off env) (elf_trampoline_ptr es') m' = Some (e_entry (read_ehdr m (unat a)), args, m'') \<and>
    (\<forall>ph \<in> set (phdrs m a (read_ehdr m (unat a))). p_type ph = PT_LOAD \<longrightarrow> seg_loaded m (unat a) ph m'') \<and>
    mem_read m'' (unat elf) (unat (b - a)) = mem_read m (unat a) (unat (b - a)) \<and>
    load32 m'' (unat args) = elf \<and> load32 m'' (unat args + 4) = b - a \<and>
    load32 m'' (unat args + 8) = of_nat (length cmd) \<and> mem_read m'' (unat args + 12) (length cmd) = cmd"
proof -
  let ?phs = "phdrs m a (read_ehdr m (unat a))" let ?q = "elf_trampoline_ptr es'" let ?sz = "b - a"
  let ?L = "length (trampoline_code env) + length cmd" let ?P = "unat ?q + params_off env"
  from load_elf_image_decides [OF assms(1-3,7,11,12,9,10,8)] obtain ea es4 where
    wf: "elf_wf es4" and ops: "ops_of es4 = segment_ops ea ?phs"
    and ins: "(es', m') = install_boot env ?q a ea ?sz cmd es4 m" and eh: "unat ea + unat ?sz \<le> unat mem_hi"
    and esep: "\<forall>r \<in> set (load_ranges ?phs). unat (stop r) \<le> unat ea \<or> unat ea + unat ?sz \<le> unat (start r)"
    and qsep: "\<forall>r \<in> insert \<lparr>start = ea, stop = ea + ?sz\<rparr> (set (load_ranges ?phs)). unat (stop r) \<le> unat ?q \<or> unat ?q + ?L \<le> unat (start r)"
    and qh: "unat ?q + ?L \<le> unat mem_hi"
    by blast
  have P: "unat (?q + of_nat (params_off env)) = ?P"
    using qh assms(8,13) by (intro unat_add_of_nat) (simp add: stage_clear_def)
  have L: "params_off env + 280 = length (trampoline_code env)" and al: "?q AND 3 = 0"
    and h: "?P + 280 \<le> unat ?q + ?L" "unat ?q + ?L < 2 ^ 32" and cl: "length cmd < 2 ^ 32"
    using assms(8,13) qh by (simp_all add: stage_clear_def)
  note w = install_boot_params [OF ins wf refl L cl]
  have e32: "unat ea + unat ?sz < 2 ^ 32" using eh assms(7) by simp
  have eu: "unat (ea + ?sz) = unat ea + unat ?sz" by (rule unat_add_small [OF e32])
  have img: "m' (unat a + i) = m (unat a + i)" if "i < unat ?sz" for i
    using that assms(13) by (intro w(9)) (auto simp: stage_clear_def)
  have start_lt: "\<forall>r \<in> set (load_ranges ?phs). start r < stop r" using assms(3) by (simp add: segments_ok_def)
  have cnt: "length (ops_of es4) = op_count es4" "op_count es4 \<le> 16" using wf by (simp_all add: elf_wf_def ELF_MAX_SEGMENTS_def ops_of_def)
  have out: "d + n \<le> unat ?q \<or> unat ?q + ?L \<le> d" if p: "p \<in> set (ops_of es4)" "op_target p = (d, n)" for p d n
  proof -
    obtain r where "r \<in> set (load_ranges ?phs)" "unat (start r) \<le> d" "d + n \<le> unat (stop r)"
      using segment_ops_inside(2) [OF start_lt assms(4) e32 _ p(2)] p(1) ops by auto
    then show ?thesis using qsep by force
  qed
  define m2 where "m2 = fold exec_op (ops_of es4) (mem_copy (unat ea) (unat a) (unat ?sz) m')"
  have run: "second_stage (params_off env) ?q m' = Some (load32 m' (?P + 264), ?q + of_nat (params_off env) + 268, m2)"
    and m2q: "\<And>i. unat ?q \<le> i \<Longrightarrow> i < unat ?q + ?L \<Longrightarrow> m2 i = m' i"
    using second_stage_runs [OF al P h, of "ops_of es4" m'] w cnt e32 assms(6) qsep eu out
      segment_ops_inside(1) [OF start_lt assms(4) e32] unfolding m2_def ops by auto
  have entry: "load32 m' (?P + 264) = e_entry (read_ehdr m (unat a))"
    unfolding w(8) by (rule entry_kept [OF wf assms(13,5)])
  note img2 = moved_image_loads [where a = a and m = m and m' = m', OF assms(3,4) e32 esep img, folded ops, folded m2_def]
  let ?args = "?q + of_nat (params_off env) + 268"
  have args: "unat ?args = ?P + 268" using unat_add_of_nat [of "?q + of_nat (params_off env)" 268] P h by simp
  have blk: "mem_read m2 (?P + k) n = mem_read m' (?P + k) n" if "?P + k + n \<le> unat ?q + ?L" for k n
    using that by (intro mem_read_cong m2q) auto
  have rest: "load32 m2 (unat ?args) = ea" "load32 m2 (unat ?args + 4) = ?sz" "load32 m2 (unat ?args + 8) = of_nat (length cmd)"
    "mem_read m2 (unat ?args + 12) (length cmd) = cmd"
    using w(4-7) blk [of 268 4] blk [of 272 4] blk [of 276 4] blk [of 280 "length cmd"] h(1) L
    unfolding args by (simp_all add: add.assoc load32_def)
  show ?thesis
    by (rule exI [of _ ?args], rule exI [of _ m2], rule exI [of _ ea]) (use run entry img2 rest in simp)
qed

text \<open>
  A case in which the loader's choice is known from the file alone: there is room for the file and the second stage at the
  bottom of memory, below all segments and the running loader. Then the file goes to address 0 and the second stage right
  behind it, at a multiple of four when the file's size is one.
\<close>

definition room_below :: "elf_env \<Rightarrow> u32 \<Rightarrow> u8 list \<Rightarrow> Elf32_Phdr list \<Rightarrow> bool" where
  "room_below env sz cmd phs \<longleftrightarrow> unat sz mod 4 = 0 \<and> params_off env + 280 = length (trampoline_code env) \<and>
     (let n = unat sz + length (trampoline_code env) + length cmd
      in n \<le> unat (prog_start env) \<and> (\<forall>r \<in> set (load_ranges phs). n \<le> unat (start r))) \<and>
     clear_of (prog_start env) (load_ranges phs) \<and> clear_of (prog_end env) (load_ranges phs)"

lemma allocate_space_takes:
  assumes "elf_wf es" "allocate_space sz al True es = Ok (r, es')" "sorted_map (ranges es)" "clear_of (start al) (ranges es)"
    "clear_of (stop al) (ranges es)" "start al \<le> stop al" "unat (stop al) + unat sz < 2 ^ 32" "free_at sz al (start al) (ranges es) q"
  shows "\<exists>q'. r = Some q' \<and> q' \<le> q"
proof (cases r)
  case None
  with allocate_space_None [OF assms(1) _ assms(3-7)] assms(2) have "alloc_scan sz al (start al) (ranges es) = None" by simp
  with alloc_scan_spec [OF assms(3-7)] assms(8) show ?thesis by simp
next
  case (Some q')
  with allocate_space_ok [OF assms(1) _ assms(3-7)] assms(2,8) show ?thesis by blast
qed

lemma low_memory_places:
  assumes wf: "elf_wf es" and ok: "load_elf_image env a b e32 ele mach mem_hi cmd es m = Ok (True, es', m')"
    and segs: "segments_ok mem_hi (phdrs m a (read_ehdr m (unat a)))" and hi: "unat mem_hi + unat (b - a) < 2 ^ 32"
    and l: "prog_start env \<le> prog_end env" "prog_end env \<le> mem_hi" "prog_start env \<le> a"
    and sz: "unat mem_hi + length (trampoline_code env) + length cmd < 2 ^ 32"
    and room: "room_below env (b - a) cmd (phdrs m a (read_ehdr m (unat a)))"
  shows "clear_of (prog_start env) (ranges es')" "clear_of (prog_end env) (ranges es')"
    "stage_clear env a b cmd (elf_trampoline_ptr es')"
proof -
  let ?phs = "phdrs m a (read_ehdr m (unat a))" and ?es = "es\<lparr>range_count := 0, op_count := 0\<rparr>" and ?sz = "b - a"
  let ?al = "\<lparr>start = 0, stop = mem_hi\<rparr>" let ?bsz = "of_nat (length (trampoline_code env)) + of_nat (length cmd) :: u32"
  let ?lo = "\<lparr>start = 0, stop = prog_start env\<rparr>" let ?L = "length (trampoline_code env) + length cmd"
  note rm = room [unfolded room_below_def Let_def]
  from load_elf_image_success [OF ok] obtain es1 ea es2 es3 ba es4 where
    st: "claim_segments ?phs ?es = Ok es1" "allocate_space ?sz ?al True es1 = Ok (Some ea, es2)"
      "register_segments ea ?phs es2 = (True, es3)" "allocate_boot env ?bsz mem_hi es3 = Ok (Some ba, es4)"
      "(es', m') = install_boot env ba a ea ?sz cmd es4 m"
    by blast
  have wf0: "elf_wf ?es" and r0: "ranges ?es = []" using wf by (simp_all add: elf_wf_def ranges_def)
  from claim_segments_ok [OF wf0, of ?phs] st(1) segs r0 have
    k: "elf_wf es1" "ranges es1 = fold insert_range (load_ranges ?phs) []"
    by (auto simp: segments_ok_def)
  from fold_insert_sorted [of "[]" "load_ranges ?phs"] segs have
    o: "sorted_map (ranges es1)" "set (ranges es1) = set (load_ranges ?phs)"
    by (auto simp: k(2) segments_ok_def)
  have cl: "clear_of mem_hi (ranges es1)" "clear_of 0 rs" for rs
    using segs o(2) by (auto simp: clear_of_def segments_ok_def)
  have "free_at ?sz ?al 0 (ranges es1) 0"
    using rm l(1,2) unfolding free_at_def o(2) by (auto simp: word_le_nat_alt)
  with allocate_space_takes [OF k(1) st(2) o(1), of 0] cl hi have "ea \<le> 0" by simp
  then have e0: "ea = 0" by simp
  note al = allocate_space_ok [OF k(1) st(2) o(1)] allocate_space_first_fit [OF k(1) st(2) o(1)]
  have fa: "elf_wf es2" "set (ranges es2) = insert \<lparr>start = 0, stop = ?sz\<rparr> (set (load_ranges ?phs))" "sorted_map (ranges es2)"
    using al cl hi e0 o(2) by auto
  from register_segments_ok [OF fa(1) st(3)] have g: "elf_wf es3" "ranges es3 = ranges es2"
    by (auto simp: same_map_def ranges_def)
  have u: "unat ?bsz = ?L" using sz unat_of_nat_small [of ?L] by simp
  have c3: "clear_of (prog_start env) (ranges es3)" "clear_of (prog_end env) (ranges es3)"
    using rm l(1) unfolding g(2) clear_of_def fa(2) by (auto simp: word_le_nat_alt)
  have b1: "unat (prog_start env) + unat ?bsz < 2 ^ 32" using l sz u by (simp add: word_le_nat_alt)
  have fr: "free_at ?bsz ?lo 0 (ranges es3) ?sz"
    using rm unfolding free_at_def g(2) fa(2) u by auto
  obtain r1 es5 where a: "allocate_space ?bsz ?lo True es3 = Ok (r1, es5)"
    using st(4) unfolding allocate_boot_def by (auto split: checked.splits prod.splits)
  have "\<exists>q'. r1 = Some q' \<and> q' \<le> ?sz"
    using allocate_space_takes [OF g(1) a, of ?sz] g(2) fa(3) cl(2) c3(1) b1 fr by simp
  then obtain q' where q': "r1 = Some q'" "q' \<le> ?sz" by blast
  then have eq: "q' = ba" "es5 = es4" using st(4) a by (simp_all add: allocate_boot_def)
  have f: "free_at ?bsz ?lo 0 (ranges es3) ba" "ranges es4 = insert_range \<lparr>start = ba, stop = ba + ?bsz\<rparr> (ranges es3)"
    using allocate_space_ok [OF g(1) a [unfolded q'(1) eq]] g(2) fa(3) cl(2) c3(1) b1 by simp_all
  have "0 < ?L" using rm by linarith
  have "unat ?sz \<le> unat ba \<or> unat ba + ?L = 0"
    using f(1) unfolding free_at_def g(2) fa(2) u by auto
  then have ba: "ba = ?sz" using q'(2) \<open>0 < ?L\<close> unfolding eq(1) by (auto simp: word_le_nat_alt word_unat_eq_iff)
  have tp: "elf_trampoline_ptr es' = ?sz" and rs: "set (ranges es') = insert \<lparr>start = ?sz, stop = ?sz + ?bsz\<rparr> (set (ranges es3))"
    using st(5) f(2) ba by (auto simp: install_boot_def Let_def ranges_def)
  have su: "unat (?sz + ?bsz) = unat ?sz + ?L" using rm b1 u unat_add_small [of ?sz ?bsz] by linarith
  show "clear_of (prog_start env) (ranges es')" "clear_of (prog_end env) (ranges es')"
    using c3 rm l(1) su unfolding clear_of_def rs by (auto simp: word_le_nat_alt)
  have "unat (?sz AND 3) = unat ?sz mod 4" using unat_and_low(1) [of ?sz] by simp
  then have "?sz AND 3 = 0" using rm by (simp add: unat_eq_zero)
  then show "stage_clear env a b cmd (elf_trampoline_ptr es')"
    using rm l(3) unfolding stage_clear_def tp by (auto simp: word_le_nat_alt)
qed

section \<open>Properties\<close>

text \<open>
  C4: An ELF image that \<open>load_elf_image\<close> accepted is started as it says: the second stage ends, every
  loadable segment has its file part and zeros behind it, the file is at its new place and the control is at the
  entry point, with the address of the boot arguments that tell the place and size of the file and the command line.
  This is under conditions which the loader does not check. On the file: the loadable segments are disjoint and below the limit, and
  their file parts are in the file. On the places that the loader chose: no claimed range lies across the start or the end of the
  running loader, and the second stage is at a multiple of four and not on the received file. (Lemma \<open>low_memory_places\<close> gives
  the latter from the file when there is room at the bottom of memory; \<open>second_stage_unaligned\<close> and \<open>load_elf_image_clobbers_header\<close>
  show the failures when they do not hold.)
\<close>

theorem elf_image_boots:
  assumes "elf_wf es" "load_elf_image env a b e32 ele mach mem_hi cmd es m = Ok (True, es', m')"
    and "segments_ok mem_hi (phdrs m a (read_ehdr m (unat a)))"
    and "\<forall>ph \<in> set (phdrs m a (read_ehdr m (unat a))). p_type ph = PT_LOAD \<longrightarrow> in_file (b - a) ph"
    and "52 \<le> unat (b - a)" "unat a + unat (b - a) < 2 ^ 32" "unat mem_hi + unat (b - a) < 2 ^ 32"
    and "unat mem_hi + length (trampoline_code env) + length cmd < 2 ^ 32"
    and "prog_start env \<le> prog_end env" "prog_end env \<le> mem_hi"
    and "clear_of (prog_start env) (ranges es')" "clear_of (prog_end env) (ranges es')"
    and "stage_clear env a b cmd (elf_trampoline_ptr es')"
  shows "\<exists>args m'' elf. second_stage (params_off env) (elf_trampoline_ptr es') m' = Some (e_entry (read_ehdr m (unat a)), args, m'') \<and>
    (\<forall>ph \<in> set (phdrs m a (read_ehdr m (unat a))). p_type ph = PT_LOAD \<longrightarrow> seg_loaded m (unat a) ph m'') \<and>
    mem_read m'' (unat elf) (unat (b - a)) = mem_read m (unat a) (unat (b - a)) \<and>
    load32 m'' (unat args) = elf \<and> load32 m'' (unat args + 4) = b - a \<and>
    load32 m'' (unat args + 8) = of_nat (length cmd) \<and> mem_read m'' (unat args + 12) (length cmd) = cmd"
  by (rule accepted_image_runs [OF assms])

theorem elf_image_boots_witness:
  "\<exists>es' m' args m''. load_elf_image tiny_env 0x230000 0x230054 True True EM_ARM 0x20000000 [] elf_init
      (tiny_mem 0x8000 0x8000 0x100) = Ok (True, es', m') \<and>
    second_stage 120 (elf_trampoline_ptr es') m' = Some (0x8000, args, m'') \<and>
    seg_loaded (tiny_mem 0x8000 0x8000 0x100) 0x230000 (tiny_seg 0x8000 0x100) m''"
proof -
  let ?m = "tiny_mem 0x8000 0x8000 0x100"
  let ?p = "plan_image tiny_env [tiny_seg 0x8000 0x100] 84 0x20000000 [] elf_init"
  have "case ?p of Ok (Some (e, b), es) \<Rightarrow> b = 84 \<and>
      ranges es = [\<lparr>start = 0, stop = 84\<rparr>, \<lparr>start = 84, stop = 484\<rparr>, \<lparr>start = 0x8000, stop = 0x8100\<rparr>] | _ \<Rightarrow> False"
    by code_simp
  from plan_Some [OF this] obtain e b es where pl: "?p = Ok (Some (e, b), es)" and b: "b = 84"
    and r: "ranges es = [\<lparr>start = 0, stop = 84\<rparr>, \<lparr>start = 84, stop = 484\<rparr>, \<lparr>start = 0x8000, stop = 0x8100\<rparr>]" by blast
  from tiny_load [OF pl] obtain es' m' where
    l: "load_elf_image tiny_env 0x230000 0x230054 True True EM_ARM 0x20000000 [] elf_init ?m = Ok (True, es', m')"
    and i: "(es', m') = install_boot tiny_env b 0x230000 e 84 [] es ?m" by (metis prod.exhaust)
  have es': "elf_trampoline_ptr es' = 84" "ranges es' = ranges es"
    using i b by (auto simp: install_boot_def Let_def ranges_def)
  have u: "unat (0x230000 :: u32) = 0x230000" by simp
  have h: "phdrs ?m 0x230000 (read_ehdr ?m (unat (0x230000 :: u32))) = [tiny_seg 0x8000 0x100]" unfolding u by (rule tiny_phdrs)
  have en: "e_entry (read_ehdr ?m (unat (0x230000 :: u32))) = 0x8000" unfolding u by (simp add: tiny_mem_def tiny_ehdr_at)
  have "segments_ok 0x20000000 [tiny_seg 0x8000 0x100]"
    by (simp add: segments_ok_def load_ranges_def PT_LOAD_def ELF_MAX_SEGMENTS_def)
  moreover have "\<forall>ph \<in> set [tiny_seg 0x8000 0x100]. p_type ph = PT_LOAD \<longrightarrow> in_file (0x230054 - 0x230000) ph" by (simp add: in_file_def)
  moreover have "clear_of (prog_start tiny_env) (ranges es')" "clear_of (prog_end tiny_env) (ranges es')"
    unfolding es' r by (simp_all add: clear_of_def tiny_env_def)
  moreover have "stage_clear tiny_env 0x230000 0x230054 [] (elf_trampoline_ptr es')"
    by (simp add: stage_clear_def es' tiny_env_def)
  ultimately obtain args m'' where
    s: "second_stage (params_off tiny_env) (elf_trampoline_ptr es') m' = Some (0x8000, args, m'')"
    and g: "seg_loaded ?m (unat (0x230000 :: u32)) (tiny_seg 0x8000 0x100) m''"
    using elf_image_boots [OF elf_wf_init l, unfolded h en] by (auto simp: tiny_env_def PT_LOAD_def)
  show ?thesis using l s g unfolding u by (auto simp: tiny_env_def)
qed

text \<open>A file whose size is no multiple of four can put the second stage on an odd address, where it does not run.\<close>

theorem second_stage_unaligned:
  "(case plan_image tiny_env [tiny_seg 0x8000 0x100] 85 0x20000000 [] elf_init of
      Ok (Some (_, q), _) \<Rightarrow> q = 85 \<and> second_stage off q m = None | _ \<Rightarrow> False)"
proof -
  have "case plan_image tiny_env [tiny_seg 0x8000 0x100] 85 0x20000000 [] elf_init of Ok (Some (_, q), _) \<Rightarrow> q = 85 | _ \<Rightarrow> False"
    by code_simp
  then show ?thesis by (auto simp: second_stage_def split: checked.splits option.splits prod.splits)
qed

end
