(* ===== verification/Elf_Safe.thy ===== *)
theory Elf_Safe
  imports Elf_Boot
begin

text \<open>
  The arrays of the ELF loader: every operation keeps their well-formedness, and for up to fourteen loadable segments
  no operation fails an assertion or writes behind an array.
\<close>

section \<open>The loader keeps its arrays\<close>

lemma claim_segments_wf: "elf_wf es \<Longrightarrow> claim_segments phs es = Ok es' \<Longrightarrow> elf_wf es'"
proof (induction phs arbitrary: es)
  case (Cons ph phs)
  show ?case
  proof (cases "p_type ph = PT_LOAD")
    case True
    then obtain c es1 where "claim_space (seg_range ph) False es = Ok (c, es1)" "claim_segments phs es1 = Ok es'"
      using Cons.prems(2) by (auto split: checked.splits prod.splits)
    then show ?thesis using Cons.IH claim_space_Ok [OF Cons.prems(1)] by blast
  qed (use Cons in simp)
qed simp

lemma register_loader_op_wf: "elf_wf es \<Longrightarrow> register_loader_op p es = (ok, es') \<Longrightarrow> elf_wf es'"
  by (auto simp: register_loader_op_def elf_wf_def split: if_splits)

text \<open>What every registration keeps, the second pass keeps.\<close>

lemma register_segments_keeps:
  assumes keep: "\<And>p es ok es'. register_loader_op p es = (ok, es') \<Longrightarrow> Q es \<Longrightarrow> Q es'"
  shows "register_segments e phs es = (ok, es') \<Longrightarrow> Q es \<Longrightarrow> Q es'"
proof (induction phs arbitrary: es)
  case (Cons ph phs)
  have step: "Q es2" if "(if c then register_loader_op p es1 else (True, es1)) = (ok, es2)" "Q es1" for c p es1 es2 ok
    using that keep by (cases c) auto
  show ?case
  proof (cases "p_type ph = PT_LOAD")
    case True
    let ?c = "OP_COPY (p_vaddr ph) (e + p_offset ph) (p_filesz ph)"
    let ?z = "OP_ZERO (p_vaddr ph + p_filesz ph) (p_memsz ph - p_filesz ph) 0"
    obtain ok1 es1 where r1: "(if 0 < p_filesz ph then register_loader_op ?c es else (True, es)) = (ok1, es1)" by fastforce
    obtain ok2 es2 where r2: "(if p_filesz ph < p_memsz ph then register_loader_op ?z es1 else (True, es1)) = (ok2, es2)" by fastforce
    have w: "Q es1" "Q es2" using step [OF r1 Cons.prems(2)] step [OF r2] by auto
    have "(ok, es') = (if \<not> ok1 then (False, es1) else if \<not> ok2 then (False, es2) else register_segments e phs es2)"
      using Cons.prems(1) True unfolding register_segments.simps Let_def r1 prod.case r2 by simp
    then show ?thesis using w Cons.IH [of es2] by (auto split: if_splits)
  qed (use Cons in simp)
qed simp

lemma register_segments_wf: "elf_wf es \<Longrightarrow> register_segments e phs es = (ok, es') \<Longrightarrow> elf_wf es'"
  using register_segments_keeps [of elf_wf] register_loader_op_wf by blast

lemma register_segments_count:
  assumes "register_segments e phs es = (ok, es')"
  shows "range_count es' = range_count es"
  by (rule register_segments_keeps [OF _ assms]) (auto simp: register_loader_op_def split: if_splits)

lemma plan_image_wf:
  assumes "elf_wf es" "plan_image env phs sz hi cmd es = Ok (r, es')"
  shows "elf_wf es'"
proof -
  have w0: "elf_wf (es\<lparr>range_count := 0, op_count := 0\<rparr>)" using assms(1) by (simp add: elf_wf_def)
  obtain es1 where c: "claim_segments phs (es\<lparr>range_count := 0, op_count := 0\<rparr>) = Ok es1"
    using assms(2) unfolding plan_image_def by (auto split: checked.splits)
  note w1 = claim_segments_wf [OF w0 c]
  obtain r2 es2 where a: "allocate_space sz \<lparr>start = 0, stop = hi\<rparr> True es1 = Ok (r2, es2)"
    using assms(2) c unfolding plan_image_def by (auto split: checked.splits prod.splits)
  note w2 = conjunct1 [OF allocate_space_grows [OF w1 a]]
  show ?thesis
  proof (cases r2)
    case None
    then show ?thesis using assms(2) c a w2 by (simp add: plan_image_def)
  next
    case (Some e)
    obtain ok es3 where g: "register_segments e phs es2 = (ok, es3)" by fastforce
    note w3 = register_segments_wf [OF w2 g]
    show ?thesis
    proof (cases ok)
      case False
      then show ?thesis using assms(2) c a Some g w3 by (simp add: plan_image_def)
    next
      case True
      let ?bsz = "of_nat (length (trampoline_code env)) + of_nat (length cmd)"
      obtain r4 where "allocate_boot env ?bsz hi es3 = Ok (r4, es')"
        using assms(2) c a Some g True by (auto simp: plan_image_def Let_def split: checked.splits prod.splits option.splits)
      then show ?thesis using allocate_boot_grows [OF w3] by blast
    qed
  qed
qed

lemma load_elf_image_wf:
  assumes "elf_wf es" "load_elf_image env a b e32 ele mach hi cmd es m = Ok (ok, es', m')"
  shows "elf_wf es'"
proof (cases "validate_elf_header (read_ehdr m (unat a)) e32 ele mach")
  case False
  then show ?thesis using assms by (simp add: load_elf_image_def Let_def)
next
  case True
  then obtain r es1 where p: "plan_image env (phdrs m a (read_ehdr m (unat a))) (b - a) hi cmd es = Ok (r, es1)"
    using assms(2) by (auto simp: load_elf_image_def Let_def split: checked.splits prod.splits)
  have "memory_map es' = memory_map es1 \<and> range_count es' = range_count es1 \<and> loader_ops es' = loader_ops es1 \<and> op_count es' = op_count es1"
    using assms(2) True p by (auto simp: load_elf_image_def install_boot_def Let_def split: option.splits prod.splits)
  then show ?thesis using plan_image_wf [OF assms(1) p] by (simp add: elf_wf_def)
qed

section \<open>The loader does not fail\<close>

lemma claim_space_returns:
  assumes "elf_wf es" "range_count es < ELF_MAX_SEGMENTS + 1"
  shows "\<exists>c es'. claim_space r force es = Ok (c, es') \<and> elf_wf es' \<and> range_count es' \<le> range_count es + 1"
proof -
  have "claim_space r force es \<noteq> Panic" "claim_space r force es \<noteq> Overrun"
    using assms(2) by (auto simp: claim_space_def Let_def simp del: upt_Suc split: option.splits dest!: find_upt_Some)
  then obtain c es' where c: "claim_space r force es = Ok (c, es')" by (metis checked.exhaust prod.exhaust)
  with claim_space_Ok [OF assms(1) c] show ?thesis by (auto split: if_splits)
qed

lemma claim_segments_total:
  "elf_wf es \<Longrightarrow> range_count es + length (load_ranges phs) \<le> ELF_MAX_SEGMENTS \<Longrightarrow>
   \<exists>es'. claim_segments phs es = Ok es' \<and> elf_wf es' \<and> range_count es' \<le> range_count es + length (load_ranges phs)"
proof (induction phs arbitrary: es)
  case (Cons ph phs)
  show ?case
  proof (cases "p_type ph = PT_LOAD")
    case True
    with Cons.prems have n: "range_count es + Suc (length (load_ranges phs)) \<le> ELF_MAX_SEGMENTS" by (simp add: load_ranges_def)
    then obtain c es1 where c: "claim_space (seg_range ph) False es = Ok (c, es1)" "elf_wf es1" "range_count es1 \<le> range_count es + 1"
      using claim_space_returns [OF Cons.prems(1)] by fastforce
    moreover from c n have "range_count es1 + length (load_ranges phs) \<le> ELF_MAX_SEGMENTS" by simp
    ultimately show ?thesis using Cons.IH [of es1] True by (auto simp: load_ranges_def)
  qed (use Cons in \<open>simp add: load_ranges_def\<close>)
qed (simp add: load_ranges_def)

lemma allocate_space_total:
  assumes "elf_wf es" "range_count es < ELF_MAX_SEGMENTS + 1" "sz \<noteq> 0"
  shows "\<exists>r es'. allocate_space sz allowed force es = Ok (r, es') \<and> elf_wf es' \<and> range_count es' \<le> range_count es + 1"
proof (cases "alloc_scan sz allowed (start allowed) (take (range_count es) (memory_map es))")
  case None
  then show ?thesis using assms by (simp add: allocate_space_def)
next
  case (Some p)
  obtain c es' where c: "claim_space \<lparr>start = p, stop = p + sz\<rparr> force es = Ok (c, es')" "elf_wf es'" "range_count es' \<le> range_count es + 1"
    using claim_space_returns [OF assms(1,2)] by blast
  with Some assms(3) show ?thesis by (auto simp: allocate_space_def split: if_splits)
qed

lemma allocate_boot_total:
  assumes "elf_wf es" "range_count es < ELF_MAX_SEGMENTS" "sz \<noteq> 0"
  shows "\<exists>r es'. allocate_boot env sz hi es = Ok (r, es') \<and> elf_wf es'"
proof -
  obtain r es1 where a: "allocate_space sz \<lparr>start = 0, stop = prog_start env\<rparr> True es = Ok (r, es1)" "elf_wf es1"
    "range_count es1 \<le> range_count es + 1"
    using allocate_space_total [OF assms(1) _ assms(3)] assms(2) by fastforce
  moreover obtain r2 es2 where "allocate_space sz \<lparr>start = prog_end env, stop = hi\<rparr> True es1 = Ok (r2, es2)" "elf_wf es2"
    using allocate_space_total [OF a(2) _ assms(3)] assms(2) a(3) by fastforce
  ultimately show ?thesis by (cases r) (simp_all add: allocate_boot_def)
qed

lemma plan_image_total:
  assumes "elf_wf es" "length (load_ranges phs) \<le> ELF_MAX_SEGMENTS - 2" "sz \<noteq> 0"
    and "of_nat (length (trampoline_code env)) + of_nat (length cmd) \<noteq> (0 :: u32)"
  shows "\<exists>r es'. plan_image env phs sz hi cmd es = Ok (r, es')"
proof -
  have w0: "elf_wf (es\<lparr>range_count := 0, op_count := 0\<rparr>)" using assms(1) by (simp add: elf_wf_def)
  obtain es1 where c: "claim_segments phs (es\<lparr>range_count := 0, op_count := 0\<rparr>) = Ok es1" "elf_wf es1" "range_count es1 \<le> length (load_ranges phs)"
    using claim_segments_total [OF w0, of phs] assms(2) by (auto simp: ELF_MAX_SEGMENTS_def)
  obtain r2 es2 where a: "allocate_space sz \<lparr>start = 0, stop = hi\<rparr> True es1 = Ok (r2, es2)" "elf_wf es2" "range_count es2 \<le> range_count es1 + 1"
    using allocate_space_total [OF c(2) _ assms(3)] c(3) assms(2) by fastforce
  show ?thesis
  proof (cases r2)
    case None
    then show ?thesis using c a by (simp add: plan_image_def)
  next
    case (Some e)
    obtain ok es3 where g: "register_segments e phs es2 = (ok, es3)" by fastforce
    have "range_count es3 < ELF_MAX_SEGMENTS" 
      using register_segments_count [OF g] a(3) c(3) assms(2) by (simp add: ELF_MAX_SEGMENTS_def)
    from allocate_boot_total [OF register_segments_wf [OF a(2) g] this assms(4)] obtain r4 es4 where
      "allocate_boot env (of_nat (length (trampoline_code env)) + of_nat (length cmd)) hi es3 = Ok (r4, es4)" by blast
    then show ?thesis using c a Some g by (cases ok; cases r4) (simp_all add: plan_image_def)
  qed
qed

section \<open>Properties\<close>

text \<open>
  C12: Well-formedness is a type of the loader: for an image of at most fourteen loadable segments, which is not empty,
  \<open>load_elf_image\<close> returns, without a failed assertion or a write behind its arrays, and its arrays
  are well-formed again, whatever the image holds. (One more segment can fill the map of eighteen ranges, and
  the claim that fills it stores behind the map.)
\<close>

theorem load_elf_image_stays_in_arrays:
  assumes "elf_wf es" "length (load_ranges (phdrs m a (read_ehdr m (unat a)))) \<le> 14" "a \<noteq> b"
    and "of_nat (length (trampoline_code env)) + of_nat (length cmd) \<noteq> (0 :: u32)"
  shows "\<exists>ok es' m'. load_elf_image env a b e32 ele mach hi cmd es m = Ok (ok, es', m') \<and> elf_wf es'"
proof -
  let ?l = "load_elf_image env a b e32 ele mach hi cmd es m"
  have "b - a \<noteq> 0" using assms(3) by simp
  from plan_image_total [OF assms(1) _ this assms(4), of "phdrs m a (read_ehdr m (unat a))" hi] assms(2)
  obtain r es1 where "plan_image env (phdrs m a (read_ehdr m (unat a))) (b - a) hi cmd es = Ok (r, es1)"
    unfolding ELF_MAX_SEGMENTS_def by fastforce
  then have "\<exists>ok es' m'. ?l = Ok (ok, es', m')" by (cases r) (auto simp: load_elf_image_def Let_def intro: prod.exhaust)
  then show ?thesis using load_elf_image_wf [OF assms(1)] by blast
qed

theorem load_elf_image_stays_in_arrays_witness:
  "\<exists>ok es' m'. load_elf_image tiny_env 0x230000 0x230054 True True EM_ARM 0x20000000 [] elf_init
      (tiny_mem 0x8000 0x8000 0x100) = Ok (ok, es', m') \<and> elf_wf es'"
proof (rule load_elf_image_stays_in_arrays [OF elf_wf_init])
  have u: "unat (0x230000 :: u32) = 0x230000" by simp
  show "length (load_ranges (phdrs (tiny_mem 0x8000 0x8000 0x100) 0x230000 (read_ehdr (tiny_mem 0x8000 0x8000 0x100) (unat (0x230000 :: u32))))) \<le> 14"
    unfolding u by (simp add: load_ranges_def)
qed (simp_all add: tiny_env_def)

end
