(* ===== verification/Elf_Session.thy ===== *)
theory Elf_Session
  imports Upload_Session Elf_Safe
begin

text \<open>
  From the serial line to the running ELF program: what the boot loader received, its ELF loader and the second
  stage together.
\<close>

section \<open>The device receives an ELF file\<close>

abbreviation tramp_env :: "boot_env \<Rightarrow> elf_env" where
  "tramp_env env \<equiv> elf_env.truncate env"

definition elf_holds :: "boot_env \<Rightarrow> meta_t \<Rightarrow> u8 list \<Rightarrow> 'x boot \<Rightarrow> bool" where
  "elf_holds env m d b \<longleftrightarrow> boot_holds env m d b \<and> elf_wf (boot_elf b) \<and> img_end b = img_start b + mem_size m \<and>
     (image_format m = IMAGE_ELF \<longrightarrow> img_start b = prog_end env)"

definition elf_loaded :: "boot_env \<Rightarrow> meta_t \<Rightarrow> u8 list \<Rightarrow> 'x boot \<Rightarrow> bool" where
  "elf_loaded env m d b \<longleftrightarrow> boot_loaded env m d b \<and>
     (env_ok env \<and> meta_fits env m \<and> length d < 2 ^ 32 \<and> image_format m = IMAGE_ELF \<longrightarrow>
       (\<exists>m0 es0. elf_wf es0 \<and> mem_read m0 (unat (prog_end env)) (length d) = d \<and>
         load_elf_image (tramp_env env) (prog_end env) (prog_end env + mem_size m) True True EM_ARM 0x20000000 [] es0 m0 =
           Ok (True, boot_elf b, boot_mem b)))"

lemma init_meta_elf:
  assumes "platform_init_meta env xz m b = (ok, b')"
  shows "boot_elf b' = boot_elf b"
    "ok \<Longrightarrow> img_end b' = img_start b' + mem_size m \<and> (image_format m = IMAGE_ELF \<longrightarrow> img_start b' = prog_end env)"
  using assms
  by (auto simp: platform_init_meta_def image_start_def Let_def format_defs split: if_splits option.splits)

lemma elf_feed_holds:
  assumes h: "elf_holds env m d b" and f: "platform_feed xz n x b = Some (True, b')"
  shows "elf_holds env m (d @ x) b'"
  using h boot_feed_holds [OF _ f] platform_feed_keeps [OF _ _ f, of boot_elf] platform_feed_keeps [OF _ _ f, of img_end]
    platform_feed_keeps [OF _ _ f, of img_start]
  by (simp add: elf_holds_def feed_impl_fields)

text \<open>An image behind the loader is not relocated.\<close>

lemma elf_in_place:
  assumes "boot_placed env b" "img_start b = prog_end env"
  shows "view b a = boot_mem b a"
proof -
  have "reloc_size (boot_reloc b) = 0"
  proof (rule ccontr)
    assume r: "reloc_size (boot_reloc b) \<noteq> 0"
    have p: "placed env (unat (prog_end env)) (unat (mem_size (boot_meta b))) (boot_reloc b)" "env_ok env"
      using assms by (simp_all add: boot_placed_def img_lo_def)
    from placed_reloc [OF p(1) r] p(2) show False by (simp add: env_ok_def)
  qed
  then show ?thesis by (simp add: view_def phys_def)
qed

lemma load_image_elf:
  assumes "platform_load_image env b s = Some (ok, b', s')"
  shows "boot_elf b' = boot_elf b \<or> (\<exists>ok. load_elf_image (tramp_env env) (img_start b) (img_end b) True True EM_ARM
    0x20000000 [] (boot_elf b) (boot_mem b) = Ok (ok, boot_elf b', boot_mem b'))"
  using assms
  by (auto simp: platform_load_image_def Let_def split: if_splits option.splits checked.splits prod.splits)

lemma load_image_elf_success:
  assumes "platform_load_image env b s = Some (True, b', s')" "image_format (boot_meta b) = IMAGE_ELF"
  shows "load_elf_image (tramp_env env) (img_start b) (img_end b) True True EM_ARM
    0x20000000 [] (boot_elf b) (boot_mem b) = Ok (True, boot_elf b', boot_mem b')"
  using assms
  by (auto simp: platform_load_image_def Let_def format_defs split: if_splits option.splits checked.splits prod.splits)

lemma elf_load_loaded:
  assumes h: "elf_holds env m d b" and l: "platform_load_image env b s = Some (True, b', s')"
  shows "elf_loaded env m d b'"
proof -
  have bh: "boot_holds env m d b" and w: "elf_wf (boot_elf b)" "img_end b = img_start b + mem_size m"
    "image_format m = IMAGE_ELF \<Longrightarrow> img_start b = prog_end env" using h by (simp_all add: elf_holds_def)
  note bl = boot_load_image [OF bh l]
  have "\<exists>m0 es0. elf_wf es0 \<and> mem_read m0 (unat (prog_end env)) (length d) = d \<and>
      load_elf_image (tramp_env env) (prog_end env) (prog_end env + mem_size m) True True EM_ARM 0x20000000 [] es0 m0 =
        Ok (True, boot_elf b', boot_mem b')"
    if c: "env_ok env" "meta_fits env m" "length d < 2 ^ 32" "image_format m = IMAGE_ELF"
  proof -
    have meta: "boot_meta b = m" and pl: "boot_placed env b" and
      im: "length d \<le> unat (mem_size m) \<Longrightarrow> \<forall>k < length d. view b (img_lo b + k) = d ! k"
      using bh c by (simp_all add: boot_holds_def)
    have len: "length d = unat (mem_size m)" using bl c by (simp add: boot_loaded_def)
    have st: "img_start b = prog_end env" using w(3) c(4) by simp
    have "mem_read (boot_mem b) (unat (prog_end env)) (length d) = d"
      using im len st by (intro nth_equalityI) (simp_all add: elf_in_place [OF pl st] img_lo_def)
    moreover have "load_elf_image (tramp_env env) (prog_end env) (prog_end env + mem_size m) True True EM_ARM 0x20000000 []
        (boot_elf b) (boot_mem b) = Ok (True, boot_elf b', boot_mem b')"
      using load_image_elf_success [OF l] meta c(4) w(2) st by simp
    ultimately show ?thesis using w(1) by blast
  qed
  with bl show ?thesis by (simp add: elf_loaded_def)
qed

interpretation elf: download_platform "bcm2835_ops env xz" "elf_holds env" "elf_loaded env" "\<lambda>b. elf_wf (boot_elf b)"
  for env and xz :: "'x xz_ops"
proof unfold_locales
  fix m :: meta_t and p p' :: "'x boot" and d x n s s' ok
  show "elf_wf (boot_elf p) \<Longrightarrow> init_meta (bcm2835_ops env xz) m p = (True, p') \<Longrightarrow> elf_holds env m [] p'"
    using init_meta_holds [of env xz m p p'] init_meta_elf [of env xz m p True p'] by (simp add: bcm2835_ops_def elf_holds_def)
  show "elf_holds env m d p \<Longrightarrow> feed_op (bcm2835_ops env xz) n x p = Some (True, p') \<Longrightarrow> elf_holds env m (d @ x) p'"
    using elf_feed_holds [of env m d p xz n x p'] by (simp add: bcm2835_ops_def)
  show "elf_holds env m d p \<Longrightarrow> load_op (bcm2835_ops env xz) p s = Some (True, p', s') \<Longrightarrow> elf_loaded env m d p'"
    using elf_load_loaded [of env m d p s p' s'] by (simp add: bcm2835_ops_def)
  show "load_op (bcm2835_ops env xz) p s = Some (ok, p', s') \<Longrightarrow> fsm_iden s' = fsm_iden s"
    "load_op (bcm2835_ops env xz) p s = Some (ok, p', s') \<Longrightarrow> rx s' = rx s"
    using boot_load_io [of env p s ok p' s'] by (simp_all add: bcm2835_ops_def)
  show "elf_wf (boot_elf p) \<Longrightarrow> init_meta (bcm2835_ops env xz) m p = (ok, p') \<Longrightarrow> elf_wf (boot_elf p')"
    using init_meta_elf(1) [of env xz m p ok p'] by (simp add: bcm2835_ops_def)
  show "elf_wf (boot_elf p) \<Longrightarrow> feed_op (bcm2835_ops env xz) n x p = Some (ok, p') \<Longrightarrow> elf_wf (boot_elf p')"
    using platform_feed_keeps [of boot_elf xz n x p ok p'] by (simp add: bcm2835_ops_def feed_impl_fields)
  show "elf_wf (boot_elf p) \<Longrightarrow> load_op (bcm2835_ops env xz) p s = Some (ok, p', s') \<Longrightarrow> elf_wf (boot_elf p')"
    using load_image_elf [of env p s ok p' s'] load_elf_image_wf by (fastforce simp: bcm2835_ops_def)
qed

section \<open>The file, read where it is received\<close>

definition file_mem :: "u32 \<Rightarrow> u8 list \<Rightarrow> mem" where
  "file_mem a file = mem_write (unat a) file (\<lambda>_. 0)"

definition elf_header :: "u32 \<Rightarrow> u8 list \<Rightarrow> Elf32_Ehdr" where
  "elf_header a file = read_ehdr (file_mem a file) (unat a)"

definition elf_segments :: "u32 \<Rightarrow> u8 list \<Rightarrow> Elf32_Phdr list" where
  "elf_segments a file = phdrs (file_mem a file) a (elf_header a file)"

text \<open>The header and the program headers lie inside of the file.\<close>

definition headers_inside :: "u32 \<Rightarrow> u8 list \<Rightarrow> bool" where
  "headers_inside a file \<longleftrightarrow> 52 \<le> length file \<and> unat a + length file < 2 ^ 32 \<and>
     (\<forall>i < unat (e_phnum (elf_header a file)).
        unat (e_phoff (elf_header a file)) + i * unat (e_phentsize (elf_header a file)) + 32 \<le> length file)"

lemma file_mem_at: "mem_read m (unat a) (length file) = file \<Longrightarrow> i < length file \<Longrightarrow> m (unat a + i) = file_mem a file (unat a + i)"
  by (simp add: file_mem_def mem_write_def) (metis nth_mem_read)

lemma read_same:
  assumes "mem_read m (unat a) (length file) = file" "k + n \<le> length file"
  shows "mem_read m (unat a + k) n = mem_read (file_mem a file) (unat a + k) n"
proof (rule nth_equalityI)
  fix i assume "i < length (mem_read m (unat a + k) n)"
  then show "mem_read m (unat a + k) n ! i = mem_read (file_mem a file) (unat a + k) n ! i"
    using file_mem_at [OF assms(1), of "k + i"] assms(2) by (simp add: add.assoc)
qed simp

lemma load_same:
  assumes "mem_read m (unat a) (length file) = file"
  shows "k + 4 \<le> length file \<Longrightarrow> load32 m (unat a + k) = load32 (file_mem a file) (unat a + k)"
    "k + 2 \<le> length file \<Longrightarrow> load16 m (unat a + k) = load16 (file_mem a file) (unat a + k)"
  using read_same [OF assms] by (simp_all add: load32_def load16_def)

lemma header_same:
  assumes "mem_read m (unat a) (length file) = file" "52 \<le> length file"
  shows "read_ehdr m (unat a) = elf_header a file"
  using load_same [OF assms(1)] read_same [OF assms(1), of 0 16] assms(2) by (simp add: elf_header_def read_ehdr_def)

lemma segments_same:
  assumes "mem_read m (unat a) (length file) = file" "headers_inside a file"
  shows "phdrs m a (read_ehdr m (unat a)) = elf_segments a file"
proof -
  let ?h = "elf_header a file"
  have h: "read_ehdr m (unat a) = ?h" using assms by (intro header_same) (simp_all add: headers_inside_def)
  have "read_phdr m (unat (a + e_phoff ?h + of_nat i * ucast (e_phentsize ?h))) =
      read_phdr (file_mem a file) (unat (a + e_phoff ?h + of_nat i * ucast (e_phentsize ?h)))" if "i < unat (e_phnum ?h)" for i
  proof -
    let ?k = "unat (e_phoff ?h) + i * unat (e_phentsize ?h)"
    have b: "?k + 32 \<le> length file" "unat a + length file < 2 ^ 32" using assms(2) that by (auto simp: headers_inside_def)
    have "of_nat ?k = e_phoff ?h + of_nat i * ucast (e_phentsize ?h)" by simp
    then have E: "a + e_phoff ?h + of_nat i * ucast (e_phentsize ?h) = a + of_nat ?k" by (simp only: add.assoc)
    have u: "unat (a + e_phoff ?h + of_nat i * ucast (e_phentsize ?h)) = unat a + ?k"
      unfolding E using b by (intro unat_add_of_nat) simp
    show ?thesis unfolding u using load_same(1) [OF assms(1), of ?k] load_same(1) [OF assms(1), of "?k + 4"]
      load_same(1) [OF assms(1), of "?k + 8"] load_same(1) [OF assms(1), of "?k + 16"] load_same(1) [OF assms(1), of "?k + 20"] b(1)
      by (simp add: read_phdr_def add.assoc)
  qed
  then show ?thesis unfolding elf_segments_def phdrs_def h by (intro map_cong refl) simp
qed

text \<open>
  What is asked of the file, and of the places that the loader chose for it: the segments are disjoint and below the
  limit, their file parts are inside of the file, no range lies across an end of the loader, and the second stage is
  aligned and does not lie on the file.
\<close>

definition elf_file_ok :: "boot_env \<Rightarrow> u8 list \<Rightarrow> elf_state \<Rightarrow> bool" where
  "elf_file_ok env file es \<longleftrightarrow>
     (let a = prog_end env
      in headers_inside a file \<and> segments_ok 0x20000000 (elf_segments a file) \<and>
         (\<forall>ph \<in> set (elf_segments a file). p_type ph = PT_LOAD \<longrightarrow> in_file (of_nat (length file)) ph) \<and>
         length (trampoline_code env) < 2 ^ 29 \<and>
         clear_of (prog_start env) (ranges es) \<and> clear_of (prog_end env) (ranges es) \<and>
         stage_clear (tramp_env env) a (a + of_nat (length file)) [] (elf_trampoline_ptr es))"

text \<open>A condition on the file alone: the same of the file, and room at the bottom of memory as in \<open>low_memory_places\<close>.\<close>

definition elf_file_fits :: "boot_env \<Rightarrow> u8 list \<Rightarrow> bool" where
  "elf_file_fits env file \<longleftrightarrow>
     (let a = prog_end env
      in headers_inside a file \<and> segments_ok 0x20000000 (elf_segments a file) \<and>
         (\<forall>ph \<in> set (elf_segments a file). p_type ph = PT_LOAD \<longrightarrow> in_file (of_nat (length file)) ph) \<and>
         length (trampoline_code env) < 2 ^ 29 \<and> room_below (tramp_env env) (of_nat (length file)) [] (elf_segments a file))"

text \<open>The program runs: at its entry, with its segments, and with arguments that lead to the file.\<close>

definition elf_running :: "boot_env \<Rightarrow> u8 list \<Rightarrow> 'x boot \<Rightarrow> bool" where
  "elf_running env file b \<longleftrightarrow>
     (\<exists>pc m args m'. trampoline env b = Some (pc, m) \<and>
        second_stage (params_off env) pc m = Some (e_entry (elf_header (prog_end env) file), args, m') \<and>
        (\<forall>ph \<in> set (elf_segments (prog_end env) file). p_type ph = PT_LOAD \<longrightarrow>
           seg_loaded (file_mem (prog_end env) file) (unat (prog_end env)) ph m') \<and>
        mem_read m' (unat (load32 m' (unat args))) (length file) = file \<and>
        unat (load32 m' (unat args + 4)) = length file \<and> load32 m' (unat args + 8) = 0)"

lemma elf_truncate [simp]:
  "prog_start (tramp_env env) = prog_start env" "prog_end (tramp_env env) = prog_end env"
  "trampoline_code (tramp_env env) = trampoline_code env" "params_off (tramp_env env) = params_off env"
  by (simp_all add: elf_env.truncate_def)

lemma elf_file_fits_ok:
  assumes ld: "elf_loaded env m file b" and e: "env_ok env" "meta_fits env m" "length file < 2 ^ 32" "image_format m = IMAGE_ELF"
    and fits: "elf_file_fits env file"
  shows "elf_file_ok env file (boot_elf b)"
proof -
  let ?a = "prog_end env" and ?n = "of_nat (length file) :: u32"
  from ld e obtain m0 es0 where w: "elf_wf es0" and f: "mem_read m0 (unat ?a) (length file) = file"
    and l: "load_elf_image (tramp_env env) ?a (?a + mem_size m) True True EM_ARM 0x20000000 [] es0 m0 = Ok (True, boot_elf b, boot_mem b)"
    unfolding elf_loaded_def by blast
  have n: "length file = unat (mem_size m)" "mem_size m = ?n" "unat ?n = length file"
    using ld e by (simp_all add: elf_loaded_def boot_loaded_def)
  note o = fits [unfolded elf_file_fits_def Let_def]
  have s: "phdrs m0 ?a (read_ehdr m0 (unat ?a)) = elf_segments ?a file"
    using segments_same [OF f] o by (auto simp: headers_inside_def)
  have d: "?a + ?n - ?a = ?n" by simp
  have "unat ?a + length file < 2 ^ 29" "unat ?a < 2 ^ 28" "unat (prog_start env) < unat ?a"
    using e(1,2,4) n(1) by (simp_all add: meta_fits_def env_ok_def)
  then have p: "unat (0x20000000 :: u32) + unat ?n < 2 ^ 32" "prog_start env \<le> ?a" "?a \<le> 0x20000000"
      "unat (0x20000000 :: u32) + length (trampoline_code env) + length [] < 2 ^ 32"
    using o n(3) by (auto simp: word_le_nat_alt)
  note lm = low_memory_places [OF w l [unfolded n(2)], unfolded s, unfolded d elf_truncate]
  show ?thesis using lm o p by (simp add: elf_file_ok_def Let_def)
qed

lemma loaded_elf_runs:
  assumes ld: "elf_loaded env m file b" and e: "env_ok env" "meta_fits env m" "length file < 2 ^ 32" "image_format m = IMAGE_ELF"
    and ok: "elf_file_ok env file (boot_elf b)"
  shows "elf_running env file b"
proof -
  let ?a = "prog_end env" and ?n = "of_nat (length file) :: u32"
  from ld e obtain m0 es0 where w: "elf_wf es0" and f: "mem_read m0 (unat ?a) (length file) = file"
    and l: "load_elf_image (tramp_env env) ?a (?a + mem_size m) True True EM_ARM 0x20000000 [] es0 m0 = Ok (True, boot_elf b, boot_mem b)"
    unfolding elf_loaded_def by blast
  have bl: "boot_meta b = m" "length file = unat (mem_size m)" using ld e by (simp_all add: elf_loaded_def boot_loaded_def)
  have n: "mem_size m = ?n" "unat ?n = length file" using bl(2) e(3) by simp_all
  note o = ok [unfolded elf_file_ok_def Let_def]
  have s: "phdrs m0 ?a (read_ehdr m0 (unat ?a)) = elf_segments ?a file" and h: "read_ehdr m0 (unat ?a) = elf_header ?a file"
    using segments_same [OF f] header_same [OF f] o by (auto simp: headers_inside_def)
  have d: "?a + ?n - ?a = ?n" by simp
  have fit: "unat ?a + length file < 2 ^ 29" "unat ?a < 2 ^ 28" "unat (prog_start env) < unat ?a"
    using e(1,2,4) bl(2) by (simp_all add: meta_fits_def env_ok_def)
  obtain args m' ea where r: "second_stage (params_off env) (elf_trampoline_ptr (boot_elf b)) (boot_mem b) =
      Some (e_entry (elf_header ?a file), args, m')"
    "\<forall>ph \<in> set (elf_segments ?a file). p_type ph = PT_LOAD \<longrightarrow> seg_loaded m0 (unat ?a) ph m'"
    "mem_read m' (unat ea) (length file) = mem_read m0 (unat ?a) (length file)" "load32 m' (unat args) = ea"
    "load32 m' (unat args + 4) = ?n" "load32 m' (unat args + 8) = 0"
  proof -
    have p: "52 \<le> length file" "unat ?a + length file < 2 ^ 32" "unat (0x20000000 :: u32) + length file < 2 ^ 32"
      "unat (0x20000000 :: u32) + length (trampoline_code env) + length [] < 2 ^ 32" "prog_start env \<le> ?a" "?a \<le> 0x20000000"
      using o fit by (auto simp: headers_inside_def word_le_nat_alt)
    note eb = accepted_image_runs [OF w l [unfolded n(1)], unfolded s, unfolded h d n(2) elf_truncate]
    from eb o p show ?thesis by (auto intro: that)
  qed
  have sl: "seg_loaded (file_mem ?a file) (unat ?a) ph m'" if p: "ph \<in> set (elf_segments ?a file)" "p_type ph = PT_LOAD" for ph
  proof -
    have i: "unat (p_offset ph) + unat (p_filesz ph) \<le> length file" using o p n(2) by (auto simp: in_file_def)
    show ?thesis using r(2) p i file_mem_at [OF f]
      by (force simp: seg_loaded_def add.assoc)
  qed
  have tr: "trampoline env b = Some (elf_trampoline_ptr (boot_elf b), boot_mem b)"
    using bl(1) e(4) by (simp add: trampoline_def format_defs)
  show ?thesis unfolding elf_running_def
    by (rule exI [of _ "elf_trampoline_ptr (boot_elf b)"], rule exI [of _ "boot_mem b"], rule exI [of _ args], rule exI [of _ m'])
      (use r f n(2) sl tr in simp)
qed

section \<open>Properties\<close>

text \<open>
  C3: From the line to the running program. Whatever arrives on the line and whatever the clock does: when the boot
  loader ends and reports success for an ELF image that is not compressed and fits behind the loader (the code does not check
  that), then the bytes that it read contain, in order, the poll frame with its metadata and a frame with good check sequences for
  each chunk; the file of these chunks has the announced size and CRC, and it is the file from which the ELF loader made its plan.
  The second stage then starts it: every segment of the file is in memory with zeros behind it, the control is at its entry
  point, and its arguments lead to a copy of the file. The start has conditions that the code does not check, \<open>elf_file_ok\<close>:
  headers and segments of the file are inside of it, disjoint and below the limit, no claimed range lies across an end of the
  running loader, and the second stage is aligned and not on the received file; or, on the file alone, \<open>elf_file_fits\<close>, with
  room at the bottom of memory.
\<close>

theorem booted_elf_runs:
  assumes "fsm_download (bcm2835_ops env xz) config n d0 = Some d" "dl_pc d = DL_Done" "boot_ok d"
    and "elf_wf (boot_elf (dl_dev d0))"
    and "env_ok env" "image_format (dl_meta d) = IMAGE_ELF" "compression_type (dl_meta d) = COMPRESS_NONE"
    and "unat (prog_end env) + unat (mem_size (dl_meta d)) < 2 ^ 29"
  shows "\<exists>xs. length xs = unat (chunks_of (wire_size (dl_meta d))) \<and> delivered (dl_io d0) (dl_meta d) xs (dl_io d) \<and>
    length (concat xs) = unat (mem_size (dl_meta d)) \<and> crc32 0 (concat xs) = mem_crc32 (dl_meta d) \<and>
    (\<exists>m es. mem_read m (unat (prog_end env)) (length (concat xs)) = concat xs \<and>
       load_elf_image (tramp_env env) (prog_end env) (prog_end env + mem_size (dl_meta d)) True True EM_ARM 0x20000000 [] es m =
         Ok (True, boot_elf (dl_dev d), boot_mem (dl_dev d))) \<and>
    (elf_file_ok env (concat xs) (boot_elf (dl_dev d)) \<or> elf_file_fits env (concat xs) \<longrightarrow>
       elf_running env (concat xs) (dl_dev d))"
proof -
  from elf.download_safe [OF assms(1-4)] obtain xs where
    xs: "length xs = unat (chunks_of (wire_size (dl_meta d)))" "delivered (dl_io d0) (dl_meta d) xs (dl_io d)"
      "elf_loaded env (dl_meta d) (concat xs) (dl_dev d)" by blast
  have l: "length (concat xs) < 2 ^ 32" by (rule delivered_length [OF xs(2,1)])
  have m: "meta_fits env (dl_meta d)" using assms(7,8) by (simp add: meta_fits_def)
  have "length (concat xs) = unat (mem_size (dl_meta d))" "crc32 0 (concat xs) = mem_crc32 (dl_meta d)"
    using xs(3) l assms(5) m by (simp_all add: elf_loaded_def boot_loaded_def)
  moreover have "\<exists>m es. mem_read m (unat (prog_end env)) (length (concat xs)) = concat xs \<and>
      load_elf_image (tramp_env env) (prog_end env) (prog_end env + mem_size (dl_meta d)) True True EM_ARM 0x20000000 [] es m =
        Ok (True, boot_elf (dl_dev d), boot_mem (dl_dev d))"
    using xs(3) l assms(5,6) m unfolding elf_loaded_def by blast
  ultimately show ?thesis
    using xs(1,2) loaded_elf_runs [OF xs(3) assms(5) m l assms(6)] elf_file_fits_ok [OF xs(3) assms(5) m l assms(6)] by blast
qed

text \<open>A session that uploads an executable of 84 bytes to a boot loader at 0x8000, which it replaces.\<close>

definition tiny_file :: "u8 list" where
  "tiny_file = tiny_elf 0x8000 0x8000 0x100"

definition tiny_boot_env :: boot_env where
  "tiny_boot_env = \<lparr>prog_start = 0x8000, prog_end = 0x230000, trampoline_code = replicate 400 0, params_off = 120, stub_code = []\<rparr>"

definition tiny_meta :: meta_t where
  "tiny_meta = \<lparr>image_format = IMAGE_ELF, compression_type = COMPRESS_NONE, wire_size = 84, mem_size = 84,
     mem_crc32 = crc32 0 tiny_file, load_addr = - 1\<rparr>"

lemma tiny_facts:
  "elf_env.truncate tiny_boot_env = tiny_env" "env_ok tiny_boot_env" "meta_fits tiny_boot_env tiny_meta" "length tiny_file = 84"
  "file_mem 0x230000 tiny_file = tiny_mem 0x8000 0x8000 0x100" "elf_segments 0x230000 tiny_file = [tiny_seg 0x8000 0x100]"
  "headers_inside 0x230000 tiny_file" "prog_end tiny_boot_env = 0x230000"
proof -
  have u: "unat (0x230000 :: u32) = 0x230000" by simp
  show l: "length tiny_file = 84" by (simp add: tiny_file_def tiny_elf_def)
  show f: "file_mem 0x230000 tiny_file = tiny_mem 0x8000 0x8000 0x100"
    unfolding file_mem_def tiny_mem_def tiny_file_def u ..
  then show "elf_segments 0x230000 tiny_file = [tiny_seg 0x8000 0x100]"
    using tiny_phdrs by (simp add: elf_segments_def elf_header_def)
  show "headers_inside 0x230000 tiny_file"
    using f l by (simp add: headers_inside_def elf_header_def tiny_mem_def tiny_ehdr_at)
qed (simp_all add: elf_env.truncate_def tiny_boot_env_def tiny_env_def env_ok_def meta_fits_def tiny_meta_def format_defs)

lemma tiny_loads:
  assumes "mem_read m 0x230000 84 = tiny_file"
  shows "\<exists>es' m'. load_elf_image tiny_env 0x230000 0x230054 True True EM_ARM 0x20000000 [] elf_init m = Ok (True, es', m') \<and>
    elf_file_ok tiny_boot_env tiny_file es'"
proof -
  let ?p = "plan_image tiny_env [tiny_seg 0x8000 0x100] 84 0x20000000 [] elf_init"
  have u: "unat (0x230000 :: u32) = 0x230000" by simp
  have "case ?p of Ok (Some (e, b), es) \<Rightarrow> b = 84 \<and>
      ranges es = [\<lparr>start = 0, stop = 84\<rparr>, \<lparr>start = 84, stop = 484\<rparr>, \<lparr>start = 0x8000, stop = 0x8100\<rparr>] | _ \<Rightarrow> False"
    by code_simp
  from plan_Some [OF this] obtain e b es where pl: "?p = Ok (Some (e, b), es)" and b: "b = 84"
    and r: "ranges es = [\<lparr>start = 0, stop = 84\<rparr>, \<lparr>start = 84, stop = 484\<rparr>, \<lparr>start = 0x8000, stop = 0x8100\<rparr>]" by blast
  have f: "mem_read m (unat (0x230000 :: u32)) (length tiny_file) = tiny_file" using assms tiny_facts by simp
  have h: "read_ehdr m 0x230000 = read_ehdr (tiny_mem 0x8000 0x8000 0x100) 0x230000"
    using header_same [OF f] tiny_facts by (simp add: elf_header_def)
  have s: "phdrs m 0x230000 (read_ehdr m 0x230000) = [tiny_seg 0x8000 0x100]"
    using segments_same [OF f] tiny_facts by simp
  obtain es' m' where i: "install_boot tiny_env b 0x230000 e 84 [] es m = (es', m')" by fastforce
  have "load_elf_image tiny_env 0x230000 0x230054 True True EM_ARM 0x20000000 [] elf_init m = Ok (True, es', m')"
    using pl s tiny_valid [of "0x8000" "0x8000" "0x100"] i h by (simp add: load_elf_image_def)
  moreover have es': "elf_trampoline_ptr es' = 84" "ranges es' = ranges es"
    using i b by (auto simp: install_boot_def Let_def ranges_def)
  moreover have "elf_file_ok tiny_boot_env tiny_file es'"
    using tiny_facts es' r
    by (simp add: elf_file_ok_def segments_ok_def load_ranges_def PT_LOAD_def ELF_MAX_SEGMENTS_def in_file_def clear_of_def
        tiny_env_def stage_clear_def tiny_boot_env_def)
  ultimately show ?thesis by blast
qed

definition tiny_dl :: "unit boot dl" where
  "tiny_dl = small_dl (sent_by_host [0, 0, 0, 0] tiny_meta tiny_file)"

lemma tiny_session:
  "\<exists>n d. fsm_download (bcm2835_ops tiny_boot_env idle_xz) pup_config n tiny_dl = Some d \<and> dl_pc d = DL_Done \<and> boot_ok d \<and>
    dl_meta d = tiny_meta \<and> elf_loaded tiny_boot_env tiny_meta tiny_file (dl_dev d) \<and>
    elf_file_ok tiny_boot_env tiny_file (boot_elf (dl_dev d))"
proof -
  let ?env = tiny_boot_env and ?f = tiny_file and ?m = tiny_meta
  have m: "compression_type ?m = COMPRESS_NONE" "image_format ?m = IMAGE_ELF" "mem_size ?m = 84"
    "wire_size ?m = of_nat (length ?f)" "mem_crc32 ?m = crc32 0 ?f" "length ?f = unat (mem_size ?m)"
    by (simp_all add: tiny_meta_def tiny_facts)
  have r: "plan_reloc ?env 0x230000 0x230054 = Some no_reloc" by (simp add: plan_reloc_def tiny_boot_env_def)
  have "\<exists>p0 :: unit boot. platform_init_meta ?env idle_xz ?m small_boot = (True, p0)"
    using r m(1-3) tiny_facts by (simp add: platform_init_meta_def image_start_def idle_xz_def format_defs word_le_nat_alt)
  then obtain p0 :: "unit boot" where p0: "platform_init_meta ?env idle_xz ?m small_boot = (True, p0)" by blast
  have e0: "boot_elf p0 = elf_init" using init_meta_elf(1) [OF p0] by (simp add: small_boot_def)
  have h0: "elf_holds ?env ?m [] p0"
    using init_meta_holds [OF p0] init_meta_elf(2) [OF p0] elf_wf_init e0 by (simp add: elf_holds_def)
  have f: "platform_feed idle_xz 0 ?f p0 = Some (True, feed_impl ?f p0)"
    using h0 m(1) by (simp add: platform_feed_def elf_holds_def boot_holds_def format_defs)
  let ?p1 = "feed_impl ?f p0"
  have h1: "elf_holds ?env ?m ?f ?p1" using elf_feed_holds [OF h0 f] by simp
  have "file_chunks ?f = [?f]" by (simp add: file_chunks_def tiny_facts STAGING_SIZE_def)
  with f have fa: "feed_all (bcm2835_ops ?env idle_xz) 0 (file_chunks ?f) p0 = Some ?p1" by (simp add: bcm2835_ops_def)
  have b1: "boot_holds ?env ?m ?f ?p1" and st: "img_start ?p1 = 0x230000" "img_end ?p1 = 0x230054"
    and e1: "boot_elf ?p1 = elf_init"
    using h1 m tiny_facts e0 by (simp_all add: elf_holds_def feed_impl_fields)
  note p = plain_checked [OF b1 tiny_facts(2,3) m(6)]
  obtain fd k where c: "\<And>s. image_crc ?p1 (img_start ?p1 + mem_size ?m) s = (crc32 0 ?f, fd, beats k s)" using p(5) by blast
  have pl: "boot_placed ?env ?p1" "\<forall>i < 84. view ?p1 (img_lo ?p1 + i) = ?f ! i"
    using b1 tiny_facts m by (simp_all add: boot_holds_def)
  have "mem_read (boot_mem ?p1) 0x230000 84 = ?f"
    using pl(2) elf_in_place [OF pl(1)] st tiny_facts by (intro nth_equalityI) (simp_all add: img_lo_def)
  from tiny_loads [OF this] obtain es' m' where
    l: "load_elf_image tiny_env 0x230000 0x230054 True True EM_ARM 0x20000000 [] elf_init (boot_mem ?p1) = Ok (True, es', m')"
    and ok: "elf_file_ok ?env ?f es'" by blast
  let ?p2 = "?p1\<lparr>feed := fd, boot_elf := es', boot_mem := m'\<rparr>"
  have ld: "platform_load_image ?env ?p1 s = Some (True, ?p2, beats k s)" for s
    using p(1,2) c m l st e1 tiny_facts by (simp add: platform_load_image_def format_defs)
  have pad: "length [0, 0, 0, 0 :: u8] = 4" "length ?f < 2 ^ 31" "length ?f < 65536" by (simp_all add: tiny_facts)
  have dev: "dl_dev tiny_dl = small_boot" "device_hears (dl_io tiny_dl) (slow_line (sent_by_host [0, 0, 0, 0] ?m ?f)) [0, 0, 0, 0] ?m ?f"
    using small_dl_hears [OF pad(3,1)] by (simp_all add: tiny_dl_def small_dl_def)
  show ?thesis using platform_completes [OF pad(1,2) m(4) p0 fa ld dev] elf_load_loaded [OF h1 ld] ok by fastforce
qed

theorem booted_elf_runs_witness:
  "\<exists>n d xs. fsm_download (bcm2835_ops tiny_boot_env idle_xz) pup_config n tiny_dl = Some d \<and> dl_pc d = DL_Done \<and>
    boot_ok d \<and> length xs = 1 \<and> delivered (dl_io tiny_dl) tiny_meta xs (dl_io d) \<and> crc32 0 (concat xs) = crc32 0 tiny_file \<and>
    (elf_file_ok tiny_boot_env (concat xs) (boot_elf (dl_dev d)) \<or> elf_file_fits tiny_boot_env (concat xs) \<longrightarrow>
       elf_running tiny_boot_env (concat xs) (dl_dev d)) \<and>
    elf_running tiny_boot_env tiny_file (dl_dev d)"
proof -
  from tiny_session obtain n d where d: "fsm_download (bcm2835_ops tiny_boot_env idle_xz) pup_config n tiny_dl = Some d"
    "dl_pc d = DL_Done" "boot_ok d" "dl_meta d = tiny_meta" "elf_loaded tiny_boot_env tiny_meta tiny_file (dl_dev d)"
    "elf_file_ok tiny_boot_env tiny_file (boot_elf (dl_dev d))" by blast
  have m: "image_format (dl_meta d) = IMAGE_ELF" "compression_type (dl_meta d) = COMPRESS_NONE"
    "unat (prog_end tiny_boot_env) + unat (mem_size (dl_meta d)) < 2 ^ 29"
    "unat (chunks_of (wire_size (dl_meta d))) = 1" "mem_crc32 (dl_meta d) = crc32 0 tiny_file" "length tiny_file < 2 ^ 32"
    "elf_wf (boot_elf (dl_dev tiny_dl))" "image_format tiny_meta = IMAGE_ELF"
    using tiny_facts d(4) elf_wf_init by (simp_all add: tiny_meta_def chunks_of_def tiny_dl_def small_dl_def small_boot_def)
  from booted_elf_runs [OF d(1-3) m(7) tiny_facts(2) m(1-3)] obtain xs where
    "length xs = 1" "delivered (dl_io tiny_dl) tiny_meta xs (dl_io d)" "crc32 0 (concat xs) = crc32 0 tiny_file"
    "elf_file_ok tiny_boot_env (concat xs) (boot_elf (dl_dev d)) \<or> elf_file_fits tiny_boot_env (concat xs) \<longrightarrow>
       elf_running tiny_boot_env (concat xs) (dl_dev d)"
    unfolding m(4,5) unfolding d(4) by blast
  with d(1-3) loaded_elf_runs [OF d(5) tiny_facts(2,3) m(6,8) d(6)] show ?thesis by blast
qed

end
