(* ===== verification/Board.thy ===== *)
theory Board
  imports Prelude
begin

text \<open>
  Board support of \<^verbatim>\<open>bcm2835/\<close>: the system timer, the pins, the translation table and the serial
  port. Registers that change by themselves are functions of the number of the access.
\<close>

section \<open>The system timer\<close>

text \<open>
  \<open>ctr n\<close> is the 64-bit counter at the moment of the \<open>n\<close>-th access to one of its two halves. The
  result of a reading has the number of the next access; \<open>None\<close> is a loop without end.
\<close>

definition chi :: "(nat \<Rightarrow> u64) \<Rightarrow> nat \<Rightarrow> u32" where "chi ctr n = ucast (drop_bit 32 (ctr n))"
definition clo :: "(nat \<Rightarrow> u64) \<Rightarrow> nat \<Rightarrow> u32" where "clo ctr n = ucast (ctr n)"

partial_function (option) systmr_loop :: "(nat \<Rightarrow> u64) \<Rightarrow> u32 \<Rightarrow> nat \<Rightarrow> (u64 \<times> nat) option" where
  "systmr_loop ctr hi2 n =
     (let hi = hi2; lo = clo ctr n; hi2 = chi ctr (n + 1)
      in if hi2 \<noteq> hi then systmr_loop ctr hi2 (n + 2)
         else Some (push_bit 32 (ucast hi) OR ucast lo, n + 2))"

declare systmr_loop.simps [code]

definition systmr_read_raw :: "(nat \<Rightarrow> u64) \<Rightarrow> nat \<Rightarrow> (u64 \<times> nat) option" where
  "systmr_read_raw ctr n = systmr_loop ctr (chi ctr n) (n + 1)"

text \<open>The waiting loops: read again while \<open>P\<close> holds of the reading.\<close>

partial_function (option) systmr_while :: "(u64 \<Rightarrow> bool) \<Rightarrow> (nat \<Rightarrow> u64) \<Rightarrow> nat \<Rightarrow> nat option" where
  "systmr_while P ctr n =
     (case systmr_read_raw ctr n of None \<Rightarrow> None
      | Some (v, n) \<Rightarrow> if P v then systmr_while P ctr n else Some n)"

declare systmr_while.simps [code]

definition systmr_delay_us :: "(nat \<Rightarrow> u64) \<Rightarrow> u64 \<Rightarrow> nat \<Rightarrow> nat option" where
  "systmr_delay_us ctr us n =
     (case systmr_read_raw ctr n of None \<Rightarrow> None
      | Some (start, n) \<Rightarrow>
          let stop = start + us
          in if stop = start then Some n
             else case (if stop < start then systmr_while (\<lambda>v. start < v) ctr n else Some n) of
                    None \<Rightarrow> None
                  | Some n \<Rightarrow> systmr_while (\<lambda>v. v < stop) ctr n)"

text \<open>The milliseconds are multiplied in 32 bits.\<close>

definition systmr_delay_ms :: "(nat \<Rightarrow> u64) \<Rightarrow> u32 \<Rightarrow> nat \<Rightarrow> nat option" where
  "systmr_delay_ms ctr ms n = systmr_delay_us ctr (ucast (ms * 1000)) n"

section \<open>Pins\<close>

datatype fsel_t = FSEL_INPT | FSEL_OUTP | FSEL_ALT0 | FSEL_ALT1 | FSEL_ALT2 | FSEL_ALT3 | FSEL_ALT4 | FSEL_ALT5

fun fsel_code :: "fsel_t \<Rightarrow> u32" where
  "fsel_code FSEL_INPT = 0"
| "fsel_code FSEL_OUTP = 1"
| "fsel_code FSEL_ALT0 = 4"
| "fsel_code FSEL_ALT1 = 5"
| "fsel_code FSEL_ALT2 = 6"
| "fsel_code FSEL_ALT3 = 7"
| "fsel_code FSEL_ALT4 = 3"
| "fsel_code FSEL_ALT5 = 2"

text \<open>The function select registers, and the last values written to the set and clear registers.\<close>

record hw_gpio =
  gpfsel :: "nat \<Rightarrow> u32"
  gpset :: "nat \<Rightarrow> u32"
  gpclr :: "nat \<Rightarrow> u32"

definition gpio_pin_set_function :: "u8 \<Rightarrow> fsel_t \<Rightarrow> hw_gpio \<Rightarrow> hw_gpio" where
  "gpio_pin_set_function pin fsel g =
     (if 53 < pin then g
      else let reg_no = unat pin div 10; shift = (unat pin mod 10) * 3;
               r = gpfsel g reg_no
           in g\<lparr>gpfsel := (gpfsel g)(reg_no := (r AND NOT (push_bit shift 7)) OR push_bit shift (fsel_code fsel))\<rparr>)"

definition gpio_pin_write :: "u8 \<Rightarrow> bool \<Rightarrow> hw_gpio \<Rightarrow> hw_gpio" where
  "gpio_pin_write pin lev g =
     (if 53 < pin then g
      else let reg_no = unat pin div 32; v = push_bit (unat pin mod 32) 1
           in if lev then g\<lparr>gpset := (gpset g)(reg_no := v)\<rparr> else g\<lparr>gpclr := (gpclr g)(reg_no := v)\<rparr>)"

section \<open>The translation table\<close>

definition supersection_entry :: "u8 \<Rightarrow> u32 \<Rightarrow> u32 \<Rightarrow> u32 \<Rightarrow> u32 \<Rightarrow> u32" where
  "supersection_entry idx domain tex c b =
     2 OR push_bit 24 (ucast idx) OR push_bit 19 0 OR push_bit 18 1 OR push_bit 17 0 OR push_bit 16 0 OR
     push_bit 15 0 OR push_bit 12 tex OR push_bit 10 3 OR push_bit 9 0 OR push_bit 5 domain OR push_bit 4 0 OR
     push_bit 3 c OR push_bit 2 b"

text \<open>The entries that \<open>mmu_init\<close> stores, by their number below 4096.\<close>

definition mmu_entry :: "nat \<Rightarrow> u32" where
  "mmu_entry i =
     (if i < 512 then supersection_entry (of_nat (i div 16)) 0 1 0 1
      else if i < 512 + 16 then supersection_entry (of_nat (i div 16)) 0 0 0 1
      else 0)"

definition mmu_table :: "u32 list" where
  "mmu_table = map mmu_entry [0..<4096]"

section \<open>The serial port\<close>

text \<open>\<open>None\<close> is a division by zero; the multiplication wraps around.\<close>

definition baud_to_prescaler :: "u32 \<Rightarrow> u32 \<Rightarrow> u16 option" where
  "baud_to_prescaler baud_rate core_freq =
     (if 8 * baud_rate = 0 then None else Some (ucast (core_freq div (8 * baud_rate) - 1)))"

definition AUX_ENABLE_UART :: u32 where "AUX_ENABLE_UART = 1"
definition AUX_UART_IIR_CLEAR_BOTH :: u32 where "AUX_UART_IIR_CLEAR_BOTH = push_bit 1 3"
definition AUX_UART_LCR_8BIT :: u32 where "AUX_UART_LCR_8BIT = 3"
definition AUX_UART_CNTL_TX_ENABLE :: u32 where "AUX_UART_CNTL_TX_ENABLE = push_bit 1 1"
definition AUX_UART_CNTL_RX_ENABLE :: u32 where "AUX_UART_CNTL_RX_ENABLE = 1"
definition AUX_UART_STAT_TX_DONE :: u32 where "AUX_UART_STAT_TX_DONE = push_bit 9 1"
definition AUX_UART_STAT_TX_SPACE :: u32 where "AUX_UART_STAT_TX_SPACE = push_bit 1 1"
definition AUX_UART_STAT_RX_DATA :: u32 where "AUX_UART_STAT_RX_DATA = 1"

text \<open>The registers that the driver writes, and the bytes it has put.\<close>

record hw_uart =
  aux_enables :: u32
  uart_ier :: u32
  uart_iir :: u32
  uart_lcr :: u32
  uart_mcr :: u32
  uart_cntl :: u32
  uart_baud :: u32
  uart_out :: "u8 list"

definition aux_uart_clear_fifos :: "hw_uart \<Rightarrow> hw_uart" where
  "aux_uart_clear_fifos u = u\<lparr>uart_iir := AUX_UART_IIR_CLEAR_BOTH\<rparr>"

text \<open>The nominal rate of the core clock, which the mailbox tells, is an argument.\<close>

definition aux_uart_init :: "u32 \<Rightarrow> u32 \<Rightarrow> hw_uart \<Rightarrow> hw_uart option" where
  "aux_uart_init core_freq baud_rate u =
     (let u = u\<lparr>aux_enables := aux_enables u OR AUX_ENABLE_UART\<rparr>;
          u = aux_uart_clear_fifos (u\<lparr>uart_cntl := 0, uart_iir := 0\<rparr>);
          u = u\<lparr>uart_lcr := AUX_UART_LCR_8BIT, uart_mcr := 0\<rparr>
      in case baud_to_prescaler baud_rate core_freq of
           None \<Rightarrow> None
         | Some p \<Rightarrow> Some (u\<lparr>uart_baud := ucast p, uart_ier := 0,
             uart_cntl := AUX_UART_CNTL_TX_ENABLE OR AUX_UART_CNTL_RX_ENABLE\<rparr>))"

text \<open>
  The waiting loops poll the status register: \<open>stat n\<close> is its \<open>n\<close>-th reading, and the result the number
  of the next one.
\<close>

partial_function (option) uart_wait :: "u32 \<Rightarrow> (nat \<Rightarrow> u32) \<Rightarrow> nat \<Rightarrow> nat option" where
  "uart_wait flag stat n = (if stat n AND flag \<noteq> 0 then Some (n + 1) else uart_wait flag stat (n + 1))"

declare uart_wait.simps [code]

definition aux_uart_flush_tx_fifo :: "(nat \<Rightarrow> u32) \<Rightarrow> nat \<Rightarrow> nat option" where
  "aux_uart_flush_tx_fifo stat n = uart_wait AUX_UART_STAT_TX_DONE stat n"

definition aux_uart_put :: "(nat \<Rightarrow> u32) \<Rightarrow> u8 \<Rightarrow> nat \<times> hw_uart \<Rightarrow> (nat \<times> hw_uart) option" where
  "aux_uart_put stat b s =
     (let (n, u) = s
      in case uart_wait AUX_UART_STAT_TX_SPACE stat n of
           None \<Rightarrow> None
         | Some n \<Rightarrow> Some (n, u\<lparr>uart_out := uart_out u @ [b]\<rparr>))"

text \<open>\<open>rx n\<close> is what the data register holds after the \<open>n\<close>-th reading of the status.\<close>

definition aux_uart_read :: "(nat \<Rightarrow> u32) \<Rightarrow> (nat \<Rightarrow> u32) \<Rightarrow> nat \<Rightarrow> (u8 \<times> nat) option" where
  "aux_uart_read stat rx n =
     (case uart_wait AUX_UART_STAT_RX_DATA stat n of
        None \<Rightarrow> None
      | Some n \<Rightarrow> Some (ucast (rx n), n))"

definition aux_uart_set_baud_rate ::
  "u32 \<Rightarrow> (nat \<Rightarrow> u32) \<Rightarrow> u32 \<Rightarrow> nat \<times> hw_uart \<Rightarrow> (nat \<times> hw_uart) option" where
  "aux_uart_set_baud_rate core_freq stat baud_rate s =
     (let (n, u) = s; enable = AUX_UART_CNTL_TX_ENABLE OR AUX_UART_CNTL_RX_ENABLE
      in case aux_uart_flush_tx_fifo stat n of
           None \<Rightarrow> None
         | Some n \<Rightarrow>
             let u = u\<lparr>uart_cntl := uart_cntl u AND NOT enable\<rparr>
             in case baud_to_prescaler baud_rate core_freq of
                  None \<Rightarrow> None
                | Some p \<Rightarrow> let u = u\<lparr>uart_baud := ucast p\<rparr> in Some (n, u\<lparr>uart_cntl := uart_cntl u OR enable\<rparr>))"

section \<open>Correctness of the timer\<close>

text \<open>A counter that does not run backwards between accesses.\<close>

definition ticking :: "(nat \<Rightarrow> u64) \<Rightarrow> bool" where
  "ticking ctr \<longleftrightarrow> (\<forall>i. ctr i \<le> ctr (Suc i))"

lemma ticking_mono: "ticking ctr \<Longrightarrow> i \<le> j \<Longrightarrow> ctr i \<le> ctr j"
  by (rule lift_Suc_mono_le [of ctr]) (simp add: ticking_def)

lemma unat_chi: "unat (chi ctr n) = unat (ctr n) div 2 ^ 32"
proof -
  have "unat (ctr n) div 2 ^ 32 < 2 ^ 32" using unsigned_less [of "ctr n", where 'a = nat] by (simp add: less_mult_imp_div_less)
  then show ?thesis by (simp add: chi_def unsigned_ucast_eq take_bit_eq_mod drop_bit_eq_div unat_div)
qed

lemma unat_clo: "unat (clo ctr n) = unat (ctr n) mod 2 ^ 32"
  by (simp add: clo_def unsigned_ucast_eq take_bit_eq_mod)

lemma chi_mono: "ticking ctr \<Longrightarrow> i \<le> j \<Longrightarrow> chi ctr i \<le> chi ctr j"
  using ticking_mono [of ctr i j] by (simp add: word_le_nat_alt unat_chi div_le_mono)

lemma halves_of_64: "push_bit 32 (ucast (ucast (drop_bit 32 x) :: u32)) OR ucast (ucast x :: u32) = x" for x :: u64
  by (rule bit_word_eqI) (auto simp: bit_simps)

lemma systmr_loop_returns:
  assumes "ticking ctr" "hi2 = chi ctr j" "j < n"
  shows "\<exists>k \<ge> n. systmr_loop ctr hi2 n = Some (ctr k, k + 2)"
  using assms
proof (induction "2 ^ 32 - unat hi2" arbitrary: hi2 n j rule: less_induct)
  case less
  show ?case
  proof (cases "chi ctr (n + 1) = hi2")
    case True
    have "chi ctr j \<le> chi ctr n" "chi ctr n \<le> chi ctr (n + 1)"
      using less.prems by (simp_all add: chi_mono)
    then have "chi ctr n = hi2" using True less.prems(2) by simp
    then have "push_bit 32 (ucast hi2) OR ucast (clo ctr n) = ctr n"
      using halves_of_64 [of "ctr n"] by (simp add: chi_def clo_def)
    with True show ?thesis by (subst systmr_loop.simps) (auto simp: Let_def)
  next
    case False
    have "hi2 \<le> chi ctr (n + 1)" using less.prems by (simp add: chi_mono)
    with False have "unat hi2 < unat (chi ctr (n + 1))" by (simp add: word_less_nat_alt [symmetric] order.not_eq_order_implies_strict)
    moreover have "unat (chi ctr (n + 1)) < 2 ^ 32" using unsigned_less [of "chi ctr (n + 1)", where 'a = nat] by simp
    ultimately have "2 ^ 32 - unat (chi ctr (n + 1)) < 2 ^ 32 - unat hi2" by linarith
    from less.hyps [OF this less.prems(1) refl, of "n + 2"] obtain k where
      "n + 2 \<le> k" "systmr_loop ctr (chi ctr (n + 1)) (n + 2) = Some (ctr k, k + 2)" by auto
    with False show ?thesis by (subst systmr_loop.simps) (auto simp: Let_def intro!: exI [of _ k])
  qed
qed

lemma systmr_read_returns:
  "ticking ctr \<Longrightarrow> \<exists>k > n. systmr_read_raw ctr n = Some (ctr k, k + 2)"
  using systmr_loop_returns [of ctr "chi ctr n" n "n + 1"] by (auto simp: systmr_read_raw_def Suc_le_eq)

text \<open>A waiting loop ends at a reading at which its condition is false, if there is one and it stays false.\<close>

lemma systmr_while_ends:
  assumes t: "ticking ctr" and stop: "\<And>j. N \<le> j \<Longrightarrow> \<not> P (ctr j)"
  shows "\<exists>k > n. systmr_while P ctr n = Some (k + 2) \<and> \<not> P (ctr k)"
proof (induction "N - n" arbitrary: n rule: less_induct)
  case less
  from systmr_read_returns [OF t, of n] obtain k where k: "n < k" "systmr_read_raw ctr n = Some (ctr k, k + 2)" by blast
  show ?case
  proof (cases "P (ctr k)")
    case True
    with stop have "k < N" by (meson not_le)
    then have "N - (k + 2) < N - n" using k(1) by linarith
    from less.hyps [OF this] k True show ?thesis
      by (subst systmr_while.simps) (auto intro: less_trans)
  next
    case False
    with k show ?thesis by (subst systmr_while.simps) auto
  qed
qed

lemma delay_ends:
  assumes "ticking ctr" and r: "systmr_read_raw ctr n = Some (start, m)" and no_wrap: "start \<le> start + us" "us \<noteq> 0"
    and "start + us \<le> ctr j"
  shows "\<exists>k \<ge> m. systmr_delay_us ctr us n = Some (k + 2) \<and> start + us \<le> ctr k"
proof -
  have "\<exists>k > m. systmr_while (\<lambda>v. v < start + us) ctr m = Some (k + 2) \<and> \<not> ctr k < start + us"
    by (rule systmr_while_ends [OF assms(1), of j]) (use ticking_mono [OF assms(1), of j] assms(5) in \<open>fastforce\<close>)
  with r no_wrap show ?thesis by (auto simp: systmr_delay_us_def Let_def not_less intro: less_imp_le)
qed

section \<open>Correctness of the pins and the translation table\<close>

text \<open>The function that the registers select for a pin: three bits, ten pins a register.\<close>

definition pin_function :: "hw_gpio \<Rightarrow> nat \<Rightarrow> u32" where
  "pin_function g p = drop_bit (p mod 10 * 3) (gpfsel g (p div 10)) AND 7"

lemma bit_7 [simp]: "bit (7 :: int) n \<longleftrightarrow> n < 3"
proof -
  have "(7 :: int) = mask 3" by (simp add: mask_eq_exp_minus_1)
  then show ?thesis by (simp only: bit_mask_iff) auto
qed

lemma fsel_code_bits: "bit (fsel_code f) n \<Longrightarrow> n < 3"
proof -
  have "fsel_code f AND 7 = fsel_code f" by (cases f) simp_all
  then show "bit (fsel_code f) n \<Longrightarrow> n < 3" using bit_and_iff [of "fsel_code f" 7 n] by simp
qed

lemma patched_field:
  assumes "a + 3 \<le> 32" "\<And>n. bit (f :: u32) n \<Longrightarrow> n < 3"
  shows "drop_bit a ((r AND NOT (push_bit a 7)) OR push_bit a f) AND 7 = f"
proof (rule bit_word_eqI)
  fix n assume "n < LENGTH(32)"
  with assms show "bit (drop_bit a ((r AND NOT (push_bit a 7)) OR push_bit a f) AND 7) n = bit f n"
    by (cases "n < 3") (auto simp: bit_simps)
qed

lemma other_field:
  assumes "a + 3 \<le> b \<or> b + 3 \<le> a" "\<And>n. bit (f :: u32) n \<Longrightarrow> n < 3" "b + 3 \<le> 32"
  shows "drop_bit b ((r AND NOT (push_bit a 7)) OR push_bit a f) AND 7 = drop_bit b r AND 7"
proof (rule bit_word_eqI)
  fix n assume "n < LENGTH(32)"
  have "\<not> bit f (b + n - a)" if "a + 3 \<le> b" using assms(2) [of "b + n - a"] that by auto
  then show "bit (drop_bit b ((r AND NOT (push_bit a 7)) OR push_bit a f) AND 7) n = bit (drop_bit b r AND 7) n"
    using assms(1,3) by (cases "n < 3") (auto simp: bit_simps)
qed

lemma gpio_set_function:
  assumes "unat pin \<le> 53" "p \<le> 53"
  shows "pin_function (gpio_pin_set_function pin f g) p = (if p = unat pin then fsel_code f else pin_function g p)"
proof -
  have pin: "\<not> 53 < pin" using assms(1) by (simp add: word_less_nat_alt)
  have m: "unat pin mod 10 * 3 + 3 \<le> 32" "p mod 10 * 3 + 3 \<le> 32"
    using mod_less_divisor [of 10 "unat pin"] mod_less_divisor [of 10 p] by linarith+
  show ?thesis
  proof (cases "p div 10 = unat pin div 10")
    case False
    then show ?thesis using pin by (auto simp: gpio_pin_set_function_def pin_function_def Let_def)
  next
    case same: True
    show ?thesis
    proof (cases "p = unat pin")
      case True
      with pin patched_field [OF m(1) fsel_code_bits, where r = "gpfsel g (p div 10)"] same show ?thesis
        by (simp add: gpio_pin_set_function_def pin_function_def Let_def)
    next
      case False
      with same have "p mod 10 \<noteq> unat pin mod 10" by (metis div_mult_mod_eq)
      then have "unat pin mod 10 * 3 + 3 \<le> p mod 10 * 3 \<or> p mod 10 * 3 + 3 \<le> unat pin mod 10 * 3" by linarith
      from pin other_field [OF this fsel_code_bits m(2), where r = "gpfsel g (p div 10)"] same False show ?thesis
        by (simp add: gpio_pin_set_function_def pin_function_def Let_def)
    qed
  qed
qed

text \<open>
  What a supersection entry says: the top byte is the number of the 16 MiB it maps, bits 12 to 14 and 2, 3
  the memory type, and bit 4 forbids execution.
\<close>

lemma top_byte: "drop_bit 24 (push_bit 24 (ucast x)) = (ucast x :: u32)" for x :: u8
  by (rule bit_word_eqI) (auto simp: bit_simps dest: bit_imp_le_length)

lemma low_bits: "take_bit 24 (push_bit 24 x) = (0 :: u32)"
  by (rule bit_word_eqI) (auto simp: bit_simps)

lemma supersection_fields:
  "drop_bit 24 (supersection_entry idx 0 1 0 1) = ucast idx" "drop_bit 24 (supersection_entry idx 0 0 0 1) = ucast idx"
  "take_bit 24 (supersection_entry idx 0 1 0 1) = 0x41C06" "take_bit 24 (supersection_entry idx 0 0 0 1) = 0x40C06"
  by (simp_all add: supersection_entry_def drop_bit_or take_bit_or top_byte low_bits)

lemma mmu_entry_fields:
  assumes "i < 528"
  shows "unat (drop_bit 24 (mmu_entry i)) = i div 16" "take_bit 24 (mmu_entry i) = (if i < 512 then 0x41C06 else 0x40C06)"
proof -
  have "i div 16 < 2 ^ 8" using assms by (simp add: less_mult_imp_div_less)
  then show "unat (drop_bit 24 (mmu_entry i)) = i div 16"
    using assms by (simp add: mmu_entry_def supersection_fields unsigned_ucast_eq take_bit_eq_mod unat_of_nat)
  show "take_bit 24 (mmu_entry i) = (if i < 512 then 0x41C06 else 0x40C06)"
    using assms by (simp add: mmu_entry_def supersection_fields)
qed

section \<open>Properties\<close>

text \<open>
  C33: Reading the system timer is atomic although its two halves are read apart: if the counter does not
  run backwards, \<open>systmr_read_raw\<close> returns, and its result is the value of the whole counter at the
  moment of the last reading of the low half, also when the high half changes in between.
\<close>

theorem systmr_read_atomic:
  assumes "ticking ctr"
  shows "\<exists>k > n. systmr_read_raw ctr n = Some (ctr k, k + 2)"
  using assms by (rule systmr_read_returns)

definition carry_ctr :: "nat \<Rightarrow> u64" where
  "carry_ctr i = (if i < 2 then 0xFFFFFFFF else 0x100000000)"

lemma ticking_carry [simp]: "ticking carry_ctr"
  by (simp add: ticking_def carry_ctr_def)

lemma carry_read: "systmr_read_raw carry_ctr 0 = Some (0x100000000, 5)"
proof -
  have "chi carry_ctr 0 = 0" "\<And>i. 2 \<le> i \<Longrightarrow> chi carry_ctr i = 1" "clo carry_ctr 3 = 0"
    by (simp_all add: chi_def clo_def carry_ctr_def)
  then show ?thesis
    by (simp add: systmr_read_raw_def systmr_loop.simps [of carry_ctr 0 1] systmr_loop.simps [of carry_ctr 1 3] del: One_nat_def)
qed

theorem systmr_read_atomic_witness:
  "systmr_read_raw carry_ctr 0 = Some (0x100000000, 5) \<and> (\<exists>k > 0. systmr_read_raw carry_ctr 0 = Some (carry_ctr k, k + 2))"
  using systmr_read_atomic [OF ticking_carry, of 0] carry_read by simp

text \<open>
  A delay ends and is long enough: when the counter reaches the reading at the start plus the delay,
  without wrapping around, \<open>systmr_delay_us\<close> returns, and not before such a moment.
\<close>

theorem systmr_delay_waits:
  assumes "ticking ctr" "systmr_read_raw ctr n = Some (start, m)" "start \<le> start + us" "us \<noteq> 0"
    and "start + us \<le> ctr j"
  shows "\<exists>k \<ge> m. systmr_delay_us ctr us n = Some (k + 2) \<and> start + us \<le> ctr k"
  using assms by (rule delay_ends)

definition slow_ctr :: "nat \<Rightarrow> u64" where
  "slow_ctr i = (if i < 6 then 0xFFFFFFFF else 0x100000009)"

theorem systmr_delay_waits_witness:
  "\<exists>k. systmr_delay_us slow_ctr 10 0 = Some (k + 2) \<and> 0x100000009 \<le> slow_ctr k"
proof -
  have t: "ticking slow_ctr" by (simp add: ticking_def slow_ctr_def)
  have "chi slow_ctr 0 = 0" "chi slow_ctr (Suc (Suc 0)) = 0" "clo slow_ctr (Suc 0) = 0xFFFFFFFF"
    by (simp_all add: chi_def clo_def slow_ctr_def)
  then have "systmr_read_raw slow_ctr 0 = Some (0xFFFFFFFF, 3)"
    by (simp add: systmr_read_raw_def systmr_loop.simps [of slow_ctr 0 "Suc 0"])
  from systmr_delay_waits [OF t this, of 10 6] obtain k where
    "systmr_delay_us slow_ctr 10 0 = Some (k + 2)" "0x100000009 \<le> slow_ctr k" by (auto simp: slow_ctr_def)
  then show ?thesis by blast
qed

text \<open>
  Selecting a function for a pin changes that pin only: of the 54 pins, the chosen one has the new
  function and every other keeps its own; other pin numbers change nothing.
\<close>

theorem gpio_function_exclusive:
  "(unat pin \<le> 53 \<longrightarrow> (\<forall>p \<le> 53. pin_function (gpio_pin_set_function pin f g) p =
      (if p = unat pin then fsel_code f else pin_function g p))) \<and>
   (53 < unat pin \<longrightarrow> gpio_pin_set_function pin f g = g)"
proof -
  have "53 < unat pin \<Longrightarrow> gpio_pin_set_function pin f g = g"
    by (simp add: gpio_pin_set_function_def word_less_nat_alt)
  with gpio_set_function show ?thesis by blast
qed

definition all_ones :: hw_gpio where
  "all_ones = \<lparr>gpfsel = \<lambda>_. 0xFFFFFFFF, gpset = \<lambda>_. 0, gpclr = \<lambda>_. 0\<rparr>"

theorem gpio_function_exclusive_witness:
  "pin_function (gpio_pin_set_function 14 FSEL_ALT5 all_ones) 14 = 2 \<and>
   pin_function (gpio_pin_set_function 14 FSEL_ALT5 all_ones) 15 = 7"
proof -
  have "pin_function all_ones 15 = 7" by (simp add: pin_function_def all_ones_def)
  moreover have "\<forall>p \<le> 53. pin_function (gpio_pin_set_function 14 FSEL_ALT5 all_ones) p =
      (if p = 14 then fsel_code FSEL_ALT5 else pin_function all_ones p)"
    using gpio_function_exclusive [of 14 FSEL_ALT5 all_ones] by simp
  ultimately show ?thesis by simp
qed

text \<open>
  The translation table maps every address of memory and of the peripherals to itself: the entry of an
  address below \<open>0x21000000\<close> is a supersection with the address's own top byte, of normal memory below
  \<open>0x20000000\<close> and of device memory from there on; all other entries are faults.
\<close>

theorem mmu_table_identity:
  "length mmu_table = 4096 \<and>
   (\<forall>a :: u32. let e = mmu_table ! unat (drop_bit 20 a) in
      if a < 0x21000000 then push_bit 24 (drop_bit 24 e) OR take_bit 24 a = a \<and>
        take_bit 24 e = (if a < 0x20000000 then 0x41C06 else 0x40C06)
      else e = 0)"
proof -
  have "let e = mmu_table ! unat (drop_bit 20 a) in
      if a < 0x21000000 then push_bit 24 (drop_bit 24 e) OR take_bit 24 a = a \<and>
        take_bit 24 e = (if a < 0x20000000 then 0x41C06 else 0x40C06)
      else e = 0" for a :: u32
  proof -
    let ?i = "unat a div 2 ^ 20"
    have ui: "unat (drop_bit 20 a) = ?i" by (simp add: drop_bit_eq_div unat_div)
    have "?i < 4096" using unsigned_less [of a, where 'a = nat] by (simp add: less_mult_imp_div_less)
    then have e: "mmu_table ! unat (drop_bit 20 a) = mmu_entry ?i" by (simp add: ui mmu_table_def)
    have r: "a < 0x21000000 \<longleftrightarrow> ?i < 528" "a < 0x20000000 \<longleftrightarrow> ?i < 512"
      by (simp_all add: word_less_nat_alt div_less_iff_less_mult)
    show ?thesis
    proof (cases "?i < 528")
      case False
      then show ?thesis using r unfolding e Let_def by (simp add: mmu_entry_def)
    next
      case True
      have "unat (drop_bit 24 (mmu_entry ?i)) = unat (drop_bit 24 a)"
        using mmu_entry_fields(1) [OF True] by (simp add: drop_bit_eq_div unat_div div_mult2_eq [symmetric])
      then have d: "drop_bit 24 (mmu_entry ?i) = drop_bit 24 a" by (simp only: word_unat_eq_iff)
      have "push_bit 24 (drop_bit 24 a) OR take_bit 24 a = a"
        by (rule bit_word_eqI) (auto simp: bit_simps)
      with True r d mmu_entry_fields(2) [OF True] show ?thesis unfolding e Let_def by simp
    qed
  qed
  then show ?thesis by (simp add: mmu_table_def)
qed

end
