(* ===== verification/Boot_Main.thy ===== *)
theory Boot_Main
  imports Elf_Session Board
begin

text \<open>
  \<open>main\<close> of the boot loader, \<^verbatim>\<open>pup/bcm2835.c\<close>: the pins and the serial port, the download and the jump. The bits of the
  control register that it sets, for the instruction cache and the branch predictor, and the table of the XZ decoder's CRC
  are left out.
\<close>

record board =
  pins :: hw_gpio
  uart :: hw_uart

definition board_setup :: "u32 \<Rightarrow> board \<Rightarrow> board option" where
  "board_setup core_freq hw =
     (let g = pins hw;
          g = gpio_pin_set_function 14 FSEL_ALT5 g;
          g = gpio_pin_set_function 15 FSEL_ALT5 g;
          g = gpio_pin_set_function 47 FSEL_OUTP g
      in map_option (\<lambda>u. \<lparr>pins = g, uart = u\<rparr>) (aux_uart_init core_freq BAUD_RATE (uart hw)))"

text \<open>
  The result is the board, the end of the download and the jump: its target and the memory. \<open>None\<close> is a panic or a run
  that is not over after \<open>n\<close> control points of the download.
\<close>

definition boot_main ::
  "boot_env \<Rightarrow> 'x xz_ops \<Rightarrow> u32 \<Rightarrow> nat \<Rightarrow> board \<Rightarrow> 'x boot dl \<Rightarrow> (board \<times> 'x boot dl \<times> u32 \<times> mem) option" where
  "boot_main env xz core_freq n hw d = do {
     hw \<leftarrow> board_setup core_freq hw;
     d \<leftarrow> fsm_download (bcm2835_ops env xz) pup_config n d;
     if dl_pc d = DL_Done then do {
       (pc, m) \<leftarrow> trampoline env (dl_dev d);
       Some (hw, d, pc, m)
     } else None
   }"

section \<open>The board\<close>

lemma board_setup_pins:
  assumes "board_setup core_freq hw = Some hw'" "p \<le> 53"
  shows "pin_function (pins hw') p =
    (if p = 14 \<or> p = 15 then fsel_code FSEL_ALT5 else if p = 47 then fsel_code FSEL_OUTP else pin_function (pins hw) p)"
  using assms by (auto simp: board_setup_def Let_def gpio_set_function)

lemma board_setup_returns: "\<exists>hw'. board_setup core_freq hw = Some hw'"
  by (simp add: board_setup_def Let_def aux_uart_init_def baud_to_prescaler_def BAUD_RATE_def)

section \<open>The start of a flat binary\<close>

text \<open>Metadata for a plain file whose announced CRC is any number, and the address that they ask for.\<close>

abbreviation announced :: "u8 list \<Rightarrow> u64 \<Rightarrow> u32 \<Rightarrow> meta_t" where
  "announced file addr c \<equiv> (plain_meta file addr)\<lparr>mem_crc32 := c\<rparr>"

abbreviation load_address :: "u8 list \<Rightarrow> u64 \<Rightarrow> u32" where
  "load_address file addr \<equiv> ucast (load_addr (plain_meta file addr))"

lemma feed_keeps_image: "boot_placed env (b\<lparr>feed := x\<rparr>) = boot_placed env b" "image (b\<lparr>feed := x\<rparr>) = image b"
  by (simp_all add: boot_placed_def image_def view_def [abs_def] img_lo_def img_hi_def)

lemma flat_received:
  assumes env: "env_ok env" "length file < 2 ^ 31"
    and init: "platform_init_meta env xz (announced file addr c) b0 = (True, p0)"
  shows "\<exists>p1 p2 k. feed_all (bcm2835_ops env xz) 0 (file_chunks file) p0 = Some p1 \<and>
    (\<forall>s. platform_load_image env p1 s = Some (crc32 0 file = c, p2, beats k s)) \<and> boot_placed env p2 \<and> image p2 = file \<and>
    boot_meta p2 = announced file addr c \<and> boot_reloc p2 = boot_reloc p0 \<and> img_start p2 = load_address file addr"
proof -
  let ?m = "announced file addr c"
  have fits: "meta_fits env ?m" "image_format ?m = IMAGE_FLAT_BINARY" by (simp_all add: meta_fits_def format_defs)
  obtain p1 where p1: "feed_all (bcm2835_ops env xz) 0 (file_chunks file) p0 = Some p1" "boot_holds env ?m file p1"
    "boot_reloc p1 = boot_reloc p0" "img_start p1 = img_start p0"
    using feed_all_plain [OF init_meta_holds [OF init], of xz 0 "file_chunks file"] by auto
  have len: "length file = unat (mem_size ?m)" using env(2) by (simp add: unat_of_nat)
  note c = plain_checked [OF p1(2) env(1) fits(1) len]
  from load_flat [OF p1(2) env(1) fits len] obtain fd k where
    "\<And>s. platform_load_image env p1 s = Some (crc32 0 file = c, p1\<lparr>feed := fd\<rparr>, beats k s)" by auto
  moreover have "img_start p0 = load_address file addr"
    using init by (auto simp: platform_init_meta_def image_start_def Let_def format_defs split: if_splits option.splits)
  ultimately show ?thesis using p1 c(1,3,4) feed_keeps_image [where b = p1 and x = fd]
    by (intro exI [of _ p1] exI [of _ "p1\<lparr>feed := fd\<rparr>"] exI [of _ k]) simp
qed

section \<open>Properties\<close>

text \<open>
  C5: From reset to the program. Take a file below two gigabytes and metadata that the boot loader accepts, with any announced
  CRC, such that the size of the relocated part, its place and its buffer are multiples of four (which holds when the file's
  length and address and the ends of the loader are, \<open>placed_aligned\<close>; the code does not ask for it). When the host's frames
  arrive, with any pauses that let no timer expire where it is looked at, \<open>main\<close> tells the host whether the CRC of what it
  received is the announced one, and then, in either case, starts the file at its load address: the verdict does not keep
  a damaged image from being started.
\<close>

theorem boot_main_starts_file:
  assumes "env_ok env" "length file < 2 ^ 31" "length pad = 4"
    and "platform_init_meta env xz (announced file addr c) b0 = (True, p0)"
    and "unat (reloc_size (boot_reloc p0)) mod 4 = 0" "unat (tgt_start (boot_reloc p0)) mod 4 = 0"
    and "unat (buf_start (boot_reloc p0)) mod 4 = 0"
  shows "\<exists>k. \<forall>d0 fs. dl_dev d0 = b0 \<longrightarrow> device_hears (dl_io d0) fs pad (announced file addr c) file \<longrightarrow>
    (\<exists>n hw' d m. boot_main env xz core_freq n hw d0 = Some (hw', d, load_address file addr, m) \<and>
       tx (dl_io d) = tx (dl_io d0) @ device_line (length (file_chunks file)) k (crc32 0 file = c) \<and>
       mem_read m (unat (load_address file addr)) (length file) = file)"
proof -
  from flat_received [OF assms(1,2,4)] obtain p1 p2 k where
    f: "feed_all (bcm2835_ops env xz) 0 (file_chunks file) p0 = Some p1"
    and l: "\<And>s. platform_load_image env p1 s = Some (crc32 0 file = c, p2, beats k s)"
    and p2: "boot_placed env p2" "image p2 = file" "boot_meta p2 = announced file addr c"
      "boot_reloc p2 = boot_reloc p0" "img_start p2 = load_address file addr" by blast
  have w: "wire_size (announced file addr c) = of_nat (length file)" by simp
  have len: "unat (mem_size (boot_meta p2)) = length file" using assms(2) p2(3) by (simp add: unat_of_nat)
  have "image_format (boot_meta p2) = IMAGE_FLAT_BINARY" "reloc_aligned (boot_reloc p2)"
    using p2(3,4) assms(5-7) by (simp_all add: reloc_aligned_def)
  from trampoline_image [OF p2(1) this] obtain m where
    t: "trampoline env p2 = Some (load_address file addr, m)" "mem_read m (unat (load_address file addr)) (length file) = file"
    using p2(2,5) len by (auto simp: img_lo_def)
  obtain hw' where hw: "board_setup core_freq hw = Some hw'" using board_setup_returns by blast
  have "\<exists>n hw' d m. boot_main env xz core_freq n hw d0 = Some (hw', d, load_address file addr, m) \<and>
       tx (dl_io d) = tx (dl_io d0) @ device_line (length (file_chunks file)) k (crc32 0 file = c) \<and>
       mem_read m (unat (load_address file addr)) (length file) = file"
    if d0: "dl_dev d0 = b0" "device_hears (dl_io d0) fs pad (announced file addr c) file" for d0 fs
  proof -
    from platform_completes [OF assms(3,2) w assms(4) f l d0] obtain n d where
      d: "fsm_download (bcm2835_ops env xz) pup_config n d0 = Some d" "dl_pc d = DL_Done" "dl_dev d = p2"
        "tx (dl_io d) = tx (dl_io d0) @ device_line (length (file_chunks file)) k (crc32 0 file = c)" by blast
    then show ?thesis using hw t by (intro exI [of _ n] exI [of _ hw'] exI [of _ d] exI [of _ m]) (simp add: boot_main_def)
  qed
  then show ?thesis by blast
qed

text \<open>A session whose announced CRC is wrong: the host hears of the failure, and the file is started all the same.\<close>

definition cold_board :: board where
  "cold_board = \<lparr>pins = \<lparr>gpfsel = \<lambda>_. 0, gpset = \<lambda>_. 0, gpclr = \<lambda>_. 0\<rparr>, uart = \<lparr>aux_enables = 0, uart_ier = 0, uart_iir = 0,
     uart_lcr = 0, uart_mcr = 0, uart_cntl = 0, uart_baud = 0, uart_out = []\<rparr>\<rparr>"

abbreviation wrong_meta :: meta_t where
  "wrong_meta \<equiv> announced small_file (- 1) (crc32 0 small_file + 1)"

theorem boot_main_starts_file_witness:
  "\<exists>k n hw' d m. boot_main small_env idle_xz 250000000 n cold_board (small_dl (sent_by_host [0, 0, 0, 0] wrong_meta small_file)) =
      Some (hw', d, 0x8000, m) \<and>
    tx (dl_io d) = device_line 1 k False \<and> mem_read m 0x8000 8 = small_file"
proof -
  let ?d0 = "small_dl (sent_by_host [0, 0, 0, 0] wrong_meta small_file)"
  have "\<exists>p. platform_init_meta small_env idle_xz wrong_meta small_boot = (True, p) \<and>
      boot_reloc p = boot_reloc small_ready"
    by (simp add: platform_init_meta_def image_start_def plan_reloc_def small_env_def plain_meta_def small_boot_def
        small_file_def idle_xz_def format_defs DRAM_LIMIT_def max_def min_def small_ready_def)
  then obtain p0 where p0: "platform_init_meta small_env idle_xz wrong_meta small_boot = (True, p0)"
    and r: "unat (reloc_size (boot_reloc p0)) mod 4 = 0" "unat (tgt_start (boot_reloc p0)) mod 4 = 0"
      "unat (buf_start (boot_reloc p0)) mod 4 = 0" by (auto simp: small_ready_def)
  have pad: "length [0, 0, 0, 0 :: u8] = 4" "length small_file < 65536" by (simp_all add: small_file_def)
  have l: "load_address small_file (- 1) = 0x8000" "length (file_chunks small_file) = 1" "length small_file = 8"
    by (simp_all add: plain_meta_def file_chunks_def small_file_def)
  have d: "dl_dev ?d0 = small_boot" "tx (dl_io ?d0) = []" by (simp_all add: small_dl_def idle_io_def)
  have u: "unat (0x8000 :: u32) = 0x8000" by simp
  have c: "(crc32 0 small_file = crc32 0 small_file + 1) = False" by simp
  from boot_main_starts_file [OF env_ok_small small_plain(3) pad(1) p0 r, of 250000000 cold_board, unfolded l c u]
    small_dl_hears [OF pad(2,1), of wrong_meta] d show ?thesis by (metis append_Nil)
qed

end
