(* ===== verification/Host_Linux.thy ===== *)
theory Host_Linux
  imports Host "HOL-Library.Monad_Syntax"
begin

text \<open>
  The Linux part of the host, \<^verbatim>\<open>pup/host_linux.c\<close>: finding a serial device by its path or by the serial number of the
  USB device behind it, configuring the line, and resetting the board through its USB adapter. The file system, the
  devices and the flags of the terminal interface are arguments; the texts of the messages are left out.
\<close>

section \<open>The operating system\<close>

datatype file_read = Open_Fails | Read_Fails | Bytes string

record linux_fs =
  tty_entries :: "string list option"
  real_path :: "string \<Rightarrow> string option"
  readable :: "string \<Rightarrow> bool"
  exists_file :: "string \<Rightarrow> bool"
  read_file :: "string \<Rightarrow> file_read"
  is_char_dev :: "string \<Rightarrow> bool option"

text \<open>The attributes of a line, and the flags of \<^verbatim>\<open>asm-generic/termbits.h\<close>.\<close>

record termios2 =
  c_iflag :: u32
  c_oflag :: u32
  c_cflag :: u32
  c_lflag :: u32
  c_vmin :: u8
  c_vtime :: u8
  c_ispeed :: u32
  c_ospeed :: u32

record termbits =
  IGNBRK :: u32
  IXON :: u32
  IXOFF :: u32
  IXANY :: u32
  ICRNL :: u32
  ICANON :: u32
  ECHO :: u32
  ECHOE :: u32
  ISIG :: u32
  CBAUD :: u32
  CBAUDEX :: u32
  BOTHER :: u32
  IBSHIFT :: nat
  CSIZE :: u32
  CS8 :: u32
  PARENB :: u32
  CSTOPB :: u32
  CRTSCTS :: u32
  CREAD :: u32
  CLOCAL :: u32

record tty_ops =
  open_rw :: "string \<Rightarrow> int"
  tiocexcl :: "int \<Rightarrow> bool"
  clear_nonblock :: "int \<Rightarrow> bool"
  tcgets2 :: "int \<Rightarrow> termios2 option"
  tcsets2 :: "int \<Rightarrow> termios2 \<Rightarrow> bool"

section \<open>Opening a line\<close>

definition line_attrs :: "termbits \<Rightarrow> u32 \<Rightarrow> termios2 \<Rightarrow> termios2" where
  "line_attrs tb speed t =
     (let i = c_iflag t OR IGNBRK tb;
          i = i AND NOT (IXON tb OR IXOFF tb OR IXANY tb);
          i = i AND NOT (ICANON tb OR ECHO tb OR ECHOE tb OR ISIG tb);
          i = i AND NOT (ICRNL tb);
          c = c_cflag t AND NOT (CBAUD tb OR CBAUDEX tb);
          c = c AND NOT (push_bit (IBSHIFT tb) (CBAUD tb OR CBAUDEX tb));
          c = c OR BOTHER tb OR push_bit (IBSHIFT tb) (BOTHER tb);
          c = c AND NOT (CSIZE tb);
          c = c OR CS8 tb;
          c = c AND NOT (PARENB tb);
          c = c AND NOT (CSTOPB tb);
          c = c AND NOT (CRTSCTS tb);
          c = c OR CREAD tb OR CLOCAL tb
      in t\<lparr>c_iflag := i, c_oflag := 0, c_cflag := c, c_lflag := 0, c_vmin := 0, c_vtime := 0, c_ospeed := speed, c_ispeed := speed\<rparr>)"

text \<open>What is done to the device, in order.\<close>

datatype tty_event = Opened string int | Locked int | Blocking int | Configured int termios2 | Closed int

definition open_serial_dev :: "termbits \<Rightarrow> tty_ops \<Rightarrow> string \<Rightarrow> u32 \<Rightarrow> int \<times> tty_event list" where
  "open_serial_dev tb os path rate =
     (let fd = open_rw os path
      in if fd = -1 then (-1, [])
         else if \<not> tiocexcl os fd then (-1, [Opened path fd, Closed fd])
         else if \<not> clear_nonblock os fd then (-1, [Opened path fd, Locked fd, Closed fd])
         else case tcgets2 os fd of
           None \<Rightarrow> (-1, [Opened path fd, Locked fd, Blocking fd, Closed fd])
         | Some t \<Rightarrow>
             if \<not> tcsets2 os fd (line_attrs tb rate t) then (-1, [Opened path fd, Locked fd, Blocking fd, Closed fd])
             else (fd, [Opened path fd, Locked fd, Blocking fd, Configured fd (line_attrs tb rate t)]))"

definition open_status :: "int \<times> tty_event list \<Rightarrow> find_status \<times> int \<times> tty_event list" where
  "open_status r = (case r of (fd, ev) \<Rightarrow> if fd = -1 then (FIND_OPEN_FAIL, -1, ev) else (FIND_OK, fd, ev))"

section \<open>Finding a device\<close>

definition PATH_MAX :: nat where "PATH_MAX = 4096"

definition snprintf :: "nat \<Rightarrow> string \<Rightarrow> string" where
  "snprintf n s = take (n - 1) s"

text \<open>\<open>dirname\<close> of a path without slashes at its end.\<close>

definition dirname :: "string \<Rightarrow> string" where
  "dirname p =
     (case dropWhile (\<lambda>c. c \<noteq> CHR ''/'') (rev p) of
        [] \<Rightarrow> ''.''
      | c # r \<Rightarrow> (case dropWhile (\<lambda>c. c = CHR ''/'') r of [] \<Rightarrow> ''/'' | d # ds \<Rightarrow> rev (d # ds)))"

text \<open>
  Reading the serial number into the buffer: bytes of an earlier device stay behind the new ones. \<open>None\<close> is the search
  for the end of the line running out of the buffer.
\<close>

definition read_serial :: "string \<Rightarrow> string \<Rightarrow> (string \<times> string) option" where
  "read_serial bs buf =
     (let bs = take (length buf) bs; buf = bs @ drop (length bs) buf;
          serial = takeWhile (\<lambda>c. c \<noteq> CHR 0x0A \<and> c \<noteq> CHR 0x00) buf
      in if length serial = length buf then None else Some (serial, buf[length serial := CHR 0x00]))"

definition serial_matches :: "string option \<Rightarrow> string \<Rightarrow> bool" where
  "serial_matches needle serial \<longleftrightarrow> needle = None \<or> needle = Some serial"

text \<open>The walk from a device upwards to a directory with the wanted serial number.\<close>

partial_function (option) walk_up :: "linux_fs \<Rightarrow> string option \<Rightarrow> string \<Rightarrow> string \<Rightarrow> (bool \<times> string) option" where
  "walk_up fs needle walk buf =
     (let walk = dirname walk
      in if walk = ''/'' then Some (False, buf)
         else
           let serial_path = snprintf PATH_MAX (walk @ ''/serial'')
           in if readable fs serial_path then
                (case read_file fs serial_path of
                   Bytes bs \<Rightarrow> do {
                     (serial, buf) \<leftarrow> read_serial bs buf;
                     if serial_matches needle serial then Some (True, buf) else walk_up fs needle walk buf
                   }
                 | _ \<Rightarrow> Some (False, buf))
              else walk_up fs needle walk buf)"

declare walk_up.simps [code]

fun scan_ttys :: "linux_fs \<Rightarrow> string option \<Rightarrow> string list \<Rightarrow> string \<Rightarrow> (string option) option" where
  "scan_ttys fs needle [] buf = Some None"
| "scan_ttys fs needle (e # es) buf =
     (if e = ''.'' \<or> e = ''..'' then scan_ttys fs needle es buf
      else case real_path fs (snprintf PATH_MAX (''/sys/class/tty/'' @ e)) of
        None \<Rightarrow> scan_ttys fs needle es buf
      | Some p \<Rightarrow> do {
          (match, buf) \<leftarrow> walk_up fs needle p buf;
          if match then Some (Some (snprintf PATH_MAX (''/dev/'' @ e))) else scan_ttys fs needle es buf
        })"

datatype 'a or_exit = Exit | Go 'a

text \<open>The buffer is not initialized: its contents are an argument. The result is \<open>Exit\<close> when the directory cannot be opened.\<close>

definition find_serial_device_enumerative ::
  "termbits \<Rightarrow> linux_fs \<Rightarrow> tty_ops \<Rightarrow> string \<Rightarrow> string option \<Rightarrow> u32 \<Rightarrow> (find_status \<times> int \<times> tty_event list) or_exit option" where
  "find_serial_device_enumerative tb fs os buf needle rate =
     (case tty_entries fs of
        None \<Rightarrow> Some Exit
      | Some es \<Rightarrow> do {
          r \<leftarrow> scan_ttys fs needle es buf;
          Some (Go (case r of None \<Rightarrow> (FIND_NXDEV, -1, []) | Some tty \<Rightarrow> open_status (open_serial_dev tb os tty rate)))
        })"

definition find_serial_device_with_path ::
  "termbits \<Rightarrow> linux_fs \<Rightarrow> tty_ops \<Rightarrow> string \<Rightarrow> u32 \<Rightarrow> find_status \<times> int \<times> tty_event list" where
  "find_serial_device_with_path tb fs os dev rate =
     (if is_char_dev fs dev = Some False then (FIND_NOT_CHR, -1, [])
      else open_status (open_serial_dev tb os dev rate))"

definition linux_find_serial_device ::
  "termbits \<Rightarrow> linux_fs \<Rightarrow> tty_ops \<Rightarrow> string \<Rightarrow> string option \<Rightarrow> u32 \<Rightarrow> (find_status \<times> int \<times> tty_event list) or_exit option" where
  "linux_find_serial_device tb fs os buf dev rate =
     (case dev of
        None \<Rightarrow> find_serial_device_enumerative tb fs os buf None rate
      | Some d \<Rightarrow>
          if take 1 d = ''@'' then find_serial_device_enumerative tb fs os buf (Some (drop 1 d)) rate
          else Some (Go (find_serial_device_with_path tb fs os d rate)))"

section \<open>Resetting the board\<close>

text \<open>
  \<open>strtoul\<close> with base 0 on text that begins with a digit: the number and the rest. The numbers that are accepted are far
  below the range of the type, so that saturation does not matter.
\<close>

definition digit_val :: "char \<Rightarrow> nat" where
  "digit_val c =
     (let n = of_char c in
      if 48 \<le> n \<and> n \<le> 57 then n - 48 else if 97 \<le> n \<and> n \<le> 102 then n - 87 else if 65 \<le> n \<and> n \<le> 70 then n - 55 else 99)"

fun number :: "nat \<Rightarrow> nat \<Rightarrow> string \<Rightarrow> nat \<times> string" where
  "number b acc [] = (acc, [])"
| "number b acc (c # cs) = (if digit_val c < b then number b (acc * b + digit_val c) cs else (acc, c # cs))"

definition strtoul0 :: "string \<Rightarrow> nat \<times> string" where
  "strtoul0 s =
     (if (take 2 s = ''0x'' \<or> take 2 s = ''0X'') \<and> drop 2 s \<noteq> [] \<and> digit_val (hd (drop 2 s)) < 16 then number 16 0 (drop 2 s)
      else if take 1 s = ''0'' then number 8 0 s
      else number 10 0 s)"

definition isdigit :: "char \<Rightarrow> bool" where
  "isdigit c \<longleftrightarrow> digit_val c < 10"

text \<open>The result is \<open>-1\<close> for every failure. At most sixteen bytes are read.\<close>

definition read_uint :: "linux_fs \<Rightarrow> string \<Rightarrow> int" where
  "read_uint fs path =
     (case read_file fs path of
        Bytes bs \<Rightarrow>
          let buf = takeWhile (\<lambda>c. c \<noteq> CHR 0x00) (take 16 bs); (out, endptr) = strtoul0 buf
          in if \<not> (buf \<noteq> [] \<and> isdigit (hd buf)) \<or> take 1 endptr \<noteq> [CHR 0x0A] then -1
             else if 999 < out then -1
             else int out
      | _ \<Rightarrow> -1)"

text \<open>What the reset uses besides: the device numbers of an open file, the USB request and the sleep.\<close>

datatype usb_event = USB_Open string | Control int u16 u16 | Slept | USB_Close int

record usb_ops =
  rdev_path :: "int \<Rightarrow> string option"
  usb_open :: "string \<Rightarrow> int"
  usb_control :: "int \<Rightarrow> u16 \<Rightarrow> u16 \<Rightarrow> bool"

datatype reset_status = RS_OK | RS_FAIL

text \<open>The walk to a directory with the numbers of the bus and of the device; a second \<open>None\<close> is a failure to read one of them.\<close>

partial_function (option) usb_numbers :: "linux_fs \<Rightarrow> string \<Rightarrow> ((int \<times> int) option) option" where
  "usb_numbers fs walk =
     (let walk = dirname walk
      in if walk = ''/'' then Some (Some (-1, -1))
         else if exists_file fs (walk @ ''/busnum'') \<and> exists_file fs (walk @ ''/devnum'') then
           (let busnum = read_uint fs (walk @ ''/busnum'')
            in if busnum = -1 then Some None
               else let devnum = read_uint fs (walk @ ''/devnum'')
                    in Some (if devnum = -1 then None else Some (busnum, devnum)))
         else usb_numbers fs walk)"

declare usb_numbers.simps [code]

definition dec3 :: "int \<Rightarrow> string" where
  "dec3 n = map (\<lambda>k. char_of (48 + nat n div 10 ^ k mod 10 :: nat)) [2, 1, 0]"

text \<open>
  The pulse on the reset line of the board, through the USB adapter. The device numbers are those of \<open>fd\<close>, a variable without a
  value at that point, whose contents are an argument.
\<close>

definition reset_tianleboard :: "linux_fs \<Rightarrow> usb_ops \<Rightarrow> int \<Rightarrow> int \<Rightarrow> (reset_status \<times> usb_event list) option" where
  "reset_tianleboard fs us fd serial_fd =
     (case rdev_path us fd of
        None \<Rightarrow> Some (RS_FAIL, [])
      | Some pathbuf \<Rightarrow>
          case real_path fs pathbuf of
            None \<Rightarrow> Some (RS_FAIL, [])
          | Some walk \<Rightarrow> do {
              r \<leftarrow> usb_numbers fs walk;
              Some (case r of
                None \<Rightarrow> (RS_FAIL, [])
              | Some (busnum, devnum) \<Rightarrow>
                  if busnum = -1 \<and> devnum = -1 then (RS_FAIL, [])
                  else
                    let dev = ''/dev/bus/usb/'' @ dec3 busnum @ ''/'' @ dec3 devnum; fd = usb_open us dev
                    in if \<not> usb_control us fd 0x37e1 0x0001 then (RS_FAIL, [USB_Open dev])
                       else if \<not> usb_control us fd 0x37e1 0x0101 then (RS_FAIL, [USB_Open dev, Control fd 0x37e1 0x0001, Slept])
                       else (RS_OK, [USB_Open dev, Control fd 0x37e1 0x0001, Slept, Control fd 0x37e1 0x0101, USB_Close fd]))
            })"

section \<open>Paths\<close>

definition name_ok :: "string \<Rightarrow> bool" where
  "name_ok c \<longleftrightarrow> c \<noteq> [] \<and> CHR ''/'' \<notin> set c"

definition path_of :: "string list \<Rightarrow> string" where
  "path_of cs = concat (map (\<lambda>c. ''/'' @ c) cs)"

lemma path_of_snoc: "path_of (cs @ [c]) = path_of cs @ ''/'' @ c"
  by (simp add: path_of_def)

lemma path_of_ends: "cs \<noteq> [] \<Longrightarrow> list_all name_ok cs \<Longrightarrow> \<exists>d r. rev (path_of cs) = d # r \<and> d \<noteq> CHR ''/''"
proof (induction cs rule: rev_induct)
  case (snoc c cs)
  then obtain d r where "rev c = d # r" by (cases "rev c") (auto simp: name_ok_def)
  moreover from this have "d \<in> set c" by (metis list.set_intros(1) set_rev)
  ultimately show ?case using snoc.prems by (auto simp: path_of_snoc name_ok_def)
qed simp

lemma dirname_path:
  assumes "list_all name_ok (cs @ [c])"
  shows "dirname (path_of (cs @ [c])) = (if cs = [] then ''/'' else path_of cs)"
proof -
  have "dropWhile (\<lambda>x. x \<noteq> CHR ''/'') (rev c @ CHR ''/'' # rev (path_of cs)) = CHR ''/'' # rev (path_of cs)"
    using assms by (subst dropWhile_append2) (auto simp: name_ok_def)
  then have "dirname (path_of (cs @ [c])) =
      (case dropWhile (\<lambda>x. x = CHR ''/'') (rev (path_of cs)) of [] \<Rightarrow> ''/'' | d # ds \<Rightarrow> rev (d # ds))"
    by (simp add: dirname_def path_of_snoc)
  then show ?thesis using path_of_ends [of cs] assms by (cases "cs = []") (auto simp: path_of_def)
qed

lemma path_of_not_root: "cs \<noteq> [] \<Longrightarrow> list_all name_ok cs \<Longrightarrow> path_of cs \<noteq> ''/''"
  using path_of_ends [of cs] by force

lemma path_of_last:
  "name_ok c \<Longrightarrow> takeWhile (\<lambda>x. x \<noteq> CHR ''/'') (rev (path_of (cs @ [c]))) = rev c"
  "name_ok c \<Longrightarrow> dropWhile (\<lambda>x. x \<noteq> CHR ''/'') (rev (path_of (cs @ [c]))) = CHR ''/'' # rev (path_of cs)"
  by (simp_all add: path_of_snoc name_ok_def, (subst takeWhile_append2 dropWhile_append2, auto)+)

lemma path_of_inj: "list_all name_ok cs \<Longrightarrow> list_all name_ok ds \<Longrightarrow> path_of cs = path_of ds \<Longrightarrow> cs = ds"
proof (induction cs arbitrary: ds rule: rev_induct)
  case Nil
  then show ?case by (cases ds) (simp_all add: path_of_def)
next
  case (snoc c cs)
  then show ?case
  proof (cases ds rule: rev_cases)
    case d: (snoc es e)
    have n: "name_ok c" "name_ok e" "list_all name_ok cs" "list_all name_ok es" using snoc.prems d by simp_all
    have "rev c = rev e" "path_of cs = path_of es"
      using path_of_last [OF n(1), of cs] path_of_last [OF n(2), of es] snoc.prems(3) d by simp_all
    then show ?thesis using snoc.IH [OF n(3,4)] d by simp
  next
    case Nil
    have "path_of (cs @ [c]) \<noteq> path_of []" by (simp add: path_of_def)
    then show ?thesis using snoc.prems(3) Nil by blast
  qed
qed

section \<open>What the search finds\<close>

text \<open>
  What the file system promises: real paths are absolute and without slashes at their end, and together with the name of a file in
  them below the limit; a serial number that can be read is a line below the size of the buffer; names of devices are short.
\<close>

definition sysfs_ok :: "linux_fs \<Rightarrow> bool" where
  "sysfs_ok fs \<longleftrightarrow>
     (\<forall>p q. real_path fs p = Some q \<longrightarrow> (\<exists>cs. q = path_of cs \<and> cs \<noteq> [] \<and> list_all name_ok cs \<and> length q + 8 \<le> PATH_MAX)) \<and>
     (\<forall>p. readable fs p \<longrightarrow> (\<exists>l. read_file fs p = Bytes (l @ [CHR 0x0A]) \<and> CHR 0x0A \<notin> set l \<and> CHR 0x00 \<notin> set l \<and> length l < 128)) \<and>
     (\<forall>es. tty_entries fs = Some es \<longrightarrow> (\<forall>e \<in> set es. length e \<le> 255))"

text \<open>The serial number of a directory, the directories above a path, and the devices that the search wants.\<close>

definition dir_serial :: "linux_fs \<Rightarrow> string \<Rightarrow> string option" where
  "dir_serial fs d =
     (if readable fs (d @ ''/serial'')
      then (case read_file fs (d @ ''/serial'') of Bytes bs \<Rightarrow> Some (takeWhile (\<lambda>c. c \<noteq> CHR 0x0A) bs) | _ \<Rightarrow> None)
      else None)"

fun directories_above :: "string list \<Rightarrow> string list" where
  "directories_above cs = map (\<lambda>k. path_of (take k cs)) [1..<length cs]"

definition serial_above :: "linux_fs \<Rightarrow> string option \<Rightarrow> string list \<Rightarrow> bool" where
  "serial_above fs needle cs \<longleftrightarrow>
     (\<exists>d \<in> set (directories_above cs). \<exists>serial. dir_serial fs d = Some serial \<and> serial_matches needle serial)"

definition wanted :: "linux_fs \<Rightarrow> string option \<Rightarrow> string \<Rightarrow> bool" where
  "wanted fs needle e \<longleftrightarrow> e \<noteq> ''.'' \<and> e \<noteq> ''..'' \<and>
     (\<exists>cs. real_path fs (''/sys/class/tty/'' @ e) = Some (path_of cs) \<and> list_all name_ok cs \<and> serial_above fs needle cs)"

lemma read_serial_line:
  assumes "CHR 0x0A \<notin> set l" "CHR 0x00 \<notin> set l" "length l < length buf"
  shows "\<exists>buf'. read_serial (l @ [CHR 0x0A]) buf = Some (l, buf') \<and> length buf' = length buf"
proof -
  let ?b = "l @ [CHR 0x0A] @ drop (Suc (length l)) buf"
  have t: "take (length buf) (l @ [CHR 0x0A]) = l @ [CHR 0x0A]" using assms(3) by simp
  have "takeWhile (\<lambda>c. c \<noteq> CHR 0x0A \<and> c \<noteq> CHR 0x00) ?b = l"
    using assms(1,2) by (subst takeWhile_append2) auto
  then show ?thesis using assms(3) by (cases buf) (auto simp: read_serial_def Let_def t)
qed

lemma walk_up_path:
  assumes ok: "sysfs_ok fs"
  shows "cs \<noteq> [] \<Longrightarrow> list_all name_ok cs \<Longrightarrow> length (path_of cs) + 8 \<le> PATH_MAX \<Longrightarrow> length buf = 128 \<Longrightarrow>
    \<exists>buf'. length buf' = 128 \<and> walk_up fs needle (path_of cs) buf =
      Some (serial_above fs needle cs, buf')"
  unfolding serial_above_def
proof (induction cs arbitrary: buf rule: rev_induct)
  case (snoc c cs)
  show ?case
  proof (cases "cs = []")
    case True
    then show ?thesis using snoc.prems dirname_path [of cs c] by (subst walk_up.simps) auto
  next
    case False
    let ?P = "\<lambda>d. \<exists>serial. dir_serial fs d = Some serial \<and> serial_matches needle serial"
    let ?ex = "\<lambda>cs. \<exists>d \<in> set (directories_above cs). ?P d"
    have n: "list_all name_ok cs" "length (path_of cs) + 8 \<le> PATH_MAX" using snoc.prems by (simp_all add: path_of_snoc)
    have d: "dirname (path_of (cs @ [c])) = path_of cs" using dirname_path [OF snoc.prems(2)] False by simp
    have "[1..<length (cs @ [c])] = [1..<length cs] @ [length cs]" using False by (cases cs) simp_all
    then have "directories_above (cs @ [c]) = directories_above cs @ [path_of cs]" by simp
    then have ex: "?ex (cs @ [c]) \<longleftrightarrow> ?P (path_of cs) \<or> ?ex cs" by (simp del: directories_above.simps)
    have sn: "snprintf PATH_MAX (path_of cs @ ''/serial'') = path_of cs @ ''/serial''" using n(2) by (simp add: snprintf_def)
    have IH: "\<exists>buf'. length buf' = 128 \<and> walk_up fs needle (path_of cs) b = Some (?ex cs, buf')" if "length b = 128" for b
      using snoc.IH [OF False n that] .
    show ?thesis
    proof (cases "readable fs (path_of cs @ ''/serial'')")
      case True
      then obtain l where l: "read_file fs (path_of cs @ ''/serial'') = Bytes (l @ [CHR 0x0A])" "CHR 0x0A \<notin> set l" "CHR 0x00 \<notin> set l"
        "length l < 128" using ok by (auto simp: sysfs_ok_def)
      obtain b where b: "read_serial (l @ [CHR 0x0A]) buf = Some (l, b)" "length b = 128"
        using read_serial_line [OF l(2,3), of buf] l(4) snoc.prems(4) by auto
      have "takeWhile (\<lambda>x. x \<noteq> CHR 0x0A) (l @ [CHR 0x0A]) = l" using l(2) by (subst takeWhile_append2) auto
      then have "?P (path_of cs) \<longleftrightarrow> serial_matches needle l" using True l(1) by (simp add: dir_serial_def)
      then show ?thesis unfolding ex using IH [OF b(2)] b True l(1) path_of_not_root [OF False n(1)]
        by (subst walk_up.simps) (auto simp: d sn Let_def)
    next
      case nr: False
      then have "\<not> ?P (path_of cs)" by (simp add: dir_serial_def)
      then show ?thesis unfolding ex using IH [OF snoc.prems(4)] nr path_of_not_root [OF False n(1)]
        by (subst walk_up.simps) (auto simp: d sn Let_def)
    qed
  qed
qed simp

lemma scan_ttys_finds:
  assumes ok: "sysfs_ok fs"
  shows "list_all (\<lambda>e. length e \<le> 255) es \<Longrightarrow> length buf = 128 \<Longrightarrow>
    scan_ttys fs needle es buf = Some (map_option (\<lambda>e. ''/dev/'' @ e) (find (wanted fs needle) es))"
proof (induction es arbitrary: buf)
  case (Cons e es)
  have short: "length e \<le> 255" "list_all (\<lambda>e. length e \<le> 255) es" using Cons.prems by simp_all
  have sn: "snprintf PATH_MAX (''/sys/class/tty/'' @ e) = ''/sys/class/tty/'' @ e" "snprintf PATH_MAX (''/dev/'' @ e) = ''/dev/'' @ e"
    using short(1) by (simp_all add: snprintf_def PATH_MAX_def)
  show ?case
  proof (cases "e = ''.'' \<or> e = ''..''")
    case True
    then show ?thesis using Cons by (auto simp: wanted_def)
  next
    case False
    show ?thesis
    proof (cases "real_path fs (''/sys/class/tty/'' @ e)")
      case None
      then have "\<not> wanted fs needle e" by (simp add: wanted_def)
      then show ?thesis using Cons.IH [OF short(2) Cons.prems(2)] False None sn by simp
    next
      case (Some q)
      then obtain cs where cs: "q = path_of cs" "cs \<noteq> []" "list_all name_ok cs" "length (path_of cs) + 8 \<le> PATH_MAX"
        using ok unfolding sysfs_ok_def by blast
      obtain b where w: "length b = 128" "walk_up fs needle (path_of cs) buf =
          Some (serial_above fs needle cs, b)"
        using walk_up_path [OF ok cs(2-4) Cons.prems(2)] by blast
      have "wanted fs needle e \<longleftrightarrow> serial_above fs needle cs"
        using False Some cs(1,3) path_of_inj [OF cs(3)] by (auto simp: wanted_def)
      then show ?thesis using Cons.IH [OF short(2) w(1)] False Some sn w(2) cs(1) by simp
    qed
  qed
qed simp

section \<open>Opening\<close>

text \<open>An open that fails leaves nothing open; one that succeeds leaves the device locked, blocking and configured.\<close>

lemma open_serial_dev_outcome:
  assumes "open_serial_dev tb os path rate = (fd, ev)"
  shows "if fd = -1 then ev = [] \<or> hd ev = Opened path (open_rw os path) \<and> hd (rev ev) = Closed (open_rw os path)
    else \<exists>t. tcgets2 os fd = Some t \<and> ev = [Opened path fd, Locked fd, Blocking fd, Configured fd (line_attrs tb rate t)]"
  using assms by (auto simp: open_serial_dev_def Let_def split: if_splits option.splits)

text \<open>The documented flags of \<^verbatim>\<open>asm-generic/termbits.h\<close>.\<close>

definition asm_generic :: termbits where
  "asm_generic = \<lparr>IGNBRK = 0x1, IXON = 0x400, IXOFF = 0x1000, IXANY = 0x800, ICRNL = 0x100, ICANON = 0x2, ECHO = 0x8, ECHOE = 0x10,
     ISIG = 0x1, CBAUD = 0x100f, CBAUDEX = 0x1000, BOTHER = 0x1000, IBSHIFT = 16, CSIZE = 0x30, CS8 = 0x30, PARENB = 0x100,
     CSTOPB = 0x40, CRTSCTS = 0x80000000, CREAD = 0x80, CLOCAL = 0x800\<rparr>"

text \<open>
  The line is raw, with eight bits, no parity, one stop bit and no flow control. But breaks are not ignored: the local flags are
  cleared in the input flags, and there the bit of \<^verbatim>\<open>ISIG\<close> is that of \<^verbatim>\<open>IGNBRK\<close>.
\<close>

theorem line_is_raw:
  "c_oflag (line_attrs asm_generic speed t) = 0" "c_lflag (line_attrs asm_generic speed t) = 0"
  "c_vmin (line_attrs asm_generic speed t) = 0" "c_vtime (line_attrs asm_generic speed t) = 0"
  "c_ispeed (line_attrs asm_generic speed t) = speed" "c_ospeed (line_attrs asm_generic speed t) = speed"
  "c_iflag (line_attrs asm_generic speed t) AND 0x1d00 = 0"
  "c_cflag (line_attrs asm_generic speed t) AND 0x100f100f = 0x10001000"
  "c_cflag (line_attrs asm_generic speed t) AND 0x80000170 = 0x30"
  "c_cflag (line_attrs asm_generic speed t) AND 0x880 = 0x880"
  "c_iflag (line_attrs asm_generic speed t) AND IGNBRK asm_generic = 0"
  by (simp_all add: line_attrs_def Let_def asm_generic_def and.assoc bit.conj_disj_distrib2)

section \<open>Properties\<close>

text \<open>
  C40: A device is found by its serial number: the search takes the first device, in the order of the directory, above whose real
  path some directory has a readable file with that number (any number, when none is asked for), and opens its file below
  \<^verbatim>\<open>/dev\<close>; when there is none it opens nothing. It ends, and the buffer for the numbers does not run over.
\<close>

theorem device_found_by_serial:
  assumes "sysfs_ok fs" "tty_entries fs = Some es" "length buf = 128"
  shows "find_serial_device_enumerative tb fs os buf needle rate =
    Some (Go (case find (wanted fs needle) es of
      None \<Rightarrow> (FIND_NXDEV, -1, [])
    | Some e \<Rightarrow> open_status (open_serial_dev tb os (''/dev/'' @ e) rate)))"
proof -
  have "list_all (\<lambda>e. length e \<le> 255) es" using assms(1,2) by (auto simp: sysfs_ok_def list_all_iff)
  from scan_ttys_finds [OF assms(1) this assms(3), of needle]
  show ?thesis by (simp add: find_serial_device_enumerative_def assms(2) split: option.split)
qed

text \<open>A system with two lines, the second one behind a USB adapter with the number \<open>A1\<close>.\<close>

definition sample_fs :: linux_fs where
  "sample_fs = \<lparr>tty_entries = Some [''.'', ''..'', ''tty0'', ''ttyUSB0''],
     real_path = [''/sys/class/tty/tty0'' \<mapsto> ''/sys/tty0'', ''/sys/class/tty/ttyUSB0'' \<mapsto> ''/sys/usb1/ttyUSB0''],
     readable = (\<lambda>p. p = ''/sys/usb1/serial''), exists_file = (\<lambda>p. p = ''/sys/usb1/serial''),
     read_file = (\<lambda>p. if p = ''/sys/usb1/serial'' then Bytes [CHR ''A'', CHR ''1'', CHR 0x0A] else Open_Fails),
     is_char_dev = (\<lambda>_. None)\<rparr>"

definition sample_tty :: tty_ops where
  "sample_tty = \<lparr>open_rw = (\<lambda>p. if p = ''/dev/ttyUSB0'' then 3 else -1), tiocexcl = (\<lambda>_. True), clear_nonblock = (\<lambda>_. True),
     tcgets2 = (\<lambda>_. None), tcsets2 = (\<lambda>_ _. True)\<rparr>"

lemma sample_paths:
  "''/sys/tty0'' = path_of [''sys'', ''tty0'']" "''/sys/usb1/ttyUSB0'' = path_of [''sys'', ''usb1'', ''ttyUSB0'']"
  "list_all name_ok [''sys'', ''tty0'']" "list_all name_ok [''sys'', ''usb1'', ''ttyUSB0'']"
  by (simp_all add: path_of_def name_ok_def)

lemma sysfs_ok_sample: "sysfs_ok sample_fs"
  unfolding sysfs_ok_def
proof (intro conjI allI impI)
  fix p q
  assume "real_path sample_fs p = Some q"
  then have "q = ''/sys/tty0'' \<or> q = ''/sys/usb1/ttyUSB0''" by (auto simp: sample_fs_def split: if_splits)
  moreover have "length ''/sys/tty0'' + 8 \<le> PATH_MAX" "length ''/sys/usb1/ttyUSB0'' + 8 \<le> PATH_MAX" by (simp_all add: PATH_MAX_def)
  ultimately show "\<exists>cs. q = path_of cs \<and> cs \<noteq> [] \<and> list_all name_ok cs \<and> length q + 8 \<le> PATH_MAX"
    using sample_paths by (metis list.distinct(1))
next
  fix p
  assume "readable sample_fs p"
  then show "\<exists>l. read_file sample_fs p = Bytes (l @ [CHR 0x0A]) \<and> CHR 0x0A \<notin> set l \<and> CHR 0x00 \<notin> set l \<and> length l < 128"
    by (intro exI [of _ "''A1''"]) (simp add: sample_fs_def)
qed (auto simp: sample_fs_def)

theorem device_found_by_serial_witness:
  "find_serial_device_enumerative asm_generic sample_fs sample_tty (replicate 128 CHR 0x00) (Some ''A1'') 115200 =
    Some (Go (FIND_OPEN_FAIL, -1, [Opened ''/dev/ttyUSB0'' 3, Locked 3, Blocking 3, Closed 3]))"
proof -
  have "serial_above sample_fs (Some ''A1'') [''sys'', ''usb1'', ''ttyUSB0'']"
    by (simp add: serial_above_def dir_serial_def serial_matches_def sample_fs_def path_of_def upt_rec)
  then have "wanted sample_fs (Some ''A1'') ''ttyUSB0''"
    using sample_paths(2,4) by (auto simp: wanted_def sample_fs_def)
  moreover have "\<not> wanted sample_fs (Some ''A1'') ''tty0''"
  proof
    assume "wanted sample_fs (Some ''A1'') ''tty0''"
    then obtain cs where cs: "path_of [''sys'', ''tty0''] = path_of cs" "list_all name_ok cs" "serial_above sample_fs (Some ''A1'') cs"
      using sample_paths(1) by (auto simp: wanted_def sample_fs_def)
    then have "cs = [''sys'', ''tty0'']" using path_of_inj [OF sample_paths(3) cs(2,1)] by simp
    with cs(3) show False by (simp add: serial_above_def dir_serial_def sample_fs_def path_of_def)
  qed
  moreover have "tty_entries sample_fs = Some [''.'', ''..'', ''tty0'', ''ttyUSB0'']" by (simp add: sample_fs_def)
  moreover have "\<not> wanted sample_fs (Some ''A1'') ''.''" "\<not> wanted sample_fs (Some ''A1'') ''..''" by (simp_all add: wanted_def)
  ultimately show ?thesis
    using device_found_by_serial [OF sysfs_ok_sample, of "[''.'', ''..'', ''tty0'', ''ttyUSB0'']" "replicate 128 CHR 0x00"]
    by (simp add: open_serial_dev_def open_status_def sample_tty_def)
qed

end
