(* ===== verification/Dma_Engine.thy ===== *)
theory Dma_Engine
  imports Memory
begin

text \<open>
  The ground of the DMA library, \<^verbatim>\<open>bcm2835/dma/private.h\<close> and \<^verbatim>\<open>bcm2835/dma/emit.h\<close>: bus
  addresses, control blocks in memory, the emission of control blocks and the arena, and what
  the library relies on of the DMA engine. The engine itself is hardware: it is an argument
  of the theorems, a function from the bus address of a control block and the memory to the next
  control block and the new memory, with its documented behaviour as the hypothesis
  \<open>dma_engine\<close>.
\<close>

section \<open>Bus addresses\<close>

type_synonym busad = u32

definition ARM_DRAM_BASE :: u32 where "ARM_DRAM_BASE = 0x00000000"
definition ARM_DRAM_END :: u32 where "ARM_DRAM_END = 0x20000000"
definition BUS_DRAM_BASE :: u32 where "BUS_DRAM_BASE = 0x40000000"
definition BUS_DRAM_END :: u32 where "BUS_DRAM_END = 0x60000000"
definition ARM_PERI_BASE :: u32 where "ARM_PERI_BASE = 0x20000000"
definition ARM_PERI_END :: u32 where "ARM_PERI_END = 0x21000000"
definition BUS_PERI_BASE :: u32 where "BUS_PERI_BASE = 0x7E000000"
definition BUS_PERI_END :: u32 where "BUS_PERI_END = 0x80000000"

lemmas bus_consts = ARM_DRAM_BASE_def ARM_DRAM_END_def BUS_DRAM_BASE_def BUS_DRAM_END_def
  ARM_PERI_BASE_def ARM_PERI_END_def BUS_PERI_BASE_def BUS_PERI_END_def

definition arm_is_dram :: "u32 \<Rightarrow> bool" where
  "arm_is_dram addr \<longleftrightarrow> ARM_DRAM_BASE \<le> addr \<and> addr < ARM_DRAM_END"

definition arm_is_peri :: "u32 \<Rightarrow> bool" where
  "arm_is_peri addr \<longleftrightarrow> ARM_PERI_BASE \<le> addr \<and> addr < ARM_PERI_END"

text \<open>\<open>None\<close> is a panic, here and in every operation below.\<close>

definition arm_to_bus :: "u32 \<Rightarrow> busad option" where
  "arm_to_bus addr =
     (if arm_is_dram addr then Some (addr - ARM_DRAM_BASE + BUS_DRAM_BASE)
      else if arm_is_peri addr then Some (addr - ARM_PERI_BASE + BUS_PERI_BASE)
      else None)"

definition bus_is_dram :: "busad \<Rightarrow> bool" where
  "bus_is_dram b \<longleftrightarrow> BUS_DRAM_BASE \<le> b \<and> b < BUS_DRAM_END"

definition bus_is_peri :: "busad \<Rightarrow> bool" where
  "bus_is_peri b \<longleftrightarrow> BUS_PERI_BASE \<le> b \<and> b < BUS_PERI_END"

definition bus_to_arm :: "busad \<Rightarrow> u32 option" where
  "bus_to_arm b =
     (if bus_is_dram b then Some (b - BUS_DRAM_BASE + ARM_DRAM_BASE)
      else if bus_is_peri b then Some (b - BUS_PERI_BASE + ARM_PERI_BASE)
      else None)"

section \<open>Control blocks\<close>

record cblk =
  ti :: u32
  src_addr :: busad
  dst_addr :: busad
  txfr_len :: u32
  stride :: u32
  next_cb :: busad

definition TI_2DMODE :: u32 where "TI_2DMODE = push_bit 1 1"
definition TI_DST_INC :: u32 where "TI_DST_INC = push_bit 4 1"
definition TI_SRC_INC :: u32 where "TI_SRC_INC = push_bit 8 1"


lemmas ti_defs = TI_2DMODE_def TI_DST_INC_def TI_SRC_INC_def

definition cb_stride :: "u16 \<Rightarrow> u16 \<Rightarrow> u32" where
  "cb_stride dst src = push_bit 16 (ucast dst) OR ucast src"

definition cb_length :: "u16 \<Rightarrow> u16 \<Rightarrow> u32 option" where
  "cb_length rows cols = (if rows < 0x4000 then Some (push_bit 16 (ucast rows) OR ucast cols) else None)"

text \<open>The 32 bytes of a control block, and the block found at an address.\<close>

definition cb_bytes :: "cblk \<Rightarrow> u8 list" where
  "cb_bytes cb = le32 (ti cb) @ le32 (src_addr cb) @ le32 (dst_addr cb) @ le32 (txfr_len cb) @
     le32 (stride cb) @ le32 (next_cb cb) @ replicate 8 0"

definition fetch_cb :: "mem \<Rightarrow> nat \<Rightarrow> cblk" where
  "fetch_cb m a = \<lparr>ti = load32 m a, src_addr = load32 m (a + 4), dst_addr = load32 m (a + 8),
     txfr_len = load32 m (a + 12), stride = load32 m (a + 16), next_cb = load32 m (a + 20)\<rparr>"

section \<open>Addresses of control blocks and fields\<close>

datatype cb_field = FLD_SRC | FLD_DST | FLD_LEN | FLD_NXT

fun cb_field_offset :: "cb_field \<Rightarrow> u32" where
  "cb_field_offset FLD_SRC = 4"
| "cb_field_offset FLD_DST = 8"
| "cb_field_offset FLD_LEN = 12"
| "cb_field_offset FLD_NXT = 20"

definition bus :: "u32 \<Rightarrow> busad option" where
  "bus ptr = arm_to_bus ptr"

definition bus_off :: "u32 \<Rightarrow> u32 \<Rightarrow> busad option" where
  "bus_off ptr byte_offset = arm_to_bus (ptr + byte_offset)"

definition bus_add :: "busad \<Rightarrow> u32 \<Rightarrow> busad" where
  "bus_add b byte_offset = b + byte_offset"

definition bus_rel_cb :: "busad \<Rightarrow> u32 \<Rightarrow> busad" where
  "bus_rel_cb b cb_offset = bus_add b (cb_offset * 32)"

definition bus_rel_fld :: "busad \<Rightarrow> u32 \<Rightarrow> cb_field \<Rightarrow> u32 \<Rightarrow> busad option" where
  "bus_rel_fld b cb_offset field offset_in_field =
     (if b mod 32 \<noteq> 0 \<or> \<not> offset_in_field < 4 then None
      else Some (bus_add b (cb_offset * 32 + cb_field_offset field + offset_in_field)))"

definition bus_null :: busad where "bus_null = 0"

section \<open>Emission\<close>

text \<open>
  The context is the array of control blocks and the position in it; the state of an emission is
  the context and the memory.
\<close>

record emit_ctx =
  ec_base :: u32
  ec_p :: u32
  ec_cap :: u32

type_synonym emit_st = "emit_ctx \<times> mem"

definition Last :: "emit_ctx \<Rightarrow> u32 option" where
  "Last ctx = (if ec_base ctx < ec_p ctx then Some (ec_p ctx - 32) else None)"

definition Label :: "emit_st \<Rightarrow> busad option" where
  "Label s = bus (ec_p (fst s))"

definition At :: "emit_st \<Rightarrow> busad \<Rightarrow> bool option" where
  "At s b = map_option (\<lambda>l. l = b) (Label s)"

definition Branch :: "busad \<Rightarrow> emit_st \<Rightarrow> emit_st option" where
  "Branch label s = do {
     cb \<leftarrow> Last (fst s);
     Some (fst s, mem_write (unat cb + 20) (le32 label) (snd s))
   }"

definition End :: "emit_st \<Rightarrow> emit_st option" where
  "End s = Branch bus_null s"

definition room :: "emit_ctx \<Rightarrow> u32 \<Rightarrow> bool" where
  "room ctx p \<longleftrightarrow> (p - ec_base ctx) div 32 < ec_cap ctx"

definition EmitStridedWith ::
  "u32 \<Rightarrow> busad \<Rightarrow> busad \<Rightarrow> u16 \<Rightarrow> u16 \<Rightarrow> u16 \<Rightarrow> u16 \<Rightarrow> emit_st \<Rightarrow> emit_st option" where
  "EmitStridedWith flags dst src rows cols dst_stride src_stride s =
     (let (ctx, m) = s; cb = ec_p ctx; p = cb + 32
      in if \<not> room ctx cb \<or> flags AND TI_2DMODE = 0 then None
         else do {
           len \<leftarrow> cb_length (rows - 1) cols;
           nxt \<leftarrow> bus p;
           Some (ctx\<lparr>ec_p := p\<rparr>, mem_write (unat cb) (cb_bytes \<lparr>ti = flags, src_addr = src, dst_addr = dst,
             txfr_len = len, stride = cb_stride dst_stride src_stride, next_cb = nxt\<rparr>) m)
         })"

definition EmitStrided :: "busad \<Rightarrow> busad \<Rightarrow> u16 \<Rightarrow> u16 \<Rightarrow> u16 \<Rightarrow> u16 \<Rightarrow> emit_st \<Rightarrow> emit_st option" where
  "EmitStrided dst src rows cols dst_stride src_stride =
     EmitStridedWith (TI_DST_INC OR TI_SRC_INC OR TI_2DMODE) dst src rows cols dst_stride src_stride"

definition EmitWith :: "u32 \<Rightarrow> busad \<Rightarrow> busad \<Rightarrow> u32 \<Rightarrow> emit_st \<Rightarrow> emit_st option" where
  "EmitWith flags dst src len s =
     (let (ctx, m) = s; cb = ec_p ctx; p = cb + 32
      in if \<not> room ctx cb then None
         else do {
           nxt \<leftarrow> bus p;
           Some (ctx\<lparr>ec_p := p\<rparr>, mem_write (unat cb) (cb_bytes \<lparr>ti = flags, src_addr = src, dst_addr = dst,
             txfr_len = len, stride = 0, next_cb = nxt\<rparr>) m)
         })"

definition Emit :: "busad \<Rightarrow> busad \<Rightarrow> u32 \<Rightarrow> emit_st \<Rightarrow> emit_st option" where
  "Emit dst src len = EmitWith (TI_DST_INC OR TI_SRC_INC) dst src len"

definition SkipToAlign :: "u32 \<Rightarrow> bool \<Rightarrow> emit_st \<Rightarrow> emit_st option" where
  "SkipToAlign align update_last s =
     (if align < 32 \<or> align mod 32 \<noteq> 0 \<or> align AND (align - 1) \<noteq> 0 then None
      else
        let curr = ec_p (fst s); next_aligned = (curr + (align - 1)) AND NOT (align - 1);
            delta = next_aligned - curr; new_p = curr + (delta div 32) * 32
        in if \<not> room (fst s) new_p then None
           else do {
             s \<leftarrow> (if update_last then do { l \<leftarrow> bus new_p; Branch l s } else Some s);
             Some ((fst s)\<lparr>ec_p := new_p\<rparr>, snd s)
           })"

text \<open>A C \<open>for\<close> loop over a list of values.\<close>

primrec for_each :: "('a \<Rightarrow> 's \<Rightarrow> 's option) \<Rightarrow> 'a list \<Rightarrow> 's \<Rightarrow> 's option" where
  "for_each f [] s = Some s"
| "for_each f (x # xs) s = do { s \<leftarrow> f x s; for_each f xs s }"

section \<open>The arena\<close>

record arena =
  ar_start :: u32
  ar_end :: u32
  ar_p :: u32
  ar_util :: u32

definition mk_arena :: "u32 \<Rightarrow> u32 \<Rightarrow> arena option" where
  "mk_arena start end = (if end \<le> start then
     Some \<lparr>ar_start = start, ar_end = end, ar_p = start, ar_util = 0\<rparr> else None)"

definition arena_alloc :: "u32 \<Rightarrow> u32 \<Rightarrow> arena \<Rightarrow> (u32 \<times> arena) option" where
  "arena_alloc sz align a =
     (if \<not> sz \<le> 0x7fffffff \<or> align AND (align - 1) \<noteq> 0 then None
      else
        let q = (ar_p a + align - 1) AND - align; r = q + sz
        in if ar_end a \<le> r \<or> r < ar_start a then None
           else Some (q, a\<lparr>ar_p := r, ar_util := ar_util a + sz\<rparr>))"

record arena_stats =
  st_cap :: u32
  st_util :: u32
  st_rem :: u32

definition arena_get_stats :: "arena \<Rightarrow> arena_stats" where
  "arena_get_stats a = \<lparr>st_cap = ar_end a - ar_start a, st_util = ar_util a, st_rem = ar_end a - ar_p a\<rparr>"

definition arena_reset :: "arena \<Rightarrow> arena" where
  "arena_reset a = a\<lparr>ar_p := ar_start a\<rparr>"

section \<open>The engine\<close>

text \<open>
  The byte moves of a control block, as pairs of a destination and a source address. In 2D mode
  the length is a number of columns and of rows less one, and a signed stride is added to each
  address at the end of a row.
\<close>

definition xlen :: "cblk \<Rightarrow> nat" where
  "xlen cb = unat (txfr_len cb AND 0xffff)"

definition ylen :: "cblk \<Rightarrow> nat" where
  "ylen cb = unat (drop_bit 16 (txfr_len cb) AND 0x3fff)"

definition inc :: "nat \<Rightarrow> cblk \<Rightarrow> u32" where
  "inc b cb = (if bit (ti cb) b then 1 else 0)"

definition cb_moves :: "cblk \<Rightarrow> (busad \<times> busad) list" where
  "cb_moves cb =
     (if bit (ti cb) 1 then
        let dst_stride = scast (ucast (drop_bit 16 (stride cb)) :: u16); src_stride = scast (ucast (stride cb) :: u16)
        in concat (map (\<lambda>y. map (\<lambda>x.
             (dst_addr cb + of_nat y * (of_nat (xlen cb) * inc 4 cb + dst_stride) + of_nat x * inc 4 cb,
              src_addr cb + of_nat y * (of_nat (xlen cb) * inc 8 cb + src_stride) + of_nat x * inc 8 cb))
             [0..<xlen cb]) [0..<ylen cb + 1])
      else map (\<lambda>x. (dst_addr cb + of_nat x * inc 4 cb, src_addr cb + of_nat x * inc 8 cb))
             [0..<unat (txfr_len cb AND 0x3fffffff)])"

text \<open>
  The transfers whose outcome does not depend on the order or the width of the bus accesses: the
  destination is incremented, the source too unless each row is one byte, all addresses are in
  memory, and no byte is both read and written or written twice.
\<close>

definition arm_of :: "busad \<Rightarrow> nat" where
  "arm_of b = unat (b - BUS_DRAM_BASE)"

definition plain_transfer :: "cblk \<Rightarrow> bool" where
  "plain_transfer cb \<longleftrightarrow>
     (ti cb = TI_DST_INC OR TI_SRC_INC \<or> ti cb = TI_DST_INC OR TI_SRC_INC OR TI_2DMODE \<or>
      ti cb = TI_DST_INC OR TI_2DMODE \<and> xlen cb = 1) \<and>
     (\<forall>(d, s) \<in> set (cb_moves cb). bus_is_dram d \<and> bus_is_dram s) \<and>
     distinct (map fst (cb_moves cb)) \<and> set (map fst (cb_moves cb)) \<inter> set (map snd (cb_moves cb)) = {}"

definition apply_moves :: "(busad \<times> busad) list \<Rightarrow> mem \<Rightarrow> mem" where
  "apply_moves ms m = (\<lambda>x. case map_of (map (\<lambda>(d, s). (arm_of d, arm_of s)) ms) x of
     Some s \<Rightarrow> m s | None \<Rightarrow> m x)"

text \<open>
  What the library relies on: given the bus address of an aligned control block in memory that
  holds such a transfer, the engine performs its moves and goes on with the block's successor.
\<close>

type_synonym engine = "busad \<Rightarrow> mem \<Rightarrow> busad \<times> mem"

definition dma_engine :: "engine \<Rightarrow> bool" where
  "dma_engine hw \<longleftrightarrow> (\<forall>a m. bus_is_dram a \<and> a mod 32 = 0 \<and> plain_transfer (fetch_cb m (arm_of a)) \<longrightarrow>
     hw a m = (next_cb (fetch_cb m (arm_of a)), apply_moves (cb_moves (fetch_cb m (arm_of a))) m))"

definition dma_run :: "engine \<Rightarrow> nat \<Rightarrow> busad \<times> mem \<Rightarrow> busad \<times> mem" where
  "dma_run hw n = (\<lambda>(a, m). hw a m) ^^ n"

text \<open>An engine that behaves as documented on every control block.\<close>

definition documented_engine :: engine where
  "documented_engine a m =
     (let cb = fetch_cb m (arm_of a) in (next_cb cb, apply_moves (cb_moves cb) m))"

lemma documented_engine [simp]: "dma_engine documented_engine"
  by (simp add: dma_engine_def documented_engine_def Let_def)

end
