(* ===== verification/Dma_Arith.thy ===== *)
theory Dma_Arith
  imports Dma_Engine
begin

text \<open>
  The arithmetic of the DMA library, \<^verbatim>\<open>bcm2835/dma/arith*.c\<close>: the lookup tables with their
  initializers, and the operations, each of which emits a self-modifying chain of control blocks
  that computes the operation when the engine runs it. Widths are in bytes and numbers are
  little-endian.
\<close>

section \<open>Tables\<close>

text \<open>The addresses at which the linker places the tables.\<close>

record dma_tables =
  NOT_TABLE :: u32
  HYPER :: u32
  SUPER :: u32
  POLAR_TRUTH_X1 :: u32
  ANTIPOLAR_TRUTH_X1 :: u32
  POLAR_TRUTH_X4 :: u32
  ANTIPOLAR_TRUTH_X4 :: u32
  SLL_HYPER_SELECT :: u32
  SRL_HYPER_SELECT :: u32
  SRA_HI :: u32

definition HYPER_ADD :: nat where "HYPER_ADD = 0x04"
definition HYPER_SUB :: nat where "HYPER_SUB = 0x08"
definition HYPER_AND :: nat where "HYPER_AND = 0x0c"
definition HYPER_OR :: nat where "HYPER_OR = 0x0d"
definition HYPER_XOR :: nat where "HYPER_XOR = 0x0e"
definition HYPER_SLL :: nat where "HYPER_SLL = 0x14"
definition HYPER_SRL :: nat where "HYPER_SRL = 0x24"
definition HYPER_GEU :: nat where "HYPER_GEU = 0x2c"
definition HYPER_EQU :: nat where "HYPER_EQU = 0x2e"
definition HYPER_GES :: nat where "HYPER_GES = 0x34"
definition HYPER_MUL :: nat where "HYPER_MUL = 0x38"
definition HYPER_ADD_R :: nat where "HYPER_ADD_R = 0x48"
definition SUPER_INC :: nat where "SUPER_INC = 0x00"

lemmas hyper_slots = HYPER_ADD_def HYPER_SUB_def HYPER_AND_def HYPER_OR_def HYPER_XOR_def HYPER_SLL_def
  HYPER_SRL_def HYPER_GEU_def HYPER_EQU_def HYPER_GES_def HYPER_MUL_def HYPER_ADD_R_def SUPER_INC_def

text \<open>
  An initializer is the sequence of its stores, each an address and a byte. The index expressions
  are those of the source.
\<close>

type_synonym stores = "(nat \<times> u8) list"

definition do_stores :: "stores \<Rightarrow> mem \<Rightarrow> mem" where
  "do_stores ws m = fold (\<lambda>(a, v) m. m(a := v)) ws m"

definition init_not :: "dma_tables \<Rightarrow> stores" where
  "init_not t = [(unat (NOT_TABLE t) + i, NOT (of_nat i)). i \<leftarrow> [0..<256]]"

definition hyper_at :: "dma_tables \<Rightarrow> nat \<Rightarrow> nat \<Rightarrow> nat \<Rightarrow> nat" where
  "hyper_at t i j c = unat (HYPER t) + (push_bit 16 i OR push_bit 8 j OR c)"

definition init_and :: "dma_tables \<Rightarrow> stores" where
  "init_and t = [(hyper_at t i j HYPER_AND, of_nat (i AND j)). i \<leftarrow> [0..<256], j \<leftarrow> [0..<256]]"

definition init_or :: "dma_tables \<Rightarrow> stores" where
  "init_or t = [(hyper_at t i j HYPER_OR, of_nat (i OR j)). i \<leftarrow> [0..<256], j \<leftarrow> [0..<256]]"

definition init_xor :: "dma_tables \<Rightarrow> stores" where
  "init_xor t = [(hyper_at t i j HYPER_XOR, of_nat (i XOR j)). i \<leftarrow> [0..<256], j \<leftarrow> [0..<256]]"

definition super_at :: "dma_tables \<Rightarrow> nat \<Rightarrow> nat \<Rightarrow> nat" where
  "super_at t i k = unat (SUPER t) + (push_bit 8 i OR SUPER_INC) + k"

definition init_increment :: "dma_tables \<Rightarrow> stores" where
  "init_increment t = concat (map (\<lambda>i.
     [(super_at t i 0, of_nat ((i + 0) AND 0xff)),
      (super_at t i 1, of_nat (if drop_bit 8 (i + 0) \<noteq> 0 then SUPER_INC + 2 else SUPER_INC)),
      (super_at t i 2, of_nat ((i + 1) AND 0xff)),
      (super_at t i 3, of_nat (if drop_bit 8 (i + 1) \<noteq> 0 then SUPER_INC + 2 else SUPER_INC))]) [0..<256])"

definition init_add :: "dma_tables \<Rightarrow> stores" where
  "init_add t = concat [let r = i + j + l in
     [(hyper_at t i j HYPER_ADD + 2 * l + 0, of_nat (r AND 255)),
      (hyper_at t i j HYPER_ADD + 2 * l + 1, of_nat (if drop_bit 8 r \<noteq> 0 then HYPER_ADD + 2 else HYPER_ADD))].
     i \<leftarrow> [0..<256], j \<leftarrow> [0..<256], l \<leftarrow> [0..<2]]"

text \<open>The difference is a 16-bit unsigned integer, which wraps around.\<close>

definition init_sub :: "dma_tables \<Rightarrow> stores" where
  "init_sub t = concat [let r = of_nat i - of_nat j - of_nat l :: u16 in
     [(hyper_at t i j HYPER_SUB + 2 * l + 0, ucast (r AND 255)),
      (hyper_at t i j HYPER_SUB + 2 * l + 1, of_nat (if drop_bit 8 r \<noteq> 0 then HYPER_SUB + 2 else HYPER_SUB))].
     i \<leftarrow> [0..<256], j \<leftarrow> [0..<256], l \<leftarrow> [0..<2]]"

definition init_mul :: "dma_tables \<Rightarrow> stores" where
  "init_mul t = concat [
     [(hyper_at t b c (HYPER_MUL + 0), of_nat ((b * c) AND 0xff)),
      (hyper_at t b c (HYPER_MUL + 1), of_nat (drop_bit 8 (b * c)))].
     b \<leftarrow> [0..<256], c \<leftarrow> [0..<256]]"

definition init_add_r :: "dma_tables \<Rightarrow> stores" where
  "init_add_r t = concat [
     [(hyper_at t i j (HYPER_ADD_R OR push_bit 1 l OR 0),
        of_nat (if drop_bit 8 (i + j + l) \<noteq> 0 then HYPER_ADD_R + 2 else HYPER_ADD_R)),
      (hyper_at t i j (HYPER_ADD_R OR push_bit 1 l OR 1), of_nat ((i + j + l) AND 255))].
     i \<leftarrow> [0..<256], j \<leftarrow> [0..<256], l \<leftarrow> [0..<2]]"

text \<open>The truth tables of the comparisons, \<open>SET_TRUTH_TABLES\<close>.\<close>

definition SET_TRUTH_TABLES :: "dma_tables \<Rightarrow> nat \<Rightarrow> u8 \<Rightarrow> u8 \<Rightarrow> stores" where
  "SET_TRUTH_TABLES t hyper b0 b1 =
     [(unat (POLAR_TRUTH_X1 t) + hyper + 0, b0), (unat (POLAR_TRUTH_X1 t) + hyper + 1, b1),
      (unat (ANTIPOLAR_TRUTH_X1 t) + hyper + 0, b1), (unat (ANTIPOLAR_TRUTH_X1 t) + hyper + 1, b0),
      (unat (POLAR_TRUTH_X4 t) + hyper + 0, b0), (unat (POLAR_TRUTH_X4 t) + hyper + 1, 4 * b1),
      (unat (ANTIPOLAR_TRUTH_X4 t) + hyper + 0, 4 * b1), (unat (ANTIPOLAR_TRUTH_X4 t) + hyper + 1, 4 * b0)]"

definition hyper_pair :: "dma_tables \<Rightarrow> nat \<Rightarrow> nat \<Rightarrow> nat \<Rightarrow> nat" where
  "hyper_pair t i j c = unat (HYPER t) + push_bit 8 (i * 256 + j) + c"

text \<open>\<open>i - j - l\<close> is computed in \<open>size_t\<close>, the type of \<open>l\<close>.\<close>

definition init_geu :: "dma_tables \<Rightarrow> stores" where
  "init_geu t = [(hyper_pair t i j (HYPER_GEU + l),
       of_nat (if drop_bit 8 (of_nat i - of_nat j - of_nat l :: u32) \<noteq> 0 then HYPER_GEU + 1 else HYPER_GEU)).
     i \<leftarrow> [0..<256], j \<leftarrow> [0..<256], l \<leftarrow> [0..<2]] @ SET_TRUTH_TABLES t HYPER_GEU 1 0"

definition init_equ :: "dma_tables \<Rightarrow> stores" where
  "init_equ t = [(hyper_pair t i j (HYPER_EQU + l),
       of_nat (if i = j \<and> l \<noteq> 0 then HYPER_EQU + 1 else HYPER_EQU)).
     i \<leftarrow> [0..<256], j \<leftarrow> [0..<256], l \<leftarrow> [0..<2]] @ SET_TRUTH_TABLES t HYPER_EQU 0 1"

definition GES_HIGH :: nat where "GES_HIGH = HYPER_GES + 0"
definition GES_FALSE :: nat where "GES_FALSE = HYPER_GES + 1"
definition GES_TRUE :: nat where "GES_TRUE = HYPER_GES + 2"
definition GES_EQU :: nat where "GES_EQU = HYPER_GES + 3"

lemmas ges_slots = GES_HIGH_def GES_FALSE_def GES_TRUE_def GES_EQU_def

definition ges_next :: "nat \<Rightarrow> nat \<Rightarrow> nat \<Rightarrow> nat" where
  "ges_next i j st =
     (let si = of_nat i :: u8; sj = of_nat j :: u8
      in if st = GES_HIGH then (if si <s sj then GES_FALSE else if sj <s si then GES_TRUE else GES_EQU)
         else if st = GES_EQU then (if i < j then GES_FALSE else if j < i then GES_TRUE else GES_EQU)
         else st)"

definition init_ges :: "dma_tables \<Rightarrow> stores" where
  "init_ges t = [(hyper_pair t i j (HYPER_GES + l), of_nat (ges_next i j (HYPER_GES + l))).
       i \<leftarrow> [0..<256], j \<leftarrow> [0..<256], l \<leftarrow> [0..<4]] @
     [(unat (POLAR_TRUTH_X1 t) + GES_FALSE, 0), (unat (POLAR_TRUTH_X1 t) + GES_HIGH, 0),
      (unat (POLAR_TRUTH_X1 t) + GES_EQU, 1), (unat (POLAR_TRUTH_X1 t) + GES_TRUE, 1),
      (unat (ANTIPOLAR_TRUTH_X1 t) + GES_FALSE, 1), (unat (ANTIPOLAR_TRUTH_X1 t) + GES_HIGH, 1),
      (unat (ANTIPOLAR_TRUTH_X1 t) + GES_EQU, 0), (unat (ANTIPOLAR_TRUTH_X1 t) + GES_TRUE, 0),
      (unat (POLAR_TRUTH_X4 t) + GES_FALSE, 0), (unat (POLAR_TRUTH_X4 t) + GES_HIGH, 0),
      (unat (POLAR_TRUTH_X4 t) + GES_EQU, 4), (unat (POLAR_TRUTH_X4 t) + GES_TRUE, 4),
      (unat (ANTIPOLAR_TRUTH_X4 t) + GES_FALSE, 4), (unat (ANTIPOLAR_TRUTH_X4 t) + GES_HIGH, 4),
      (unat (ANTIPOLAR_TRUTH_X4 t) + GES_EQU, 0), (unat (ANTIPOLAR_TRUTH_X4 t) + GES_TRUE, 0)]"

definition hyper_shift :: "dma_tables \<Rightarrow> nat \<Rightarrow> nat \<Rightarrow> nat \<Rightarrow> nat" where
  "hyper_shift t i c s = unat (HYPER t) + (push_bit 8 i OR c) + s"

definition init_sll :: "dma_tables \<Rightarrow> stores" where
  "init_sll t = [(hyper_shift t i HYPER_SLL s, of_nat (drop_bit 8 (push_bit s i))). i \<leftarrow> [0..<65536], s \<leftarrow> [0..<8]] @
     [(unat (SLL_HYPER_SELECT t) + i, of_nat (HYPER_SLL + (i AND 7))). i \<leftarrow> [0..<256]]"

definition init_srl :: "dma_tables \<Rightarrow> stores" where
  "init_srl t = [(hyper_shift t i HYPER_SRL s, of_nat (drop_bit s i)). i \<leftarrow> [0..<65536], s \<leftarrow> [0..<8]] @
     [(unat (SRL_HYPER_SELECT t) + i, of_nat (HYPER_SRL + (i AND 7))). i \<leftarrow> [0..<256]]"

definition init_sra :: "dma_tables \<Rightarrow> stores" where
  "init_sra t = [(unat (SRA_HI t) + (push_bit 8 i OR s), signed_drop_bit (s mod 8) (of_nat i)).
     i \<leftarrow> [0..<256], s \<leftarrow> [0..<256]]"

section \<open>Bitwise operations\<close>

definition Not_op :: "dma_tables \<Rightarrow> nat \<Rightarrow> busad \<Rightarrow> busad \<Rightarrow> emit_st \<Rightarrow> emit_st option" where
  "Not_op t width ret inp s =
     (if width = 0 \<or> \<not> width < 16 then None
      else do {
        l0 \<leftarrow> Label s;
        d \<leftarrow> bus_rel_fld l0 1 FLD_SRC 0;
        s \<leftarrow> EmitStrided d inp (of_nat width) 1 31 0 s;
        for_each (\<lambda>i s. do {
          src \<leftarrow> bus (NOT_TABLE t);
          Emit (bus_add ret (of_nat i)) src 1 s
        }) [0..<width] s
      })"

definition And :: "dma_tables \<Rightarrow> nat \<Rightarrow> busad \<Rightarrow> busad \<Rightarrow> busad \<Rightarrow> emit_st \<Rightarrow> emit_st option" where
  "And t width ret lhs rhs s = do {
     l0 \<leftarrow> Label s;
     d \<leftarrow> bus_rel_fld l0 2 FLD_SRC 1;
     s \<leftarrow> EmitStrided d lhs (of_nat width) 1 31 0 s;
     d \<leftarrow> bus_rel_fld l0 2 FLD_SRC 2;
     s \<leftarrow> EmitStrided d rhs (of_nat width) 1 31 0 s;
     for_each (\<lambda>i s. do {
       src \<leftarrow> bus_off (HYPER t) (of_nat HYPER_AND);
       Emit (bus_add ret (of_nat i)) src 1 s
     }) [0..<width] s
   }"

definition Or :: "dma_tables \<Rightarrow> nat \<Rightarrow> busad \<Rightarrow> busad \<Rightarrow> busad \<Rightarrow> emit_st \<Rightarrow> emit_st option" where
  "Or t width ret lhs rhs s = do {
     l0 \<leftarrow> Label s;
     d \<leftarrow> bus_rel_fld l0 2 FLD_SRC 1;
     s \<leftarrow> EmitStrided d lhs (of_nat width) 1 31 0 s;
     d \<leftarrow> bus_rel_fld l0 2 FLD_SRC 2;
     s \<leftarrow> EmitStrided d rhs (of_nat width) 1 31 0 s;
     for_each (\<lambda>i s. do {
       src \<leftarrow> bus_off (HYPER t) (of_nat HYPER_OR);
       Emit (bus_add ret (of_nat i)) src 1 s
     }) [0..<width] s
   }"

definition Xor :: "dma_tables \<Rightarrow> nat \<Rightarrow> busad \<Rightarrow> busad \<Rightarrow> busad \<Rightarrow> emit_st \<Rightarrow> emit_st option" where
  "Xor t width ret lhs rhs s = do {
     l0 \<leftarrow> Label s;
     d \<leftarrow> bus_rel_fld l0 2 FLD_SRC 1;
     s \<leftarrow> EmitStrided d lhs (of_nat width) 1 31 0 s;
     d \<leftarrow> bus_rel_fld l0 2 FLD_SRC 2;
     s \<leftarrow> EmitStrided d rhs (of_nat width) 1 31 0 s;
     for_each (\<lambda>i s. do {
       src \<leftarrow> bus_off (HYPER t) (of_nat HYPER_XOR);
       Emit (bus_add ret (of_nat i)) src 1 s
     }) [0..<width] s
   }"

section \<open>Increment, addition, subtraction\<close>

definition Inc :: "dma_tables \<Rightarrow> nat \<Rightarrow> busad \<Rightarrow> busad \<Rightarrow> emit_st \<Rightarrow> emit_st option" where
  "Inc t width ret inp s =
     (if width = 0 then None
      else do {
        l0 \<leftarrow> Label s;
        d \<leftarrow> bus_rel_fld l0 1 FLD_SRC 1;
        s \<leftarrow> EmitStrided d inp (of_nat width) 1 63 0 s;
        for_each (\<lambda>i s. do {
          l1 \<leftarrow> Label s;
          src \<leftarrow> bus_off (SUPER t) (of_nat (SUPER_INC + 2));
          s \<leftarrow> Emit (bus_add ret (of_nat i)) src (if i < width - 1 then 2 else 1) s;
          if i < width - 1 then do {
            d \<leftarrow> bus_rel_fld l1 2 FLD_SRC 0;
            Emit d (bus_add ret (of_nat (i + 1))) 1 s
          } else Some s
        }) [0..<width] s
      })"

definition Add :: "dma_tables \<Rightarrow> nat \<Rightarrow> busad \<Rightarrow> busad \<Rightarrow> busad \<Rightarrow> emit_st \<Rightarrow> emit_st option" where
  "Add t width ret lhs rhs s =
     (if width = 0 then None
      else do {
        l0 \<leftarrow> Label s;
        d \<leftarrow> bus_rel_fld l0 2 FLD_SRC 1;
        s \<leftarrow> EmitStrided d rhs (of_nat width) 1 63 0 s;
        d \<leftarrow> bus_rel_fld l0 2 FLD_SRC 2;
        s \<leftarrow> EmitStrided d lhs (of_nat width) 1 63 0 s;
        src \<leftarrow> bus_off (HYPER t) (of_nat HYPER_ADD);
        s \<leftarrow> Emit (bus_add ret 0) src 2 s;
        for_each (\<lambda>i s. do {
          l1 \<leftarrow> Label s;
          d \<leftarrow> bus_rel_fld l1 1 FLD_SRC 0;
          s \<leftarrow> Emit d (bus_add ret (of_nat i)) 1 s;
          src \<leftarrow> bus (HYPER t);
          Emit (bus_add ret (of_nat i)) src (if i < width - 1 then 2 else 1) s
        }) [1..<width] s
      })"

definition Sub :: "dma_tables \<Rightarrow> nat \<Rightarrow> busad \<Rightarrow> busad \<Rightarrow> busad \<Rightarrow> emit_st \<Rightarrow> emit_st option" where
  "Sub t width ret lhs rhs s =
     (if width = 0 then None
      else do {
        l0 \<leftarrow> Label s;
        d \<leftarrow> bus_rel_fld l0 2 FLD_SRC 1;
        s \<leftarrow> EmitStrided d rhs (of_nat width) 1 63 0 s;
        d \<leftarrow> bus_rel_fld l0 2 FLD_SRC 2;
        s \<leftarrow> EmitStrided d lhs (of_nat width) 1 63 0 s;
        src \<leftarrow> bus_off (HYPER t) (of_nat HYPER_SUB);
        s \<leftarrow> Emit (bus_add ret 0) src 2 s;
        for_each (\<lambda>i s. do {
          l1 \<leftarrow> Label s;
          d \<leftarrow> bus_rel_fld l1 1 FLD_SRC 0;
          s \<leftarrow> Emit d (bus_add ret (of_nat i)) 1 s;
          src \<leftarrow> bus (HYPER t);
          Emit (bus_add ret (of_nat i)) src (if i < width - 1 then 2 else 1) s
        }) [1..<width] s
      })"

section \<open>Comparisons\<close>

definition ICF_X4 :: u32 where "ICF_X4 = 1"
definition ICF_INV :: u32 where "ICF_INV = 2"

definition truth_table :: "dma_tables \<Rightarrow> u32 \<Rightarrow> u32" where
  "truth_table t flags =
     (if flags AND ICF_X4 \<noteq> 0
      then (if flags AND ICF_INV \<noteq> 0 then ANTIPOLAR_TRUTH_X4 t else POLAR_TRUTH_X4 t)
      else (if flags AND ICF_INV \<noteq> 0 then ANTIPOLAR_TRUTH_X1 t else POLAR_TRUTH_X1 t))"

definition Geu ::
  "dma_tables \<Rightarrow> nat \<Rightarrow> busad \<Rightarrow> busad \<Rightarrow> busad \<Rightarrow> u32 \<Rightarrow> emit_st \<Rightarrow> emit_st option" where
  "Geu t width ret8 lhs rhs flags s =
     (if width = 0 then None
      else do {
        l0 \<leftarrow> Label s;
        d \<leftarrow> bus_rel_fld l0 2 FLD_SRC 1;
        s \<leftarrow> EmitStrided d rhs (of_nat width) 1 31 0 s;
        d \<leftarrow> bus_rel_fld l0 2 FLD_SRC 2;
        s \<leftarrow> EmitStrided d lhs (of_nat width) 1 31 0 s;
        s \<leftarrow> for_each (\<lambda>i s. do {
          l1 \<leftarrow> Label s;
          d \<leftarrow> bus_rel_fld l1 1 FLD_SRC 0;
          src \<leftarrow> bus_off (HYPER t) (of_nat (HYPER_GEU));
          Emit d src 1 s
        }) [0..<width] s;
        src \<leftarrow> bus (truth_table t flags);
        Emit ret8 src 1 s
      })"

definition Equ ::
  "dma_tables \<Rightarrow> nat \<Rightarrow> busad \<Rightarrow> busad \<Rightarrow> busad \<Rightarrow> u32 \<Rightarrow> emit_st \<Rightarrow> emit_st option" where
  "Equ t width ret8 lhs rhs flags s =
     (if width = 0 then None
      else do {
        l0 \<leftarrow> Label s;
        d \<leftarrow> bus_rel_fld l0 2 FLD_SRC 1;
        s \<leftarrow> EmitStrided d rhs (of_nat width) 1 31 0 s;
        d \<leftarrow> bus_rel_fld l0 2 FLD_SRC 2;
        s \<leftarrow> EmitStrided d lhs (of_nat width) 1 31 0 s;
        s \<leftarrow> for_each (\<lambda>i s. do {
          l1 \<leftarrow> Label s;
          d \<leftarrow> bus_rel_fld l1 1 FLD_SRC 0;
          src \<leftarrow> bus_off (HYPER t) (of_nat (HYPER_EQU + 1));
          Emit d src 1 s
        }) [0..<width] s;
        src \<leftarrow> bus (truth_table t flags);
        Emit ret8 src 1 s
      })"

definition Ltu ::
  "dma_tables \<Rightarrow> nat \<Rightarrow> busad \<Rightarrow> busad \<Rightarrow> busad \<Rightarrow> u32 \<Rightarrow> emit_st \<Rightarrow> emit_st option" where
  "Ltu t width ret8 lhs rhs flags = Geu t width ret8 lhs rhs (flags XOR ICF_INV)"

definition Neq ::
  "dma_tables \<Rightarrow> nat \<Rightarrow> busad \<Rightarrow> busad \<Rightarrow> busad \<Rightarrow> u32 \<Rightarrow> emit_st \<Rightarrow> emit_st option" where
  "Neq t width ret8 lhs rhs flags = Equ t width ret8 lhs rhs (flags XOR ICF_INV)"

text \<open>The chain of the signed comparison runs from the last byte to the first.\<close>

definition Ges ::
  "dma_tables \<Rightarrow> nat \<Rightarrow> busad \<Rightarrow> busad \<Rightarrow> busad \<Rightarrow> u32 \<Rightarrow> emit_st \<Rightarrow> emit_st option" where
  "Ges t width ret8 lhs rhs flags s =
     (if width = 0 then None
      else do {
        l0 \<leftarrow> Label s;
        d \<leftarrow> bus_rel_fld l0 2 FLD_SRC 1;
        s \<leftarrow> EmitStrided d (bus_add rhs 0) (of_nat width) 1 31 0 s;
        d \<leftarrow> bus_rel_fld l0 2 FLD_SRC 2;
        s \<leftarrow> EmitStrided d (bus_add lhs 0) (of_nat width) 1 31 0 s;
        s \<leftarrow> Branch (bus_rel_cb l0 (of_nat (width + 1))) s;
        s \<leftarrow> for_each (\<lambda>i s. do {
          l1 \<leftarrow> Label s;
          let nxt = (if i \<noteq> 0 then - 1 else of_nat width);
          d \<leftarrow> bus_rel_fld l1 nxt FLD_SRC 0;
          src \<leftarrow> bus_off (HYPER t) (of_nat HYPER_GES);
          s \<leftarrow> Emit d src 1 s;
          Branch (bus_rel_cb l1 nxt) s
        }) [0..<width] s;
        src \<leftarrow> bus (truth_table t flags);
        Emit ret8 src 1 s
      })"

definition Lts ::
  "dma_tables \<Rightarrow> nat \<Rightarrow> busad \<Rightarrow> busad \<Rightarrow> busad \<Rightarrow> u32 \<Rightarrow> emit_st \<Rightarrow> emit_st option" where
  "Lts t width ret8 lhs rhs flags = Ges t width ret8 lhs rhs (flags XOR ICF_INV)"

section \<open>Shifts by less than eight\<close>

definition Sll8 :: "dma_tables \<Rightarrow> nat \<Rightarrow> busad \<Rightarrow> busad \<Rightarrow> busad \<Rightarrow> emit_st \<Rightarrow> emit_st option" where
  "Sll8 t width ret inp shf8 s =
     (if width < 2 then None
      else do {
        l0 \<leftarrow> Label s;
        d \<leftarrow> bus_rel_fld l0 5 FLD_SRC 1;
        s \<leftarrow> EmitStrided d inp (of_nat (width - 1)) 2 30 (- 1) s;
        d \<leftarrow> bus_rel_fld l0 2 FLD_SRC 0;
        s \<leftarrow> Emit d shf8 1 s;
        d \<leftarrow> bus_rel_fld l0 4 FLD_SRC 0;
        src \<leftarrow> bus (SLL_HYPER_SELECT t);
        s \<leftarrow> EmitStridedWith (TI_DST_INC OR TI_2DMODE) d src (of_nat width) 1 31 0 s;
        d \<leftarrow> bus_rel_fld l0 4 FLD_SRC 2;
        s \<leftarrow> Emit d inp 1 s;
        src \<leftarrow> bus (HYPER t);
        s \<leftarrow> Emit (bus_add ret 0) src 1 s;
        for_each (\<lambda>i s. do { src \<leftarrow> bus (HYPER t); Emit (bus_add ret (of_nat i)) src 1 s }) [1..<width] s
      })"

definition Srl8 :: "dma_tables \<Rightarrow> nat \<Rightarrow> busad \<Rightarrow> busad \<Rightarrow> busad \<Rightarrow> emit_st \<Rightarrow> emit_st option" where
  "Srl8 t width ret inp shf8 s =
     (if width < 2 then None
      else do {
        l0 \<leftarrow> Label s;
        d \<leftarrow> bus_rel_fld l0 5 FLD_SRC 1;
        s \<leftarrow> EmitStrided d inp (of_nat (width - 1)) 2 30 (- 1) s;
        d \<leftarrow> bus_rel_fld l0 2 FLD_SRC 0;
        s \<leftarrow> Emit d shf8 1 s;
        d \<leftarrow> bus_rel_fld l0 4 FLD_SRC 0;
        src \<leftarrow> bus (SRL_HYPER_SELECT t);
        s \<leftarrow> EmitStridedWith (TI_DST_INC OR TI_2DMODE) d src (of_nat width) 1 31 0 s;
        d \<leftarrow> bus_rel_fld l0 4 FLD_SRC 1;
        s \<leftarrow> Emit d (bus_add inp (of_nat (width - 1))) 1 s;
        src \<leftarrow> bus (HYPER t);
        s \<leftarrow> Emit (bus_add ret (of_nat (width - 1))) src 1 s;
        for_each (\<lambda>i s. do { src \<leftarrow> bus (HYPER t); Emit (bus_add ret (of_nat i)) src 1 s }) [0..<width - 1] s
      })"

definition Sra8 :: "dma_tables \<Rightarrow> nat \<Rightarrow> busad \<Rightarrow> busad \<Rightarrow> busad \<Rightarrow> emit_st \<Rightarrow> emit_st option" where
  "Sra8 t width ret inp shf8 s =
     (if width < 2 then None
      else do {
        l0 \<leftarrow> Label s;
        d \<leftarrow> bus_rel_fld l0 5 FLD_SRC 1;
        s \<leftarrow> EmitStrided d inp (of_nat (width - 1)) 2 30 (- 1) s;
        d \<leftarrow> bus_rel_fld l0 2 FLD_SRC 0;
        s \<leftarrow> EmitStridedWith (TI_DST_INC OR TI_2DMODE) d shf8 2 1 63 0 s;
        d \<leftarrow> bus_rel_fld l0 5 FLD_SRC 0;
        src \<leftarrow> bus (SRL_HYPER_SELECT t);
        s \<leftarrow> EmitStridedWith (TI_DST_INC OR TI_2DMODE) d src (of_nat (width - 1)) 1 31 0 s;
        d \<leftarrow> bus_rel_fld l0 4 FLD_SRC 1;
        s \<leftarrow> Emit d (bus_add inp (of_nat (width - 1))) 1 s;
        src \<leftarrow> bus (SRA_HI t);
        s \<leftarrow> Emit (bus_add ret (of_nat (width - 1))) src 1 s;
        for_each (\<lambda>i s. do { src \<leftarrow> bus (HYPER t); Emit (bus_add ret (of_nat i)) src 1 s }) [0..<width - 1] s
      })"

end
