(* ===== verification/Dma_Steps.thy ===== *)
theory Dma_Steps
  imports Dma_Engine
begin

text \<open>
  Reasoning about control blocks: bus addresses of memory, what one step of the engine does to
  the memory (a block copy, or a scatter over the fields of later control blocks), and the
  execution of a row of table lookups. These are the shared lemmas of the arithmetic
  programs.
\<close>

section \<open>Bus addresses of memory\<close>

definition busn :: "nat \<Rightarrow> busad" where
  "busn a = of_nat (a + 0x40000000)"

lemma unat_busn: "a < 2 ^ 29 \<Longrightarrow> unat (busn a) = a + 2 ^ 30"
  by (simp add: busn_def unat_of_nat del: of_nat_add)

lemma busn_add [simp]: "busn a + of_nat k = busn (a + k)"
  by (simp add: busn_def)

lemma arm_of_busn [simp]: "a < 2 ^ 29 \<Longrightarrow> arm_of (busn a) = a"
  by (simp add: arm_of_def busn_def BUS_DRAM_BASE_def unat_of_nat)

lemma bus_is_dram_busn [simp]: "a < 2 ^ 29 \<Longrightarrow> bus_is_dram (busn a)"
  using unat_busn [of a] by (simp add: bus_is_dram_def BUS_DRAM_BASE_def BUS_DRAM_END_def word_le_nat_alt word_less_nat_alt)

lemma busn_inj: "a < 2 ^ 29 \<Longrightarrow> b < 2 ^ 29 \<Longrightarrow> busn a = busn b \<longleftrightarrow> a = b"
  by (metis arm_of_busn)

lemma bus_busn: "unat p < 2 ^ 29 \<Longrightarrow> bus p = Some (busn (unat p))"
  by (simp add: bus_def arm_to_bus_def arm_is_dram_def bus_consts busn_def word_less_nat_alt)

lemma busn_mod_32: "a < 2 ^ 29 \<Longrightarrow> a mod 32 = 0 \<Longrightarrow> busn a mod 32 = 0"
proof -
  assume a: "a < 2 ^ 29" "a mod 32 = 0"
  have "unat (busn a mod 32) = (a + 1073741824) mod 32" using unat_busn [OF a(1)] by (simp add: unat_mod)
  also have "\<dots> = 0" using a(2) by presburger
  finally show ?thesis by (simp add: unat_eq_zero)
qed

section \<open>Control blocks in memory\<close>

lemma length_cb_bytes [simp]: "length (cb_bytes cb) = 32"
  by (simp add: cb_bytes_def)

lemma fetch_cb_write [simp]: "fetch_cb (mem_write a (cb_bytes cb) m) a = cb"
proof -
  have l: "length (cb_bytes cb) = 32" by (simp add: cb_bytes_def)
  have r: "mem_read (mem_write a (cb_bytes cb) m) (a + k) 4 = take 4 (drop k (cb_bytes cb))" if "k + 4 \<le> 32" for k
    using that l by (intro mem_read_write_part) simp
  show ?thesis
    using r [of 0] r [of 4] r [of 8] r [of 12] r [of 16] r [of 20]
    by (simp add: fetch_cb_def load32_def cb_bytes_def)
qed

text \<open>The block at an address is the given one up to its source, the field the programs patch.\<close>

definition shape :: "mem \<Rightarrow> nat \<Rightarrow> cblk \<Rightarrow> bool" where
  "shape m a cb \<longleftrightarrow> fetch_cb m a = cb\<lparr>src_addr := load32 m (a + 4)\<rparr>"

lemma shape_fetch: "shape m a cb \<Longrightarrow> load32 m (a + 4) = src_addr cb \<Longrightarrow> fetch_cb m a = cb"
  by (simp add: shape_def)

lemma fetch_shape: "fetch_cb m a = cb \<Longrightarrow> shape m a cb"
  by (auto simp: shape_def fetch_cb_def)

lemma shape_cong:
  assumes "shape m a cb" "\<And>x. a \<le> x \<Longrightarrow> x < a + 24 \<Longrightarrow> \<not> (a + 4 \<le> x \<and> x < a + 8) \<Longrightarrow> m' x = m x"
  shows "shape m' a cb"
proof -
  have "mem_read m' (a + k) 4 = mem_read m (a + k) 4" if "k + 4 \<le> 4 \<or> 8 \<le> k" "k + 4 \<le> 24" for k
    using that by (intro mem_read_cong assms(2)) auto
  from this [of 0] this [of 8] this [of 12] this [of 16] this [of 20] assms(1) show ?thesis
    by (cases cb) (auto simp: shape_def fetch_cb_def load32_def)
qed

lemma shape_same:
  assumes "shape m a cb" "\<And>u. u < 32 \<Longrightarrow> u \<noteq> 4 \<Longrightarrow> m' (a + u) = m (a + u)"
  shows "shape m' a cb"
proof (rule shape_cong [OF assms(1)])
  fix z assume z: "a \<le> z" "z < a + 24" "\<not> (a + 4 \<le> z \<and> z < a + 8)"
  then obtain u where u: "z = a + u" by (metis le_Suc_ex)
  with z have "u < 32" "u \<noteq> 4" by auto
  from assms(2) [OF this] show "m' z = m z" by (simp add: u)
qed

lemma load32_bytes: "load32 m a = of_le32 [m a, m (a + 1), m (a + 2), m (a + 3)]"
  by (simp add: load32_def mem_read_def upt_rec numeral_eq_Suc)

lemma unat_of_le32:
  "unat (of_le32 [a, b, c, d]) = unat a + 256 * unat b + 65536 * unat c + 16777216 * unat d"
proof -
  have bnd: "unat x < 256" for x :: u8 using unsigned_less [of x, where 'a = nat] by simp
  have "of_le32 [a, b, c, d] = of_nat (unat a + 256 * unat b + 65536 * unat c + 16777216 * unat d)"
  proof -
    have "push_bit 8 (ucast b :: u32) = ucast b * 256" "push_bit 16 (ucast c :: u32) = ucast c * 65536"
      "push_bit 24 (ucast d :: u32) = ucast d * 16777216"
      by (simp_all add: push_bit_eq_mult)
    moreover have "ucast a OR push_bit 8 (ucast b) OR push_bit 16 (ucast c) OR push_bit 24 (ucast d) =
        ucast a + (push_bit 8 (ucast b) + (push_bit 16 (ucast c) + (push_bit 24 (ucast d) :: u32)))"
      by (subst disjunctive_add; (subst disjunctive_add)?; (subst disjunctive_add)?; auto simp: bit_simps dest!: bit_imp_le_length)
    ultimately show ?thesis by (simp add: of_le32_def ac_simps)
  qed
  moreover have "unat a + 256 * unat b + 65536 * unat c + 16777216 * unat d < 2 ^ LENGTH(32)"
    using bnd [of a] bnd [of b] bnd [of c] bnd [of d] by simp
  ultimately show ?thesis by (simp only: unat_of_nat mod_less)
qed

section \<open>Moves\<close>

lemma apply_moves_out: "(\<And>d s. (d, s) \<in> set ms \<Longrightarrow> arm_of d \<noteq> x) \<Longrightarrow> apply_moves ms m x = m x"
proof -
  assume a: "\<And>d s. (d, s) \<in> set ms \<Longrightarrow> arm_of d \<noteq> x"
  have "map_of (map (\<lambda>(d, s). (arm_of d, arm_of s)) ms) x = None"
    unfolding map_of_eq_None_iff using a by fastforce
  then show ?thesis by (simp add: apply_moves_def)
qed

lemma apply_moves_in:
  assumes "distinct (map fst ms)" "(d, s) \<in> set ms"
  shows "apply_moves ms m (arm_of d) = m (arm_of s)"
proof -
  let ?ms = "map (\<lambda>(d, s). (arm_of d, arm_of s)) ms"
  have "inj arm_of" by (rule injI) (metis arm_of_def diff_add_cancel word_unat_eq_iff)
  then have "distinct (map arm_of (map fst ms))"
    using assms(1) by (simp only: distinct_map) (meson inj_on_subset subset_UNIV)
  then have "distinct (map fst ?ms)" by (simp add: comp_def split_def)
  moreover have "(arm_of d, arm_of s) \<in> set ?ms" using assms(2) by force
  ultimately have "map_of ?ms (arm_of d) = Some (arm_of s)" by (rule map_of_is_SomeI)
  then show ?thesis by (simp add: apply_moves_def)
qed

lemma engine_step:
  assumes "dma_engine hw" "a < 2 ^ 29" "a mod 32 = 0" "fetch_cb m a = cb" "plain_transfer cb"
  shows "hw (busn a) m = (next_cb cb, apply_moves (cb_moves cb) m)"
  using assms busn_mod_32 [of a] by (simp add: dma_engine_def)

text \<open>A linear transfer is a block copy.\<close>

definition linear :: u32 where "linear = TI_DST_INC OR TI_SRC_INC"

lemma linear_bits: "\<not> bit linear (Suc 0)" "bit linear 4" "bit linear 8"
  by (simp_all add: linear_def ti_defs bit_simps)

lemma linear_moves:
  assumes "n < 2 ^ 16"
  shows "cb_moves \<lparr>ti = linear, src_addr = busn s, dst_addr = busn d, txfr_len = of_nat n, stride = st, next_cb = nx\<rparr> =
    map (\<lambda>x. (busn (d + x), busn (s + x))) [0..<n]"
proof -
  have "(of_nat n :: u32) AND 0x3fffffff = of_nat n"
  proof -
    have "(of_nat n :: u32) AND 0x3fffffff = take_bit 30 (of_nat n)" by (simp add: take_bit_eq_mask mask_eq_exp_minus_1)
    also have "\<dots> = of_nat (take_bit 30 n)" by (simp only: of_nat_take_bit)
    also have "take_bit 30 n = n" using assms by (simp add: take_bit_nat_eq_self)
    finally show ?thesis .
  qed
  moreover have "unat (of_nat n :: u32) = n" using assms by (simp add: unat_of_nat)
  ultimately show ?thesis by (simp add: cb_moves_def linear_bits inc_def)
qed

lemma step_linear:
  assumes hw: "dma_engine hw" and a: "a < 2 ^ 29" "a mod 32 = 0"
    and cb: "fetch_cb m a = \<lparr>ti = linear, src_addr = busn s, dst_addr = busn d, txfr_len = of_nat n, stride = st, next_cb = nx\<rparr>"
    and n: "n < 2 ^ 16" "s + n \<le> 2 ^ 29" "d + n \<le> 2 ^ 29" "s + n \<le> d \<or> d + n \<le> s"
  shows "hw (busn a) m = (nx, mem_copy d s n m)"
proof -
  let ?cb = "\<lparr>ti = linear, src_addr = busn s, dst_addr = busn d, txfr_len = of_nat n, stride = st, next_cb = nx\<rparr>"
  let ?ms = "map (\<lambda>x. (busn (d + x), busn (s + x))) [0..<n]"
  have mv: "cb_moves ?cb = ?ms" by (rule linear_moves) (use n in simp)
  have dist: "distinct (map fst ?ms)"
    using n by (auto simp: distinct_map comp_def inj_on_def busn_inj)
  have dis: "busn (d + x) \<noteq> busn (s + y)" if "x < n" "y < n" for x y
    using that n by (subst busn_inj) auto
  have "plain_transfer ?cb"
    unfolding plain_transfer_def mv using dist dis n by (auto simp: linear_def)
  from engine_step [OF hw a cb this] have "hw (busn a) m = (nx, apply_moves ?ms m)" by (simp add: mv)
  moreover have "apply_moves ?ms m x = mem_copy d s n m x" for x
  proof (cases "d \<le> x \<and> x < d + n")
    case True
    then obtain i where i: "x = d + i" "i < n" by (metis le_Suc_ex nat_add_left_cancel_less)
    then have "(busn (d + i), busn (s + i)) \<in> set ?ms" by auto
    from apply_moves_in [OF dist this, of m] i n show ?thesis by (simp add: mem_copy_def mem_write_def)
  next
    case False
    then have "arm_of (busn (d + i)) \<noteq> x" if "i < n" for i using that n by auto
    then have "apply_moves ?ms m x = m x" by (intro apply_moves_out) fastforce
    with False show ?thesis by (auto simp: mem_copy_def mem_write_def)
  qed
  ultimately show ?thesis by auto
qed

section \<open>Scatters\<close>

text \<open>
  \<open>rows\<close> rows of \<open>cols\<close> bytes, the rows \<open>D\<close> bytes apart at the destination and \<open>e\<close> bytes apart at
  the source.
\<close>

definition mem_scatter :: "nat \<Rightarrow> nat \<Rightarrow> nat \<Rightarrow> nat \<Rightarrow> nat \<Rightarrow> nat \<Rightarrow> mem \<Rightarrow> mem" where
  "mem_scatter d D s e cols rows m = (\<lambda>x.
     if d \<le> x \<and> (x - d) mod D < cols \<and> (x - d) div D < rows
     then m (s + (x - d) div D * e + (x - d) mod D) else m x)"

definition scatter :: u32 where "scatter = TI_DST_INC OR TI_SRC_INC OR TI_2DMODE"
definition spread :: u32 where "spread = TI_DST_INC OR TI_2DMODE"

lemma scatter_bits: "bit scatter (Suc 0)" "bit scatter 4" "bit scatter 8"
  "bit spread (Suc 0)" "bit spread 4" "\<not> bit spread 8"
  by (simp_all add: scatter_def spread_def ti_defs bit_simps)

definition len2d :: "nat \<Rightarrow> nat \<Rightarrow> u32" where
  "len2d rows cols = push_bit 16 (of_nat (rows - 1)) OR of_nat cols"

lemma unat_of_nat_16: "n < 2 ^ 16 \<Longrightarrow> unat (of_nat n :: u16) = n" "n < 2 ^ 16 \<Longrightarrow> unat (of_nat n :: u32) = n"
  by (simp_all add: unat_of_nat)

lemma ucast_of_nat_16: "n < 2 ^ 16 \<Longrightarrow> ucast (of_nat n :: u16) = (of_nat n :: u32)"
  by (rule word_unat_eq_iff [THEN iffD2]) (simp add: unsigned_ucast_eq take_bit_eq_mod unat_of_nat)

lemma halves:
  assumes "a < 2 ^ 14" "b < 2 ^ 16"
  shows "unat ((push_bit 16 (of_nat a) OR of_nat b :: u32) AND 0xffff) = b"
    "unat (drop_bit 16 (push_bit 16 (of_nat a) OR of_nat b :: u32) AND 0x3fff) = a"
proof -
  have b: "(of_nat b :: u32) = take_bit 16 (of_nat b)"
    using assms(2) by (metis of_nat_take_bit take_bit_nat_eq_self)
  have bb: "n < 16" if "bit (of_nat b :: u32) n" for n
    using that by (subst (asm) b) (simp add: bit_simps)
  have a: "(of_nat a :: u32) = take_bit 14 (of_nat a)"
    using assms(1) by (metis of_nat_take_bit take_bit_nat_eq_self)
  have ba: "n < 14" if "bit (of_nat a :: u32) n" for n
    using that by (subst (asm) a) (simp add: bit_simps)
  have "(push_bit 16 (of_nat a) OR of_nat b :: u32) AND 0xffff = of_nat b"
  proof (rule bit_word_eqI)
    fix n
    have "bit (0xffff :: u32) n \<longleftrightarrow> n < 16"
      using bit_mask_iff [of 16 n, where 'a = u32] by (auto simp: mask_eq_exp_minus_1)
    with bb [of n] show "bit ((push_bit 16 (of_nat a) OR of_nat b :: u32) AND 0xffff) n = bit (of_nat b :: u32) n"
      by (auto simp: bit_simps)
  qed
  then show "unat ((push_bit 16 (of_nat a) OR of_nat b :: u32) AND 0xffff) = b"
    using assms(2) by (simp add: unat_of_nat)
  have "drop_bit 16 (push_bit 16 (of_nat a) OR of_nat b :: u32) AND 0x3fff = of_nat a"
  proof (rule bit_word_eqI)
    fix n
    have "bit (0x3fff :: u32) n \<longleftrightarrow> n < 14"
      using bit_mask_iff [of 14 n, where 'a = u32] by (auto simp: mask_eq_exp_minus_1)
    with ba [of n] bb [of "16 + n"] show
      "bit (drop_bit 16 (push_bit 16 (of_nat a) OR of_nat b :: u32) AND 0x3fff) n = bit (of_nat a :: u32) n"
      by (auto simp: bit_simps)
  qed
  then show "unat (drop_bit 16 (push_bit 16 (of_nat a) OR of_nat b :: u32) AND 0x3fff) = a"
    using assms(1) by (simp add: unat_of_nat)
qed

lemma stride_halves:
  "ucast (drop_bit 16 (cb_stride a b)) = a" "ucast (cb_stride a b) = b"
  by (rule bit_word_eqI; auto simp: cb_stride_def bit_simps dest: bit_imp_le_length)+

lemma scatter_moves:
  assumes T: "T = scatter \<and> sinc = 1 \<or> T = spread \<and> sinc = 0" and cols: "cols < 2 ^ 16"
    and rows: "0 < rows" "rows \<le> 2 ^ 14" and D: "scast ds = (of_nat D - of_nat cols :: u32)"
    and e: "scast ss = (of_nat e - of_nat cols * of_nat sinc :: u32)"
  shows "cb_moves \<lparr>ti = T, src_addr = busn s, dst_addr = busn d, txfr_len = len2d rows cols,
      stride = cb_stride ds ss, next_cb = nx\<rparr> =
    concat (map (\<lambda>y. map (\<lambda>x. (busn (d + y * D + x), busn (s + y * e + x * sinc))) [0..<cols]) [0..<rows])"
proof -
  let ?cb = "\<lparr>ti = T, src_addr = busn s, dst_addr = busn d, txfr_len = len2d rows cols, stride = cb_stride ds ss, next_cb = nx\<rparr>"
  have x: "xlen ?cb = cols" and y: "ylen ?cb + 1 = rows"
    using halves [of "rows - 1" cols] rows cols by (simp_all add: xlen_def ylen_def len2d_def)
  have bits: "bit T 1" "inc 4 ?cb = 1" "inc 8 ?cb = of_nat sinc"
    using T scatter_bits by (auto simp: inc_def)
  have "busn d + of_nat y * (of_nat cols * 1 + scast ds) + of_nat x * 1 = busn (d + y * D + x)" for x y
    unfolding D by (simp add: busn_def algebra_simps)
  moreover have "busn s + of_nat y * (of_nat cols * of_nat sinc + scast ss) + of_nat x * of_nat sinc =
      busn (s + y * e + x * sinc)" for x y
    unfolding e by (simp add: busn_def algebra_simps)
  ultimately show ?thesis
    unfolding cb_moves_def Let_def cblk.select_convs stride_halves x y bits by (simp only: bits if_True)
qed

text \<open>The step of a 2D transfer.\<close>

lemma step_scatter:
  assumes hw: "dma_engine hw" and a: "a < 2 ^ 29" "a mod 32 = 0"
    and cb: "fetch_cb m a = \<lparr>ti = T, src_addr = busn s, dst_addr = busn d, txfr_len = len2d rows cols,
      stride = cb_stride ds ss, next_cb = nx\<rparr>"
    and T: "T = scatter \<and> sinc = 1 \<or> T = spread \<and> sinc = 0 \<and> cols = 1"
    and cols: "cols < 2 ^ 16" "cols \<le> D" and rows: "0 < rows" "rows \<le> 2 ^ 14"
    and D: "scast ds = (of_nat D - of_nat cols :: u32)"
    and e: "scast ss = (of_nat e - of_nat cols * of_nat sinc :: u32)"
    and lim: "d + (rows - 1) * D + cols \<le> 2 ^ 29" "s + (rows - 1) * e + cols \<le> 2 ^ 29"
    and dis: "s + (rows - 1) * e + cols \<le> d \<or> d + (rows - 1) * D + cols \<le> s"
  shows "hw (busn a) m = (nx, mem_scatter d D s e cols rows m)"
proof -
  let ?cb = "\<lparr>ti = T, src_addr = busn s, dst_addr = busn d, txfr_len = len2d rows cols, stride = cb_stride ds ss, next_cb = nx\<rparr>"
  let ?ms = "concat (map (\<lambda>y. map (\<lambda>x. (busn (d + y * D + x), busn (s + y * e + x * sinc))) [0..<cols]) [0..<rows])"
  have mv: "cb_moves ?cb = ?ms" by (rule scatter_moves) (use T cols rows D e in auto)
  have xl: "xlen ?cb = cols"
    using halves [of "rows - 1" cols] rows cols by (simp add: xlen_def len2d_def)
  have dmax: "d + y * D + x < d + (rows - 1) * D + cols" if "y < rows" "x < cols" for x y
  proof -
    have "y * D \<le> (rows - 1) * D" using that by (intro mult_le_mono1) simp
    then show ?thesis using that(2) by linarith
  qed
  have smax: "s + y * e + x * sinc < s + (rows - 1) * e + cols" if "y < rows" "x < cols" for x y
  proof -
    have "y * e \<le> (rows - 1) * e" using that by (intro mult_le_mono1) simp
    moreover have "x * sinc < cols" using that T by auto
    ultimately show ?thesis by linarith
  qed
  have div: "(d + y * D + x - d) div D = y" "(d + y * D + x - d) mod D = x" if "x < cols" for x y
    using that cols(2) by simp_all
  have inj: "y = y' \<and> x = x'" if "x < cols" "x' < cols" "y < rows" "y' < rows" "busn (d + y * D + x) = busn (d + y' * D + x')" for x x' y y'
    using that dmax [of y x] dmax [of y' x'] lim div [of x y] div [of x' y'] by (metis busn_inj order_less_le_trans)
  have ms: "?ms = map (\<lambda>(y, x). (busn (d + y * D + x), busn (s + y * e + x * sinc))) (List.product [0..<rows] [0..<cols])"
    by (simp add: product_concat_map map_concat comp_def)
  have dist: "distinct (map fst ?ms)"
    unfolding ms map_map using inj by (subst distinct_map) (auto simp: distinct_product inj_on_def)
  have dis': "busn (d + y * D + x) \<noteq> busn (s + y' * e + x' * sinc)"
    if "x < cols" "x' < cols" "y < rows" "y' < rows" for x x' y y'
    using that dmax [of y x] smax [of y' x'] lim dis by (subst busn_inj) auto
  have dram: "d + y * D + x < 2 ^ 29" "s + y * e + x * sinc < 2 ^ 29" if "x < cols" "y < rows" for x y
    using that dmax [of y x] smax [of y x] lim by auto
  have "plain_transfer ?cb"
    unfolding plain_transfer_def mv cblk.select_convs xl
    using T dist dis' dram by (auto simp: scatter_def spread_def)
  from engine_step [OF hw a cb this] have "hw (busn a) m = (nx, apply_moves ?ms m)" by (simp add: mv)
  moreover have "apply_moves ?ms m x = mem_scatter d D s e cols rows m x" for x
  proof (cases "d \<le> x \<and> (x - d) mod D < cols \<and> (x - d) div D < rows")
    case True
    define y where "y = (x - d) div D"
    define z where "z = (x - d) mod D"
    have x: "x = d + y * D + z" using True by (simp add: y_def z_def)
    have yz: "y < rows" "z < cols" using True by (simp_all add: y_def z_def)
    have "(busn (d + y * D + z), busn (s + y * e + z * sinc)) \<in> set ?ms"
      unfolding ms set_map by (rule image_eqI [of _ _ "(y, z)"]) (use yz in auto)
    from apply_moves_in [OF dist this, of m] dram [OF yz(2,1)] x have
      "apply_moves ?ms m x = m (s + y * e + z * sinc)" by simp
    moreover have "z * sinc = z" using T yz(2) by auto
    ultimately show ?thesis using True unfolding mem_scatter_def y_def z_def by (simp only: if_True simp_thms)
  next
    case False
    have "arm_of (busn (d + y * D + z)) \<noteq> x" if "z < cols" "y < rows" for y z
      using False div [OF that(1), of y] dram [OF that] that by (auto simp: arm_of_busn)
    then have "apply_moves ?ms m x = m x" by (intro apply_moves_out) fastforce
    with False show ?thesis by (auto simp: mem_scatter_def)
  qed
  ultimately show ?thesis by auto
qed

section \<open>Rows of lookups\<close>

text \<open>
  A lookup is a linear transfer of a few bytes whose source has been patched to point into a table;
  the blocks of a program follow each other in memory.
\<close>

definition lookup_cb :: "nat \<Rightarrow> nat \<Rightarrow> nat \<Rightarrow> nat \<Rightarrow> cblk" where
  "lookup_cb a d s n = \<lparr>ti = linear, src_addr = busn s, dst_addr = busn d, txfr_len = of_nat n, stride = 0,
     next_cb = busn (a + 32)\<rparr>"

lemma lookup_step:
  assumes "dma_engine hw" "a < 2 ^ 29" "a mod 32 = 0" "shape m a (lookup_cb a d s0 n)" "load32 m (a + 4) = busn s"
    and "n < 2 ^ 16" "s + n \<le> 2 ^ 29" "d + n \<le> 2 ^ 29" "s + n \<le> d \<or> d + n \<le> s"
  shows "hw (busn a) m = (busn (a + 32), mem_copy d s n m)"
proof (rule step_linear [OF assms(1-3) _ assms(6-9)])
  show "fetch_cb m a = \<lparr>ti = linear, src_addr = busn s, dst_addr = busn d, txfr_len = of_nat n, stride = 0,
     next_cb = busn (a + 32)\<rparr>"
    using assms(4,5) by (simp add: shape_def lookup_cb_def)
qed

lemma dma_run_0 [simp]: "dma_run hw 0 am = am"
  by (simp add: dma_run_def)

lemma dma_run_Suc: "dma_run hw (Suc n) (a, m) = dma_run hw n (hw a m)"
  by (simp add: dma_run_def funpow_swap1)

lemma dma_run_add: "dma_run hw (n + k) am = dma_run hw k (dma_run hw n am)"
  by (simp add: dma_run_def funpow_add [of k n] add.commute)

lemma mem_copy_1: "mem_copy d s 1 m = m(d := m s)"
  by (auto simp: mem_copy_def mem_write_def mem_read_def)

lemma lookups:
  assumes hw: "dma_engine hw" and a: "a mod 32 = 0" "a + 32 * n < 2 ^ 29" and r: "r + n \<le> 2 ^ 29"
    and code: "\<And>i. i < n \<Longrightarrow> shape m (a + 32 * i) (lookup_cb (a + 32 * i) (r + i) s0 1)"
    and src: "\<And>i. i < n \<Longrightarrow> load32 m (a + 32 * i + 4) = busn (s i)" "\<And>i. i < n \<Longrightarrow> s i < 2 ^ 29"
    and dis: "r + n \<le> a \<or> a + 32 * n \<le> r" "\<And>i. i < n \<Longrightarrow> s i < r \<or> r + n \<le> s i"
  shows "dma_run hw n (busn a, m) =
    (busn (a + 32 * n), \<lambda>x. if r \<le> x \<and> x < r + n then m (s (x - r)) else m x)"
  using assms(2-)
proof (induction n arbitrary: a r m s)
  case 0
  then show ?case by (auto intro!: ext)
next
  case (Suc n)
  let ?m = "m(r := m (s 0))"
  have "hw (busn a) m = (busn (a + 32), mem_copy r (s 0) 1 m)"
  proof (rule lookup_step [OF hw])
    show "shape m a (lookup_cb a r s0 1)" "load32 m (a + 4) = busn (s 0)"
      using Suc.prems(4) [of 0] Suc.prems(5) [of 0] by simp_all
    show "s 0 + 1 \<le> 2 ^ 29" "s 0 + 1 \<le> r \<or> r + 1 \<le> s 0"
      using Suc.prems(6) [of 0] Suc.prems(8) [of 0] by auto
  qed (use Suc.prems(1-3) in auto)
  then have step: "hw (busn a) m = (busn (a + 32), ?m)" by (simp only: mem_copy_1)
  have "dma_run hw n (busn (a + 32), ?m) = (busn (a + 32 + 32 * n),
      \<lambda>x. if r + 1 \<le> x \<and> x < r + 1 + n then ?m (s (Suc (x - (r + 1)))) else ?m x)"
  proof (rule Suc.IH [of "a + 32" "r + 1" ?m "\<lambda>i. s (Suc i)"])
    fix i assume i: "i < n"
    have far: "\<not> (a + 32 + 32 * i \<le> r \<and> r < a + 32 + 32 * i + 24)"
      using Suc.prems(7) i by auto
    show "shape ?m (a + 32 + 32 * i) (lookup_cb (a + 32 + 32 * i) (r + 1 + i) s0 1)"
      by (rule shape_cong [of m]) (use Suc.prems(4) [of "Suc i"] i far in \<open>auto simp: algebra_simps\<close>)
    have "load32 ?m (a + 32 + 32 * i + 4) = load32 m (a + 32 * Suc i + 4)"
      using far unfolding load32_def by (auto intro!: arg_cong [of _ _ of_le32] mem_read_cong)
    then show "load32 ?m (a + 32 + 32 * i + 4) = busn (s (Suc i))"
      using Suc.prems(5) [of "Suc i"] i by simp
    show "s (Suc i) < r + 1 \<or> r + 1 + n \<le> s (Suc i)"
      using Suc.prems(8) [of "Suc i"] i by auto
  qed (use Suc.prems in \<open>auto simp: algebra_simps\<close>)
  moreover have "(if r + 1 \<le> x \<and> x < r + 1 + n then ?m (s (Suc (x - (r + 1)))) else ?m x) =
      (if r \<le> x \<and> x < r + Suc n then m (s (x - r)) else m x)" for x
  proof (cases "r + 1 \<le> x \<and> x < r + 1 + n")
    case True
    then have "x - r < Suc n" "Suc (x - (r + 1)) = x - r" by linarith+
    moreover from this(1) have "s (x - r) \<noteq> r" using Suc.prems(8) [of "x - r"] by auto
    ultimately show ?thesis using True by auto
  qed auto
  moreover have "a + 32 + 32 * n = a + 32 * Suc n" by simp
  ultimately show ?case unfolding dma_run_Suc step by (simp only:)
qed

section \<open>Emitted programs\<close>

text \<open>
  \<open>emitted s cbs s'\<close>: between the two states exactly the control blocks \<open>cbs\<close> were written, one
  after the other from the position of \<open>s\<close>, each with the address of the following one as its
  successor. \<open>fits s n\<close>: the context has an aligned position in memory and room for \<open>n\<close> blocks.
\<close>

definition pos :: "emit_st \<Rightarrow> nat" where
  "pos s = unat (ec_p (fst s))"

definition fits :: "emit_st \<Rightarrow> nat \<Rightarrow> bool" where
  "fits s n \<longleftrightarrow> pos s mod 32 = 0 \<and> pos s + 32 * n < 2 ^ 29 \<and> unat (ec_base (fst s)) \<le> pos s \<and>
     unat (ec_base (fst s)) mod 32 = 0 \<and> (pos s - unat (ec_base (fst s))) div 32 + n \<le> unat (ec_cap (fst s))"

definition emitted :: "emit_st \<Rightarrow> cblk list \<Rightarrow> emit_st \<Rightarrow> bool" where
  "emitted s cbs s' \<longleftrightarrow> pos s' = pos s + 32 * length cbs \<and>
     ec_base (fst s') = ec_base (fst s) \<and> ec_cap (fst s') = ec_cap (fst s) \<and>
     (\<forall>k < length cbs. fetch_cb (snd s') (pos s + 32 * k) =
        (cbs ! k)\<lparr>next_cb := busn (pos s + 32 * k + 32)\<rparr>) \<and>
     (\<forall>x. x < pos s \<or> pos s' \<le> x \<longrightarrow> snd s' x = snd s x)"

lemma emitted_Nil [simp]: "emitted s [] s"
  by (simp add: emitted_def)

lemma fetch_cong: "(\<And>x. a \<le> x \<Longrightarrow> x < a + 24 \<Longrightarrow> m' x = m x) \<Longrightarrow> fetch_cb m' a = fetch_cb m a"
  by (simp add: fetch_cb_def load32_def mem_read_cong [of _ _ m' m])

lemma emitted_append:
  assumes "emitted s xs s1" "emitted s1 ys s2"
  shows "emitted s (xs @ ys) s2"
proof -
  have p1: "pos s1 = pos s + 32 * length xs" and p2: "pos s2 = pos s1 + 32 * length ys"
    using assms by (simp_all add: emitted_def)
  have "fetch_cb (snd s2) (pos s + 32 * k) = ((xs @ ys) ! k)\<lparr>next_cb := busn (pos s + 32 * k + 32)\<rparr>"
    if k: "k < length (xs @ ys)" for k
  proof (cases "k < length xs")
    case True
    have "fetch_cb (snd s2) (pos s + 32 * k) = fetch_cb (snd s1) (pos s + 32 * k)"
      using assms(2) p1 True by (intro fetch_cong) (auto simp: emitted_def)
    with assms(1) True show ?thesis by (simp add: emitted_def nth_append)
  next
    case False
    then have "pos s + 32 * k = pos s1 + 32 * (k - length xs)" "k - length xs < length ys"
      using p1 k by auto
    with assms(2) False show ?thesis by (simp add: emitted_def nth_append)
  qed
  then show ?thesis using assms p1 p2 by (auto simp: emitted_def)
qed

lemma fits_emitted: "emitted s xs s' \<Longrightarrow> fits s (length xs + n) \<Longrightarrow> fits s' n"
proof -
  assume e: "emitted s xs s'" and f: "fits s (length xs + n)"
  let ?b = "unat (ec_base (fst s))"
  have p: "pos s' = pos s + 32 * length xs" using e by (simp add: emitted_def)
  have "pos s + 32 * length xs - ?b = (pos s - ?b) + 32 * length xs" using f by (simp add: fits_def)
  then have "(pos s + 32 * length xs - ?b) div 32 = (pos s - ?b) div 32 + length xs" by simp
  with e f p show ?thesis by (auto simp: fits_def emitted_def)
qed

lemma fits_room:
  assumes "fits s (Suc n)"
  shows "room (fst s) (ec_p (fst s))" "bus (ec_p (fst s) + 32) = Some (busn (pos s + 32))"
    "unat (ec_p (fst s) + 32) = pos s + 32"
proof -
  have le: "ec_base (fst s) \<le> ec_p (fst s)" using assms by (simp add: fits_def pos_def word_le_nat_alt)
  have "unat ((ec_p (fst s) - ec_base (fst s)) div 32) = (pos s - unat (ec_base (fst s))) div 32"
    using unat_sub [OF le] by (simp add: unat_div pos_def)
  then show "room (fst s) (ec_p (fst s))" using assms by (simp add: room_def fits_def word_less_nat_alt)
  show u: "unat (ec_p (fst s) + 32) = pos s + 32"
    using assms by (simp add: fits_def pos_def unat_word_ariths)
  then show "bus (ec_p (fst s) + 32) = Some (busn (pos s + 32))"
    using assms bus_busn [of "ec_p (fst s) + 32"] by (simp add: fits_def)
qed

lemma emitted_one:
  assumes "fits s (Suc n)"
  shows "emitted s [cb] ((fst s)\<lparr>ec_p := ec_p (fst s) + 32\<rparr>,
    mem_write (unat (ec_p (fst s))) (cb_bytes (cb\<lparr>next_cb := busn (pos s + 32)\<rparr>)) (snd s))"
  using fits_room(3) [OF assms]
  by (auto simp: emitted_def pos_def mem_write_outside)

definition linear_cb :: "busad \<Rightarrow> busad \<Rightarrow> nat \<Rightarrow> cblk" where
  "linear_cb d s n = \<lparr>ti = linear, src_addr = s, dst_addr = d, txfr_len = of_nat n, stride = 0, next_cb = 0\<rparr>"

definition cb_2d :: "u32 \<Rightarrow> busad \<Rightarrow> busad \<Rightarrow> nat \<Rightarrow> nat \<Rightarrow> u16 \<Rightarrow> u16 \<Rightarrow> cblk" where
  "cb_2d T d s rows cols ds ss = \<lparr>ti = T, src_addr = s, dst_addr = d, txfr_len = len2d rows cols,
     stride = cb_stride ds ss, next_cb = 0\<rparr>"

lemma Emit_emitted:
  assumes "fits s (Suc n)"
  shows "\<exists>s'. Emit d src (of_nat k) s = Some s' \<and> emitted s [linear_cb d src k] s'"
proof -
  obtain ctx m where s: "s = (ctx, m)" by (cases s)
  show ?thesis
    using fits_room [OF assms] emitted_one [OF assms, of "linear_cb d src k"]
    by (auto simp: Emit_def EmitWith_def Let_def s linear_cb_def linear_def)
qed

lemma EmitStridedWith_emitted:
  assumes "fits s (Suc n)" "T = scatter \<or> T = spread" "0 < rows" "rows \<le> 2 ^ 14" "cols < 2 ^ 16"
  shows "\<exists>s'. EmitStridedWith T d src (of_nat rows) (of_nat cols) ds ss s = Some s' \<and>
    emitted s [cb_2d T d src rows cols ds ss] s'"
proof -
  obtain ctx m where s: "s = (ctx, m)" by (cases s)
  obtain k where k: "rows = Suc k" using assms(3) by (cases rows) auto
  have "unat (of_nat k :: u16) = k" using assms(4) k by (intro unat_of_nat_16) simp
  then have len: "cb_length (of_nat rows - 1) (of_nat cols) = Some (len2d rows cols)"
    using assms(4,5) unfolding k
    by (simp add: cb_length_def len2d_def ucast_of_nat_16 word_less_nat_alt)
  have "T AND TI_2DMODE \<noteq> 0"
    using assms(2) by (auto simp: scatter_def spread_def ti_defs)
  then show ?thesis
    using fits_room [OF assms(1)] emitted_one [OF assms(1), of "cb_2d T d src rows cols ds ss"] len
    by (auto simp: EmitStridedWith_def Let_def s cb_2d_def)
qed

text \<open>A loop whose \<open>i\<close>-th pass emits \<open>g i\<close>, \<open>k\<close> blocks each.\<close>

lemma for_each_emitted:
  assumes "fits s (length (concat (map g xs)) + n)"
    and "\<And>ys x zs s n. xs = ys @ x # zs \<Longrightarrow> fits s (length (g x) + n) \<Longrightarrow> pos s = p + 32 * length (concat (map g ys)) \<Longrightarrow>
      \<exists>s'. f x s = Some s' \<and> emitted s (g x) s'"
    and "pos s = p"
  shows "\<exists>s'. for_each f xs s = Some s' \<and> emitted s (concat (map g xs)) s'"
  using assms
proof (induction xs arbitrary: s p)
  case Nil
  then show ?case by simp
next
  case (Cons x xs)
  have "fits s (length (g x) + (length (concat (map g xs)) + n))" using Cons.prems(1) by (simp add: add.assoc)
  from Cons.prems(2) [OF _ this, of "[]" xs] Cons.prems(3)
  obtain s1 where s1: "f x s = Some s1" "emitted s (g x) s1" by auto
  have f1: "fits s1 (length (concat (map g xs)) + n)"
    by (rule fits_emitted [OF s1(2)]) (use Cons.prems(1) in \<open>simp add: add.assoc\<close>)
  have p1: "pos s1 = p + 32 * length (g x)" using s1(2) Cons.prems(3) by (simp add: emitted_def)
  have "\<exists>s'. for_each f xs s1 = Some s' \<and> emitted s1 (concat (map g xs)) s'"
  proof (rule Cons.IH [OF f1 _ p1])
    fix ys y zs s n
    assume "xs = ys @ y # zs" "fits s (length (g y) + n)" "pos s = p + 32 * length (g x) + 32 * length (concat (map g ys))"
    then show "\<exists>s'. f y s = Some s' \<and> emitted s (g y) s'"
      using Cons.prems(2) [of "x # ys" y zs s n] by simp
  qed
  then obtain s2 where "for_each f xs s1 = Some s2" "emitted s1 (concat (map g xs)) s2" by blast
  with s1 emitted_append [OF s1(2)] show ?case by auto
qed

text \<open>The same for a counting loop whose passes emit \<open>k\<close> blocks each.\<close>

lemma upt_split: "[a..<w] = ys @ x # zs \<Longrightarrow> x = a + length ys \<and> x < w"
proof -
  assume e: "[a..<w] = ys @ x # zs"
  then have l: "length ys < w - a" by (metis length_upt length_append length_Cons less_add_Suc1 add_Suc_right)
  have "[a..<w] ! length ys = x" unfolding e by simp
  with l show ?thesis by simp
qed

lemma length_concat_const: "(\<And>x. x \<in> set xs \<Longrightarrow> length (g x) = k) \<Longrightarrow> length (concat (map g xs)) = k * length xs"
  by (induction xs) simp_all

lemma for_upt_emitted:
  assumes "fits s (k * (w - a) + n)" "pos s = p" and g: "\<And>i. a \<le> i \<Longrightarrow> i < w \<Longrightarrow> length (g i) = k"
    and f: "\<And>i s n. a \<le> i \<Longrightarrow> i < w \<Longrightarrow> fits s (k + n) \<Longrightarrow> pos s = p + 32 * (k * (i - a)) \<Longrightarrow>
      \<exists>s'. f i s = Some s' \<and> emitted s (g i) s'"
  shows "\<exists>s'. for_each f [a..<w] s = Some s' \<and> emitted s (concat (map g [a..<w])) s' \<and> fits s' n"
proof -
  have l: "length (concat (map g [a..<w])) = k * (w - a)"
    using length_concat_const [of "[a..<w]" g k] g by simp
  have "\<exists>s'. for_each f [a..<w] s = Some s' \<and> emitted s (concat (map g [a..<w])) s'"
  proof (rule for_each_emitted [OF _ _ assms(2)])
    show "fits s (length (concat (map g [a..<w])) + n)" using assms(1) l by simp
    fix ys x zs s' n
    assume e: "[a..<w] = ys @ x # zs" and fs: "fits s' (length (g x) + n)"
      and p: "pos s' = p + 32 * length (concat (map g ys))"
    from upt_split [OF e] have x: "x = a + length ys" "x < w" by auto
    have "set ys \<subseteq> {a..<w}" by (metis e set_upt set_append sup_ge1)
    then have "length (concat (map g ys)) = k * (x - a)"
      using length_concat_const [of ys g k] g x(1) by (simp add: subset_iff)
    with f [of x s' n] fs p g [of x] x show "\<exists>s''. f x s' = Some s'' \<and> emitted s' (g x) s''" by simp
  qed
  then obtain s' where s': "for_each f [a..<w] s = Some s'" "emitted s (concat (map g [a..<w])) s'" by blast
  moreover have "fits s' n" by (rule fits_emitted [OF s'(2)]) (use assms(1) l in simp)
  ultimately show ?thesis by blast
qed

end
