(* ===== verification/Dma_Bitwise.thy ===== *)
theory Dma_Bitwise
  imports Dma_Arith Dma_Steps
begin

text \<open>
  Correctness of the bitwise operations: run by the engine, the emitted blocks leave the
  operation's value in the result, byte by byte, and touch nothing else but themselves.
\<close>

section \<open>Layouts\<close>

text \<open>Two byte ranges that do not meet.\<close>

definition away :: "nat \<Rightarrow> nat \<Rightarrow> nat \<Rightarrow> nat \<Rightarrow> bool" where
  "away x n y k \<longleftrightarrow> x + n \<le> y \<or> y + k \<le> x"

text \<open>A range of memory that \<open>n\<close> blocks emitted next do not overlap, and a table of 2^24 bytes.\<close>

definition clear :: "emit_st \<Rightarrow> nat \<Rightarrow> nat \<Rightarrow> nat \<Rightarrow> bool" where
  "clear s n x k \<longleftrightarrow> x + k \<le> 2 ^ 29 \<and> away x k (pos s) (32 * n)"

definition hyper_ok :: "dma_tables \<Rightarrow> bool" where
  "hyper_ok t \<longleftrightarrow> unat (HYPER t) mod 2 ^ 24 = 0 \<and> unat (HYPER t) + 2 ^ 24 \<le> 2 ^ 29"

text \<open>An entry of the big table: the byte at slot \<open>c\<close> of the block for two operand bytes.\<close>

definition hyper :: "dma_tables \<Rightarrow> u8 \<Rightarrow> u8 \<Rightarrow> nat \<Rightarrow> nat" where
  "hyper t x y c = unat (HYPER t) + (65536 * unat x + 256 * unat y + c)"

lemma u8_bound: "unat (x :: u8) < 256"
  using unsigned_less [of x, where 'a = nat] by simp

lemma hyper_bound: "hyper_ok t \<Longrightarrow> c < 256 \<Longrightarrow> unat (HYPER t) \<le> hyper t x y c \<and> hyper t x y c < unat (HYPER t) + 2 ^ 24"
  using u8_bound [of x] u8_bound [of y] by (simp add: hyper_def)

text \<open>Patching the low bytes of a source that points to the big table.\<close>

lemma hyper_patch:
  assumes t: "hyper_ok t" and s: "of_le32 [x0, x1, x2, x3] = busn (unat (HYPER t) + c)" and c: "c < 256"
  shows "unat x0 = c" "of_le32 [y0, y1, y2, x3] = busn (hyper t y2 y1 (unat y0))"
proof -
  obtain k where k: "unat (HYPER t) = 2 ^ 24 * k" using t by (auto simp: hyper_ok_def mod_eq_0_iff_dvd elim: dvdE)
  have h: "unat (HYPER t) + c < 2 ^ 29" using t c by (simp add: hyper_ok_def)
  have sum: "unat x0 + 256 * unat x1 + 65536 * unat x2 + 16777216 * unat x3 = 16777216 * (k + 64) + c"
    using arg_cong [OF s, of unat] by (simp only: unat_of_le32 unat_busn [OF h]) (simp add: k)
  have low: "unat x0 + 256 * unat x1 + 65536 * unat x2 < 16777216"
    using u8_bound [of x0] u8_bound [of x1] u8_bound [of x2] by simp
  have "(unat x0 + 256 * unat x1 + 65536 * unat x2 + 16777216 * unat x3) div 16777216 = unat x3"
    using low by simp
  moreover have "(16777216 * (k + 64) + c) div 16777216 = k + 64" using c by simp
  ultimately have x3: "unat x3 = k + 64" using sum by simp
  with sum have "unat x0 + 256 * unat x1 + 65536 * unat x2 = c" by simp
  then show "unat x0 = c" using c u8_bound [of x0] by (cases "unat x1"; cases "unat x2") auto
  have hb: "hyper t y2 y1 (unat y0) < 2 ^ 29"
    using hyper_bound [OF t u8_bound [of y0], of y2 y1] t by (simp add: hyper_ok_def)
  have "unat (of_le32 [y0, y1, y2, x3]) = unat (busn (hyper t y2 y1 (unat y0)))"
    unfolding unat_of_le32 unat_busn [OF hb] x3 by (simp add: hyper_def k)
  then show "of_le32 [y0, y1, y2, x3] = busn (hyper t y2 y1 (unat y0))" by (simp only: word_unat_eq_iff)
qed

section \<open>Scatters over sources\<close>

lemma mem_scatter_at: "i < w \<Longrightarrow> 0 < D \<Longrightarrow> x = d + D * i \<Longrightarrow> mem_scatter d D s e 1 w m x = m (s + i * e)"
  by (simp add: mem_scatter_def)

lemma mem_scatter_other:
  assumes "\<And>i. i < w \<Longrightarrow> x \<noteq> d + D * i"
  shows "mem_scatter d D s e 1 w m x = m x"
proof -
  have "\<not> (d \<le> x \<and> (x - d) mod D < 1 \<and> (x - d) div D < w)"
  proof
    assume a: "d \<le> x \<and> (x - d) mod D < 1 \<and> (x - d) div D < w"
    then have "x - d = D * ((x - d) div D)" by (metis less_one mult_div_mod_eq add.right_neutral)
    with a have "x = d + D * ((x - d) div D)" by linarith
    with assms [of "(x - d) div D"] a show False by blast
  qed
  then show ?thesis by (auto simp: mem_scatter_def)
qed

text \<open>Fields of blocks that are not the patched byte keep their value.\<close>

lemma mod_32_add: "q < 32 \<Longrightarrow> (b + q) mod 32 = (if b mod 32 + q < 32 then b mod 32 + q else b mod 32 + q - 32)" for b q :: nat
  by (subst mod_add_left_eq [symmetric]) (simp add: mod_if [of "b mod 32 + q"])

lemma mem_scatter_field:
  assumes "D = 32 \<or> D = 64" "q < 32" "k < 32" "q \<noteq> k" "b mod 32 = b' mod 32"
  shows "mem_scatter (b + k) D s e 1 w m (b' + q) = m (b' + q)"
proof (rule mem_scatter_other)
  fix i
  have "(b' + q) mod 32 = (b + q) mod 32" using assms(5) by (metis mod_add_left_eq)
  moreover have "D * i mod 32 = 0" using assms(1) by auto
  then have "(b + k + D * i) mod 32 = (b + k) mod 32" by (metis add.right_neutral mod_add_right_eq)
  moreover have "(b + q) mod 32 \<noteq> (b + k) mod 32" using assms(2-4) by (auto simp: mod_32_add)
  ultimately show "b' + q \<noteq> b + k + D * i" by metis
qed

text \<open>Scattering over sources keeps the shape of every block.\<close>

lemma shape_scatter:
  assumes "shape m a cb" "D = 32 \<or> D = 64" "k < 4" "d = b + (4 + k)" "b mod 32 = a mod 32"
  shows "shape (mem_scatter d D s 1 1 w m) a cb"
proof (rule shape_cong [OF assms(1)])
  fix x assume x: "a \<le> x" "x < a + 24" "\<not> (a + 4 \<le> x \<and> x < a + 8)"
  then obtain q where q: "x = a + q" by (metis le_Suc_ex)
  with x have "q < 32" "q \<noteq> 4 + k" using assms(3) by auto
  then show "mem_scatter d D s 1 1 w m x = m x"
    unfolding q assms(4) using assms(2,3,5) by (intro mem_scatter_field) auto
qed

section \<open>Addresses in emitted programs\<close>

lemma Label_fits: "fits s n \<Longrightarrow> Label s = Some (busn (pos s))"
  using bus_busn [of "ec_p (fst s)"] by (simp add: Label_def fits_def pos_def)

lemma rel_fld_src:
  "p < 2 ^ 29 \<Longrightarrow> p mod 32 = 0 \<Longrightarrow> j < 4 \<Longrightarrow>
   bus_rel_fld (busn p) (of_nat q) FLD_SRC (of_nat j) = Some (busn (p + 32 * q + 4 + j))"
proof -
  assume p: "p < 2 ^ 29" "p mod 32 = 0" and j: "j < 4"
  then have "(of_nat j :: u32) < 4" by (simp add: word_less_nat_alt unat_of_nat)
  moreover have "busn p + (of_nat q * 32 + 4 + of_nat j) = busn (p + 32 * q + 4 + j)"
    by (simp add: busn_def algebra_simps)
  ultimately show ?thesis using busn_mod_32 [OF p] by (simp add: bus_rel_fld_def bus_add_def)
qed

lemma bus_off_hyper:
  assumes "hyper_ok t" "c < 2 ^ 24"
  shows "bus_off (HYPER t) (of_nat c) = Some (busn (unat (HYPER t) + c))" "bus (HYPER t) = Some (busn (unat (HYPER t)))"
proof -
  have "unat (HYPER t + of_nat c) = unat (HYPER t) + c"
    using assms by (simp add: hyper_ok_def unat_word_ariths unat_of_nat)
  moreover have "unat (HYPER t) + c < 2 ^ 29" using assms by (simp add: hyper_ok_def)
  ultimately show "bus_off (HYPER t) (of_nat c) = Some (busn (unat (HYPER t) + c))"
    using bus_busn [of "HYPER t + of_nat c"] by (simp add: bus_off_def bus_def)
  show "bus (HYPER t) = Some (busn (unat (HYPER t)))"
    using assms bus_busn [of "HYPER t"] by (simp add: hyper_ok_def)
qed

lemma bus_add_busn: "bus_add (busn r) (of_nat i) = busn (r + i)"
  by (simp add: bus_add_def)

section \<open>The programs of And, Or and Xor\<close>

definition hyper_prog :: "dma_tables \<Rightarrow> nat \<Rightarrow> nat \<Rightarrow> nat \<Rightarrow> nat \<Rightarrow> nat \<Rightarrow> nat \<Rightarrow> cblk list" where
  "hyper_prog t c p w r a b =
     [cb_2d scatter (busn (p + 69)) (busn a) w 1 31 0, cb_2d scatter (busn (p + 70)) (busn b) w 1 31 0] @
     concat (map (\<lambda>i. [linear_cb (busn (r + i)) (busn (unat (HYPER t) + c)) 1]) [0..<w])"

lemma length_singletons [simp]: "length (concat (map (\<lambda>i. [f i]) xs)) = length xs"
  by (induction xs) simp_all

definition hyper_op :: "nat \<Rightarrow> dma_tables \<Rightarrow> nat \<Rightarrow> busad \<Rightarrow> busad \<Rightarrow> busad \<Rightarrow> emit_st \<Rightarrow> emit_st option" where
  "hyper_op c t width ret lhs rhs s = do {
     l0 \<leftarrow> Label s;
     d \<leftarrow> bus_rel_fld l0 2 FLD_SRC 1;
     s \<leftarrow> EmitStrided d lhs (of_nat width) 1 31 0 s;
     d \<leftarrow> bus_rel_fld l0 2 FLD_SRC 2;
     s \<leftarrow> EmitStrided d rhs (of_nat width) 1 31 0 s;
     for_each (\<lambda>i s. do {
       src \<leftarrow> bus_off (HYPER t) (of_nat c);
       Emit (bus_add ret (of_nat i)) src 1 s
     }) [0..<width] s
   }"

lemma hyper_ops: "And = hyper_op HYPER_AND" "Or = hyper_op HYPER_OR" "Xor = hyper_op HYPER_XOR"
  by (intro ext, simp add: And_def Or_def Xor_def hyper_op_def)+

text \<open>Both scatters at the head of an operation.\<close>

lemma EmitStrided_emitted:
  assumes "fits s (Suc n)" "0 < w" "w \<le> 2 ^ 14" "cols < 2 ^ 16"
  shows "\<exists>s'. EmitStrided d src (of_nat w) (of_nat cols) ds ss s = Some s' \<and>
    emitted s [cb_2d scatter d src w cols ds ss] s' \<and> fits s' n \<and> pos s' = pos s + 32"
proof -
  from EmitStridedWith_emitted [OF assms(1) _ assms(2-4), of scatter d src ds ss] obtain s' where
    "EmitStrided d src (of_nat w) (of_nat cols) ds ss s = Some s'" and e: "emitted s [cb_2d scatter d src w cols ds ss] s'"
    unfolding EmitStrided_def scatter_def by blast
  moreover have "fits s' n" by (rule fits_emitted [OF e]) (use assms(1) in simp)
  moreover have "pos s' = pos s + 32" using e by (simp add: emitted_def)
  ultimately show ?thesis by blast
qed

lemmas EmitStrided_1 = EmitStrided_emitted [where cols = 1, unfolded of_nat_1]

lemma hyper_op_emitted:
  assumes f: "fits s (w + 2)" and w: "0 < w" "w \<le> 2 ^ 14" and t: "hyper_ok t" and c: "c < 256"
  shows "\<exists>s'. hyper_op c t w (busn r) (busn a) (busn b) s = Some s' \<and> emitted s (hyper_prog t c (pos s) w r a b) s'"
proof -
  have p: "pos s < 2 ^ 29" "pos s mod 32 = 0" using f by (simp_all add: fits_def)
  have l: "bus_rel_fld (busn (pos s)) 2 FLD_SRC 1 = Some (busn (pos s + 69))"
    "bus_rel_fld (busn (pos s)) 2 FLD_SRC 2 = Some (busn (pos s + 70))"
    using rel_fld_src [OF p, of 1 2] rel_fld_src [OF p, of 2 2] by (simp_all add: ac_simps)
  have "fits s (Suc (Suc w))" using f by simp
  from EmitStrided_1 [OF this w] obtain s1 where
    s1: "EmitStrided (busn (pos s + 69)) (busn a) (of_nat w) 1 31 0 s = Some s1"
      "emitted s [cb_2d scatter (busn (pos s + 69)) (busn a) w 1 31 0] s1" "fits s1 (Suc w)"
    by fastforce
  from EmitStrided_1 [OF s1(3) w] obtain s2 where
    s2: "EmitStrided (busn (pos s + 70)) (busn b) (of_nat w) 1 31 0 s1 = Some s2"
      "emitted s1 [cb_2d scatter (busn (pos s + 70)) (busn b) w 1 31 0] s2" "fits s2 w"
    by fastforce
  have "\<exists>s'. for_each (\<lambda>i s. do { src \<leftarrow> bus_off (HYPER t) (of_nat c); Emit (bus_add (busn r) (of_nat i)) src 1 s }) [0..<w] s2 = Some s' \<and>
      emitted s2 (concat (map (\<lambda>i. [linear_cb (busn (r + i)) (busn (unat (HYPER t) + c)) 1]) [0..<w])) s'"
  proof (rule for_each_emitted [where n = 0])
    fix ys x zs s n
    assume "fits s (length [linear_cb (busn (r + x)) (busn (unat (HYPER t) + c)) 1] + n)"
    then have "fits s (Suc n)" by simp
    from Emit_emitted [OF this, of "busn (r + x)" "busn (unat (HYPER t) + c)" 1] bus_off_hyper [OF t, of c] c
    show "\<exists>s'. bus_off (HYPER t) (of_nat c) \<bind> (\<lambda>src. Emit (bus_add (busn r) (of_nat x)) src 1 s) = Some s' \<and>
        emitted s [linear_cb (busn (r + x)) (busn (unat (HYPER t) + c)) 1] s'"
      by (simp add: bus_add_busn)
  qed (use s2(3) in simp_all)
  then obtain s3 where s3: "for_each (\<lambda>i s. do { src \<leftarrow> bus_off (HYPER t) (of_nat c); Emit (bus_add (busn r) (of_nat i)) src 1 s }) [0..<w] s2 = Some s3"
      "emitted s2 (concat (map (\<lambda>i. [linear_cb (busn (r + i)) (busn (unat (HYPER t) + c)) 1]) [0..<w])) s3" by blast
  have "hyper_op c t w (busn r) (busn a) (busn b) s = Some s3"
    using Label_fits [OF f] by (simp add: hyper_op_def l s1(1) s2(1) s3(1))
  moreover have "emitted s (hyper_prog t c (pos s) w r a b) s3"
    using emitted_append [OF s1(2) emitted_append [OF s2(2) s3(2)]] by (simp add: hyper_prog_def)
  ultimately show ?thesis by blast
qed

section \<open>Running them\<close>

lemma emitted_nth: "emitted s cbs s' \<Longrightarrow> k < length cbs \<Longrightarrow>
  fetch_cb (snd s') (pos s + 32 * k) = (cbs ! k)\<lparr>next_cb := busn (pos s + 32 * k + 32)\<rparr>"
  by (simp add: emitted_def)

lemma nth_singletons: "i < w \<Longrightarrow> concat (map (\<lambda>i. [f i]) [0..<w]) ! i = f i"
proof -
  have "concat (map (\<lambda>i. [f i]) xs) = map f xs" for xs :: "nat list" by (induction xs) simp_all
  then show "i < w \<Longrightarrow> concat (map (\<lambda>i. [f i]) [0..<w]) ! i = f i" by simp
qed

text \<open>The step of a block that scatters \<open>w\<close> bytes over fields \<open>D\<close> bytes apart.\<close>

lemma step_patch:
  assumes hw: "dma_engine hw" and a: "a < 2 ^ 29" "a mod 32 = 0"
    and cb: "fetch_cb m a = (cb_2d scatter (busn d) (busn x) w 1 (of_nat (D - 1)) 0)\<lparr>next_cb := nx\<rparr>"
    and w: "0 < w" "w \<le> 2 ^ 14" and D: "0 < D" "D \<le> 64" "d + (w - 1) * D < 2 ^ 29" "x + w \<le> 2 ^ 29"
    and dis: "x + w \<le> d \<or> d + (w - 1) * D < x"
  shows "hw (busn a) m = (nx, mem_scatter d D x 1 1 w m)"
proof (rule step_scatter [OF hw a])
  show "fetch_cb m a = \<lparr>ti = scatter, src_addr = busn x, dst_addr = busn d, txfr_len = len2d w 1,
      stride = cb_stride (of_nat (D - 1)) 0, next_cb = nx\<rparr>"
    using cb by (simp add: cb_2d_def)
  have "unat (of_nat (D - 1) :: u16) = D - 1" using D(2) by (intro unat_of_nat_16) simp
  moreover have "D - 1 < 2 ^ 15" using D(2) by simp
  ultimately have "sint (of_nat (D - 1) :: u16) = int (D - 1)"
    by (simp add: sint_uint signed_take_bit_int_eq_self uint_nat)
  then have "scast (of_nat (D - 1) :: u16) = (of_int (int (D - 1)) :: u32)"
    by (metis of_int_sint)
  then show "scast (of_nat (D - 1) :: u16) = (of_nat D - of_nat 1 :: u32)"
    using D(1) by (simp add: of_nat_diff)
  show "x + (w - 1) * 1 + 1 \<le> d \<or> d + (w - 1) * D + 1 \<le> x" using dis w(1) by auto
qed (use assms in \<open>auto simp: scatter_def\<close>)

text \<open>
  The same for a scatter at offset \<open>k\<close> of the program over fields of the blocks that follow, when
  the bytes scattered lie outside the program.
\<close>

lemma step_patch_clear:
  assumes hw: "dma_engine hw" and f: "fits s n" and x: "clear s n x w" and j: "j < n"
    and cb: "fetch_cb m (pos s + 32 * j) =
      (cb_2d scatter (busn (pos s + k)) (busn x) w 1 (of_nat (D - 1)) 0)\<lparr>next_cb := nx\<rparr>"
    and w: "0 < w" "w \<le> 2 ^ 14" and D: "0 < D" "D \<le> 64" "k + (w - 1) * D < 32 * n"
  shows "hw (busn (pos s + 32 * j)) m = (nx, mem_scatter (pos s + k) D x 1 1 w m)"
proof (rule step_patch [OF hw _ _ cb w D(1,2)])
  have p: "pos s mod 32 = 0" "pos s + 32 * n < 2 ^ 29" using f by (simp_all add: fits_def)
  then show "(pos s + 32 * j) mod 32 = 0" by simp
  have "32 * j < 32 * n" using j by simp
  then show "pos s + 32 * j < 2 ^ 29" using p(2) by linarith
  show "pos s + k + (w - 1) * D < 2 ^ 29" using D(3) p(2) by linarith
  show "x + w \<le> 2 ^ 29" using x by (simp add: clear_def)
  show "x + w \<le> pos s + k \<or> pos s + k + (w - 1) * D < x" using x D(3) unfolding clear_def away_def by linarith
qed

lemma step_patch_at:
  assumes "dma_engine hw" "fits s n" "clear s n x w" "j < n"
    and "fetch_cb m (pos s + 32 * j) = (cb_2d scatter (busn (pos s + k)) (busn x) w 1 ds 0)\<lparr>next_cb := nx\<rparr>"
    and w: "0 < w" "w \<le> 2 ^ 14" and D: "D = 32 \<and> ds = 31 \<or> D = 64 \<and> ds = 63" "k + D * w < 32 * n + D"
  shows "hw (busn (pos s + 32 * j)) m = (nx, mem_scatter (pos s + k) D x 1 1 w m)"
proof (rule step_patch_clear [OF assms(1-4) _ w])
  show "fetch_cb m (pos s + 32 * j) = (cb_2d scatter (busn (pos s + k)) (busn x) w 1 (of_nat (D - 1)) 0)\<lparr>next_cb := nx\<rparr>"
    using assms(5) D(1) by auto
  show "k + (w - 1) * D < 32 * n" using w(1) D by (cases w) auto
qed (use D in auto)

section \<open>Patched operands\<close>

text \<open>
  The head of every binary operation scatters the operands over the sources of the blocks from 64 on, \<open>D\<close> bytes apart.
\<close>

definition patched :: "emit_st \<Rightarrow> nat \<Rightarrow> nat \<Rightarrow> nat \<Rightarrow> nat \<Rightarrow> mem \<Rightarrow> mem \<Rightarrow> bool" where
  "patched s w D x y m0 m \<longleftrightarrow>
     (\<forall>i < w. m (pos s + 69 + D * i) = snd s (x + i) \<and> m (pos s + 70 + D * i) = snd s (y + i)) \<and>
     (\<forall>z. (\<forall>i < w. z \<noteq> pos s + 69 + D * i \<and> z \<noteq> pos s + 70 + D * i) \<longrightarrow> m z = m0 z)"

lemma patchedD:
  assumes "patched s w D x y m0 m"
  shows "i < w \<Longrightarrow> m (pos s + 69 + D * i) = snd s (x + i)" "i < w \<Longrightarrow> m (pos s + 70 + D * i) = snd s (y + i)"
    "(\<And>i. i < w \<Longrightarrow> z \<noteq> pos s + 69 + D * i \<and> z \<noteq> pos s + 70 + D * i) \<Longrightarrow> m z = m0 z"
  using assms unfolding patched_def by blast+

lemma off_D: "D = 32 \<or> D = 64 \<Longrightarrow> u < D \<Longrightarrow> k < D \<Longrightarrow> u \<noteq> k \<Longrightarrow> p + D * i + u \<noteq> p + D * j + k" for u k p i j D :: nat
proof
  assume u: "u < D" "k < D" "u \<noteq> k" and "p + D * i + u = p + D * j + k"
  then have "(u + D * i) mod D = (k + D * j) mod D" by (simp add: ac_simps)
  with u show False by simp
qed

lemma scatters_patched:
  assumes D: "D = 32 \<or> D = 64" "70 + D * w < 32 * n + D" and ops: "clear s n x w" "clear s n y w"
    and same: "\<And>z. z < pos s \<or> pos s + 32 * n \<le> z \<Longrightarrow> m0 z = snd s z"
  shows "patched s w D x y m0 (mem_scatter (pos s + 70) D y 1 1 w (mem_scatter (pos s + 69) D x 1 1 w m0))"
proof -
  let ?p = "pos s" let ?m1 = "mem_scatter (?p + 69) D x 1 1 w m0" let ?m2 = "mem_scatter (?p + 70) D y 1 1 w ?m1"
  have D0: "0 < D" using D(1) by auto
  have ne: "?p + 69 + D * i \<noteq> ?p + 70 + D * j" for i j using off_D [OF D(1), of 5 6 "?p + 64" i j] D(1) by (auto simp: ac_simps)
  have at: "?m2 (?p + 69 + D * i) = snd s (x + i) \<and> ?m2 (?p + 70 + D * i) = snd s (y + i)" if "i < w" for i
  proof
    have "?m2 (?p + 69 + D * i) = ?m1 (?p + 69 + D * i)" by (intro mem_scatter_other ne)
    also have "\<dots> = m0 (x + i * 1)" by (rule mem_scatter_at [OF that D0 refl])
    also have "\<dots> = snd s (x + i)" using ops(1) that by (simp, intro same) (auto simp: clear_def away_def)
    finally show "?m2 (?p + 69 + D * i) = snd s (x + i)" .
    have "?m2 (?p + 70 + D * i) = ?m1 (y + i * 1)" by (rule mem_scatter_at [OF that D0 refl])
    also have "\<dots> = m0 (y + i)"
    proof (simp only: mult_1_right, rule mem_scatter_other)
      fix j assume "j < w"
      then have "D * j + D \<le> D * w" by (metis Suc_leI mult_Suc_right mult_le_mono2 add.commute)
      then have "69 + D * j < 32 * n" using D(2) by linarith
      then show "y + i \<noteq> ?p + 69 + D * j" using ops(2) that by (auto simp: clear_def away_def)
    qed
    also have "\<dots> = snd s (y + i)" using ops(2) that by (intro same) (auto simp: clear_def away_def)
    finally show "?m2 (?p + 70 + D * i) = snd s (y + i)" .
  qed
  have "?m2 z = m0 z" if "\<And>i. i < w \<Longrightarrow> z \<noteq> ?p + 69 + D * i \<and> z \<noteq> ?p + 70 + D * i" for z
    using mem_scatter_other [of w z "?p + 70" D y 1 ?m1] mem_scatter_other [of w z "?p + 69" D x 1 m0] that by simp
  with at show ?thesis unfolding patched_def by blast
qed

text \<open>What the patches leave of a block \<open>cb\<close> at \<open>64 + D * i\<close> whose source points to slot \<open>c\<close> of the big table.\<close>

lemma patched_keep:
  assumes "patched s w D x y m0 m" "D = 32 \<or> D = 64" "u < D" "u \<noteq> 5" "u \<noteq> 6"
  shows "m (pos s + 64 + D * i + u) = m0 (pos s + 64 + D * i + u)"
proof (rule patchedD(3) [OF assms(1)])
  fix j
  show "pos s + 64 + D * i + u \<noteq> pos s + 69 + D * j \<and> pos s + 64 + D * i + u \<noteq> pos s + 70 + D * j"
    using off_D [OF assms(2,3) _ assms(4), of "pos s + 64" i j] off_D [OF assms(2,3) _ assms(5), of "pos s + 64" i j] assms(2)
    by (auto simp: ac_simps)
qed

lemma patched_shape:
  assumes "patched s w D x y m0 m" "D = 32 \<or> D = 64" "fetch_cb m0 (pos s + 64 + D * i) = cb"
  shows "shape m (pos s + 64 + D * i) cb"
proof (rule shape_cong [OF fetch_shape [OF assms(3)]])
  let ?q = "pos s + 64 + D * i"
  fix z assume z: "?q \<le> z" "z < ?q + 24" "\<not> (?q + 4 \<le> z \<and> z < ?q + 8)"
  then obtain u where u: "z = ?q + u" by (metis le_Suc_ex)
  with z assms(2) have "u < D" "u \<noteq> 5" "u \<noteq> 6" by auto
  from patched_keep [OF assms(1,2) this] show "m z = m0 z" by (simp add: u)
qed

lemma fetch_bytes: "fetch_cb m a = cb \<Longrightarrow> of_le32 [m (a + 4), m (a + 5), m (a + 6), m (a + 7)] = src_addr cb"
  by (auto simp: fetch_cb_def load32_bytes ac_simps)

lemma patched_src:
  assumes "patched s w D x y m0 m" "D = 32 \<or> D = 64" "hyper_ok t" "c < 256" "i < w"
    and "fetch_cb m0 (pos s + 64 + D * i) = cb" "src_addr cb = busn (unat (HYPER t) + c)"
  shows "of_le32 [z, m (pos s + 64 + D * i + 5), m (pos s + 64 + D * i + 6), m (pos s + 64 + D * i + 7)] =
      busn (hyper t (snd s (y + i)) (snd s (x + i)) (unat z))"
    "m (pos s + 64 + D * i + 4) = of_nat c"
proof -
  let ?q = "pos s + 64 + D * i"
  have o: "of_le32 [m0 (?q + 4), m0 (?q + 5), m0 (?q + 6), m0 (?q + 7)] = busn (unat (HYPER t) + c)"
    using fetch_bytes [OF assms(6)] assms(7) by simp
  note k = patched_keep [OF assms(1,2), of 4 i] patched_keep [OF assms(1,2), of 7 i]
  show "of_le32 [z, m (?q + 5), m (?q + 6), m (?q + 7)] = busn (hyper t (snd s (y + i)) (snd s (x + i)) (unat z))"
    using hyper_patch(2) [OF assms(3) o assms(4)] patchedD(1,2) [OF assms(1,5)] k assms(2) by (auto simp: ac_simps)
  have "unat (m0 (?q + 4)) = c" by (rule hyper_patch(1) [OF assms(3) o assms(4)])
  then have "m0 (?q + 4) = of_nat c" by (metis of_nat_unat ucast_id)
  then show "m (?q + 4) = of_nat c" using k assms(2) by auto
qed

text \<open>Outside of a program of \<open>n\<close> blocks the memory is that of the emitter, the big table among it.\<close>

lemma patched_out:
  assumes "patched s w D x y m0 m" "70 + D * w < 32 * n + D" "m0 z = snd s z" "z < pos s \<or> pos s + 32 * n \<le> z"
  shows "m z = snd s z"
proof -
  have "m z = m0 z"
  proof (rule patchedD(3) [OF assms(1)])
    fix i assume "i < w"
    then have "D * i + D \<le> D * w" by (metis Suc_leI mult_Suc_right mult_le_mono2 add.commute)
    then show "z \<noteq> pos s + 69 + D * i \<and> z \<noteq> pos s + 70 + D * i" using assms(2,4) by auto
  qed
  with assms(3) show ?thesis by simp
qed

lemma hyper_clear:
  assumes "hyper_ok t" "clear s n (unat (HYPER t)) (2 ^ 24)" "c + k < 256"
  shows "hyper t a b c + k < pos s \<or> pos s + 32 * n \<le> hyper t a b c + k"
  using u8_bound [of a] u8_bound [of b] assms by (auto simp: clear_def away_def hyper_def)

lemma head_run:
  assumes hw: "dma_engine hw" and f: "fits s n" and w: "0 < w" "w \<le> 2 ^ 14"
    and ops: "clear s n x w" "clear s n y w"
    and D: "D = 32 \<and> ds = 31 \<or> D = 64 \<and> ds = 63" "70 + D * w < 32 * n + D"
    and e: "emitted s cbs s'" "length cbs = n"
    and c: "cbs ! 0 = cb_2d scatter (busn (pos s + 69)) (busn x) w 1 ds 0"
      "cbs ! 1 = cb_2d scatter (busn (pos s + 70)) (busn y) w 1 ds 0"
  obtains m where "dma_run hw 2 (busn (pos s), snd s') = (busn (pos s + 64), m)" "patched s w D x y (snd s') m"
    "\<And>z. z < pos s \<or> pos s + 32 * n \<le> z \<Longrightarrow> m z = snd s z"
proof -
  let ?p = "pos s" and ?m = "snd s'"
  let ?m1 = "mem_scatter (?p + 69) D x 1 1 w ?m"
  let ?m2 = "mem_scatter (?p + 70) D y 1 1 w ?m1"
  have D': "D = 32 \<or> D = 64" and n2: "2 < n" and D69: "69 + D * w < 32 * n + D" using D w(1) by (auto split: if_splits)
  have p': "pos s' = ?p + 32 * n" using e by (simp add: emitted_def)
  have same: "?m z = snd s z" if "z < ?p \<or> ?p + 32 * n \<le> z" for z
    using e(1) that unfolding emitted_def p' [symmetric] by blast
  have c0: "fetch_cb ?m (?p + 32 * 0) = (cb_2d scatter (busn (?p + 69)) (busn x) w 1 ds 0)\<lparr>next_cb := busn (?p + 32)\<rparr>"
    using emitted_nth [OF e(1), of 0] c(1) n2 e(2) by simp
  have step0: "hw (busn (?p + 32 * 0)) ?m = (busn (?p + 32), ?m1)"
    by (rule step_patch_at [OF hw f ops(1) _ c0 w D(1) D69]) (use n2 in simp)
  have "fetch_cb ?m1 (?p + 32 * 1) = fetch_cb ?m (?p + 32 * 1)"
    by (rule fetch_cong, rule mem_scatter_other) auto
  then have c1: "fetch_cb ?m1 (?p + 32 * 1) = (cb_2d scatter (busn (?p + 70)) (busn y) w 1 ds 0)\<lparr>next_cb := busn (?p + 64)\<rparr>"
    using emitted_nth [OF e(1), of 1] c(2) n2 e(2) by (simp add: ac_simps)
  have step1: "hw (busn (?p + 32 * 1)) ?m1 = (busn (?p + 64), ?m2)"
    by (rule step_patch_at [OF hw f ops(2) _ c1 w D]) (use n2 in simp)
  have "dma_run hw 2 (busn ?p, ?m) = (busn (?p + 64), ?m2)"
    using step0 step1 by (simp add: numeral_2_eq_2 dma_run_Suc)
  moreover have pt: "patched s w D x y ?m ?m2" by (rule scatters_patched [OF D' D(2) ops same])
  moreover have "?m2 z = snd s z" if "z < ?p \<or> ?p + 32 * n \<le> z" for z
    by (rule patched_out [OF pt D(2) same [OF that] that])
  ultimately show thesis by (rule that)
qed

section \<open>Rows of independent lookups\<close>

lemma hyper_prog_run:
  assumes hw: "dma_engine hw" and f: "fits s (w + 2)" and w: "0 < w" "w \<le> 2 ^ 14"
    and t: "hyper_ok t" "clear s (w + 2) (unat (HYPER t)) (2 ^ 24)" and c: "c < 256"
    and ops: "clear s (w + 2) a w" "clear s (w + 2) b w" "clear s (w + 2) r w" "away r w (unat (HYPER t)) (2 ^ 24)"
    and e: "emitted s (hyper_prog t c (pos s) w r a b) s'"
  shows "\<exists>m'. dma_run hw (w + 2) (busn (pos s), snd s') = (busn (pos s'), m') \<and>
    (\<forall>i < w. m' (r + i) = snd s (hyper t (snd s (b + i)) (snd s (a + i)) c)) \<and>
    (\<forall>x. \<not> (r \<le> x \<and> x < r + w) \<and> (x < pos s \<or> pos s' \<le> x) \<longrightarrow> m' x = snd s x)"
proof -
  let ?p = "pos s" and ?b = "pos s + 64"
  let ?s = "\<lambda>i. hyper t (snd s (b + i)) (snd s (a + i)) c"
  let ?lk = "\<lambda>i. lookup_cb (?b + 32 * i) (r + i) (unat (HYPER t) + c) 1"
  have p: "?p mod 32 = 0" "?p + 32 * (w + 2) < 2 ^ 29" using f by (simp_all add: fits_def)
  have len: "length (hyper_prog t c ?p w r a b) = w + 2" by (simp add: hyper_prog_def)
  then have p': "pos s' = ?p + 32 * (w + 2)" using e by (simp add: emitted_def)
  have cbs: "hyper_prog t c ?p w r a b ! 0 = cb_2d scatter (busn (?p + 69)) (busn a) w 1 31 0"
    "hyper_prog t c ?p w r a b ! 1 = cb_2d scatter (busn (?p + 70)) (busn b) w 1 31 0"
    by (simp_all add: hyper_prog_def)
  from head_run [OF hw f w ops(1,2) _ _ e len cbs, of 32] obtain m where
    head: "dma_run hw 2 (busn ?p, snd s') = (busn ?b, m)" and pt: "patched s w 32 a b (snd s') m"
    and out: "\<And>z. z < ?p \<or> ?p + 32 * (w + 2) \<le> z \<Longrightarrow> m z = snd s z" by auto
  have lk: "fetch_cb (snd s') (?b + 32 * i) = ?lk i" if "i < w" for i
  proof -
    have "hyper_prog t c ?p w r a b ! (i + 2) = linear_cb (busn (r + i)) (busn (unat (HYPER t) + c)) 1"
      using that by (simp add: hyper_prog_def nth_singletons)
    then show ?thesis using emitted_nth [OF e, unfolded len, of "i + 2"] that
      by (simp add: linear_cb_def lookup_cb_def algebra_simps)
  qed
  have src: "load32 m (?b + 32 * i + 4) = busn (?s i)" if "i < w" for i
    using patched_src(1) [OF pt _ t(1) c that lk [OF that], of "of_nat c"] patched_src(2) [OF pt _ t(1) c that lk [OF that]] c
    by (simp add: lookup_cb_def load32_bytes ac_simps unat_of_nat)
  have hb: "unat (HYPER t) \<le> ?s i \<and> ?s i < unat (HYPER t) + 2 ^ 24" for i by (rule hyper_bound [OF t(1) c])
  let ?m' = "\<lambda>x. if r \<le> x \<and> x < r + w then m (?s (x - r)) else m x"
  have run: "dma_run hw w (busn ?b, m) = (busn (?b + 32 * w), ?m')"
  proof (rule lookups [OF hw, where ?s0.0 = "unat (HYPER t) + c"])
    show "shape m (?b + 32 * i) (?lk i)" if "i < w" for i by (rule patched_shape [OF pt _ lk [OF that]]) simp
    show "?s i < 2 ^ 29" "?s i < r \<or> r + w \<le> ?s i" for i
      using hb [of i] t(1) ops(4) by (auto simp: hyper_ok_def away_def)
  qed (use p src ops(3) in \<open>auto simp: clear_def away_def\<close>)
  have w2: "w + 2 = 2 + w" "?b + 32 * w = pos s'" by (simp_all add: p')
  have "dma_run hw (w + 2) (busn ?p, snd s') = (busn (pos s'), ?m')"
    unfolding w2(1) dma_run_add head run w2(2) ..
  moreover have "m (?s i) = snd s (?s i)" for i
    using out hyper_clear [OF t, of c 0] c by simp
  ultimately show ?thesis using out p' by (intro exI [of _ ?m']) simp
qed

lemma hyper_op_correct:
  assumes hw: "dma_engine hw" and f: "fits s (w + 2)" and w: "0 < w" "w \<le> 2 ^ 14"
    and t: "hyper_ok t" "clear s (w + 2) (unat (HYPER t)) (2 ^ 24)" and c: "c < 256"
    and ops: "clear s (w + 2) a w" "clear s (w + 2) b w" "clear s (w + 2) r w" "away r w (unat (HYPER t)) (2 ^ 24)"
  shows "\<exists>s' m'. hyper_op c t w (busn r) (busn a) (busn b) s = Some s' \<and> pos s' = pos s + 32 * (w + 2) \<and>
    dma_run hw (w + 2) (busn (pos s), snd s') = (busn (pos s'), m') \<and>
    (\<forall>i < w. m' (r + i) = snd s (hyper t (snd s (b + i)) (snd s (a + i)) c)) \<and>
    (\<forall>x. \<not> (r \<le> x \<and> x < r + w) \<and> (x < pos s \<or> pos s' \<le> x) \<longrightarrow> m' x = snd s x)"
proof -
  from hyper_op_emitted [OF f w t(1) c] obtain s' where
    s': "hyper_op c t w (busn r) (busn a) (busn b) s = Some s'" "emitted s (hyper_prog t c (pos s) w r a b) s'" by blast
  then have "pos s' = pos s + 32 * (w + 2)" by (simp add: emitted_def hyper_prog_def)
  with s'(1) hyper_prog_run [OF assms s'(2)] show ?thesis by blast
qed

end
