(* ===== verification/Dma_Tables.thy ===== *)
theory Dma_Tables
  imports Dma_Bitwise
begin

text \<open>
  The contents of the tables after initialization, as functions of the operand bytes. A memory in
  which all stores of an initializer hold is one in which the initializer has run and nothing has
  overwritten its table.
\<close>

definition stored :: "stores \<Rightarrow> mem \<Rightarrow> bool" where
  "stored ws m \<longleftrightarrow> (\<forall>(a, v) \<in> set ws. m a = v)"

lemma storedD: "stored ws m \<Longrightarrow> (a, v) \<in> set ws \<Longrightarrow> m a = v"
  by (auto simp: stored_def)

lemma stored_append [simp]: "stored (xs @ ys) m \<longleftrightarrow> stored xs m \<and> stored ys m"
  by (simp only: stored_def set_append ball_Un)

section \<open>Indices\<close>

lemma or_low: "y < 2 ^ k \<Longrightarrow> push_bit k x OR y = 2 ^ k * x + y" for x y :: nat
proof -
  assume "y < 2 ^ k"
  then have lt: "bit y n \<Longrightarrow> n < k" for n by (metis bit_take_bit_iff take_bit_nat_eq_self)
  have "push_bit k x OR y = push_bit k x + y"
    by (intro disjunctive_add [symmetric]) (auto simp: bit_simps dest: lt)
  then show ?thesis by (simp add: push_bit_eq_mult)
qed

lemma hyper_at_eq: "j < 256 \<Longrightarrow> c < 256 \<Longrightarrow> hyper_at t i j c = unat (HYPER t) + (65536 * i + 256 * j + c)"
proof -
  assume j: "j < 256" and c: "c < 256"
  have "push_bit 8 j OR c = 256 * j + c" using c or_low [of c 8 j] by simp
  moreover have "256 * j + c < 2 ^ 16" using j c by simp
  ultimately show ?thesis using or_low [of "256 * j + c" 16 i] by (simp add: hyper_at_def)
qed

lemma hyper_pair_eq: "hyper_pair t i j c = unat (HYPER t) + (65536 * i + 256 * j + c)"
  by (simp add: hyper_pair_def push_bit_eq_mult)

lemma hyper_shift_eq: "c + s < 256 \<Longrightarrow> hyper_shift t i c s = unat (HYPER t) + (256 * i + (c + s))"
  using or_low [of c 8 i] by (simp add: hyper_shift_def)

lemma hyper_at_hyper: "c < 256 \<Longrightarrow> hyper_at t (unat x) (unat y) c = hyper t x y c" for x y :: u8
  using hyper_at_eq [of "unat y" c t "unat x"] u8_bound [of y] by (simp add: hyper_def)

lemma hyper_pair_hyper: "hyper_pair t (unat x) (unat y) c = hyper t x y c"
  by (simp add: hyper_pair_eq hyper_def)

section \<open>Contents\<close>

lemma in_upt_unat: "unat (x :: u8) \<in> set [0..<256]"
  using u8_bound [of x] by simp

lemma in_concat_map: "x \<in> set xs \<Longrightarrow> v \<in> set (f x) \<Longrightarrow> v \<in> set (concat (map f xs))"
  by auto

lemma in_map: "x \<in> set xs \<Longrightarrow> f x \<in> set (map f xs)"
  by simp

lemma stored_pair:
  assumes "stored [(f i j, g i j). i \<leftarrow> [0..<256], j \<leftarrow> [0..<256]] m"
  shows "m (f (unat (x :: u8)) (unat (y :: u8))) = g (unat x) (unat y)"
proof (rule storedD [OF assms])
  show "(f (unat x) (unat y), g (unat x) (unat y)) \<in> set [(f i j, g i j). i \<leftarrow> [0..<256], j \<leftarrow> [0..<256]]"
    by (intro in_concat_map [OF in_upt_unat [of x]] in_map [OF in_upt_unat [of y]])
qed

lemma stored_and: "stored (init_and t) m \<Longrightarrow> m (hyper t x y HYPER_AND) = x AND y"
  and stored_or: "stored (init_or t) m \<Longrightarrow> m (hyper t x y HYPER_OR) = x OR y"
  and stored_xor: "stored (init_xor t) m \<Longrightarrow> m (hyper t x y HYPER_XOR) = x XOR y"
proof -
  have "HYPER_AND < 256" "HYPER_OR < 256" "HYPER_XOR < 256" by (simp_all add: hyper_slots)
  note h = this [THEN hyper_at_hyper, symmetric]
  have o: "of_nat (unat x AND unat y) = x AND y" "of_nat (unat x OR unat y) = x OR y"
    "of_nat (unat x XOR unat y) = x XOR y" for x y :: u8
    by (simp_all add: unsigned_and_eq [symmetric] unsigned_or_eq [symmetric] unsigned_xor_eq [symmetric])
  show "stored (init_and t) m \<Longrightarrow> m (hyper t x y HYPER_AND) = x AND y"
    "stored (init_or t) m \<Longrightarrow> m (hyper t x y HYPER_OR) = x OR y"
    "stored (init_xor t) m \<Longrightarrow> m (hyper t x y HYPER_XOR) = x XOR y"
    unfolding h init_and_def init_or_def init_xor_def by (drule stored_pair, simp only: o)+
qed

lemma in_concat: "xs \<in> set xss \<Longrightarrow> v \<in> set xs \<Longrightarrow> v \<in> set (concat xss)"
  by auto

lemma in_upt: "i < n \<Longrightarrow> i \<in> set [0..<n]" for i n :: nat
  by simp

lemma stored_triple:
  assumes "stored (concat [F i j l. i \<leftarrow> [0..<256], j \<leftarrow> [0..<256], l \<leftarrow> [0..<2]]) m" "l < 2"
    "(a, v) \<in> set (F (unat (x :: u8)) (unat (y :: u8)) l)"
  shows "m a = v"
  by (rule storedD [OF assms(1)], rule in_concat [OF _ assms(3)])
     (intro in_concat_map [OF in_upt_unat [of x]] in_concat_map [OF in_upt_unat [of y]] in_map [OF in_upt [OF assms(2)]])

lemma stored_triple1:
  assumes "stored [(f i j l, g i j l). i \<leftarrow> [0..<256], j \<leftarrow> [0..<256], l \<leftarrow> [0..<n]] m" "l < n"
  shows "m (f (unat (x :: u8)) (unat (y :: u8)) l) = g (unat x) (unat y) l"
  by (rule storedD [OF assms(1)])
     (intro in_concat_map [OF in_upt_unat [of x]] in_concat_map [OF in_upt_unat [of y]] in_map [OF in_upt [OF assms(2)]])

lemma and_255: "n AND 255 = n mod 256" for n :: nat
  using take_bit_eq_mask [of 8 n] by (simp add: mask_eq_exp_minus_1 take_bit_eq_mod)

lemma drop_8: "drop_bit 8 n = n div 256" for n :: nat
  by (simp add: drop_bit_eq_div)

text \<open>Addition: the operands are in the third and second byte of the address, the carry in the first.\<close>

lemma stored_add:
  assumes "stored (init_add t) m" "l < 2"
  shows "m (hyper t x y (HYPER_ADD + 2 * l)) = x + y + of_nat l"
    "m (hyper t x y (HYPER_ADD + 2 * l + 1)) = of_nat (if 256 \<le> unat x + unat y + l then HYPER_ADD + 2 else HYPER_ADD)"
proof -
  have h: "hyper_at t (unat x) (unat y) HYPER_ADD + 2 * l + 0 = hyper t x y (HYPER_ADD + 2 * l)"
    "hyper_at t (unat x) (unat y) HYPER_ADD + 2 * l + 1 = hyper t x y (HYPER_ADD + 2 * l + 1)"
    using hyper_at_hyper [of HYPER_ADD t x y] by (simp_all add: hyper_slots hyper_def)
  have "m (hyper_at t (unat x) (unat y) HYPER_ADD + 2 * l + 0) = of_nat ((unat x + unat y + l) AND 255)"
    by (rule stored_triple [OF assms(1) [unfolded init_add_def] assms(2), of _ _ x y]) (simp add: Let_def)
  also have "\<dots> = x + y + of_nat l"
    unfolding and_255 by (rule word_unat_eq_iff [THEN iffD2]) (simp add: unat_of_nat unat_word_ariths mod_simps)
  finally show "m (hyper t x y (HYPER_ADD + 2 * l)) = x + y + of_nat l" unfolding h .
  have "m (hyper_at t (unat x) (unat y) HYPER_ADD + 2 * l + 1) =
      of_nat (if drop_bit 8 (unat x + unat y + l) \<noteq> 0 then HYPER_ADD + 2 else HYPER_ADD)"
    by (rule stored_triple [OF assms(1) [unfolded init_add_def] assms(2), of _ _ x y]) (simp add: Let_def)
  also have "drop_bit 8 (unat x + unat y + l) \<noteq> 0 \<longleftrightarrow> 256 \<le> unat x + unat y + l"
    unfolding drop_8 by (simp add: div_eq_0_iff not_less)
  finally show "m (hyper t x y (HYPER_ADD + 2 * l + 1)) =
      of_nat (if 256 \<le> unat x + unat y + l then HYPER_ADD + 2 else HYPER_ADD)" unfolding h .
qed

lemma diff_borrow:
  fixes i j l :: nat
  assumes "i < 256" "j < 256" "l < 2" and e: "r = (of_nat i - of_nat j - of_nat l :: 'a::len word)" and a: "16 \<le> LENGTH('a)"
  shows "drop_bit 8 r \<noteq> 0 \<longleftrightarrow> i < j + l" "ucast (r AND 255) = (of_nat i - of_nat j - of_nat l :: u8)"
proof -
  have big: "(2 :: nat) ^ 16 \<le> 2 ^ LENGTH('a)" using a by (rule power_increasing) simp
  have "unat r div 256 \<noteq> 0 \<longleftrightarrow> i < j + l"
  proof (cases "i < j + l")
    case True
    have "r = of_nat (2 ^ LENGTH('a) + i - (j + l))"
      using True assms(1-3) big unfolding e by (subst of_nat_diff) (auto simp: algebra_simps)
    then have "unat r = (2 ^ LENGTH('a) + i - (j + l)) mod 2 ^ LENGTH('a)" by (simp only: unat_of_nat)
    also have "\<dots> = 2 ^ LENGTH('a) + i - (j + l)" using True big by (intro mod_less) simp
    finally have "256 \<le> unat r" using assms(1-3) big True by simp
    with True show ?thesis by (simp add: div_eq_0_iff not_less)
  next
    case False
    have "r = of_nat (i - (j + l))" using False unfolding e by (simp add: of_nat_diff algebra_simps)
    then have "unat r = (i - (j + l)) mod 2 ^ LENGTH('a)" by (simp only: unat_of_nat)
    also have "\<dots> = i - (j + l)" using assms(1) big by (intro mod_less) simp
    finally show ?thesis using False assms(1) by (simp add: div_eq_0_iff)
  qed
  moreover have "drop_bit 8 r \<noteq> 0 \<longleftrightarrow> unat r div 256 \<noteq> 0"
    by (metis drop_8 unat_drop_bit_eq unat_eq_zero)
  ultimately show "drop_bit 8 r \<noteq> 0 \<longleftrightarrow> i < j + l" by blast
  have "r AND 255 = take_bit 8 r" by (simp add: take_bit_eq_mask mask_eq_exp_minus_1)
  then have "ucast (r AND 255) = (ucast r :: u8)" by (simp, intro bit_word_eqI, auto simp: bit_simps)
  also have "\<dots> = of_nat i - of_nat j - of_nat l"
  proof -
    have c: "word_of_int (take_bit LENGTH('a) k) = (word_of_int k :: u8)" for k
      using a by (simp add: word_of_int_eq_iff take_bit_take_bit min_def)
    have "r = word_of_int (int i - int j - int l)" unfolding e by simp
    then have "(ucast r :: u8) = word_of_int (int i - int j - int l)" 
      by (simp only: unsigned_of_int) (metis c int_nat_eq of_int_of_nat_eq take_bit_nonnegative)
    then show ?thesis by simp
  qed
  finally show "ucast (r AND 255) = (of_nat i - of_nat j - of_nat l :: u8)" .
qed

lemma stored_sub:
  assumes "stored (init_sub t) m" "l < 2"
  shows "m (hyper t x y (HYPER_SUB + 2 * l)) = x - y - of_nat l"
    "m (hyper t x y (HYPER_SUB + 2 * l + 1)) = of_nat (if unat x < unat y + l then HYPER_SUB + 2 else HYPER_SUB)"
proof -
  have h: "hyper_at t (unat x) (unat y) HYPER_SUB + 2 * l + 0 = hyper t x y (HYPER_SUB + 2 * l)"
    "hyper_at t (unat x) (unat y) HYPER_SUB + 2 * l + 1 = hyper t x y (HYPER_SUB + 2 * l + 1)"
    using hyper_at_hyper [of HYPER_SUB t x y] by (simp_all add: hyper_slots hyper_def)
  let ?r = "of_nat (unat x) - of_nat (unat y) - of_nat l :: u16"
  note d = diff_borrow [OF u8_bound [of x] u8_bound [of y] assms(2) refl, where 'a = 16, simplified]
  have "m (hyper_at t (unat x) (unat y) HYPER_SUB + 2 * l + 0) = ucast (?r AND 255)"
    by (rule stored_triple [OF assms(1) [unfolded init_sub_def] assms(2), of _ _ x y]) (simp add: Let_def)
  then show "m (hyper t x y (HYPER_SUB + 2 * l)) = x - y - of_nat l" unfolding h by (simp add: d)
  have "m (hyper_at t (unat x) (unat y) HYPER_SUB + 2 * l + 1) =
      of_nat (if drop_bit 8 ?r \<noteq> 0 then HYPER_SUB + 2 else HYPER_SUB)"
    by (rule stored_triple [OF assms(1) [unfolded init_sub_def] assms(2), of _ _ x y]) (simp add: Let_def)
  then show "m (hyper t x y (HYPER_SUB + 2 * l + 1)) = of_nat (if unat x < unat y + l then HYPER_SUB + 2 else HYPER_SUB)"
    unfolding h by (simp add: d)
qed

lemma stored_geu:
  assumes "stored (init_geu t) m" "l < 2"
  shows "m (hyper t x y (HYPER_GEU + l)) = of_nat (if unat x < unat y + l then HYPER_GEU + 1 else HYPER_GEU)"
proof -
  note d = diff_borrow [OF u8_bound [of x] u8_bound [of y] assms(2) refl, where 'a = 32, simplified]
  have "m (hyper_pair t (unat x) (unat y) (HYPER_GEU + l)) =
      of_nat (if drop_bit 8 (of_nat (unat x) - of_nat (unat y) - of_nat l :: u32) \<noteq> 0 then HYPER_GEU + 1 else HYPER_GEU)"
    by (rule stored_triple1 [OF _ assms(2)]) (use assms(1) in \<open>simp add: init_geu_def\<close>)
  then show ?thesis unfolding hyper_pair_hyper by (simp add: d)
qed

lemma stored_equ:
  assumes "stored (init_equ t) m" "l < 2"
  shows "m (hyper t x y (HYPER_EQU + l)) = of_nat (if x = y \<and> l \<noteq> 0 then HYPER_EQU + 1 else HYPER_EQU)"
proof -
  have "m (hyper_pair t (unat x) (unat y) (HYPER_EQU + l)) =
      of_nat (if unat x = unat y \<and> l \<noteq> 0 then HYPER_EQU + 1 else HYPER_EQU)"
    by (rule stored_triple1 [OF _ assms(2)]) (use assms(1) in \<open>simp only: init_equ_def stored_append\<close>)
  then show ?thesis unfolding hyper_pair_hyper by (simp only: word_unat_eq_iff)
qed

lemma stored_ges:
  assumes "stored (init_ges t) m" "l < 4"
  shows "m (hyper t x y (HYPER_GES + l)) = of_nat (ges_next (unat x) (unat y) (HYPER_GES + l))"
proof -
  have "m (hyper_pair t (unat x) (unat y) (HYPER_GES + l)) = of_nat (ges_next (unat x) (unat y) (HYPER_GES + l))"
    by (rule stored_triple1 [OF _ assms(2)]) (use assms(1) in \<open>simp only: init_ges_def stored_append\<close>)
  then show ?thesis unfolding hyper_pair_hyper .
qed

lemma stored_not: "stored (init_not t) m \<Longrightarrow> m (unat (NOT_TABLE t) + unat x) = NOT x" for x :: u8
proof -
  assume s: "stored (init_not t) m"
  have "m (unat (NOT_TABLE t) + unat x) = NOT (of_nat (unat x))"
    unfolding init_not_def by (rule storedD [OF s], unfold init_not_def, rule in_map [OF in_upt_unat])
  then show ?thesis by simp
qed

text \<open>The truth tables.\<close>

lemma stored_truth_geu:
  assumes "stored (init_geu t) m" "l < 2"
  shows "m (unat (POLAR_TRUTH_X1 t) + (HYPER_GEU + l)) = (if l = 0 then 1 else 0)"
    "m (unat (ANTIPOLAR_TRUTH_X1 t) + (HYPER_GEU + l)) = (if l = 0 then 0 else 1)"
    "m (unat (POLAR_TRUTH_X4 t) + (HYPER_GEU + l)) = (if l = 0 then 1 else 0)"
    "m (unat (ANTIPOLAR_TRUTH_X4 t) + (HYPER_GEU + l)) = (if l = 0 then 0 else 4)"
proof -
  have "stored (SET_TRUTH_TABLES t HYPER_GEU 1 0) m" using assms(1) by (simp only: init_geu_def stored_append)
  then have *: "m a = v" if "(a, v) \<in> set (SET_TRUTH_TABLES t HYPER_GEU 1 0)" for a v using that by (rule storedD)
  from assms(2) have "l = 0 \<or> l = 1" by auto
  then show "m (unat (POLAR_TRUTH_X1 t) + (HYPER_GEU + l)) = (if l = 0 then 1 else 0)"
    "m (unat (ANTIPOLAR_TRUTH_X1 t) + (HYPER_GEU + l)) = (if l = 0 then 0 else 1)"
    "m (unat (POLAR_TRUTH_X4 t) + (HYPER_GEU + l)) = (if l = 0 then 1 else 0)"
    "m (unat (ANTIPOLAR_TRUTH_X4 t) + (HYPER_GEU + l)) = (if l = 0 then 0 else 4)"
    by (elim disjE; intro *; simp add: SET_TRUTH_TABLES_def)+
qed

end
