(* ===== verification/Dma_Compare.thy ===== *)
theory Dma_Compare
  imports Dma_Tables
begin

text \<open>
  Correctness of the comparisons. Their lookups form a chain: each finds the state of the comparison
  in the first byte of its source address, looks up the next state for a pair of bytes, and stores
  it into the source of the next lookup; the last one translates the final state into a truth
  value.
\<close>

section \<open>Chains of lookups\<close>

text \<open>The states of a chain over the operand bytes \<open>x\<close> and \<open>y\<close>, for a table \<open>T\<close>.\<close>

primrec chain_state :: "(u8 \<Rightarrow> u8 \<Rightarrow> nat \<Rightarrow> nat) \<Rightarrow> (nat \<Rightarrow> u8) \<Rightarrow> (nat \<Rightarrow> u8) \<Rightarrow> nat \<Rightarrow> nat \<Rightarrow> nat" where
  "chain_state T x y c 0 = c"
| "chain_state T x y c (Suc i) = T (x i) (y i) (chain_state T x y c i)"

text \<open>A lookup at \<open>q\<close> of \<open>n\<close> bytes for \<open>d\<close>, with the slot \<open>c\<close> patched into its source.\<close>

lemma slot_step:
  assumes hw: "dma_engine hw" and t: "hyper_ok t" and q: "q mod 32 = 0" "q + 32 \<le> 2 ^ 29"
    and code: "shape m q \<lparr>ti = linear, src_addr = 0, dst_addr = busn d, txfr_len = of_nat n, stride = 0, next_cb = nx\<rparr>"
    and src: "\<And>z. of_le32 [z, m (q + 5), m (q + 6), m (q + 7)] = busn (hyper t x y (unat z))"
    and c: "c + n \<le> 256" "c < 256" and n: "0 < n" "n \<le> 2"
    and d: "d + n \<le> 2 ^ 29" "away d n (unat (HYPER t)) (2 ^ 24)"
    and m1: "m1 (q + 4) = of_nat c" "\<And>u. u < 32 \<Longrightarrow> u \<noteq> 4 \<Longrightarrow> m1 (q + u) = m (q + u)"
  shows "hw (busn q) m1 = (nx, mem_copy d (hyper t x y c) n m1)"
proof -
  have hb: "unat (HYPER t) \<le> hyper t x y c" "hyper t x y c + n \<le> unat (HYPER t) + 2 ^ 24"
    using u8_bound [of x] u8_bound [of y] c by (simp_all add: hyper_def)
  have "unat (of_nat c :: u8) = c" using c(2) by (simp add: unat_of_nat)
  then have "load32 m1 (q + 4) = busn (hyper t x y c)"
    using src [of "of_nat c"] m1(1) m1(2) [of 5] m1(2) [of 6] m1(2) [of 7]
    by (simp add: load32_bytes ac_simps)
  with shape_same [OF code m1(2)] have cb: "fetch_cb m1 q = \<lparr>ti = linear, src_addr = busn (hyper t x y c),
      dst_addr = busn d, txfr_len = of_nat n, stride = 0, next_cb = nx\<rparr>" by (simp add: shape_def)
  show ?thesis
    by (rule step_linear [OF hw _ q(1) cb]) (use q n hb d t in \<open>auto simp: away_def hyper_ok_def\<close>)
qed

lemma chain:
  assumes hw: "dma_engine hw" and t: "hyper_ok t"
    and q: "\<And>i. i \<le> w \<Longrightarrow> q i mod 32 = 0 \<and> q i + 32 \<le> 2 ^ 29" "inj_on q {..w}"
    and code: "\<And>i. i < w \<Longrightarrow> shape m (q i) \<lparr>ti = linear, src_addr = 0, dst_addr = busn (q (Suc i) + 4), txfr_len = 1,
      stride = 0, next_cb = busn (q (Suc i))\<rparr>"
    and src: "\<And>i z. i < w \<Longrightarrow> of_le32 [z, m (q i + 5), m (q i + 6), m (q i + 7)] = busn (hyper t (x i) (y i) (unat z))"
    and tab: "\<And>a b c. c \<in> S \<Longrightarrow> m (hyper t a b c) = of_nat (T a b c) \<and> T a b c \<in> S" "S \<subseteq> {..<256}"
    and start: "m (q 0 + 4) = of_nat c0" "c0 \<in> S"
    and far: "\<And>i. i \<le> w \<Longrightarrow> away (q i) 32 (unat (HYPER t)) (2 ^ 24)"
  shows "k \<le> w \<Longrightarrow> \<exists>m'. dma_run hw k (busn (q 0), m) = (busn (q k), m') \<and>
    m' (q k + 4) = of_nat (chain_state T x y c0 k) \<and> chain_state T x y c0 k \<in> S \<and>
    (\<forall>z. (\<forall>j. 0 < j \<and> j \<le> k \<longrightarrow> z \<noteq> q j + 4) \<longrightarrow> m' z = m z)"
proof (induction k)
  case 0
  with start show ?case by simp
next
  case (Suc k)
  then have k: "k < w" by simp
  from Suc.IH k obtain m' where m': "dma_run hw k (busn (q 0), m) = (busn (q k), m')"
    "m' (q k + 4) = of_nat (chain_state T x y c0 k)" "chain_state T x y c0 k \<in> S"
    "\<And>z. (\<And>j. 0 < j \<Longrightarrow> j \<le> k \<Longrightarrow> z \<noteq> q j + 4) \<Longrightarrow> m' z = m z" by auto
  let ?c = "chain_state T x y c0 k"
  let ?a = "hyper t (x k) (y k) ?c"
  have c: "?c < 256" using m'(3) tab(2) by auto
  have hb: "unat (HYPER t) \<le> ?a \<and> ?a < unat (HYPER t) + 2 ^ 24" by (rule hyper_bound [OF t c])
  have same: "m' (q k + u) = m (q k + u)" if "u < 32" "u \<noteq> 4" for u
  proof (rule m'(4))
    fix j assume "j \<le> k"
    then have "q k mod 32 = 0" "q j mod 32 = 0" using q(1) [of k] q(1) [of j] k by simp_all
    then have "(q k + u) mod 32 \<noteq> (q j + 4) mod 32" using that by (simp add: mod_32_add)
    then show "q k + u \<noteq> q j + 4" by metis
  qed
  have step: "hw (busn (q k)) m' = (busn (q (Suc k)), mem_copy (q (Suc k) + 4) ?a 1 m')"
  proof (rule slot_step [OF hw t _ _ _ src [OF k] _ c])
    show "shape m (q k) \<lparr>ti = linear, src_addr = 0, dst_addr = busn (q (Suc k) + 4), txfr_len = of_nat 1,
      stride = 0, next_cb = busn (q (Suc k))\<rparr>" using code [OF k] by simp
    show "m' (q k + u) = m (q k + u)" if "u < 32" "u \<noteq> 4" for u using that by (rule same)
  qed (use q(1) [of k] q(1) [of "Suc k"] k c far [of "Suc k"] m'(2) in \<open>auto simp: away_def\<close>)
  have tb: "m' ?a = of_nat (T (x k) (y k) ?c)" "T (x k) (y k) ?c \<in> S"
  proof -
    have "m' ?a = m ?a"
    proof (rule m'(4))
      fix j assume "0 < j" "j \<le> k"
      then show "?a \<noteq> q j + 4" using far [of j] hb k by (auto simp: away_def)
    qed
    then show "m' ?a = of_nat (T (x k) (y k) ?c)" "T (x k) (y k) ?c \<in> S" using tab(1) [OF m'(3)] by auto
  qed
  have "dma_run hw (Suc k) (busn (q 0), m) = dma_run hw 1 (dma_run hw k (busn (q 0), m))"
    using dma_run_add [of hw k 1] by simp
  also have "\<dots> = (busn (q (Suc k)), m'(q (Suc k) + 4 := m' ?a))"
    unfolding m'(1) One_nat_def dma_run_Suc dma_run_0 step unfolding One_nat_def [symmetric] mem_copy_1 ..
  finally show ?case using tb m'(4) by auto
qed

section \<open>The programs of Geu and Equ\<close>

definition truth_prog :: "dma_tables \<Rightarrow> nat \<Rightarrow> nat \<Rightarrow> nat \<Rightarrow> nat \<Rightarrow> nat \<Rightarrow> nat \<Rightarrow> u32 \<Rightarrow> cblk list" where
  "truth_prog t c p w r a b flags =
     [cb_2d scatter (busn (p + 69)) (busn b) w 1 31 0, cb_2d scatter (busn (p + 70)) (busn a) w 1 31 0] @
     concat (map (\<lambda>i. [linear_cb (busn (p + 64 + 32 * Suc i + 4)) (busn (unat (HYPER t) + c)) 1]) [0..<w]) @
     [linear_cb (busn r) (busn (unat (truth_table t flags))) 1]"

definition compare_op ::
  "nat \<Rightarrow> dma_tables \<Rightarrow> nat \<Rightarrow> busad \<Rightarrow> busad \<Rightarrow> busad \<Rightarrow> u32 \<Rightarrow> emit_st \<Rightarrow> emit_st option" where
  "compare_op c t width ret8 lhs rhs flags s =
     (if width = 0 then None
      else do {
        l0 \<leftarrow> Label s;
        d \<leftarrow> bus_rel_fld l0 2 FLD_SRC 1;
        s \<leftarrow> EmitStrided d rhs (of_nat width) 1 31 0 s;
        d \<leftarrow> bus_rel_fld l0 2 FLD_SRC 2;
        s \<leftarrow> EmitStrided d lhs (of_nat width) 1 31 0 s;
        s \<leftarrow> for_each (\<lambda>i s. do {
          l1 \<leftarrow> Label s;
          d \<leftarrow> bus_rel_fld l1 1 FLD_SRC 0;
          src \<leftarrow> bus_off (HYPER t) (of_nat c);
          Emit d src 1 s
        }) [0..<width] s;
        src \<leftarrow> bus (truth_table t flags);
        Emit ret8 src 1 s
      })"

lemma compare_ops: "Geu = compare_op HYPER_GEU" "Equ = compare_op (HYPER_EQU + 1)"
  by (intro ext, simp add: Geu_def Equ_def compare_op_def)+

text \<open>The truth tables are pages of 256 bytes in memory.\<close>

definition page_ok :: "emit_st \<Rightarrow> nat \<Rightarrow> u32 \<Rightarrow> bool" where
  "page_ok s n p \<longleftrightarrow> unat p mod 256 = 0 \<and> clear s n (unat p) 256"

text \<open>The two scatters at the head of a binary operation.\<close>

lemma head_emitted:
  assumes f: "fits s (Suc (Suc n))" and w: "0 < w" "w \<le> 2 ^ 14"
  shows "bus_rel_fld (busn (pos s)) 2 FLD_SRC 1 = Some (busn (pos s + 69))"
    "bus_rel_fld (busn (pos s)) 2 FLD_SRC 2 = Some (busn (pos s + 70))"
    "\<exists>s1 s2. EmitStrided (busn (pos s + 69)) x (of_nat w) 1 ds ss s = Some s1 \<and>
      EmitStrided (busn (pos s + 70)) y (of_nat w) 1 ds ss s1 = Some s2 \<and>
      emitted s [cb_2d scatter (busn (pos s + 69)) x w 1 ds ss, cb_2d scatter (busn (pos s + 70)) y w 1 ds ss] s2 \<and>
      fits s2 n \<and> pos s2 = pos s + 64"
proof -
  have p: "pos s < 2 ^ 29" "pos s mod 32 = 0" using f by (simp_all add: fits_def)
  show "bus_rel_fld (busn (pos s)) 2 FLD_SRC 1 = Some (busn (pos s + 69))"
    "bus_rel_fld (busn (pos s)) 2 FLD_SRC 2 = Some (busn (pos s + 70))"
    using rel_fld_src [OF p, of 1 2] rel_fld_src [OF p, of 2 2] by (simp_all add: ac_simps)
  from EmitStrided_1 [OF f w] obtain s1 where
    s1: "EmitStrided (busn (pos s + 69)) x (of_nat w) 1 ds ss s = Some s1"
      "emitted s [cb_2d scatter (busn (pos s + 69)) x w 1 ds ss] s1" "fits s1 (Suc n)" "pos s1 = pos s + 32"
    by fastforce
  from EmitStrided_1 [OF s1(3) w] obtain s2 where
    s2: "EmitStrided (busn (pos s + 70)) y (of_nat w) 1 ds ss s1 = Some s2"
      "emitted s1 [cb_2d scatter (busn (pos s + 70)) y w 1 ds ss] s2" "fits s2 n" "pos s2 = pos s1 + 32"
    by fastforce
  from emitted_append [OF s1(2) s2(2)] s1 s2 show
    "\<exists>s1 s2. EmitStrided (busn (pos s + 69)) x (of_nat w) 1 ds ss s = Some s1 \<and>
      EmitStrided (busn (pos s + 70)) y (of_nat w) 1 ds ss s1 = Some s2 \<and>
      emitted s [cb_2d scatter (busn (pos s + 69)) x w 1 ds ss, cb_2d scatter (busn (pos s + 70)) y w 1 ds ss] s2 \<and>
      fits s2 n \<and> pos s2 = pos s + 64"
    by fastforce
qed

lemma Emit_ok: "fits s (Suc n) \<Longrightarrow> \<exists>s'. Emit d src (of_nat k) s = Some s' \<and> emitted s [linear_cb d src k] s' \<and>
    fits s' n \<and> pos s' = pos s + 32"
proof -
  assume f: "fits s (Suc n)"
  from Emit_emitted [OF this] obtain s' where s': "Emit d src (of_nat k) s = Some s'" "emitted s [linear_cb d src k] s'" by blast
  moreover have "fits s' n" by (rule fits_emitted [OF s'(2)]) (use f in simp)
  moreover have "pos s' = pos s + 32" using s'(2) by (simp add: emitted_def)
  ultimately show ?thesis by blast
qed

lemmas Emit_1 = Emit_ok [where k = 1, unfolded of_nat_1]

lemma compare_op_emitted:
  assumes f: "fits s (w + 3)" and w: "0 < w" "w \<le> 2 ^ 14" and t: "hyper_ok t" and c: "c < 256"
    and p: "page_ok s (w + 3) (truth_table t flags)"
  shows "\<exists>s'. compare_op c t w (busn r) (busn a) (busn b) flags s = Some s' \<and>
    emitted s (truth_prog t c (pos s) w r a b flags) s'"
proof -
  have "fits s (Suc (Suc (w + 1)))" using f by (simp add: numeral_eq_Suc)
  note h = head_emitted [OF this w]
  from h(3) obtain s1 s2 where s2:
    "EmitStrided (busn (pos s + 69)) (busn b) (of_nat w) 1 31 0 s = Some s1"
    "EmitStrided (busn (pos s + 70)) (busn a) (of_nat w) 1 31 0 s1 = Some s2"
    "emitted s [cb_2d scatter (busn (pos s + 69)) (busn b) w 1 31 0, cb_2d scatter (busn (pos s + 70)) (busn a) w 1 31 0] s2"
    "fits s2 (w + 1)" "pos s2 = pos s + 64" by blast
  let ?f = "\<lambda>i s. do { l1 \<leftarrow> Label s; d \<leftarrow> bus_rel_fld l1 1 FLD_SRC 0; src \<leftarrow> bus_off (HYPER t) (of_nat c); Emit d src 1 s }"
  let ?g = "\<lambda>i. [linear_cb (busn (pos s + 64 + 32 * Suc i + 4)) (busn (unat (HYPER t) + c)) 1]"
  have "\<exists>s'. for_each ?f [0..<w] s2 = Some s' \<and> emitted s2 (concat (map ?g [0..<w])) s' \<and> fits s' (Suc 0)"
  proof (rule for_upt_emitted [where k = 1 and p = "pos s + 64"])
    fix x s' n
    assume x: "x < w" and f': "fits s' (1 + n)" and p': "pos s' = pos s + 64 + 32 * (1 * (x - 0))"
    from f' have f1: "fits s' (Suc n)" by simp
    then have pp: "pos s' < 2 ^ 29" "pos s' mod 32 = 0" by (simp_all add: fits_def)
    have d: "bus_rel_fld (busn (pos s')) 1 FLD_SRC 0 = Some (busn (pos s + 64 + 32 * Suc x + 4))"
      using rel_fld_src [OF pp, of 0 1] p' by (simp add: ac_simps)
    from Emit_1 [OF f1] show "\<exists>s''. ?f x s' = Some s'' \<and> emitted s' (?g x) s''"
      using Label_fits [OF f1] d bus_off_hyper(1) [OF t, of c] c by fastforce
  qed (use s2(4,5) in simp_all)
  then obtain s3 where s3: "for_each ?f [0..<w] s2 = Some s3" "emitted s2 (concat (map ?g [0..<w])) s3" "fits s3 (Suc 0)" by blast
  note s3(3)
  from Emit_1 [OF this] obtain s4 where s4: "Emit (busn r) (busn (unat (truth_table t flags))) 1 s3 = Some s4"
    "emitted s3 [linear_cb (busn r) (busn (unat (truth_table t flags))) 1] s4" by blast
  have "bus (truth_table t flags) = Some (busn (unat (truth_table t flags)))"
    using p bus_busn [of "truth_table t flags"] by (simp add: page_ok_def clear_def)
  then have "compare_op c t w (busn r) (busn a) (busn b) flags s = Some s4"
    using w Label_fits [OF f] by (simp add: compare_op_def h(1,2) s2(1,2) s3(1) s4(1))
  moreover have "emitted s (truth_prog t c (pos s) w r a b flags) s4"
    using emitted_append [OF s2(3) emitted_append [OF s3(2) s4(2)]] by (simp add: truth_prog_def)
  ultimately show ?thesis by blast
qed

section \<open>Running the comparisons\<close>

text \<open>Patching the low byte of a source that points to a page.\<close>

lemma page_patch:
  assumes "of_le32 [x0, x1, x2, x3] = busn P" "P mod 256 = 0" "P + 256 \<le> 2 ^ 29"
  shows "of_le32 [y, x1, x2, x3] = busn (P + unat y)"
proof -
  have "unat x0 + 256 * unat x1 + 65536 * unat x2 + 16777216 * unat x3 = P + 1073741824"
    using arg_cong [OF assms(1), of unat] assms(3) by (simp only: unat_of_le32) (simp add: unat_busn)
  moreover obtain k where "P = 256 * k" using assms(2) by (auto simp: mod_eq_0_iff_dvd elim: dvdE)
  ultimately have "unat x0 + 256 * (unat x1 + 256 * unat x2 + 65536 * unat x3) = 256 * (k + 4194304)"
    by simp
  then have "unat x0 = 0"
    using u8_bound [of x0] by (metis mod_less mod_mult_self2 mod_mult_self1_is_0)
  with \<open>unat x0 + 256 * unat x1 + 65536 * unat x2 + 16777216 * unat x3 = P + 1073741824\<close>
  have "unat y + 256 * unat x1 + 65536 * unat x2 + 16777216 * unat x3 = P + unat y + 2 ^ 30" by simp
  moreover have "P + unat y < 2 ^ 29" using assms(3) u8_bound [of y] by simp
  ultimately have "unat (of_le32 [y, x1, x2, x3]) = unat (busn (P + unat y))"
    by (simp only: unat_of_le32 unat_busn)
  then show ?thesis by (simp only: word_unat_eq_iff)
qed

lemma truth_prog_nth:
  "truth_prog t c p w r a b flags ! 0 = cb_2d scatter (busn (p + 69)) (busn b) w 1 31 0"
  "truth_prog t c p w r a b flags ! 1 = cb_2d scatter (busn (p + 70)) (busn a) w 1 31 0"
  "i < w \<Longrightarrow> truth_prog t c p w r a b flags ! (i + 2) = linear_cb (busn (p + 64 + 32 * Suc i + 4)) (busn (unat (HYPER t) + c)) 1"
  "truth_prog t c p w r a b flags ! (w + 2) = linear_cb (busn r) (busn (unat (truth_table t flags))) 1"
  "length (truth_prog t c p w r a b flags) = w + 3"
  using nth_singletons [of i w "\<lambda>i. linear_cb (busn (p + 64 + 32 * Suc i + 4)) (busn (unat (HYPER t) + c)) 1"]
  by (simp_all add: truth_prog_def nth_append)

text \<open>The last lookup of a program, whose source, in a page at \<open>P\<close>, has been patched with \<open>c\<close>.\<close>

lemma page_step:
  assumes hw: "dma_engine hw" and q: "q < 2 ^ 29" "q mod 32 = 0" and P: "P mod 256 = 0" "P + 256 \<le> 2 ^ 29"
    and r: "r + 1 \<le> 2 ^ 29" "away r 1 P 256"
    and cb: "fetch_cb m0 q = \<lparr>ti = linear, src_addr = busn P, dst_addr = busn r, txfr_len = 1, stride = 0, next_cb = nx\<rparr>"
    and m: "m (q + 4) = of_nat c" "c < 256" "\<And>u. u < 32 \<Longrightarrow> u \<noteq> 4 \<Longrightarrow> m (q + u) = m0 (q + u)"
  shows "hw (busn q) m = (nx, m(r := m (P + c)))"
proof -
  have "shape m q \<lparr>ti = linear, src_addr = busn P, dst_addr = busn r, txfr_len = 1, stride = 0, next_cb = nx\<rparr>"
    by (rule shape_same [OF fetch_shape [OF cb] m(3)])
  moreover have "load32 m (q + 4) = busn (P + c)"
  proof -
    have "of_le32 [of_nat c, m0 (q + 5), m0 (q + 6), m0 (q + 7)] = busn (P + unat (of_nat c :: u8))"
      by (rule page_patch [OF _ P]) (use fetch_bytes [OF cb] in simp)
    then show ?thesis using m(1,2) m(3) [of 5] m(3) [of 6] m(3) [of 7]
      by (simp add: load32_bytes ac_simps unat_of_nat)
  qed
  ultimately have "fetch_cb m q = \<lparr>ti = linear, src_addr = busn (P + c), dst_addr = busn r,
      txfr_len = of_nat 1, stride = 0, next_cb = nx\<rparr>" by (simp add: shape_def)
  from step_linear [OF hw q this] have "hw (busn q) m = (nx, mem_copy r (P + c) 1 m)"
    using r P(2) m(2) by (auto simp: away_def)
  then show ?thesis by (simp only: mem_copy_1)
qed

text \<open>The chain of lookups over the patched sources.\<close>

lemma truth_chain:
  assumes hw: "dma_engine hw" and f: "fits s (w + 3)" and w: "0 < w"
    and t: "hyper_ok t" "clear s (w + 3) (unat (HYPER t)) (2 ^ 24)"
    and tab: "\<And>x y c. c \<in> S \<Longrightarrow> snd s (hyper t x y c) = of_nat (T x y c) \<and> T x y c \<in> S" "S \<subseteq> {..<256}" "c \<in> S"
    and pt: "patched s w 32 b a m0 m" and out: "\<And>z. z < pos s \<or> pos s + 32 * (w + 3) \<le> z \<Longrightarrow> m z = snd s z"
    and lk: "\<And>i. i < w \<Longrightarrow> fetch_cb m0 (pos s + 64 + 32 * i) = \<lparr>ti = linear, src_addr = busn (unat (HYPER t) + c),
      dst_addr = busn (pos s + 64 + 32 * Suc i + 4), txfr_len = 1, stride = 0, next_cb = busn (pos s + 64 + 32 * Suc i)\<rparr>"
  defines "st \<equiv> chain_state T (\<lambda>i. snd s (a + i)) (\<lambda>i. snd s (b + i)) c w"
  obtains m' where "dma_run hw w (busn (pos s + 64), m) = (busn (pos s + 64 + 32 * w), m')"
    "m' (pos s + 64 + 32 * w + 4) = of_nat st" "st \<in> S"
    "\<And>z. (\<And>j. j \<le> w \<Longrightarrow> z \<noteq> pos s + 64 + 32 * j + 4) \<Longrightarrow> m' z = m z"
proof -
  let ?q = "\<lambda>i. pos s + 64 + 32 * i"
  have c: "c < 256" using tab(2,3) by auto
  have pp: "pos s mod 32 = 0" "pos s + 32 * (w + 3) < 2 ^ 29" using f by (simp_all add: fits_def)
  have far: "away (?q i) 32 (unat (HYPER t)) (2 ^ 24)" if "i \<le> w" for i
    using t(2) that by (auto simp: clear_def away_def)
  have tabs: "m (hyper t a b c) = of_nat (T a b c) \<and> T a b c \<in> S" if "c \<in> S" for a b c
    using tab(1) [OF that] out hyper_clear [OF t, of c 0] that tab(2) by auto
  have "\<exists>m'. dma_run hw w (busn (?q 0), m) = (busn (?q w), m') \<and> m' (?q w + 4) = of_nat st \<and> st \<in> S \<and>
    (\<forall>z. (\<forall>j. 0 < j \<and> j \<le> w \<longrightarrow> z \<noteq> ?q j + 4) \<longrightarrow> m' z = m z)"
    unfolding st_def
  proof (rule chain [where q = ?q and w = w and k = w and m = m, OF hw t(1) _ _ _ _ tabs tab(2) _ tab(3) far order_refl])
    show "shape m (?q i) \<lparr>ti = linear, src_addr = 0, dst_addr = busn (?q (Suc i) + 4), txfr_len = 1,
      stride = 0, next_cb = busn (?q (Suc i))\<rparr>" if "i < w" for i
      using patched_shape [OF pt _ lk [OF that]] by (simp add: shape_def)
    show "of_le32 [z, m (?q i + 5), m (?q i + 6), m (?q i + 7)] = busn (hyper t (snd s (a + i)) (snd s (b + i)) (unat z))"
      if "i < w" for i z using patched_src(1) [OF pt _ t(1) c that lk [OF that]] by simp
    show "m (?q 0 + 4) = of_nat c" using patched_src(2) [OF pt _ t(1) c w lk [OF w]] by simp
  qed (use pp in \<open>auto simp: inj_on_def\<close>)
  then obtain m' where "dma_run hw w (busn (pos s + 64), m) = (busn (?q w), m')" "m' (?q w + 4) = of_nat st" "st \<in> S"
    "\<And>z. (\<And>j. 0 < j \<Longrightarrow> j \<le> w \<Longrightarrow> z \<noteq> ?q j + 4) \<Longrightarrow> m' z = m z" by auto
  then show thesis using that [of m'] by blast
qed

lemma truth_prog_run:
  assumes hw: "dma_engine hw" and f: "fits s (w + 3)" and w: "0 < w" "w \<le> 2 ^ 14"
    and t: "hyper_ok t" "clear s (w + 3) (unat (HYPER t)) (2 ^ 24)" and p: "page_ok s (w + 3) (truth_table t flags)"
    and ops: "clear s (w + 3) a w" "clear s (w + 3) b w" "clear s (w + 3) r 1" "away r 1 (unat (truth_table t flags)) 256"
    and tab: "\<And>x y c. c \<in> S \<Longrightarrow> snd s (hyper t x y c) = of_nat (T x y c) \<and> T x y c \<in> S" "S \<subseteq> {..<256}" "c \<in> S"
    and e: "emitted s (truth_prog t c (pos s) w r a b flags) s'"
  shows "\<exists>m'. dma_run hw (w + 3) (busn (pos s), snd s') = (busn (pos s'), m') \<and>
    m' r = snd s (unat (truth_table t flags) + chain_state T (\<lambda>i. snd s (a + i)) (\<lambda>i. snd s (b + i)) c w) \<and>
    (\<forall>x. x \<noteq> r \<and> (x < pos s \<or> pos s' \<le> x) \<longrightarrow> m' x = snd s x)"
proof -
  let ?p = "pos s" and ?m = "snd s'" and ?P = "unat (truth_table t flags)"
  let ?q = "\<lambda>i. ?p + 64 + 32 * i"
  let ?st = "chain_state T (\<lambda>i. snd s (a + i)) (\<lambda>i. snd s (b + i)) c w"
  note nth = truth_prog_nth
  have pp: "?p mod 32 = 0" "?p + 32 * (w + 3) < 2 ^ 29" using f by (simp_all add: fits_def)
  have p': "pos s' = ?p + 32 * (w + 3)" using e nth(5) by (simp add: emitted_def)
  from head_run [OF hw f w ops(2,1) _ _ e nth(5) nth(1,2), of 32] obtain m where
    head: "dma_run hw 2 (busn ?p, ?m) = (busn (?p + 64), m)" and pt: "patched s w 32 b a ?m m"
    and out: "\<And>z. z < ?p \<or> ?p + 32 * (w + 3) \<le> z \<Longrightarrow> m z = snd s z" by auto
  have lk: "fetch_cb ?m (?q i) = \<lparr>ti = linear, src_addr = busn (unat (HYPER t) + c), dst_addr = busn (?q (Suc i) + 4),
      txfr_len = 1, stride = 0, next_cb = busn (?q (Suc i))\<rparr>" if "i < w" for i
    using emitted_nth [OF e, unfolded nth(5), of "i + 2"] nth(3) [OF that] that
    by (simp add: linear_cb_def ac_simps)
  have fin: "fetch_cb ?m (?q w) = \<lparr>ti = linear, src_addr = busn ?P, dst_addr = busn r,
      txfr_len = 1, stride = 0, next_cb = busn (?q (Suc w))\<rparr>"
    using emitted_nth [OF e, unfolded nth(5), of "w + 2"] nth(4) by (simp add: linear_cb_def ac_simps)
  from truth_chain [OF hw f w(1) t tab pt out lk] obtain m' where
    m': "dma_run hw w (busn (?p + 64), m) = (busn (?q w), m')" "m' (?q w + 4) = of_nat ?st" "?st \<in> S"
    "\<And>z. (\<And>j. j \<le> w \<Longrightarrow> z \<noteq> ?q j + 4) \<Longrightarrow> m' z = m z" by blast
  have st: "?st < 256" using m'(3) tab(2) by auto
  have last: "m' (?q w + u) = ?m (?q w + u)" if "u < 32" "u \<noteq> 4" for u
  proof -
    have "m' (?q w + u) = m (?q w + u)" using that off_D [of 32 u 4 "?p + 64" w] by (intro m'(4)) auto
    also have "\<dots> = ?m (?q w + u)" by (rule patchedD(3) [OF pt]) auto
    finally show ?thesis .
  qed
  have P: "?P mod 256 = 0" "?P + 256 \<le> 2 ^ 29" "r + 1 \<le> 2 ^ 29" using ops(3) p by (auto simp: page_ok_def clear_def)
  have step: "hw (busn (?q w)) m' = (busn (?q (Suc w)), m'(r := m' (?P + ?st)))"
    by (rule page_step [OF hw _ _ P ops(4) fin m'(2) st last]) (use pp in auto)
  have keep: "m' z = snd s z" if z: "z < ?p \<or> ?p + 32 * (w + 3) \<le> z" for z
    using m'(4) [of z] out [OF z] z by auto
  have w3: "w + 3 = 2 + w + 1" "?q (Suc w) = pos s'" by (simp_all add: p')
  have "dma_run hw (w + 3) (busn ?p, ?m) = (busn (pos s'), m'(r := m' (?P + ?st)))"
    unfolding w3(1) dma_run_add head m'(1) One_nat_def dma_run_Suc dma_run_0 step w3(2) ..
  moreover have "m' (?P + ?st) = snd s (?P + ?st)" using p st by (intro keep) (auto simp: page_ok_def clear_def away_def)
  ultimately show ?thesis using keep p' by auto
qed

end
