(* ===== verification/Dma_Init.thy ===== *)
theory Dma_Init
  imports Dma_Tables
begin

text \<open>
  The initialization of the tables, \<^verbatim>\<open>run_initializers\<close> of \<^verbatim>\<open>bcm2835/dma/private.c\<close>: the initializers
  are run in the order in which the linker collects them. They share the big table and the truth
  tables, each with slots of its own, so that every table is complete whatever that order is.
\<close>

section \<open>Running the initializers\<close>

text \<open>
  The state is the flag of the function and the memory. The table of the linker is a list of names
  and of the stores of the initializers.
\<close>

primrec run_inittab :: "(string \<times> stores) list \<Rightarrow> mem \<Rightarrow> mem" where
  "run_inittab [] m = m"
| "run_inittab (init # tab) m = run_inittab tab (do_stores (snd init) m)"

definition run_initializers :: "(string \<times> stores) list \<Rightarrow> bool \<times> mem \<Rightarrow> (bool \<times> mem) option" where
  "run_initializers tab s = (let (did_run_initializers, m) = s in
     if did_run_initializers then None else Some (True, run_inittab tab m))"

lemma do_stores_append: "do_stores (xs @ ys) m = do_stores ys (do_stores xs m)"
  by (simp add: do_stores_def)

lemma run_inittab_eq: "run_inittab tab m = do_stores (concat (map snd tab)) m"
  by (induction tab arbitrary: m) (simp_all add: do_stores_append, simp add: do_stores_def)

text \<open>Stores that all agree with a map of addresses hold afterwards, and nothing else changes.\<close>

lemma do_stores_agree:
  assumes "\<And>a v. (a, v) \<in> set ws \<Longrightarrow> g a = Some v"
  shows "do_stores ws m x = (if x \<in> fst ` set ws then the (g x) else m x)"
  using assms
proof (induction ws arbitrary: m)
  case Nil
  then show ?case by (simp add: do_stores_def)
next
  case (Cons w ws)
  obtain a v where w: "w = (a, v)" by (cases w)
  have "do_stores (w # ws) m x = do_stores ws (m(a := v)) x" by (simp add: do_stores_def w)
  also have "\<dots> = (if x \<in> fst ` set ws then the (g x) else (m(a := v)) x)"
    by (rule Cons.IH) (use Cons.prems in auto)
  finally show ?case using Cons.prems [of a v] by (auto simp: w)
qed

lemma stored_agree:
  assumes g: "\<And>a v. (a, v) \<in> set ws \<Longrightarrow> g a = Some v"
  shows "set ws' \<subseteq> set ws \<Longrightarrow> stored ws' (do_stores ws m)" "g x = None \<Longrightarrow> do_stores ws m x = m x"
proof -
  show "stored ws' (do_stores ws m)" if "set ws' \<subseteq> set ws"
    unfolding stored_def
  proof (clarify)
    fix a v assume v: "(a, v) \<in> set ws'"
    then have "a \<in> fst ` set ws" using that by force
    with v that show "do_stores ws m a = v" using g [of a v] by (auto simp: do_stores_agree [of ws g, OF g])
  qed
  show "g x = None \<Longrightarrow> do_stores ws m x = m x"
    using g by (auto simp: do_stores_agree [of ws g, OF g])
qed

section \<open>The contents of the tables\<close>

definition hyper_entry :: "nat \<Rightarrow> nat \<Rightarrow> nat \<Rightarrow> u8" where
  "hyper_entry i j c =
     (if c = HYPER_AND then of_nat (i AND j) else if c = HYPER_OR then of_nat (i OR j)
      else if c = HYPER_XOR then of_nat (i XOR j)
      else if c = HYPER_ADD then of_nat ((i + j) AND 255)
      else if c = HYPER_ADD + 1 then of_nat (if drop_bit 8 (i + j) \<noteq> 0 then HYPER_ADD + 2 else HYPER_ADD)
      else if c = HYPER_ADD + 2 then of_nat ((i + j + 1) AND 255)
      else if c = HYPER_ADD + 3 then of_nat (if drop_bit 8 (i + j + 1) \<noteq> 0 then HYPER_ADD + 2 else HYPER_ADD)
      else if c = HYPER_SUB then ucast ((of_nat i - of_nat j :: u16) AND 255)
      else if c = HYPER_SUB + 1 then of_nat (if drop_bit 8 (of_nat i - of_nat j :: u16) \<noteq> 0 then HYPER_SUB + 2 else HYPER_SUB)
      else if c = HYPER_SUB + 2 then ucast ((of_nat i - of_nat j - 1 :: u16) AND 255)
      else if c = HYPER_SUB + 3 then of_nat (if drop_bit 8 (of_nat i - of_nat j - 1 :: u16) \<noteq> 0 then HYPER_SUB + 2 else HYPER_SUB)
      else if c = HYPER_MUL then of_nat ((i * j) AND 0xff) else if c = HYPER_MUL + 1 then of_nat (drop_bit 8 (i * j))
      else if HYPER_SLL \<le> c \<and> c < HYPER_SLL + 8 then of_nat (drop_bit 8 (push_bit (c - HYPER_SLL) (256 * i + j)))
      else if HYPER_SRL \<le> c \<and> c < HYPER_SRL + 8 then of_nat (drop_bit (c - HYPER_SRL) (256 * i + j))
      else if HYPER_GEU \<le> c \<and> c < HYPER_GEU + 2 then
        of_nat (if drop_bit 8 (of_nat i - of_nat j - of_nat (c - HYPER_GEU) :: u32) \<noteq> 0 then HYPER_GEU + 1 else HYPER_GEU)
      else if HYPER_EQU \<le> c \<and> c < HYPER_EQU + 2 then of_nat (if i = j \<and> c \<noteq> HYPER_EQU then HYPER_EQU + 1 else HYPER_EQU)
      else if HYPER_GES \<le> c \<and> c < HYPER_GES + 4 then of_nat (ges_next i j c)
      else if c = HYPER_ADD_R then of_nat (if drop_bit 8 (i + j) \<noteq> 0 then HYPER_ADD_R + 2 else HYPER_ADD_R)
      else if c = HYPER_ADD_R + 1 then of_nat ((i + j) AND 255)
      else if c = HYPER_ADD_R + 2 then of_nat (if drop_bit 8 (i + j + 1) \<noteq> 0 then HYPER_ADD_R + 2 else HYPER_ADD_R)
      else if c = HYPER_ADD_R + 3 then of_nat ((i + j + 1) AND 255) else 0)"

definition truth_entry :: "u8 \<Rightarrow> u8 \<Rightarrow> u8 \<Rightarrow> u8 \<Rightarrow> nat \<Rightarrow> u8" where
  "truth_entry geu equ false true c =
     (if c = HYPER_GEU then geu else if c = HYPER_GEU + 1 then false
      else if c = HYPER_EQU then false else if c = HYPER_EQU + 1 then equ
      else if c = GES_FALSE \<or> c = GES_HIGH then false else true)"

definition super_entry :: "nat \<Rightarrow> nat \<Rightarrow> u8" where
  "super_entry i k = (if k = 0 then of_nat (i AND 0xff)
     else if k = 1 then of_nat (if drop_bit 8 i \<noteq> 0 then SUPER_INC + 2 else SUPER_INC)
     else if k = 2 then of_nat ((i + 1) AND 0xff)
     else of_nat (if drop_bit 8 (i + 1) \<noteq> 0 then SUPER_INC + 2 else SUPER_INC))"

definition regions :: "dma_tables \<Rightarrow> (nat \<times> nat \<times> (nat \<Rightarrow> u8)) list" where
  "regions t =
     [(unat (HYPER t), 2 ^ 24, \<lambda>k. hyper_entry (k div 65536) (k div 256 mod 256) (k mod 256)),
      (unat (SUPER t), 2 ^ 16, \<lambda>k. super_entry (k div 256) (k mod 256)),
      (unat (NOT_TABLE t), 2 ^ 8, \<lambda>k. NOT (of_nat k)),
      (unat (POLAR_TRUTH_X1 t), 2 ^ 8, truth_entry 1 1 0 1), (unat (ANTIPOLAR_TRUTH_X1 t), 2 ^ 8, truth_entry 0 0 1 0),
      (unat (POLAR_TRUTH_X4 t), 2 ^ 8, truth_entry 1 4 0 4), (unat (ANTIPOLAR_TRUTH_X4 t), 2 ^ 8, truth_entry 0 0 4 0),
      (unat (SLL_HYPER_SELECT t), 2 ^ 8, \<lambda>k. of_nat (HYPER_SLL + (k AND 7))),
      (unat (SRL_HYPER_SELECT t), 2 ^ 8, \<lambda>k. of_nat (HYPER_SRL + (k AND 7))),
      (unat (SRA_HI t), 2 ^ 16, \<lambda>k. signed_drop_bit (k mod 256 mod 8) (of_nat (k div 256)))]"

text \<open>The tables do not overlap.\<close>

definition tables_ok :: "dma_tables \<Rightarrow> bool" where
  "tables_ok t \<longleftrightarrow> sorted_wrt (\<lambda>(a, n, _) (b, k, _). away a n b k) (regions t)"

primrec region_value :: "(nat \<times> nat \<times> (nat \<Rightarrow> u8)) list \<Rightarrow> nat \<Rightarrow> u8 option" where
  "region_value [] x = None"
| "region_value (r # rs) x = (case r of (a, n, f) \<Rightarrow> if a \<le> x \<and> x < a + n then Some (f (x - a)) else region_value rs x)"

lemma region_value: "sorted_wrt (\<lambda>(a, n, _) (b, k, _). away a n b k) rs \<Longrightarrow> (a, n, f) \<in> set rs \<Longrightarrow> k < n \<Longrightarrow>
    region_value rs (a + k) = Some (f k)"
proof (induction rs)
  case (Cons r rs)
  obtain b m g where r: "r = (b, m, g)" by (cases r)
  show ?case
  proof (cases "r = (a, n, f)")
    case False
    then have i: "(a, n, f) \<in> set rs" using Cons.prems(2) by simp
    then have "away b m a n" using Cons.prems(1) by (auto simp: r)
    then have "\<not> (b \<le> a + k \<and> a + k < b + m)" using Cons.prems(3) by (auto simp: away_def)
    with Cons.IH [OF _ i Cons.prems(3)] Cons.prems(1) show ?thesis by (auto simp: r)
  qed (use Cons.prems in simp)
qed simp

definition all_initializers :: "dma_tables \<Rightarrow> stores list" where
  "all_initializers t = [init_not t, init_and t, init_or t, init_xor t, init_increment t, init_add t, init_sub t,
     init_mul t, init_add_r t, init_geu t, init_equ t, init_ges t, init_sll t, init_srl t, init_sra t]"

text \<open>The value of the regions at each kind of address.\<close>

lemma region_at:
  assumes "tables_ok t" "i < 10" "k < fst (snd (regions t ! i))"
  shows "region_value (regions t) (fst (regions t ! i) + k) = Some (snd (snd (regions t ! i)) k)"
proof -
  have "i < length (regions t)" using assms(2) by (simp add: regions_def)
  then have "(fst (regions t ! i), fst (snd (regions t ! i)), snd (snd (regions t ! i))) \<in> set (regions t)"
    by (simp add: nth_mem)
  from region_value [OF assms(1) [unfolded tables_ok_def] this assms(3)] show ?thesis .
qed

lemma region_nth:
  "regions t ! 0 = (unat (HYPER t), 2 ^ 24, \<lambda>k. hyper_entry (k div 65536) (k div 256 mod 256) (k mod 256))"
  "regions t ! 1 = (unat (SUPER t), 2 ^ 16, \<lambda>k. super_entry (k div 256) (k mod 256))"
  "regions t ! 2 = (unat (NOT_TABLE t), 2 ^ 8, \<lambda>k. NOT (of_nat k))"
  "regions t ! 3 = (unat (POLAR_TRUTH_X1 t), 2 ^ 8, truth_entry 1 1 0 1)"
  "regions t ! 4 = (unat (ANTIPOLAR_TRUTH_X1 t), 2 ^ 8, truth_entry 0 0 1 0)"
  "regions t ! 5 = (unat (POLAR_TRUTH_X4 t), 2 ^ 8, truth_entry 1 4 0 4)"
  "regions t ! 6 = (unat (ANTIPOLAR_TRUTH_X4 t), 2 ^ 8, truth_entry 0 0 4 0)"
  "regions t ! 7 = (unat (SLL_HYPER_SELECT t), 2 ^ 8, \<lambda>k. of_nat (HYPER_SLL + (k AND 7)))"
  "regions t ! 8 = (unat (SRL_HYPER_SELECT t), 2 ^ 8, \<lambda>k. of_nat (HYPER_SRL + (k AND 7)))"
  "regions t ! 9 = (unat (SRA_HI t), 2 ^ 16, \<lambda>k. signed_drop_bit (k mod 256 mod 8) (of_nat (k div 256)))"
  by (simp_all add: regions_def)

lemma hyper_value:
  assumes t: "tables_ok t" and i: "i < 256" "j < 256" "c < 256"
  shows "region_value (regions t) (unat (HYPER t) + (65536 * i + 256 * j + c)) = Some (hyper_entry i j c)"
proof -
  let ?k = "65536 * i + 256 * j + c"
  have "?k < 2 ^ 24" using i by simp
  then have "region_value (regions t) (unat (HYPER t) + ?k) = Some (hyper_entry (?k div 65536) (?k div 256 mod 256) (?k mod 256))"
    using region_at [OF t, of 0 ?k] by (simp only: region_nth fst_conv snd_conv)
  moreover have "?k = c + 256 * (256 * i + j)" by simp
  then have k: "?k mod 256 = c" "?k div 256 = 256 * i + j" using i(3) by (simp_all only: mod_mult_self2 div_mult_self2) simp_all
  moreover from this(2) have "?k div 65536 = i" "?k div 256 mod 256 = j"
    using i(2) div_mult2_eq [of ?k 256 256] by simp_all
  ultimately show ?thesis by (simp only:)
qed

lemma table_value:
  assumes t: "tables_ok t" and k: "k < 256"
  shows "region_value (regions t) (unat (NOT_TABLE t) + k) = Some (NOT (of_nat k))"
    "region_value (regions t) (unat (POLAR_TRUTH_X1 t) + k) = Some (truth_entry 1 1 0 1 k)"
    "region_value (regions t) (unat (ANTIPOLAR_TRUTH_X1 t) + k) = Some (truth_entry 0 0 1 0 k)"
    "region_value (regions t) (unat (POLAR_TRUTH_X4 t) + k) = Some (truth_entry 1 4 0 4 k)"
    "region_value (regions t) (unat (ANTIPOLAR_TRUTH_X4 t) + k) = Some (truth_entry 0 0 4 0 k)"
    "region_value (regions t) (unat (SLL_HYPER_SELECT t) + k) = Some (of_nat (HYPER_SLL + (k AND 7)))"
    "region_value (regions t) (unat (SRL_HYPER_SELECT t) + k) = Some (of_nat (HYPER_SRL + (k AND 7)))"
proof -
  have "k < 2 ^ 8" using k by simp
  from \<open>k < 2 ^ 8\<close> show "region_value (regions t) (unat (NOT_TABLE t) + k) = Some (NOT (of_nat k))"
    "region_value (regions t) (unat (POLAR_TRUTH_X1 t) + k) = Some (truth_entry 1 1 0 1 k)"
    "region_value (regions t) (unat (ANTIPOLAR_TRUTH_X1 t) + k) = Some (truth_entry 0 0 1 0 k)"
    "region_value (regions t) (unat (POLAR_TRUTH_X4 t) + k) = Some (truth_entry 1 4 0 4 k)"
    "region_value (regions t) (unat (ANTIPOLAR_TRUTH_X4 t) + k) = Some (truth_entry 0 0 4 0 k)"
    "region_value (regions t) (unat (SLL_HYPER_SELECT t) + k) = Some (of_nat (HYPER_SLL + (k AND 7)))"
    "region_value (regions t) (unat (SRL_HYPER_SELECT t) + k) = Some (of_nat (HYPER_SRL + (k AND 7)))"
    using region_at [OF t, of 2 k] region_at [OF t, of 3 k] region_at [OF t, of 4 k] region_at [OF t, of 5 k]
      region_at [OF t, of 6 k] region_at [OF t, of 7 k] region_at [OF t, of 8 k]
    by (simp_all only: region_nth fst_conv snd_conv)
qed

lemma wide_value:
  assumes t: "tables_ok t" and k: "i < 256" "k < 256"
  shows "region_value (regions t) (unat (SUPER t) + (256 * i + k)) = Some (super_entry i k)"
    "region_value (regions t) (unat (SRA_HI t) + (256 * i + k)) = Some (signed_drop_bit (k mod 8) (of_nat i))"
proof -
  have lt: "256 * i + k < 2 ^ 16" and d: "(256 * i + k) div 256 = i" "(256 * i + k) mod 256 = k" using k by simp_all
  show "region_value (regions t) (unat (SUPER t) + (256 * i + k)) = Some (super_entry i k)"
    "region_value (regions t) (unat (SRA_HI t) + (256 * i + k)) = Some (signed_drop_bit (k mod 8) (of_nat i))"
    using lt region_at [OF t, of 1 "256 * i + k"] region_at [OF t, of 9 "256 * i + k"]
    by (simp_all only: region_nth fst_conv snd_conv d)
qed

section \<open>The initializers agree with the contents\<close>

definition agree :: "dma_tables \<Rightarrow> stores \<Rightarrow> bool" where
  "agree t ws \<longleftrightarrow> (\<forall>(a, v) \<in> set ws. region_value (regions t) a = Some v)"

lemma agree_append [simp]: "agree t (xs @ ys) \<longleftrightarrow> agree t xs \<and> agree t ys"
  by (simp only: agree_def set_append ball_Un)

lemma agree_Cons [simp]: "agree t ((a, v) # ws) \<longleftrightarrow> region_value (regions t) a = Some v \<and> agree t ws"
  by (simp add: agree_def)

lemma agree_Nil [simp]: "agree t []"
  by (simp add: agree_def)

lemma agree_map: "(\<And>i. i < n \<Longrightarrow> region_value (regions t) (f i) = Some (g i)) \<Longrightarrow> agree t [(f i, g i). i \<leftarrow> [0..<n]]"
  by (simp add: agree_def del: upt_rec_numeral)

lemma agree_concat: "(\<And>i. i < n \<Longrightarrow> agree t (f i)) \<Longrightarrow> agree t (concat (map f [0..<n]))"
  by (simp add: agree_def del: upt_rec_numeral)

lemma agree_concats: "(\<And>ws. ws \<in> set wss \<Longrightarrow> agree t ws) \<Longrightarrow> agree t (concat wss)"
  by (auto simp: agree_def)

lemma agree_bit:
  assumes "tables_ok t"
  shows "agree t (init_and t)" "agree t (init_or t)" "agree t (init_xor t)"
  unfolding init_and_def init_or_def init_xor_def
  by (intro agree_concat agree_map; subst hyper_at_eq, simp, simp add: hyper_slots,
      subst hyper_value [OF assms], simp, simp, simp add: hyper_slots, simp add: hyper_entry_def hyper_slots)+

lemma agree_concat2:
  "(\<And>i j. i < 256 \<Longrightarrow> j < 256 \<Longrightarrow> agree t (F i j)) \<Longrightarrow> agree t (concat [F i j. i \<leftarrow> [0..<256], j \<leftarrow> [0..<256]])"
  by (fastforce simp: agree_def simp del: upt_rec_numeral)

lemma agree_concat3:
  "(\<And>i j l. i < 256 \<Longrightarrow> j < 256 \<Longrightarrow> l < 2 \<Longrightarrow> agree t (F i j l)) \<Longrightarrow>
   agree t (concat [F i j l. i \<leftarrow> [0..<256], j \<leftarrow> [0..<256], l \<leftarrow> [0..<2]])"
  by (fastforce simp: agree_def simp del: upt_rec_numeral)

lemma less_2: "(l :: nat) < 2 \<longleftrightarrow> l = 0 \<or> l = 1"
  by auto

lemma hyper_values:
  assumes "tables_ok t" "i < 256" "j < 256"
  shows "c < 256 \<Longrightarrow> region_value (regions t) (hyper_at t i j c) = Some (hyper_entry i j c)"
    "c < 256 \<Longrightarrow> c + l + k < 256 \<Longrightarrow> region_value (regions t) (hyper_at t i j c + l + k) = Some (hyper_entry i j (c + l + k))"
    "c < 256 \<Longrightarrow> region_value (regions t) (hyper_pair t i j c) = Some (hyper_entry i j c)"
  using hyper_value [OF assms, of "c + l + k"] hyper_value [OF assms, of c] hyper_at_eq [OF assms(3), of c t i] hyper_pair_eq [of t i j c]
  by (simp_all add: ac_simps)

lemma agree_add: "tables_ok t \<Longrightarrow> agree t (init_add t)"
  unfolding init_add_def
proof (rule agree_concat3)
  fix i j l :: nat
  assume t: "tables_ok t" and i: "i < 256" "j < 256" and l: "l < 2"
  have "region_value (regions t) (hyper_at t i j HYPER_ADD + 2 * l + k) = Some (hyper_entry i j (HYPER_ADD + 2 * l + k))" if "k < 2" for k
    using that l by (intro hyper_values(2) [OF t i]) (simp_all add: hyper_slots)
  from this [of 0] this [of 1] l
  show "agree t (let r = i + j + l in
     [(hyper_at t i j HYPER_ADD + 2 * l + 0, of_nat (r AND 255)),
      (hyper_at t i j HYPER_ADD + 2 * l + 1, of_nat (if drop_bit 8 r \<noteq> 0 then HYPER_ADD + 2 else HYPER_ADD))])"
    unfolding less_2 Let_def by (elim disjE; simp add: hyper_entry_def hyper_slots)
qed

lemma agree_sub: "tables_ok t \<Longrightarrow> agree t (init_sub t)"
  unfolding init_sub_def
proof (rule agree_concat3)
  fix i j l :: nat
  assume t: "tables_ok t" and i: "i < 256" "j < 256" and l: "l < 2"
  have "region_value (regions t) (hyper_at t i j HYPER_SUB + 2 * l + k) = Some (hyper_entry i j (HYPER_SUB + 2 * l + k))" if "k < 2" for k
    using that l by (intro hyper_values(2) [OF t i]) (simp_all add: hyper_slots)
  from this [of 0] this [of 1] l
  show "agree t (let r = of_nat i - of_nat j - of_nat l :: u16 in
     [(hyper_at t i j HYPER_SUB + 2 * l + 0, ucast (r AND 255)),
      (hyper_at t i j HYPER_SUB + 2 * l + 1, of_nat (if drop_bit 8 r \<noteq> 0 then HYPER_SUB + 2 else HYPER_SUB))])"
    unfolding less_2 Let_def by (elim disjE; simp add: hyper_entry_def hyper_slots)
qed

lemma agree_add_r: "tables_ok t \<Longrightarrow> agree t (init_add_r t)"
  unfolding init_add_r_def
proof (rule agree_concat3)
  fix i j l :: nat
  assume t: "tables_ok t" and i: "i < 256" "j < 256" and l: "l < 2"
  have "HYPER_ADD_R OR push_bit 1 l OR k = HYPER_ADD_R + 2 * l + k" if "k < 2" for k
    using that l unfolding less_2 by (elim disjE) (simp_all add: hyper_slots)
  moreover have "region_value (regions t) (hyper_at t i j (HYPER_ADD_R + 2 * l + k)) = Some (hyper_entry i j (HYPER_ADD_R + 2 * l + k))" if "k < 2" for k
    using that l by (intro hyper_values(1) [OF t i]) (simp add: hyper_slots)
  ultimately have "region_value (regions t) (hyper_at t i j (HYPER_ADD_R OR push_bit 1 l OR k)) = Some (hyper_entry i j (HYPER_ADD_R + 2 * l + k))" if "k < 2" for k
    using that by simp
  from this [of 0] this [of 1] l
  show "agree t [(hyper_at t i j (HYPER_ADD_R OR push_bit 1 l OR 0),
        of_nat (if drop_bit 8 (i + j + l) \<noteq> 0 then HYPER_ADD_R + 2 else HYPER_ADD_R)),
      (hyper_at t i j (HYPER_ADD_R OR push_bit 1 l OR 1), of_nat ((i + j + l) AND 255))]"
    unfolding less_2 by (elim disjE; simp add: hyper_entry_def hyper_slots)
qed

lemma agree_mul: "tables_ok t \<Longrightarrow> agree t (init_mul t)"
  unfolding init_mul_def
  by (rule agree_concat2) (simp add: hyper_values hyper_slots, simp add: hyper_entry_def hyper_slots)

lemma agree_truth:
  assumes "tables_ok t"
  shows "agree t (SET_TRUTH_TABLES t HYPER_GEU 1 0)" "agree t (SET_TRUTH_TABLES t HYPER_EQU 0 1)"
proof -
  have s: "HYPER_GEU + 0 < 256" "HYPER_GEU + 1 < 256" "HYPER_EQU + 0 < 256" "HYPER_EQU + 1 < 256"
    by (simp_all add: hyper_slots)
  show "agree t (SET_TRUTH_TABLES t HYPER_GEU 1 0)" "agree t (SET_TRUTH_TABLES t HYPER_EQU 0 1)"
    unfolding SET_TRUTH_TABLES_def agree_Cons add.assoc table_value [OF assms s(1)] table_value [OF assms s(2)]
      table_value [OF assms s(3)] table_value [OF assms s(4)]
    by (simp_all add: truth_entry_def hyper_slots ges_slots)
qed

lemma agree_geu: "tables_ok t \<Longrightarrow> agree t (init_geu t)"
  unfolding init_geu_def agree_append
proof (intro conjI agree_truth(1) agree_concat agree_map)
  fix i j l :: nat
  assume t: "tables_ok t" and i: "i < 256" "j < 256" and l: "l < 2"
  then have "region_value (regions t) (hyper_pair t i j (HYPER_GEU + l)) = Some (hyper_entry i j (HYPER_GEU + l))"
    by (intro hyper_values(3)) (simp_all add: hyper_slots)
  with l show "region_value (regions t) (hyper_pair t i j (HYPER_GEU + l)) =
      Some (of_nat (if drop_bit 8 (of_nat i - of_nat j - of_nat l :: u32) \<noteq> 0 then HYPER_GEU + 1 else HYPER_GEU))"
    by (simp add: hyper_entry_def hyper_slots)
qed

lemma agree_equ: "tables_ok t \<Longrightarrow> agree t (init_equ t)"
  unfolding init_equ_def agree_append
proof (intro conjI agree_truth(2) agree_concat agree_map)
  fix i j l :: nat
  assume t: "tables_ok t" and i: "i < 256" "j < 256" and l: "l < 2"
  then have "region_value (regions t) (hyper_pair t i j (HYPER_EQU + l)) = Some (hyper_entry i j (HYPER_EQU + l))"
    by (intro hyper_values(3)) (simp_all add: hyper_slots)
  with l show "region_value (regions t) (hyper_pair t i j (HYPER_EQU + l)) =
      Some (of_nat (if i = j \<and> l \<noteq> 0 then HYPER_EQU + 1 else HYPER_EQU))"
    by (simp add: hyper_entry_def hyper_slots)
qed

lemma agree_ges: "tables_ok t \<Longrightarrow> agree t (init_ges t)"
  unfolding init_ges_def agree_append
proof (intro conjI agree_concat agree_map)
  fix i j l :: nat
  assume t: "tables_ok t" and i: "i < 256" "j < 256" and l: "l < 4"
  then have "region_value (regions t) (hyper_pair t i j (HYPER_GES + l)) = Some (hyper_entry i j (HYPER_GES + l))"
    by (intro hyper_values(3)) (simp_all add: hyper_slots)
  with l show "region_value (regions t) (hyper_pair t i j (HYPER_GES + l)) = Some (of_nat (ges_next i j (HYPER_GES + l)))"
    by (simp add: hyper_entry_def hyper_slots)
qed (simp add: table_value ges_slots hyper_slots, simp add: truth_entry_def hyper_slots ges_slots)

lemma agree_not: "tables_ok t \<Longrightarrow> agree t (init_not t)"
  unfolding init_not_def by (rule agree_map) (simp add: table_value)

lemma agree_increment: "tables_ok t \<Longrightarrow> agree t (init_increment t)"
  unfolding init_increment_def
proof (rule agree_concat)
  fix i :: nat
  assume t: "tables_ok t" and i: "i < 256"
  have "region_value (regions t) (super_at t i k) = Some (super_entry i k)" if "k < 256" for k
    using wide_value(1) [OF t i that] by (simp add: super_at_def hyper_slots push_bit_eq_mult ac_simps)
  from this [of 0] this [of 1] this [of 2] this [of 3]
  show "agree t [(super_at t i 0, of_nat ((i + 0) AND 0xff)),
      (super_at t i 1, of_nat (if drop_bit 8 (i + 0) \<noteq> 0 then SUPER_INC + 2 else SUPER_INC)),
      (super_at t i 2, of_nat ((i + 1) AND 0xff)),
      (super_at t i 3, of_nat (if drop_bit 8 (i + 1) \<noteq> 0 then SUPER_INC + 2 else SUPER_INC))]"
    by (simp add: super_entry_def)
qed

lemma shift_value:
  assumes "tables_ok t" "i < 65536" "c + s < 256"
  shows "region_value (regions t) (hyper_shift t i c s) = Some (hyper_entry (i div 256) (i mod 256) (c + s))"
proof -
  have "i div 256 < 256" "i mod 256 < 256" using assms(2) by auto
  note v = hyper_value [OF assms(1) this assms(3)]
  have "65536 * (i div 256) + 256 * (i mod 256) = 256 * i" using mult_div_mod_eq [of 256 i] by linarith
  with v show ?thesis by (simp only: hyper_shift_eq [OF assms(3)])
qed

lemma agree_sll: "tables_ok t \<Longrightarrow> agree t (init_sll t)"
  unfolding init_sll_def agree_append
proof (intro conjI agree_concat agree_map)
  fix i s :: nat
  assume t: "tables_ok t" and i: "i < 65536" and s: "s < 8"
  show "region_value (regions t) (hyper_shift t i HYPER_SLL s) = Some (of_nat (drop_bit 8 (push_bit s i)))"
    using shift_value [OF t i, of HYPER_SLL s] s by (simp add: hyper_entry_def hyper_slots)
qed (simp add: table_value)

lemma agree_srl: "tables_ok t \<Longrightarrow> agree t (init_srl t)"
  unfolding init_srl_def agree_append
proof (intro conjI agree_concat agree_map)
  fix i s :: nat
  assume t: "tables_ok t" and i: "i < 65536" and s: "s < 8"
  show "region_value (regions t) (hyper_shift t i HYPER_SRL s) = Some (of_nat (drop_bit s i))"
    using shift_value [OF t i, of HYPER_SRL s] s by (simp add: hyper_entry_def hyper_slots)
qed (simp add: table_value)

lemma agree_sra: "tables_ok t \<Longrightarrow> agree t (init_sra t)"
  unfolding init_sra_def
  by (intro agree_concat agree_map) (use or_low [of _ 8] in \<open>simp add: wide_value\<close>)

lemma agree_all: "tables_ok t \<Longrightarrow> ws \<in> set (all_initializers t) \<Longrightarrow> agree t ws"
  by (auto simp: all_initializers_def agree_not agree_bit agree_increment agree_add agree_sub agree_mul agree_add_r
      agree_geu agree_equ agree_ges agree_sll agree_srl agree_sra)

lemma run_inittab_tables:
  assumes "tables_ok t" "set (map snd tab) \<subseteq> set (all_initializers t)"
  shows "ws \<in> set (map snd tab) \<Longrightarrow> stored ws (run_inittab tab m)"
    "region_value (regions t) x = None \<Longrightarrow> run_inittab tab m x = m x"
proof -
  have g: "region_value (regions t) a = Some v" if "(a, v) \<in> set (concat (map snd tab))" for a v
  proof -
    from that obtain xs where "xs \<in> set (map snd tab)" "(a, v) \<in> set xs" by auto
    with agree_all [OF assms(1)] assms(2) show ?thesis by (fastforce simp: agree_def)
  qed
  show "stored ws (run_inittab tab m)" if "ws \<in> set (map snd tab)"
    unfolding run_inittab_eq by (rule stored_agree(1) [OF g]) (use that in auto)
  show "region_value (regions t) x = None \<Longrightarrow> run_inittab tab m x = m x"
    unfolding run_inittab_eq by (rule stored_agree(2) [OF g])
qed

section \<open>Initialization\<close>

text \<open>
  C23: Whatever the order in which the linker collects the initializers, and whichever of them it
  collects, after \<^verbatim>\<open>run_initializers\<close> every one of their tables is complete and no byte outside of
  the tables has changed; a second call panics.
\<close>

theorem initializers_fill_tables:
  assumes "tables_ok t" "set (map snd tab) \<subseteq> set (all_initializers t)"
  shows "\<exists>m'. run_initializers tab (False, m) = Some (True, m') \<and> (\<forall>ws \<in> set (map snd tab). stored ws m') \<and>
      (\<forall>x. region_value (regions t) x = None \<longrightarrow> m' x = m x) \<and> run_initializers tab (True, m') = None"
  using run_inittab_tables [OF assms] by (simp add: run_initializers_def)

text \<open>Tables as a linker may place them.\<close>

definition sample_tables :: dma_tables where
  "sample_tables = \<lparr>NOT_TABLE = 0x100, HYPER = 0x1000000, SUPER = 0x10000, POLAR_TRUTH_X1 = 0x200,
     ANTIPOLAR_TRUTH_X1 = 0x300, POLAR_TRUTH_X4 = 0x400, ANTIPOLAR_TRUTH_X4 = 0x500, SLL_HYPER_SELECT = 0x600,
     SRL_HYPER_SELECT = 0x700, SRA_HI = 0x20000\<rparr>"

definition sample_inittab :: "(string \<times> stores) list" where
  "sample_inittab = map (Pair ''arith'') (all_initializers sample_tables)"

lemma sample_tables_ok: "tables_ok sample_tables"
  by (simp add: tables_ok_def regions_def sample_tables_def away_def)

lemma sample_inittab_set: "set (map snd sample_inittab) = set (all_initializers sample_tables)"
  by (simp add: sample_inittab_def comp_def)

theorem initializers_fill_tables_witness:
  "\<exists>m'. run_initializers sample_inittab (False, \<lambda>_. 7) = Some (True, m') \<and> stored (init_mul sample_tables) m' \<and> m' 0x800 = 7"
proof -
  from initializers_fill_tables [OF sample_tables_ok, of sample_inittab "\<lambda>_. 7"] sample_inittab_set
  obtain m' where "run_initializers sample_inittab (False, \<lambda>_. 7) = Some (True, m')"
    "\<forall>ws \<in> set (map snd sample_inittab). stored ws m'" "\<forall>x. region_value (regions sample_tables) x = None \<longrightarrow> m' x = 7" by auto
  moreover have "init_mul sample_tables \<in> set (map snd sample_inittab)"
    unfolding sample_inittab_set by (simp add: all_initializers_def)
  moreover have "region_value (regions sample_tables) 0x800 = None"
    by (simp add: regions_def sample_tables_def)
  ultimately show ?thesis by blast
qed

end
