(* ===== verification/Dma_Correct.thy ===== *)
theory Dma_Correct
  imports Dma_Compare Dma_Init
begin

text \<open>
  What the bitwise operations and the comparisons compute, on little-endian numbers of any width up
  to 2^14 bytes, from the emission of their control blocks to the memory the engine leaves.
\<close>

section \<open>Numbers in memory\<close>

primrec num :: "mem \<Rightarrow> nat \<Rightarrow> nat \<Rightarrow> nat" where
  "num m a 0 = 0"
| "num m a (Suc w) = num m a w + 256 ^ w * unat (m (a + w))"

lemma num_less: "num m a w < 256 ^ w"
proof (induction w)
  case (Suc w)
  have "256 ^ w * unat (m (a + w)) \<le> 256 ^ w * 255"
    using u8_bound [of "m (a + w)"] by (intro mult_le_mono2) simp
  with Suc show ?case unfolding num.simps power_Suc by linarith
qed simp

lemma bit_u8: "bit (unat (x :: u8)) n \<Longrightarrow> n < 8"
  by (auto simp: bit_simps dest: bit_imp_le_length)

lemma bit_num: "bit (num m a w) n \<longleftrightarrow> n div 8 < w \<and> bit (m (a + n div 8)) (n mod 8)"
proof (induction w)
  case 0
  then show ?case by simp
next
  case (Suc w)
  have p: "(256 :: nat) ^ w = 2 ^ (8 * w)" by (simp add: power_mult)
  have "num m a (Suc w) = push_bit (8 * w) (unat (m (a + w))) OR num m a w"
    using or_low [of "num m a w" "8 * w" "unat (m (a + w))"] num_less [of m a w] p by simp
  then have b: "bit (num m a (Suc w)) n \<longleftrightarrow> 8 * w \<le> n \<and> bit (m (a + w)) (n - 8 * w) \<or> bit (num m a w) n"
    by (auto simp: bit_simps)
  show ?case
  proof (cases "n div 8 < w")
    case True
    then have "n < 8 * w" by linarith
    with True show ?thesis unfolding b Suc by auto
  next
    case False
    then have le: "8 * w \<le> n" and s: "n div 8 < Suc w \<longleftrightarrow> n div 8 = w" by linarith+
    have "bit (m (a + w)) (n - 8 * w) \<Longrightarrow> n div 8 = w"
      using bit_imp_le_length [of "m (a + w)" "n - 8 * w"] False by simp
    moreover have "n mod 8 = n - 8 * w" if "n div 8 = w" using minus_mult_div_eq_mod [of n 8] that by simp
    ultimately show ?thesis using False le unfolding b Suc s by auto
  qed
qed

lemma num_bitwise:
  assumes "\<And>i. i < w \<Longrightarrow> m' (r + i) = f (m (a + i)) (m (b + i))"
  shows "f = (AND) \<Longrightarrow> num m' r w = num m a w AND num m b w"
    "f = (OR) \<Longrightarrow> num m' r w = num m a w OR num m b w"
    "f = (XOR) \<Longrightarrow> num m' r w = num m a w XOR num m b w"
  using assms by (intro bit_eqI; auto simp: bit_num bit_simps)+

lemma num_1: "num m r 1 = unat (m r)"
  by simp

lemma num_2: "num m r 2 = unat (m r) + 256 * unat (m (r + 1))"
  by (simp add: numeral_2_eq_2)

section \<open>The contract of an operation\<close>

text \<open>
  The emission of \<open>n\<close> blocks succeeds, the engine runs through them, the result is \<open>v\<close>, and all memory
  but the result and the blocks is as before.
\<close>

definition computes :: "engine \<Rightarrow> emit_st \<Rightarrow> nat \<Rightarrow> emit_st option \<Rightarrow> nat \<Rightarrow> nat \<Rightarrow> nat \<Rightarrow> bool" where
  "computes hw s n res r w v \<longleftrightarrow> (\<exists>s' m'. res = Some s' \<and> pos s' = pos s + 32 * n \<and>
     dma_run hw n (busn (pos s), snd s') = (busn (pos s'), m') \<and> num m' r w = v \<and>
     (\<forall>x. \<not> (r \<le> x \<and> x < r + w) \<and> (x < pos s \<or> pos s' \<le> x) \<longrightarrow> m' x = snd s x))"

text \<open>
  Where the operands, the result of \<open>k\<close> bytes, the big table and the blocks lie: the table is aligned,
  and operands, table and blocks do not overlap; the result may overlap the operands.
\<close>

definition laid_out :: "dma_tables \<Rightarrow> emit_st \<Rightarrow> nat \<Rightarrow> nat \<Rightarrow> nat \<Rightarrow> nat \<Rightarrow> nat \<Rightarrow> nat \<Rightarrow> bool" where
  "laid_out t s n w k r a b \<longleftrightarrow> fits s n \<and> 0 < w \<and> w \<le> 2 ^ 14 \<and> hyper_ok t \<and>
     clear s n (unat (HYPER t)) (2 ^ 24) \<and> clear s n a w \<and> clear s n b w \<and> clear s n r k \<and>
     away r k (unat (HYPER t)) (2 ^ 24)"

definition truth_ok :: "dma_tables \<Rightarrow> emit_st \<Rightarrow> nat \<Rightarrow> nat \<Rightarrow> u32 \<Rightarrow> bool" where
  "truth_ok t s n r flags \<longleftrightarrow> page_ok s n (truth_table t flags) \<and> away r 1 (unat (truth_table t flags)) 256"

text \<open>Operations at a concrete place: two numbers of two bytes, after initialization.\<close>

definition sample_mem :: mem where
  "sample_mem = run_inittab sample_inittab
     ((\<lambda>_. 0)(0x40000 := 200, 0x40001 := 7, 0x40010 := 100, 0x40011 := 8, 0x40018 := 3))"

definition sample_st :: emit_st where
  "sample_st = (\<lparr>ec_base = 0x30000, ec_p = 0x30000, ec_cap = 64\<rparr>, sample_mem)"

lemma sample_stored: "ws \<in> set (all_initializers sample_tables) \<Longrightarrow> stored ws (snd sample_st)"
  using run_inittab_tables(1) [OF sample_tables_ok eq_refl [OF sample_inittab_set]]
  by (simp only: sample_inittab_set sample_st_def sample_mem_def snd_conv)

lemma sample_bytes: "sample_mem 0x40000 = 200" "sample_mem 0x40001 = 7" "sample_mem 0x40010 = 100" "sample_mem 0x40011 = 8"
  "sample_mem 0x40018 = 3"
proof -
  have "sample_mem x = ((\<lambda>_. 0)(0x40000 := 200, 0x40001 := 7, 0x40010 := 100, 0x40011 := 8, 0x40018 := 3)) x"
    if "region_value (regions sample_tables) x = None" for x
    unfolding sample_mem_def
    by (rule run_inittab_tables(2) [OF sample_tables_ok eq_refl [OF sample_inittab_set] that])
  then show "sample_mem 0x40000 = 200" "sample_mem 0x40001 = 7" "sample_mem 0x40010 = 100" "sample_mem 0x40011 = 8"
    "sample_mem 0x40018 = 3"
    by (simp_all add: regions_def sample_tables_def)
qed

lemma sample_nums: "num (snd sample_st) 0x40000 2 = 1992" "num (snd sample_st) 0x40010 2 = 2148"
  using sample_bytes by (simp_all add: sample_st_def num_2)

lemma sample_laid: "n \<le> 64 \<Longrightarrow> k \<le> 16 \<Longrightarrow> laid_out sample_tables sample_st n 2 k 0x40020 0x40000 0x40010"
  by (simp add: laid_out_def fits_def clear_def away_def hyper_ok_def pos_def sample_st_def sample_tables_def)

lemma sample_truth: "n \<le> 64 \<Longrightarrow> truth_ok sample_tables sample_st n 0x40020 flags"
  by (simp add: truth_ok_def page_ok_def clear_def away_def pos_def sample_st_def sample_tables_def truth_table_def)

section \<open>Bitwise operations\<close>

lemma hyper_op_computes:
  assumes hw: "dma_engine hw" and l: "laid_out t s (w + 2) w w r a b" and c: "c < 256"
    and tab: "\<And>x y. snd s (hyper t x y c) = f x y"
  shows "f = (AND) \<Longrightarrow> computes hw s (w + 2) (hyper_op c t w (busn r) (busn a) (busn b) s) r w (num (snd s) b w AND num (snd s) a w)"
    "f = (OR) \<Longrightarrow> computes hw s (w + 2) (hyper_op c t w (busn r) (busn a) (busn b) s) r w (num (snd s) b w OR num (snd s) a w)"
    "f = (XOR) \<Longrightarrow> computes hw s (w + 2) (hyper_op c t w (busn r) (busn a) (busn b) s) r w (num (snd s) b w XOR num (snd s) a w)"
proof -
  from l have "\<exists>s' m'. hyper_op c t w (busn r) (busn a) (busn b) s = Some s' \<and> pos s' = pos s + 32 * (w + 2) \<and>
    dma_run hw (w + 2) (busn (pos s), snd s') = (busn (pos s'), m') \<and>
    (\<forall>i < w. m' (r + i) = snd s (hyper t (snd s (b + i)) (snd s (a + i)) c)) \<and>
    (\<forall>x. \<not> (r \<le> x \<and> x < r + w) \<and> (x < pos s \<or> pos s' \<le> x) \<longrightarrow> m' x = snd s x)"
    unfolding laid_out_def by (intro hyper_op_correct [OF hw _ _ _ _ _ c]) blast+
  then obtain s' m' where r: "hyper_op c t w (busn r) (busn a) (busn b) s = Some s'" "pos s' = pos s + 32 * (w + 2)"
    "dma_run hw (w + 2) (busn (pos s), snd s') = (busn (pos s'), m')"
    "\<forall>i < w. m' (r + i) = f (snd s (b + i)) (snd s (a + i))"
    "\<forall>x. \<not> (r \<le> x \<and> x < r + w) \<and> (x < pos s \<or> pos s' \<le> x) \<longrightarrow> m' x = snd s x"
    unfolding tab by blast
  note n = num_bitwise [of w m' r f "snd s" b a, OF r(4) [rule_format]]
  show "f = (AND) \<Longrightarrow> computes hw s (w + 2) (hyper_op c t w (busn r) (busn a) (busn b) s) r w (num (snd s) b w AND num (snd s) a w)"
    "f = (OR) \<Longrightarrow> computes hw s (w + 2) (hyper_op c t w (busn r) (busn a) (busn b) s) r w (num (snd s) b w OR num (snd s) a w)"
    "f = (XOR) \<Longrightarrow> computes hw s (w + 2) (hyper_op c t w (busn r) (busn a) (busn b) s) r w (num (snd s) b w XOR num (snd s) a w)"
    unfolding computes_def using r(1-3,5) n by blast+
qed

lemma bitwise_tables: "stored (init_and t @ init_or t @ init_xor t) m \<Longrightarrow> m (hyper t x y HYPER_AND) = x AND y"
  "stored (init_and t @ init_or t @ init_xor t) m \<Longrightarrow> m (hyper t x y HYPER_OR) = x OR y"
  "stored (init_and t @ init_or t @ init_xor t) m \<Longrightarrow> m (hyper t x y HYPER_XOR) = x XOR y"
  by (simp_all only: stored_append stored_and stored_or stored_xor)

lemma slots_small: "HYPER_AND < 256" "HYPER_OR < 256" "HYPER_XOR < 256"
  by (simp_all add: hyper_slots)

text \<open>
  C18: \<^verbatim>\<open>And\<close>, \<^verbatim>\<open>Or\<close> and \<^verbatim>\<open>Xor\<close> emit control blocks that leave the conjunction, disjunction and exclusive
  disjunction of the two numbers in the result, for every width, and change nothing else; the
  result may overlap the operands.
\<close>

theorem bitwise_operations_compute:
  assumes "dma_engine hw" "laid_out t s (w + 2) w w r a b" "stored (init_and t @ init_or t @ init_xor t) (snd s)"
  shows "computes hw s (w + 2) (And t w (busn r) (busn a) (busn b) s) r w (num (snd s) a w AND num (snd s) b w) \<and>
    computes hw s (w + 2) (Or t w (busn r) (busn a) (busn b) s) r w (num (snd s) a w OR num (snd s) b w) \<and>
    computes hw s (w + 2) (Xor t w (busn r) (busn a) (busn b) s) r w (num (snd s) a w XOR num (snd s) b w)"
  unfolding hyper_ops
  using hyper_op_computes [OF assms(1,2) slots_small(1) bitwise_tables(1) [OF assms(3)]]
    hyper_op_computes [OF assms(1,2) slots_small(2) bitwise_tables(2) [OF assms(3)]]
    hyper_op_computes [OF assms(1,2) slots_small(3) bitwise_tables(3) [OF assms(3)]]
  by (simp_all only: ac_simps simp_thms)

theorem bitwise_operations_compute_witness:
  "computes documented_engine sample_st 4 (And sample_tables 2 (busn 0x40020) (busn 0x40000) (busn 0x40010) sample_st) 0x40020 2 64 \<and>
   computes documented_engine sample_st 4 (Or sample_tables 2 (busn 0x40020) (busn 0x40000) (busn 0x40010) sample_st) 0x40020 2 4076 \<and>
   computes documented_engine sample_st 4 (Xor sample_tables 2 (busn 0x40020) (busn 0x40000) (busn 0x40010) sample_st) 0x40020 2 4012"
proof -
  have "stored (init_and sample_tables @ init_or sample_tables @ init_xor sample_tables) (snd sample_st)"
    by (simp add: sample_stored all_initializers_def)
  moreover have "laid_out sample_tables sample_st (2 + 2) 2 2 0x40020 0x40000 0x40010" by (rule sample_laid) simp_all
  ultimately show ?thesis
    using bitwise_operations_compute [OF documented_engine, of sample_tables sample_st 2 "0x40020" "0x40000" "0x40010"]
    by (simp add: sample_nums)
qed

section \<open>Comparisons\<close>

lemma num_mono_less:
  "num m a (Suc w) < num m b (Suc w) \<longleftrightarrow>
    unat (m (a + w)) < unat (m (b + w)) + (if num m a w < num m b w then 1 else 0)"
proof -
  let ?x = "unat (m (a + w))" and ?y = "unat (m (b + w))" and ?B = "256 ^ w :: nat"
  have l: "num m a w < ?B" "num m b w < ?B" by (rule num_less)+
  consider "?x < ?y" | "?x = ?y" | "?y < ?x" by linarith
  then show ?thesis
  proof cases
    case 1
    then have "?B * Suc ?x \<le> ?B * ?y" by (intro mult_le_mono2) simp
    with 1 l show ?thesis by simp
  next
    case 3
    then have "?B * Suc ?y \<le> ?B * ?x" by (intro mult_le_mono2) simp
    with 3 l show ?thesis by simp
  qed simp
qed

lemma num_eq_Suc: "num m a (Suc w) = num m b (Suc w) \<longleftrightarrow> num m a w = num m b w \<and> m (a + w) = m (b + w)"
proof
  assume e: "num m a (Suc w) = num m b (Suc w)"
  have l: "num m a w < 256 ^ w" "num m b w < 256 ^ w" by (rule num_less)+
  have "num m a (Suc w) div 256 ^ w = unat (m (a + w))" "num m b (Suc w) div 256 ^ w = unat (m (b + w))"
    "num m a (Suc w) mod 256 ^ w = num m a w" "num m b (Suc w) mod 256 ^ w = num m b w"
    using l by simp_all
  with e show "num m a w = num m b w \<and> m (a + w) = m (b + w)" by (metis word_unat_eq_iff)
qed simp

definition geu_next :: "u8 \<Rightarrow> u8 \<Rightarrow> nat \<Rightarrow> nat" where
  "geu_next x y c = (if unat x < unat y + (c - HYPER_GEU) then HYPER_GEU + 1 else HYPER_GEU)"

definition equ_next :: "u8 \<Rightarrow> u8 \<Rightarrow> nat \<Rightarrow> nat" where
  "equ_next x y c = (if x = y \<and> c \<noteq> HYPER_EQU then HYPER_EQU + 1 else HYPER_EQU)"

lemma geu_state: "chain_state geu_next (\<lambda>i. m (a + i)) (\<lambda>i. m (b + i)) HYPER_GEU w =
    HYPER_GEU + (if num m a w < num m b w then 1 else 0)"
proof (induction w)
  case (Suc w)
  show ?case unfolding chain_state.simps Suc num_mono_less by (simp add: geu_next_def)
qed simp

lemma equ_state: "chain_state equ_next (\<lambda>i. m (a + i)) (\<lambda>i. m (b + i)) (HYPER_EQU + 1) w =
    HYPER_EQU + (if num m a w = num m b w then 1 else 0)"
proof (induction w)
  case (Suc w)
  show ?case unfolding chain_state.simps Suc num_eq_Suc by (simp add: equ_next_def)
qed simp

lemma compare_op_computes:
  assumes hw: "dma_engine hw" and l: "laid_out t s (w + 3) w 1 r a b" and p: "truth_ok t s (w + 3) r flags"
    and tab: "\<And>x y c. c \<in> S \<Longrightarrow> snd s (hyper t x y c) = of_nat (T x y c) \<and> T x y c \<in> S" "S \<subseteq> {..<256}" "c \<in> S"
    and v: "snd s (unat (truth_table t flags) + chain_state T (\<lambda>i. snd s (a + i)) (\<lambda>i. snd s (b + i)) c w) = v"
  shows "computes hw s (w + 3) (compare_op c t w (busn r) (busn a) (busn b) flags s) r 1 (unat v)"
proof -
  from l have l: "fits s (w + 3)" "0 < w" "w \<le> 2 ^ 14" "hyper_ok t" "clear s (w + 3) (unat (HYPER t)) (2 ^ 24)"
    "clear s (w + 3) a w" "clear s (w + 3) b w" "clear s (w + 3) r 1" by (simp_all add: laid_out_def)
  from p have p: "page_ok s (w + 3) (truth_table t flags)" "away r 1 (unat (truth_table t flags)) 256"
    by (simp_all add: truth_ok_def)
  have c: "c < 256" using tab(2,3) by auto
  from compare_op_emitted [OF l(1-4) c p(1)] obtain s' where
    s': "compare_op c t w (busn r) (busn a) (busn b) flags s = Some s'"
      "emitted s (truth_prog t c (pos s) w r a b flags) s'" by blast
  have "pos s' = pos s + 32 * (w + 3)" using s'(2) by (simp add: emitted_def truth_prog_nth(5))
  moreover from truth_prog_run [OF hw l(1-5) p(1) l(6-8) p(2) tab s'(2)] obtain m' where
    "dma_run hw (w + 3) (busn (pos s), snd s') = (busn (pos s'), m')" "m' r = v"
    "\<forall>x. x \<noteq> r \<and> (x < pos s \<or> pos s' \<le> x) \<longrightarrow> m' x = snd s x"
    unfolding v by blast
  moreover have "\<not> (r \<le> x \<and> x < r + 1) \<longleftrightarrow> x \<noteq> r" for x by auto
  ultimately show ?thesis using s'(1) unfolding computes_def num_1 by auto
qed

lemma geu_slot: "c \<in> {HYPER_GEU, HYPER_GEU + 1} \<Longrightarrow> stored (init_geu t) m \<Longrightarrow>
    m (hyper t x y c) = of_nat (geu_next x y c) \<and> geu_next x y c \<in> {HYPER_GEU, HYPER_GEU + 1}"
  using stored_geu [of t m 0 x y] stored_geu [of t m 1 x y] by (auto simp: geu_next_def)

lemma equ_slot: "c \<in> {HYPER_EQU, HYPER_EQU + 1} \<Longrightarrow> stored (init_equ t) m \<Longrightarrow>
    m (hyper t x y c) = of_nat (equ_next x y c) \<and> equ_next x y c \<in> {HYPER_EQU, HYPER_EQU + 1}"
  using stored_equ [of t m 0 x y] stored_equ [of t m 1 x y] by (auto simp: equ_next_def)

lemma stored_truth_equ:
  assumes "stored (init_equ t) m" "l < 2"
  shows "m (unat (POLAR_TRUTH_X1 t) + (HYPER_EQU + l)) = (if l = 0 then 0 else 1)"
    "m (unat (ANTIPOLAR_TRUTH_X1 t) + (HYPER_EQU + l)) = (if l = 0 then 1 else 0)"
    "m (unat (POLAR_TRUTH_X4 t) + (HYPER_EQU + l)) = (if l = 0 then 0 else 4)"
    "m (unat (ANTIPOLAR_TRUTH_X4 t) + (HYPER_EQU + l)) = (if l = 0 then 4 else 0)"
proof -
  have "stored (SET_TRUTH_TABLES t HYPER_EQU 0 1) m" using assms(1) by (simp only: init_equ_def stored_append)
  then have *: "m a = v" if "(a, v) \<in> set (SET_TRUTH_TABLES t HYPER_EQU 0 1)" for a v using that by (rule storedD)
  from assms(2) have "l = 0 \<or> l = 1" by auto
  then show "m (unat (POLAR_TRUTH_X1 t) + (HYPER_EQU + l)) = (if l = 0 then 0 else 1)"
    "m (unat (ANTIPOLAR_TRUTH_X1 t) + (HYPER_EQU + l)) = (if l = 0 then 1 else 0)"
    "m (unat (POLAR_TRUTH_X4 t) + (HYPER_EQU + l)) = (if l = 0 then 0 else 4)"
    "m (unat (ANTIPOLAR_TRUTH_X4 t) + (HYPER_EQU + l)) = (if l = 0 then 4 else 0)"
    by (elim disjE; intro *; simp add: SET_TRUTH_TABLES_def)+
qed

text \<open>The byte a comparison is to leave for a truth value.\<close>

definition truth_byte :: "u32 \<Rightarrow> bool \<Rightarrow> nat" where
  "truth_byte flags b = (if b = (flags AND ICF_INV = 0) then (if flags AND ICF_X4 \<noteq> 0 then 4 else 1) else 0)"

lemma flag_bits: "x AND ICF_INV = 0 \<longleftrightarrow> \<not> bit x (Suc 0)" "x AND ICF_X4 = 0 \<longleftrightarrow> \<not> bit x 0"
  using and_exp_eq_0_iff_not_bit [of x 1] and_exp_eq_0_iff_not_bit [of x 0] by (simp_all add: ICF_INV_def ICF_X4_def)

lemma truth_byte_inv: "truth_byte (flags XOR ICF_INV) b = truth_byte flags (\<not> b)"
  by (auto simp: truth_byte_def flag_bits bit_simps) (auto simp: ICF_INV_def bit_simps)

lemma truth_byte_geu:
  assumes "stored (init_geu t) m" "flags AND ICF_X4 = 0 \<or> flags AND ICF_INV \<noteq> 0"
  shows "unat (m (unat (truth_table t flags) + (HYPER_GEU + (if b then 1 else 0)))) = truth_byte flags (\<not> b)"
  using stored_truth_geu [OF assms(1), of "if b then 1 else 0"] assms(2)
  by (auto simp: truth_table_def truth_byte_def split: if_splits)

lemma truth_byte_equ:
  assumes "stored (init_equ t) m"
  shows "unat (m (unat (truth_table t flags) + (HYPER_EQU + (if b then 1 else 0)))) = truth_byte flags b"
  using stored_truth_equ [OF assms(1), of "if b then 1 else 0"]
  by (auto simp: truth_table_def truth_byte_def split: if_splits)

lemma compare_slots: "{HYPER_GEU, HYPER_GEU + 1} \<subseteq> {..<256}" "{HYPER_EQU, HYPER_EQU + 1} \<subseteq> {..<256}"
  by (simp_all add: hyper_slots)

lemma Geu_computes:
  assumes "dma_engine hw" "laid_out t s (w + 3) w 1 r a b" "truth_ok t s (w + 3) r flags" "stored (init_geu t) (snd s)"
  shows "computes hw s (w + 3) (Geu t w (busn r) (busn a) (busn b) flags s) r 1
    (unat (snd s (unat (truth_table t flags) + (HYPER_GEU + (if num (snd s) a w < num (snd s) b w then 1 else 0)))))"
  unfolding compare_ops
proof (rule compare_op_computes [where T = geu_next and S = "{HYPER_GEU, HYPER_GEU + 1}", OF assms(1-3) _ compare_slots(1)])
  show "snd s (hyper t x y c) = of_nat (geu_next x y c) \<and> geu_next x y c \<in> {HYPER_GEU, HYPER_GEU + 1}"
    if "c \<in> {HYPER_GEU, HYPER_GEU + 1}" for x y c using that assms(4) by (rule geu_slot)
qed (simp_all add: geu_state [simplified])

lemma Equ_computes:
  assumes "dma_engine hw" "laid_out t s (w + 3) w 1 r a b" "truth_ok t s (w + 3) r flags" "stored (init_equ t) (snd s)"
  shows "computes hw s (w + 3) (Equ t w (busn r) (busn a) (busn b) flags s) r 1
    (unat (snd s (unat (truth_table t flags) + (HYPER_EQU + (if num (snd s) a w = num (snd s) b w then 1 else 0)))))"
  unfolding compare_ops
proof (rule compare_op_computes [where T = equ_next and S = "{HYPER_EQU, HYPER_EQU + 1}", OF assms(1-3) _ compare_slots(2)])
  show "snd s (hyper t x y c) = of_nat (equ_next x y c) \<and> equ_next x y c \<in> {HYPER_EQU, HYPER_EQU + 1}"
    if "c \<in> {HYPER_EQU, HYPER_EQU + 1}" for x y c using that assms(4) by (rule equ_slot)
qed (simp_all add: equ_state [simplified])

text \<open>
  C21: \<^verbatim>\<open>Geu\<close> and \<^verbatim>\<open>Ltu\<close> leave the truth value of the unsigned comparison of numbers of any width: 1, or 4
  under \<^verbatim>\<open>ICF_X4\<close>, where it holds, and 0 where it does not, exchanged under \<^verbatim>\<open>ICF_INV\<close>; for all
  flags that do not select the positive table of fours.
\<close>

theorem unsigned_comparison_computes:
  assumes "dma_engine hw" "laid_out t s (w + 3) w 1 r a b" "stored (init_geu t) (snd s)"
  shows "(truth_ok t s (w + 3) r flags \<and> (flags AND ICF_X4 = 0 \<or> flags AND ICF_INV \<noteq> 0) \<longrightarrow>
      computes hw s (w + 3) (Geu t w (busn r) (busn a) (busn b) flags s) r 1
        (truth_byte flags (num (snd s) b w \<le> num (snd s) a w))) \<and>
    (truth_ok t s (w + 3) r (flags XOR ICF_INV) \<and> (flags AND ICF_X4 = 0 \<or> flags AND ICF_INV = 0) \<longrightarrow>
      computes hw s (w + 3) (Ltu t w (busn r) (busn a) (busn b) flags s) r 1
        (truth_byte flags (num (snd s) a w < num (snd s) b w)))"
proof -
  have geu: "computes hw s (w + 3) (Geu t w (busn r) (busn a) (busn b) flags s) r 1
        (truth_byte flags (num (snd s) b w \<le> num (snd s) a w))"
    if "truth_ok t s (w + 3) r flags" "flags AND ICF_X4 = 0 \<or> flags AND ICF_INV \<noteq> 0" for flags
    using Geu_computes [OF assms(1,2) that(1) assms(3)] truth_byte_geu [OF assms(3) that(2)]
    by (simp only: not_less)
  have "(flags XOR ICF_INV) AND ICF_INV \<noteq> 0 \<longleftrightarrow> flags AND ICF_INV = 0"
    "(flags XOR ICF_INV) AND ICF_X4 = 0 \<longleftrightarrow> flags AND ICF_X4 = 0"
    by (simp_all add: flag_bits bit_simps) (simp_all add: ICF_INV_def bit_simps)
  then have "computes hw s (w + 3) (Ltu t w (busn r) (busn a) (busn b) flags s) r 1
        (truth_byte flags (num (snd s) a w < num (snd s) b w))"
    if "truth_ok t s (w + 3) r (flags XOR ICF_INV)" "flags AND ICF_X4 = 0 \<or> flags AND ICF_INV = 0"
    using geu [OF that(1)] that(2) by (simp add: Ltu_def truth_byte_inv not_le)
  with geu [of flags] show ?thesis by blast
qed

theorem unsigned_comparison_computes_witness:
  "computes documented_engine sample_st 5 (Geu sample_tables 2 (busn 0x40020) (busn 0x40000) (busn 0x40010) 0 sample_st) 0x40020 1 0 \<and>
   computes documented_engine sample_st 5 (Ltu sample_tables 2 (busn 0x40020) (busn 0x40000) (busn 0x40010) ICF_X4 sample_st) 0x40020 1 4"
proof -
  have s: "stored (init_geu sample_tables) (snd sample_st)" by (rule sample_stored) (simp add: all_initializers_def)
  have l: "laid_out sample_tables sample_st (2 + 3) 2 1 0x40020 0x40000 0x40010" by (rule sample_laid) simp_all
  have "truth_ok sample_tables sample_st (2 + 3) 0x40020 flags" for flags by (rule sample_truth) simp
  with unsigned_comparison_computes [OF documented_engine l s, of 0] unsigned_comparison_computes [OF documented_engine l s, of ICF_X4]
  show ?thesis by (simp add: sample_nums truth_byte_def) (simp add: ICF_X4_def ICF_INV_def)
qed

text \<open>
  Under \<^verbatim>\<open>ICF_X4\<close> alone \<^verbatim>\<open>Geu\<close> leaves 1 and not 4 where the comparison holds: the table
  \<^verbatim>\<open>POLAR_TRUTH_X4\<close> is filled with an unscaled first entry.
\<close>

theorem geu_x4_not_scaled:
  assumes "dma_engine hw" "laid_out t s (w + 3) w 1 r a b" "stored (init_geu t) (snd s)"
    "truth_ok t s (w + 3) r ICF_X4" "num (snd s) b w \<le> num (snd s) a w"
  shows "computes hw s (w + 3) (Geu t w (busn r) (busn a) (busn b) ICF_X4 s) r 1 1"
  using Geu_computes [OF assms(1,2,4,3)] assms(5) stored_truth_geu(3) [OF assms(3), of 0]
  by (simp add: truth_table_def ICF_X4_def ICF_INV_def not_less [symmetric])

theorem geu_x4_not_scaled_witness:
  "computes documented_engine sample_st 5 (Geu sample_tables 2 (busn 0x40020) (busn 0x40000) (busn 0x40000) ICF_X4 sample_st) 0x40020 1 1"
proof -
  have s: "stored (init_geu sample_tables) (snd sample_st)" by (rule sample_stored) (simp add: all_initializers_def)
  have l: "laid_out sample_tables sample_st (2 + 3) 2 1 0x40020 0x40000 0x40000"
    using sample_laid [of 5 1] by (simp add: laid_out_def)
  have "truth_ok sample_tables sample_st (2 + 3) 0x40020 ICF_X4" by (rule sample_truth) simp
  from geu_x4_not_scaled [OF documented_engine l s this] show ?thesis by simp
qed

text \<open>
  C22: \<^verbatim>\<open>Equ\<close> and \<^verbatim>\<open>Neq\<close> leave the truth value of the equality of numbers of any width, scaled and
  inverted by the flags.
\<close>

theorem equality_computes:
  assumes "dma_engine hw" "laid_out t s (w + 3) w 1 r a b" "stored (init_equ t) (snd s)"
  shows "(truth_ok t s (w + 3) r flags \<longrightarrow>
      computes hw s (w + 3) (Equ t w (busn r) (busn a) (busn b) flags s) r 1
        (truth_byte flags (num (snd s) a w = num (snd s) b w))) \<and>
    (truth_ok t s (w + 3) r (flags XOR ICF_INV) \<longrightarrow>
      computes hw s (w + 3) (Neq t w (busn r) (busn a) (busn b) flags s) r 1
        (truth_byte flags (num (snd s) a w \<noteq> num (snd s) b w)))"
proof -
  have equ: "computes hw s (w + 3) (Equ t w (busn r) (busn a) (busn b) flags s) r 1
        (truth_byte flags (num (snd s) a w = num (snd s) b w))" if "truth_ok t s (w + 3) r flags" for flags
    using Equ_computes [OF assms(1,2) that assms(3)] by (simp only: truth_byte_equ [OF assms(3)])
  from this [of "flags XOR ICF_INV"]
  have "computes hw s (w + 3) (Neq t w (busn r) (busn a) (busn b) flags s) r 1
        (truth_byte flags (num (snd s) a w \<noteq> num (snd s) b w))" if "truth_ok t s (w + 3) r (flags XOR ICF_INV)"
    using that by (simp only: Neq_def truth_byte_inv)
  with equ [of flags] show ?thesis by blast
qed

theorem equality_computes_witness:
  "computes documented_engine sample_st 5 (Equ sample_tables 2 (busn 0x40020) (busn 0x40000) (busn 0x40010) 0 sample_st) 0x40020 1 0 \<and>
   computes documented_engine sample_st 5 (Neq sample_tables 2 (busn 0x40020) (busn 0x40000) (busn 0x40010) 0 sample_st) 0x40020 1 1"
proof -
  have s: "stored (init_equ sample_tables) (snd sample_st)" by (rule sample_stored) (simp add: all_initializers_def)
  have l: "laid_out sample_tables sample_st (2 + 3) 2 1 0x40020 0x40000 0x40010" by (rule sample_laid) simp_all
  have "truth_ok sample_tables sample_st (2 + 3) 0x40020 flags" for flags by (rule sample_truth) simp
  with equality_computes [OF documented_engine l s, of 0] show ?thesis by (simp add: sample_nums truth_byte_def)
qed

end
