(* ===== verification/Dma_Sum.thy ===== *)
theory Dma_Sum
  imports Dma_Correct
begin

text \<open>
  Correctness of addition and subtraction. Every lookup leaves two bytes: the digit in the result and
  the selector of the next lookup in the byte that follows, from where a one-byte transfer moves
  it into the next lookup's source before the digit overwrites it.
\<close>

section \<open>Chains of digits and selectors\<close>

lemma mem_copy_at: "mem_copy d s n m z = (if d \<le> z \<and> z < d + n then m (s + (z - d)) else m z)"
proof (cases "d \<le> z \<and> z < d + n")
  case True
  then have "z - d < n" by linarith
  from nth_mem_read [OF this, of m s] True show ?thesis by (simp add: mem_copy_def mem_write_def)
qed (auto simp: mem_copy_def mem_write_def)

definition digit_len :: "nat \<Rightarrow> nat \<Rightarrow> nat" where
  "digit_len w i = (if i < w - 1 then 2 else 1)"

lemma digit_len: "0 < digit_len w i" "digit_len w i \<le> 2" "i < w \<Longrightarrow> i + digit_len w i \<le> w"
  by (auto simp: digit_len_def)

text \<open>
  The blocks from \<open>p\<close> on: \<open>w\<close> lookups whose digits go to \<open>r\<close>, 64 bytes apart, and between them the moves of the
  selectors. The places of the blocks, the result and the big table do not overlap.
\<close>

definition digit_place :: "dma_tables \<Rightarrow> nat \<Rightarrow> nat \<Rightarrow> nat \<Rightarrow> bool" where
  "digit_place t p w r \<longleftrightarrow> hyper_ok t \<and> p mod 32 = 0 \<and> p + (64 * w - 32) \<le> 2 ^ 29 \<and> 0 < w \<and> r + w \<le> 2 ^ 29 \<and>
     away r w (unat (HYPER t)) (2 ^ 24) \<and> away r w p (64 * w - 32) \<and> away p (64 * w - 32) (unat (HYPER t)) (2 ^ 24)"

definition digit_code :: "dma_tables \<Rightarrow> nat \<Rightarrow> nat \<Rightarrow> nat \<Rightarrow> mem \<Rightarrow> (nat \<Rightarrow> u8) \<Rightarrow> (nat \<Rightarrow> u8) \<Rightarrow> bool" where
  "digit_code t p w r m x y \<longleftrightarrow>
     (\<forall>i < w. shape m (p + 64 * i) \<lparr>ti = linear, src_addr = 0, dst_addr = busn (r + i),
        txfr_len = of_nat (digit_len w i), stride = 0, next_cb = busn (p + 64 * i + 32)\<rparr>) \<and>
     (\<forall>i. Suc i < w \<longrightarrow> fetch_cb m (p + 64 * i + 32) = \<lparr>ti = linear, src_addr = busn (r + Suc i),
        dst_addr = busn (p + 64 * Suc i + 4), txfr_len = 1, stride = 0, next_cb = busn (p + 64 * Suc i)\<rparr>) \<and>
     (\<forall>i < w. \<forall>z. of_le32 [z, m (p + 64 * i + 5), m (p + 64 * i + 6), m (p + 64 * i + 7)] = busn (hyper t (x i) (y i) (unat z)))"

text \<open>Only the result and the first bytes of the sources are written.\<close>

definition digit_frame :: "nat \<Rightarrow> nat \<Rightarrow> nat \<Rightarrow> mem \<Rightarrow> mem \<Rightarrow> bool" where
  "digit_frame p w r m m' \<longleftrightarrow> (\<forall>z. \<not> (r \<le> z \<and> z < r + w) \<and> (\<forall>j < w. z \<noteq> p + 64 * j + 4) \<longrightarrow> m' z = m z)"

lemma digit_frame_code:
  assumes "digit_place t p w r" "digit_frame p w r m m'" "u \<noteq> 4"
  shows "k < w \<Longrightarrow> u < 32 \<Longrightarrow> m' (p + 64 * k + u) = m (p + 64 * k + u)"
    "Suc k < w \<Longrightarrow> u < 64 \<Longrightarrow> m' (p + 64 * k + u) = m (p + 64 * k + u)"
proof -
  have *: "m' (p + 64 * k + u) = m (p + 64 * k + u)" if "64 * k + u + 32 < 64 * w" "u < 64"
  proof -
    have "\<not> (r \<le> p + 64 * k + u \<and> p + 64 * k + u < r + w)" using assms(1) that(1) by (auto simp: digit_place_def away_def)
    moreover have "p + 64 * k + u \<noteq> p + 64 * j + 4" for j using off_D [of 64 u 4 p k j] that(2) assms(3) by simp
    ultimately show ?thesis using assms(2) unfolding digit_frame_def by blast
  qed
  show "k < w \<Longrightarrow> u < 32 \<Longrightarrow> m' (p + 64 * k + u) = m (p + 64 * k + u)" by (rule *) simp_all
  show "Suc k < w \<Longrightarrow> u < 64 \<Longrightarrow> m' (p + 64 * k + u) = m (p + 64 * k + u)" by (rule *) simp_all
qed

lemma digit_frame_table:
  assumes "digit_place t p w r" "digit_frame p w r m m'" "unat (HYPER t) \<le> z" "z < unat (HYPER t) + 2 ^ 24"
  shows "m' z = m z"
proof -
  have "z < p \<or> p + (64 * w - 32) \<le> z" "\<not> (r \<le> z \<and> z < r + w)" using assms(1,3,4) by (auto simp: digit_place_def away_def)
  moreover from this(1) have "z \<noteq> p + 64 * j + 4" if "j < w" for j using that by auto
  ultimately show ?thesis using assms(2) unfolding digit_frame_def by blast
qed

lemma digit_frame_step:
  assumes "digit_frame p w r m m1"
  shows "k < w \<Longrightarrow> digit_frame p w r m (m1(p + 64 * k + 4 := v))" "d + n \<le> w \<Longrightarrow> digit_frame p w r m (mem_copy (r + d) a n m1)"
  using assms by (auto simp: digit_frame_def mem_copy_at)

text \<open>A move of the selector \<open>c\<close> and the lookup that uses it.\<close>

lemma digit_pair:
  assumes hw: "dma_engine hw" and pl: "digit_place t p w r" and cd: "digit_code t p w r m x y" and k: "Suc k < w"
    and fr: "digit_frame p w r m m1" and sel: "m1 (r + Suc k) = of_nat c" "c < 255"
  shows "dma_run hw 2 (busn (p + 64 * k + 32), m1) = (busn (p + 64 * Suc k + 32),
    mem_copy (r + Suc k) (hyper t (x (Suc k)) (y (Suc k)) c) (digit_len w (Suc k)) (m1(p + 64 * Suc k + 4 := m1 (r + Suc k))))"
proof -
  let ?q = "p + 64 * k" and ?q' = "p + 64 * Suc k" let ?m2 = "m1(?q' + 4 := m1 (r + Suc k))"
  note P = pl [unfolded digit_place_def] and C = cd [unfolded digit_code_def]
  have lim: "64 * Suc k + 64 \<le> 64 * w" and t: "hyper_ok t" using k P by auto
  have "fetch_cb m1 (?q + 32) = fetch_cb m (?q + 32)"
  proof (rule fetch_cong)
    fix z assume "?q + 32 \<le> z" "z < ?q + 32 + 24"
    moreover from this obtain u where "z = ?q + u" by (metis add_leD1 le_Suc_ex)
    ultimately obtain u where "z = ?q + u" "u < 64" "u \<noteq> 4" by auto
    then show "m1 z = m z" using digit_frame_code(2) [OF pl fr _ k] by simp
  qed
  with C k have mv: "fetch_cb m1 (?q + 32) = \<lparr>ti = linear, src_addr = busn (r + Suc k),
        dst_addr = busn (?q' + 4), txfr_len = of_nat 1, stride = 0, next_cb = busn ?q'\<rparr>" by simp
  have "hw (busn (?q + 32)) m1 = (busn ?q', mem_copy (?q' + 4) (r + Suc k) 1 m1)"
    by (rule step_linear [OF hw _ _ mv]) (use P k lim in \<open>auto simp: away_def\<close>)
  then have step1: "hw (busn (?q + 32)) m1 = (busn ?q', ?m2)" by (simp only: mem_copy_1)
  have step2: "hw (busn ?q') ?m2 = (busn (?q' + 32), mem_copy (r + Suc k) (hyper t (x (Suc k)) (y (Suc k)) c) (digit_len w (Suc k)) ?m2)"
  proof (rule slot_step [OF hw t _ _ _ _ _ _ digit_len(1,2)])
    show "shape m ?q' \<lparr>ti = linear, src_addr = 0, dst_addr = busn (r + Suc k), txfr_len = of_nat (digit_len w (Suc k)),
        stride = 0, next_cb = busn (?q' + 32)\<rparr>" using C k by blast
    show "of_le32 [z, m (?q' + 5), m (?q' + 6), m (?q' + 7)] = busn (hyper t (x (Suc k)) (y (Suc k)) (unat z))" for z using C k by blast
    show "?m2 (?q' + u) = m (?q' + u)" if "u < 32" "u \<noteq> 4" for u using digit_frame_code(1) [OF pl fr that(2) k that(1)] that by simp
    show "?m2 (?q' + 4) = of_nat c" using sel(1) by simp
  qed (use P sel(2) lim digit_len(2,3) [of w "Suc k"] digit_len(3) [OF k] in \<open>auto simp: away_def\<close>)
  show ?thesis unfolding numeral_2_eq_2 dma_run_Suc step1 step2 dma_run_0 ..
qed

text \<open>The state after the lookup of digit \<open>k\<close>, when \<open>c j\<close> is the selector of digit \<open>j\<close>.\<close>

definition digits_done :: "nat \<Rightarrow> nat \<Rightarrow> nat \<Rightarrow> (nat \<Rightarrow> u8) \<Rightarrow> (nat \<Rightarrow> nat) \<Rightarrow> mem \<Rightarrow> nat \<Rightarrow> mem \<Rightarrow> bool" where
  "digits_done p w r v c m k m' \<longleftrightarrow> (\<forall>j \<le> k. m' (r + j) = v j) \<and> (Suc k < w \<longrightarrow> m' (r + Suc k) = of_nat (c (Suc k))) \<and>
     digit_frame p w r m m'"

lemma digits_done_copy:
  assumes "digit_place t p w r" "k < w" "digit_frame p w r m m1" "\<And>j. j < k \<Longrightarrow> m1 (r + j) = v j"
    and a: "unat (HYPER t) \<le> a" "a + 1 < unat (HYPER t) + 2 ^ 24" and m: "m a = v k" "m (a + 1) = of_nat (c (Suc k))"
  shows "digits_done p w r v c m k (mem_copy (r + k) a (digit_len w k) m1)"
proof -
  let ?m' = "mem_copy (r + k) a (digit_len w k) m1"
  have tb: "m1 a = v k" "m1 (a + 1) = of_nat (c (Suc k))"
    using m a digit_frame_table [OF assms(1,3), of a] digit_frame_table [OF assms(1,3), of "a + 1"] by simp_all
  have "?m' (r + j) = v j" if "j \<le> k" for j
    using that tb assms(4) digit_len(1) [of w k] by (cases "j = k") (auto simp: mem_copy_at)
  moreover have "?m' (r + Suc k) = of_nat (c (Suc k))" if "Suc k < w"
  proof -
    have "k < w - 1" using that by simp
    then show ?thesis using tb by (simp add: mem_copy_at digit_len_def)
  qed
  ultimately show ?thesis
    unfolding digits_done_def using digit_frame_step(2) [OF assms(3) digit_len(3) [OF assms(2)]] by blast
qed

lemma digits:
  assumes hw: "dma_engine hw" and pl: "digit_place t p w r" and cd: "digit_code t p w r m x y"
    and tab: "\<And>a b c. c \<in> S \<Longrightarrow> m (hyper t a b c) = V a b c \<and> m (hyper t a b c + 1) = of_nat (T a b c) \<and> T a b c \<in> S"
      "S \<subseteq> {..<255}"
    and start: "m (p + 4) = of_nat c0" "c0 \<in> S"
  defines "c \<equiv> chain_state T x y c0"
  shows "k < w \<Longrightarrow> \<exists>m'. dma_run hw (2 * k + 1) (busn p, m) = (busn (p + 64 * k + 32), m') \<and> c k \<in> S \<and>
    digits_done p w r (\<lambda>j. V (x j) (y j) (c j)) c m k m'"
proof (induction k)
  have hb: "unat (HYPER t) \<le> hyper t a b s" "hyper t a b s + 1 < unat (HYPER t) + 2 ^ 24" if "s \<in> S" for a b s
    using that tab(2) u8_bound [of a] u8_bound [of b] by (auto simp: hyper_def)
  {
    case 0
    note P = pl [unfolded digit_place_def] and C = cd [unfolded digit_code_def]
    have c0: "c 0 = c0" "c0 < 255" "c (Suc 0) = T (x 0) (y 0) c0" using start(2) tab(2) by (auto simp: c_def)
    have "hw (busn p) m = (busn (p + 32), mem_copy r (hyper t (x 0) (y 0) c0) (digit_len w 0) m)"
    proof (rule slot_step [OF hw _ _ _ _ _ _ _ digit_len(1,2)])
      show "shape m p \<lparr>ti = linear, src_addr = 0, dst_addr = busn r, txfr_len = of_nat (digit_len w 0), stride = 0, next_cb = busn (p + 32)\<rparr>"
        using C 0 by auto
      show "of_le32 [z, m (p + 5), m (p + 6), m (p + 7)] = busn (hyper t (x 0) (y 0) (unat z))" for z using C 0 by auto
    qed (use P c0 start digit_len(3) [of 0 w] digit_len(2) [of w 0] in \<open>auto simp: away_def\<close>)
    moreover have "digit_frame p w r m m" by (simp add: digit_frame_def)
    from digits_done_copy [OF pl 0 this _ hb, where v = "\<lambda>j. V (x j) (y j) (c j)" and c = c]
    have "digits_done p w r (\<lambda>j. V (x j) (y j) (c j)) c m 0 (mem_copy (r + 0) (hyper t (x 0) (y 0) c0) (digit_len w 0) m)"
      using tab(1) [OF start(2)] start(2) c0 by simp
    ultimately show ?case using start(2) c0 by (auto simp: dma_run_Suc)
  next
    case (Suc k)
    have k: "Suc k < w" "k < w" "k + 1 < w" using Suc.prems by simp_all
    from Suc.IH [OF k(2)] obtain m1 where run: "dma_run hw (2 * k + 1) (busn p, m) = (busn (p + 64 * k + 32), m1)"
      and d: "c k \<in> S" "digits_done p w r (\<lambda>j. V (x j) (y j) (c j)) c m k m1" by blast
    from d(2) k have m1: "\<And>j. j \<le> k \<Longrightarrow> m1 (r + j) = V (x j) (y j) (c j)" "m1 (r + Suc k) = of_nat (c (Suc k))" "digit_frame p w r m m1"
      by (simp_all add: digits_done_def)
    have st: "c (Suc k) \<in> S" using tab(1) [OF d(1)] by (simp add: c_def)
    then have c: "c (Suc k) < 255" using tab(2) by auto
    let ?m2 = "m1(p + 64 * Suc k + 4 := m1 (r + Suc k))"
    have "r + j \<noteq> p + 64 * Suc k + 4" if "j < w" for j using pl that k by (auto simp: digit_place_def away_def)
    then have m2: "?m2 (r + j) = V (x j) (y j) (c j)" if "j < Suc k" for j using m1(1) [of j] that k by simp
    have e: "2 * Suc k + 1 = (2 * k + 1) + 2" by simp
    have c2: "c (Suc (Suc k)) = T (x (Suc k)) (y (Suc k)) (c (Suc k))" by (simp add: c_def)
    let ?m3 = "mem_copy (r + Suc k) (hyper t (x (Suc k)) (y (Suc k)) (c (Suc k))) (digit_len w (Suc k)) ?m2"
    have "dma_run hw (2 * Suc k + 1) (busn p, m) = (busn (p + 64 * Suc k + 32), ?m3)"
      unfolding e dma_run_add [of hw "2 * k + 1"] run digit_pair [OF hw pl cd k(1) m1(3,2) c] ..
    moreover have "digits_done p w r (\<lambda>j. V (x j) (y j) (c j)) c m (Suc k) ?m3"
      by (rule digits_done_copy [OF pl k(1) digit_frame_step(1) [OF m1(3) k(1)] m2 hb [OF st]]) (use tab(1) [OF st] c2 in simp_all)
    ultimately show ?case using st by blast
  }
qed

section \<open>The programs of Add and Sub\<close>

definition sum_prog :: "dma_tables \<Rightarrow> nat \<Rightarrow> nat \<Rightarrow> nat \<Rightarrow> nat \<Rightarrow> nat \<Rightarrow> nat \<Rightarrow> cblk list" where
  "sum_prog t c p w r a b =
     [cb_2d scatter (busn (p + 69)) (busn b) w 1 63 0, cb_2d scatter (busn (p + 70)) (busn a) w 1 63 0] @
     [linear_cb (busn r) (busn (unat (HYPER t) + c)) 2] @
     concat (map (\<lambda>i. [linear_cb (busn (p + 64 + 64 * i + 4)) (busn (r + i)) 1,
       linear_cb (busn (r + i)) (busn (unat (HYPER t))) (digit_len w i)]) [1..<w])"

definition sum_op :: "nat \<Rightarrow> dma_tables \<Rightarrow> nat \<Rightarrow> busad \<Rightarrow> busad \<Rightarrow> busad \<Rightarrow> emit_st \<Rightarrow> emit_st option" where
  "sum_op c t width ret lhs rhs s =
     (if width = 0 then None
      else do {
        l0 \<leftarrow> Label s;
        d \<leftarrow> bus_rel_fld l0 2 FLD_SRC 1;
        s \<leftarrow> EmitStrided d rhs (of_nat width) 1 63 0 s;
        d \<leftarrow> bus_rel_fld l0 2 FLD_SRC 2;
        s \<leftarrow> EmitStrided d lhs (of_nat width) 1 63 0 s;
        src \<leftarrow> bus_off (HYPER t) (of_nat c);
        s \<leftarrow> Emit (bus_add ret 0) src 2 s;
        for_each (\<lambda>i s. do {
          l1 \<leftarrow> Label s;
          d \<leftarrow> bus_rel_fld l1 1 FLD_SRC 0;
          s \<leftarrow> Emit d (bus_add ret (of_nat i)) 1 s;
          src \<leftarrow> bus (HYPER t);
          Emit (bus_add ret (of_nat i)) src (if i < width - 1 then 2 else 1) s
        }) [1..<width] s
      })"

lemma sum_ops: "Add = sum_op HYPER_ADD" "Sub = sum_op HYPER_SUB"
  by (intro ext, simp only: Add_def Sub_def sum_op_def)+

lemma nth_pairs:
  "j < length xs \<Longrightarrow> concat (map (\<lambda>i. [f i, g i]) xs) ! (2 * j) = f (xs ! j) \<and>
    concat (map (\<lambda>i. [f i, g i]) xs) ! (2 * j + 1) = g (xs ! j)"
proof (induction xs arbitrary: j)
  case (Cons x xs)
  then show ?case by (cases j) auto
qed simp

lemma sum_prog_nth:
  assumes "0 < w"
  shows "sum_prog t c p w r a b ! 0 = cb_2d scatter (busn (p + 69)) (busn b) w 1 63 0"
    "sum_prog t c p w r a b ! 1 = cb_2d scatter (busn (p + 70)) (busn a) w 1 63 0"
    "sum_prog t c p w r a b ! 2 = linear_cb (busn r) (busn (unat (HYPER t) + c)) 2"
    "Suc i < w \<Longrightarrow> sum_prog t c p w r a b ! (2 * i + 3) = linear_cb (busn (p + 64 + 64 * Suc i + 4)) (busn (r + Suc i)) 1"
    "Suc i < w \<Longrightarrow> sum_prog t c p w r a b ! (2 * i + 4) = linear_cb (busn (r + Suc i)) (busn (unat (HYPER t))) (digit_len w (Suc i))"
    "length (sum_prog t c p w r a b) = 2 * w + 1"
proof -
  let ?f = "\<lambda>i. linear_cb (busn (p + 64 + 64 * i + 4)) (busn (r + i)) 1"
  let ?g = "\<lambda>i. linear_cb (busn (r + i)) (busn (unat (HYPER t))) (digit_len w i)"
  show "length (sum_prog t c p w r a b) = 2 * w + 1"
    using assms length_concat_const [of "[1..<w]" "\<lambda>i. [?f i, ?g i]" 2] by (simp add: sum_prog_def)
  show "sum_prog t c p w r a b ! 0 = cb_2d scatter (busn (p + 69)) (busn b) w 1 63 0"
    "sum_prog t c p w r a b ! 1 = cb_2d scatter (busn (p + 70)) (busn a) w 1 63 0"
    "sum_prog t c p w r a b ! 2 = linear_cb (busn r) (busn (unat (HYPER t) + c)) 2"
    by (simp_all add: sum_prog_def nth_append)
  assume i: "Suc i < w"
  then have n: "[1..<w] ! i = Suc i" "i < length [1..<w]" by simp_all
  have e: "2 * i + 3 = Suc (Suc (Suc (2 * i)))" "2 * i + 4 = Suc (Suc (Suc (2 * i + 1)))" by simp_all
  from nth_pairs [OF n(2), of ?f ?g, unfolded n(1)]
  show "sum_prog t c p w r a b ! (2 * i + 3) = linear_cb (busn (p + 64 + 64 * Suc i + 4)) (busn (r + Suc i)) 1"
    "sum_prog t c p w r a b ! (2 * i + 4) = linear_cb (busn (r + Suc i)) (busn (unat (HYPER t))) (digit_len w (Suc i))"
    unfolding e sum_prog_def append_Cons append_Nil nth_Cons_Suc by simp_all
qed

lemma Emit_2: "fits s (Suc n) \<Longrightarrow> \<exists>s'. Emit d src 2 s = Some s' \<and> emitted s [linear_cb d src 2] s' \<and>
    fits s' n \<and> pos s' = pos s + 32"
  using Emit_ok [of s n d src 2] by simp

lemma sum_op_emitted:
  assumes f: "fits s (2 * w + 1)" and w: "0 < w" "w \<le> 2 ^ 14" and t: "hyper_ok t" and c: "c < 256"
  shows "\<exists>s'. sum_op c t w (busn r) (busn a) (busn b) s = Some s' \<and> emitted s (sum_prog t c (pos s) w r a b) s'"
proof -
  have "fits s (Suc (Suc (Suc (2 * (w - 1)))))" using f w(1) by (simp add: Suc_diff_Suc numeral_eq_Suc)
  note h = head_emitted [OF this w]
  from h(3) obtain s1 s2 where s2:
    "EmitStrided (busn (pos s + 69)) (busn b) (of_nat w) 1 63 0 s = Some s1"
    "EmitStrided (busn (pos s + 70)) (busn a) (of_nat w) 1 63 0 s1 = Some s2"
    "emitted s [cb_2d scatter (busn (pos s + 69)) (busn b) w 1 63 0, cb_2d scatter (busn (pos s + 70)) (busn a) w 1 63 0] s2"
    "fits s2 (Suc (2 * (w - 1)))" "pos s2 = pos s + 64" by blast
  from Emit_2 [OF s2(4)] obtain s3 where s3: "Emit (busn r) (busn (unat (HYPER t) + c)) 2 s2 = Some s3"
    "emitted s2 [linear_cb (busn r) (busn (unat (HYPER t) + c)) 2] s3" "fits s3 (2 * (w - 1))" "pos s3 = pos s2 + 32" by blast
  let ?f = "\<lambda>i s. do { l1 \<leftarrow> Label s; d \<leftarrow> bus_rel_fld l1 1 FLD_SRC 0; s \<leftarrow> Emit d (bus_add (busn r) (of_nat i)) 1 s;
      src \<leftarrow> bus (HYPER t); Emit (bus_add (busn r) (of_nat i)) src (if i < w - 1 then 2 else 1) s }"
  let ?g = "\<lambda>i. [linear_cb (busn (pos s + 64 + 64 * i + 4)) (busn (r + i)) 1,
      linear_cb (busn (r + i)) (busn (unat (HYPER t))) (digit_len w i)]"
  have "\<exists>s'. for_each ?f [1..<w] s3 = Some s' \<and> emitted s3 (concat (map ?g [1..<w])) s' \<and> fits s' 0"
  proof (rule for_upt_emitted [where k = 2 and p = "pos s + 96"])
    fix x s' n
    assume x: "1 \<le> x" "x < w" and f': "fits s' (2 + n)" and p': "pos s' = pos s + 96 + 32 * (2 * (x - 1))"
    from f' have f1: "fits s' (Suc (Suc n))" by simp
    then have pp: "pos s' < 2 ^ 29" "pos s' mod 32 = 0" by (simp_all add: fits_def)
    have "pos s' + 36 = pos s + 64 + 64 * x + 4" using p' x(1) by simp
    then have d: "bus_rel_fld (busn (pos s')) 1 FLD_SRC 0 = Some (busn (pos s + 64 + 64 * x + 4))"
      using rel_fld_src [OF pp, of 0 1] by (simp add: ac_simps)
    from Emit_1 [OF f1] obtain s4 where s4: "Emit (busn (pos s + 64 + 64 * x + 4)) (busn (r + x)) 1 s' = Some s4"
      "emitted s' [linear_cb (busn (pos s + 64 + 64 * x + 4)) (busn (r + x)) 1] s4" "fits s4 (Suc n)" by blast
    have l: "(if x < w - 1 then 2 else 1 :: u32) = of_nat (digit_len w x)" by (simp add: digit_len_def)
    from Emit_ok [OF s4(3)] obtain s5 where s5: "Emit (busn (r + x)) (busn (unat (HYPER t))) (of_nat (digit_len w x)) s4 = Some s5"
      "emitted s4 [linear_cb (busn (r + x)) (busn (unat (HYPER t))) (digit_len w x)] s5" by blast
    from emitted_append [OF s4(2) s5(2)] show "\<exists>s''. ?f x s' = Some s'' \<and> emitted s' (?g x) s''"
      unfolding l using s4(1) s5(1) Label_fits [OF f1] d bus_off_hyper(2) [OF t, of 0] by (simp add: bus_add_busn)
  qed (use s3(3,4) s2(5) in simp_all)
  then obtain s4 where s4: "for_each ?f [1..<w] s3 = Some s4" "emitted s3 (concat (map ?g [1..<w])) s4" by blast
  have "sum_op c t w (busn r) (busn a) (busn b) s = Some s4"
    using w Label_fits [OF f] s3(1) s4(1) bus_off_hyper(1) [OF t, of c] c
    by (simp add: sum_op_def h(1,2) s2(1,2) bus_add_def)
  moreover have "emitted s (sum_prog t c (pos s) w r a b) s4"
    unfolding sum_prog_def by (rule emitted_append [OF s2(3) emitted_append [OF s3(2) s4(2)]])
  ultimately show ?thesis by blast
qed

section \<open>Running them\<close>

lemma sum_prog_code:
  assumes w: "2 \<le> w" and t: "hyper_ok t" and c: "c < 256" and pt: "patched s w 64 b a (snd s') m"
    and e: "emitted s (sum_prog t c (pos s) w r a b) s'"
  shows "digit_code t (pos s + 64) w r m (\<lambda>i. snd s (a + i)) (\<lambda>i. snd s (b + i))" "m (pos s + 64 + 4) = of_nat c"
proof -
  let ?q = "\<lambda>i. pos s + 64 + 64 * i" and ?m0 = "snd s'"
  have w0: "0 < w" using w by simp
  note nth = sum_prog_nth [OF w0, where t = t and c = c and p = "pos s" and r = r and a = a and b = b]
  have digit: "fetch_cb ?m0 (?q i) = \<lparr>ti = linear, src_addr = busn (unat (HYPER t) + (if i = 0 then c else 0)), dst_addr = busn (r + i),
      txfr_len = of_nat (digit_len w i), stride = 0, next_cb = busn (?q i + 32)\<rparr>" if "i < w" for i
  proof (cases i)
    case 0
    then show ?thesis using emitted_nth [OF e, unfolded nth(6), of 2] nth(3) w
      by (simp add: linear_cb_def digit_len_def ac_simps)
  next
    case (Suc j)
    have "pos s + 32 * (2 * j + 4) = ?q i" using Suc by simp
    then show ?thesis using emitted_nth [OF e, unfolded nth(6), of "2 * j + 4"] nth(5) [of j] that Suc
      by (simp add: linear_cb_def ac_simps)
  qed
  have "fetch_cb m (?q i + 32) = \<lparr>ti = linear, src_addr = busn (r + Suc i),
        dst_addr = busn (?q (Suc i) + 4), txfr_len = 1, stride = 0, next_cb = busn (?q (Suc i))\<rparr>" if "Suc i < w" for i
  proof -
    have "fetch_cb m (?q i + 32) = fetch_cb ?m0 (?q i + 32)"
    proof (rule fetch_cong)
      fix z assume z: "?q i + 32 \<le> z" "z < ?q i + 32 + 24"
      then obtain u where "z = ?q i + 32 + u" by (metis le_Suc_ex)
      with z patched_keep [OF pt, of "32 + u" i] show "m z = ?m0 z" by (simp add: add.assoc)
    qed
    moreover have "pos s + 32 * (2 * i + 3) = ?q i + 32" by simp
    ultimately show ?thesis using emitted_nth [OF e, unfolded nth(6), of "2 * i + 3"] nth(4) [OF that] that
      by (simp add: linear_cb_def ac_simps)
  qed
  moreover have "shape m (?q i) \<lparr>ti = linear, src_addr = 0, dst_addr = busn (r + i),
      txfr_len = of_nat (digit_len w i), stride = 0, next_cb = busn (?q i + 32)\<rparr>" if "i < w" for i
    using patched_shape [OF pt _ digit [OF that]] by (simp add: shape_def)
  moreover have "of_le32 [z, m (?q i + 5), m (?q i + 6), m (?q i + 7)] = busn (hyper t (snd s (a + i)) (snd s (b + i)) (unat z))"
    if "i < w" for i z by (rule patched_src(1) [OF pt _ t _ that digit [OF that]]) (use c in simp_all)
  ultimately show "digit_code t (pos s + 64) w r m (\<lambda>i. snd s (a + i)) (\<lambda>i. snd s (b + i))" unfolding digit_code_def by blast
  show "m (pos s + 64 + 4) = of_nat c" using patched_src(2) [OF pt _ t c w0 digit [OF w0]] by simp
qed

lemma sum_prog_run:
  assumes hw: "dma_engine hw" and f: "fits s (2 * w + 1)" and w: "2 \<le> w" "w \<le> 2 ^ 14"
    and t: "hyper_ok t" "clear s (2 * w + 1) (unat (HYPER t)) (2 ^ 24)"
    and ops: "clear s (2 * w + 1) a w" "clear s (2 * w + 1) b w" "clear s (2 * w + 1) r w" "away r w (unat (HYPER t)) (2 ^ 24)"
    and tab: "\<And>x y c. c \<in> S \<Longrightarrow> snd s (hyper t x y c) = V x y c \<and> snd s (hyper t x y c + 1) = of_nat (T x y c) \<and> T x y c \<in> S"
      "S \<subseteq> {..<255}" "c \<in> S"
    and e: "emitted s (sum_prog t c (pos s) w r a b) s'"
  shows "\<exists>m'. dma_run hw (2 * w + 1) (busn (pos s), snd s') = (busn (pos s'), m') \<and>
    (\<forall>j < w. m' (r + j) = V (snd s (a + j)) (snd s (b + j)) (chain_state T (\<lambda>i. snd s (a + i)) (\<lambda>i. snd s (b + i)) c j)) \<and>
    (\<forall>x. \<not> (r \<le> x \<and> x < r + w) \<and> (x < pos s \<or> pos s' \<le> x) \<longrightarrow> m' x = snd s x)"
proof -
  let ?p = "pos s" and ?m = "snd s'"
  let ?x = "\<lambda>i. snd s (a + i)" and ?y = "\<lambda>i. snd s (b + i)"
  have w0: "0 < w" and c: "c < 256" using w(1) tab(2,3) by auto
  note nth = sum_prog_nth [OF w0, where t = t and c = c and p = ?p and r = r and a = a and b = b]
  have pp: "?p mod 32 = 0" "?p + 32 * (2 * w + 1) < 2 ^ 29" using f by (simp_all add: fits_def)
  have p': "pos s' = ?p + 32 * (2 * w + 1)" using e nth(6) by (simp add: emitted_def)
  from head_run [OF hw f w0 w(2) ops(2,1) _ _ e nth(6) nth(1,2), of 64] obtain m where
    head: "dma_run hw 2 (busn ?p, ?m) = (busn (?p + 64), m)" and pt: "patched s w 64 b a ?m m"
    and out: "\<And>z. z < ?p \<or> ?p + 32 * (2 * w + 1) \<le> z \<Longrightarrow> m z = snd s z" by auto
  have tabs: "m (hyper t a b c) = V a b c \<and> m (hyper t a b c + 1) = of_nat (T a b c) \<and> T a b c \<in> S" if "c \<in> S" for a b c
    using tab(1) [OF that] out hyper_clear [OF t, of c 0] hyper_clear [OF t, of c 1] that tab(2) by auto
  have place: "digit_place t (?p + 64) w r"
    using ops(3,4) pp t w0 by (auto simp: digit_place_def clear_def away_def)
  obtain k where k: "w = Suc k" using w0 by (cases w) auto
  from digits [OF hw place sum_prog_code(1) [OF w(1) t(1) c pt e] tabs tab(2) sum_prog_code(2) [OF w(1) t(1) c pt e] tab(3), of k] k
  obtain m' where run: "dma_run hw (2 * k + 1) (busn (?p + 64), m) = (busn (?p + 64 + 64 * k + 32), m')"
    and d: "digits_done (?p + 64) w r (\<lambda>j. V (?x j) (?y j) (chain_state T ?x ?y c j)) (chain_state T ?x ?y c) m k m'" by blast
  have e: "2 * w + 1 = 2 + (2 * k + 1)" "?p + 64 + 64 * k + 32 = pos s'" by (simp_all add: k p')
  have "dma_run hw (2 * w + 1) (busn ?p, ?m) = (busn (pos s'), m')"
    unfolding e(1) dma_run_add [of hw 2] head run e(2) ..
  moreover have "m' z = snd s z" if z: "\<not> (r \<le> z \<and> z < r + w)" "z < ?p \<or> pos s' \<le> z" for z
  proof -
    have "z \<noteq> ?p + 64 + 64 * j + 4" if "j < w" for j using z(2) p' that by auto
    with d z(1) have "m' z = m z" unfolding digits_done_def digit_frame_def by blast
    with out [of z] z p' show ?thesis by simp
  qed
  ultimately show ?thesis using d k unfolding digits_done_def by auto
qed

lemma sum_op_computes:
  assumes hw: "dma_engine hw" and l: "laid_out t s (2 * w + 1) w w r a b" and w: "2 \<le> w"
    and tab: "\<And>x y c. c \<in> S \<Longrightarrow> snd s (hyper t x y c) = V x y c \<and> snd s (hyper t x y c + 1) = of_nat (T x y c) \<and> T x y c \<in> S"
      "S \<subseteq> {..<255}" "c \<in> S"
    and v: "\<And>m'. \<forall>j < w. m' (r + j) = V (snd s (a + j)) (snd s (b + j))
        (chain_state T (\<lambda>i. snd s (a + i)) (\<lambda>i. snd s (b + i)) c j) \<Longrightarrow> num m' r w = v"
  shows "computes hw s (2 * w + 1) (sum_op c t w (busn r) (busn a) (busn b) s) r w v"
proof -
  from l have l: "fits s (2 * w + 1)" "0 < w" "w \<le> 2 ^ 14" "hyper_ok t" "clear s (2 * w + 1) (unat (HYPER t)) (2 ^ 24)"
    "clear s (2 * w + 1) a w" "clear s (2 * w + 1) b w" "clear s (2 * w + 1) r w" "away r w (unat (HYPER t)) (2 ^ 24)"
    by (simp_all add: laid_out_def)
  have c: "c < 256" using tab(2,3) by auto
  from sum_op_emitted [OF l(1-4) c] obtain s' where
    s': "sum_op c t w (busn r) (busn a) (busn b) s = Some s'" "emitted s (sum_prog t c (pos s) w r a b) s'" by blast
  have "pos s' = pos s + 32 * (2 * w + 1)" using s'(2) sum_prog_nth(6) [OF l(2)] by (simp add: emitted_def)
  moreover from sum_prog_run [OF hw l(1) w l(3-9) tab s'(2)] obtain m' where
    "dma_run hw (2 * w + 1) (busn (pos s), snd s') = (busn (pos s'), m') \<and>
     (\<forall>j < w. m' (r + j) = V (snd s (a + j)) (snd s (b + j)) (chain_state T (\<lambda>i. snd s (a + i)) (\<lambda>i. snd s (b + i)) c j)) \<and>
     (\<forall>x. \<not> (r \<le> x \<and> x < r + w) \<and> (x < pos s \<or> pos s' \<le> x) \<longrightarrow> m' x = snd s x)" ..
  ultimately show ?thesis unfolding computes_def using s'(1) v by blast
qed

section \<open>Addition and subtraction of numbers\<close>

definition add_next :: "u8 \<Rightarrow> u8 \<Rightarrow> nat \<Rightarrow> nat" where
  "add_next x y c = (if 256 \<le> unat x + unat y + (c - HYPER_ADD) div 2 then HYPER_ADD + 2 else HYPER_ADD)"

definition add_digit :: "u8 \<Rightarrow> u8 \<Rightarrow> nat \<Rightarrow> u8" where
  "add_digit x y c = x + y + of_nat ((c - HYPER_ADD) div 2)"

definition sub_next :: "u8 \<Rightarrow> u8 \<Rightarrow> nat \<Rightarrow> nat" where
  "sub_next x y c = (if unat x < unat y + (c - HYPER_SUB) div 2 then HYPER_SUB + 2 else HYPER_SUB)"

definition sub_digit :: "u8 \<Rightarrow> u8 \<Rightarrow> nat \<Rightarrow> u8" where
  "sub_digit x y c = x - y - of_nat ((c - HYPER_SUB) div 2)"

definition carry :: "mem \<Rightarrow> nat \<Rightarrow> nat \<Rightarrow> nat \<Rightarrow> nat" where
  "carry m a b k = (if 256 ^ k \<le> num m a k + num m b k then 1 else 0)"

definition borrow :: "mem \<Rightarrow> nat \<Rightarrow> nat \<Rightarrow> nat \<Rightarrow> nat" where
  "borrow m a b k = (if num m a k < num m b k then 1 else 0)"

lemma carry_Suc: "carry m a b (Suc k) = (if 256 \<le> unat (m (a + k)) + unat (m (b + k)) + carry m a b k then 1 else 0)"
proof -
  let ?x = "unat (m (a + k))" and ?y = "unat (m (b + k))" and ?B = "256 ^ k :: nat" and ?c = "carry m a b k"
  have l: "num m a k < ?B" "num m b k < ?B" by (rule num_less)+
  have c: "?B * ?c \<le> num m a k + num m b k" "num m a k + num m b k < ?B * ?c + ?B"
    using l by (auto simp: carry_def)
  have e: "num m a (Suc k) + num m b (Suc k) = num m a k + num m b k + ?B * (?x + ?y)" by (simp add: algebra_simps)
  have "256 ^ Suc k \<le> num m a (Suc k) + num m b (Suc k) \<longleftrightarrow> 256 \<le> ?x + ?y + ?c"
  proof
    assume "256 \<le> ?x + ?y + ?c"
    then have "?B * 256 \<le> ?B * (?x + ?y + ?c)" by (rule mult_le_mono2)
    also have "\<dots> = ?B * (?x + ?y) + ?B * ?c" by (simp add: algebra_simps)
    finally show "256 ^ Suc k \<le> num m a (Suc k) + num m b (Suc k)" using c(1) unfolding e by simp
  next
    assume a: "256 ^ Suc k \<le> num m a (Suc k) + num m b (Suc k)"
    show "256 \<le> ?x + ?y + ?c"
    proof (rule ccontr)
      assume "\<not> 256 \<le> ?x + ?y + ?c"
      then have "?B * (?x + ?y + ?c + 1) \<le> ?B * 256" by (intro mult_le_mono2) simp
      then have "?B * (?x + ?y) + ?B * ?c + ?B \<le> 256 ^ Suc k" by (simp add: algebra_simps)
      with c(2) a show False unfolding e by linarith
    qed
  qed
  then show ?thesis by (simp only: carry_def)
qed

lemma borrow_Suc: "borrow m a b (Suc k) = (if unat (m (a + k)) < unat (m (b + k)) + borrow m a b k then 1 else 0)"
  unfolding borrow_def num_mono_less by simp

lemma add_state: "chain_state add_next (\<lambda>i. m (a + i)) (\<lambda>i. m (b + i)) HYPER_ADD k = HYPER_ADD + 2 * carry m a b k"
proof (induction k)
  case 0
  then show ?case by (simp add: carry_def)
next
  case (Suc k)
  show ?case unfolding chain_state.simps Suc carry_Suc by (simp add: add_next_def)
qed

lemma sub_state: "chain_state sub_next (\<lambda>i. m (a + i)) (\<lambda>i. m (b + i)) HYPER_SUB k = HYPER_SUB + 2 * borrow m a b k"
proof (induction k)
  case 0
  then show ?case by (simp add: borrow_def)
next
  case (Suc k)
  show ?case unfolding chain_state.simps Suc borrow_Suc by (simp add: sub_next_def)
qed

lemma unat_add_digit:
  "l \<le> 1 \<Longrightarrow> unat (x + y + of_nat l :: u8) + 256 * (if 256 \<le> unat x + unat y + l then 1 else 0) = unat x + unat y + l"
proof -
  assume l: "l \<le> 1"
  have "unat (x + y + of_nat l) = (unat x + unat y + l) mod 256"
    by (simp add: unat_word_ariths unat_of_nat mod_simps)
  moreover have "unat x + unat y + l < 512" using u8_bound [of x] u8_bound [of y] l by simp
  then have "(unat x + unat y + l) mod 256 = (if 256 \<le> unat x + unat y + l then unat x + unat y + l - 256 else unat x + unat y + l)"
    by (auto simp: le_mod_geq)
  ultimately show ?thesis by simp
qed

lemma unat_sub_digit:
  "l \<le> 1 \<Longrightarrow> unat (x - y - of_nat l :: u8) + unat y + l = unat x + 256 * (if unat x < unat y + l then 1 else 0)"
proof -
  assume l: "l \<le> 1"
  let ?n = "unat x + 256 * (if unat x < unat y + l then 1 else 0) - (unat y + l)"
  have b: "unat y + l \<le> unat x + 256 * (if unat x < unat y + l then 1 else 0)" "?n < 256"
    using u8_bound [of x] u8_bound [of y] l by auto
  have "x - y - of_nat l = of_nat ?n" using b(1) by (simp add: of_nat_diff)
  then have "unat (x - y - of_nat l) = ?n" using b(2) by (simp add: unat_of_nat)
  with b(1) show ?thesis by simp
qed

lemma num_add:
  assumes "\<forall>j < w. m' (r + j) = add_digit (m (a + j)) (m (b + j)) (HYPER_ADD + 2 * carry m a b j)"
  shows "k \<le> w \<Longrightarrow> num m' r k + 256 ^ k * carry m a b k = num m a k + num m b k"
proof (induction k)
  case 0
  then show ?case by (simp add: carry_def)
next
  case (Suc k)
  let ?x = "unat (m (a + k))" and ?y = "unat (m (b + k))" and ?B = "256 ^ k :: nat" and ?c = "carry m a b"
  have "unat (m' (r + k)) + 256 * ?c (Suc k) = ?x + ?y + ?c k"
    using assms Suc.prems unat_add_digit [of "?c k" "m (a + k)" "m (b + k)"] unfolding carry_Suc
    by (simp add: add_digit_def carry_def)
  from arg_cong [OF this, of "\<lambda>z. ?B * z"]
  have "?B * unat (m' (r + k)) + 256 ^ Suc k * ?c (Suc k) = ?B * ?x + ?B * ?y + ?B * ?c k"
    by (simp add: algebra_simps)
  with Suc.IH Suc.prems show ?case unfolding num.simps by linarith
qed

lemma num_sub:
  assumes "\<forall>j < w. m' (r + j) = sub_digit (m (a + j)) (m (b + j)) (HYPER_SUB + 2 * borrow m a b j)"
  shows "k \<le> w \<Longrightarrow> num m' r k + num m b k = num m a k + 256 ^ k * borrow m a b k"
proof (induction k)
  case 0
  then show ?case by (simp add: borrow_def)
next
  case (Suc k)
  let ?x = "unat (m (a + k))" and ?y = "unat (m (b + k))" and ?B = "256 ^ k :: nat" and ?c = "borrow m a b"
  have "unat (m' (r + k)) + ?y + ?c k = ?x + 256 * ?c (Suc k)"
    using assms Suc.prems unat_sub_digit [of "?c k" "m (a + k)" "m (b + k)"] unfolding borrow_Suc
    by (simp add: sub_digit_def borrow_def)
  from arg_cong [OF this, of "\<lambda>z. ?B * z"]
  have "?B * unat (m' (r + k)) + ?B * ?y + ?B * ?c k = ?B * ?x + 256 ^ Suc k * ?c (Suc k)"
    by (simp add: algebra_simps)
  with Suc.IH Suc.prems show ?case unfolding num.simps by linarith
qed

lemma add_slot: "c \<in> {HYPER_ADD, HYPER_ADD + 2} \<Longrightarrow> stored (init_add t) m \<Longrightarrow>
    m (hyper t x y c) = add_digit x y c \<and> m (hyper t x y c + 1) = of_nat (add_next x y c) \<and>
    add_next x y c \<in> {HYPER_ADD, HYPER_ADD + 2}"
  using stored_add [of t m 0 x y] stored_add [of t m 1 x y]
  by (auto simp: add_next_def add_digit_def hyper_def add.assoc)

lemma sub_slot: "c \<in> {HYPER_SUB, HYPER_SUB + 2} \<Longrightarrow> stored (init_sub t) m \<Longrightarrow>
    m (hyper t x y c) = sub_digit x y c \<and> m (hyper t x y c + 1) = of_nat (sub_next x y c) \<and>
    sub_next x y c \<in> {HYPER_SUB, HYPER_SUB + 2}"
  using stored_sub [of t m 0 x y] stored_sub [of t m 1 x y]
  by (auto simp: sub_next_def sub_digit_def hyper_def add.assoc)

lemma sum_slots: "{HYPER_ADD, HYPER_ADD + 2} \<subseteq> {..<255}" "{HYPER_SUB, HYPER_SUB + 2} \<subseteq> {..<255}"
  by (simp_all add: hyper_slots)

text \<open>
  C13: \<^verbatim>\<open>Add\<close> and \<^verbatim>\<open>Sub\<close> emit control blocks that leave the sum and the difference, modulo the width, of two
  little-endian numbers of two or more bytes in the result, and change nothing else; the result may
  overlap the operands.
\<close>

theorem addition_subtraction_compute:
  assumes "dma_engine hw" "laid_out t s (2 * w + 1) w w r a b" "2 \<le> w" "stored (init_add t @ init_sub t) (snd s)"
  shows "computes hw s (2 * w + 1) (Add t w (busn r) (busn a) (busn b) s) r w
      ((num (snd s) a w + num (snd s) b w) mod 256 ^ w) \<and>
    computes hw s (2 * w + 1) (Sub t w (busn r) (busn a) (busn b) s) r w
      ((num (snd s) a w + 256 ^ w - num (snd s) b w) mod 256 ^ w)"
proof
  have st: "stored (init_add t) (snd s)" "stored (init_sub t) (snd s)" using assms(4) by (simp_all only: stored_append)
  show "computes hw s (2 * w + 1) (Add t w (busn r) (busn a) (busn b) s) r w
      ((num (snd s) a w + num (snd s) b w) mod 256 ^ w)"
    unfolding sum_ops
  proof (rule sum_op_computes [where V = add_digit and T = add_next, OF assms(1-3) add_slot sum_slots(1)], unfold add_state)
    fix m' assume "\<forall>j < w. m' (r + j) = add_digit (snd s (a + j)) (snd s (b + j)) (HYPER_ADD + 2 * carry (snd s) a b j)"
    from num_add [OF this order_refl] num_less [of m' r w]
    show "num m' r w = (num (snd s) a w + num (snd s) b w) mod 256 ^ w"
      by (metis mod_less mod_mult_self2 mult.commute)
  qed (simp_all add: st)
  show "computes hw s (2 * w + 1) (Sub t w (busn r) (busn a) (busn b) s) r w
      ((num (snd s) a w + 256 ^ w - num (snd s) b w) mod 256 ^ w)"
    unfolding sum_ops
  proof (rule sum_op_computes [where V = sub_digit and T = sub_next, OF assms(1-3) sub_slot sum_slots(2)], unfold sub_state)
    fix m' assume "\<forall>j < w. m' (r + j) = sub_digit (snd s (a + j)) (snd s (b + j)) (HYPER_SUB + 2 * borrow (snd s) a b j)"
    from num_sub [OF this order_refl] have "num m' r w + num (snd s) b w = num (snd s) a w + 256 ^ w * borrow (snd s) a b w" .
    with num_less [of m' r w] num_less [of "snd s" a w] num_less [of "snd s" b w]
    show "num m' r w = (num (snd s) a w + 256 ^ w - num (snd s) b w) mod 256 ^ w"
      by (auto simp: borrow_def le_mod_geq split: if_splits)
  qed (simp_all add: st)
qed

theorem addition_subtraction_compute_witness:
  "computes documented_engine sample_st 5 (Add sample_tables 2 (busn 0x40020) (busn 0x40000) (busn 0x40010) sample_st) 0x40020 2 4140 \<and>
   computes documented_engine sample_st 5 (Sub sample_tables 2 (busn 0x40020) (busn 0x40000) (busn 0x40010) sample_st) 0x40020 2 65380"
proof -
  have "stored (init_add sample_tables @ init_sub sample_tables) (snd sample_st)"
    by (simp add: sample_stored all_initializers_def)
  moreover have "laid_out sample_tables sample_st (2 * 2 + 1) 2 2 0x40020 0x40000 0x40010" by (rule sample_laid) simp_all
  ultimately show ?thesis
    using addition_subtraction_compute [OF documented_engine, of sample_tables sample_st 2 "0x40020" "0x40000" "0x40010"]
    by (simp add: sample_nums)
qed

end
