(* ===== verification/Dma_Shift.thy ===== *)
theory Dma_Shift
  imports Dma_Correct
begin

text \<open>
  Correctness of the shifts by less than eight bits, \<open>Sll8\<close>, \<open>Srl8\<close> and \<open>Sra8\<close> of
  \<^verbatim>\<open>bcm2835/dma/arith_sxx.c\<close>: the shift count, a byte in memory, selects the slot of the big table
  that all lookups use, and each lookup gets two neighbouring bytes of the operand.
\<close>

section \<open>The tables\<close>

lemma stored_shift:
  assumes "stored [(hyper_shift t i c s, v i s). i \<leftarrow> [0..<65536], s \<leftarrow> [0..<8]] m" "c + 8 \<le> 256" "k < 8"
  shows "m (hyper t x y (c + k)) = v (256 * unat x + unat y) k"
proof -
  let ?i = "256 * unat x + unat y"
  have i: "?i < 65536" using u8_bound [of x] u8_bound [of y] by simp
  have "hyper_shift t ?i c k = hyper t x y (c + k)"
    using assms(2,3) hyper_shift_eq [of c k t ?i] by (simp add: hyper_def)
  moreover have "m (hyper_shift t ?i c k) = v ?i k"
    by (rule storedD [OF assms(1)]) (intro in_concat_map [OF in_upt [OF i]] in_map [OF in_upt [OF assms(3)]])
  ultimately show ?thesis by simp
qed

lemma stored_select:
  assumes "stored [(unat p + i, of_nat (c + (i AND 7))). i \<leftarrow> [0..<256]] m" "c + 8 \<le> 256"
  shows "unat (m (unat p + unat (f :: u8))) = c + unat f mod 8"
proof -
  have "m (unat p + unat f) = of_nat (c + (unat f AND 7))"
    by (rule storedD [OF assms(1)]) (rule in_map [OF in_upt_unat])
  moreover have "unat f AND 7 = unat f mod 8"
    using take_bit_eq_mask [of 3 "unat f"] by (simp add: mask_eq_exp_minus_1 take_bit_eq_mod)
  moreover have "c + unat f mod 8 < 256" using assms(2) mod_less_divisor [of 8 "unat f"] by linarith
  ultimately show ?thesis by (simp add: unat_of_nat del: of_nat_add)
qed

text \<open>A byte of a number shifted by \<open>k\<close>, from the byte itself and its neighbour.\<close>

lemma power_split: "k < 8 \<Longrightarrow> 256 = 2 ^ k * (2 :: nat) ^ (8 - k)"
  by (simp flip: power_add)

lemma left_byte:
  fixes x y k :: nat
  assumes "k < 8" "y < 256"
  shows "(256 * x + y) * 2 ^ k div 256 mod 256 = x * 2 ^ k mod 256 + y * 2 ^ k div 256"
proof -
  have "(256 * x + y) * 2 ^ k div 256 = x * 2 ^ k + y * 2 ^ k div 256"
    by (simp add: distrib_right mult.assoc)
  moreover have "x * 2 ^ k mod 256 \<le> 256 - 2 ^ k"
  proof -
    have "x * 2 ^ k mod 256 = 2 ^ k * (x mod 2 ^ (8 - k))"
      by (subst power_split [OF assms(1)]) (simp only: mult.commute [of x] mult_mod_right)
    also have "\<dots> \<le> 2 ^ k * (2 ^ (8 - k) - 1)" by (intro mult_le_mono2) (metis One_nat_def Suc_leI Suc_pred mod_less_divisor not_less_eq_eq zero_less_numeral zero_less_power)
    also have "\<dots> = 256 - 2 ^ k" by (subst power_split [OF assms(1)]) (simp only: diff_mult_distrib2 mult_1_right)
    finally show ?thesis .
  qed
  moreover have "y * 2 ^ k div 256 < 2 ^ k" using assms(2) by (intro less_mult_imp_div_less) simp
  moreover have "(2 :: nat) ^ k \<le> 256" using power_increasing [of k 8 "2 :: nat"] assms(1) by simp
  ultimately have "x * 2 ^ k mod 256 + y * 2 ^ k div 256 < 256" by linarith
  then have "(x * 2 ^ k + y * 2 ^ k div 256) mod 256 = x * 2 ^ k mod 256 + y * 2 ^ k div 256"
    by (metis mod_add_left_eq mod_less)
  then show ?thesis unfolding \<open>(256 * x + y) * 2 ^ k div 256 = x * 2 ^ k + y * 2 ^ k div 256\<close> .
qed

lemma right_byte:
  fixes x y k :: nat
  assumes "k < 8" "y < 256"
  shows "(256 * x + y) div 2 ^ k mod 256 = (x mod 2 ^ k) * 2 ^ (8 - k) + y div 2 ^ k"
proof -
  have "(256 * x + y) div 2 ^ k = x * 2 ^ (8 - k) + y div 2 ^ k"
  proof -
    have "256 * x + y = y + 2 ^ k * (2 ^ (8 - k) * x)" by (subst power_split [OF assms(1)]) simp
    then show ?thesis by (simp only: div_mult_self2 power_not_zero add.commute mult.commute [of x]) simp
  qed
  moreover have "x * 2 ^ (8 - k) mod 256 = (x mod 2 ^ k) * 2 ^ (8 - k)"
    by (subst power_split [OF assms(1)]) (simp only: mult_mod_left)
  moreover have "y div 2 ^ k < 2 ^ (8 - k)"
    using assms(2) by (intro less_mult_imp_div_less) (simp only: power_split [OF assms(1), symmetric] mult.commute)
  moreover have "(x mod 2 ^ k) * 2 ^ (8 - k) \<le> 256 - 2 ^ (8 - k)"
  proof -
    have "(x mod 2 ^ k) * 2 ^ (8 - k) \<le> (2 ^ k - 1) * 2 ^ (8 - k)"
      by (intro mult_le_mono1) (metis One_nat_def Suc_leI Suc_pred mod_less_divisor not_less_eq_eq zero_less_numeral zero_less_power)
    also have "\<dots> = 256 - 2 ^ (8 - k)" by (subst power_split [OF assms(1)]) (simp only: diff_mult_distrib mult_1_left)
    finally show ?thesis .
  qed
  moreover have "(2 :: nat) ^ (8 - k) \<le> 256" using power_increasing [of "8 - k" 8 "2 :: nat"] assms(1) by simp
  ultimately have "x * 2 ^ (8 - k) mod 256 + y div 2 ^ k < 256" by linarith
  then have "(x * 2 ^ (8 - k) + y div 2 ^ k) mod 256 = x * 2 ^ (8 - k) mod 256 + y div 2 ^ k"
    by (metis mod_add_left_eq mod_less)
  with \<open>(256 * x + y) div 2 ^ k = _\<close> \<open>x * 2 ^ (8 - k) mod 256 = _\<close> show ?thesis by simp
qed

lemma stored_sll:
  assumes "stored (init_sll t) m" "k < 8"
  shows "unat (m (hyper t x y (HYPER_SLL + k))) = unat x * 2 ^ k mod 256 + unat y * 2 ^ k div 256"
    "unat (m (unat (SLL_HYPER_SELECT t) + unat (f :: u8))) = HYPER_SLL + unat f mod 8"
proof -
  have s: "stored [(hyper_shift t i HYPER_SLL s, of_nat (drop_bit 8 (push_bit s i))). i \<leftarrow> [0..<65536], s \<leftarrow> [0..<8]] m"
    "stored [(unat (SLL_HYPER_SELECT t) + i, of_nat (HYPER_SLL + (i AND 7))). i \<leftarrow> [0..<256]] m"
    using assms(1) by (simp_all only: init_sll_def stored_append)
  show "unat (m (unat (SLL_HYPER_SELECT t) + unat f)) = HYPER_SLL + unat f mod 8"
    by (rule stored_select [OF s(2)]) (simp add: hyper_slots)
  have "m (hyper t x y (HYPER_SLL + k)) = of_nat (drop_bit 8 (push_bit k (256 * unat x + unat y)))"
    by (rule stored_shift [OF s(1)]) (simp_all add: hyper_slots assms(2))
  then show "unat (m (hyper t x y (HYPER_SLL + k))) = unat x * 2 ^ k mod 256 + unat y * 2 ^ k div 256"
    using left_byte [OF assms(2) u8_bound [of y], of "unat x"]
    by (simp add: unat_of_nat drop_bit_eq_div push_bit_eq_mult)
qed

lemma stored_srl:
  assumes "stored (init_srl t) m" "k < 8"
  shows "unat (m (hyper t x y (HYPER_SRL + k))) = (unat x mod 2 ^ k) * 2 ^ (8 - k) + unat y div 2 ^ k"
    "unat (m (unat (SRL_HYPER_SELECT t) + unat (f :: u8))) = HYPER_SRL + unat f mod 8"
proof -
  have s: "stored [(hyper_shift t i HYPER_SRL s, of_nat (drop_bit s i)). i \<leftarrow> [0..<65536], s \<leftarrow> [0..<8]] m"
    "stored [(unat (SRL_HYPER_SELECT t) + i, of_nat (HYPER_SRL + (i AND 7))). i \<leftarrow> [0..<256]] m"
    using assms(1) by (simp_all only: init_srl_def stored_append)
  show "unat (m (unat (SRL_HYPER_SELECT t) + unat f)) = HYPER_SRL + unat f mod 8"
    by (rule stored_select [OF s(2)]) (simp add: hyper_slots)
  have "m (hyper t x y (HYPER_SRL + k)) = of_nat (drop_bit k (256 * unat x + unat y))"
    by (rule stored_shift [OF s(1)]) (simp_all add: hyper_slots assms(2))
  then show "unat (m (hyper t x y (HYPER_SRL + k))) = (unat x mod 2 ^ k) * 2 ^ (8 - k) + unat y div 2 ^ k"
    using right_byte [OF assms(2) u8_bound [of y], of "unat x"]
    by (simp add: unat_of_nat drop_bit_eq_div)
qed

text \<open>The byte that extends a number to the left, by its sign.\<close>

definition sign_byte :: "u8 \<Rightarrow> nat" where
  "sign_byte x = (if 128 \<le> unat x then 255 else 0)"

lemma unat_sra_byte:
  assumes "k < 8"
  shows "unat (signed_drop_bit k (x :: u8)) = (sign_byte x mod 2 ^ k) * 2 ^ (8 - k) + unat x div 2 ^ k"
proof -
  have "uint (signed_drop_bit k x) = sint x div 2 ^ k mod 256"
    by (simp add: uint_sint sint_signed_drop_bit_eq take_bit_eq_mod drop_bit_eq_div)
  moreover have "sint x = (if 128 \<le> unat x then int (unat x) - 256 else int (unat x))"
  proof -
    have "uint x = sint x mod 256" by (simp add: uint_sint take_bit_eq_mod)
    moreover have "- 128 \<le> sint x" "sint x < 128" using sint_ge [of x] sint_lt [of x] by simp_all
    moreover have "int (unat x) = uint x" by simp
    ultimately show ?thesis by presburger
  qed
  ultimately have u: "int (unat (signed_drop_bit k x)) =
      (if 128 \<le> unat x then int (unat x) - 256 else int (unat x)) div 2 ^ k mod 256" by simp
  define A B where "A = (2 :: nat) ^ k" and "B = (2 :: nat) ^ (8 - k)"
  have AB: "A * B = 256" "0 < A" "0 < B" using power_split [OF assms] by (simp_all add: A_def B_def)
  have "(if 128 \<le> unat x then int (unat x) - 256 else int (unat x)) div int A mod 256 =
      int ((sign_byte x mod A) * B + unat x div A)"
  proof (cases "128 \<le> unat x")
    case True
    have "unat x div A < B" using u8_bound [of x] AB(1) by (intro less_mult_imp_div_less) (simp add: mult.commute)
    moreover have "int (unat x) - 256 = int (unat x) + int A * (- int B)"
      using arg_cong [OF AB(1), of int] by simp
    then have "(int (unat x) - 256) div int A = int (unat x div A) - int B"
      using AB(2) by (simp only: div_mult_self2 zdiv_int)
    moreover have "B \<le> 256" using AB by (metis dvd_triv_right nat_dvd_not_less not_less zero_less_numeral)
    ultimately have "(int (unat x) - 256) div int A mod 256 = int (unat x div A) - int B + 256"
      using mod_pos_pos_trivial [of "int (unat x div A) - int B + 256" 256] by simp
    moreover have "(255 mod A) * B = 256 - B"
    proof -
      have "A \<le> 256" using AB by (metis dvd_triv_left nat_dvd_not_less not_less zero_less_numeral)
      then have "255 = (A - 1) + A * (B - 1)" using AB by (simp add: diff_mult_distrib2)
      then have "255 mod A = (A - 1) mod A" by (metis mod_mult_self2)
      then have "255 mod A = A - 1" using AB(2) by simp
      then show ?thesis using AB(1) by (simp add: diff_mult_distrib)
    qed
    ultimately show ?thesis using True \<open>B \<le> 256\<close> by (simp add: sign_byte_def of_nat_diff)
  next
    case False
    then have "unat x div A < 256" using u8_bound [of x] div_le_dividend [of "unat x" A] by linarith
    then have "int (unat x) div int A mod 256 = int (unat x div A)" by (simp only: zdiv_int [symmetric]) simp
    with False show ?thesis by (simp add: sign_byte_def)
  qed
  then have "(if 128 \<le> unat x then int (unat x) - 256 else int (unat x)) div 2 ^ k mod 256 =
      int ((sign_byte x mod 2 ^ k) * 2 ^ (8 - k) + unat x div 2 ^ k)"
    by (simp add: A_def B_def)
  with u show ?thesis by linarith
qed

section \<open>Numbers\<close>

lemma num_left:
  assumes "\<And>i. i < w \<Longrightarrow> unat (m' (r + i)) =
    unat (m (a + i)) * 2 ^ k mod 256 + (if i = 0 then 0 else unat (m (a + (i - 1))) * 2 ^ k div 256)"
  shows "num m' r w = num m a w * 2 ^ k mod 256 ^ w"
proof -
  let ?c = "\<lambda>i. if i = 0 then 0 else unat (m (a + (i - 1))) * 2 ^ k div 256"
  have "j \<le> w \<Longrightarrow> num m' r j + 256 ^ j * ?c j = num m a j * 2 ^ k" for j
  proof (induction j)
    case 0
    then show ?case by simp
  next
    case (Suc j)
    let ?x = "unat (m (a + j)) * 2 ^ k"
    from Suc have IH: "num m' r j + 256 ^ j * ?c j = num m a j * 2 ^ k" by linarith
    have b: "unat (m' (r + j)) = ?x mod 256 + ?c j" using assms Suc.prems by simp
    have "num m' r (Suc j) + 256 ^ Suc j * ?c (Suc j) =
        (num m' r j + 256 ^ j * ?c j) + 256 ^ j * (?x mod 256 + 256 * (?x div 256))"
    proof -
      have "n + p * (u + c) + 256 * p * d = (n + p * c) + p * (u + 256 * d)" for n p u c d :: nat by (simp add: algebra_simps)
      moreover have "?c (Suc j) = ?x div 256" by simp
      ultimately show ?thesis by (simp only: num.simps b power_Suc)
    qed
    also have "\<dots> = num m a (Suc j) * 2 ^ k"
      by (simp only: IH num.simps mod_mult_div_eq) (simp add: algebra_simps)
    finally show ?case .
  qed
  from this [of w] have "num m' r w mod 256 ^ w = num m a w * 2 ^ k mod 256 ^ w"
    by (metis mod_mult_self2 order_refl)
  then show ?thesis using num_less [of m' r w] by simp
qed

lemma num_right:
  assumes k: "k < 8" and b: "\<And>i. i < w \<Longrightarrow> unat (m' (r + i)) = (E (i + 1) mod 2 ^ k) * 2 ^ (8 - k) + E i div 2 ^ k"
    and E: "\<And>i. i < w \<Longrightarrow> E i = unat (m (a + i))"
  shows "num m' r w = (num m a w + 256 ^ w * (E w mod 2 ^ k)) div 2 ^ k"
proof -
  define A B where "A = (2 :: nat) ^ k" and "B = (2 :: nat) ^ (8 - k)"
  have AB: "A * B = 256" "0 < A" using power_split [OF k] by (simp_all add: A_def B_def)
  have "j \<le> w \<Longrightarrow> A * num m' r j + E 0 mod A = num m a j + 256 ^ j * (E j mod A)" for j
  proof (induction j)
    case 0
    then show ?case by simp
  next
    case (Suc j)
    have g: "A * (n + p * (x * B + d)) + e = (A * n + e) + p * (A * d) + p * (A * B * x)" for n p x d e
      by (simp add: algebra_simps)
    have h: "n + p * y + p * (A * d) + q = n + p * (y + A * d) + q" for n p y d q :: nat
      by (simp add: algebra_simps)
    have "unat (m' (r + j)) = (E (Suc j) mod A) * B + E j div A" "A * num m' r j + E 0 mod A = num m a j + 256 ^ j * (E j mod A)"
      using b [of j] Suc by (simp_all add: A_def B_def)
    then have "A * num m' r (Suc j) + E 0 mod A =
        num m a j + 256 ^ j * (E j mod A + A * (E j div A)) + 256 ^ j * (256 * (E (Suc j) mod A))"
      by (simp only: num.simps g h AB(1))
    also have "\<dots> = num m a (Suc j) + 256 ^ Suc j * (E (Suc j) mod A)"
      by (simp only: mod_mult_div_eq num.simps) (use E [of j] Suc.prems in simp)
    finally show ?case .
  qed
  from this [of w] have "num m a w + 256 ^ w * (E w mod A) = E 0 mod A + A * num m' r w" by simp
  then have "(num m a w + 256 ^ w * (E w mod A)) div A = num m' r w"
    using AB(2) by (simp add: div_mult_self2)
  then show ?thesis by (simp add: A_def)
qed

section \<open>The programs\<close>

text \<open>
  Every shift begins with a scatter of byte pairs, then patches the slots, then completes the lookup at
  one end of the number, \<open>r0\<close>, whose blocks precede those for the other bytes, from \<open>r1\<close> on.
\<close>

definition shift_prog :: "dma_tables \<Rightarrow> cblk \<Rightarrow> cblk \<Rightarrow> nat \<Rightarrow> nat \<Rightarrow> nat \<Rightarrow> nat \<Rightarrow> nat \<Rightarrow> nat \<Rightarrow> nat \<Rightarrow> nat \<Rightarrow> cblk list" where
  "shift_prog t c1 c2 p w a q x r0 T0 r1 =
     [cb_2d scatter (busn (p + 165)) (busn a) (w - 1) 2 30 (- 1), c1, c2, linear_cb (busn (p + q)) (busn x) 1,
      linear_cb (busn r0) (busn T0) 1] @
     concat (map (\<lambda>i. [linear_cb (busn (r1 + i)) (busn (unat (HYPER t))) 1]) [0..<w - 1])"

lemma length_shift_prog: "0 < w \<Longrightarrow> length (shift_prog t c1 c2 p w a q x r0 T0 r1) = w + 4"
  by (simp add: shift_prog_def)

lemma shift_prog_nth:
  "shift_prog t c1 c2 p w a q x r0 T0 r1 ! 0 = cb_2d scatter (busn (p + 165)) (busn a) (w - 1) 2 30 (- 1)"
  "shift_prog t c1 c2 p w a q x r0 T0 r1 ! 1 = c1"
  "shift_prog t c1 c2 p w a q x r0 T0 r1 ! 2 = c2"
  "shift_prog t c1 c2 p w a q x r0 T0 r1 ! 3 = linear_cb (busn (p + q)) (busn x) 1"
  "shift_prog t c1 c2 p w a q x r0 T0 r1 ! 4 = linear_cb (busn r0) (busn T0) 1"
  "i < w - 1 \<Longrightarrow> shift_prog t c1 c2 p w a q x r0 T0 r1 ! (i + 5) = linear_cb (busn (r1 + i)) (busn (unat (HYPER t))) 1"
  by (simp_all add: shift_prog_def nth_singletons)

lemma EmitStridedWith_ok:
  assumes "fits s (Suc n)" "T = scatter \<or> T = spread" "0 < rows" "rows \<le> 2 ^ 14" "cols < 2 ^ 16"
  shows "\<exists>s'. EmitStridedWith T d src (of_nat rows) (of_nat cols) ds ss s = Some s' \<and>
    emitted s [cb_2d T d src rows cols ds ss] s' \<and> fits s' n \<and> pos s' = pos s + 32"
proof -
  from EmitStridedWith_emitted [OF assms] obtain s' where
    "EmitStridedWith T d src (of_nat rows) (of_nat cols) ds ss s = Some s'" and e: "emitted s [cb_2d T d src rows cols ds ss] s'"
    by blast
  moreover have "fits s' n" by (rule fits_emitted [OF e]) (use assms(1) in simp)
  moreover have "pos s' = pos s + 32" using e by (simp add: emitted_def)
  ultimately show ?thesis by blast
qed

lemma rel_fld_srcs:
  assumes "fits s n"
  shows "bus_rel_fld (busn (pos s)) 5 FLD_SRC 1 = Some (busn (pos s + 165))"
    "bus_rel_fld (busn (pos s)) 2 FLD_SRC 0 = Some (busn (pos s + 68))"
    "bus_rel_fld (busn (pos s)) 4 FLD_SRC 0 = Some (busn (pos s + 132))"
    "bus_rel_fld (busn (pos s)) 5 FLD_SRC 0 = Some (busn (pos s + 164))"
    "bus_rel_fld (busn (pos s)) 4 FLD_SRC 1 = Some (busn (pos s + 133))"
    "bus_rel_fld (busn (pos s)) 4 FLD_SRC 2 = Some (busn (pos s + 134))"
proof -
  have p: "pos s < 2 ^ 29" "pos s mod 32 = 0" using assms by (simp_all add: fits_def)
  note r = rel_fld_src [OF p]
  show "bus_rel_fld (busn (pos s)) 5 FLD_SRC 1 = Some (busn (pos s + 165))"
    "bus_rel_fld (busn (pos s)) 2 FLD_SRC 0 = Some (busn (pos s + 68))"
    "bus_rel_fld (busn (pos s)) 4 FLD_SRC 0 = Some (busn (pos s + 132))"
    "bus_rel_fld (busn (pos s)) 5 FLD_SRC 0 = Some (busn (pos s + 164))"
    "bus_rel_fld (busn (pos s)) 4 FLD_SRC 1 = Some (busn (pos s + 133))"
    "bus_rel_fld (busn (pos s)) 4 FLD_SRC 2 = Some (busn (pos s + 134))"
    using r [of 1 5] r [of 0 2] r [of 0 4] r [of 0 5] r [of 1 4] r [of 2 4] by (simp_all add: ac_simps)
qed

text \<open>The lookups at the end of each program.\<close>

lemma shift_tail_emitted:
  assumes "fits s (Suc n)" "hyper_ok t"
  shows "\<exists>s1 s'. Emit (busn r0) (busn T0) 1 s = Some s1 \<and>
    for_each (\<lambda>i s. do { src \<leftarrow> bus (HYPER t); Emit (bus_add (busn r) (of_nat i)) src 1 s }) [k..<k + n] s1 = Some s' \<and>
    emitted s (linear_cb (busn r0) (busn T0) 1 # concat (map (\<lambda>i. [linear_cb (busn (r + k + i)) (busn (unat (HYPER t))) 1]) [0..<n])) s'"
proof -
  from Emit_1 [OF assms(1)] obtain s1 where s1: "Emit (busn r0) (busn T0) 1 s = Some s1"
    "emitted s [linear_cb (busn r0) (busn T0) 1] s1" "fits s1 n" by blast
  let ?f = "\<lambda>i s. do { src \<leftarrow> bus (HYPER t); Emit (bus_add (busn r) (of_nat i)) src 1 s }"
  let ?g = "\<lambda>i. [linear_cb (busn (r + i)) (busn (unat (HYPER t))) 1]"
  have "\<exists>s'. for_each ?f [k..<k + n] s1 = Some s' \<and> emitted s1 (concat (map ?g [k..<k + n])) s' \<and> fits s' 0"
  proof (rule for_upt_emitted [where k = 1 and p = "pos s1"])
    fix x s' n'
    assume "fits s' (1 + n')"
    then have "fits s' (Suc n')" by simp
    from Emit_1 [OF this, of "busn (r + x)" "busn (unat (HYPER t))"]
    show "\<exists>s''. ?f x s' = Some s'' \<and> emitted s' (?g x) s''"
      using bus_off_hyper(2) [OF assms(2), of 0] by (auto simp: bus_add_busn)
  qed (use s1(3) in simp_all)
  then obtain s' where s': "for_each ?f [k..<k + n] s1 = Some s'" "emitted s1 (concat (map ?g [k..<k + n])) s'" by blast
  have mp: "map ?g [k..<k + n] = map (\<lambda>i. [linear_cb (busn (r + k + i)) (busn (unat (HYPER t))) 1]) [0..<n]"
    by (rule nth_equalityI) (simp_all add: add.assoc)
  with emitted_append [OF s1(2) s'(2)] have "emitted s (linear_cb (busn r0) (busn T0) 1 #
      concat (map (\<lambda>i. [linear_cb (busn (r + k + i)) (busn (unat (HYPER t))) 1]) [0..<n])) s'"
    by (simp only: append_Cons append_Nil mp)
  with s1(1) s'(1) show ?thesis by blast
qed

section \<open>Running them\<close>

lemma tail_run:
  assumes hw: "dma_engine hw" and q: "q mod 32 = 0" "q + 32 * Suc n < 2 ^ 29"
    and c0: "shape m q (lookup_cb q r0 T0 1)" "load32 m (q + 4) = busn S0" "S0 < 2 ^ 29"
    and c1: "\<And>i. i < n \<Longrightarrow> shape m (q + 32 + 32 * i) (lookup_cb (q + 32 + 32 * i) (r1 + i) T1 1)"
      "\<And>i. i < n \<Longrightarrow> load32 m (q + 32 + 32 * i + 4) = busn (S i)" "\<And>i. i < n \<Longrightarrow> S i < 2 ^ 29"
    and r: "r0 = r \<and> r1 = r + 1 \<or> r0 = r + n \<and> r1 = r" "r + Suc n \<le> 2 ^ 29" "r + Suc n \<le> q \<or> q + 32 * Suc n \<le> r"
    and S: "S0 < r \<or> r + Suc n \<le> S0" "\<And>i. i < n \<Longrightarrow> S i < r \<or> r + Suc n \<le> S i"
  shows "dma_run hw (Suc n) (busn q, m) =
    (busn (q + 32 * Suc n), \<lambda>x. if x = r0 then m S0 else if r1 \<le> x \<and> x < r1 + n then m (S (x - r1)) else m x)"
proof -
  let ?m = "m(r0 := m S0)"
  have "hw (busn q) m = (busn (q + 32), mem_copy r0 S0 1 m)"
    by (rule lookup_step [OF hw _ q(1) c0(1,2)]) (use q c0(3) r S(1) in auto)
  then have step: "hw (busn q) m = (busn (q + 32), ?m)" by (simp only: mem_copy_1)
  have r0: "\<not> (q \<le> r0 \<and> r0 < q + 32 * Suc n)" "r \<le> r0" "r0 < r + Suc n" using r by auto
  have "dma_run hw n (busn (q + 32), ?m) =
      (busn (q + 32 + 32 * n), \<lambda>x. if r1 \<le> x \<and> x < r1 + n then ?m (S (x - r1)) else ?m x)"
  proof (rule lookups [OF hw, where ?s0.0 = T1])
    fix i assume i: "i < n"
    show "shape ?m (q + 32 + 32 * i) (lookup_cb (q + 32 + 32 * i) (r1 + i) T1 1)"
      by (rule shape_cong [OF c1(1) [OF i]]) (use r0 i in auto)
    have "load32 ?m (q + 32 + 32 * i + 4) = load32 m (q + 32 + 32 * i + 4)"
      unfolding load32_def using r0(1) i by (intro arg_cong [of _ _ of_le32] mem_read_cong) auto
    then show "load32 ?m (q + 32 + 32 * i + 4) = busn (S i)" using c1(2) [OF i] by simp
    show "S i < r1 \<or> r1 + n \<le> S i" using S(2) [OF i] r(1) by auto
  qed (use q r c1(3) in auto)
  moreover have "(if r1 \<le> x \<and> x < r1 + n then ?m (S (x - r1)) else ?m x) =
      (if x = r0 then m S0 else if r1 \<le> x \<and> x < r1 + n then m (S (x - r1)) else m x)" for x
  proof (cases "r1 \<le> x \<and> x < r1 + n")
    case True
    then have "x - r1 < n" by linarith
    then have "S (x - r1) \<noteq> r0" "x \<noteq> r0" using True S(2) [of "x - r1"] r0 r(1) by auto
    with True show ?thesis by simp
  qed auto
  moreover have "q + 32 + 32 * n = q + 32 * Suc n" by simp
  ultimately show ?thesis unfolding dma_run_Suc step by (simp only:)
qed

lemma frame_shape:
  assumes "fetch_cb m0 y = cb" "y mod 32 = 0" "\<And>x. x mod 32 < 4 \<or> 7 \<le> x mod 32 \<Longrightarrow> m x = m0 x"
  shows "shape m y cb"
proof (rule shape_cong [OF fetch_shape [OF assms(1)]])
  fix z assume z: "y \<le> z" "z < y + 24" "\<not> (y + 4 \<le> z \<and> z < y + 8)"
  then obtain d where d: "z = y + d" "d < 4 \<or> 8 \<le> d" "d < 24" by (metis add_less_cancel_left le_add_diff_inverse not_le nat_add_left_cancel_le)
  have "z mod 32 = d" unfolding d(1) using assms(2) d(3) by (simp add: mod_32_add)
  with d(2) show "m z = m0 z" by (intro assms(3)) auto
qed

lemma frame_src:
  assumes t: "hyper_ok t" and y: "y mod 32 = 0" and cb: "fetch_cb m0 y = cb" "src_addr cb = busn (unat (HYPER t))"
    and m: "\<And>x. x mod 32 < 4 \<or> 7 \<le> x mod 32 \<Longrightarrow> m x = m0 x" "m (y + 4) = z0" "m (y + 5) = z1" "m (y + 6) = z2"
  shows "load32 m (y + 4) = busn (hyper t z2 z1 (unat z0))"
proof -
  have o: "of_le32 [m0 (y + 4), m0 (y + 5), m0 (y + 6), m0 (y + 7)] = busn (unat (HYPER t) + 0)"
    using fetch_bytes [OF cb(1)] cb(2) by simp
  have "(y + 7) mod 32 = 7" using y by (simp add: mod_32_add)
  then have "m (y + 7) = m0 (y + 7)" by (intro m(1)) simp
  with hyper_patch(2) [OF t o, of z0 z1 z2] m(2-4) show ?thesis by (simp add: load32_bytes ac_simps)
qed

lemma shift_finish:
  assumes hw: "dma_engine hw" and f: "fits s (w + 4)" and w: "2 \<le> w" and t: "hyper_ok t"
    and e: "emitted s (shift_prog t c1 c2 (pos s) w a q x r0 T0 r1) s'"
    and run4: "dma_run hw 4 (busn (pos s), snd s') = (busn (pos s + 128), m)"
    and keep: "\<And>x. x mod 32 < 4 \<or> 7 \<le> x mod 32 \<or> x < pos s \<or> pos s + 32 * (w + 4) \<le> x \<Longrightarrow> m x = snd s' x"
    and first: "load32 m (pos s + 132) = busn S0" "S0 < 2 ^ 29" "away S0 1 (pos s) (32 * (w + 4))" "away S0 1 r w"
    and bytes: "\<And>i. i < w - 1 \<Longrightarrow> m (pos s + 164 + 32 * i) = C" "\<And>i. i < w - 1 \<Longrightarrow> m (pos s + 165 + 32 * i) = snd s (a + i)"
      "\<And>i. i < w - 1 \<Longrightarrow> m (pos s + 166 + 32 * i) = snd s (a + (i + 1))"
    and lay: "clear s (w + 4) (unat (HYPER t)) (2 ^ 24)" "clear s (w + 4) r w" "away r w (unat (HYPER t)) (2 ^ 24)"
    and r: "r0 = r \<and> r1 = r + 1 \<or> r0 = r + (w - 1) \<and> r1 = r"
  shows "\<exists>m'. dma_run hw (w + 4) (busn (pos s), snd s') = (busn (pos s'), m') \<and> m' r0 = snd s S0 \<and>
    (\<forall>i < w - 1. m' (r1 + i) = snd s (hyper t (snd s (a + (i + 1))) (snd s (a + i)) (unat C))) \<and>
    (\<forall>x. \<not> (r \<le> x \<and> x < r + w) \<and> (x < pos s \<or> pos s' \<le> x) \<longrightarrow> m' x = snd s x)"
proof -
  let ?p = "pos s" and ?H = "unat (HYPER t)"
  obtain n where n: "w = Suc n" using w by (cases w) auto
  have p: "?p mod 32 = 0" "?p + 32 * (w + 4) < 2 ^ 29" using f by (simp_all add: fits_def)
  have len: "length (shift_prog t c1 c2 ?p w a q x r0 T0 r1) = w + 4" using w by (simp add: length_shift_prog)
  then have p': "pos s' = ?p + 32 * (w + 4)" using e by (simp add: emitted_def)
  have same: "snd s' y = snd s y" if "y < ?p \<or> ?p + 32 * (w + 4) \<le> y" for y
    using e that unfolding emitted_def p' [symmetric] by blast
  have out: "m y = snd s y" if "y < ?p \<or> ?p + 32 * (w + 4) \<le> y" for y
    using keep [of y] same [OF that] that by auto
  note code = emitted_nth [OF e, unfolded len]
  have lk0: "fetch_cb (snd s') (?p + 128) = lookup_cb (?p + 128) r0 T0 1"
    using code [of 4] shift_prog_nth(5) [of t c1 c2 ?p w a q x r0 T0 r1] w by (simp add: linear_cb_def lookup_cb_def ac_simps)
  have lk: "fetch_cb (snd s') (?p + 128 + 32 + 32 * i) = lookup_cb (?p + 128 + 32 + 32 * i) (r1 + i) ?H 1" if "i < n" for i
    using code [of "i + 5"] shift_prog_nth(6) [of i w t c1 c2 ?p a q x r0 T0 r1] that n
    by (simp add: linear_cb_def lookup_cb_def algebra_simps)
  note sh = frame_shape [where ?m0.0 = "snd s'" and m = m, OF _ _ keep]
  have al: "(?p + 128) mod 32 = 0" "(?p + 128 + 32 + 32 * i) mod 32 = 0" for i using p(1) by presburger+
  let ?S = "\<lambda>i. hyper t (snd s (a + (i + 1))) (snd s (a + i)) (unat C)"
  have src: "load32 m (?p + 128 + 32 + 32 * i + 4) = busn (?S i)" if i: "i < n" for i
  proof (rule frame_src [OF t al(2) lk [OF i]])
    show "m x = snd s' x" if "x mod 32 < 4 \<or> 7 \<le> x mod 32" for x using that by (intro keep) blast
  qed (use bytes [of i] i n in \<open>simp_all add: lookup_cb_def ac_simps\<close>)
  have Sb: "?H \<le> ?S i \<and> ?S i < ?H + 2 ^ 24" for i
    using hyper_bound [OF t u8_bound [of C]] by blast
  have run: "dma_run hw (Suc n) (busn (?p + 128), m) = (busn (?p + 128 + 32 * Suc n),
      \<lambda>x. if x = r0 then m S0 else if r1 \<le> x \<and> x < r1 + n then m (?S (x - r1)) else m x)"
  proof (rule tail_run [OF hw])
    show "shape m (?p + 128) (lookup_cb (?p + 128) r0 T0 1)" by (rule sh [OF lk0 al(1)]) blast
    show "load32 m (?p + 128 + 4) = busn S0" using first(1) by (simp add: add.commute)
    show "shape m (?p + 128 + 32 + 32 * i) (lookup_cb (?p + 128 + 32 + 32 * i) (r1 + i) ?H 1)" if "i < n" for i
      by (rule sh [OF lk [OF that] al(2)]) blast
    show "?S i < 2 ^ 29" for i using Sb [of i] t by (simp add: hyper_ok_def)
    show "?S i < r \<or> r + Suc n \<le> ?S i" for i using Sb [of i] lay(3) n by (auto simp: away_def)
  qed (use first p al src lay r n in \<open>auto simp: clear_def away_def\<close>)
  let ?m' = "\<lambda>x. if x = r0 then m S0 else if r1 \<le> x \<and> x < r1 + n then m (?S (x - r1)) else m x"
  have "dma_run hw (w + 4) (busn ?p, snd s') = (busn (pos s'), ?m')"
  proof -
    have "w + 4 = 4 + Suc n" "?p + 128 + 32 * Suc n = pos s'" by (simp_all add: n p')
    then show ?thesis by (simp only: dma_run_add run4 run)
  qed
  moreover have "?m' r0 = snd s S0" using first(3) by (auto simp: away_def intro!: out)
  moreover have "?m' (r1 + i) = snd s (?S i)" if "i < w - 1" for i
  proof -
    have "m (?S i) = snd s (?S i)" using Sb [of i] lay(1) by (intro out) (auto simp: clear_def away_def)
    moreover have "r1 + i \<noteq> r0" using r that n by auto
    ultimately show ?thesis using that n by simp
  qed
  moreover have "?m' x = snd s x" if "\<not> (r \<le> x \<and> x < r + w)" "x < pos s \<or> pos s' \<le> x" for x
    using that r n out [of x] p' by auto
  ultimately show ?thesis by blast
qed

section \<open>Emitting them\<close>

lemma head_pairs:
  assumes "fits s (Suc n)" "2 \<le> w" "w \<le> 2 ^ 14"
  shows "\<exists>s1. EmitStrided d (busn a) (of_nat (w - 1)) 2 30 (- 1) s = Some s1 \<and>
    emitted s [cb_2d scatter d (busn a) (w - 1) 2 30 (- 1)] s1 \<and> fits s1 n \<and> pos s1 = pos s + 32"
  using EmitStrided_emitted [OF assms(1), of "w - 1" 2 d "busn a" 30 "- 1"] assms(2,3) by simp

lemma head_spread:
  assumes "fits s (Suc n)" "0 < rows" "rows \<le> 2 ^ 14"
  shows "\<exists>s1. EmitStridedWith (TI_DST_INC OR TI_2DMODE) d x (of_nat rows) 1 ds 0 s = Some s1 \<and>
    emitted s [cb_2d spread d x rows 1 ds 0] s1 \<and> fits s1 n \<and> pos s1 = pos s + 32"
  using EmitStridedWith_ok [OF assms(1), of spread rows 1 d x ds 0] assms(2,3) by (simp add: spread_def)

text \<open>The first four blocks of the logical shifts, and then all blocks of them.\<close>

lemma select_bus: "clear s n (unat p) 256 \<Longrightarrow> bus p = Some (busn (unat p))"
  by (rule bus_busn) (simp add: clear_def)

definition sxl_prog :: "dma_tables \<Rightarrow> u32 \<Rightarrow> nat \<Rightarrow> nat \<Rightarrow> nat \<Rightarrow> nat \<Rightarrow> nat \<Rightarrow> nat \<Rightarrow> nat \<Rightarrow> nat \<Rightarrow> cblk list" where
  "sxl_prog t sel p w a f q x r0 r1 =
     shift_prog t (linear_cb (busn (p + 68)) (busn f) 1) (cb_2d spread (busn (p + 132)) (busn (unat sel)) w 1 31 0)
       p w a q x r0 (unat (HYPER t)) r1"

lemma sxl_head_emitted:
  assumes f: "fits s (w + 4)" and w: "2 \<le> w" "w \<le> 2 ^ 14"
  shows "\<exists>s1 s2 s3 s4. EmitStrided (busn (pos s + 165)) (busn a) (of_nat (w - 1)) 2 30 (- 1) s = Some s1 \<and>
    Emit (busn (pos s + 68)) (busn f) 1 s1 = Some s2 \<and>
    EmitStridedWith (TI_DST_INC OR TI_2DMODE) (busn (pos s + 132)) (busn e) (of_nat w) 1 31 0 s2 = Some s3 \<and>
    Emit (busn (pos s + q)) (busn x) 1 s3 = Some s4 \<and> fits s4 w \<and>
    emitted s [cb_2d scatter (busn (pos s + 165)) (busn a) (w - 1) 2 30 (- 1), linear_cb (busn (pos s + 68)) (busn f) 1,
      cb_2d spread (busn (pos s + 132)) (busn e) w 1 31 0, linear_cb (busn (pos s + q)) (busn x) 1] s4"
proof -
  have "fits s (Suc (Suc (Suc (Suc w))))" using f by (simp add: eval_nat_numeral)
  from head_pairs [OF this w] obtain s1 where s1: "EmitStrided (busn (pos s + 165)) (busn a) (of_nat (w - 1)) 2 30 (- 1) s = Some s1"
    "emitted s [cb_2d scatter (busn (pos s + 165)) (busn a) (w - 1) 2 30 (- 1)] s1" "fits s1 (Suc (Suc (Suc w)))" by blast
  from Emit_1 [OF s1(3)] obtain s2 where s2: "Emit (busn (pos s + 68)) (busn f) 1 s1 = Some s2"
    "emitted s1 [linear_cb (busn (pos s + 68)) (busn f) 1] s2" "fits s2 (Suc (Suc w))" by blast
  have "0 < w" using w by simp
  from head_spread [OF s2(3) this w(2)] obtain s3 where s3:
    "EmitStridedWith (TI_DST_INC OR TI_2DMODE) (busn (pos s + 132)) (busn e) (of_nat w) 1 31 0 s2 = Some s3"
    "emitted s2 [cb_2d spread (busn (pos s + 132)) (busn e) w 1 31 0] s3" "fits s3 (Suc w)" by blast
  from Emit_1 [OF s3(3)] obtain s4 where s4: "Emit (busn (pos s + q)) (busn x) 1 s3 = Some s4"
    "emitted s3 [linear_cb (busn (pos s + q)) (busn x) 1] s4" "fits s4 w" by blast
  from emitted_append [OF s1(2) emitted_append [OF s2(2) emitted_append [OF s3(2) s4(2)]]] s1 s2 s3 s4
  show ?thesis by fastforce
qed

lemma shift_prog_split:
  "shift_prog t c1 c2 p w a q x r0 T0 r1 =
    [cb_2d scatter (busn (p + 165)) (busn a) (w - 1) 2 30 (- 1), c1, c2, linear_cb (busn (p + q)) (busn x) 1] @
    (linear_cb (busn r0) (busn T0) 1 # concat (map (\<lambda>i. [linear_cb (busn (r1 + i)) (busn (unat (HYPER t))) 1]) [0..<w - 1]))"
  by (simp add: shift_prog_def)

lemma Sll8_emitted:
  assumes f: "fits s (w + 4)" and w: "2 \<le> w" "w \<le> 2 ^ 14" and t: "hyper_ok t"
    and sel: "bus (SLL_HYPER_SELECT t) = Some (busn (unat (SLL_HYPER_SELECT t)))"
  shows "\<exists>s'. Sll8 t w (busn r) (busn a) (busn f8) s = Some s' \<and>
    emitted s (sxl_prog t (SLL_HYPER_SELECT t) (pos s) w a f8 134 a r (r + 1)) s'"
proof -
  from sxl_head_emitted [OF f w, of a f8 "unat (SLL_HYPER_SELECT t)" 134 a] obtain s1 s2 s3 s4 where h:
    "EmitStrided (busn (pos s + 165)) (busn a) (of_nat (w - 1)) 2 30 (- 1) s = Some s1"
    "Emit (busn (pos s + 68)) (busn f8) 1 s1 = Some s2"
    "EmitStridedWith (TI_DST_INC OR TI_2DMODE) (busn (pos s + 132)) (busn (unat (SLL_HYPER_SELECT t))) (of_nat w) 1 31 0 s2 = Some s3"
    "Emit (busn (pos s + 134)) (busn a) 1 s3 = Some s4" "fits s4 w"
    "emitted s [cb_2d scatter (busn (pos s + 165)) (busn a) (w - 1) 2 30 (- 1), linear_cb (busn (pos s + 68)) (busn f8) 1,
      cb_2d spread (busn (pos s + 132)) (busn (unat (SLL_HYPER_SELECT t))) w 1 31 0, linear_cb (busn (pos s + 134)) (busn a) 1] s4" by blast
  have n: "fits s4 (Suc (w - 1))" "1 + (w - 1) = w" using h(5) w by simp_all
  from shift_tail_emitted [OF n(1) t, of r "unat (HYPER t)" r 1, unfolded n(2)] obtain s5 s6 where tl:
    "Emit (busn r) (busn (unat (HYPER t))) 1 s4 = Some s5"
    "for_each (\<lambda>i s. do { src \<leftarrow> bus (HYPER t); Emit (bus_add (busn r) (of_nat i)) src 1 s }) [1..<w] s5 = Some s6"
    "emitted s4 (linear_cb (busn r) (busn (unat (HYPER t))) 1 #
      concat (map (\<lambda>i. [linear_cb (busn (r + 1 + i)) (busn (unat (HYPER t))) 1]) [0..<w - 1])) s6" by blast
  have "Sll8 t w (busn r) (busn a) (busn f8) s = Some s6"
    using w Label_fits [OF f] rel_fld_srcs [OF f] h(1-4) tl(1,2) bus_off_hyper(2) [OF t, of 0] bus_add_busn [of r 0]
    by (simp add: Sll8_def sel)
  moreover have "emitted s (sxl_prog t (SLL_HYPER_SELECT t) (pos s) w a f8 134 a r (r + 1)) s6"
    unfolding sxl_prog_def shift_prog_split by (rule emitted_append [OF h(6) tl(3)])
  ultimately show ?thesis by blast
qed

lemma Srl8_emitted:
  assumes f: "fits s (w + 4)" and w: "2 \<le> w" "w \<le> 2 ^ 14" and t: "hyper_ok t"
    and sel: "bus (SRL_HYPER_SELECT t) = Some (busn (unat (SRL_HYPER_SELECT t)))"
  shows "\<exists>s'. Srl8 t w (busn r) (busn a) (busn f8) s = Some s' \<and>
    emitted s (sxl_prog t (SRL_HYPER_SELECT t) (pos s) w a f8 133 (a + (w - 1)) (r + (w - 1)) r) s'"
proof -
  from sxl_head_emitted [OF f w, of a f8 "unat (SRL_HYPER_SELECT t)" 133 "a + (w - 1)"] obtain s1 s2 s3 s4 where h:
    "EmitStrided (busn (pos s + 165)) (busn a) (of_nat (w - 1)) 2 30 (- 1) s = Some s1"
    "Emit (busn (pos s + 68)) (busn f8) 1 s1 = Some s2"
    "EmitStridedWith (TI_DST_INC OR TI_2DMODE) (busn (pos s + 132)) (busn (unat (SRL_HYPER_SELECT t))) (of_nat w) 1 31 0 s2 = Some s3"
    "Emit (busn (pos s + 133)) (busn (a + (w - 1))) 1 s3 = Some s4" "fits s4 w"
    "emitted s [cb_2d scatter (busn (pos s + 165)) (busn a) (w - 1) 2 30 (- 1), linear_cb (busn (pos s + 68)) (busn f8) 1,
      cb_2d spread (busn (pos s + 132)) (busn (unat (SRL_HYPER_SELECT t))) w 1 31 0, linear_cb (busn (pos s + 133)) (busn (a + (w - 1))) 1] s4" by blast
  have n: "fits s4 (Suc (w - 1))" "0 + (w - 1) = w - 1" "r + 0 + i = r + i" for i using h(5) w by simp_all
  from shift_tail_emitted [OF n(1) t, of "r + (w - 1)" "unat (HYPER t)" r 0, unfolded n(2,3)] obtain s5 s6 where tl:
    "Emit (busn (r + (w - 1))) (busn (unat (HYPER t))) 1 s4 = Some s5"
    "for_each (\<lambda>i s. do { src \<leftarrow> bus (HYPER t); Emit (bus_add (busn r) (of_nat i)) src 1 s }) [0..<w - 1] s5 = Some s6"
    "emitted s4 (linear_cb (busn (r + (w - 1))) (busn (unat (HYPER t))) 1 #
      concat (map (\<lambda>i. [linear_cb (busn (r + i)) (busn (unat (HYPER t))) 1]) [0..<w - 1])) s6" by blast
  have "Srl8 t w (busn r) (busn a) (busn f8) s = Some s6"
    using w Label_fits [OF f] rel_fld_srcs [OF f] h(1-4) tl(1,2) bus_off_hyper(2) [OF t, of 0]
      bus_add_busn [of r "w - 1"] bus_add_busn [of a "w - 1"]
    by (simp add: Srl8_def sel)
  moreover have "emitted s (sxl_prog t (SRL_HYPER_SELECT t) (pos s) w a f8 133 (a + (w - 1)) (r + (w - 1)) r) s6"
    unfolding sxl_prog_def shift_prog_split by (rule emitted_append [OF h(6) tl(3)])
  ultimately show ?thesis by blast
qed

section \<open>The steps of the first four blocks\<close>

lemma step_byte:
  assumes "dma_engine hw" "a < 2 ^ 29" "a mod 32 = 0" "fetch_cb m a = (linear_cb (busn d) (busn x) 1)\<lparr>next_cb := nx\<rparr>"
    and "d < 2 ^ 29" "x < 2 ^ 29" "d \<noteq> x"
  shows "hw (busn a) m = (nx, m(d := m x))"
proof -
  have "hw (busn a) m = (nx, mem_copy d x 1 m)"
    by (rule step_linear [OF assms(1-3), where st = 0]) (use assms(4-7) in \<open>auto simp: linear_cb_def\<close>)
  then show ?thesis by (simp only: mem_copy_1)
qed

lemma step_pairs:
  assumes "dma_engine hw" "a < 2 ^ 29" "a mod 32 = 0"
    and "fetch_cb m a = (cb_2d scatter (busn d) (busn x) rows 2 30 (- 1))\<lparr>next_cb := nx\<rparr>"
    and "0 < rows" "rows \<le> 2 ^ 14" "d + 32 * rows \<le> 2 ^ 29 + 30" "x + rows + 1 \<le> 2 ^ 29" "x + rows + 1 \<le> d \<or> d + 32 * rows \<le> x + 30"
  shows "hw (busn a) m = (nx, mem_scatter d 32 x 1 2 rows m)"
proof -
  obtain k where k: "rows = Suc k" using assms(5) by (cases rows) auto
  have "fetch_cb m a = \<lparr>ti = scatter, src_addr = busn x, dst_addr = busn d, txfr_len = len2d rows 2,
      stride = cb_stride 30 (- 1), next_cb = nx\<rparr>"
    using assms(4) by (simp add: cb_2d_def)
  then show ?thesis
    by (rule step_scatter [OF assms(1-3), where sinc = 1]) (use assms(6-9) k in auto)
qed

lemma step_spread:
  assumes "dma_engine hw" "a < 2 ^ 29" "a mod 32 = 0"
    and "fetch_cb m a = (cb_2d spread (busn d) (busn x) rows 1 ds 0)\<lparr>next_cb := nx\<rparr>"
    and "D = 32 \<and> ds = 31 \<or> D = 64 \<and> ds = 63"
    and "0 < rows" "rows \<le> 2 ^ 14" "d + D * rows \<le> 2 ^ 29 + 31" "x < 2 ^ 29" "x < d \<or> d + D * rows \<le> x + 31"
  shows "hw (busn a) m = (nx, mem_scatter d D x 0 1 rows m)"
proof -
  obtain k where k: "rows = Suc k" using assms(6) by (cases rows) auto
  have "fetch_cb m a = \<lparr>ti = spread, src_addr = busn x, dst_addr = busn d, txfr_len = len2d rows 1,
      stride = cb_stride ds 0, next_cb = nx\<rparr>"
    using assms(4) by (simp add: cb_2d_def)
  then show ?thesis
    by (rule step_scatter [OF assms(1-3), where sinc = 0]) (use assms(5,7-10) k in auto)
qed

lemma mem_scatter_pair:
  assumes "i < rows" "j < 2"
  shows "mem_scatter d 32 x 1 2 rows m (d + 32 * i + j) = m (x + i + j)"
  using assms by (simp add: mem_scatter_def)

lemma mem_scatter_pair_other:
  assumes "\<And>i. i < rows \<Longrightarrow> y \<noteq> d + 32 * i \<and> y \<noteq> d + 32 * i + 1"
  shows "mem_scatter d 32 x 1 2 rows m y = m y"
proof -
  have "\<not> (d \<le> y \<and> (y - d) mod 32 < 2 \<and> (y - d) div 32 < rows)"
  proof
    assume a: "d \<le> y \<and> (y - d) mod 32 < 2 \<and> (y - d) div 32 < rows"
    then obtain q j where q: "q = (y - d) div 32" "j = (y - d) mod 32" "j < 2" "q < rows" "d \<le> y" by blast
    then have "y = d + 32 * q + j" using mult_div_mod_eq [of 32 "y - d"] by linarith
    moreover have "j = 0 \<or> j = 1" using q(3) by linarith
    ultimately show False using assms [OF q(4)] by (elim disjE) simp_all
  qed
  then show ?thesis by (auto simp: mem_scatter_def)
qed

lemma mod_off: "p mod 32 = 0 \<Longrightarrow> (p + k + 32 * i) mod 32 = k mod 32" for p k i :: nat
  by (metis add.left_neutral mod_add_left_eq mod_mult_self2)

lemma cb_linear_bytes:
  assumes "fetch_cb m a = (linear_cb d x n)\<lparr>next_cb := nx\<rparr>" "\<And>y. a \<le> y \<Longrightarrow> y < a + 24 \<Longrightarrow> m' y = m y"
  shows "fetch_cb m' a = (linear_cb d x n)\<lparr>next_cb := nx\<rparr>"
  using assms fetch_cong [of a m' m] by simp

text \<open>The memory when the first four blocks have run.\<close>

definition shift_ready ::
  "emit_st \<Rightarrow> mem \<Rightarrow> mem \<Rightarrow> nat \<Rightarrow> nat \<Rightarrow> u8 \<Rightarrow> u8 \<Rightarrow> nat \<Rightarrow> u8 \<Rightarrow> bool" where
  "shift_ready s m0 m w a c0 C q v \<longleftrightarrow>
     (\<forall>x. x mod 32 < 4 \<or> 7 \<le> x mod 32 \<or> x < pos s \<or> pos s + 32 * (w + 4) \<le> x \<longrightarrow> m x = m0 x) \<and>
     (\<forall>i < w - 1. m (pos s + 164 + 32 * i) = C \<and> m (pos s + 165 + 32 * i) = snd s (a + i) \<and>
        m (pos s + 166 + 32 * i) = snd s (a + (i + 1))) \<and>
     m (pos s + 132) = c0 \<and> m (pos s + q) = v \<and> (\<forall>k. k \<in> {133, 134} \<and> k \<noteq> q \<longrightarrow> m (pos s + k) = m0 (pos s + k))"

text \<open>
  The memory after the first, the second and the third block of a program at \<open>p\<close>: the byte pairs are scattered, the
  shift count is patched into the next block (and into the fifth, when that is at slot 132), and the slot \<open>y\<close> of the big table is spread.
\<close>

definition shift_m1 :: "nat \<Rightarrow> nat \<Rightarrow> nat \<Rightarrow> mem \<Rightarrow> mem" where
  "shift_m1 p w a m = mem_scatter (p + 165) 32 a 1 2 (w - 1) m"

definition shift_m2 :: "nat \<Rightarrow> nat \<Rightarrow> nat \<Rightarrow> mem \<Rightarrow> mem" where
  "shift_m2 p d2 f8 m = (if d2 = 132 then m(p + 68 := m f8) else mem_scatter (p + 68) 64 f8 0 1 2 m)"

definition shift_m3 :: "nat \<Rightarrow> nat \<Rightarrow> nat \<Rightarrow> nat \<Rightarrow> mem \<Rightarrow> mem" where
  "shift_m3 p d2 n2 y m = mem_scatter (p + d2) 32 y 0 1 n2 m"

definition slots_ok :: "nat \<Rightarrow> nat \<Rightarrow> nat \<Rightarrow> bool" where
  "slots_ok w d2 n2 \<longleftrightarrow> d2 = 132 \<and> n2 = w \<or> d2 = 164 \<and> n2 = w - 1"

definition off_prog :: "nat \<Rightarrow> nat \<Rightarrow> nat \<Rightarrow> bool" where
  "off_prog p w y \<longleftrightarrow> y < p \<or> p + 32 * (w + 4) \<le> y"

lemma shift_m1_other:
  assumes "p mod 32 = 0" "y mod 32 \<noteq> 5 \<and> y mod 32 \<noteq> 6 \<or> off_prog p w y"
  shows "shift_m1 p w a m y = m y"
  unfolding shift_m1_def
proof (rule mem_scatter_pair_other, rule conjI)
  fix i assume i: "i < w - 1"
  have "(p + 165 + 32 * i) mod 32 = 5" "(p + 165 + 32 * i + 1) mod 32 = 6"
    using mod_off [OF assms(1), of 165 i] mod_off [OF assms(1), of 166 i] by (simp_all add: ac_simps)
  then show "y \<noteq> p + 165 + 32 * i" "y \<noteq> p + 165 + 32 * i + 1" using assms(2) i by (auto simp: off_prog_def)
qed

lemma shift_m1_low: "y < p + 165 \<Longrightarrow> shift_m1 p w a m y = m y"
  unfolding shift_m1_def by (intro mem_scatter_pair_other) auto

lemma shift_m2_other:
  assumes "p mod 32 = 0" "0 < w" "y mod 32 \<noteq> 4 \<or> off_prog p w y"
  shows "shift_m2 p d2 f8 m y = m y"
proof (cases "d2 = 132")
  case True
  have "y \<noteq> p + 68" using assms mod_off [OF assms(1), of 68 0] by (auto simp: off_prog_def)
  with True show ?thesis by (simp add: shift_m2_def)
next
  case False
  have "mem_scatter (p + 68) 64 f8 0 1 2 m y = m y"
  proof (rule mem_scatter_other)
    fix i :: nat assume i: "i < 2"
    have "(p + 68 + 64 * i) mod 32 = 4" using mod_off [OF assms(1), of 68 "2 * i"] by simp
    then show "y \<noteq> p + 68 + 64 * i" using assms(2,3) i by (auto simp: off_prog_def)
  qed
  with False show ?thesis by (simp add: shift_m2_def)
qed

lemma shift_m2_at: "y \<noteq> p + 68 \<Longrightarrow> d2 = 132 \<or> y \<noteq> p + 132 \<Longrightarrow> shift_m2 p d2 f8 m y = m y"
  "shift_m2 p d2 f8 m (p + 68) = m f8" "d2 \<noteq> 132 \<Longrightarrow> shift_m2 p d2 f8 m (p + 132) = m f8"
proof -
  show "shift_m2 p d2 f8 m y = m y" if "y \<noteq> p + 68" "d2 = 132 \<or> y \<noteq> p + 132"
  proof (cases "d2 = 132")
    case False
    have "mem_scatter (p + 68) 64 f8 0 1 2 m y = m y"
      by (rule mem_scatter_other) (use that False in \<open>auto simp: less_2_cases_iff\<close>)
    with False show ?thesis by (simp add: shift_m2_def)
  qed (use that in \<open>simp add: shift_m2_def\<close>)
  have "mem_scatter (p + 68) 64 f8 0 1 2 m (p + 68 + 64 * i) = m (f8 + i * 0)" if "i < 2" for i
    by (rule mem_scatter_at) (use that in simp_all)
  from this [of 0] this [of 1] show "shift_m2 p d2 f8 m (p + 68) = m f8" "d2 \<noteq> 132 \<Longrightarrow> shift_m2 p d2 f8 m (p + 132) = m f8"
    by (simp_all add: shift_m2_def ac_simps)
qed

lemma shift_m3_other:
  assumes "p mod 32 = 0" "slots_ok w d2 n2" "0 < w" "y mod 32 \<noteq> 4 \<or> off_prog p w y"
  shows "shift_m3 p d2 n2 u m y = m y"
  unfolding shift_m3_def
proof (rule mem_scatter_other)
  fix i assume i: "i < n2"
  have "(p + d2 + 32 * i) mod 32 = 4" using mod_off [OF assms(1), of d2 i] assms(2) by (auto simp: slots_ok_def)
  then show "y \<noteq> p + d2 + 32 * i" using assms(2-4) i by (auto simp: slots_ok_def off_prog_def)
qed

lemma shift_m3_at:
  assumes "slots_ok w d2 n2" "0 < w"
  shows "y < p + 132 \<Longrightarrow> shift_m3 p d2 n2 u m y = m y" "i < w - 1 \<Longrightarrow> shift_m3 p d2 n2 u m (p + 164 + 32 * i) = m u"
    "shift_m3 p d2 n2 u m (p + 132) = (if d2 = 132 then m u else m (p + 132))"
proof -
  have at: "shift_m3 p d2 n2 u m (p + d2 + 32 * j) = m u" if "j < n2" for j
    unfolding shift_m3_def using mem_scatter_at [OF that, of 32 "p + d2 + 32 * j" "p + d2" u 0 m] by simp
  show "y < p + 132 \<Longrightarrow> shift_m3 p d2 n2 u m y = m y"
    unfolding shift_m3_def using assms(1) by (intro mem_scatter_other) (auto simp: slots_ok_def)
  show "shift_m3 p d2 n2 u m (p + 164 + 32 * i) = m u" if "i < w - 1"
    using assms(1) that at [of i] at [of "i + 1"] by (auto simp: slots_ok_def ac_simps)
  have "d2 = 164 \<Longrightarrow> shift_m3 p d2 n2 u m (p + 132) = m (p + 132)"
    unfolding shift_m3_def by (intro mem_scatter_other) auto
  then show "shift_m3 p d2 n2 u m (p + 132) = (if d2 = 132 then m u else m (p + 132))"
    using assms at [of 0] by (auto simp: slots_ok_def)
qed

text \<open>All three, and the fourth block, which patches one byte of the fifth.\<close>

definition shift_m4 :: "nat \<Rightarrow> nat \<Rightarrow> nat \<Rightarrow> nat \<Rightarrow> nat \<Rightarrow> nat \<Rightarrow> nat \<Rightarrow> nat \<Rightarrow> nat \<Rightarrow> mem \<Rightarrow> mem" where
  "shift_m4 p w a d2 f8 n2 u q x m0 =
     (let m = shift_m3 p d2 n2 u (shift_m2 p d2 f8 (shift_m1 p w a m0)) in m(p + q := m x))"

lemma shift_bytes:
  fixes p w d2 n2 u f8 a :: nat
  assumes "p mod 32 = 0" "slots_ok w d2 n2" "0 < w"
  defines "M \<equiv> \<lambda>m0. shift_m3 p d2 n2 u (shift_m2 p d2 f8 (shift_m1 p w a m0))"
  shows "y mod 32 < 4 \<or> 7 \<le> y mod 32 \<or> off_prog p w y \<Longrightarrow> M m0 y = m0 y"
    and "off_prog p w u \<Longrightarrow> i < w - 1 \<Longrightarrow> M m0 (p + 164 + 32 * i) = m0 u"
    and "(\<And>y. y \<in> {a..<a + w} \<Longrightarrow> off_prog p w y) \<Longrightarrow> i < w - 1 \<Longrightarrow> j < 2 \<Longrightarrow> M m0 (p + 165 + 32 * i + j) = m0 (a + i + j)"
    and "off_prog p w u \<Longrightarrow> off_prog p w f8 \<Longrightarrow> M m0 (p + 132) = (if d2 = 132 then m0 u else m0 f8)"
    and "k \<in> {133, 134} \<Longrightarrow> M m0 (p + k) = m0 (p + k)"
proof -
  note o1 = shift_m1_other [OF assms(1)] and o2 = shift_m2_other [OF assms(1,3)] and o3 = shift_m3_other [OF assms(1-3)]
  show "M m0 y = m0 y" if "y mod 32 < 4 \<or> 7 \<le> y mod 32 \<or> off_prog p w y"
    using that by (auto simp: M_def o1 o2 o3)
  show "M m0 (p + 164 + 32 * i) = m0 u" if "off_prog p w u" "i < w - 1"
    using that by (simp add: M_def shift_m3_at(2) [OF assms(2,3)] o1 o2)
  show "M m0 (p + 165 + 32 * i + j) = m0 (a + i + j)"
    if "\<And>y. y \<in> {a..<a + w} \<Longrightarrow> off_prog p w y" "i < w - 1" "j < 2"
  proof -
    have "(p + 165 + 32 * i + j) mod 32 = 5 + j" using mod_off [OF assms(1), of "165 + j" i] that(3) by (simp add: ac_simps mod_if)
    then show ?thesis
      using that mem_scatter_pair [OF that(2,3), of "p + 165" a m0] by (simp add: M_def o2 o3 shift_m1_def)
  qed
  show "M m0 (p + 132) = (if d2 = 132 then m0 u else m0 f8)" if "off_prog p w u" "off_prog p w f8"
    using that by (simp add: M_def shift_m3_at(3) [OF assms(2,3)] shift_m2_at(3) o1 o2)
  show "M m0 (p + k) = m0 (p + k)" if "k \<in> {133, 134}"
  proof -
    have "(p + k) mod 32 \<noteq> 4" "p + k \<noteq> p + 68" "p + k \<noteq> p + 132" "p + k < p + 165"
      using mod_off [OF assms(1), of k 0] that by auto
    then show ?thesis by (simp only: M_def o3 shift_m2_at(1) shift_m1_low simp_thms)
  qed
qed

lemma shift_ready_m4:
  assumes "fits s (w + 4)" "2 \<le> w" "slots_ok w d2 n2" "q = 133 \<or> q = 134"
    and off: "\<And>y. y \<in> {a..<a + w} \<or> y = f8 \<or> y = x \<or> y = u \<Longrightarrow> off_prog (pos s) w y \<and> m0 y = snd s y"
  shows "shift_ready s m0 (shift_m4 (pos s) w a d2 f8 n2 u q x m0) w a (if d2 = 132 then snd s u else snd s f8) (snd s u) q (snd s x)"
proof -
  let ?p = "pos s"
  let ?M = "shift_m3 ?p d2 n2 u (shift_m2 ?p d2 f8 (shift_m1 ?p w a m0))"
  have p: "?p mod 32 = 0" "0 < w" using assms(1,2) by (simp_all add: fits_def)
  note b = shift_bytes [OF p(1) assms(3) p(2), where u = u and ?f8.0 = f8 and a = a]
  have in_q: "(?p + q) mod 32 = q - 128" using mod_off [OF p(1), of q 0] assms(4) by auto
  have o: "?M y = m0 y \<and> y \<noteq> ?p + q" if "y mod 32 < 4 \<or> 7 \<le> y mod 32 \<or> y < ?p \<or> ?p + 32 * (w + 4) \<le> y" for y
    using that b(1) [of y m0] in_q assms(2,4) by (auto simp: off_prog_def)
  have l: "?M (?p + 164 + 32 * i) = snd s u \<and> ?M (?p + 165 + 32 * i) = snd s (a + i) \<and> ?M (?p + 166 + 32 * i) = snd s (a + (i + 1))"
    if i: "i < w - 1" for i
  proof -
    have "m0 (a + j) = snd s (a + j)" if "j \<in> {i, i + 1}" for j by (rule conjunct2 [OF off]) (use that i in auto)
    from this [of i] this [of "i + 1"] show ?thesis
      using i off b(2) [of i m0] b(3) [of i 0 m0] b(3) [of i 1 m0] by (auto simp: ac_simps)
  qed
  have "?M (?p + 132) = (if d2 = 132 then snd s u else snd s f8)" "?M x = snd s x"
    using off b(4) [of m0] b(1) [of x m0] by auto
  moreover have "?M (?p + k) = m0 (?p + k)" if "k \<in> {133, 134}" for k using that by (rule b(5))
  ultimately show ?thesis
    using o l assms(4) unfolding shift_ready_def shift_m4_def Let_def by auto
qed

text \<open>The third block, whose source the second has patched.\<close>

lemma patched_select:
  assumes c: "fetch_cb m0 (p + 64) = (cb_2d spread d (busn (unat sel)) n 1 31 0)\<lparr>next_cb := nx\<rparr>"
    and sel: "unat sel mod 256 = 0" "unat sel + 256 \<le> 2 ^ 29"
    and m: "m (p + 68) = v" "\<And>y. y < p + 165 \<Longrightarrow> y \<noteq> p + 68 \<Longrightarrow> y \<noteq> p + 132 \<Longrightarrow> m y = m0 y"
  shows "fetch_cb m (p + 64) = (cb_2d spread d (busn (unat sel + unat v)) n 1 31 0)\<lparr>next_cb := nx\<rparr>"
proof -
  let ?c = "(cb_2d spread d (busn (unat sel)) n 1 31 0)\<lparr>next_cb := nx\<rparr>"
  have "shape m (p + 64) ?c" by (rule shape_cong [OF fetch_shape [OF c]], rule m(2)) auto
  moreover have "load32 m (p + 64 + 4) = busn (unat sel + unat v)"
  proof -
    have "of_le32 [m0 (p + 64 + 4), m0 (p + 64 + 5), m0 (p + 64 + 6), m0 (p + 64 + 7)] = busn (unat sel)"
      using fetch_bytes [OF c] by (simp add: cb_2d_def)
    from page_patch [OF this sel, of v]
    have "of_le32 [v, m0 (p + 69), m0 (p + 70), m0 (p + 71)] = busn (unat sel + unat v)" by (simp add: ac_simps)
    moreover have "m (p + 69) = m0 (p + 69)" "m (p + 70) = m0 (p + 70)" "m (p + 71) = m0 (p + 71)" by (rule m(2); simp)+
    ultimately show ?thesis using m(1) by (simp add: load32_bytes ac_simps)
  qed
  ultimately show ?thesis by (simp add: shape_def cb_2d_def)
qed

text \<open>The second block has two forms.\<close>

lemma step_count:
  assumes "dma_engine hw" "p mod 32 = 0" "p + 32 * (w + 4) < 2 ^ 29" "2 \<le> w" "f8 < 2 ^ 29" "off_prog p w f8"
    and c1: "c1 = linear_cb (busn (p + 68)) (busn f8) 1 \<and> d2 = 132 \<or> c1 = cb_2d spread (busn (p + 68)) (busn f8) 2 1 63 0 \<and> d2 = 164"
    and f: "fetch_cb m (p + 32) = c1\<lparr>next_cb := nx\<rparr>"
  shows "hw (busn (p + 32)) m = (nx, shift_m2 p d2 f8 m)"
proof -
  have al: "(p + 32) mod 32 = 0" using mod_off [OF assms(2), of 32 0] by simp
  from c1 consider "c1 = linear_cb (busn (p + 68)) (busn f8) 1" "d2 = 132" | "c1 = cb_2d spread (busn (p + 68)) (busn f8) 2 1 63 0" "d2 = 164"
    by blast
  then show ?thesis
  proof cases
    case 1
    with f have "fetch_cb m (p + 32) = (linear_cb (busn (p + 68)) (busn f8) 1)\<lparr>next_cb := nx\<rparr>" by simp
    from step_byte [OF assms(1) _ al this] 1 assms(3-6) show ?thesis by (auto simp: shift_m2_def off_prog_def)
  next
    case 2
    with f have "fetch_cb m (p + 32) = (cb_2d spread (busn (p + 68)) (busn f8) 2 1 63 0)\<lparr>next_cb := nx\<rparr>" by simp
    from step_spread [OF assms(1) _ al this, of 64] 2 assms(3-6) show ?thesis by (auto simp: shift_m2_def off_prog_def)
  qed
qed

lemma shift_head_steps:
  assumes hw: "dma_engine hw" and p: "p mod 32 = 0" "p + 32 * (w + 4) < 2 ^ 29" and w: "2 \<le> w" "w \<le> 2 ^ 14" and q: "q = 133 \<or> q = 134"
    and lim: "a + w \<le> 2 ^ 29" "f8 < 2 ^ 29" "x < 2 ^ 29" "unat sel + 256 \<le> 2 ^ 29" "unat sel mod 256 = 0"
    and apart: "a + w \<le> p \<or> p + 32 * (w + 4) \<le> a" "off_prog p w f8" "off_prog p w x" "off_prog p w (unat sel + unat (m0 f8))"
    and c1: "c1 = linear_cb (busn (p + 68)) (busn f8) 1 \<and> d2 = 132 \<and> n2 = w \<or>
      c1 = cb_2d spread (busn (p + 68)) (busn f8) 2 1 63 0 \<and> d2 = 164 \<and> n2 = w - 1"
    and f0: "fetch_cb m0 p = (cb_2d scatter (busn (p + 165)) (busn a) (w - 1) 2 30 (- 1))\<lparr>next_cb := busn (p + 32)\<rparr>"
    and f1: "fetch_cb m0 (p + 32) = c1\<lparr>next_cb := busn (p + 64)\<rparr>"
    and f2: "fetch_cb m0 (p + 64) = (cb_2d spread (busn (p + d2)) (busn (unat sel)) n2 1 31 0)\<lparr>next_cb := busn (p + 96)\<rparr>"
    and f3: "fetch_cb m0 (p + 96) = (linear_cb (busn (p + q)) (busn x) 1)\<lparr>next_cb := busn (p + 128)\<rparr>"
  shows "dma_run hw 4 (busn p, m0) = (busn (p + 128), shift_m4 p w a d2 f8 n2 (unat sel + unat (m0 f8)) q x m0)"
proof -
  let ?u = "unat sel + unat (m0 f8)"
  let ?m1 = "shift_m1 p w a m0" let ?m2 = "shift_m2 p d2 f8 ?m1" let ?m3 = "shift_m3 p d2 n2 ?u ?m2"
  have d2: "slots_ok w d2 n2" and w0: "0 < w" using c1 w by (auto simp: slots_ok_def)
  have al: "(p + 64) mod 32 = 0" "(p + 96) mod 32 = 0" using mod_off [OF p(1), of 64 0] mod_off [OF p(1), of 96 0] by simp_all
  have st0: "hw (busn p) m0 = (busn (p + 32), ?m1)"
    unfolding shift_m1_def by (rule step_pairs [OF hw _ p(1) f0]) (use p w lim(1) apart(1) in \<open>auto simp: diff_mult_distrib2\<close>)
  have "fetch_cb ?m1 (p + 32) = fetch_cb m0 (p + 32)" by (rule fetch_cong, rule shift_m1_low) simp
  with f1 have "fetch_cb ?m1 (p + 32) = c1\<lparr>next_cb := busn (p + 64)\<rparr>" by simp
  from step_count [OF hw p w(1) lim(2) apart(2) _ this] c1 have st1: "hw (busn (p + 32)) ?m1 = (busn (p + 64), ?m2)" by blast
  have "?m2 (p + 68) = m0 f8" using shift_m1_other [OF p(1), of f8] apart(2) by (simp add: shift_m2_at(2))
  from patched_select [where m = ?m2, OF f2 lim(5,4) this]
  have src: "fetch_cb ?m2 (p + 64) = (cb_2d spread (busn (p + d2)) (busn ?u) n2 1 31 0)\<lparr>next_cb := busn (p + 96)\<rparr>"
    by (simp add: shift_m2_at(1) shift_m1_low)
  have st2: "hw (busn (p + 64)) ?m2 = (busn (p + 96), ?m3)"
    unfolding shift_m3_def
    by (rule step_spread [OF hw _ al(1) src]) (use p w d2 lim(4) u8_bound [of "m0 f8"] apart(4) in \<open>auto simp: slots_ok_def off_prog_def\<close>)
  have "fetch_cb ?m3 (p + 96) = fetch_cb m0 (p + 96)"
    by (rule fetch_cong) (simp add: shift_m3_at(1) [OF d2 w0] shift_m2_at(1) shift_m1_low)
  with f3 have "fetch_cb ?m3 (p + 96) = (linear_cb (busn (p + q)) (busn x) 1)\<lparr>next_cb := busn (p + 128)\<rparr>" by simp
  from step_byte [OF hw _ al(2) this] have st3: "hw (busn (p + 96)) ?m3 = (busn (p + 128), ?m3(p + q := ?m3 x))"
    using p w lim(3) q apart(3) by (auto simp: off_prog_def)
  have "4 = Suc (Suc (Suc (Suc 0)))" by simp
  then show ?thesis by (simp only: dma_run_Suc st0 st1 st2 st3 dma_run_0 shift_m4_def Let_def)
qed

lemma shift_head_run:
  assumes hw: "dma_engine hw" and f: "fits s (w + 4)" and w: "2 \<le> w" "w \<le> 2 ^ 14"
    and sel: "page_ok s (w + 4) sel" and ops: "clear s (w + 4) a w" "clear s (w + 4) f8 1" "clear s (w + 4) x 1"
    and q: "q = 133 \<or> q = 134"
    and e: "emitted s (shift_prog t c1 (cb_2d spread (busn (pos s + d2)) (busn (unat sel)) n2 1 31 0) (pos s) w a q x r0 T0 r1) s'"
    and c1: "c1 = linear_cb (busn (pos s + 68)) (busn f8) 1 \<and> d2 = 132 \<and> n2 = w \<or>
      c1 = cb_2d spread (busn (pos s + 68)) (busn f8) 2 1 63 0 \<and> d2 = 164 \<and> n2 = w - 1"
  shows "\<exists>m. dma_run hw 4 (busn (pos s), snd s') = (busn (pos s + 128), m) \<and>
    shift_ready s (snd s') m w a (if d2 = 132 then snd s (unat sel + unat (snd s f8)) else snd s f8)
      (snd s (unat sel + unat (snd s f8))) q (snd s x)"
proof -
  let ?p = "pos s" and ?m0 = "snd s'" and ?u = "unat sel + unat (snd s f8)"
  have p: "?p mod 32 = 0" "?p + 32 * (w + 4) < 2 ^ 29" using f by (simp_all add: fits_def)
  let ?prog = "shift_prog t c1 (cb_2d spread (busn (?p + d2)) (busn (unat sel)) n2 1 31 0) ?p w a q x r0 T0 r1"
  have len: "length ?prog = w + 4" using w by (simp add: length_shift_prog)
  then have p': "pos s' = ?p + 32 * (w + 4)" using e by (simp add: emitted_def)
  have same: "?m0 y = snd s y" if "off_prog ?p w y" for y
    using e that unfolding emitted_def p' [symmetric] off_prog_def by blast
  note code = emitted_nth [OF e, unfolded len]
  have fetch: "fetch_cb ?m0 ?p = (cb_2d scatter (busn (?p + 165)) (busn a) (w - 1) 2 30 (- 1))\<lparr>next_cb := busn (?p + 32)\<rparr>"
    "fetch_cb ?m0 (?p + 32) = c1\<lparr>next_cb := busn (?p + 64)\<rparr>"
    "fetch_cb ?m0 (?p + 64) = (cb_2d spread (busn (?p + d2)) (busn (unat sel)) n2 1 31 0)\<lparr>next_cb := busn (?p + 96)\<rparr>"
    "fetch_cb ?m0 (?p + 96) = (linear_cb (busn (?p + q)) (busn x) 1)\<lparr>next_cb := busn (?p + 128)\<rparr>"
    using code [of 0] code [of 1] code [of 2] code [of 3] w
    by (simp_all add: shift_prog_nth shift_prog_nth(2) [unfolded One_nat_def] ac_simps)
  have far: "off_prog ?p w y \<and> ?m0 y = snd s y" if "y \<in> {a..<a + w} \<or> y = f8 \<or> y = x \<or> y = ?u" for y
    using that ops sel u8_bound [of "snd s f8"] same [of y] by (auto simp: clear_def away_def page_ok_def off_prog_def)
  have lim: "a + w \<le> 2 ^ 29" "f8 < 2 ^ 29" "x < 2 ^ 29" "unat sel + 256 \<le> 2 ^ 29" "unat sel mod 256 = 0"
    "a + w \<le> ?p \<or> ?p + 32 * (w + 4) \<le> a"
    using ops sel by (auto simp: clear_def away_def page_ok_def)
  have v: "?m0 f8 = snd s f8" and apart: "off_prog ?p w f8" "off_prog ?p w x" "off_prog ?p w ?u" using far by blast+
  have "slots_ok w d2 n2" using c1 by (auto simp: slots_ok_def)
  from shift_ready_m4 [OF f w(1) this q far]
    shift_head_steps [where ?m0.0 = ?m0 and ?f8.0 = f8, unfolded v, OF hw p w q lim apart c1 fetch]
  show ?thesis by blast
qed

section \<open>What the shifts compute\<close>

lemma low_bytes:
  assumes "of_le32 [x0, x1, x2, x3] = busn P" "P mod 65536 = 0" "P < 2 ^ 29"
  shows "unat x0 + 256 * unat x1 = 0" "P + 2 ^ 30 = 65536 * (unat x2 + 256 * unat x3)"
proof -
  have sum: "unat x0 + 256 * unat x1 + 65536 * unat x2 + 16777216 * unat x3 = P + 1073741824"
    using arg_cong [OF assms(1), of unat] by (simp only: unat_of_le32 unat_busn [OF assms(3)]) simp
  have low: "unat x0 + 256 * unat x1 < 65536" using u8_bound [of x0] u8_bound [of x1] by simp
  obtain k where k: "P = 65536 * k" using assms(2) by (auto simp: mod_eq_0_iff_dvd elim: dvdE)
  have "unat x0 + 256 * unat x1 = (unat x0 + 256 * unat x1 + 65536 * (unat x2 + 256 * unat x3)) mod 65536"
    using low by (simp only: mod_mult_self2 mod_less)
  also have "\<dots> = (65536 * (k + 16384)) mod 65536" using sum k by (simp add: algebra_simps)
  finally show "unat x0 + 256 * unat x1 = 0" by simp
  with sum show "P + 2 ^ 30 = 65536 * (unat x2 + 256 * unat x3)" by simp
qed

lemma page64_patch:
  assumes "of_le32 [x0, x1, x2, x3] = busn P" "P mod 65536 = 0" "P + 65536 \<le> 2 ^ 29"
  shows "of_le32 [y0, y1, x2, x3] = busn (P + 256 * unat y1 + unat y0)"
proof -
  have P: "P < 2 ^ 29" using assms(3) by simp
  have b: "P + 256 * unat y1 + unat y0 < 2 ^ 29" using assms(3) u8_bound [of y0] u8_bound [of y1] by simp
  have "unat (of_le32 [y0, y1, x2, x3]) = unat (busn (P + 256 * unat y1 + unat y0))"
  proof -
    have "P + 2 ^ 30 = 65536 * unat x2 + 16777216 * unat x3" using low_bytes(2) [OF assms(1,2) P] by simp
    then have "unat y0 + 256 * unat y1 + 65536 * unat x2 + 16777216 * unat x3 = P + 256 * unat y1 + unat y0 + 2 ^ 30" by simp
    then show ?thesis by (simp only: unat_of_le32 unat_busn [OF b])
  qed
  then show ?thesis by (simp only: word_unat_eq_iff)
qed

lemma hyper_low: "hyper_ok t \<Longrightarrow> of_le32 [x0, x1, x2, x3] = busn (unat (HYPER t)) \<Longrightarrow> x1 = 0 \<and> x2 = 0"
proof -
  assume t: "hyper_ok t" and e: "of_le32 [x0, x1, x2, x3] = busn (unat (HYPER t))"
  have "of_le32 [x0, x1, x2, x3] = busn (hyper t x2 x1 (unat x0))"
    using hyper_patch(2) [OF t, of x0 x1 x2 x3 0 x0 x1 x2] e by simp
  with e have "unat (HYPER t) = hyper t x2 x1 (unat x0)"
    using hyper_bound [OF t u8_bound, of x2 x1 x0] t by (simp add: busn_inj hyper_ok_def)
  then have "unat x1 = 0" "unat x2 = 0" by (simp_all add: hyper_def)
  then show "x1 = 0 \<and> x2 = 0" by (simp add: unat_eq_zero)
qed

text \<open>The source of the lookup at the end of the number.\<close>

lemma first_src:
  assumes rd: "shift_ready s m0 m w a c0 C q v" and q: "q = 133 \<or> q = 134"
    and p: "pos s mod 32 = 0"
    and cb: "fetch_cb m0 (pos s + 128) = (linear_cb (busn r0) (busn T0) 1)\<lparr>next_cb := nx\<rparr>"
  obtains x0 x1 x2 x3 where "of_le32 [x0, x1, x2, x3] = busn T0"
    "load32 m (pos s + 132) = of_le32 [c0, if q = 133 then v else x1, if q = 134 then v else x2, x3]"
proof -
  have o: "of_le32 [m0 (pos s + 132), m0 (pos s + 133), m0 (pos s + 134), m0 (pos s + 135)] = busn T0"
    using fetch_bytes [OF cb] by (simp add: linear_cb_def ac_simps)
  have "(pos s + 135) mod 32 = 7" using mod_off [OF p, of 135 0] by simp
  then have "m (pos s + 135) = m0 (pos s + 135)" using rd by (simp add: shift_ready_def)
  moreover have "m (pos s + 132) = c0" "m (pos s + q) = v" "\<And>k. k \<in> {133, 134} \<and> k \<noteq> q \<Longrightarrow> m (pos s + k) = m0 (pos s + k)"
    using rd unfolding shift_ready_def by blast+
  then have "m (pos s + 133) = (if q = 133 then v else m0 (pos s + 133))" "m (pos s + 134) = (if q = 134 then v else m0 (pos s + 134))"
    using q by auto
  moreover have "pos s + 132 + 1 = pos s + 133" "pos s + 132 + 2 = pos s + 134" "pos s + 132 + 3 = pos s + 135" by simp_all
  ultimately have "load32 m (pos s + 132) = of_le32 [c0, if q = 133 then v else m0 (pos s + 133), if q = 134 then v else m0 (pos s + 134), m0 (pos s + 135)]"
    using \<open>m (pos s + 132) = c0\<close> by (simp only: load32_bytes)
  with o that show ?thesis by blast
qed

text \<open>
  Where the operand \<open>a\<close> of \<open>w\<close> bytes, the shift count at \<open>f8\<close>, the result, the tables and the blocks lie.
\<close>

definition shift_laid :: "dma_tables \<Rightarrow> u32 \<Rightarrow> emit_st \<Rightarrow> nat \<Rightarrow> nat \<Rightarrow> nat \<Rightarrow> nat \<Rightarrow> bool" where
  "shift_laid t sel s w r a f8 \<longleftrightarrow> fits s (w + 4) \<and> 2 \<le> w \<and> w \<le> 2 ^ 14 \<and> hyper_ok t \<and> page_ok s (w + 4) sel \<and>
     clear s (w + 4) (unat (HYPER t)) (2 ^ 24) \<and> clear s (w + 4) a w \<and> clear s (w + 4) f8 1 \<and> clear s (w + 4) r w \<and>
     away r w (unat (HYPER t)) (2 ^ 24)"

lemma sxl_run:
  assumes hw: "dma_engine hw" and l: "shift_laid t sel s w r a f8"
    and q: "q = 134 \<and> x = a \<and> r0 = r \<and> r1 = r + 1 \<or> q = 133 \<and> x = a + (w - 1) \<and> r0 = r + (w - 1) \<and> r1 = r"
    and e: "emitted s (sxl_prog t sel (pos s) w a f8 q x r0 r1) s'"
  defines "C \<equiv> unat (snd s (unat sel + unat (snd s f8)))"
  shows "\<exists>m'. dma_run hw (w + 4) (busn (pos s), snd s') = (busn (pos s'), m') \<and>
    m' r0 = snd s (if q = 134 then hyper t (snd s a) 0 C else hyper t 0 (snd s (a + (w - 1))) C) \<and>
    (\<forall>i < w - 1. m' (r1 + i) = snd s (hyper t (snd s (a + (i + 1))) (snd s (a + i)) C)) \<and>
    (\<forall>y. \<not> (r \<le> y \<and> y < r + w) \<and> (y < pos s \<or> pos s' \<le> y) \<longrightarrow> m' y = snd s y)"
proof -
  let ?c = "snd s (unat sel + unat (snd s f8))"
  have L: "fits s (w + 4)" "2 \<le> w" "w \<le> 2 ^ 14" "hyper_ok t" "page_ok s (w + 4) sel"
     "clear s (w + 4) (unat (HYPER t)) (2 ^ 24)" "clear s (w + 4) a w" "clear s (w + 4) f8 1" "clear s (w + 4) r w"
     "away r w (unat (HYPER t)) (2 ^ 24)"
    using l by (simp_all add: shift_laid_def)
  have p: "pos s mod 32 = 0" using L(1) by (simp add: fits_def)
  have x: "clear s (w + 4) x 1" using q L(2,7) by (auto simp: clear_def away_def)
  have q': "q = 133 \<or> q = 134" using q by blast
  note e' = e [unfolded sxl_prog_def]
  from shift_head_run [OF hw L(1-3,5,7,8) x q' e'] obtain m where
    m: "dma_run hw 4 (busn (pos s), snd s') = (busn (pos s + 128), m)" "shift_ready s (snd s') m w a ?c ?c q (snd s x)" by auto
  have "4 < length (sxl_prog t sel (pos s) w a f8 q x r0 r1)" using L(2) by (simp add: sxl_prog_def length_shift_prog)
  from emitted_nth [OF e this] have c4: "fetch_cb (snd s') (pos s + 128) = (linear_cb (busn r0) (busn (unat (HYPER t))) 1)\<lparr>next_cb := busn (pos s + 160)\<rparr>"
    by (simp add: sxl_prog_def shift_prog_nth ac_simps)
  from first_src [OF m(2) q' p c4] obtain x0 x1 x2 x3 where o: "of_le32 [x0, x1, x2, x3] = busn (unat (HYPER t))"
    "load32 m (pos s + 132) = of_le32 [?c, if q = 133 then snd s x else x1, if q = 134 then snd s x else x2, x3]" .
  let ?S = "if q = 134 then hyper t (snd s x) 0 C else hyper t 0 (snd s x) C"
  have "load32 m (pos s + 132) = busn ?S"
    using hyper_patch(2) [OF L(4), of x0 x1 x2 x3 0 ?c "if q = 133 then snd s x else x1" "if q = 134 then snd s x else x2"]
      hyper_low [OF L(4) o(1)] o q' by (auto simp: C_def)
  moreover have "unat (HYPER t) \<le> ?S \<and> ?S < unat (HYPER t) + 2 ^ 24"
    using hyper_bound [OF L(4) u8_bound, of _ _ ?c] by (simp add: C_def)
  ultimately have S: "load32 m (pos s + 132) = busn ?S" "?S < 2 ^ 29" "away ?S 1 (pos s) (32 * (w + 4))" "away ?S 1 r w"
    using L(4,6,10) unfolding hyper_ok_def clear_def away_def by linarith+
  have "\<exists>m'. dma_run hw (w + 4) (busn (pos s), snd s') = (busn (pos s'), m') \<and> m' r0 = snd s ?S \<and>
    (\<forall>i < w - 1. m' (r1 + i) = snd s (hyper t (snd s (a + (i + 1))) (snd s (a + i)) (unat ?c))) \<and>
    (\<forall>x. \<not> (r \<le> x \<and> x < r + w) \<and> (x < pos s \<or> pos s' \<le> x) \<longrightarrow> m' x = snd s x)"
    by (rule shift_finish [OF hw L(1,2,4) e' m(1) _ S _ _ _ L(6,9,10)]) (use m(2) q in \<open>auto simp: shift_ready_def\<close>)
  moreover have "?S = (if q = 134 then hyper t (snd s a) 0 C else hyper t 0 (snd s (a + (w - 1))) C)" using q by auto
  ultimately show ?thesis unfolding C_def by auto
qed

lemma Sll8_computes:
  assumes hw: "dma_engine hw" and l: "shift_laid t (SLL_HYPER_SELECT t) s w r a f8" and st: "stored (init_sll t) (snd s)"
  shows "computes hw s (w + 4) (Sll8 t w (busn r) (busn a) (busn f8) s) r w
    (num (snd s) a w * 2 ^ (unat (snd s f8) mod 8) mod 256 ^ w)"
proof -
  let ?k = "unat (snd s f8) mod 8" and ?sel = "SLL_HYPER_SELECT t"
  have L: "fits s (w + 4)" "2 \<le> w" "w \<le> 2 ^ 14" "hyper_ok t" "bus ?sel = Some (busn (unat ?sel))"
    using l by (auto simp: shift_laid_def page_ok_def intro: select_bus)
  have k: "?k < 8" by simp
  note tab = stored_sll [OF st k]
  from Sll8_emitted [OF L, of r a f8] obtain s' where
    s': "Sll8 t w (busn r) (busn a) (busn f8) s = Some s'" "emitted s (sxl_prog t ?sel (pos s) w a f8 134 a r (r + 1)) s'" by blast
  from sxl_run [OF hw l _ s'(2)] tab(2) [of "snd s f8"] obtain m' where
    m': "dma_run hw (w + 4) (busn (pos s), snd s') = (busn (pos s'), m')" "m' r = snd s (hyper t (snd s a) 0 (HYPER_SLL + ?k))"
    "\<forall>i < w - 1. m' (r + 1 + i) = snd s (hyper t (snd s (a + (i + 1))) (snd s (a + i)) (HYPER_SLL + ?k))"
    "\<forall>y. \<not> (r \<le> y \<and> y < r + w) \<and> (y < pos s \<or> pos s' \<le> y) \<longrightarrow> m' y = snd s y" by auto
  have "num m' r w = num (snd s) a w * 2 ^ ?k mod 256 ^ w"
  proof (rule num_left)
    fix i assume i: "i < w"
    show "unat (m' (r + i)) = unat (snd s (a + i)) * 2 ^ ?k mod 256 + (if i = 0 then 0 else unat (snd s (a + (i - 1))) * 2 ^ ?k div 256)"
    proof (cases i)
      case 0
      then show ?thesis by (simp add: m'(2) tab(1))
    next
      case (Suc j)
      then have "m' (r + i) = snd s (hyper t (snd s (a + (j + 1))) (snd s (a + j)) (HYPER_SLL + ?k))"
        using m'(3) [rule_format, of j] i by simp
      with Suc show ?thesis by (simp add: tab(1))
    qed
  qed
  moreover have "pos s' = pos s + 32 * (w + 4)"
    using s'(2) L(2) by (simp add: emitted_def sxl_prog_def length_shift_prog)
  ultimately show ?thesis using s'(1) m'(1,4) unfolding computes_def by blast
qed

lemma Srl8_computes:
  assumes hw: "dma_engine hw" and l: "shift_laid t (SRL_HYPER_SELECT t) s w r a f8" and st: "stored (init_srl t) (snd s)"
  shows "computes hw s (w + 4) (Srl8 t w (busn r) (busn a) (busn f8) s) r w
    (num (snd s) a w div 2 ^ (unat (snd s f8) mod 8))"
proof -
  let ?k = "unat (snd s f8) mod 8" and ?sel = "SRL_HYPER_SELECT t"
  have L: "fits s (w + 4)" "2 \<le> w" "w \<le> 2 ^ 14" "hyper_ok t" "bus ?sel = Some (busn (unat ?sel))"
    using l by (auto simp: shift_laid_def page_ok_def intro: select_bus)
  have k: "?k < 8" by simp
  note tab = stored_srl [OF st k]
  from Srl8_emitted [OF L, of r a f8] obtain s' where
    s': "Srl8 t w (busn r) (busn a) (busn f8) s = Some s'"
      "emitted s (sxl_prog t ?sel (pos s) w a f8 133 (a + (w - 1)) (r + (w - 1)) r) s'" by blast
  from sxl_run [OF hw l _ s'(2)] tab(2) [of "snd s f8"] obtain m' where
    m': "dma_run hw (w + 4) (busn (pos s), snd s') = (busn (pos s'), m')"
    "m' (r + (w - 1)) = snd s (hyper t 0 (snd s (a + (w - 1))) (HYPER_SRL + ?k))"
    "\<forall>i < w - 1. m' (r + i) = snd s (hyper t (snd s (a + (i + 1))) (snd s (a + i)) (HYPER_SRL + ?k))"
    "\<forall>y. \<not> (r \<le> y \<and> y < r + w) \<and> (y < pos s \<or> pos s' \<le> y) \<longrightarrow> m' y = snd s y" by auto
  let ?E = "\<lambda>i. if i < w then unat (snd s (a + i)) else 0"
  have "num m' r w = (num (snd s) a w + 256 ^ w * (?E w mod 2 ^ ?k)) div 2 ^ ?k"
  proof (rule num_right [where E = ?E, OF k])
    fix i assume i: "i < w"
    show "unat (m' (r + i)) = (?E (i + 1) mod 2 ^ ?k) * 2 ^ (8 - ?k) + ?E i div 2 ^ ?k"
    proof (cases "i = w - 1")
      case True
      then have "i + 1 = w" using i by simp
      moreover have "m' (r + i) = snd s (hyper t 0 (snd s (a + i)) (HYPER_SRL + ?k))" using m'(2) unfolding True .
      ultimately show ?thesis using i by (simp add: tab(1))
    next
      case False
      then have "i < w - 1" using i by simp
      with m'(3) i show ?thesis by (simp add: tab(1))
    qed
  qed simp
  then have "num m' r w = num (snd s) a w div 2 ^ ?k" by simp
  moreover have "pos s' = pos s + 32 * (w + 4)"
    using s'(2) L(2) by (simp add: emitted_def sxl_prog_def length_shift_prog)
  ultimately show ?thesis using s'(1) m'(1,4) unfolding computes_def by blast
qed

text \<open>The arithmetic shift: the byte at the top is looked up by shift count and byte in a table of its own.\<close>

lemma stored_sra:
  assumes "stored (init_sra t) m"
  shows "unat (m (unat (SRA_HI t) + 256 * unat (x :: u8) + unat (f :: u8))) =
    (sign_byte x mod 2 ^ (unat f mod 8)) * 2 ^ (8 - unat f mod 8) + unat x div 2 ^ (unat f mod 8)"
proof -
  have "m (unat (SRA_HI t) + (push_bit 8 (unat x) OR unat f)) = signed_drop_bit (unat f mod 8) (of_nat (unat x))"
    by (rule stored_pair [OF assms [unfolded init_sra_def], of x f])
  moreover have "push_bit 8 (unat x) OR unat f = 256 * unat x + unat f" using or_low [of "unat f" 8 "unat x"] u8_bound [of f] by simp
  moreover have "unat f mod 8 < 8" by simp
  ultimately show ?thesis using unat_sra_byte [of "unat f mod 8" x] by (simp add: add.assoc)
qed

lemma Sra8_emitted:
  assumes f: "fits s (w + 4)" and w: "2 \<le> w" "w \<le> 2 ^ 14" and t: "hyper_ok t"
    and sel: "bus (SRL_HYPER_SELECT t) = Some (busn (unat (SRL_HYPER_SELECT t)))" "bus (SRA_HI t) = Some (busn (unat (SRA_HI t)))"
  shows "\<exists>s'. Sra8 t w (busn r) (busn a) (busn f8) s = Some s' \<and>
    emitted s (shift_prog t (cb_2d spread (busn (pos s + 68)) (busn f8) 2 1 63 0)
      (cb_2d spread (busn (pos s + 164)) (busn (unat (SRL_HYPER_SELECT t))) (w - 1) 1 31 0)
      (pos s) w a 133 (a + (w - 1)) (r + (w - 1)) (unat (SRA_HI t)) r) s'"
proof -
  have "fits s (Suc (Suc (Suc (Suc w))))" using f by (simp add: eval_nat_numeral)
  from head_pairs [OF this w] obtain s1 where s1: "EmitStrided (busn (pos s + 165)) (busn a) (of_nat (w - 1)) 2 30 (- 1) s = Some s1"
    "emitted s [cb_2d scatter (busn (pos s + 165)) (busn a) (w - 1) 2 30 (- 1)] s1" "fits s1 (Suc (Suc (Suc w)))" by blast
  have "0 < (2 :: nat)" "(2 :: nat) \<le> 2 ^ 14" by simp_all
  from head_spread [OF s1(3) this] obtain s2 where s2:
    "EmitStridedWith (TI_DST_INC OR TI_2DMODE) (busn (pos s + 68)) (busn f8) (of_nat 2) 1 63 0 s1 = Some s2"
    "emitted s1 [cb_2d spread (busn (pos s + 68)) (busn f8) 2 1 63 0] s2" "fits s2 (Suc (Suc w))" by blast
  have "0 < w - 1" "w - 1 \<le> 2 ^ 14" using w by simp_all
  from head_spread [OF s2(3) this] obtain s3 where s3:
    "EmitStridedWith (TI_DST_INC OR TI_2DMODE) (busn (pos s + 164)) (busn (unat (SRL_HYPER_SELECT t))) (of_nat (w - 1)) 1 31 0 s2 = Some s3"
    "emitted s2 [cb_2d spread (busn (pos s + 164)) (busn (unat (SRL_HYPER_SELECT t))) (w - 1) 1 31 0] s3" "fits s3 (Suc w)" by blast
  from Emit_1 [OF s3(3)] obtain s4 where s4: "Emit (busn (pos s + 133)) (busn (a + (w - 1))) 1 s3 = Some s4"
    "emitted s3 [linear_cb (busn (pos s + 133)) (busn (a + (w - 1))) 1] s4" "fits s4 w" by blast
  note e4 = emitted_append [OF s1(2) emitted_append [OF s2(2) emitted_append [OF s3(2) s4(2)]], unfolded append_Cons append_Nil]
  have n: "fits s4 (Suc (w - 1))" "0 + (w - 1) = w - 1" "r + 0 + i = r + i" for i using s4(3) w by simp_all
  from shift_tail_emitted [OF n(1) t, of "r + (w - 1)" "unat (SRA_HI t)" r 0, unfolded n(2,3)] obtain s5 s6 where tl:
    "Emit (busn (r + (w - 1))) (busn (unat (SRA_HI t))) 1 s4 = Some s5"
    "for_each (\<lambda>i s. do { src \<leftarrow> bus (HYPER t); Emit (bus_add (busn r) (of_nat i)) src 1 s }) [0..<w - 1] s5 = Some s6"
    "emitted s4 (linear_cb (busn (r + (w - 1))) (busn (unat (SRA_HI t))) 1 #
      concat (map (\<lambda>i. [linear_cb (busn (r + i)) (busn (unat (HYPER t))) 1]) [0..<w - 1])) s6" by blast
  have "Sra8 t w (busn r) (busn a) (busn f8) s = Some s6"
    using w Label_fits [OF f] rel_fld_srcs [OF f] s1(1) s2(1) s3(1) s4(1) tl(1,2)
      bus_add_busn [of r "w - 1"] bus_add_busn [of a "w - 1"]
    by (simp add: Sra8_def sel)
  moreover have "emitted s (shift_prog t (cb_2d spread (busn (pos s + 68)) (busn f8) 2 1 63 0)
      (cb_2d spread (busn (pos s + 164)) (busn (unat (SRL_HYPER_SELECT t))) (w - 1) 1 31 0)
      (pos s) w a 133 (a + (w - 1)) (r + (w - 1)) (unat (SRA_HI t)) r) s6"
    unfolding shift_prog_split by (rule emitted_append [OF e4 tl(3)])
  ultimately show ?thesis by blast
qed

text \<open>The table of the top bytes is a block of 2^16 bytes away from the result.\<close>

definition sra_ok :: "dma_tables \<Rightarrow> emit_st \<Rightarrow> nat \<Rightarrow> nat \<Rightarrow> bool" where
  "sra_ok t s w r \<longleftrightarrow> unat (SRA_HI t) mod 65536 = 0 \<and> clear s (w + 4) (unat (SRA_HI t)) 65536 \<and> away r w (unat (SRA_HI t)) 65536"

text \<open>A number with its sign, and its value shifted right, rounded down.\<close>

definition signed_num :: "mem \<Rightarrow> nat \<Rightarrow> nat \<Rightarrow> int" where
  "signed_num m a w = (if 128 \<le> unat (m (a + (w - 1))) then int (num m a w) - 256 ^ w else int (num m a w))"

lemma signed_shift:
  assumes "num m' r w = (num m a w + 256 ^ w * (sign_byte (m (a + (w - 1))) mod 2 ^ k)) div 2 ^ k" "k < 8"
  shows "int (num m' r w) = signed_num m a w div 2 ^ k mod 256 ^ w"
proof (cases "128 \<le> unat (m (a + (w - 1)))")
  case True
  have p: "(2 :: nat) ^ k \<le> 255" using power_increasing [of k 7 "2 :: nat"] assms(2) by simp
  have "255 = (2 ^ k - 1) + 2 ^ k * (2 ^ (8 - k) - 1 :: nat)"
    using power_split [OF assms(2)] p by (simp add: diff_mult_distrib2)
  then have "255 mod 2 ^ k = (2 ^ k - 1 :: nat)" by (metis diff_less mod_less mod_mult_self2 zero_less_numeral zero_less_one zero_less_power)
  with True have s: "sign_byte (m (a + (w - 1))) mod 2 ^ k = 2 ^ k - 1" by (simp add: sign_byte_def)
  have "int (num m' r w) = (int (num m a w) + 256 ^ w * (2 ^ k - 1)) div 2 ^ k"
    unfolding assms(1) s by (simp add: zdiv_int of_nat_diff)
  also have "int (num m a w) + 256 ^ w * (2 ^ k - 1) = signed_num m a w + 2 ^ k * 256 ^ w"
    using True by (simp add: signed_num_def algebra_simps)
  also have "\<dots> div 2 ^ k = signed_num m a w div 2 ^ k + 256 ^ w" by simp
  finally have "int (num m' r w) mod 256 ^ w = signed_num m a w div 2 ^ k mod 256 ^ w" by simp
  moreover have "int (num m' r w) < 256 ^ w" using num_less [of m' r w] by (metis of_nat_less_iff of_nat_numeral of_nat_power)
  ultimately show ?thesis by simp
next
  case False
  then have "int (num m' r w) = signed_num m a w div 2 ^ k"
    using assms(1) by (simp add: sign_byte_def signed_num_def zdiv_int)
  moreover have "int (num m' r w) < 256 ^ w" using num_less [of m' r w] by (metis of_nat_less_iff of_nat_numeral of_nat_power)
  ultimately show ?thesis by (metis mod_pos_pos_trivial of_nat_0_le_iff)
qed

lemma Sra8_run:
  assumes hw: "dma_engine hw" and l: "shift_laid t (SRL_HYPER_SELECT t) s w r a f8" and h: "sra_ok t s w r"
    and e: "emitted s (shift_prog t (cb_2d spread (busn (pos s + 68)) (busn f8) 2 1 63 0)
      (cb_2d spread (busn (pos s + 164)) (busn (unat (SRL_HYPER_SELECT t))) (w - 1) 1 31 0)
      (pos s) w a 133 (a + (w - 1)) (r + (w - 1)) (unat (SRA_HI t)) r) s'"
  defines "C \<equiv> unat (snd s (unat (SRL_HYPER_SELECT t) + unat (snd s f8)))"
  shows "\<exists>m'. dma_run hw (w + 4) (busn (pos s), snd s') = (busn (pos s'), m') \<and>
    m' (r + (w - 1)) = snd s (unat (SRA_HI t) + 256 * unat (snd s (a + (w - 1))) + unat (snd s f8)) \<and>
    (\<forall>i < w - 1. m' (r + i) = snd s (hyper t (snd s (a + (i + 1))) (snd s (a + i)) C)) \<and>
    (\<forall>x. \<not> (r \<le> x \<and> x < r + w) \<and> (x < pos s \<or> pos s' \<le> x) \<longrightarrow> m' x = snd s x)"
proof -
  let ?sel = "SRL_HYPER_SELECT t" and ?p = "pos s"
  let ?v = "snd s (a + (w - 1))" and ?c = "snd s (unat ?sel + unat (snd s f8))"
  have L: "fits s (w + 4)" "2 \<le> w" "w \<le> 2 ^ 14" "hyper_ok t" "page_ok s (w + 4) ?sel"
     "clear s (w + 4) (unat (HYPER t)) (2 ^ 24)" "clear s (w + 4) a w" "clear s (w + 4) f8 1" "clear s (w + 4) r w"
     "away r w (unat (HYPER t)) (2 ^ 24)"
    using l by (simp_all add: shift_laid_def)
  have p: "?p mod 32 = 0" using L(1) by (simp add: fits_def)
  have x: "clear s (w + 4) (a + (w - 1)) 1" using L(2,7) by (auto simp: clear_def away_def)
  from shift_head_run [OF hw L(1-3,5,7,8) x _ e] obtain m where
    m: "dma_run hw 4 (busn ?p, snd s') = (busn (?p + 128), m)"
      "shift_ready s (snd s') m w a (snd s f8) ?c 133 ?v" by auto
  from emitted_nth [OF e, of 4] have c4: "fetch_cb (snd s') (?p + 128) =
      (linear_cb (busn (r + (w - 1))) (busn (unat (SRA_HI t))) 1)\<lparr>next_cb := busn (?p + 160)\<rparr>"
    using L(2) by (simp add: shift_prog_nth length_shift_prog ac_simps)
  have q: "133 = 133 \<or> 133 = (134 :: nat)" by simp
  from first_src [OF m(2) q p c4] obtain x0 x1 x2 x3 where o: "of_le32 [x0, x1, x2, x3] = busn (unat (SRA_HI t))"
    "load32 m (?p + 132) = of_le32 [snd s f8, if 133 = (133 :: nat) then ?v else x1, if 133 = (134 :: nat) then ?v else x2, x3]" .
  let ?S = "unat (SRA_HI t) + 256 * unat ?v + unat (snd s f8)"
  have S1: "load32 m (?p + 132) = busn ?S"
    using page64_patch [OF o(1), of "snd s f8" ?v] o(2) h by (simp add: sra_ok_def clear_def)
  have "?S < unat (SRA_HI t) + 65536" using u8_bound [of ?v] u8_bound [of "snd s f8"] by simp
  then have S: "?S < 2 ^ 29" "away ?S 1 ?p (32 * (w + 4))" "away ?S 1 r w"
    using h unfolding sra_ok_def clear_def away_def by linarith+
  show ?thesis unfolding C_def
    by (rule shift_finish [OF hw L(1,2,4) e m(1) _ S1 S _ _ _ L(6,9,10)]) (use m(2) in \<open>auto simp: shift_ready_def\<close>)
qed

lemma Sra8_computes:
  assumes hw: "dma_engine hw" and l: "shift_laid t (SRL_HYPER_SELECT t) s w r a f8" and h: "sra_ok t s w r"
    and st: "stored (init_srl t) (snd s)" "stored (init_sra t) (snd s)"
  shows "computes hw s (w + 4) (Sra8 t w (busn r) (busn a) (busn f8) s) r w
    (nat (signed_num (snd s) a w div 2 ^ (unat (snd s f8) mod 8) mod 256 ^ w))"
proof -
  let ?k = "unat (snd s f8) mod 8" and ?sel = "SRL_HYPER_SELECT t" and ?v = "snd s (a + (w - 1))"
  have L: "fits s (w + 4)" "2 \<le> w" "w \<le> 2 ^ 14" "hyper_ok t" using l by (simp_all add: shift_laid_def)
  have b: "bus ?sel = Some (busn (unat ?sel))" "bus (SRA_HI t) = Some (busn (unat (SRA_HI t)))"
    using l h by (auto simp: shift_laid_def page_ok_def sra_ok_def clear_def intro: bus_busn)
  have k: "?k < 8" by simp
  note tab = stored_srl [OF st(1) k]
  from Sra8_emitted [OF L(1-4) b, of r a f8] obtain s' where
    s': "Sra8 t w (busn r) (busn a) (busn f8) s = Some s'"
      "emitted s (shift_prog t (cb_2d spread (busn (pos s + 68)) (busn f8) 2 1 63 0)
      (cb_2d spread (busn (pos s + 164)) (busn (unat ?sel)) (w - 1) 1 31 0)
      (pos s) w a 133 (a + (w - 1)) (r + (w - 1)) (unat (SRA_HI t)) r) s'" by blast
  from Sra8_run [OF hw l h s'(2)] obtain m' where m': "dma_run hw (w + 4) (busn (pos s), snd s') = (busn (pos s'), m')"
    "m' (r + (w - 1)) = snd s (unat (SRA_HI t) + 256 * unat ?v + unat (snd s f8))"
    "\<forall>i < w - 1. m' (r + i) = snd s (hyper t (snd s (a + (i + 1))) (snd s (a + i)) (HYPER_SRL + ?k))"
    "\<forall>x. \<not> (r \<le> x \<and> x < r + w) \<and> (x < pos s \<or> pos s' \<le> x) \<longrightarrow> m' x = snd s x"
    using tab(2) [of "snd s f8"] by auto
  let ?E = "\<lambda>i. if i < w then unat (snd s (a + i)) else sign_byte ?v"
  have "num m' r w = (num (snd s) a w + 256 ^ w * (?E w mod 2 ^ ?k)) div 2 ^ ?k"
  proof (rule num_right [where E = ?E, OF k])
    fix i assume i: "i < w"
    show "unat (m' (r + i)) = (?E (i + 1) mod 2 ^ ?k) * 2 ^ (8 - ?k) + ?E i div 2 ^ ?k"
    proof (cases "i = w - 1")
      case True
      then have "i + 1 = w" using i by simp
      moreover have "unat (m' (r + i)) = (sign_byte ?v mod 2 ^ ?k) * 2 ^ (8 - ?k) + unat ?v div 2 ^ ?k"
        unfolding True m'(2) by (rule stored_sra [OF st(2)])
      ultimately show ?thesis using i True by simp
    next
      case False
      then have "i < w - 1" using i by simp
      with m'(3) i show ?thesis by (simp add: tab(1))
    qed
  qed simp
  then have "int (num m' r w) = signed_num (snd s) a w div 2 ^ ?k mod 256 ^ w"
    by (intro signed_shift [OF _ k]) simp
  then have "num m' r w = nat (signed_num (snd s) a w div 2 ^ ?k mod 256 ^ w)" by linarith
  moreover have "pos s' = pos s + 32 * (w + 4)"
    using s'(2) L(2) by (simp add: emitted_def length_shift_prog)
  ultimately show ?thesis using s'(1) m'(1,4) unfolding computes_def by blast
qed

section \<open>Properties\<close>

text \<open>
  C14: The shifts by bits. Run by the engine, the blocks emitted by \<open>Sll8\<close>, \<open>Srl8\<close> and \<open>Sra8\<close> leave the number shifted
  by the count modulo eight, to the left modulo its width, to the right without and with its sign, and
  change nothing but the result and the blocks.
\<close>

theorem byte_shifts_compute:
  assumes "dma_engine hw" "shift_laid t (SLL_HYPER_SELECT t) s w r a f8" "shift_laid t (SRL_HYPER_SELECT t) s w r a f8"
    and "sra_ok t s w r" "stored (init_sll t @ init_srl t @ init_sra t) (snd s)"
  shows "computes hw s (w + 4) (Sll8 t w (busn r) (busn a) (busn f8) s) r w
      (num (snd s) a w * 2 ^ (unat (snd s f8) mod 8) mod 256 ^ w) \<and>
    computes hw s (w + 4) (Srl8 t w (busn r) (busn a) (busn f8) s) r w
      (num (snd s) a w div 2 ^ (unat (snd s f8) mod 8)) \<and>
    computes hw s (w + 4) (Sra8 t w (busn r) (busn a) (busn f8) s) r w
      (nat (signed_num (snd s) a w div 2 ^ (unat (snd s f8) mod 8) mod 256 ^ w))"
proof -
  have "stored (init_sll t) (snd s)" "stored (init_srl t) (snd s)" "stored (init_sra t) (snd s)"
    using assms(5) by (simp_all only: stored_append)
  with Sll8_computes [OF assms(1,2)] Srl8_computes [OF assms(1,3)] Sra8_computes [OF assms(1,3,4)] show ?thesis by blast
qed

theorem byte_shifts_compute_witness:
  "computes documented_engine sample_st 6 (Sll8 sample_tables 2 (busn 0x40020) (busn 0x40000) (busn 0x40018) sample_st) 0x40020 2 15936 \<and>
   computes documented_engine sample_st 6 (Srl8 sample_tables 2 (busn 0x40020) (busn 0x40000) (busn 0x40018) sample_st) 0x40020 2 249 \<and>
   computes documented_engine sample_st 6 (Sra8 sample_tables 2 (busn 0x40020) (busn 0x40000) (busn 0x40018) sample_st) 0x40020 2 249"
proof -
  have l: "shift_laid sample_tables sel sample_st 2 0x40020 0x40000 0x40018" if "sel = 0x600 \<or> sel = 0x700" for sel
    using that by (auto simp: shift_laid_def fits_def clear_def away_def hyper_ok_def page_ok_def pos_def sample_st_def sample_tables_def)
  have "sra_ok sample_tables sample_st 2 0x40020"
    by (simp add: sra_ok_def clear_def away_def pos_def sample_st_def sample_tables_def)
  moreover have "stored (init_sll sample_tables @ init_srl sample_tables @ init_sra sample_tables) (snd sample_st)"
    by (simp add: sample_stored all_initializers_def)
  moreover have "snd sample_st 0x40018 = 3" "snd sample_st 0x40001 = 7" using sample_bytes by (simp_all add: sample_st_def)
  ultimately show ?thesis
    using byte_shifts_compute [OF documented_engine, of sample_tables sample_st 2 "0x40020" "0x40000" "0x40018"]
      l [of "SLL_HYPER_SELECT sample_tables"] l [of "SRL_HYPER_SELECT sample_tables"]
    by (simp add: sample_nums signed_num_def sample_tables_def)
qed

end
