(* ===== verification/Dma_Kit.thy ===== *)
theory Dma_Kit
  imports Dma_Steps
begin

text \<open>
  The channels of the DMA engine and their reservations, \<^verbatim>\<open>bcm2835/dma/dmakit.c\<close>, and the
  properties of bus addresses and of the arena. \<open>None\<close> is a panic.
\<close>

section \<open>Bus addresses and the arena\<close>

text \<open>
  An ARM address that has a bus address is the ARM address of that bus address, and the
  addresses without one are those past the peripherals; a bus address of memory or of the mirrored
  peripherals is recovered as well.
\<close>

theorem bus_addresses_round_trip:
  "(case arm_to_bus p of Some b \<Rightarrow> bus_to_arm b = Some p | None \<Rightarrow> 0x21000000 \<le> p)"
proof (cases "arm_is_dram p")
  case True
  then have p: "unat p < 0x20000000" by (simp add: arm_is_dram_def bus_consts word_less_nat_alt)
  have "unat (p + 0x40000000) = unat p + 0x40000000" using p by (simp add: unat_word_ariths)
  then have "bus_is_dram (p + 0x40000000)"
    using p by (simp add: bus_is_dram_def bus_consts word_less_nat_alt word_le_nat_alt)
  with True show ?thesis by (simp add: arm_to_bus_def bus_to_arm_def bus_consts)
next
  case False
  then have nd: "0x20000000 \<le> unat p" by (simp add: arm_is_dram_def bus_consts word_less_nat_alt)
  show ?thesis
  proof (cases "arm_is_peri p")
    case True
    then have p: "unat p < 0x21000000" by (simp add: arm_is_peri_def bus_consts word_less_nat_alt)
    have "p - 0x20000000 + 0x7E000000 = p + 0x5E000000" by simp
    moreover have u: "unat (p + 0x5E000000) = unat p + 0x5E000000" using p by (simp add: unat_word_ariths)
    then have "bus_is_peri (p + 0x5E000000)" "\<not> bus_is_dram (p + 0x5E000000)"
      using p nd by (simp_all add: bus_is_dram_def bus_is_peri_def bus_consts word_less_nat_alt word_le_nat_alt)
    ultimately show ?thesis using True False by (simp add: arm_to_bus_def bus_to_arm_def bus_consts ac_simps)
  next
    case False2: False
    then have "0x21000000 \<le> p" using nd by (auto simp: arm_is_peri_def bus_consts word_less_nat_alt word_le_nat_alt)
    with False False2 show ?thesis by (simp add: arm_to_bus_def)
  qed
qed

text \<open>An arena whose free part lies between its bounds.\<close>

definition arena_ok :: "arena \<Rightarrow> bool" where
  "arena_ok a \<longleftrightarrow> ar_start a \<le> ar_p a \<and> ar_p a \<le> ar_end a"

lemma and_minus_exp: "k < 32 \<Longrightarrow> x AND - (2 ^ k) = x - x mod 2 ^ k" for x :: u32
proof -
  assume "k < 32"
  have "- (2 ^ k :: u32) = NOT (mask k)" by (simp add: minus_eq_not_minus_1 mask_eq_exp_minus_1)
  moreover have "(x AND NOT (mask k)) + (x AND mask k) = x"
    by (subst disjunctive_add) (auto simp: bit_simps intro!: bit_word_eqI)
  ultimately have "x AND - (2 ^ k) = x - take_bit k x" by (simp add: take_bit_eq_mask eq_diff_eq)
  then show ?thesis by (simp add: take_bit_eq_mod)
qed

lemma exp_and_pred: "(2 ^ k AND (2 ^ k - 1) :: u32) = 0"
proof -
  have "2 ^ k AND mask k = (0 :: u32)"
    by (rule bit_word_eqI) (auto simp: bit_simps)
  then show ?thesis by (simp add: mask_eq_exp_minus_1)
qed

lemma unat_align:
  fixes p :: u32
  assumes "k < 32" "unat p + 2 ^ k \<le> 2 ^ 32"
  shows "unat p \<le> unat ((p + 2 ^ k - 1) AND - (2 ^ k))" "unat ((p + 2 ^ k - 1) AND - (2 ^ k)) < unat p + 2 ^ k"
    "unat ((p + 2 ^ k - 1) AND - (2 ^ k)) mod 2 ^ k = 0"
proof -
  let ?x = "p + 2 ^ k - 1" and ?K = "2 ^ k :: nat"
  have "?K < 2 ^ 32" using assms(1) by (intro power_strict_increasing) simp_all
  then have K: "unat (2 ^ k :: u32) = ?K" using unat_of_nat [of ?K, where 'a = 32] by simp
  have "1 \<le> unat p + ?K" by (simp add: add_increasing)
  then have "of_nat (unat p + ?K - 1) = p + 2 ^ k - 1" by (simp only: of_nat_diff) simp
  then have "p + 2 ^ k - 1 = of_nat (unat p + ?K - 1)" ..
  then have x: "unat ?x = unat p + ?K - 1"
    using assms(2) by (simp only: unat_of_nat) (simp add: mod_less)
  have "unat (?x - ?x mod 2 ^ k) = unat ?x - unat ?x mod ?K"
    using unat_sub [of "?x mod 2 ^ k" ?x] by (simp add: word_le_nat_alt unat_mod K)
  then have e: "unat (?x AND - (2 ^ k)) = unat ?x - unat ?x mod ?K" by (simp only: and_minus_exp [OF assms(1)])
  have m: "unat ?x mod ?K < ?K" by simp
  show "unat p \<le> unat (?x AND - (2 ^ k))" "unat (?x AND - (2 ^ k)) < unat p + ?K"
    unfolding e using m unfolding x by linarith+
  show "unat (?x AND - (2 ^ k)) mod ?K = 0" unfolding e by (simp add: minus_mod_eq_mult_div)
qed

text \<open>
  C31: What \<^verbatim>\<open>arena_alloc\<close> hands out, for a power of two as alignment and below the top of the address
  space, is aligned, free, within the arena, and not handed out again; the arena stays well formed.
\<close>

theorem arena_alloc_safe:
  assumes "arena_ok a" "k < 32" "unat (ar_p a) + 2 ^ k + unat sz \<le> 2 ^ 32" "arena_alloc sz (2 ^ k) a = Some (q, a')"
  shows "arena_ok a' \<and> unat q mod 2 ^ k = 0 \<and> ar_p a \<le> q \<and> unat q + unat sz = unat (ar_p a') \<and>
    ar_p a' < ar_end a \<and> ar_start a' = ar_start a \<and> ar_end a' = ar_end a"
proof -
  let ?q = "(ar_p a + 2 ^ k - 1) AND - (2 ^ k)"
  have q: "q = ?q" "ar_p a' = ?q + sz" "ar_start a' = ar_start a" "ar_end a' = ar_end a" "\<not> ar_end a \<le> ?q + sz"
    using assms(4) by (auto simp: arena_alloc_def Let_def split: if_splits)
  have "unat (ar_p a) + 2 ^ k \<le> 2 ^ 32" using assms(3) by simp
  note al = unat_align [OF assms(2) this]
  have r: "unat (?q + sz) = unat ?q + unat sz"
    using al(2) assms(3) by (intro unat_plus_simple [THEN iffD1]) (simp add: unat_plus_simple word_le_nat_alt unat_word_ariths)
  show ?thesis
    using assms(1) q al r by (auto simp: arena_ok_def word_le_nat_alt word_less_nat_alt)
qed

theorem arena_alloc_safe_witness:
  "\<exists>q a'. arena_alloc 100 (2 ^ 4) \<lparr>ar_start = 0x1000, ar_end = 0x11000, ar_p = 0x1001, ar_util = 0\<rparr> = Some (q, a') \<and>
    arena_ok a' \<and> unat q mod 16 = 0"
proof -
  let ?a = "\<lparr>ar_start = 0x1000, ar_end = 0x11000, ar_p = 0x1001, ar_util = 0\<rparr> :: arena"
  have "arena_alloc 100 (2 ^ 4) ?a = Some (0x1010, ?a\<lparr>ar_p := 0x1074, ar_util := 100\<rparr>)" (is "_ = Some (?q, ?a')")
    by (simp add: arena_alloc_def)
  with arena_alloc_safe [of ?a 4 100 ?q ?a'] show ?thesis by (simp add: arena_ok_def)
qed

text \<open>
  The check of \<^verbatim>\<open>mk_arena\<close> is inverted: it accepts no arena of positive size, and the arenas it does
  accept never satisfy an allocation.
\<close>

theorem mk_arena_useless:
  "case mk_arena start end of None \<Rightarrow> start < end | Some a \<Rightarrow> \<forall>sz align. arena_alloc sz align a = None"
proof (cases "end \<le> start")
  case True
  then have "arena_alloc sz align \<lparr>ar_start = start, ar_end = end, ar_p = start, ar_util = 0\<rparr> = None" for sz align
    by (auto simp: arena_alloc_def Let_def)
  with True show ?thesis by (simp add: mk_arena_def)
qed (simp add: mk_arena_def)

section \<open>Channels\<close>

text \<open>
  The state of the kit: whether the channels were initialized, and for each of the sixteen channels the
  name of its owner. Which channels the firmware leaves to the ARM is a mask it hands out.
\<close>

definition DMA_CHAN_COUNT :: nat where "DMA_CHAN_COUNT = 16"

record dmakit =
  did_init_reservations :: bool
  channel_reservations :: "string option list"

definition dmakit_boot :: dmakit where
  "dmakit_boot = \<lparr>did_init_reservations = False, channel_reservations = replicate DMA_CHAN_COUNT None\<rparr>"

definition dmakit_init_channels :: "u16 \<Rightarrow> dmakit \<Rightarrow> dmakit option" where
  "dmakit_init_channels chan_mask kit =
     (if did_init_reservations kit then None
      else Some \<lparr>did_init_reservations = True, channel_reservations =
        map (\<lambda>i. if chan_mask AND push_bit i 1 \<noteq> 0 then None else Some ''VideoCore'') [0..<DMA_CHAN_COUNT]\<rparr>)"

definition dmakit_channel_is_lite :: "nat \<Rightarrow> bool" where
  "dmakit_channel_is_lite chan_no \<longleftrightarrow> 7 \<le> chan_no \<and> chan_no < 15"

text \<open>The loop of an acquisition over the channels; \<open>None\<close> is its result \<^verbatim>\<open>false\<close>.\<close>

fun acquire_from :: "nat list \<Rightarrow> bool \<Rightarrow> string \<Rightarrow> string option list \<Rightarrow> (nat \<times> string option list) option" where
  "acquire_from [] allow_lite who rs = None"
| "acquire_from (i # is) allow_lite who rs =
     (if rs ! i = None then
        if \<not> allow_lite \<and> dmakit_channel_is_lite i then acquire_from is allow_lite who rs
        else Some (i, rs[i := Some who])
      else acquire_from is allow_lite who rs)"

definition dmakit_channel_acquire :: "bool \<Rightarrow> string \<Rightarrow> dmakit \<Rightarrow> (nat \<times> dmakit) option" where
  "dmakit_channel_acquire allow_lite who kit =
     map_option (\<lambda>(i, rs). (i, kit\<lparr>channel_reservations := rs\<rparr>))
       (acquire_from [0..<16] allow_lite who (channel_reservations kit))"

text \<open>
  The register blocks of the channels. A channel is active when its control register says so; the
  registers are an argument.
\<close>

definition DMA0_BASE :: u32 where "DMA0_BASE = 0x20007000"
definition DMA15_BASE :: u32 where "DMA15_BASE = 0x20E05000"
definition DMA_CS_IS_ACTIVE :: u32 where "DMA_CS_IS_ACTIVE = push_bit 0 1"
definition DMA_CS_ERROR :: u32 where "DMA_CS_ERROR = push_bit 8 1"

definition dma_channel :: "nat \<Rightarrow> u32 option" where
  "dma_channel no = (if no < 15 then Some (DMA0_BASE + of_nat no * 0x100)
     else if no = 15 then Some DMA15_BASE else None)"

definition dma_is_active :: "u32 \<Rightarrow> bool" where
  "dma_is_active cs \<longleftrightarrow> cs AND DMA_CS_IS_ACTIVE \<noteq> 0"

definition dma_is_error :: "u32 \<Rightarrow> bool" where
  "dma_is_error cs \<longleftrightarrow> cs AND DMA_CS_ERROR \<noteq> 0"

definition dmakit_channel_is_active :: "(u32 \<Rightarrow> u32) \<Rightarrow> nat \<Rightarrow> bool option" where
  "dmakit_channel_is_active cs_of chan_no = do {
     chan \<leftarrow> dma_channel chan_no;
     if chan \<noteq> 0 then Some (dma_is_active (cs_of chan)) else None
   }"

text \<open>A release compares the names; the name of a channel without an owner is a null pointer.\<close>

definition dmakit_channel_release :: "(u32 \<Rightarrow> u32) \<Rightarrow> nat \<Rightarrow> string \<Rightarrow> dmakit \<Rightarrow> dmakit option" where
  "dmakit_channel_release cs_of chan who kit =
     (if channel_reservations kit ! chan = Some who then do {
        active \<leftarrow> dmakit_channel_is_active cs_of chan;
        if active then None
        else Some (kit\<lparr>channel_reservations := (channel_reservations kit)[chan := None]\<rparr>)
      } else None)"

lemma acquire_from_Some:
  "acquire_from is allow_lite who rs = Some (i, rs') \<Longrightarrow>
   i \<in> set is \<and> rs ! i = None \<and> (allow_lite \<or> \<not> dmakit_channel_is_lite i) \<and> rs' = rs[i := Some who]"
  by (induction "is") (auto split: if_splits)

lemma acquire_from_None:
  "acquire_from is allow_lite who rs = None \<longleftrightarrow> (\<forall>i \<in> set is. rs ! i = None \<longrightarrow> \<not> allow_lite \<and> dmakit_channel_is_lite i)"
  by (induction "is") auto

definition kit_ok :: "dmakit \<Rightarrow> bool" where
  "kit_ok kit \<longleftrightarrow> length (channel_reservations kit) = DMA_CHAN_COUNT"

text \<open>
  C32: An acquisition hands out a channel that had no owner, and a lite one only when allowed, records
  the new owner and no other change; it fails exactly when there is no such channel.
\<close>

theorem channel_acquire_exclusive:
  assumes "kit_ok kit"
  shows "case dmakit_channel_acquire allow_lite who kit of
      Some (i, kit') \<Rightarrow> i < DMA_CHAN_COUNT \<and> channel_reservations kit ! i = None \<and>
        (allow_lite \<or> \<not> dmakit_channel_is_lite i) \<and> kit_ok kit' \<and> channel_reservations kit' ! i = Some who \<and>
        (\<forall>j. j \<noteq> i \<longrightarrow> channel_reservations kit' ! j = channel_reservations kit ! j)
    | None \<Rightarrow> \<forall>i < DMA_CHAN_COUNT. channel_reservations kit ! i = None \<longrightarrow> \<not> allow_lite \<and> dmakit_channel_is_lite i"
proof (cases "acquire_from [0..<16] allow_lite who (channel_reservations kit)")
  case None
  then have "\<forall>i \<in> set [0..<16]. channel_reservations kit ! i = None \<longrightarrow> \<not> allow_lite \<and> dmakit_channel_is_lite i"
    by (simp only: acquire_from_None)
  with None show ?thesis by (simp add: dmakit_channel_acquire_def DMA_CHAN_COUNT_def del: upt_rec_numeral)
next
  case (Some r)
  then obtain i rs' where "acquire_from [0..<16] allow_lite who (channel_reservations kit) = Some (i, rs')"
    by (cases r) auto
  with acquire_from_Some [OF this] assms show ?thesis
    by (simp add: dmakit_channel_acquire_def kit_ok_def DMA_CHAN_COUNT_def del: upt_rec_numeral)
qed

theorem channel_acquire_exclusive_witness:
  "\<exists>i kit'. dmakit_channel_acquire False ''me'' (the (dmakit_init_channels 0x80F8 dmakit_boot)) = Some (i, kit') \<and>
    channel_reservations kit' ! i = Some ''me'' \<and> kit_ok kit'"
proof -
  let ?kit = "the (dmakit_init_channels 0x80F8 dmakit_boot)"
  have "kit_ok ?kit" by (simp add: kit_ok_def dmakit_init_channels_def dmakit_boot_def)
  moreover have "dmakit_channel_acquire False ''me'' ?kit \<noteq> None"
    by (simp add: dmakit_channel_acquire_def dmakit_init_channels_def dmakit_boot_def DMA_CHAN_COUNT_def upt_conv_Cons
        dmakit_channel_is_lite_def)
  ultimately show ?thesis using channel_acquire_exclusive [of ?kit False "''me''"] by (auto split: option.splits)
qed

text \<open>
  The owner of a channel, and nobody else, can release it while it is idle; acquiring a
  channel and releasing it leaves the kit as it was.
\<close>

theorem channel_release_inverse:
  assumes "kit_ok kit" "dmakit_channel_acquire allow_lite who kit = Some (i, kit')" "dmakit_channel_is_active cs_of i = Some False"
  shows "dmakit_channel_release cs_of i who kit' = Some kit \<and> (who' \<noteq> who \<longrightarrow> dmakit_channel_release cs_of i who' kit' = None)"
proof -
  from assms(2) obtain rs' where r: "acquire_from [0..<16] allow_lite who (channel_reservations kit) = Some (i, rs')"
    "kit' = kit\<lparr>channel_reservations := rs'\<rparr>" by (auto simp: dmakit_channel_acquire_def simp del: upt_rec_numeral)
  note a = acquire_from_Some [OF r(1)]
  then have "i < length (channel_reservations kit)" using assms(1) by (simp add: kit_ok_def DMA_CHAN_COUNT_def del: upt_rec_numeral)
  moreover from a this have "(channel_reservations kit)[i := None] = channel_reservations kit"
    by (metis list_update_id)
  ultimately show ?thesis using a assms(3) by (simp add: dmakit_channel_release_def r(2))
qed

theorem channel_release_inverse_witness:
  "dmakit_channel_release (\<lambda>_. 0) 3 ''me'' (\<lparr>did_init_reservations = True,
     channel_reservations = (replicate 3 (Some ''VideoCore'') @ replicate 13 None)[3 := Some ''me'']\<rparr>) =
   Some \<lparr>did_init_reservations = True, channel_reservations = replicate 3 (Some ''VideoCore'') @ replicate 13 None\<rparr>"
proof -
  let ?rs = "replicate 3 (Some ''VideoCore'') @ replicate 13 None"
  let ?kit = "\<lparr>did_init_reservations = True, channel_reservations = ?rs\<rparr>"
  have "dmakit_channel_acquire False ''me'' ?kit = Some (3, ?kit\<lparr>channel_reservations := ?rs[3 := Some ''me'']\<rparr>)"
    by (simp add: dmakit_channel_acquire_def upt_conv_Cons nth_append dmakit_channel_is_lite_def numeral_3_eq_3)
  moreover have "dmakit_channel_is_active (\<lambda>_. 0) 3 = Some False"
    by (simp add: dmakit_channel_is_active_def dma_channel_def DMA0_BASE_def dma_is_active_def)
  moreover have "kit_ok ?kit" by (simp add: kit_ok_def DMA_CHAN_COUNT_def)
  ultimately show ?thesis using channel_release_inverse [of ?kit False "''me''" 3 _ "\<lambda>_. 0"] by simp
qed

end
