(* ===== verification/Dma_Run.thy ===== *)
theory Dma_Run
  imports Dma_Kit
begin

text \<open>
  The run of a chain of control blocks and its status (\<^verbatim>\<open>bcm2835/dma/dma.c\<close>), the conversion of its
  cycle and microsecond counts into nanoseconds, the probes and the cache of monomorphic values
  (\<^verbatim>\<open>bcm2835/dma/private.c\<close>). \<open>None\<close> is a panic.
\<close>

section \<open>A timed run\<close>

definition DMA_CS_OUTSTANDING_WRITES :: u32 where "DMA_CS_OUTSTANDING_WRITES = push_bit 6 1"
definition DMA_CS_PAUSED_BY_DREQ :: u32 where "DMA_CS_PAUSED_BY_DREQ = push_bit 5 1"
definition DMA_CS_START :: u32 where "DMA_CS_START = push_bit 0 1"
definition DMA_DEBUG_ERROR_READ :: u32 where "DMA_DEBUG_ERROR_READ = push_bit 2 1"
definition DMA_DEBUG_ERROR_FIFO :: u32 where "DMA_DEBUG_ERROR_FIFO = push_bit 1 1"
definition DMA_DEBUG_ERROR_AXI_READ_LAST :: u32 where "DMA_DEBUG_ERROR_AXI_READ_LAST = push_bit 0 1"
definition DMA_ERROR_AXI_READ_LAST :: u32 where "DMA_ERROR_AXI_READ_LAST = push_bit 0 1"
definition DMA_ERROR_FIFO :: u32 where "DMA_ERROR_FIFO = push_bit 1 1"
definition DMA_ERROR_READ :: u32 where "DMA_ERROR_READ = push_bit 2 1"
definition DMA_ERROR_ANY :: u32 where "DMA_ERROR_ANY = push_bit 3 1"
definition DMA_PAUSED_FOR_DREQ :: u32 where "DMA_PAUSED_FOR_DREQ = push_bit 8 1"
definition DMA_OUTSTANDING_WRITES :: u32 where "DMA_OUTSTANDING_WRITES = push_bit 9 1"

lemmas dma_bits = DMA_CS_OUTSTANDING_WRITES_def DMA_CS_PAUSED_BY_DREQ_def DMA_CS_START_def DMA_DEBUG_ERROR_READ_def
  DMA_DEBUG_ERROR_FIFO_def DMA_DEBUG_ERROR_AXI_READ_LAST_def DMA_ERROR_AXI_READ_LAST_def DMA_ERROR_FIFO_def
  DMA_ERROR_READ_def DMA_ERROR_ANY_def DMA_PAUSED_FOR_DREQ_def DMA_OUTSTANDING_WRITES_def DMA_CS_ERROR_def
  DMA_CS_IS_ACTIVE_def

text \<open>The registers of a channel that the code uses.\<close>

record hw_dmachan =
  dc_cs :: u32
  dc_conblk_ad :: busad
  dc_debug :: u32

record dma_run_info =
  cycle_start :: u32
  cycle_end :: u32
  us_start :: u64
  us_end :: u64
  dri_status :: u32

definition run_errors :: u32 where
  "run_errors = DMA_ERROR_READ OR DMA_ERROR_FIFO OR DMA_ERROR_AXI_READ_LAST"

text \<open>The status of a run from the registers after it.\<close>

definition run_status :: "hw_dmachan \<Rightarrow> u32 option" where
  "run_status chan =
     (let status = 0;
          status = (if dc_cs chan AND DMA_CS_ERROR \<noteq> 0 then status OR DMA_ERROR_ANY else status);
          status = (if dc_debug chan AND DMA_DEBUG_ERROR_READ \<noteq> 0 then status OR DMA_ERROR_READ else status);
          status = (if dc_debug chan AND DMA_DEBUG_ERROR_FIFO \<noteq> 0 then status OR DMA_ERROR_FIFO else status);
          status = (if dc_debug chan AND DMA_DEBUG_ERROR_AXI_READ_LAST \<noteq> 0 then status OR DMA_ERROR_AXI_READ_LAST else status)
      in if status AND DMA_ERROR_ANY = 0 \<and> status AND run_errors \<noteq> 0 then None
         else if status AND DMA_ERROR_ANY \<noteq> 0 \<and> status AND run_errors = 0 then None
         else
           let status = (if dc_cs chan AND DMA_CS_OUTSTANDING_WRITES \<noteq> 0 then status OR DMA_OUTSTANDING_WRITES else status);
               status = (if dc_cs chan AND DMA_CS_PAUSED_BY_DREQ \<noteq> 0 then status OR DMA_PAUSED_FOR_DREQ else status)
           in Some status)"

text \<open>
  The hardware of a run is an argument: the registers and the memory at each poll of the control
  register after the start, the cycle counter and the microsecond timer. The loop ends at the first
  poll that finds the channel idle; if there is none in the list, it has not ended and the result is
  \<open>None\<close> as for a panic.
\<close>

fun poll_idle :: "(hw_dmachan \<times> mem) list \<Rightarrow> (hw_dmachan \<times> mem) option" where
  "poll_idle [] = None"
| "poll_idle ((chan, m) # ps) = (if dma_is_active (dc_cs chan) then poll_idle ps else Some (chan, m))"

record run_hw =
  hw_polls :: "hw_dmachan \<Rightarrow> mem \<Rightarrow> (hw_dmachan \<times> mem) list"
  hw_cycles :: u32
  hw_us_start :: u64
  hw_us_end :: u64

definition clear_debug :: "u32 \<Rightarrow> u32" where
  "clear_debug d = d AND NOT (DMA_DEBUG_ERROR_READ OR DMA_DEBUG_ERROR_READ OR DMA_DEBUG_ERROR_AXI_READ_LAST)"

definition dma_timed_run :: "run_hw \<Rightarrow> u32 \<Rightarrow> hw_dmachan \<times> mem \<Rightarrow> (dma_run_info \<times> hw_dmachan \<times> mem) option" where
  "dma_timed_run hw init_blk s =
     (let (chan, m) = s
      in if init_blk = 0 then None
         else do {
           init_blk_bus \<leftarrow> arm_to_bus init_blk;
           let chan = chan\<lparr>dc_debug := clear_debug (dc_debug chan)\<rparr>;
           if dma_is_error (dc_cs chan) \<or> dma_is_active (dc_cs chan) then None
           else do {
             let chan = chan\<lparr>dc_conblk_ad := init_blk_bus\<rparr>;
             let chan = chan\<lparr>dc_cs := DMA_CS_START\<rparr>;
             (chan, m) \<leftarrow> poll_idle (hw_polls hw chan m);
             if dc_conblk_ad chan \<noteq> 0 then None
             else do {
               status \<leftarrow> run_status chan;
               Some (\<lparr>cycle_start = 0, cycle_end = hw_cycles hw, us_start = hw_us_start hw,
                      us_end = hw_us_end hw, dri_status = status\<rparr>, chan, m)
             }
           }
         })"

definition dmakit_timed_run :: "(u32 \<Rightarrow> run_hw) \<Rightarrow> nat \<Rightarrow> u32 \<Rightarrow> hw_dmachan \<times> mem \<Rightarrow> (dma_run_info \<times> hw_dmachan \<times> mem) option" where
  "dmakit_timed_run hw_of rsv_chan init_blk s = do {
     chan \<leftarrow> dma_channel rsv_chan;
     if chan = 0 then None else dma_timed_run (hw_of chan) init_blk s
   }"

lemma test_bit: "x AND push_bit n 1 \<noteq> 0 \<longleftrightarrow> bit x n" "x AND push_bit n 1 = 0 \<longleftrightarrow> \<not> bit x n" for x :: u32
  using and_exp_eq_0_iff_not_bit [of x n] by (simp_all add: push_bit_eq_mult)

definition debug_error :: "u32 \<Rightarrow> bool" where
  "debug_error d \<longleftrightarrow> bit d 0 \<or> bit d 1 \<or> bit d 2"

lemma run_status_cases:
  "run_status chan = (if bit (dc_cs chan) 8 = debug_error (dc_debug chan) then
     Some (of_bool (bit (dc_debug chan) 0) + 2 * of_bool (bit (dc_debug chan) 1) + 4 * of_bool (bit (dc_debug chan) 2) +
       8 * of_bool (bit (dc_cs chan) 8) + 256 * of_bool (bit (dc_cs chan) 5) + 512 * of_bool (bit (dc_cs chan) 6)) else None)"
  unfolding run_status_def Let_def DMA_CS_ERROR_def DMA_DEBUG_ERROR_READ_def DMA_DEBUG_ERROR_FIFO_def
    DMA_DEBUG_ERROR_AXI_READ_LAST_def DMA_CS_OUTSTANDING_WRITES_def DMA_CS_PAUSED_BY_DREQ_def test_bit debug_error_def
  by (cases "bit (dc_cs chan) 8"; cases "bit (dc_debug chan) 2"; cases "bit (dc_debug chan) 1"; cases "bit (dc_debug chan) 0";
      cases "bit (dc_cs chan) 6"; cases "bit (dc_cs chan) 5";
      simp add: dma_bits run_errors_def)

text \<open>
  The status of a run has exactly the bits of the error, pause and outstanding-write bits of the two
  registers; a run panics when the error bit of one register contradicts the other.
\<close>

theorem run_status_reports:
  "case run_status chan of
     None \<Rightarrow> bit (dc_cs chan) 8 \<noteq> debug_error (dc_debug chan)
   | Some st \<Rightarrow> bit (dc_cs chan) 8 = debug_error (dc_debug chan) \<and>
       unat st = of_bool (bit (dc_debug chan) 0) + 2 * of_bool (bit (dc_debug chan) 1) + 4 * of_bool (bit (dc_debug chan) 2) +
         8 * of_bool (bit (dc_cs chan) 8) + 256 * of_bool (bit (dc_cs chan) 5) + 512 * of_bool (bit (dc_cs chan) 6)"
  unfolding run_status_cases
  by (cases "bit (dc_cs chan) 8 = debug_error (dc_debug chan)")
     (cases "bit (dc_cs chan) 8"; cases "bit (dc_debug chan) 2"; cases "bit (dc_debug chan) 1"; cases "bit (dc_debug chan) 0";
      cases "bit (dc_cs chan) 6"; cases "bit (dc_cs chan) 5"; simp add: debug_error_def)+

lemma clear_debug_fifo: "bit (clear_debug d) 1 = bit d 1"
  by (simp add: clear_debug_def dma_bits bit_simps)

lemma poll_idle_mem: "poll_idle ps = Some p \<Longrightarrow> p \<in> set ps \<and> \<not> dma_is_active (dc_cs (fst p))"
  by (induction ps rule: poll_idle.induct) (auto split: if_splits)

text \<open>
  A FIFO error left over from an earlier run is not cleared before the next one: unless the hardware
  clears the bit itself, a run without errors panics.
\<close>

theorem stale_fifo_error_panics:
  assumes "bit (dc_debug (fst s)) 1"
    and "\<And>chan m p. bit (dc_debug chan) 1 \<Longrightarrow> p \<in> set (hw_polls hw chan m) \<Longrightarrow> bit (dc_debug (fst p)) 1 \<and> \<not> bit (dc_cs (fst p)) 8"
  shows "dma_timed_run hw init_blk s = None"
proof -
  obtain chan m where s: "s = (chan, m)" by (cases s)
  have "run_status chan' = None"
    if "poll_idle (hw_polls hw (chan\<lparr>dc_debug := clear_debug (dc_debug chan), dc_conblk_ad := b, dc_cs := DMA_CS_START\<rparr>) m) = Some (chan', m')" for chan' b m'
  proof -
    from poll_idle_mem [OF that] assms(2) [of "chan\<lparr>dc_debug := clear_debug (dc_debug chan), dc_conblk_ad := b, dc_cs := DMA_CS_START\<rparr>" "(chan', m')" m] assms(1)
    have "bit (dc_debug chan') 1" "\<not> bit (dc_cs chan') 8" by (simp_all add: s clear_debug_fifo [simplified])
    then show ?thesis by (simp add: run_status_cases debug_error_def)
  qed
  then show ?thesis by (auto simp: dma_timed_run_def s Let_def split: option.splits bind_splits)
qed

theorem stale_fifo_error_panics_witness:
  "dma_timed_run \<lparr>hw_polls = (\<lambda>chan m. [(chan\<lparr>dc_cs := 1\<rparr>, m), (chan\<lparr>dc_cs := 2, dc_conblk_ad := 0\<rparr>, m)]),
     hw_cycles = 10, hw_us_start = 0, hw_us_end = 1\<rparr> 0x1000 (\<lparr>dc_cs = 0, dc_conblk_ad = 0, dc_debug = 2\<rparr>, \<lambda>_. 0) = None"
  by (rule stale_fifo_error_panics) (auto simp: bit_numeral_rec)

section \<open>The time of a run\<close>

text \<open>
  The cycle counter gives the number of cycles modulo 2^32, the microsecond timer an estimate of
  it; \<open>rate\<close> is the clock rate the firmware measures.
\<close>

definition round_freq :: "u32 \<Rightarrow> u32" where
  "round_freq rate = (rate + 999999) div 1000000 * 1000000"

definition dma_run_info_get_time_ns :: "u32 \<Rightarrow> dma_run_info \<Rightarrow> u64" where
  "dma_run_info_get_time_ns rate info =
     (let arm_freq = round_freq rate;
          DC = ucast (cycle_end info - cycle_start info) :: u64;
          dm = us_end info - us_start info;
          k = (if dm \<noteq> 0 then
                 let k = dm * ucast arm_freq div 1000000 - DC; k = drop_bit 31 k
                 in drop_bit 1 k + (k AND 1)
               else 0);
          T = DC + push_bit 32 k;
          T = T * 1000000000
      in T div ucast arm_freq)"

lemma round_up_eq:
  "push_bit 32 (drop_bit 1 (drop_bit 31 x) + (drop_bit 31 x AND 1)) =
    (of_nat (2 ^ 32 * (unat x div 2 ^ 31 div 2 + unat x div 2 ^ 31 mod 2)) :: u64)"
proof -
  have q: "unat (drop_bit 31 x) = unat x div 2 ^ 31" by (simp only: unat_drop_bit_eq) (simp only: drop_bit_eq_div)
  have "unat (drop_bit 1 (drop_bit 31 x)) = unat x div 2 ^ 31 div 2" by (simp only: unat_drop_bit_eq [of 1] q) (simp add: drop_bit_Suc)
  then have a: "drop_bit 1 (drop_bit 31 x) = of_nat (unat x div 2 ^ 31 div 2)" by (metis of_nat_unat ucast_id)
  have "unat (drop_bit 31 x AND 1) = unat x div 2 ^ 31 mod 2"
    by (simp only: unsigned_and_eq q) (simp add: and_one_eq)
  then have "drop_bit 31 x AND 1 = of_nat (unat x div 2 ^ 31 mod 2)" by (metis of_nat_unat ucast_id)
  with a show ?thesis by (simp add: push_bit_eq_mult)
qed

lemma round_to_estimate:
  assumes "int E - int (C mod 2 ^ 32) = 2 ^ 32 * int (C div 2 ^ 32) + e" "- (2 ^ 31) \<le> e" "e < 2 ^ 31" "C < 2 ^ 62"
    and x: "x = (of_nat E - of_nat (C mod 2 ^ 32) :: u64)"
  shows "push_bit 32 (drop_bit 1 (drop_bit 31 x) + (drop_bit 31 x AND 1)) = of_nat (2 ^ 32 * (C div 2 ^ 32))"
proof -
  define K where "K = C div 2 ^ 32"
  have K: "K < 2 ^ 30" using assms(4) by (simp add: K_def div_less_iff_less_mult)
  have xi: "x = of_int (2 ^ 32 * int K + e)" using assms(1) unfolding x K_def by (metis of_int_diff of_int_of_nat_eq)
  consider "0 \<le> e" | "e < 0" "0 < K" | "e < 0" "K = 0" by linarith
  then show ?thesis
  proof cases
    case 1
    then have "x = of_nat (2 ^ 32 * K + nat e)" unfolding xi by simp
    then have "unat x = 2 ^ 32 * K + nat e" using K assms(3) by (simp add: unat_of_nat del: of_nat_add of_nat_mult)
    moreover have "(2 ^ 32 * K + nat e) div 2 ^ 31 = 2 * K" using 1 assms(3) by simp
    ultimately show ?thesis unfolding round_up_eq K_def [symmetric] by simp
  next
    case 2
    let ?n = "2 ^ 32 * K - nat (- e)"
    have d: "0 < nat (- e)" "nat (- e) \<le> 2 ^ 31" "nat (- e) \<le> 2 ^ 32 * K" using 2 assms(2) by simp_all
    then have "2 ^ 32 * int K + e = int ?n" using 2 by (simp add: of_nat_diff)
    then have "x = of_nat ?n" unfolding xi by (metis of_int_of_nat_eq)
    then have u: "unat x = ?n" using K by (simp add: unat_of_nat)
    obtain j where j: "K = Suc j" using 2 by (cases K) auto
    have "?n = (2 ^ 31 - nat (- e)) + 2 ^ 31 * (2 * j + 1)" using d unfolding j by simp
    then have "?n div 2 ^ 31 = 2 * j + 1" using d by (simp add: div_mult_self2)
    then show ?thesis unfolding round_up_eq K_def [symmetric] u j by simp
  next
    case 3
    let ?n = "2 ^ 64 - nat (- e)"
    have d: "0 < nat (- e)" "nat (- e) \<le> 2 ^ 31" using 3 assms(2) by simp_all
    then have e: "e = int ?n - 2 ^ 64" using 3 by (simp add: of_nat_diff)
    have "x = of_int e" unfolding xi 3(2) by simp
    also have "\<dots> = of_int (int ?n - 2 ^ 64)" by (rule arg_cong [OF e])
    also have "\<dots> = of_nat ?n" by (simp only: of_int_diff of_int_of_nat_eq of_int_power) simp
    finally have x': "x = of_nat ?n" .
    have "?n < 2 ^ LENGTH(64)" using d by simp
    then have u: "unat x = ?n" by (simp only: x' unat_of_nat mod_less)
    have n: "?n = (2 ^ 31 - nat (- e)) + 2 ^ 31 * (2 ^ 33 - 1)" using d by simp
    have "?n div 2 ^ 31 = 2 ^ 33 - 1 + (2 ^ 31 - nat (- e)) div 2 ^ 31" by (subst n) (rule div_mult_self2, simp)
    moreover have "(2 ^ 31 - nat (- e)) div 2 ^ 31 = 0" using d by (intro div_less) simp
    ultimately have "?n div 2 ^ 31 = 2 ^ 33 - 1" by simp
    then show ?thesis unfolding round_up_eq K_def [symmetric] u 3(2) by simp
  qed
qed

text \<open>
  A run of \<open>C\<close> cycles whose microseconds estimate it to within 2^31 cycles gets its exact time in
  nanoseconds, although the cycle counter has wrapped around; the run must be short of 2^64
  nanoseconds times the clock rate.
\<close>

theorem run_time_exact:
  assumes f_def: "unat (round_freq rate) = f" and us_def: "unat (us_end info - us_start info) = us"
    and "0 < f" "us * f < 2 ^ 64" "0 < us" "C * 1000000000 < 2 ^ 64"
    and "cycle_end info - cycle_start info = of_nat C"
    and "\<bar>int (us * f div 1000000) - int C\<bar> < 2 ^ 31"
  shows "unat (dma_run_info_get_time_ns rate info) = C * 1000000000 div f"
proof -
  let ?dm = "us_end info - us_start info" and ?f = "ucast (round_freq rate) :: u64"
  let ?E = "us * f div 1000000" and ?D = "C mod 2 ^ 32"
  have "f < 2 ^ 64" using unsigned_less [of "round_freq rate", where 'a = nat] f_def by simp
  then have f: "unat ?f = f" by (simp only: unsigned_ucast_eq f_def) (simp add: take_bit_nat_eq_self)
  have C: "C < 2 ^ 62" using assms(6) by simp
  have "unat (ucast (cycle_end info - cycle_start info) :: u64) = ?D"
  proof -
    have "unat (of_nat C :: u32) = ?D" by (simp add: unat_of_nat)
    moreover have "?D < 2 ^ 64" by (rule order.strict_trans [OF mod_less_divisor]) simp_all
    ultimately show ?thesis unfolding assms(7) by (simp only: unsigned_ucast_eq) (simp add: take_bit_nat_eq_self)
  qed
  then have D: "ucast (cycle_end info - cycle_start info) = (of_nat ?D :: u64)" by (metis of_nat_unat ucast_id)
  have "unat (?dm * ?f div 1000000) = ?E"
    using assms(4) by (simp add: unat_div unat_mult_lem [THEN iffD1] f us_def unat_word_ariths)
  then have E: "?dm * ?f div 1000000 = of_nat ?E" by (metis of_nat_unat ucast_id)
  have dm: "?dm \<noteq> 0" using assms(5) us_def by auto
  have CD: "C = ?D + 2 ^ 32 * (C div 2 ^ 32)" by simp
  have "int C = int ?D + 2 ^ 32 * int (C div 2 ^ 32)" by (subst CD) (simp only: of_nat_add of_nat_mult of_nat_power of_nat_numeral)
  then have "push_bit 32 (drop_bit 1 (drop_bit 31 (of_nat ?E - of_nat ?D :: u64)) + (drop_bit 31 (of_nat ?E - of_nat ?D) AND 1)) =
      of_nat (2 ^ 32 * (C div 2 ^ 32))"
    using assms(8) by (intro round_to_estimate [where e = "int ?E - int C", OF _ _ _ C refl]) linarith+
  then have "dma_run_info_get_time_ns rate info =
      (of_nat ?D + of_nat (2 ^ 32 * (C div 2 ^ 32))) * 1000000000 div ?f"
    using dm unfolding dma_run_info_get_time_ns_def Let_def D E by (simp only: if_True simp_thms)
  also have "of_nat ?D + of_nat (2 ^ 32 * (C div 2 ^ 32)) = (of_nat C :: u64)"
    by (subst (3) CD) (simp only: of_nat_add)
  finally have "unat (dma_run_info_get_time_ns rate info) = unat (of_nat C * 1000000000 :: u64) div f"
    by (simp add: unat_div f)
  also have "unat (of_nat C * 1000000000 :: u64) = C * 1000000000"
    using assms(6) by (simp add: unat_word_ariths unat_of_nat mod_simps)
  finally show ?thesis .
qed

theorem run_time_exact_witness:
  "unat (dma_run_info_get_time_ns 700000000 \<lparr>cycle_start = 0, cycle_end = of_nat (7000000007 :: nat), us_start = 5, us_end = 10000005, dri_status = 0\<rparr>) =
    7000000007 * 1000000000 div 700000000"
proof -
  have f: "unat (round_freq 700000000) = 700000000" by (simp add: round_freq_def)
  show ?thesis
    using run_time_exact [OF f, of "\<lparr>cycle_start = 0, cycle_end = of_nat (7000000007 :: nat), us_start = 5, us_end = 10000005, dri_status = 0\<rparr>" 10000000 7000000007]
    by simp
qed

section \<open>Probes\<close>

record probe =
  pr_func :: string
  pr_name :: string
  pr_data :: u32
  pr_size :: nat

definition PROBE_MAX :: nat where "PROBE_MAX = 32"

definition Probe_add :: "string \<Rightarrow> string \<Rightarrow> u32 \<Rightarrow> nat \<Rightarrow> probe list \<Rightarrow> probe list option" where
  "Probe_add func name data width probes =
     (if PROBE_MAX \<le> length probes then None
      else Some (probes @ [\<lparr>pr_func = func, pr_name = name, pr_data = data, pr_size = width\<rparr>]))"

text \<open>A report lists the bytes of each probe from the last to the first.\<close>

definition ReportProbeInfo :: "mem \<Rightarrow> probe list \<Rightarrow> (probe \<times> u8 list) list" where
  "ReportProbeInfo m probes =
     map (\<lambda>p. (p, map (\<lambda>j. m (unat (pr_data p) + pr_size p - 1 - j)) [0..<pr_size p])) probes"

definition ClearProbes :: "probe list \<Rightarrow> probe list" where
  "ClearProbes probes = []"

section \<open>The cache of monomorphic values\<close>

text \<open>
  An entry holds pointers to a key and a value, and the entries are static and never given any: both
  pointers are null. Address 0 is memory like any other on this machine.
\<close>

record mono =
  m_key :: u32
  m_val :: u32

record mono_ctx =
  mc_instance :: int
  mc_keysz :: nat
  mc_valsz :: nat
  mc_monos :: "mono list"

record mono_state =
  curr_mono :: nat
  curr_context :: nat
  mono_root :: "mono_ctx list"

definition MAX_MONO :: nat where "MAX_MONO = 512"
definition MAX_CONTEXT :: nat where "MAX_CONTEXT = 128"

definition mono_get_or_init_ctx :: "int \<Rightarrow> nat \<Rightarrow> nat \<Rightarrow> mono_state \<Rightarrow> (mono_ctx \<times> mono_state) option" where
  "mono_get_or_init_ctx i ks vs st =
     (case find (\<lambda>c. mc_instance c = i) (mono_root st) of
        Some c \<Rightarrow> Some (c, st)
      | None \<Rightarrow>
          if \<not> curr_context st < MAX_CONTEXT then None
          else
            let c = \<lparr>mc_instance = i, mc_keysz = ks, mc_valsz = vs, mc_monos = []\<rparr>
            in Some (c, st\<lparr>curr_context := curr_context st + 1, mono_root := c # mono_root st\<rparr>))"

definition mono_get :: "mono_ctx \<Rightarrow> u8 list \<Rightarrow> mem \<Rightarrow> u8 list option" where
  "mono_get c k m =
     map_option (\<lambda>e. mem_read m (unat (m_val e)) (mc_valsz c))
       (find (\<lambda>e. mem_read m (unat (m_key e)) (mc_keysz c) = take (mc_keysz c) k) (mc_monos c))"

definition mono_set :: "mono_ctx \<Rightarrow> u8 list \<Rightarrow> u8 list \<Rightarrow> mono_state \<times> mem \<Rightarrow> (mono_ctx \<times> mono_state \<times> mem) option" where
  "mono_set c k d s =
     (let (st, m) = s
      in if \<not> curr_mono st < MAX_MONO then None
         else
           let e = \<lparr>m_key = 0, m_val = 0\<rparr>;
               m = mem_write (unat (m_key e)) (take (mc_keysz c) k) m;
               m = mem_write (unat (m_val e)) (take (mc_valsz c) d) m;
               c' = c\<lparr>mc_monos := e # mc_monos c\<rparr>
           in Some (c', st\<lparr>curr_mono := curr_mono st + 1,
                mono_root := map (\<lambda>x. if mc_instance x = mc_instance c then c' else x) (mono_root st)\<rparr>, m))"

text \<open>
  A value just stored in the cache is not found again: its bytes have overwritten the key, and a
  lookup under the same key fails unless key and value are the same bytes.
\<close>

theorem mono_cache_misses:
  assumes "mono_set c k d (st, m) = Some (c', st', m')" "\<forall>e \<in> set (mc_monos c). m_key e = 0 \<and> m_val e = 0"
    and "length k = mc_keysz c" "length d = mc_valsz c" "mc_keysz c = mc_valsz c"
  shows "mono_get c' k m' = (if k = d then Some d else None) \<and> mem_read m' 0 (mc_valsz c) = d"
proof -
  have m': "m' = mem_write 0 d (mem_write 0 k m)" "mc_monos c' = \<lparr>m_key = 0, m_val = 0\<rparr> # mc_monos c"
    "mc_keysz c' = mc_keysz c" "mc_valsz c' = mc_valsz c"
    using assms by (auto simp: mono_set_def Let_def split: if_splits)
  have d: "mem_read m' 0 (mc_valsz c) = d"
    unfolding m'(1) by (rule mem_read_write_same') (simp add: assms(4))
  moreover have "find (\<lambda>e. mem_read m' (unat (m_key e)) (mc_valsz c) = k) (mc_monos c) = None" if "k \<noteq> d"
    using that d assms(2) by (auto simp: find_None_iff)
  ultimately show ?thesis using assms(3-5) by (auto simp: mono_get_def m'(2-4))
qed

theorem mono_cache_misses_witness:
  "\<exists>c' st' m'. mono_set \<lparr>mc_instance = 1, mc_keysz = 4, mc_valsz = 4, mc_monos = []\<rparr> [8, 0, 0, 0] [0, 1, 0, 0]
     (\<lparr>curr_mono = 0, curr_context = 1, mono_root = []\<rparr>, \<lambda>_. 0) = Some (c', st', m') \<and> mono_get c' [8, 0, 0, 0] m' = None"
proof -
  let ?c = "\<lparr>mc_instance = 1, mc_keysz = 4, mc_valsz = 4, mc_monos = []\<rparr>"
  let ?s = "\<lparr>curr_mono = 0, curr_context = 1, mono_root = []\<rparr>"
  obtain c' st' m' where r: "mono_set ?c [8, 0, 0, 0] [0, 1, 0, 0] (?s, \<lambda>_. 0) = Some (c', st', m')"
    by (simp add: mono_set_def MAX_MONO_def Let_def)
  from mono_cache_misses [OF r] have "mono_get c' [8, 0, 0, 0] m' = None" by simp
  with r show ?thesis by blast
qed

end
