(* ===== verification/Dma_Mono.thy ===== *)
theory Dma_Mono
  imports Dma_Arith Dma_Run
begin

text \<open>
  The operations that need scratch memory or a table for their width, \<open>Neg\<close> and the shifts by any count of
  \<^verbatim>\<open>bcm2835/dma/arith_int.c\<close> and \<^verbatim>\<open>arith_sxx.c\<close>. They take it from the arena through the cache of
  monomorphic values, whose contexts are numbered by the preprocessor's counter: \<open>n\<close> is its value at the
  first use in a source file, the same in both.
\<close>

section \<open>Values for a width\<close>

type_synonym lib_st = "mono_state \<times> arena \<times> emit_st"

text \<open>The expression runs only when the cache has no value; keys and values have four bytes.\<close>

definition MonomorphizeOn :: "int \<Rightarrow> nat \<Rightarrow> (arena \<times> mem \<Rightarrow> (u32 \<times> arena \<times> mem) option) \<Rightarrow> lib_st \<Rightarrow> (u32 \<times> lib_st) option" where
  "MonomorphizeOn i v expr st =
     (let (ms, ar, ctx, m) = st; k = le32 (of_nat v)
      in do {
        (c, ms) \<leftarrow> mono_get_or_init_ctx i 4 4 ms;
        case mono_get c k m of
          Some d \<Rightarrow> Some (of_le32 d, ms, ar, ctx, m)
        | None \<Rightarrow> do {
            (t, ar, m) \<leftarrow> expr (ar, m);
            (c, ms, m) \<leftarrow> mono_set c k (le32 t) (ms, m);
            Some (t, ms, ar, ctx, m)
          }
      })"

definition scratch :: "nat \<Rightarrow> nat \<Rightarrow> arena \<times> mem \<Rightarrow> (u32 \<times> arena \<times> mem) option" where
  "scratch sz align am = map_option (\<lambda>(q, ar). (q, ar, snd am)) (arena_alloc (of_nat sz) (of_nat align) (fst am))"

text \<open>A table of 256 bytes in the arena, filled by \<open>f\<close>.\<close>

definition mono_table :: "(nat \<Rightarrow> nat) \<Rightarrow> arena \<times> mem \<Rightarrow> (u32 \<times> arena \<times> mem) option" where
  "mono_table f am =
     (case arena_alloc 256 256 (fst am) of None \<Rightarrow> None
      | Some (t, ar) \<Rightarrow> Some (t, ar, mem_write (unat t) (map (\<lambda>i. of_nat (f i)) [0..<256]) (snd am)))"

definition emitting :: "(emit_st \<Rightarrow> emit_st option) \<Rightarrow> lib_st \<Rightarrow> lib_st option" where
  "emitting f st = map_option (\<lambda>s. (fst st, fst (snd st), s)) (f (snd (snd st)))"

section \<open>Negation\<close>

definition Neg :: "dma_tables \<Rightarrow> int \<Rightarrow> nat \<Rightarrow> busad \<Rightarrow> busad \<Rightarrow> lib_st \<Rightarrow> lib_st option" where
  "Neg t n width ret inp st =
     (if \<not> width < 256 then None
      else do {
        (tmp, st) \<leftarrow> MonomorphizeOn n width (scratch width (min (min width 4) 16)) st;
        tb \<leftarrow> bus tmp;
        st \<leftarrow> emitting (Not_op t width tb inp) st;
        emitting (Inc t width ret tb) st
      })"

section \<open>Shifts by any count\<close>

text \<open>Tables of the arithmetic shift, and the page of zeros.\<close>

record shift_tables =
  ZERO :: u32
  SEXT_WHICH :: u32
  SEXT_BUFS :: u32

definition init_sext :: "shift_tables \<Rightarrow> stores" where
  "init_sext z =
     [(unat (SEXT_WHICH z) + i, if i AND 0x80 \<noteq> 0 then ucast ((SEXT_BUFS z + 16) AND 255) else ucast (SEXT_BUFS z AND 255)).
       i \<leftarrow> [0..<256]] @
     [(unat (SEXT_BUFS z) + i, if i < 16 then 0 else 0xff). i \<leftarrow> [0..<32]]"

definition Sll :: "dma_tables \<Rightarrow> shift_tables \<Rightarrow> int \<Rightarrow> nat \<Rightarrow> busad \<Rightarrow> busad \<Rightarrow> busad \<Rightarrow> lib_st \<Rightarrow> lib_st option" where
  "Sll t z n width ret inp shf8 st =
     (if \<not> width < 128 then None
      else do {
        (SLL_SHIFT_SELECT, st) \<leftarrow> MonomorphizeOn n width (mono_table (\<lambda>i. width - (i div 8) mod width)) st;
        (tmp, st) \<leftarrow> MonomorphizeOn (n + 1) width (scratch (2 * width) 256) st;
        emitting (\<lambda>s. do {
          d \<leftarrow> bus tmp;
          src \<leftarrow> bus (ZERO z);
          s \<leftarrow> Emit d src (of_nat width) s;
          d \<leftarrow> bus_off tmp (of_nat width);
          s \<leftarrow> Sll8 t width d inp shf8 s;
          l0 \<leftarrow> Label s;
          d \<leftarrow> bus_rel_fld l0 1 FLD_SRC 0;
          s \<leftarrow> Emit d shf8 1 s;
          d \<leftarrow> bus_rel_fld l0 2 FLD_SRC 0;
          src \<leftarrow> bus SLL_SHIFT_SELECT;
          s \<leftarrow> Emit d src 1 s;
          src \<leftarrow> bus tmp;
          Emit ret src (of_nat width) s
        }) st
      })"

definition Srl :: "dma_tables \<Rightarrow> shift_tables \<Rightarrow> int \<Rightarrow> nat \<Rightarrow> busad \<Rightarrow> busad \<Rightarrow> busad \<Rightarrow> lib_st \<Rightarrow> lib_st option" where
  "Srl t z n width ret inp shf8 st =
     (if \<not> width < 128 then None
      else do {
        (SRL_SHIFT_SELECT, st) \<leftarrow> MonomorphizeOn (n + 2) width (mono_table (\<lambda>i. (i div 8) mod width)) st;
        (tmp, st) \<leftarrow> MonomorphizeOn (n + 3) width (scratch (2 * width) 256) st;
        emitting (\<lambda>s. do {
          d \<leftarrow> bus tmp;
          src \<leftarrow> bus (ZERO z);
          s \<leftarrow> Emit d src (of_nat width) s;
          d \<leftarrow> bus_off tmp 0;
          s \<leftarrow> Srl8 t width d inp shf8 s;
          l0 \<leftarrow> Label s;
          d \<leftarrow> bus_rel_fld l0 1 FLD_SRC 0;
          s \<leftarrow> Emit d shf8 1 s;
          d \<leftarrow> bus_rel_fld l0 2 FLD_SRC 0;
          src \<leftarrow> bus SRL_SHIFT_SELECT;
          s \<leftarrow> Emit d src 1 s;
          src \<leftarrow> bus tmp;
          Emit ret src (of_nat width) s
        }) st
      })"

definition Sra :: "dma_tables \<Rightarrow> shift_tables \<Rightarrow> int \<Rightarrow> nat \<Rightarrow> busad \<Rightarrow> busad \<Rightarrow> busad \<Rightarrow> lib_st \<Rightarrow> lib_st option" where
  "Sra t z n width ret inp shf8 st =
     (if \<not> width < 128 then None
      else do {
        (SRA_SHIFT_SELECT, st) \<leftarrow> MonomorphizeOn (n + 4) width (mono_table (\<lambda>i. (i div 8) mod width)) st;
        (tmp, st) \<leftarrow> MonomorphizeOn (n + 5) width (scratch (2 * width) 256) st;
        emitting (\<lambda>s. do {
          l0 \<leftarrow> Label s;
          d \<leftarrow> bus_rel_fld l0 1 FLD_SRC 0;
          s \<leftarrow> Emit d (bus_add inp (of_nat (width - 1))) 1 s;
          d \<leftarrow> bus_rel_fld l0 2 FLD_SRC 0;
          src \<leftarrow> bus (SEXT_WHICH z);
          s \<leftarrow> Emit d src 1 s;
          d \<leftarrow> bus_off tmp (of_nat width);
          src \<leftarrow> bus (SEXT_BUFS z);
          s \<leftarrow> EmitWith TI_DST_INC d src (of_nat width) s;
          d \<leftarrow> bus tmp;
          s \<leftarrow> Sra8 t width d inp shf8 s;
          l1 \<leftarrow> Label s;
          d \<leftarrow> bus_rel_fld l1 1 FLD_SRC 0;
          s \<leftarrow> Emit d shf8 1 s;
          d \<leftarrow> bus_rel_fld l1 2 FLD_SRC 0;
          src \<leftarrow> bus SRA_SHIFT_SELECT;
          s \<leftarrow> Emit d src 1 s;
          src \<leftarrow> bus tmp;
          Emit ret src (of_nat width) s
        }) st
      })"

section \<open>Multiplication\<close>

text \<open>
  The multiplication is unfinished. Its carry \<open>C_k\<close> is never set, so that the summation of the small products is
  never emitted, and the last product of each column is left out.
\<close>

definition clz32 :: "u32 \<Rightarrow> nat" where
  "clz32 x = length (takeWhile (\<lambda>i. \<not> bit x i) (rev [0..<32]))"

definition log256 :: "u32 \<Rightarrow> nat" where
  "log256 x = (let bits = (if x \<noteq> 0 then 32 - clz32 x else 0) in bits div 8)"

definition mul_column :: "dma_tables \<Rightarrow> u32 \<Rightarrow> nat \<Rightarrow> busad \<Rightarrow> busad \<Rightarrow> nat \<Rightarrow> u32 \<Rightarrow> emit_st \<Rightarrow> emit_st option" where
  "mul_column t small_products width lhs rhs k C_k s =
     (let i_min = k - min k (width - 1); i_max = min k (width - 1); scatter_count = i_max - i_min + 1
      in do {
        l1 \<leftarrow> Label s;
        d \<leftarrow> bus_rel_fld l1 2 FLD_SRC 1;
        s \<leftarrow> EmitStrided d (bus_add lhs (of_nat i_min)) (of_nat scatter_count) 1 31 0 s;
        d \<leftarrow> bus_rel_fld l1 2 FLD_SRC 2;
        s \<leftarrow> EmitStrided d (bus_add rhs (of_nat i_max)) (of_nat scatter_count) 1 31 (- 2) s;
        s \<leftarrow> for_each (\<lambda>i s. do {
          d \<leftarrow> bus_off small_products (of_nat i);
          src \<leftarrow> bus_off (HYPER t) (of_nat HYPER_MUL);
          Emit d src 2 s
        }) [i_min..<i_max] s;
        if C_k = 0 then Some s
        else do {
          let LW = log256 (C_k + 0xfe01);
          l2 \<leftarrow> Label s;
          write_target \<leftarrow> bus_rel_fld l2 (of_nat (2 * LW) - 1) FLD_SRC 0;
          src \<leftarrow> bus_off (HYPER t) (of_nat HYPER_ADD_R);
          s \<leftarrow> Emit (bus_add write_target 0) src 2 s;
          for_each (\<lambda>l s. do {
            d \<leftarrow> bus_rel_fld l1 1 FLD_SRC 0;
            Emit d (bus_rel_cb write_target (of_nat l - 1)) 1 s
          }) [1..<LW] s
        }
      })"

definition UmulWide :: "dma_tables \<Rightarrow> int \<Rightarrow> nat \<Rightarrow> busad \<Rightarrow> busad \<Rightarrow> busad \<Rightarrow> lib_st \<Rightarrow> lib_st option" where
  "UmulWide t n width ret_w lhs rhs st =
     (if width = 0 then None
      else do {
        (small_products, st) \<leftarrow> MonomorphizeOn (n + 1) width (scratch (width * 2) 4) st;
        emitting (for_each (\<lambda>k s. mul_column t small_products width lhs rhs k 0 s) [0..<2 * width]) st
      })"

section \<open>Lemmas\<close>

text \<open>Nothing is emitted that depends on where the product should go.\<close>

lemma UmulWide_ignores_result: "UmulWide t n w ret = UmulWide t n w ret'"
  by (intro ext) (simp add: UmulWide_def)

lemma fresh_ctx: "mono_get_or_init_ctx i ks vs st = Some (c, st') \<Longrightarrow> mono_root st = [] \<Longrightarrow> mc_monos c = []"
  by (auto simp: mono_get_or_init_ctx_def Let_def split: if_splits)

text \<open>
  The alignment that \<open>Neg\<close> asks of the arena is not a power of two for a width of three bytes, which
  panics, unless the cache has a value for it.
\<close>

lemma Neg_three_bytes_panics:
  assumes "mono_root (fst st) = []"
  shows "Neg t n 3 ret inp st = None"
proof -
  have "(3 :: u32) AND (3 - 1) \<noteq> 0" by simp
  then have e: "scratch 3 (min (min 3 4) 16) am = None" for am
    by (simp add: scratch_def arena_alloc_def)
  obtain ms ar ctx m where st: "st = (ms, ar, ctx, m)" by (cases st)
  have "MonomorphizeOn n 3 (scratch 3 (min (min 3 4) 16)) st = None"
  proof (cases "mono_get_or_init_ctx n 4 4 ms")
    case None
    then show ?thesis by (simp add: MonomorphizeOn_def st)
  next
    case (Some cm)
    obtain c ms' where cm: "cm = (c, ms')" by (cases cm)
    from fresh_ctx Some assms have "mc_monos c = []" by (simp add: cm st)
    then have "mono_get c k m = None" for k by (simp add: mono_get_def)
    with Some e show ?thesis by (simp add: MonomorphizeOn_def st cm)
  qed
  then show ?thesis by (simp add: Neg_def)
qed

end
