(* ===== verification/Integ_Hash.thy ===== *)
theory Integ_Hash
  imports Memory
begin

text \<open>
  The hash of memory regions, \<^verbatim>\<open>bcm2835/240-integ/hash.c\<close>: the portable loop, the assembly loop of the
  ARM, which runs ahead of the multiplications by one step, and the whole of \<open>hash_memory\<close>. The two loops
  are equal, and a change of one byte or one aligned word of the region always changes the hash.
\<close>

section \<open>Definitions\<close>

definition PRIME_1 :: u32 where "PRIME_1 = 2654435761"
definition PRIME_2 :: u32 where "PRIME_2 = 2246822519"
definition PRIME_3 :: u32 where "PRIME_3 = 3266489917"
definition PRIME_4 :: u32 where "PRIME_4 = 668265263"
definition PRIME_5 :: u32 where "PRIME_5 = 374761393"

definition RotateLeft :: "u32 \<Rightarrow> nat \<Rightarrow> u32" where
  "RotateLeft t r = push_bit r t OR drop_bit ((32 - r mod 32) mod 32) t"

text \<open>One step of a lane, and the steps of the head and the tail for words and bytes.\<close>

definition lane_step :: "u32 \<Rightarrow> u32 \<Rightarrow> u32" where
  "lane_step s w = RotateLeft (s + w * PRIME_2) 13 * PRIME_1"

definition word_step :: "u32 \<Rightarrow> u32 \<Rightarrow> u32" where
  "word_step H w = RotateLeft (H + w * PRIME_3) 17 * PRIME_4"

definition byte_step :: "u32 \<Rightarrow> u8 \<Rightarrow> u32" where
  "byte_step H b = RotateLeft (H + ucast b * PRIME_5) 11 * PRIME_1"

definition avalanche :: "u32 \<Rightarrow> u32" where
  "avalanche H =
     (let H = H XOR drop_bit 15 H; H = H * PRIME_2; H = H XOR drop_bit 13 H; H = H * PRIME_3
      in H XOR drop_bit 16 H)"

type_synonym lanes = "u32 \<times> u32 \<times> u32"

text \<open>The words of a block of 32 bytes.\<close>

definition block_words :: "mem \<Rightarrow> nat \<Rightarrow> u32 list" where
  "block_words m a = map (\<lambda>i. load32 m (a + 4 * i)) [0..<8]"

definition block_step :: "u32 list \<Rightarrow> lanes \<Rightarrow> lanes" where
  "block_step buf s =
     (let (s0, s1, s2) = s;
          s0 = lane_step s0 (buf ! 0); s1 = lane_step s1 (buf ! 1); s2 = lane_step s2 (buf ! 2);
          s0 = lane_step s0 (buf ! 3); s1 = lane_step s1 (buf ! 4); s2 = lane_step s2 (buf ! 5);
          s0 = lane_step s0 (buf ! 6); s1 = lane_step s1 (buf ! 7)
      in (s0, s1, s2))"

function hash_blocks :: "mem \<Rightarrow> nat \<Rightarrow> nat \<Rightarrow> lanes \<Rightarrow> lanes" where
  "hash_blocks m data stop s =
     (if data < stop then hash_blocks m (data + 32) stop (block_step (block_words m data) s) else s)"
  by pat_completeness auto
termination
  by (relation "measure (\<lambda>(m, data, stop, s). stop - data)") auto

declare hash_blocks.simps [simp del]

function hash_words :: "mem \<Rightarrow> nat \<Rightarrow> nat \<Rightarrow> u32 \<Rightarrow> u32" where
  "hash_words m data stop H = (if data < stop then hash_words m (data + 4) stop (word_step H (load32 m data)) else H)"
  by pat_completeness auto
termination
  by (relation "measure (\<lambda>(m, data, stop, H). stop - data)") auto

declare hash_words.simps [simp del]

function hash_bytes :: "mem \<Rightarrow> nat \<Rightarrow> nat \<Rightarrow> u32 \<Rightarrow> u32" where
  "hash_bytes m data stop H = (if data < stop then hash_bytes m (data + 1) stop (byte_step H (m data)) else H)"
  by pat_completeness auto
termination
  by (relation "measure (\<lambda>(m, data, stop, H). stop - data)") auto

declare hash_bytes.simps [simp del]

section \<open>The assembly loop\<close>

text \<open>
  \<open>mla\<close> and \<open>ror\<close> of the ARM. The loop is entered after the first block, with the multiplications of the
  block's last steps outstanding; every pass performs them first. It ends when the data pointer is equal
  to the end.
\<close>

definition mla :: "u32 \<Rightarrow> u32 \<Rightarrow> u32 \<Rightarrow> u32" where "mla a b c = a * b + c"
definition ror :: "u32 \<Rightarrow> nat \<Rightarrow> u32" where "ror x n = word_rotr n x"

definition arm_head :: "u32 list \<Rightarrow> lanes \<Rightarrow> lanes" where
  "arm_head r s =
     (let (s0, s1, s2) = s; r12 = PRIME_1; r13 = PRIME_2;
          s0 = mla (r ! 0) r13 s0; s1 = mla (r ! 1) r13 s1; s2 = mla (r ! 2) r13 s2;
          s0 = ror s0 19; s1 = ror s1 19; s2 = ror s2 19;
          s0 = s0 * r12; s1 = s1 * r12; s2 = s2 * r12;
          s0 = mla (r ! 3) r13 s0; s1 = mla (r ! 4) r13 s1; s2 = mla (r ! 5) r13 s2;
          s0 = ror s0 19; s1 = ror s1 19; s2 = ror s2 19;
          s0 = s0 * r12; s1 = s1 * r12;
          s0 = mla (r ! 6) r13 s0; s1 = mla (r ! 7) r13 s1;
          s0 = ror s0 19; s1 = ror s1 19
      in (s0, s1, s2))"

definition arm_pass :: "u32 list \<Rightarrow> lanes \<Rightarrow> lanes" where
  "arm_pass r s =
     (let (s0, s1, s2) = s; r12 = PRIME_1; r13 = PRIME_2;
          s0 = s0 * r12; s1 = s1 * r12; s2 = s2 * r12;
          s0 = mla (r ! 0) r13 s0; s1 = mla (r ! 1) r13 s1; s2 = mla (r ! 2) r13 s2;
          s0 = ror s0 19; s1 = ror s1 19; s2 = ror s2 19;
          s0 = s0 * r12; s1 = s1 * r12; s2 = s2 * r12;
          s0 = mla (r ! 3) r13 s0; s1 = mla (r ! 4) r13 s1; s2 = mla (r ! 5) r13 s2;
          s0 = ror s0 19; s1 = ror s1 19; s2 = ror s2 19;
          s0 = s0 * r12; s1 = s1 * r12;
          s0 = mla (r ! 6) r13 s0; s1 = mla (r ! 7) r13 s1;
          s0 = ror s0 19; s1 = ror s1 19
      in (s0, s1, s2))"

partial_function (option) arm_loop :: "mem \<Rightarrow> nat \<Rightarrow> nat \<Rightarrow> lanes \<Rightarrow> lanes option" where
  "arm_loop m data stop s =
     (let s = arm_pass (block_words m data) s; data = data + 32
      in if data = stop then Some s else arm_loop m data stop s)"

declare arm_loop.simps [code]

definition arm_blocks :: "mem \<Rightarrow> nat \<Rightarrow> nat \<Rightarrow> lanes \<Rightarrow> lanes option" where
  "arm_blocks m data stop s =
     (case arm_loop m (data + 32) stop (arm_head (block_words m data) s) of
        None \<Rightarrow> None
      | Some (s0, s1, s2) \<Rightarrow> Some (s0 * PRIME_1, s1 * PRIME_1, s2 * PRIME_1))"

section \<open>The hash of a region\<close>

text \<open>The boundaries of the parts: the region, its aligned words and its aligned blocks.\<close>

definition align_up :: "nat \<Rightarrow> nat \<Rightarrow> nat" where "align_up k a = (a + (k - 1)) div k * k"
definition align_down :: "nat \<Rightarrow> nat \<Rightarrow> nat" where "align_down k a = a div k * k"

text \<open>
  \<open>arm\<close> chooses the build for the ARM, which uses the assembly loop when the blocks have at least 64
  bytes. Addresses are natural numbers: the region does not wrap around. The seed is read from memory,
  if there is one. \<open>None\<close> is a loop without end.
\<close>

definition hash_memory :: "bool \<Rightarrow> mem \<Rightarrow> nat option \<Rightarrow> nat \<Rightarrow> u32 \<Rightarrow> u32 option" where
  "hash_memory arm m seed_ptr p sz =
     (let seed = (case seed_ptr of Some a \<Rightarrow> load32 m a | None \<Rightarrow> 0);
          s = (seed + PRIME_1 + PRIME_2, seed + PRIME_2, seed);
          stop = p + unat sz;
          start_word = align_up 4 p; start_block = align_up 32 p;
          stop_word = align_down 4 stop; stop_block = align_down 32 stop;
          start_word = min stop_word start_word; start_block = min stop_block start_block
      in case (if arm \<and> 64 \<le> stop_block - start_block then arm_blocks m start_block stop_block s
               else Some (hash_blocks m start_block stop_block s)) of
           None \<Rightarrow> None
         | Some (s0, s1, s2) \<Rightarrow>
             let H = sz + RotateLeft s0 1 + RotateLeft s1 7 + RotateLeft s2 12;
                 H = hash_words m stop_block stop_word H;
                 H = hash_bytes m (max stop_block stop_word) stop H;
                 H = hash_bytes m p start_word H;
                 H = hash_words m (max p start_word) start_block H
             in Some (avalanche H))"

section \<open>The steps are injective\<close>

lemma RotateLeft_rotl:
  assumes r: "0 < r" "r < 32"
  shows "RotateLeft t r = word_rotl r t"
proof (rule bit_word_eqI)
  fix n assume "n < LENGTH(32)"
  then have n: "n < 32" by simp
  have rot: "bit (word_rotl r t) n = bit t ((n + (32 - r)) mod 32)"
    using r n by (simp only: bit_word_rotl_iff) simp
  have left: "bit (RotateLeft t r) n \<longleftrightarrow> r \<le> n \<and> bit t (n - r) \<or> bit t (32 - r + n)"
    using r n by (simp add: RotateLeft_def bit_simps)
  show "bit (RotateLeft t r) n = bit (word_rotl r t) n"
  proof (cases "r \<le> n")
    case True
    then have "(n + (32 - r)) mod 32 = (n - r + 32) mod 32" using r by (simp add: add.commute)
    also have "\<dots> = n - r" using n by (simp only: mod_add_self2) simp
    finally have "(n + (32 - r)) mod 32 = n - r" .
    moreover have "\<not> bit t (32 - r + n)" using True r by (auto dest: bit_imp_le_length)
    ultimately show ?thesis using True by (simp only: rot left) simp
  next
    case False
    then have "(n + (32 - r)) mod 32 = 32 - r + n" using r by (simp add: add.commute)
    with False show ?thesis by (simp only: rot left) simp
  qed
qed

lemma rotl_inj [simp]: "word_rotl r x = word_rotl r y \<longleftrightarrow> x = y"
  by (metis word_rot_lr)

lemma RotateLeft_inj: "0 < r \<Longrightarrow> r < 32 \<Longrightarrow> RotateLeft x r = RotateLeft y r \<longleftrightarrow> x = y"
  by (simp add: RotateLeft_rotl)

text \<open>Odd factors can be cancelled: these are the inverses of the primes.\<close>

lemma prime_inverse:
  "PRIME_1 * 244002641 = 1" "PRIME_2 * 3066638151 = 1" "PRIME_3 * 2828982549 = 1"
  "PRIME_4 * 2701016015 = 1" "PRIME_5 * 2923004241 = 1"
  by (simp_all add: PRIME_1_def PRIME_2_def PRIME_3_def PRIME_4_def PRIME_5_def)

lemma mult_cancel_inverse:
  fixes x y p q :: u32
  assumes "p * q = 1"
  shows "x * p = y * p \<longleftrightarrow> x = y"
proof
  assume "x * p = y * p"
  then have "x * (p * q) = y * (p * q)" by (simp only: mult.assoc [symmetric])
  then show "x = y" by (simp add: assms)
qed simp

lemmas prime_cancel [simp] = prime_inverse [THEN mult_cancel_inverse]

lemma lane_step_inj:
  "lane_step s w = lane_step s' w \<longleftrightarrow> s = s'" "lane_step s w = lane_step s w' \<longleftrightarrow> w = w'"
  by (simp_all add: lane_step_def RotateLeft_inj)

lemma word_step_inj:
  "word_step s w = word_step s' w \<longleftrightarrow> s = s'" "word_step s w = word_step s w' \<longleftrightarrow> w = w'"
  by (simp_all add: word_step_def RotateLeft_inj)

lemma ucast_8_32_inj: "(ucast x :: u32) = ucast y \<longleftrightarrow> x = y" for x y :: u8
proof
  assume "(ucast x :: u32) = ucast y"
  then have "unat (ucast x :: u32) = unat (ucast y :: u32)" by simp
  moreover have "unat (ucast z :: u32) = unat z" for z :: u8
    using unsigned_less [of z, where 'a = nat] by (simp add: unsigned_ucast_eq take_bit_eq_mod)
  ultimately show "x = y" by (simp add: word_unat_eq_iff)
qed simp

lemma byte_step_inj:
  "byte_step s w = byte_step s' w \<longleftrightarrow> s = s'" "byte_step s w = byte_step s w' \<longleftrightarrow> w = w'"
  by (simp_all add: byte_step_def RotateLeft_inj ucast_8_32_inj)

lemma xor_zero: "x XOR y = 0 \<longleftrightarrow> x = y" for x y :: u32
  by (metis xor_cancel_right xor_self_eq)

lemma xor_shift_inj:
  fixes x y :: u32
  assumes "0 < k" "x XOR drop_bit k x = y XOR drop_bit k y"
  shows "x = y"
proof -
  define z where "z = x XOR y"
  have "z XOR drop_bit k z = (x XOR drop_bit k x) XOR (y XOR drop_bit k y)"
    by (simp add: z_def ac_simps)
  also have "\<dots> = 0" by (simp add: assms(2))
  finally have "z = drop_bit k z" by (simp add: xor_zero)
  then have u: "unat z = unat z div 2 ^ k" by (metis drop_bit_eq_div unat_drop_bit_eq)
  have "(2 :: nat) ^ 1 \<le> 2 ^ k" using assms(1) by (intro power_increasing) simp_all
  then have "unat z div 2 ^ k \<le> unat z div 2" by (intro div_le_mono2) simp_all
  with u have "unat z = 0" by linarith
  then have "z = 0" by (simp add: unat_eq_zero)
  then show ?thesis by (simp add: z_def xor_zero)
qed

lemma avalanche_inj: "avalanche x = avalanche y \<longleftrightarrow> x = y"
proof
  assume "avalanche x = avalanche y"
  then have "(let H = x XOR drop_bit 15 x; H = H * PRIME_2; H = H XOR drop_bit 13 H in H * PRIME_3) =
      (let H = y XOR drop_bit 15 y; H = H * PRIME_2; H = H XOR drop_bit 13 H in H * PRIME_3)"
    unfolding avalanche_def Let_def by (rule xor_shift_inj [rotated]) simp
  then have "(x XOR drop_bit 15 x) * PRIME_2 XOR drop_bit 13 ((x XOR drop_bit 15 x) * PRIME_2) =
      (y XOR drop_bit 15 y) * PRIME_2 XOR drop_bit 13 ((y XOR drop_bit 15 y) * PRIME_2)"
    unfolding Let_def by simp
  then have "(x XOR drop_bit 15 x) * PRIME_2 = (y XOR drop_bit 15 y) * PRIME_2"
    by (rule xor_shift_inj [rotated]) simp
  then have "x XOR drop_bit 15 x = y XOR drop_bit 15 y" by simp
  then show "x = y" by (rule xor_shift_inj [rotated]) simp
qed simp

section \<open>Loops over memory\<close>

text \<open>
  The three loops have one shape: a step of \<open>k\<close> bytes that depends on those bytes only, keeps different
  states different, and makes states different when one of the bytes changes.
\<close>

locale hashing_loop =
  fixes k :: nat and step :: "mem \<Rightarrow> nat \<Rightarrow> 'h \<Rightarrow> 'h" and loop :: "mem \<Rightarrow> nat \<Rightarrow> nat \<Rightarrow> 'h \<Rightarrow> 'h"
    and differ :: "'h \<Rightarrow> 'h \<Rightarrow> bool"
  assumes k_pos: "0 < k"
    and loop_step: "loop m a e h = (if a < e then loop m (a + k) e (step m a h) else h)"
    and step_cong: "(\<And>x. a \<le> x \<Longrightarrow> x < a + k \<Longrightarrow> m x = m' x) \<Longrightarrow> step m a h = step m' a h"
    and step_differ: "differ h h' \<Longrightarrow> differ (step m a h) (step m a h')"
    and step_change: "a \<le> x \<Longrightarrow> x < a + k \<Longrightarrow> v \<noteq> m x \<Longrightarrow> differ (step m a h) (step (m(x := v)) a h)"
begin

lemma loop_done: "e \<le> a \<Longrightarrow> loop m a e h = h"
  by (simp add: loop_step [of m a])

lemma aligned_step: "a < e \<Longrightarrow> k dvd e - a \<Longrightarrow> k dvd e - (a + k) \<and> a + k \<le> e"
proof
  assume "a < e" "k dvd e - a"
  then have "k \<le> e - a" by (intro dvd_imp_le) simp_all
  then show "a + k \<le> e" using \<open>a < e\<close> by linarith
  from \<open>k dvd e - a\<close> have "k dvd e - a - k" by (rule dvd_diff_nat) simp
  then show "k dvd e - (a + k)" by simp
qed

lemma loop_cong:
  assumes "k dvd e - a" "\<And>x. a \<le> x \<Longrightarrow> x < e \<Longrightarrow> m x = m' x"
  shows "loop m a e h = loop m' a e h"
  using assms
proof (induction "e - a" arbitrary: a h rule: less_induct)
  case less
  show ?case
  proof (cases "a < e")
    case True
    note st = aligned_step [OF True less.prems(1)]
    have "step m a h = step m' a h" using less.prems(2) st by (intro step_cong) simp
    moreover have "loop m (a + k) e h' = loop m' (a + k) e h'" for h'
      by (rule less.hyps) (use True k_pos st less.prems(2) in auto)
    ultimately show ?thesis using True by (simp add: loop_step [of _ a])
  qed (simp add: loop_done)
qed

lemma loop_differ:
  assumes "differ h h'"
  shows "differ (loop m a e h) (loop m a e h')"
  using assms
proof (induction "e - a" arbitrary: a h h' rule: less_induct)
  case less
  show ?case
  proof (cases "a < e")
    case True
    have "differ (loop m (a + k) e (step m a h)) (loop m (a + k) e (step m a h'))"
      by (rule less.hyps) (use True k_pos step_differ [OF less.prems] in auto)
    with True show ?thesis by (simp add: loop_step [of _ a])
  qed (use less.prems in \<open>simp add: loop_done\<close>)
qed

lemma loop_change:
  assumes "k dvd e - a" "a \<le> x" "x < e" "v \<noteq> m x"
  shows "differ (loop m a e h) (loop (m(x := v)) a e h)"
  using assms(1-3)
proof (induction "e - a" arbitrary: a h rule: less_induct)
  case less
  from less.prems have ae: "a < e" by simp
  note st = aligned_step [OF ae less.prems(1)]
  show ?case
  proof (cases "x < a + k")
    case True
    have "loop m (a + k) e h' = loop (m(x := v)) (a + k) e h'" for h'
      by (rule loop_cong) (use st True in auto)
    with loop_differ [OF step_change [of a x v m, OF less.prems(2) True assms(4)]] ae show ?thesis
      by (metis loop_step)
  next
    case False
    have "step m a h = step (m(x := v)) a h" by (rule step_cong) (use False in auto)
    moreover have "differ (loop m (a + k) e h') (loop (m(x := v)) (a + k) e h')" for h'
      by (rule less.hyps) (use ae k_pos st False less.prems(3) in auto)
    ultimately show ?thesis using ae by (simp add: loop_step [of _ a])
  qed
qed

end

text \<open>Loops whose state is a word: with the regions processed so far, the states differ iff one of them has the change.\<close>

locale word_hashing_loop = hashing_loop k step loop "\<lambda>h h'. h \<noteq> h'"
  for k :: nat and step :: "mem \<Rightarrow> nat \<Rightarrow> u32 \<Rightarrow> u32" and loop :: "mem \<Rightarrow> nat \<Rightarrow> nat \<Rightarrow> u32 \<Rightarrow> u32"
begin

lemma track:
  assumes "k dvd r - l" "v \<noteq> m x" "H \<noteq> G \<longleftrightarrow> x \<in> S" "S \<inter> {l..<r} = {}"
  shows "loop m l r H \<noteq> loop (m(x := v)) l r G \<longleftrightarrow> x \<in> S \<union> {l..<r}"
proof (cases "x \<in> {l..<r}")
  case True
  then have "H = G" using assms(3,4) by blast
  with True loop_change [OF assms(1), of x v m H] assms(2) show ?thesis by simp
next
  case False
  then have "loop (m(x := v)) l r G = loop m l r G" using assms(1) by (intro loop_cong) auto
  with False loop_differ [of H G m l r] assms(3) show ?thesis by (cases "H = G") auto
qed

end

text \<open>The words in memory.\<close>

lemma le32_of_le32: "length bs = 4 \<Longrightarrow> le32 (of_le32 bs) = bs"
proof -
  assume "length bs = 4"
  then obtain a b c d where bs: "bs = [a, b, c, d]" by (auto simp: length_Suc_conv numeral_eq_Suc)
  have "ucast (ucast a OR push_bit 8 (ucast b) OR push_bit 16 (ucast c) OR push_bit 24 (ucast d) :: u32) = a"
    "ucast (drop_bit 8 (ucast a OR push_bit 8 (ucast b) OR push_bit 16 (ucast c) OR push_bit 24 (ucast d) :: u32)) = b"
    "ucast (drop_bit 16 (ucast a OR push_bit 8 (ucast b) OR push_bit 16 (ucast c) OR push_bit 24 (ucast d) :: u32)) = c"
    "ucast (drop_bit 24 (ucast a OR push_bit 8 (ucast b) OR push_bit 16 (ucast c) OR push_bit 24 (ucast d) :: u32)) = d"
    by (rule bit_word_eqI; auto simp: bit_simps dest: bit_imp_le_length)+
  then show ?thesis by (simp add: bs le32_def of_le32_def)
qed

lemma load32_cong: "(\<And>x. a \<le> x \<Longrightarrow> x < a + 4 \<Longrightarrow> m x = m' x) \<Longrightarrow> load32 m a = load32 m' a"
  unfolding load32_def by (rule arg_cong [of _ _ of_le32]) (auto intro!: nth_equalityI)

lemma load32_change:
  assumes "a \<le> x" "x < a + 4" "v \<noteq> m x"
  shows "load32 m a \<noteq> load32 (m(x := v)) a"
proof
  assume "load32 m a = load32 (m(x := v)) a"
  then have "mem_read m a 4 = mem_read (m(x := v)) a 4"
    unfolding load32_def by (metis le32_of_le32 length_mem_read)
  then have "mem_read m a 4 ! (x - a) = mem_read (m(x := v)) a 4 ! (x - a)" by simp
  with assms show False by (simp add: nth_mem_read)
qed

interpretation words: word_hashing_loop 4 "\<lambda>m a h. word_step h (load32 m a)" hash_words
proof unfold_locales
  show "word_step h (load32 m a) = word_step h (load32 m' a)" if "\<And>x. a \<le> x \<Longrightarrow> x < a + 4 \<Longrightarrow> m x = m' x" for a m m' h
    using load32_cong [of a m m'] that by simp
  show "word_step h (load32 m a) \<noteq> word_step h (load32 (m(x := v)) a)"
    if "a \<le> x" "x < a + 4" "v \<noteq> m x" for a x v m h
    using load32_change [of a x v m] that by (simp add: word_step_inj)
  show "hash_words m a e h = (if a < e then hash_words m (a + 4) e (word_step h (load32 m a)) else h)" for m a e h
    by (rule hash_words.simps)
qed (simp_all add: word_step_inj)

interpretation bytes: word_hashing_loop 1 "\<lambda>m a h. byte_step h (m a)" hash_bytes
  by unfold_locales (auto simp: byte_step_inj less_Suc_eq_le intro: hash_bytes.simps [THEN trans])

text \<open>States of the lanes differ when exactly one lane is different.\<close>

definition one_differs :: "lanes \<Rightarrow> lanes \<Rightarrow> bool" where
  "one_differs s t \<longleftrightarrow>
     (let (s0, s1, s2) = s; (t0, t1, t2) = t
      in (s0 \<noteq> t0 \<and> s1 = t1 \<and> s2 = t2) \<or> (s0 = t0 \<and> s1 \<noteq> t1 \<and> s2 = t2) \<or> (s0 = t0 \<and> s1 = t1 \<and> s2 \<noteq> t2))"

lemma block_step_differ: "one_differs s t \<Longrightarrow> one_differs (block_step ws s) (block_step ws t)"
  by (cases s; cases t) (auto simp: one_differs_def block_step_def Let_def lane_step_inj)

lemma block_step_change:
  assumes "length ws = 8" "i < 8" "ws ! i \<noteq> w"
  shows "one_differs (block_step ws s) (block_step (ws[i := w]) s)"
proof -
  from assms(2) have "i = 0 \<or> i = 1 \<or> i = 2 \<or> i = 3 \<or> i = 4 \<or> i = 5 \<or> i = 6 \<or> i = 7" by linarith
  with assms(1,3) show ?thesis
    by (cases s) (auto simp: one_differs_def block_step_def Let_def lane_step_inj)
qed

lemma block_words_change:
  assumes "a \<le> x" "x < a + 32" "v \<noteq> m x"
  shows "\<exists>i w. i < 8 \<and> block_words m a ! i \<noteq> w \<and> block_words (m(x := v)) a = (block_words m a)[i := w]"
proof -
  define i where "i = (x - a) div 4"
  have i: "i < 8" using assms(1,2) by (simp add: i_def less_mult_imp_div_less)
  have x: "a + 4 * i \<le> x" "x < a + 4 * i + 4"
    using assms(1) div_mult_mod_eq [of "x - a" 4] mod_less_divisor [of 4 "x - a"] by (simp_all add: i_def)
  have "block_words (m(x := v)) a = (block_words m a)[i := load32 (m(x := v)) (a + 4 * i)]"
  proof (rule nth_equalityI)
    fix j assume "j < length (block_words (m(x := v)) a)"
    then have j: "j < 8" by (simp add: block_words_def)
    have "load32 (m(x := v)) (a + 4 * j) = load32 m (a + 4 * j)" if "j \<noteq> i"
      by (rule load32_cong) (use that x in auto)
    with j show "block_words (m(x := v)) a ! j = (block_words m a)[i := load32 (m(x := v)) (a + 4 * i)] ! j"
      by (cases "j = i") (simp_all add: block_words_def)
  qed (simp add: block_words_def)
  moreover have "block_words m a ! i \<noteq> load32 (m(x := v)) (a + 4 * i)"
    using i load32_change [of "a + 4 * i" x v m] x assms(3) by (simp add: block_words_def)
  ultimately show ?thesis using i by blast
qed

interpretation blocks: hashing_loop 32 "\<lambda>m a s. block_step (block_words m a) s" hash_blocks one_differs
proof unfold_locales
  show "hash_blocks m a e s = (if a < e then hash_blocks m (a + 32) e (block_step (block_words m a) s) else s)" for m a e s
    by (rule hash_blocks.simps)
  show "block_step (block_words m a) s = block_step (block_words m' a) s"
    if "\<And>x. a \<le> x \<Longrightarrow> x < a + 32 \<Longrightarrow> m x = m' x" for a m m' s
  proof -
    have "block_words m a = block_words m' a"
      unfolding block_words_def using that by (auto intro!: load32_cong)
    then show ?thesis by simp
  qed
  show "one_differs (block_step (block_words m a) s) (block_step (block_words (m(x := v)) a) s)"
    if "a \<le> x" "x < a + 32" "v \<noteq> m x" for a x v m s
  proof -
    from block_words_change [of a x v m] that obtain i w where i: "i < 8" "block_words m a ! i \<noteq> w"
      "block_words (m(x := v)) a = (block_words m a)[i := w]" by blast
    then show ?thesis by (simp add: block_step_change block_words_def)
  qed
qed (simp_all add: block_step_differ)

section \<open>The assembly loop is the portable loop\<close>

lemma ror_rotl: "ror x 19 = RotateLeft x 13"
proof -
  have "word_rotr 19 x = word_rotl 13 x" by (simp add: word_rotl_eq_word_rotr)
  then show ?thesis by (simp add: ror_def RotateLeft_rotl)
qed

lemma lane_mla: "ror (mla w PRIME_2 s) 19 * PRIME_1 = lane_step s w"
  by (simp add: ror_rotl mla_def lane_step_def add.commute)

text \<open>The multiplications that the assembly leaves outstanding at the end of a pass.\<close>

definition outstanding :: "lanes \<Rightarrow> lanes" where
  "outstanding s = (let (s0, s1, s2) = s in (s0 * PRIME_1, s1 * PRIME_1, s2 * PRIME_1))"

lemma arm_head_step: "outstanding (arm_head ws s) = block_step ws s"
  by (cases s) (simp add: outstanding_def arm_head_def block_step_def Let_def lane_mla)

lemma arm_pass_step: "outstanding (arm_pass ws s) = block_step ws (outstanding s)"
  by (cases s) (simp add: outstanding_def arm_pass_def block_step_def Let_def lane_mla)

lemma arm_loop_blocks:
  "32 dvd e - a \<Longrightarrow> a < e \<Longrightarrow> \<exists>t. arm_loop m a e s = Some t \<and> outstanding t = hash_blocks m a e (outstanding s)"
proof (induction "e - a" arbitrary: a s rule: less_induct)
  case less
  note st = blocks.aligned_step [OF less.prems(2,1)]
  let ?s = "arm_pass (block_words m a) s"
  show ?case
  proof (cases "a + 32 = e")
    case True
    then have "arm_loop m a e s = Some ?s" by (subst arm_loop.simps) (simp add: Let_def)
    with True less.prems(2) show ?thesis
      by (simp add: arm_pass_step hash_blocks.simps [of m a] blocks.loop_done)
  next
    case False
    with st have lt: "a + 32 < e" and "e - (a + 32) < e - a" using less.prems(2) by linarith+
    from less.hyps [OF this(2) conjunct1 [OF st] lt, of ?s] obtain t where
      "arm_loop m (a + 32) e ?s = Some t" "outstanding t = hash_blocks m (a + 32) e (outstanding ?s)" by blast
    with False less.prems(2) show ?thesis
      by (subst arm_loop.simps) (simp add: Let_def arm_pass_step hash_blocks.simps [of m a])
  qed
qed

lemma arm_blocks_eq:
  assumes "32 dvd e - a" "64 \<le> e - a"
  shows "arm_blocks m a e s = Some (hash_blocks m a e s)"
proof -
  have "32 dvd e - (a + 32)" "a + 32 < e" "a < e" using blocks.aligned_step [OF _ assms(1)] assms(2) by auto
  with arm_loop_blocks [of e "a + 32" m "arm_head (block_words m a) s"] obtain t where
    t: "arm_loop m (a + 32) e (arm_head (block_words m a) s) = Some t" "outstanding t = hash_blocks m a e s"
    by (auto simp: arm_head_step hash_blocks.simps [of m a])
  then show ?thesis by (cases t) (simp add: arm_blocks_def outstanding_def)
qed

lemma align_down_dvd: "k dvd align_down k a" by (simp add: align_down_def)
lemma align_up_dvd: "k dvd align_up k a" by (simp add: align_up_def)

lemma aligned_blocks:
  "32 dvd align_down 32 e - min (align_down 32 e) (align_up 32 a)"
  by (simp add: min_def align_down_dvd align_up_dvd)

text \<open>The hash without the choice of the loop.\<close>

definition portable_hash :: "mem \<Rightarrow> u32 \<Rightarrow> nat \<Rightarrow> u32 \<Rightarrow> u32" where
  "portable_hash m seed p sz =
     (let stop = p + unat sz; stop_word = align_down 4 stop; stop_block = align_down 32 stop;
          start_word = min stop_word (align_up 4 p); start_block = min stop_block (align_up 32 p);
          (s0, s1, s2) = hash_blocks m start_block stop_block (seed + PRIME_1 + PRIME_2, seed + PRIME_2, seed);
          H = sz + RotateLeft s0 1 + RotateLeft s1 7 + RotateLeft s2 12;
          H = hash_words m stop_block stop_word H;
          H = hash_bytes m (max stop_block stop_word) stop H;
          H = hash_bytes m p start_word H;
          H = hash_words m (max p start_word) start_block H
      in avalanche H)"

lemma hash_memory_eq:
  "hash_memory arm m seed_ptr p sz =
    Some (portable_hash m (case seed_ptr of Some a \<Rightarrow> load32 m a | None \<Rightarrow> 0) p sz)"
  using arm_blocks_eq [OF aligned_blocks]
  by (auto simp: hash_memory_def portable_hash_def Let_def split: prod.splits)

section \<open>Changes are noticed\<close>

text \<open>A region with a boundary of two blocks in it or at its ends.\<close>

definition spans :: "nat \<Rightarrow> u32 \<Rightarrow> bool" where
  "spans p sz \<longleftrightarrow> align_up 32 p \<le> align_down 32 (p + unat sz)"

lemma align_down_le: "align_down k a \<le> a" by (simp add: align_down_def)

lemma align_up_ge: "0 < k \<Longrightarrow> a \<le> align_up k a"
  unfolding align_up_def using div_mult_mod_eq [of "a + (k - 1)" k] mod_less_divisor [of k "a + (k - 1)"] by linarith

lemma align_down_32_4: "align_down 32 a \<le> align_down 4 a"
proof -
  have "4 dvd align_down 32 a" by (simp add: align_down_def dvd_mult)
  then obtain j where j: "align_down 32 a = j * 4" by (metis dvd_def mult.commute)
  have "j * 4 \<le> a" using align_down_le [of 32 a] j by simp
  then show ?thesis unfolding j align_down_def by (simp add: less_eq_div_iff_mult_less_eq)
qed

text \<open>The parts of such a region in the order of their addresses.\<close>

lemma spans_parts:
  assumes "spans p sz"
  defines "stop \<equiv> p + unat sz"
  shows "p \<le> align_up 4 p" "align_up 4 p \<le> align_up 32 p" "align_up 32 p \<le> align_down 32 stop"
    "align_down 32 stop \<le> align_down 4 stop" "align_down 4 stop \<le> stop"
    "4 dvd align_up 32 p - align_up 4 p" "4 dvd align_down 4 stop - align_down 32 stop"
    "32 dvd align_down 32 stop - align_up 32 p"
proof -
  show "align_up 32 p \<le> align_down 32 stop" using assms by (simp add: spans_def)
  have 4: "4 dvd align_up 32 p" "4 dvd align_down 32 stop" by (simp_all add: align_up_def align_down_def dvd_mult)
  then show "4 dvd align_up 32 p - align_up 4 p" "4 dvd align_down 4 stop - align_down 32 stop"
    by (simp_all add: align_up_dvd align_down_dvd dvd_diff_nat)
  show "32 dvd align_down 32 stop - align_up 32 p" by (simp add: align_up_dvd align_down_dvd dvd_diff_nat)
  show "p \<le> align_up 4 p" "align_down 4 stop \<le> stop" by (simp_all add: align_up_ge align_down_le)
  from 4(1) obtain i where i: "align_up 32 p = i * 4" by (metis dvd_def mult.commute)
  have "p + 3 < (i + 1) * 4" using align_up_ge [of 32 p] i by simp
  then have "(p + 3) div 4 < i + 1" by (rule less_mult_imp_div_less)
  then have "(p + 3) div 4 * 4 \<le> i * 4" by simp
  then show "align_up 4 p \<le> align_up 32 p" by (simp only: i align_up_def [of 4]) simp
  show "align_down 32 stop \<le> align_down 4 stop" by (rule align_down_32_4)
qed

lemma lanes_sum_differ:
  assumes "one_differs (s0, s1, s2) (t0, t1, t2)"
  shows "z + RotateLeft s0 1 + RotateLeft s1 7 + RotateLeft s2 12 \<noteq> z + RotateLeft t0 1 + RotateLeft t1 7 + RotateLeft t2 12"
  using assms by (auto simp: one_differs_def RotateLeft_inj)

lemma portable_hash_spans:
  assumes "spans p sz"
  shows "portable_hash m seed p sz =
    (let stop = p + unat sz; start_block = align_up 32 p; stop_block = align_down 32 stop;
         (s0, s1, s2) = hash_blocks m start_block stop_block (seed + PRIME_1 + PRIME_2, seed + PRIME_2, seed)
     in avalanche (hash_words m (align_up 4 p) start_block (hash_bytes m p (align_up 4 p)
       (hash_bytes m (align_down 4 stop) stop (hash_words m stop_block (align_down 4 stop)
         (sz + RotateLeft s0 1 + RotateLeft s1 7 + RotateLeft s2 12))))))"
  using spans_parts [OF assms] by (simp add: portable_hash_def Let_def min_absorb2 max_absorb2)

lemma portable_hash_change:
  assumes sp: "spans p sz" and x: "p \<le> x" "x < p + unat sz" "v \<noteq> m x"
  shows "portable_hash m seed p sz \<noteq> portable_hash (m(x := v)) seed p sz"
proof -
  let ?m = "m(x := v)" and ?e = "p + unat sz"
  let ?a = "align_up 4 p" and ?b = "align_up 32 p" and ?c = "align_down 32 (p + unat sz)" and ?d = "align_down 4 (p + unat sz)"
  note o = spans_parts [OF sp]
  let ?seed = "(seed + PRIME_1 + PRIME_2, seed + PRIME_2, seed)"
  obtain s0 s1 s2 where s: "hash_blocks m ?b ?c ?seed = (s0, s1, s2)" by (metis prod_cases3)
  obtain t0 t1 t2 where t: "hash_blocks ?m ?b ?c ?seed = (t0, t1, t2)" by (metis prod_cases3)
  let ?H = "sz + RotateLeft s0 1 + RotateLeft s1 7 + RotateLeft s2 12" and ?G = "sz + RotateLeft t0 1 + RotateLeft t1 7 + RotateLeft t2 12"
  have 1: "?H \<noteq> ?G \<longleftrightarrow> x \<in> {?b..<?c}"
  proof (cases "x \<in> {?b..<?c}")
    case True
    then have "one_differs (hash_blocks m ?b ?c ?seed) (hash_blocks ?m ?b ?c ?seed)"
      using o(8) x(3) by (intro blocks.loop_change) auto
    with lanes_sum_differ True show ?thesis unfolding s t by blast
  next
    case False
    then have "hash_blocks m ?b ?c ?seed = hash_blocks ?m ?b ?c ?seed"
      using o(8) by (intro blocks.loop_cong) auto
    with False show ?thesis unfolding s t by simp
  qed
  note 2 = words.track [where m = m and x = x and v = v, OF o(7) x(3) 1]
  note 3 = bytes.track [where m = m and x = x and v = v, OF one_dvd x(3) 2]
  note 4 = bytes.track [where m = m and x = x and v = v, OF one_dvd x(3) 3]
  note 5 = words.track [where m = m and x = x and v = v, OF o(6) x(3) 4]
  have "hash_words m ?a ?b (hash_bytes m p ?a (hash_bytes m ?d ?e (hash_words m ?c ?d ?H))) \<noteq>
      hash_words ?m ?a ?b (hash_bytes ?m p ?a (hash_bytes ?m ?d ?e (hash_words ?m ?c ?d ?G)))"
    by (subst 5) (use o x in auto)
  then show ?thesis
    by (simp add: portable_hash_spans [OF sp] Let_def s t avalanche_inj)
qed

lemma portable_hash_cong:
  assumes sp: "spans p sz" and same: "\<And>x. p \<le> x \<Longrightarrow> x < p + unat sz \<Longrightarrow> m x = m' x"
  shows "portable_hash m seed p sz = portable_hash m' seed p sz"
proof -
  note o = spans_parts [OF sp]
  have w: "hash_words m l r H = hash_words m' l r H" if "4 dvd r - l" "p \<le> l" "r \<le> p + unat sz" for l r H
    by (rule words.loop_cong [OF that(1)]) (use that same in auto)
  have y: "hash_bytes m l r H = hash_bytes m' l r H" if "p \<le> l" "r \<le> p + unat sz" for l r H
    by (rule bytes.loop_cong [OF one_dvd]) (use that same in auto)
  have b: "hash_blocks m (align_up 32 p) (align_down 32 (p + unat sz)) s =
      hash_blocks m' (align_up 32 p) (align_down 32 (p + unat sz)) s" for s
    by (rule blocks.loop_cong [OF o(8)]) (use o same in auto)
  show ?thesis
    using o by (simp add: portable_hash_spans [OF sp] Let_def b w y)
qed

lemma portable_hash_outside:
  assumes nsp: "\<not> spans p sz" and x: "align_down 32 (p + unat sz) \<le> x" "x < p" "v \<noteq> m x"
  shows "portable_hash m seed p sz \<noteq> portable_hash (m(x := v)) seed p sz"
proof -
  let ?m = "m(x := v)" and ?e = "p + unat sz"
  let ?c = "align_down 32 (p + unat sz)" and ?d = "align_down 4 (p + unat sz)" and ?a = "min (align_down 4 (p + unat sz)) (align_up 4 p)"
  let ?s = "(seed + PRIME_1 + PRIME_2, seed + PRIME_2, seed)"
  let ?H = "sz + RotateLeft (fst ?s) 1 + RotateLeft (fst (snd ?s)) 7 + RotateLeft (snd (snd ?s)) 12"
  from nsp have b: "min ?c (align_up 32 p) = ?c" by (simp add: spans_def)
  have cd: "?c \<le> ?d" "?d \<le> ?e" by (simp_all add: align_down_32_4 align_down_le)
  have dvd: "4 dvd ?d - ?c" by (simp add: align_down_def dvd_diff_nat dvd_mult)
  note 1 = words.track [where m = m and x = x and v = v and H = ?H and G = ?H and S = "{}", OF dvd x(3)]
  note 2 = bytes.track [where m = m and x = x and v = v, OF one_dvd x(3) 1]
  have "hash_bytes m ?d ?e (hash_words m ?c ?d ?H) \<noteq> hash_bytes ?m ?d ?e (hash_words ?m ?c ?d ?H)"
    by (subst 2) (use cd x in auto)
  moreover have "hash_bytes ?m p ?a H = hash_bytes m p ?a H" for H
    by (rule bytes.loop_cong [OF one_dvd]) (use x in auto)
  moreover have "hash_words m l ?c H = H" if "p \<le> l" for l H m
    using that x by (intro words.loop_done) linarith
  ultimately show ?thesis
    using b cd by (simp add: portable_hash_def Let_def blocks.loop_done avalanche_inj max_absorb2 bytes.loop_differ)
qed

section \<open>Properties\<close>

text \<open>
  C17: The assembly loop of the ARM build computes the same hash as the portable loop, for every memory,
  seed and region, and both always return.
\<close>

theorem hash_memory_arm_equals_portable:
  "hash_memory True m seed_ptr p sz = hash_memory False m seed_ptr p sz \<and> hash_memory True m seed_ptr p sz \<noteq> None"
  by (simp add: hash_memory_eq)

text \<open>
  C19: No change of a single byte goes unnoticed: in a region that contains a boundary of 32-byte blocks,
  overwriting any byte with another value, which leaves the seed as it is, changes the hash, wherever the byte lies.
\<close>

theorem hash_memory_detects_byte:
  assumes "spans p sz" "p \<le> x" "x < p + unat sz" "v \<noteq> m x"
    and "\<forall>a. seed_ptr = Some a \<longrightarrow> load32 (m(x := v)) a = load32 m a"
  shows "hash_memory arm (m(x := v)) seed_ptr p sz \<noteq> hash_memory arm m seed_ptr p sz"
proof -
  have "(case seed_ptr of Some a \<Rightarrow> load32 (m(x := v)) a | None \<Rightarrow> 0) = (case seed_ptr of Some a \<Rightarrow> load32 m a | None \<Rightarrow> 0)"
    using assms(5) by (cases seed_ptr) auto
  with portable_hash_change [OF assms(1-3), of v m] assms(4) show ?thesis by (simp add: hash_memory_eq) metis
qed

theorem hash_memory_detects_byte_witness:
  "hash_memory True ((\<lambda>_. 0)(0x1005 := 1)) None 0x1001 100 \<noteq> hash_memory True (\<lambda>_. 0) None 0x1001 100"
  by (rule hash_memory_detects_byte) (simp_all add: spans_def align_up_def align_down_def)

text \<open>
  A region that lies between two block boundaries is hashed from the boundary before it: bytes that
  are not part of the region change its hash.
\<close>

theorem hash_memory_reads_outside:
  assumes "\<not> spans p sz" "align_down 32 (p + unat sz) \<le> x" "x < p" "v \<noteq> m x"
  shows "hash_memory arm (m(x := v)) None p sz \<noteq> hash_memory arm m None p sz"
  using portable_hash_outside [OF assms(1-3), of v m 0] assms(4) by (simp add: hash_memory_eq)

end
