(* ===== verification/Integ.thy ===== *)
theory Integ
  imports Integ_Hash
begin

text \<open>
  The integrity checker, \<^verbatim>\<open>bcm2835/240-integ/2-integ.c\<close>: the check that the regions cover memory, the
  preparation of the regions before a payload runs and the check after it. The header is a record of its
  own beside the memory that it describes; console output is not modelled. \<open>None\<close> is a panic, or an access
  past the end of the array of regions.
\<close>

section \<open>Regions and headers\<close>

definition IRF_Mutable :: u32 where "IRF_Mutable = 0x1"
definition IRF_Purgable :: u32 where "IRF_Purgable = 0x2"
definition IRF_Critical :: u32 where "IRF_Critical = 0x4"
definition IRF_Stack :: u32 where "IRF_Stack = 0x8"
definition IRF_Corrupted :: u32 where "IRF_Corrupted = 0x10"
definition IRF_CorruptedSomewhere :: u32 where "IRF_CorruptedSomewhere = 0x20"
definition IHF_ExpectStackCleanup :: u32 where "IHF_ExpectStackCleanup = 0x1"

record IntegRegion =
  reg_p :: u32
  reg_size :: u32
  reg_flags :: u32
  reg_cksum :: u32

record IntegHeader =
  hdr_seed :: u32
  hdr_flags :: u32
  stack_sp :: u32
  region_count :: nat
  region_cap :: nat
  regions :: "IntegRegion list"

datatype integ_status = IS_Clean | IS_AbCon | IS_AbEnd

definition has :: "IntegRegion \<Rightarrow> u32 \<Rightarrow> bool" where
  "has r flag \<longleftrightarrow> reg_flags r AND flag \<noteq> 0"

definition region_range :: "IntegRegion \<Rightarrow> u32 \<times> u32" where
  "region_range r = (reg_p r, reg_p r + reg_size r)"

definition range_overlap :: "u32 \<times> u32 \<Rightarrow> u32 \<times> u32 \<Rightarrow> bool" where
  "range_overlap lhs rhs \<longleftrightarrow> fst lhs < snd rhs \<and> fst rhs < snd lhs"

definition range_contains :: "u32 \<times> u32 \<Rightarrow> u32 \<Rightarrow> bool" where
  "range_contains reg addr \<longleftrightarrow> fst reg \<le> addr \<and> addr < snd reg"

section \<open>Coverage\<close>

text \<open>
  The regions begin 40 bytes after the header and have 16 bytes each. Sorting: the number of the smallest
  of the regions from \<open>i\<close> on, zero when it is \<open>i\<close> itself. The exchange is not with that region but with the
  one after the last, since the loop variable has run to its end.
\<close>

definition header_end :: "u32 \<Rightarrow> IntegHeader \<Rightarrow> u32" where
  "header_end ihdr h = ihdr + 40 + of_nat (16 * region_cap h)"

definition least_region :: "IntegRegion list \<Rightarrow> nat \<Rightarrow> nat \<Rightarrow> nat" where
  "least_region rs cnt i =
     snd (fold (\<lambda>j (p, k). if reg_p (rs ! j) < p then (reg_p (rs ! j), j) else (p, k)) [i + 1..<cnt] (reg_p (rs ! i), 0))"

definition region_swap :: "nat \<Rightarrow> nat \<Rightarrow> IntegRegion list \<Rightarrow> IntegRegion list option" where
  "region_swap i j rs = (if i < length rs \<and> j < length rs then Some (rs[i := rs ! j, j := rs ! i]) else None)"

fun sort_regions :: "nat \<Rightarrow> nat list \<Rightarrow> IntegRegion list \<Rightarrow> IntegRegion list option" where
  "sort_regions cnt [] rs = Some rs"
| "sort_regions cnt (i # is) rs =
     (if least_region rs cnt i \<noteq> 0 then
        (case region_swap i cnt rs of None \<Rightarrow> None | Some rs \<Rightarrow> sort_regions cnt is rs)
      else sort_regions cnt is rs)"

text \<open>The walk over the sorted regions; \<open>None\<close> is an overlap or a gap, otherwise the end of the last one.\<close>

fun walk_regions :: "u32 \<times> u32 \<Rightarrow> u32 \<Rightarrow> IntegRegion list \<Rightarrow> u32 \<Rightarrow> u32 option" where
  "walk_regions hdr dram_start [] q = Some q"
| "walk_regions hdr dram_start (r # rs) q =
     (let p = reg_p r
      in if p < q \<and> q \<noteq> dram_start then None
         else if q < p \<and> \<not> (q = fst hdr \<and> p = snd hdr) then None
         else if reg_size r = 0 then walk_regions hdr dram_start rs q
         else walk_regions hdr dram_start rs (p + reg_size r))"

definition integ_check_coverage :: "u32 \<Rightarrow> IntegHeader \<Rightarrow> u32 \<Rightarrow> u32 \<Rightarrow> (bool \<times> IntegHeader) option" where
  "integ_check_coverage ihdr h dram_start dram_end =
     (let hdr = (ihdr, header_end ihdr h); cnt = region_count h
      in if \<exists>r \<in> set (take cnt (regions h)). range_overlap (region_range r) hdr then Some (False, h)
         else case sort_regions cnt [0..<cnt] (regions h) of
           None \<Rightarrow> None
         | Some rs \<Rightarrow>
             let h = h\<lparr>regions := rs\<rparr>
             in case walk_regions hdr dram_start (take cnt rs) dram_start of
                  None \<Rightarrow> Some (False, h)
                | Some q \<Rightarrow> Some (q = dram_end, h))"

section \<open>Before the payload\<close>

definition hdr_hash :: "mem \<Rightarrow> IntegHeader \<Rightarrow> u32 \<Rightarrow> u32 \<Rightarrow> u32 option" where
  "hdr_hash m h p sz =
     hash_memory True m (if hdr_seed h = 0 then None else Some (unat (hdr_seed h))) (unat p) sz"

definition memset0 :: "u32 \<Rightarrow> u32 \<Rightarrow> mem \<Rightarrow> mem" where
  "memset0 p sz m = mem_write (unat p) (replicate (unat sz) 0) m"

definition prep_region :: "IntegHeader \<Rightarrow> IntegRegion \<Rightarrow> mem \<Rightarrow> (IntegRegion \<times> mem) option" where
  "prep_region h r m =
     (let p = reg_p r; sz = reg_size r; sp = stack_sp h
      in if has r (IRF_Corrupted OR IRF_CorruptedSomewhere) then None
         else
           let r = r\<lparr>reg_cksum := 0\<rparr>
           in if has r IRF_Mutable then Some (r, m)
              else if has r IRF_Purgable then Some (r, memset0 p sz m)
              else if has r IRF_Stack \<and> range_contains (region_range r) sp then
                (case hdr_hash m h sp (p + sz - sp) of
                   None \<Rightarrow> None
                 | Some H \<Rightarrow> Some (r\<lparr>reg_cksum := H\<rparr>,
                     if hdr_flags h AND IHF_ExpectStackCleanup \<noteq> 0 then memset0 p (sp - p) m else m))
              else if has r IRF_Stack \<and> snd (region_range r) \<le> sp then None
              else
                (case hdr_hash m h p sz of
                   None \<Rightarrow> None
                 | Some H \<Rightarrow> Some (r\<lparr>reg_cksum := H\<rparr>, m)))"

fun prep_regions :: "IntegHeader \<Rightarrow> IntegRegion list \<Rightarrow> mem \<Rightarrow> (IntegRegion list \<times> mem) option" where
  "prep_regions h [] m = Some ([], m)"
| "prep_regions h (r # rs) m =
     (case prep_region h r m of None \<Rightarrow> None
      | Some (r, m) \<Rightarrow>
          (case prep_regions h rs m of None \<Rightarrow> None
           | Some (rs, m) \<Rightarrow> Some (r # rs, m)))"

definition integ_prep :: "IntegHeader \<Rightarrow> mem \<Rightarrow> (IntegHeader \<times> mem) option" where
  "integ_prep h m =
     (case prep_regions h (take (region_count h) (regions h)) m of None \<Rightarrow> None
      | Some (rs, m) \<Rightarrow> Some (h\<lparr>regions := rs @ drop (region_count h) (regions h)\<rparr>, m))"

section \<open>After the payload\<close>

function check_purgable :: "mem \<Rightarrow> nat \<Rightarrow> nat \<Rightarrow> bool" where
  "check_purgable m p sz = (if sz = 0 then True else if m p \<noteq> 0 then False else check_purgable m (p + 1) (sz - 1))"
  by pat_completeness auto
termination
  by (relation "measure (\<lambda>(m, p, sz). sz)") auto

declare check_purgable.simps [simp del]

text \<open>Marking a region, and the status that goes with it.\<close>

definition mark :: "u32 \<Rightarrow> IntegRegion \<Rightarrow> integ_status \<times> IntegRegion" where
  "mark flag r =
     (let r = r\<lparr>reg_flags := reg_flags r OR flag\<rparr> in (if has r IRF_Critical then IS_AbEnd else IS_AbCon, r))"

definition chk_region :: "IntegHeader \<Rightarrow> mem \<Rightarrow> integ_status \<times> IntegRegion \<Rightarrow> (integ_status \<times> IntegRegion) option" where
  "chk_region h m sr =
     (let (st, r) = sr; p = reg_p r; sz = reg_size r; sp = stack_sp h
      in if has r IRF_Mutable then Some (st, r)
         else if has r IRF_Purgable then
           Some (if \<not> check_purgable m (unat p) (unat sz) then mark IRF_Corrupted r else (st, r))
         else if has r IRF_Stack \<and> range_contains (region_range r) sp then
           (case hdr_hash m h sp (p + sz - sp) of
              None \<Rightarrow> None
            | Some H \<Rightarrow>
                let (st, r) = (if H \<noteq> reg_cksum r then mark IRF_CorruptedSomewhere r else (st, r))
                in Some (if hdr_flags h AND IHF_ExpectStackCleanup \<noteq> 0 \<and> \<not> check_purgable m (unat p) (unat (sp - p))
                         then mark IRF_Corrupted r else (st, r)))
         else if has r IRF_Stack \<and> snd (region_range r) \<le> sp then None
         else
           (case hdr_hash m h p sz of
              None \<Rightarrow> None
            | Some H \<Rightarrow> Some (if H \<noteq> reg_cksum r then mark IRF_CorruptedSomewhere r else (st, r))))"

fun chk_regions :: "IntegHeader \<Rightarrow> mem \<Rightarrow> integ_status \<Rightarrow> IntegRegion list \<Rightarrow> (integ_status \<times> IntegRegion list) option" where
  "chk_regions h m st [] = Some (st, [])"
| "chk_regions h m st (r # rs) =
     (case chk_region h m (st, r) of None \<Rightarrow> None
      | Some (st, r) \<Rightarrow>
          (case chk_regions h m st rs of None \<Rightarrow> None
           | Some (st, rs) \<Rightarrow> Some (st, r # rs)))"

text \<open>With a failed precheck the machine is reset, which is \<open>None\<close>.\<close>

definition integ_chk :: "u32 \<Rightarrow> IntegHeader \<Rightarrow> mem \<Rightarrow> (integ_status \<times> IntegHeader) option" where
  "integ_chk prechk h m =
     (if prechk \<noteq> 0 then None
      else case chk_regions h m IS_Clean (take (region_count h) (regions h)) of
        None \<Rightarrow> None
      | Some (st, rs) \<Rightarrow> Some (st, h\<lparr>regions := rs @ drop (region_count h) (regions h)\<rparr>))"

section \<open>Coverage is sound\<close>

lemma least_region_sorted:
  assumes "sorted (map reg_p (take cnt rs))" "cnt \<le> length rs" "i < cnt"
  shows "least_region rs cnt i = 0"
proof -
  have "\<not> reg_p (rs ! j) < reg_p (rs ! i)" if "i < j" "j < cnt" for j
    using sorted_nth_mono [OF assms(1), of i j] that assms by (simp add: not_less)
  then have "fold (\<lambda>j (p, k). if reg_p (rs ! j) < p then (reg_p (rs ! j), j) else (p, k)) js (reg_p (rs ! i), 0) =
      (reg_p (rs ! i), 0)" if "set js \<subseteq> {i<..<cnt}" for js
    using that by (induction js) auto
  then have "fold (\<lambda>j (p, k). if reg_p (rs ! j) < p then (reg_p (rs ! j), j) else (p, k)) [i + 1..<cnt] (reg_p (rs ! i), 0) =
      (reg_p (rs ! i), 0)"
    by (simp add: subset_eq)
  then show ?thesis by (simp add: least_region_def)
qed

lemma sort_regions_sorted:
  assumes "sorted (map reg_p (take cnt rs))" "cnt \<le> length rs" "set is \<subseteq> {..<cnt}"
  shows "sort_regions cnt is rs = Some rs"
  using assms(3) by (induction "is") (auto simp: least_region_sorted [OF assms(1,2)])

definition placed :: "IntegRegion \<Rightarrow> bool" where
  "placed r \<longleftrightarrow> unat (reg_p r) + unat (reg_size r) < 2 ^ 32"

lemma unat_end: "placed r \<Longrightarrow> unat (reg_p r + reg_size r) = unat (reg_p r) + unat (reg_size r)"
  by (simp add: placed_def unat_add_lem [THEN iffD1])

lemma walk_covers:
  assumes "walk_regions hdr ds rs q = Some e" "ds \<le> q" "\<forall>r \<in> set rs. ds \<le> reg_p r \<and> placed r"
  shows "q \<le> e \<and> (\<forall>x. let n = length (filter (\<lambda>r. range_contains (region_range r) x) rs)
           in (x < q \<longrightarrow> n = 0) \<and> n \<le> 1 \<and> (q \<le> x \<longrightarrow> x < e \<longrightarrow> \<not> range_contains hdr x \<longrightarrow> n = 1))"
  using assms
proof (induction rs arbitrary: q)
  case Nil
  then show ?case by (auto simp: Let_def)
next
  case (Cons r rs)
  let ?p = "reg_p r" and ?n = "reg_size r"
  from Cons.prems have pl: "ds \<le> ?p" "placed r" by auto
  have qp: "q \<le> ?p" using Cons.prems(1) pl by (auto simp: Let_def split: if_splits)
  have gap: "q = ?p \<or> q = fst hdr \<and> ?p = snd hdr"
    using Cons.prems(1) qp by (auto simp: Let_def split: if_splits)
  let ?q = "if ?n = 0 then q else ?p + ?n"
  have w: "walk_regions hdr ds rs ?q = Some e" using Cons.prems(1) by (auto simp: Let_def split: if_splits)
  have bnd: "?p \<le> ?p + ?n" "?n \<noteq> 0 \<Longrightarrow> ?p < ?p + ?n"
    using unat_end [OF pl(2)] by (auto simp: word_le_nat_alt word_less_nat_alt unat_gt_0)
  have "ds \<le> ?q" using bnd pl Cons.prems(2) by auto
  moreover have "\<forall>r \<in> set rs. ds \<le> reg_p r \<and> placed r" using Cons.prems(3) by simp
  ultimately have IH: "?q \<le> e \<and> (\<forall>x. let n = length (filter (\<lambda>r. range_contains (region_range r) x) rs)
      in (x < ?q \<longrightarrow> n = 0) \<and> n \<le> 1 \<and> (?q \<le> x \<longrightarrow> x < e \<longrightarrow> \<not> range_contains hdr x \<longrightarrow> n = 1))"
    by (rule Cons.IH [OF w])
  have "q \<le> e" using IH qp bnd by (auto split: if_splits)
  moreover have "let n = length (filter (\<lambda>r. range_contains (region_range r) x) (r # rs))
      in (x < q \<longrightarrow> n = 0) \<and> n \<le> 1 \<and> (q \<le> x \<longrightarrow> x < e \<longrightarrow> \<not> range_contains hdr x \<longrightarrow> n = 1)" for x
  proof (cases "range_contains (region_range r) x")
    case True
    then have x: "?p \<le> x" "x < ?p + ?n" by (simp_all add: range_contains_def region_range_def)
    then have "?q = ?p + ?n" by auto
    with x IH have "filter (\<lambda>r. range_contains (region_range r) x) rs = []" by (simp add: Let_def)
    with True x qp show ?thesis by (auto simp: Let_def)
  next
    case False
    then have x: "x < ?p \<or> ?p + ?n \<le> x" by (auto simp: range_contains_def region_range_def not_less)
    have "?q \<le> x \<or> ?n \<noteq> 0 \<and> x < ?p" if "q \<le> x" using that x bnd by auto
    moreover have "range_contains hdr x" if "q \<le> x" "x < ?p" using gap that by (auto simp: range_contains_def)
    moreover have "x < q \<Longrightarrow> x < ?q" using bnd qp by auto
    ultimately show ?thesis using IH False by (auto simp: Let_def)
  qed
  ultimately show ?case by blast
qed

lemma integ_check_coverage_sorted:
  assumes "sorted (map reg_p (take (region_count h) (regions h)))" "region_count h \<le> length (regions h)"
  shows "integ_check_coverage ihdr h ds de =
    (let hdr = (ihdr, header_end ihdr h); rs = take (region_count h) (regions h)
     in Some (\<not> (\<exists>r \<in> set rs. range_overlap (region_range r) hdr) \<and> walk_regions hdr ds rs ds = Some de, h))"
  using sort_regions_sorted [OF assms, of "[0..<region_count h]"]
  by (auto simp: integ_check_coverage_def Let_def atLeast0LessThan split: option.splits)

text \<open>
  Regions that are not sorted: the exchange brings in the unused entry behind the last, and the region that
  should have moved is lost from the ones in use. Without such an entry it is past the end of the array.
\<close>

lemma sort_loses_region:
  "reg_p a < reg_p b \<Longrightarrow> sort_regions 2 [0..<2] [b, a, unused] = Some [unused, a, b]"
  "reg_p a < reg_p b \<Longrightarrow> sort_regions 2 [0..<2] [b, a] = None"
  by (simp_all add: upt_rec numeral_2_eq_2 least_region_def region_swap_def)

section \<open>One region\<close>

text \<open>
  The bytes of a region that are hashed, those that are cleared, the panic for a stack region below the
  stack pointer, and what the check after the payload looks at.
\<close>

definition in_stack :: "IntegHeader \<Rightarrow> IntegRegion \<Rightarrow> bool" where
  "in_stack h r \<longleftrightarrow> has r IRF_Stack \<and> range_contains (region_range r) (stack_sp h)"

definition hashed :: "IntegHeader \<Rightarrow> IntegRegion \<Rightarrow> (u32 \<times> u32) option" where
  "hashed h r =
     (if has r IRF_Mutable \<or> has r IRF_Purgable then None
      else if in_stack h r then Some (stack_sp h, reg_p r + reg_size r - stack_sp h)
      else Some (reg_p r, reg_size r))"

definition cleared :: "IntegHeader \<Rightarrow> IntegRegion \<Rightarrow> u32" where
  "cleared h r =
     (if has r IRF_Mutable then 0
      else if has r IRF_Purgable then reg_size r
      else if in_stack h r \<and> hdr_flags h AND IHF_ExpectStackCleanup \<noteq> 0 then stack_sp h - reg_p r
      else 0)"

definition bad_stack :: "IntegHeader \<Rightarrow> IntegRegion \<Rightarrow> bool" where
  "bad_stack h r \<longleftrightarrow> hashed h r \<noteq> None \<and> \<not> in_stack h r \<and> has r IRF_Stack \<and> snd (region_range r) \<le> stack_sp h"

definition seed_of :: "IntegHeader \<Rightarrow> mem \<Rightarrow> u32" where
  "seed_of h m = (if hdr_seed h = 0 then 0 else load32 m (unat (hdr_seed h)))"

definition area_hash :: "IntegHeader \<Rightarrow> mem \<Rightarrow> u32 \<times> u32 \<Rightarrow> u32" where
  "area_hash h m = (\<lambda>(a, n). portable_hash m (seed_of h m) (unat a) n)"

definition damaged :: "IntegRegion \<Rightarrow> bool" where
  "damaged r \<longleftrightarrow> has r (IRF_Corrupted OR IRF_CorruptedSomewhere)"

definition fails :: "IntegHeader \<Rightarrow> mem \<Rightarrow> IntegRegion \<Rightarrow> bool" where
  "fails h m r \<longleftrightarrow>
     (case hashed h r of None \<Rightarrow> False | Some an \<Rightarrow> area_hash h m an \<noteq> reg_cksum r) \<or>
     \<not> check_purgable m (unat (reg_p r)) (unat (cleared h r))"

lemma hdr_hash_eq: "hdr_hash m h a n = Some (area_hash h m (a, n))"
  by (simp add: hdr_hash_def hash_memory_eq area_hash_def seed_of_def)

lemma has_cksum [simp]: "has (r\<lparr>reg_cksum := c\<rparr>) f = has r f"
  by (simp add: has_def)

lemma areas_cksum [simp]:
  "in_stack h (r\<lparr>reg_cksum := c\<rparr>) = in_stack h r" "hashed h (r\<lparr>reg_cksum := c\<rparr>) = hashed h r"
  "cleared h (r\<lparr>reg_cksum := c\<rparr>) = cleared h r" "bad_stack h (r\<lparr>reg_cksum := c\<rparr>) = bad_stack h r"
  "region_range (r\<lparr>reg_cksum := c\<rparr>) = region_range r" "damaged (r\<lparr>reg_cksum := c\<rparr>) = damaged r"
  by (simp_all add: in_stack_def hashed_def cleared_def bad_stack_def region_range_def damaged_def)

lemma memset0_none [simp]: "memset0 p 0 m = m"
  by (simp add: memset0_def)

lemma check_purgable_0 [simp]: "check_purgable m p 0"
  by (simp add: check_purgable.simps)

lemma prep_region_eq:
  "prep_region h r m =
    (if damaged r \<or> bad_stack h r then None
     else Some (r\<lparr>reg_cksum := (case hashed h r of None \<Rightarrow> 0 | Some an \<Rightarrow> area_hash h m an)\<rparr>,
       memset0 (reg_p r) (cleared h r) m))"
proof -
  have "range_contains (region_range r) (stack_sp h) \<Longrightarrow> \<not> snd (region_range r) \<le> stack_sp h"
    by (simp add: range_contains_def not_le)
  then show ?thesis
    by (auto simp: prep_region_def Let_def damaged_def bad_stack_def hashed_def cleared_def in_stack_def hdr_hash_eq)
qed

lemma has_or: "has (r\<lparr>reg_flags := reg_flags r OR g\<rparr>) f \<longleftrightarrow> has r f \<or> g AND f \<noteq> 0"
proof -
  have "(a OR g) AND f = 0 \<longleftrightarrow> a AND f = 0 \<and> g AND f = 0" for a :: u32
    by (simp add: bit.conj_disj_distrib2 or_eq_0_iff)
  then show ?thesis by (auto simp: has_def)
qed

lemmas flag_defs = IRF_Mutable_def IRF_Purgable_def IRF_Critical_def IRF_Stack_def IRF_Corrupted_def
  IRF_CorruptedSomewhere_def IHF_ExpectStackCleanup_def

text \<open>Marking a region does not change what is looked at.\<close>

definition marked :: "u32 \<Rightarrow> IntegRegion \<Rightarrow> IntegRegion" where
  "marked g r = r\<lparr>reg_flags := reg_flags r OR g\<rparr>"

lemma has_marked [simp]:
  "has (marked IRF_Corrupted r) IRF_Critical = has r IRF_Critical"
  "has (marked IRF_CorruptedSomewhere r) IRF_Critical = has r IRF_Critical"
  "damaged (marked IRF_Corrupted r)" "damaged (marked IRF_CorruptedSomewhere r)"
  by (simp_all add: marked_def has_or damaged_def flag_defs)

lemma mark_eq:
  "mark IRF_Corrupted r = (if has r IRF_Critical then IS_AbEnd else IS_AbCon, marked IRF_Corrupted r)"
  "mark IRF_CorruptedSomewhere r = (if has r IRF_Critical then IS_AbEnd else IS_AbCon, marked IRF_CorruptedSomewhere r)"
  by (simp_all add: mark_def Let_def marked_def [symmetric])

lemma marked_simps [simp]:
  "reg_p (marked g r) = reg_p r" "reg_size (marked g r) = reg_size r" "reg_cksum (marked g r) = reg_cksum r"
  by (simp_all add: marked_def)

lemma chk_region_eq:
  "chk_region h m (st, r) =
    (if bad_stack h r then None
     else Some (if fails h m r then (if has r IRF_Critical then IS_AbEnd else IS_AbCon) else st,
       (let r1 = (if (case hashed h r of None \<Rightarrow> False | Some an \<Rightarrow> area_hash h m an \<noteq> reg_cksum r)
                  then marked IRF_CorruptedSomewhere r else r)
        in if check_purgable m (unat (reg_p r)) (unat (cleared h r)) then r1 else marked IRF_Corrupted r1)))"
proof -
  have "range_contains (region_range r) (stack_sp h) \<Longrightarrow> \<not> snd (region_range r) \<le> stack_sp h"
    by (simp add: range_contains_def not_le)
  then show ?thesis
    by (auto simp: chk_region_def Let_def bad_stack_def hashed_def cleared_def in_stack_def hdr_hash_eq fails_def mark_eq)
qed

section \<open>All regions\<close>

definition class_of :: "IntegRegion \<Rightarrow> integ_status" where
  "class_of r = (if has r IRF_Critical then IS_AbEnd else IS_AbCon)"

lemma chk_regions_damage:
  assumes "chk_regions h m st rs = Some (st', rs')" "\<forall>r \<in> set rs. \<not> damaged r"
  shows "st' = (let bad = filter damaged rs' in if bad = [] then st else class_of (last bad))"
  using assms
proof (induction rs arbitrary: st st' rs')
  case Nil
  then show ?case by simp
next
  case (Cons r rs)
  from Cons.prems(1) obtain st1 r1 rs1 where *: "chk_region h m (st, r) = Some (st1, r1)"
    "chk_regions h m st1 rs = Some (st', rs1)" "rs' = r1 # rs1"
    by (auto split: option.splits prod.splits)
  have "\<not> damaged r" using Cons.prems(2) by simp
  with *(1) have "(damaged r1 \<longleftrightarrow> fails h m r) \<and> class_of r1 = class_of r \<and> st1 = (if fails h m r then class_of r else st)"
    by (auto simp: chk_region_eq fails_def class_of_def Let_def split: if_splits)
  then show ?case
    using Cons.IH [OF *(2)] Cons.prems(2) by (auto simp: *(3) Let_def)
qed

lemma chk_regions_total:
  "\<forall>r \<in> set rs. \<not> bad_stack h r \<Longrightarrow> \<exists>st' rs'. chk_regions h m st rs = Some (st', rs')"
proof (induction rs arbitrary: st)
  case Nil
  then show ?case by simp
next
  case (Cons r rs)
  then obtain st1 r1 where "chk_region h m (st, r) = Some (st1, r1)" by (simp add: chk_region_eq)
  moreover obtain st' rs' where "chk_regions h m st1 rs = Some (st', rs')" using Cons by force
  ultimately show ?case by simp
qed

lemma chk_regions_clean:
  "chk_regions h m st rs = Some (st', rs') \<Longrightarrow>
    (\<forall>r \<in> set rs. \<not> fails h m r) \<and> st' = st \<and> rs' = rs \<or> (\<exists>r \<in> set rs. fails h m r) \<and> st' \<noteq> IS_Clean"
proof (induction rs arbitrary: st st' rs')
  case Nil
  then show ?case by simp
next
  case (Cons r rs)
  from Cons.prems obtain st1 r1 rs1 where *: "chk_region h m (st, r) = Some (st1, r1)"
    "chk_regions h m st1 rs = Some (st', rs1)" "rs' = r1 # rs1"
    by (auto split: option.splits prod.splits)
  from *(1) have "if fails h m r then st1 \<noteq> IS_Clean else st1 = st \<and> r1 = r"
    by (auto simp: chk_region_eq fails_def Let_def split: if_splits)
  with Cons.IH [OF *(2)] show ?case by (auto simp: *(3) split: if_splits)
qed

lemma chk_regions_length: "chk_regions h m st rs = Some (st', rs') \<Longrightarrow> length rs' = length rs"
  by (induction rs arbitrary: st rs') (auto split: option.splits prod.splits)

section \<open>Preparing and checking\<close>

text \<open>Where the regions are apart, and the seed is not in what is cleared; and where a hash reads its own area only.\<close>

definition region_end :: "IntegRegion \<Rightarrow> nat" where
  "region_end r = unat (reg_p r) + unat (reg_size r)"

definition apart :: "IntegRegion \<Rightarrow> IntegRegion \<Rightarrow> bool" where
  "apart r s \<longleftrightarrow> region_end r \<le> unat (reg_p s) \<or> region_end s \<le> unat (reg_p r)"

definition seed_kept :: "IntegHeader \<Rightarrow> IntegRegion \<Rightarrow> bool" where
  "seed_kept h r \<longleftrightarrow> hdr_seed h = 0 \<or> unat (hdr_seed h) + 4 \<le> unat (reg_p r) \<or>
     unat (reg_p r) + unat (cleared h r) \<le> unat (hdr_seed h)"

definition hash_fits :: "IntegHeader \<Rightarrow> IntegRegion \<Rightarrow> bool" where
  "hash_fits h r \<longleftrightarrow> (case hashed h r of None \<Rightarrow> True | Some (a, n) \<Rightarrow> spans (unat a) n)"

definition well_placed :: "IntegHeader \<Rightarrow> bool" where
  "well_placed h \<longleftrightarrow>
     (let rs = take (region_count h) (regions h)
      in sorted_wrt apart rs \<and> (\<forall>r \<in> set rs. placed r \<and> seed_kept h r))"

text \<open>The part of the header that is in use.\<close>

abbreviation used_regions :: "IntegHeader \<Rightarrow> IntegRegion list" where
  "used_regions h \<equiv> take (region_count h) (regions h)"

lemma in_stack_bounds:
  assumes "in_stack h r" "placed r"
  shows "unat (reg_p r) \<le> unat (stack_sp h)" "unat (stack_sp h) < region_end r"
    "unat (reg_p r + reg_size r - stack_sp h) = region_end r - unat (stack_sp h)"
    "unat (stack_sp h - reg_p r) = unat (stack_sp h) - unat (reg_p r)"
proof -
  show 1: "unat (reg_p r) \<le> unat (stack_sp h)" "unat (stack_sp h) < region_end r"
    using assms unat_end [OF assms(2)]
    by (auto simp: in_stack_def range_contains_def region_range_def region_end_def word_le_nat_alt word_less_nat_alt)
  then show "unat (reg_p r + reg_size r - stack_sp h) = region_end r - unat (stack_sp h)"
    using unat_end [OF assms(2)] by (simp add: region_end_def unat_sub word_le_nat_alt)
  show "unat (stack_sp h - reg_p r) = unat (stack_sp h) - unat (reg_p r)"
    using 1 by (simp add: unat_sub word_le_nat_alt)
qed

text \<open>The hashed and the cleared bytes of a region lie in it, apart from each other.\<close>

lemma areas_in_region:
  assumes "placed r"
  shows "unat (reg_p r) + unat (cleared h r) \<le> region_end r"
    and "hashed h r = Some (a, n) \<Longrightarrow> unat (reg_p r) + unat (cleared h r) \<le> unat a \<and> unat a + unat n = region_end r"
  by (cases "in_stack h r", use in_stack_bounds [of h r, OF _ assms] in
    \<open>auto simp: cleared_def hashed_def region_end_def split: if_splits\<close>)+

lemma memset0_outside: "x < unat p \<or> unat p + unat n \<le> x \<Longrightarrow> memset0 p n m x = m x"
  by (simp add: memset0_def mem_write_outside)

lemma memset0_inside: "unat p \<le> x \<Longrightarrow> x < unat p + unat n \<Longrightarrow> memset0 p n m x = 0"
  by (simp add: memset0_def mem_write_def)

lemma check_purgable_eq: "check_purgable m p n \<longleftrightarrow> (\<forall>x \<in> {p..<p + n}. m x = 0)"
proof (induction m p n rule: check_purgable.induct)
  case (1 m p n)
  have "{p..<p + n} = insert p {p + 1..<p + 1 + (n - 1)}" if "n \<noteq> 0" using that by auto
  with 1 show ?case by (subst check_purgable.simps) auto
qed

lemma seed_of_cong:
  "hdr_seed h = 0 \<or> (\<forall>x \<in> {unat (hdr_seed h)..<unat (hdr_seed h) + 4}. m x = m' x) \<Longrightarrow> seed_of h m = seed_of h m'"
  by (auto simp: seed_of_def intro!: load32_cong)

lemma area_hash_cong:
  assumes "spans (unat a) n" "seed_of h m = seed_of h m'" "\<And>x. unat a \<le> x \<Longrightarrow> x < unat a + unat n \<Longrightarrow> m x = m' x"
  shows "area_hash h m (a, n) = area_hash h m' (a, n)"
  using portable_hash_cong [OF assms(1,3)] assms(2) by (simp add: area_hash_def)

definition kept :: "IntegHeader \<Rightarrow> mem \<Rightarrow> IntegRegion \<Rightarrow> IntegRegion" where
  "kept h m r = r\<lparr>reg_cksum := (case hashed h r of None \<Rightarrow> 0 | Some an \<Rightarrow> area_hash h m an)\<rparr>"

definition in_cleared :: "IntegHeader \<Rightarrow> nat \<Rightarrow> IntegRegion \<Rightarrow> bool" where
  "in_cleared h x r \<longleftrightarrow> unat (reg_p r) \<le> x \<and> x < unat (reg_p r) + unat (cleared h r)"

text \<open>The checksums can be taken in the memory at the end: clearing another region does not change them.\<close>

lemma kept_cong:
  assumes ok: "placed r" "hash_fits h r" and sd: "seed_of h m = seed_of h m'"
    and same: "\<And>x. unat (reg_p r) + unat (cleared h r) \<le> x \<Longrightarrow> x < region_end r \<Longrightarrow> m x = m' x"
  shows "kept h m r = kept h m' r"
proof (cases "hashed h r")
  case None
  then show ?thesis by (simp add: kept_def)
next
  case (Some an)
  obtain a n where an: "an = (a, n)" by (cases an)
  have "area_hash h m (a, n) = area_hash h m' (a, n)"
    using ok(2) Some an areas_in_region(2) [OF ok(1), of h a n] by (intro area_hash_cong sd same) (auto simp: hash_fits_def)
  then show ?thesis by (simp add: kept_def Some an)
qed

lemma prep_regions_ok:
  assumes "prep_regions h rs m = Some (rs', m')" "sorted_wrt apart rs"
    "\<forall>r \<in> set rs. placed r \<and> seed_kept h r \<and> hash_fits h r"
  shows "rs' = map (kept h m') rs \<and> seed_of h m' = seed_of h m \<and> (\<forall>r \<in> set rs. \<not> damaged r \<and> \<not> bad_stack h r) \<and>
    (\<forall>x. m' x = (if \<exists>r \<in> set rs. in_cleared h x r then 0 else m x))"
  using assms
proof (induction rs arbitrary: m rs')
  case Nil
  then show ?case by simp
next
  case (Cons r rs)
  let ?m = "memset0 (reg_p r) (cleared h r) m"
  from Cons.prems(1) obtain rs1 where *: "\<not> damaged r" "\<not> bad_stack h r" "prep_regions h rs ?m = Some (rs1, m')"
    "rs' = kept h m r # rs1"
    by (auto simp: prep_region_eq kept_def split: option.splits prod.splits if_splits)
  from Cons.prems(3) have pl: "placed r" "seed_kept h r" "hash_fits h r" by auto
  have IH: "rs1 = map (kept h m') rs" "seed_of h m' = seed_of h ?m" "\<forall>r \<in> set rs. \<not> damaged r \<and> \<not> bad_stack h r"
    "\<And>x. m' x = (if \<exists>r \<in> set rs. in_cleared h x r then 0 else ?m x)"
    using Cons.IH [OF *(3)] Cons.prems(2,3) by auto
  have m: "?m x = (if in_cleared h x r then 0 else m x)" for x
    by (auto simp: in_cleared_def memset0_inside memset0_outside not_le not_less)
  have sd: "seed_of h ?m = seed_of h m"
    using pl(2) by (intro seed_of_cong) (auto simp: m in_cleared_def seed_kept_def)
  have "kept h m r = kept h m' r"
  proof (rule kept_cong [OF pl(1,3)])
    show "seed_of h m = seed_of h m'" by (simp add: IH(2) sd)
    fix x assume x: "unat (reg_p r) + unat (cleared h r) \<le> x" "x < region_end r"
    have "\<not> in_cleared h x s" if "s \<in> set rs" for s
      using that x Cons.prems(2,3) areas_in_region(1) [of s h] by (fastforce simp: in_cleared_def apart_def)
    with x show "m x = m' x" by (auto simp: IH(4) m in_cleared_def)
  qed
  with IH(1) *(4) have "rs' = map (kept h m') (r # rs)" by simp
  moreover have "seed_of h m' = seed_of h m" by (simp only: IH(2) sd)
  moreover have "m' x = (if \<exists>s \<in> set (r # rs). in_cleared h x s then 0 else m x)" for x by (simp add: IH(4) m)
  moreover have "\<forall>s \<in> set (r # rs). \<not> damaged s \<and> \<not> bad_stack h s" using *(1,2) IH(3) by simp
  ultimately show ?case by blast
qed

lemma header_regions [simp]:
  "hashed (h\<lparr>regions := rs\<rparr>) = hashed h" "cleared (h\<lparr>regions := rs\<rparr>) = cleared h"
  "bad_stack (h\<lparr>regions := rs\<rparr>) = bad_stack h" "area_hash (h\<lparr>regions := rs\<rparr>) = area_hash h"
  "in_stack (h\<lparr>regions := rs\<rparr>) = in_stack h" "fails (h\<lparr>regions := rs\<rparr>) = fails h"
  by (simp_all add: fun_eq_iff hashed_def cleared_def bad_stack_def area_hash_def seed_of_def in_stack_def fails_def split: prod.splits)

lemma chk_regions_header [simp]: "chk_regions (h\<lparr>regions := xs\<rparr>) m st rs = chk_regions h m st rs"
proof -
  have "chk_region (h\<lparr>regions := xs\<rparr>) = chk_region h" by (simp add: fun_eq_iff chk_region_eq cong: option.case_cong)
  then show ?thesis by (induction rs arbitrary: st) (simp_all split: option.splits)
qed

text \<open>What the check after the payload looks at.\<close>

definition watched :: "IntegHeader \<Rightarrow> nat \<Rightarrow> IntegRegion \<Rightarrow> bool" where
  "watched h x r \<longleftrightarrow> in_cleared h x r \<or> (case hashed h r of None \<Rightarrow> False | Some (a, n) \<Rightarrow> unat a \<le> x \<and> x < unat a + unat n)"

definition in_seed :: "IntegHeader \<Rightarrow> nat \<Rightarrow> bool" where
  "in_seed h x \<longleftrightarrow> hdr_seed h \<noteq> 0 \<and> unat (hdr_seed h) \<le> x \<and> x < unat (hdr_seed h) + 4"

lemma fails_kept:
  assumes ok: "placed r" "hash_fits h r" and sd: "seed_of h m2 = seed_of h m"
    and z: "\<And>x. in_cleared h x r \<Longrightarrow> m x = 0"
  shows "(\<forall>x. watched h x r \<longrightarrow> m2 x = m x) \<Longrightarrow> \<not> fails h m2 (kept h m r)"
    and "watched h x r \<Longrightarrow> v \<noteq> m x \<Longrightarrow> m2 = m(x := v) \<Longrightarrow> fails h m2 (kept h m r)"
proof -
  have f: "fails h m2 (kept h m r) \<longleftrightarrow>
      (case hashed h r of None \<Rightarrow> False | Some an \<Rightarrow> area_hash h m2 an \<noteq> area_hash h m an) \<or> (\<exists>x. in_cleared h x r \<and> m2 x \<noteq> 0)"
    by (auto simp: fails_def kept_def check_purgable_eq in_cleared_def split: option.splits)
  show "\<not> fails h m2 (kept h m r)" if "\<forall>x. watched h x r \<longrightarrow> m2 x = m x"
    using that ok(2) z by (auto simp: f watched_def hash_fits_def intro!: area_hash_cong sd split: option.splits)
  show "fails h m2 (kept h m r)" if "watched h x r" "v \<noteq> m x" "m2 = m(x := v)"
  proof (cases "in_cleared h x r")
    case True
    with z that have "m2 x \<noteq> 0" by simp
    with True show ?thesis by (auto simp: f)
  next
    case False
    with that(1) obtain a n where an: "hashed h r = Some (a, n)" "unat a \<le> x" "x < unat a + unat n"
      by (auto simp: watched_def split: option.splits)
    with ok(2) portable_hash_change [of "unat a" n x v m "seed_of h m"] sd that(2,3)
    have "area_hash h m2 (a, n) \<noteq> area_hash h m (a, n)" by (auto simp: hash_fits_def area_hash_def)
    with an show ?thesis by (simp add: f)
  qed
qed

lemma integ_prep_ok:
  assumes wp: "well_placed h" "\<forall>r \<in> set (take (region_count h) (regions h)). hash_fits h r"
    and prep: "integ_prep h m = Some (h1, m1)"
  defines "rs \<equiv> take (region_count h) (regions h)"
  obtains tail where "h1 = h\<lparr>regions := map (kept h m1) rs @ tail\<rparr>" "take (region_count h) (regions h1) = map (kept h m1) rs"
    "\<forall>r \<in> set rs. placed r \<and> hash_fits h r \<and> \<not> bad_stack h r \<and> (\<forall>x. in_cleared h x r \<longrightarrow> m1 x = 0)"
proof -
  from prep obtain rs1 where *: "prep_regions h rs m = Some (rs1, m1)"
    "h1 = h\<lparr>regions := rs1 @ drop (region_count h) (regions h)\<rparr>"
    by (auto simp: integ_prep_def rs_def split: option.splits)
  have ok: "sorted_wrt apart rs" "\<forall>r \<in> set rs. placed r \<and> seed_kept h r \<and> hash_fits h r"
    using wp by (auto simp: well_placed_def rs_def Let_def)
  note p = prep_regions_ok [OF *(1) ok]
  show ?thesis
    by (rule that) (use p * ok in \<open>auto simp: rs_def min_def\<close>)
qed

text \<open>A header for the instances below: a cleared region, a critical one and a stack.\<close>

definition sample_header :: IntegHeader where
  "sample_header = \<lparr>hdr_seed = 0x1040, hdr_flags = IHF_ExpectStackCleanup, stack_sp = 0x2080,
     region_count = 3, region_cap = 4, regions =
     [\<lparr>reg_p = 0x1000, reg_size = 64, reg_flags = IRF_Purgable, reg_cksum = 0\<rparr>,
      \<lparr>reg_p = 0x1040, reg_size = 100, reg_flags = IRF_Critical, reg_cksum = 0\<rparr>,
      \<lparr>reg_p = 0x2000, reg_size = 0x100, reg_flags = IRF_Stack, reg_cksum = 0\<rparr>]\<rparr>"

lemma sample_well_placed: "well_placed sample_header" "\<forall>r \<in> set (used_regions sample_header). hash_fits sample_header r"
  by (simp_all add: well_placed_def sample_header_def apart_def region_end_def placed_def seed_kept_def hash_fits_def
    hashed_def cleared_def in_stack_def has_def flag_defs range_contains_def region_range_def spans_def
    align_up_def align_down_def)

lemma sample_prep: "\<exists>h1 m1. integ_prep sample_header m = Some (h1, m1)"
  by (simp add: integ_prep_def sample_header_def prep_region_eq damaged_def bad_stack_def hashed_def in_stack_def has_def
    flag_defs range_contains_def region_range_def)

section \<open>Properties\<close>

text \<open>
  C20: When the check of the coverage accepts sorted regions, memory is tiled: every address from the start of
  DRAM to its end is in the header or in exactly one region, and in no two of them.
\<close>

theorem coverage_tiles_memory:
  assumes "integ_check_coverage ihdr h dram_start dram_end = Some (True, h')"
    and "sorted (map reg_p (take (region_count h) (regions h)))" "region_count h \<le> length (regions h)"
    and "\<forall>r \<in> set (take (region_count h) (regions h)). dram_start \<le> reg_p r \<and> unat (reg_p r) + unat (reg_size r) < 2 ^ 32"
    and "dram_start \<le> x" "x < dram_end"
  shows "h' = h \<and> length (filter (\<lambda>r. range_contains (region_range r) x) (take (region_count h) (regions h))) =
    (if range_contains (ihdr, header_end ihdr h) x then 0 else 1)"
proof -
  let ?rs = "take (region_count h) (regions h)" and ?hdr = "(ihdr, header_end ihdr h)"
  note * = assms(1) [unfolded integ_check_coverage_sorted [OF assms(2,3)] Let_def]
  from * have "walk_regions ?hdr dram_start ?rs dram_start = Some dram_end" by blast
  from walk_covers [OF this] assms(4-6)
  have "\<not> range_contains ?hdr x \<Longrightarrow> length (filter (\<lambda>r. range_contains (region_range r) x) ?rs) = 1"
    by (auto simp: Let_def placed_def)
  moreover have "filter (\<lambda>r. range_contains (region_range r) x) ?rs = []" if "range_contains ?hdr x"
    using * that by (fastforce simp: filter_empty_conv range_overlap_def range_contains_def)
  ultimately show ?thesis using * by auto
qed

theorem coverage_tiles_memory_witness:
  "let h = \<lparr>hdr_seed = 0, hdr_flags = 0, stack_sp = 0, region_count = 2, region_cap = 4, regions =
       [\<lparr>reg_p = 0, reg_size = 0x100, reg_flags = 0, reg_cksum = 0\<rparr>, \<lparr>reg_p = 0x168, reg_size = 0x98, reg_flags = 0, reg_cksum = 0\<rparr>]\<rparr>
   in h = h \<and> length (filter (\<lambda>r. range_contains (region_range r) 0x170) (take (region_count h) (regions h))) =
     (if range_contains (0x100, header_end 0x100 h) 0x170 then 0 else 1)"
  unfolding Let_def
  by (rule coverage_tiles_memory [where dram_start = 0 and dram_end = "0x200"])
    (simp_all add: integ_check_coverage_sorted Let_def header_end_def range_overlap_def region_range_def)

text \<open>
  The verdict: memory is reported clean exactly when no region is marked as damaged, and otherwise the
  verdict is that of the last damaged region; a damaged critical region before it is forgotten.
\<close>

theorem integ_chk_verdict:
  assumes "integ_chk prechk h m = Some (st, h')"
    and "\<forall>r \<in> set (take (region_count h) (regions h)). \<not> damaged r"
  shows "st = (let bad = filter damaged (take (region_count h) (regions h'))
    in if bad = [] then IS_Clean else if has (last bad) IRF_Critical then IS_AbEnd else IS_AbCon)"
proof -
  from assms(1) obtain rs where *: "chk_regions h m IS_Clean (take (region_count h) (regions h)) = Some (st, rs)"
    "h' = h\<lparr>regions := rs @ drop (region_count h) (regions h)\<rparr>"
    by (auto simp: integ_chk_def split: option.splits if_splits)
  have "length rs = length (take (region_count h) (regions h))"
    using *(1) by (rule chk_regions_length)
  then have "take (region_count h) (regions h') = rs" by (simp add: *(2) min_def split: if_splits)
  with chk_regions_damage [OF *(1) assms(2)] show ?thesis by (simp add: Let_def class_of_def)
qed

theorem integ_chk_verdict_witness:
  "let h = \<lparr>hdr_seed = 0, hdr_flags = 0, stack_sp = 0, region_count = 1, region_cap = 1, regions =
       [\<lparr>reg_p = 0x1000, reg_size = 4, reg_flags = IRF_Purgable OR IRF_Critical, reg_cksum = 0\<rparr>]\<rparr>;
     h' = h\<lparr>regions := [\<lparr>reg_p = 0x1000, reg_size = 4, reg_flags = IRF_Purgable OR IRF_Critical OR IRF_Corrupted, reg_cksum = 0\<rparr>]\<rparr>
   in IS_AbEnd = (let bad = filter damaged (take (region_count h) (regions h'))
      in if bad = [] then IS_Clean else if has (last bad) IRF_Critical then IS_AbEnd else IS_AbCon)"
  unfolding Let_def
  by (rule integ_chk_verdict [where prechk = 0 and m = "\<lambda>_. 1", unfolded Let_def])
    (simp_all add: integ_chk_def chk_region_eq fails_def hashed_def cleared_def bad_stack_def has_def flag_defs
      marked_def damaged_def check_purgable.simps [of _ "0x1000"])

text \<open>
  C16: In a header whose regions are apart, do not wrap around and do not clear the seed, and whose hashed areas each
  contain a boundary of 32-byte blocks, a payload that leaves alone what is watched, the hashed and the cleared bytes of
  the regions and the seed, passes the check after it, whatever it does to the rest of memory; the header is as it
  was. Without a boundary in a hashed area the hash reads bytes in front of it, and the property fails
  (\<open>hash_memory_reads_outside\<close>).
\<close>

theorem untouched_memory_is_clean:
  assumes "well_placed h" "\<forall>r \<in> set (used_regions h). hash_fits h r" "integ_prep h m = Some (h1, m1)"
    and "\<forall>x. in_seed h x \<or> (\<exists>r \<in> set (used_regions h). watched h x r) \<longrightarrow> m2 x = m1 x"
  shows "integ_chk 0 h1 m2 = Some (IS_Clean, h1)"
proof -
  let ?rs = "take (region_count h) (regions h)"
  obtain tail where h1: "h1 = h\<lparr>regions := map (kept h m1) ?rs @ tail\<rparr>" "take (region_count h) (regions h1) = map (kept h m1) ?rs"
    "\<forall>r \<in> set ?rs. placed r \<and> hash_fits h r \<and> \<not> bad_stack h r \<and> (\<forall>x. in_cleared h x r \<longrightarrow> m1 x = 0)"
    using integ_prep_ok [OF assms(1-3)] .
  have sd: "seed_of h m2 = seed_of h m1"
    using assms(4) by (intro seed_of_cong) (auto simp: in_seed_def)
  have "\<not> fails h m2 (kept h m1 r)" if "r \<in> set ?rs" for r
    using fails_kept(1) [OF _ _ sd, of r] h1(3) assms(4) that by blast
  moreover obtain st rs where c: "chk_regions h m2 IS_Clean (map (kept h m1) ?rs) = Some (st, rs)"
    using chk_regions_total [of "map (kept h m1) ?rs" h m2 IS_Clean] h1(3) by (auto simp: kept_def)
  ultimately have "st = IS_Clean \<and> rs = map (kept h m1) ?rs"
    using chk_regions_clean [OF c] by auto
  moreover have "map (kept h m1) ?rs @ drop (region_count h) (regions h1) = regions h1"
    by (metis append_take_drop_id h1(2))
  moreover have "region_count h1 = region_count h" "chk_regions h1 = chk_regions h"
    using h1(1) by (simp_all add: fun_eq_iff)
  ultimately show ?thesis using c h1(2) by (simp add: integ_chk_def)
qed

theorem untouched_memory_is_clean_witness:
  "\<exists>h1 m1. integ_prep sample_header (\<lambda>_. 7) = Some (h1, m1) \<and> integ_chk 0 h1 (m1(0x3000 := 9)) = Some (IS_Clean, h1)"
proof -
  obtain h1 m1 where p: "integ_prep sample_header (\<lambda>_. 7) = Some (h1, m1)" using sample_prep by blast
  have "integ_chk 0 h1 (m1(0x3000 := 9)) = Some (IS_Clean, h1)"
    by (rule untouched_memory_is_clean [OF sample_well_placed p])
      (auto simp: sample_header_def watched_def in_seed_def in_cleared_def hashed_def cleared_def in_stack_def has_def
        flag_defs range_contains_def region_range_def)
  with p show ?thesis by blast
qed

text \<open>
  C15: No single changed byte escapes the check: after the preparation of a header as above, a payload that overwrites
  one hashed or cleared byte of a region with another value is not reported clean. Every hashed area is again one that
  contains a boundary of 32-byte blocks.
\<close>

theorem changed_byte_is_reported:
  assumes "well_placed h" "\<forall>r \<in> set (used_regions h). hash_fits h r" "integ_prep h m = Some (h1, m1)"
    and "r \<in> set (used_regions h)" "watched h x r" "\<not> in_seed h x" "v \<noteq> m1 x"
  shows "\<exists>st h2. integ_chk 0 h1 (m1(x := v)) = Some (st, h2) \<and> st \<noteq> IS_Clean"
proof -
  let ?rs = "take (region_count h) (regions h)"
  obtain tail where h1: "h1 = h\<lparr>regions := map (kept h m1) ?rs @ tail\<rparr>" "take (region_count h) (regions h1) = map (kept h m1) ?rs"
    "\<forall>r \<in> set ?rs. placed r \<and> hash_fits h r \<and> \<not> bad_stack h r \<and> (\<forall>x. in_cleared h x r \<longrightarrow> m1 x = 0)"
    using integ_prep_ok [OF assms(1-3)] .
  have sd: "seed_of h (m1(x := v)) = seed_of h m1"
    using assms(6) by (intro seed_of_cong) (auto simp: in_seed_def)
  have "fails h (m1(x := v)) (kept h m1 r)"
    using fails_kept(2) [OF _ _ sd, of r x v] h1(3) assms(4,5,7) by blast
  moreover obtain st rs where c: "chk_regions h (m1(x := v)) IS_Clean (map (kept h m1) ?rs) = Some (st, rs)"
    using chk_regions_total [of "map (kept h m1) ?rs" h "m1(x := v)" IS_Clean] h1(3) by (auto simp: kept_def)
  ultimately have "st \<noteq> IS_Clean"
    using chk_regions_clean [OF c] assms(4) by auto
  moreover have "region_count h1 = region_count h" "chk_regions h1 = chk_regions h"
    using h1(1) by (simp_all add: fun_eq_iff)
  ultimately show ?thesis using c h1(2) by (simp add: integ_chk_def)
qed

theorem changed_byte_is_reported_witness:
  "\<exists>h1 m1. integ_prep sample_header (\<lambda>_. 7) = Some (h1, m1) \<and>
    (\<exists>st h2. integ_chk 0 h1 (m1(0x1050 := m1 0x1050 + 1)) = Some (st, h2) \<and> st \<noteq> IS_Clean)"
proof -
  obtain h1 m1 where p: "integ_prep sample_header (\<lambda>_. 7) = Some (h1, m1)" using sample_prep by blast
  have "\<exists>st h2. integ_chk 0 h1 (m1(0x1050 := m1 0x1050 + 1)) = Some (st, h2) \<and> st \<noteq> IS_Clean"
    by (rule changed_byte_is_reported [OF sample_well_placed p, where r = "regions sample_header ! 1"])
      (simp_all add: sample_header_def watched_def in_seed_def hashed_def in_stack_def has_def flag_defs)
  with p show ?thesis by blast
qed

end
