(* ===== verification/Mailbox.thy ===== *)
theory Mailbox
  imports Memory
begin

text \<open>
  The mailbox to the VideoCore and its property tags, \<^verbatim>\<open>bcm2835/ptags.c\<close>. The VideoCore is an argument: given the
  message written to the mailbox and the memory, the message read back and the memory it leaves, or \<open>None\<close>
  when the waiting loops never end. The buffer on the stack is at \<open>buf\<close>, and \<open>None\<close> is a panic.
\<close>

type_synonym videocore = "u32 \<Rightarrow> mem \<Rightarrow> (u32 \<times> mem) option"

section \<open>Mail\<close>

definition PROCESS_REQUEST :: u32 where "PROCESS_REQUEST = 0"
definition REQUEST_OK :: u32 where "REQUEST_OK = push_bit 31 1"
definition REQUEST_ERR :: u32 where "REQUEST_ERR = push_bit 31 1 OR 1"
definition ARM_TO_VC :: u32 where "ARM_TO_VC = 8"

definition mail :: "videocore \<Rightarrow> u32 \<Rightarrow> u32 \<Rightarrow> u8 list \<Rightarrow> mem \<Rightarrow> (u8 list option \<times> mem) option" where
  "mail vc buf channel tag m =
     (let tagsz = length tag; bufsz = 8 + tagsz + 4;
          m = mem_write (unat buf) (replicate bufsz 0) m;
          m = mem_write (unat buf) (le32 (of_nat bufsz)) m;
          m = mem_write (unat buf + 4) (le32 PROCESS_REQUEST) m;
          m = mem_write (unat buf + 8) tag m;
          writev = (0x40000000 + buf) OR channel
      in if buf AND 0xf \<noteq> 0 \<or> \<not> buf < 0x20000000 then None
         else case vc writev m of
           None \<Rightarrow> None
         | Some (readv, m) \<Rightarrow>
             if writev \<noteq> readv then None
             else
               let code = load32 m (unat buf + 4)
               in if code = REQUEST_OK then Some (Some (mem_read m (unat buf + 8) tagsz), m)
                  else if code = REQUEST_ERR then Some (None, m)
                  else None)"

section \<open>Tags\<close>

text \<open>A tag begins with its identity, the size of its value and a code: the size of the response, and in the top bit whether it is one.\<close>

definition mk_tag_hdr :: "u16 \<Rightarrow> u16 \<Rightarrow> u32 \<Rightarrow> u8 list" where
  "mk_tag_hdr ident0 ident1 vbuf_size = le32 (push_bit 16 (ucast ident0) OR ucast ident1) @ le32 vbuf_size @ le32 0"

definition tag_word :: "u8 list \<Rightarrow> nat \<Rightarrow> u32" where
  "tag_word tag i = of_le32 (take 4 (drop (4 * i) tag))"

definition is_response :: "u8 list \<Rightarrow> bool" where
  "is_response tag \<longleftrightarrow> bit (tag_word tag 2) 31"

definition resp_size :: "u8 list \<Rightarrow> u32" where
  "resp_size tag = tag_word tag 2 AND 0x7fffffff"

text \<open>What the queries do with the answer: panic on an error, check the tag's code, return the tag.\<close>

definition answered :: "u32 \<Rightarrow> (u8 list option \<times> mem) option \<Rightarrow> (u8 list \<times> mem) option" where
  "answered n r =
     (case r of
        Some (Some tag, m) \<Rightarrow> if is_response tag \<and> resp_size tag = n then Some (tag, m) else None
      | _ \<Rightarrow> None)"

definition ptag_get_arm_memory :: "videocore \<Rightarrow> u32 \<Rightarrow> mem \<Rightarrow> ((u32 \<times> u32) \<times> mem) option" where
  "ptag_get_arm_memory vc buf m =
     (case answered 8 (mail vc buf ARM_TO_VC (mk_tag_hdr 1 5 8 @ le32 0 @ le32 0) m) of None \<Rightarrow> None
      | Some (tag, m) \<Rightarrow> Some ((tag_word tag 3, tag_word tag 4), m))"

definition ptag_get_vc_memory :: "videocore \<Rightarrow> u32 \<Rightarrow> mem \<Rightarrow> ((u32 \<times> u32) \<times> mem) option" where
  "ptag_get_vc_memory vc buf m =
     (case answered 8 (mail vc buf ARM_TO_VC (mk_tag_hdr 1 6 8 @ le32 0 @ le32 0) m) of None \<Rightarrow> None
      | Some (tag, m) \<Rightarrow> Some ((tag_word tag 3, tag_word tag 4), m))"

definition ptag_get_dma_channel_mask :: "videocore \<Rightarrow> u32 \<Rightarrow> mem \<Rightarrow> (u16 \<times> mem) option" where
  "ptag_get_dma_channel_mask vc buf m =
     (case answered 4 (mail vc buf ARM_TO_VC (mk_tag_hdr 6 1 4 @ le32 0) m) of None \<Rightarrow> None
      | Some (tag, m) \<Rightarrow> if tag_word tag 3 AND 0xffff0000 = 0 then Some (ucast (tag_word tag 3), m) else None)"

definition ptag_get_nominal_clock_rate :: "videocore \<Rightarrow> u32 \<Rightarrow> u32 \<Rightarrow> mem \<Rightarrow> (u32 \<times> mem) option" where
  "ptag_get_nominal_clock_rate vc buf which_clock m =
     (case answered 8 (mail vc buf ARM_TO_VC (mk_tag_hdr 3 2 8 @ le32 which_clock @ le32 0) m) of None \<Rightarrow> None
      | Some (tag, m) \<Rightarrow> Some (tag_word tag 4, m))"

definition ptag_get_measured_clock_rate :: "videocore \<Rightarrow> u32 \<Rightarrow> u32 \<Rightarrow> mem \<Rightarrow> (u32 \<times> mem) option" where
  "ptag_get_measured_clock_rate vc buf which_clock m =
     (case answered 8 (mail vc buf ARM_TO_VC (mk_tag_hdr 3 0x47 8 @ le32 which_clock @ le32 0) m) of None \<Rightarrow> None
      | Some (tag, m) \<Rightarrow> Some (tag_word tag 4, m))"

section \<open>The contract of a query\<close>

text \<open>
  The memory that the VideoCore is shown: the words of a message, and nothing else changed. A proper
  answer to a message of \<open>n\<close> value bytes comes with the same message, and with the two codes set.
\<close>

definition posted :: "u32 \<Rightarrow> u32 list \<Rightarrow> mem \<Rightarrow> mem" where
  "posted buf ws m = mem_write (unat buf) (concat (map le32 ws)) m"

definition proper :: "u32 \<Rightarrow> u32 \<Rightarrow> (u32 \<times> mem) option \<Rightarrow> bool" where
  "proper buf n r \<longleftrightarrow> (\<exists>m'. r = Some (0x40000008 + buf, m') \<and> load32 m' (unat buf + 4) = 0x80000000 \<and>
     load32 m' (unat buf + 16) = 0x80000000 + n)"

lemma post_message:
  "mem_write (a + 8) tag (mem_write (a + 4) (le32 y) (mem_write a (le32 x) (mem_write a (replicate (8 + length tag + 4) 0) m))) =
    mem_write a (le32 x @ le32 y @ tag @ le32 0) m"
proof
  fix i
  have z: "le32 0 ! k = 0" if "k < 4" for k
    using that by (auto simp: le32_def less_Suc_eq numeral_eq_Suc)
  show "mem_write (a + 8) tag (mem_write (a + 4) (le32 y) (mem_write a (le32 x) (mem_write a (replicate (8 + length tag + 4) 0) m))) i =
    mem_write a (le32 x @ le32 y @ tag @ le32 0) m i"
  proof (cases "a \<le> i \<and> i < a + 12 + length tag")
    case True
    then obtain k where k: "i = a + k" "k < 12 + length tag" by (metis add.assoc le_Suc_ex nat_add_left_cancel_less)
    have "(le32 x @ le32 y @ tag @ le32 0) ! k = (if k < 4 then le32 x ! k else if k < 8 then le32 y ! (k - 4)
        else if k < 8 + length tag then tag ! (k - 8) else 0)"
      using k(2) z [of "k - (8 + length tag)"] by (auto simp: nth_append)
    then show ?thesis using k(2) by (auto simp: k(1) mem_write_def)
  next
    case False
    then show ?thesis by (auto simp: mem_write_def)
  qed
qed

lemma mail_message:
  assumes "buf AND 0xf = 0" "buf < 0x20000000"
  shows "(0x40000000 + buf) OR ARM_TO_VC = 0x40000008 + buf"
proof -
  let ?x = "0x40000000 + buf"
  have "buf mod 16 = 0" using assms(1) take_bit_eq_mask [of 4 buf] by (simp add: mask_eq_exp_minus_1 take_bit_eq_mod)
  moreover have "unat buf mod unat (16 :: u32) = unat (buf mod 16)" by (rule unat_mod [symmetric])
  ultimately have m: "unat buf mod 16 = 0" by simp
  have b: "unat buf < 536870912" using assms(2) by (simp add: word_less_nat_alt)
  then have u: "unat ?x = 1073741824 + unat buf" by (simp add: unat_word_ariths)
  have "even (unat ?x div 8)" unfolding u using m by presburger
  then have "\<not> bit (unat ?x) 3" by (simp add: bit_iff_odd)
  then have n3: "\<not> bit ?x 3" by (simp add: bit_unsigned_iff)
  have "\<not> bit ?x n \<or> \<not> bit (8 :: u32) n" for n
    using n3 bit_exp_iff [of 3 n, where 'a = u32] by (cases "n = 3") simp_all
  then have "?x OR 8 = ?x + 8" by (intro disjunctive_add [symmetric]) simp
  then show ?thesis by (simp add: ARM_TO_VC_def)
qed

text \<open>The response codes.\<close>

lemma response_code:
  fixes n w :: u32
  assumes "n < 0x80000000"
  shows "bit w 31 \<and> w AND 0x7fffffff = n \<longleftrightarrow> w = 0x80000000 + n"
proof -
  have b: "bit w 31 \<longleftrightarrow> 2147483648 \<le> unat w"
  proof -
    have "bit w 31 \<longleftrightarrow> odd (unat w div 2 ^ 31)" 
    proof -
      have "bit w 31 \<longleftrightarrow> bit (unat w) 31" by (simp add: bit_unsigned_iff)
      then show ?thesis by (simp only: bit_iff_odd [of "unat w"])
    qed
    moreover have "unat w < 4294967296" using unsigned_less [of w, where 'a = nat] by simp
    then have "unat w div 2 ^ 31 = 0 \<or> unat w div 2 ^ 31 = 1" by auto
    ultimately show ?thesis by (auto simp: div_eq_0_iff not_le)
  qed
  have "w AND 0x7fffffff = take_bit 31 w" by (simp add: take_bit_eq_mask mask_eq_exp_minus_1)
  moreover have "unat (take_bit 31 w) = take_bit 31 (unat w)" by (rule unsigned_take_bit_eq)
  ultimately have a: "unat (w AND 0x7fffffff) = unat w mod 2147483648" by (simp only: take_bit_eq_mod [of 31 "unat w"]) simp
  have n: "unat n < 2147483648" using assms by (simp add: word_less_nat_alt)
  then have s: "unat (0x80000000 + n) = 2147483648 + unat n" by (simp add: unat_word_ariths)
  have "unat w < 4294967296" using unsigned_less [of w, where 'a = nat] by simp
  then have "2147483648 \<le> unat w \<and> unat w mod 2147483648 = unat n \<longleftrightarrow> unat w = 2147483648 + unat n" using n by (auto simp: le_mod_geq)
  then show ?thesis unfolding b using a s by (metis word_unat_eq_iff)
qed

lemma tag_word_read: "4 * i + 4 \<le> n \<Longrightarrow> tag_word (mem_read m a n) i = load32 m (a + 4 * i)"
  by (simp add: tag_word_def load32_def drop_mem_read take_mem_read)

lemma length_mk_tag_hdr [simp]: "length (mk_tag_hdr i j n) = 12"
  by (simp add: mk_tag_hdr_def)

text \<open>A query, for the queries' tags: a header and a value of \<open>n\<close> bytes.\<close>

lemma query:
  assumes "length vs = unat n" "n \<le> 8"
  shows "answered n (mail vc buf ARM_TO_VC (mk_tag_hdr i j n @ vs) m) =
    (let r = vc (0x40000008 + buf) (mem_write (unat buf) (le32 (24 + n) @ le32 0 @ (mk_tag_hdr i j n @ vs) @ le32 0) m)
     in if buf AND 0xf = 0 \<and> buf < 0x20000000 \<and> proper buf n r
        then map_option (\<lambda>(_, m'). (mem_read m' (unat buf + 8) (12 + unat n), m')) r else None)"
proof (cases "buf AND 0xf = 0 \<and> buf < 0x20000000")
  case False
  then show ?thesis by (auto simp: mail_def answered_def Let_def)
next
  case True
  let ?tag = "mk_tag_hdr i j n @ vs"
  have l: "length ?tag = 12 + unat n" using assms(1) by simp
  have z: "of_nat (8 + length ?tag + 4) = 24 + n" by (simp add: assms(1))
  have c: "is_response t \<and> resp_size t = n \<longleftrightarrow> load32 m' (unat buf + 16) = 0x80000000 + n"
    if "t = mem_read m' (unat buf + 8) (12 + unat n)" for t m'
  proof -
    have "n < 0x80000000" using assms(2) by (rule le_less_trans) simp
    moreover have "tag_word t 2 = load32 m' (unat buf + 16)" using tag_word_read [of 2 "12 + unat n" m' "unat buf + 8"] that
      by (simp add: add.commute)
    ultimately show ?thesis using response_code [of n "tag_word t 2"] by (simp add: is_response_def resp_size_def)
  qed
  have e: "REQUEST_OK = 0x80000000" "REQUEST_ERR = 0x80000001" "PROCESS_REQUEST = 0"
    by (simp_all add: REQUEST_OK_def REQUEST_ERR_def PROCESS_REQUEST_def)
  let ?m = "mem_write (unat buf) (le32 (24 + n) @ le32 0 @ ?tag @ le32 0) m"
  have p: "mem_write (unat buf + 8) ?tag (mem_write (unat buf + 4) (le32 PROCESS_REQUEST)
      (mem_write (unat buf) (le32 (of_nat (8 + length ?tag + 4))) (mem_write (unat buf) (replicate (8 + length ?tag + 4) 0) m))) = ?m"
    unfolding post_message z e ..
  have nt: "\<not> (buf AND 0xf \<noteq> 0 \<or> \<not> buf < 0x20000000)" using True by simp
  have "mail vc buf ARM_TO_VC ?tag m =
      (case vc (0x40000008 + buf) ?m of None \<Rightarrow> None
       | Some (readv, m) \<Rightarrow> if 0x40000008 + buf \<noteq> readv then None
           else let code = load32 m (unat buf + 4)
             in if code = REQUEST_OK then Some (Some (mem_read m (unat buf + 8) (12 + unat n)), m)
                else if code = REQUEST_ERR then Some (None, m) else None)"
    unfolding mail_def Let_def p by (simp only: l mail_message [OF conjunct1 [OF True] conjunct2 [OF True]] nt if_False)
  then show ?thesis
    using True by (auto simp: Let_def answered_def proper_def e c split: option.splits prod.splits)
qed

lemma posted_tag: "mk_tag_hdr i j n = le32 (push_bit 16 (ucast i) OR ucast j) @ le32 n @ le32 0"
  by (simp add: mk_tag_hdr_def)

lemma high_half: "bit (0xffff0000 :: u32) n \<longleftrightarrow> 16 \<le> n \<and> n < 32"
proof -
  have e: "(0xffff0000 :: u32) = push_bit 16 (mask 16)" by (simp add: mask_eq_exp_minus_1 push_bit_eq_mult)
  show ?thesis unfolding e by (auto simp: bit_simps)
qed

section \<open>Properties\<close>

text \<open>
  C34: A query for memory posts exactly the eight words of its message in the buffer, and returns what the VideoCore
  wrote as base and size, when it answered properly; otherwise, and when the buffer is not aligned or not in
  memory, it panics and returns nothing.
\<close>

theorem arm_memory_query:
  "ptag_get_arm_memory vc buf m =
    (let r = vc (0x40000008 + buf) (posted buf [32, 0, 0x10005, 8, 0, 0, 0, 0] m)
     in if buf AND 0xf = 0 \<and> buf < 0x20000000 \<and> proper buf 8 r
        then map_option (\<lambda>(_, m'). ((load32 m' (unat buf + 20), load32 m' (unat buf + 24)), m')) r else None)"
proof -
  have w: "push_bit 16 (ucast (1 :: u16)) OR ucast (5 :: u16) = (0x10005 :: u32)" by simp
  have "length (le32 0 @ le32 0) = unat (8 :: u32)" "(8 :: u32) \<le> 8" by simp_all
  note q = query [OF this, of vc buf 1 5 m]
  show ?thesis
    unfolding ptag_get_arm_memory_def q unfolding posted_def mk_tag_hdr_def w
    by (auto simp: Let_def proper_def tag_word_read add.assoc split: option.splits)
qed

text \<open>
  The mask of the DMA channels is the value that the VideoCore answered: a value that does not fit sixteen bits
  is refused, not cut.
\<close>

theorem channel_mask_query:
  "ptag_get_dma_channel_mask vc buf m = Some (chans, m') \<longleftrightarrow>
    buf AND 0xf = 0 \<and> buf < 0x20000000 \<and>
    vc (0x40000008 + buf) (posted buf [28, 0, 0x60001, 4, 0, 0, 0] m) = Some (0x40000008 + buf, m') \<and>
    load32 m' (unat buf + 4) = 0x80000000 \<and> load32 m' (unat buf + 16) = 0x80000004 \<and>
    load32 m' (unat buf + 20) = ucast chans"
proof -
  have w: "push_bit 16 (ucast (6 :: u16)) OR ucast (1 :: u16) = (0x60001 :: u32)" by simp
  have "length (le32 0) = unat (4 :: u32)" "(4 :: u32) \<le> 8" by simp_all
  note q = query [OF this, of vc buf 6 1 m]
  have c: "v AND 0xffff0000 = 0 \<and> ucast v = chans \<longleftrightarrow> v = ucast chans" for v :: u32
  proof
    assume v: "v AND 0xffff0000 = 0 \<and> ucast v = chans"
    have "bit v n \<Longrightarrow> n < 16" for n
    proof (rule ccontr)
      assume b: "bit v n" "\<not> n < 16"
      have "n < 32" using b(1) bit_imp_le_length by fastforce
      with b(2) have "bit (0xffff0000 :: u32) n" by (intro high_half [THEN iffD2]) simp
      with b(1) have "bit (v AND 0xffff0000) n" by (simp add: bit_and_iff)
      with v show False by simp
    qed
    with v show "v = ucast chans" by (intro bit_word_eqI) (auto simp: bit_simps)
  next
    assume v: "v = ucast chans"
    have "(ucast chans :: u32) AND 0xffff0000 = 0"
    proof (rule bit_word_eqI)
      fix n assume "n < LENGTH(32)"
      have "bit (ucast chans :: u32) n \<Longrightarrow> n < 16" using bit_imp_le_length [of chans n] by (simp add: bit_simps)
      then show "bit ((ucast chans :: u32) AND 0xffff0000) n = bit (0 :: u32) n" using high_half [of n] by (auto simp: bit_and_iff)
    qed
    moreover have "ucast (ucast chans :: u32) = chans" by (rule bit_word_eqI) (auto simp: bit_simps)
    ultimately show "v AND 0xffff0000 = 0 \<and> ucast v = chans" using v by simp
  qed
  show ?thesis
    unfolding ptag_get_dma_channel_mask_def q unfolding posted_def mk_tag_hdr_def w
    by (auto simp: Let_def proper_def tag_word_read add.assoc c [symmetric] split: option.splits if_splits)
qed

end
