(* ===== verification/Backtrace.thy ===== *)
theory Backtrace
  imports Elf_Loader "HOL-Library.Sublist" "HOL-Library.Monad_Syntax"
begin

text \<open>
  Stack traces of a panic: \<^verbatim>\<open>generic/backtrace.c\<close>, which finds the symbol table of the running ELF image and
  walks the frame pointers, and \<open>print_backtrace\<close> of \<^verbatim>\<open>bcm2835/extra.c\<close>, whose output is the list of lines.
  Pointers are addresses in memory, and \<open>None\<close> is a failed assertion.
\<close>

section \<open>Symbols\<close>

record Elf32_Shdr =
  sh_name :: u32
  sh_type :: u32
  sh_flags :: u32
  sh_addr :: u32
  sh_offset :: u32
  sh_size :: u32
  sh_link :: u32
  sh_info :: u32
  sh_addralign :: u32
  sh_entsize :: u32

definition read_shdr :: "mem \<Rightarrow> u32 \<Rightarrow> Elf32_Shdr" where
  "read_shdr m p = (let a = unat p in \<lparr>sh_name = load32 m a, sh_type = load32 m (a + 4), sh_flags = load32 m (a + 8),
     sh_addr = load32 m (a + 12), sh_offset = load32 m (a + 16), sh_size = load32 m (a + 20), sh_link = load32 m (a + 24),
     sh_info = load32 m (a + 28), sh_addralign = load32 m (a + 32), sh_entsize = load32 m (a + 36)\<rparr>)"

record Elf32_Sym =
  st_name :: u32
  st_value :: u32
  st_size :: u32
  st_info :: u8
  st_other :: u8
  st_shndx :: u16

definition read_sym :: "mem \<Rightarrow> u32 \<Rightarrow> Elf32_Sym" where
  "read_sym m p = (let a = unat p in \<lparr>st_name = load32 m a, st_value = load32 m (a + 4), st_size = load32 m (a + 8),
     st_info = m (a + 12), st_other = m (a + 13), st_shndx = load16 m (a + 14)\<rparr>)"

definition SHT_SYMTAB :: u32 where "SHT_SYMTAB = 2"
definition SHT_STRTAB :: u32 where "SHT_STRTAB = 3"
definition STT_FUNC :: u8 where "STT_FUNC = 2"
definition ELF32_ST_TYPE :: "u8 \<Rightarrow> u8" where "ELF32_ST_TYPE v = v AND 0xf"
definition ELFCLASS32 :: u8 where "ELFCLASS32 = 1"

record trace32_sections =
  image_base :: u32
  symtab :: u32
  strtab :: u32

text \<open>The first symbol table, when its link is to a string table.\<close>

definition find_trace32_sections :: "mem \<Rightarrow> u32 \<Rightarrow> (bool \<times> trace32_sections) option" where
  "find_trace32_sections m elf =
     (let sections = \<lparr>image_base = elf, symtab = 0, strtab = 0\<rparr>; e_shoff = load32 m (unat elf + 32)
      in if e_shoff = 0 then Some (False, sections)
         else
           let shdr_base = elf + e_shoff; e_shnum = load16 m (unat elf + 48);
               shnum = (if e_shnum = 0 then sh_size (read_shdr m shdr_base) else ucast e_shnum);
               shdr = (\<lambda>i. shdr_base + 40 * of_nat i)
           in if load16 m (unat elf + 46) \<noteq> 40 then None
              else case find (\<lambda>i. sh_type (read_shdr m (shdr i)) = SHT_SYMTAB) [0..<unat shnum] of
                None \<Rightarrow> Some (False, sections)
              | Some i \<Rightarrow>
                  let strs = shdr_base + 40 * sh_link (read_shdr m (shdr i));
                      sections = sections\<lparr>symtab := shdr i, strtab := strs\<rparr>
                  in Some (sh_type (read_shdr m strs) = SHT_STRTAB, sections))"

text \<open>A name is a pointer to its characters, or the constant for symbols without one.\<close>

datatype symname = Unnamed | Name u32

definition backtrace_get_symbol_elf32 :: "mem \<Rightarrow> trace32_sections \<Rightarrow> u32 \<Rightarrow> symname option option" where
  "backtrace_get_symbol_elf32 m sections pc =
     (let strings = image_base sections + sh_offset (read_shdr m (strtab sections));
          syms = read_shdr m (symtab sections);
          sym = (\<lambda>i. read_sym m (image_base sections + sh_offset syms + 16 * of_nat i))
      in if sh_entsize syms = 0 \<or> 16 \<noteq> sh_entsize syms \<or> sh_size syms mod sh_entsize syms \<noteq> 0 then None
         else
           let cnt = unat (sh_size syms div sh_entsize syms)
           in Some (map_option (\<lambda>i. if st_name (sym i) \<noteq> 0 then Name (strings + st_name (sym i)) else Unnamed)
                (find (\<lambda>i. ELF32_ST_TYPE (st_info (sym i)) = STT_FUNC \<and> st_value (sym i) \<le> pc \<and>
                   pc < st_value (sym i) + st_size (sym i)) [0..<cnt])))"

section \<open>Enabling\<close>

datatype trace_cap = TCAP_NONE | TCAP_ELF32

record trace_state =
  trace_capability :: trace_cap
  trace_info :: trace32_sections

definition strstr :: "string \<Rightarrow> string \<Rightarrow> bool" where
  "strstr hay needle \<longleftrightarrow> (\<exists>s \<in> set (suffixes hay). prefix needle s)"

text \<open>The flags and the optimization level of the compiler are arguments.\<close>

definition backtrace_enable :: "string \<Rightarrow> nat \<Rightarrow> mem \<Rightarrow> u32 \<Rightarrow> trace_state \<Rightarrow> (bool \<times> trace_state) option" where
  "backtrace_enable cflags optimize m elf st =
     (let st = st\<lparr>trace_capability := TCAP_NONE\<rparr>;
          has_frame_pointer =
            (if strstr cflags ''-fno-omit-frame-pointer'' then True
             else if strstr cflags ''-fomit-frame-pointer'' then False
             else optimize > 0)
      in if m (unat elf + 4) = ELFCLASS32 \<and> has_frame_pointer then
           (case find_trace32_sections m elf of
              None \<Rightarrow> None
            | Some (found, sections) \<Rightarrow>
                let st = st\<lparr>trace_info := sections\<rparr>;
                    st = (if found then st\<lparr>trace_capability := TCAP_ELF32\<rparr> else st)
                in Some (trace_capability st \<noteq> TCAP_NONE, st))
         else Some (trace_capability st \<noteq> TCAP_NONE, st))"

definition backtrace_enabled :: "trace_state \<Rightarrow> bool" where
  "backtrace_enabled st \<longleftrightarrow> trace_capability st \<noteq> TCAP_NONE"

section \<open>Cursors\<close>

text \<open>A frame is a saved frame pointer and, behind it, a saved return address.\<close>

record backtrace_cursor =
  curs_pc :: u32
  curs_fp :: u32

definition backtrace_cursor_new :: "u32 \<Rightarrow> u32 \<Rightarrow> mem \<Rightarrow> backtrace_cursor" where
  "backtrace_cursor_new return_address frame_address m =
     \<lparr>curs_pc = return_address - 4, curs_fp = load32 m (unat frame_address)\<rparr>"

definition backtrace_cursor_read :: "trace_state \<Rightarrow> mem \<Rightarrow> backtrace_cursor \<Rightarrow> (u32 \<times> symname option) option" where
  "backtrace_cursor_read st m curs =
     (case trace_capability st of
        TCAP_ELF32 \<Rightarrow> map_option (Pair (curs_pc curs)) (backtrace_get_symbol_elf32 m (trace_info st) (curs_pc curs))
      | TCAP_NONE \<Rightarrow> Some (curs_pc curs, None))"

definition backtrace_cursor_next :: "mem \<Rightarrow> backtrace_cursor \<Rightarrow> backtrace_cursor option" where
  "backtrace_cursor_next m curs =
     (if curs_fp curs = 0 then None
      else
        let sframe = unat (curs_fp curs)
        in Some \<lparr>curs_pc = load32 m (sframe + 4) - 4, curs_fp = load32 m sframe\<rparr>)"

text \<open>The loop over the frames; it need not end, and a failed assertion ends it without a value too.\<close>

partial_function (option) trace_lines :: "trace_state \<Rightarrow> mem \<Rightarrow> backtrace_cursor \<Rightarrow> (u32 \<times> symname option) list option" where
  "trace_lines st m curs =
     do {
       l \<leftarrow> backtrace_cursor_read st m curs;
       case backtrace_cursor_next m curs of
         None \<Rightarrow> Some [l]
       | Some curs \<Rightarrow> do { ls \<leftarrow> trace_lines st m curs; Some (l # ls) }
     }"

declare trace_lines.simps [code]

definition print_backtrace :: "trace_state \<Rightarrow> u32 \<Rightarrow> u32 \<Rightarrow> mem \<Rightarrow> (u32 \<times> symname option) list option" where
  "print_backtrace st return_address frame_address m =
     (if \<not> backtrace_enabled st then None
      else case backtrace_cursor_next m (backtrace_cursor_new return_address frame_address m) of
        None \<Rightarrow> None
      | Some curs \<Rightarrow> trace_lines st m curs)"

section \<open>What a trace shows\<close>

text \<open>The frames from a frame pointer on, up to the start's null pointer.\<close>

fun chain :: "mem \<Rightarrow> u32 \<Rightarrow> u32 list \<Rightarrow> bool" where
  "chain m fp [] \<longleftrightarrow> fp = 0"
| "chain m fp (f # fs) \<longleftrightarrow> fp = f \<and> f \<noteq> 0 \<and> chain m (load32 m (unat f)) fs"

text \<open>A symbol table that the lookup accepts, and the symbol of an address: of the first function that contains it.\<close>

definition symbols_ok :: "mem \<Rightarrow> trace32_sections \<Rightarrow> bool" where
  "symbols_ok m sections \<longleftrightarrow> sh_entsize (read_shdr m (symtab sections)) = 16 \<and> 16 dvd unat (sh_size (read_shdr m (symtab sections)))"

definition symbols :: "mem \<Rightarrow> trace32_sections \<Rightarrow> Elf32_Sym list" where
  "symbols m sections =
     (let syms = read_shdr m (symtab sections)
      in map (\<lambda>i. read_sym m (image_base sections + sh_offset syms + 16 * of_nat i)) [0..<unat (sh_size syms) div 16])"

definition names :: "mem \<Rightarrow> trace32_sections \<Rightarrow> Elf32_Sym \<Rightarrow> symname" where
  "names m sections s =
     (if st_name s \<noteq> 0 then Name (image_base sections + sh_offset (read_shdr m (strtab sections)) + st_name s) else Unnamed)"

definition covers :: "u32 \<Rightarrow> Elf32_Sym \<Rightarrow> bool" where
  "covers pc s \<longleftrightarrow> ELF32_ST_TYPE (st_info s) = STT_FUNC \<and> st_value s \<le> pc \<and> pc < st_value s + st_size s"

definition function_at :: "mem \<Rightarrow> trace32_sections \<Rightarrow> u32 \<Rightarrow> symname option" where
  "function_at m sections pc = map_option (names m sections) (find (covers pc) (symbols m sections))"

lemma find_map: "find P (map f xs) = map_option f (find (\<lambda>x. P (f x)) xs)"
  by (induction xs) auto

lemma get_symbol_first_function:
  assumes "symbols_ok m sections"
  shows "backtrace_get_symbol_elf32 m sections pc = Some (function_at m sections pc)"
proof -
  let ?n = "sh_size (read_shdr m (symtab sections))"
  have e: "sh_entsize (read_shdr m (symtab sections)) = 16" using assms by (simp add: symbols_ok_def)
  have "unat (?n mod 16) = unat ?n mod unat (16 :: u32)" by (rule unat_mod)
  then have "?n mod 16 = 0" using assms by (simp add: symbols_ok_def unat_eq_0 [symmetric] dvd_eq_mod_eq_0)
  moreover have "unat (?n div 16) = unat ?n div unat (16 :: u32)" by (rule unat_div)
  then have "unat (?n div 16) = unat ?n div 16" by simp
  ultimately show ?thesis
    by (simp add: backtrace_get_symbol_elf32_def Let_def e function_at_def symbols_def find_map option.map_comp comp_def names_def covers_def)
qed

lemma trace_lines_chain:
  assumes "trace_capability st = TCAP_ELF32" "symbols_ok m (trace_info st)"
  shows "chain m (curs_fp curs) fs \<Longrightarrow>
    trace_lines st m curs = Some (map (\<lambda>pc. (pc, function_at m (trace_info st) pc))
      (curs_pc curs # map (\<lambda>f. load32 m (unat f + 4) - 4) fs))"
proof (induction fs arbitrary: curs)
  case Nil
  then show ?case
    by (subst trace_lines.simps) (simp add: backtrace_cursor_read_def assms get_symbol_first_function backtrace_cursor_next_def)
next
  case (Cons f fs)
  then show ?case
    by (subst trace_lines.simps) (simp add: backtrace_cursor_read_def assms get_symbol_first_function backtrace_cursor_next_def Let_def)
qed

text \<open>
  C35: In a state with symbols, the backtrace ends when the saved frame pointers lead to the null pointer of
  the start. It has one line for every frame behind the one of \<open>print_backtrace\<close>, in their order: the address of
  the call, four bytes before the saved return address, and the first function symbol that contains it.
\<close>

theorem print_backtrace_lists_callers:
  assumes "trace_capability st = TCAP_ELF32" "symbols_ok m (trace_info st)" "chain m (load32 m (unat frame)) (f # fs)"
  shows "print_backtrace st return_address frame m =
    Some (map (\<lambda>f. let pc = load32 m (unat f + 4) - 4 in (pc, function_at m (trace_info st) pc)) (f # fs))"
proof -
  let ?curs = "\<lparr>curs_pc = load32 m (unat f + 4) - 4, curs_fp = load32 m (unat f)\<rparr>"
  have "chain m (curs_fp ?curs) fs" using assms(3) by simp
  from trace_lines_chain [OF assms(1,2) this] show ?thesis using assms(1,3)
    by (simp add: print_backtrace_def backtrace_enabled_def backtrace_cursor_next_def backtrace_cursor_new_def Let_def comp_def)
qed

text \<open>Two callers behind the frame of \<open>print_backtrace\<close>; one function, named by the string at \<open>0x3005\<close>.\<close>

definition of_words :: "(nat \<Rightarrow> u32) \<Rightarrow> mem" where
  "of_words f a = le32 (f (a div 4)) ! (a mod 4)"

lemma load32_of_words: "a mod 4 = 0 \<Longrightarrow> load32 (of_words f) a = f (a div 4)"
proof -
  assume "a mod 4 = 0"
  then obtain k where a: "a = 4 * k" by (metis mult_div_mod_eq add.right_neutral)
  have "mem_read (of_words f) (4 * k) 4 = le32 (f k)"
  proof (rule nth_equalityI)
    fix i assume "i < length (mem_read (of_words f) (4 * k) 4)"
    then have "i < 4" by simp
    then have "(4 * k + i) div 4 = k" "(4 * k + i) mod 4 = i" by presburger+
    then show "mem_read (of_words f) (4 * k) 4 ! i = le32 (f k) ! i" using \<open>i < 4\<close> by (simp add: of_words_def mem_read_def)
  qed simp
  then show ?thesis by (simp add: load32_def a)
qed

definition sample_stack :: mem where
  "sample_stack = of_words ((\<lambda>_. 0)
     (0x404 := 0x2000, 0x405 := 16, 0x409 := 16, 0x410 := 0x3000,
      0x800 := 5, 0x801 := 0x8000, 0x802 := 0x100, 0x803 := 2,
      0x1000 := 0x4010, 0x1001 := 0x8044, 0x1004 := 0x4020, 0x1005 := 0x8084, 0x1009 := 0x9004))"

definition sample_trace :: trace_state where
  "sample_trace = \<lparr>trace_capability = TCAP_ELF32, trace_info = \<lparr>image_base = 0, symtab = 0x1000, strtab = 0x1030\<rparr>\<rparr>"

lemma print_backtrace_lists_callers_witness:
  "print_backtrace sample_trace 0x8044 0x4000 sample_stack = Some [(0x8080, Some (Name 0x3005)), (0x9000, None)]"
proof -
  have "trace_capability sample_trace = TCAP_ELF32" "symbols_ok sample_stack (trace_info sample_trace)"
    "chain sample_stack (load32 sample_stack (unat (0x4000 :: u32))) [0x4010, 0x4020]"
    by (simp_all add: sample_trace_def sample_stack_def symbols_ok_def read_shdr_def Let_def load32_of_words)
  note print_backtrace_lists_callers [OF this]
  moreover have "map (\<lambda>f :: u32. let pc = load32 sample_stack (unat f + 4) - 4 in (pc, function_at sample_stack (trace_info sample_trace) pc))
      [0x4010, 0x4020] = [(0x8080, Some (Name 0x3005)), (0x9000, None)]"
    by (simp add: sample_trace_def sample_stack_def function_at_def symbols_def names_def covers_def read_shdr_def read_sym_def Let_def
      load32_of_words of_words_def le32_def ELF32_ST_TYPE_def STT_FUNC_def)
  ultimately show ?thesis by simp
qed

text \<open>An enabled trace has the first symbol table of the image and a string table.\<close>

lemma enabled_has_tables:
  assumes "backtrace_enable cflags optimize m elf st = Some (True, st')"
  shows "trace_capability st' = TCAP_ELF32 \<and> image_base (trace_info st') = elf \<and>
    sh_type (read_shdr m (symtab (trace_info st'))) = SHT_SYMTAB \<and> sh_type (read_shdr m (strtab (trace_info st'))) = SHT_STRTAB"
proof -
  have "fst r \<longrightarrow> image_base (snd r) = elf \<and> sh_type (read_shdr m (symtab (snd r))) = SHT_SYMTAB \<and>
      sh_type (read_shdr m (strtab (snd r))) = SHT_STRTAB" if "find_trace32_sections m elf = Some r" for r
    using that by (auto simp: find_trace32_sections_def Let_def find_Some_iff split: if_splits option.splits)
  moreover obtain sections where "find_trace32_sections m elf = Some (True, sections)"
    "st' = st\<lparr>trace_info := sections, trace_capability := TCAP_ELF32\<rparr>"
    using assms unfolding backtrace_enable_def Let_def by (auto split: if_splits option.splits prod.splits)
  ultimately show ?thesis by fastforce
qed

text \<open>Without a flag of the compiler that decides it, traces are on for optimized images only, which have no frame pointers.\<close>

lemma enabled_means_optimized:
  assumes "\<not> strstr cflags ''-fno-omit-frame-pointer''" "backtrace_enable cflags optimize m elf st = Some (True, st')"
  shows "0 < optimize"
  using assms by (auto simp: backtrace_enable_def Let_def split: if_splits)

text \<open>A frame that is saved in itself is walked for ever.\<close>

lemma trace_lines_loop:
  assumes "curs_fp curs = f" "f \<noteq> 0" "load32 m (unat f) = f"
  shows "trace_lines st m curs = None"
proof (cases "trace_lines st m curs")
  case (Some ls)
  have "m = m \<longrightarrow> curs_fp curs = f \<longrightarrow> False"
  proof (rule trace_lines.raw_induct [where P = "\<lambda>st m' c ls. m' = m \<longrightarrow> curs_fp c = f \<longrightarrow> False", OF _ Some])
    fix tl st m' c y
    assume ih: "\<And>st m' c ls. tl st m' c = Some ls \<Longrightarrow> m' = m \<longrightarrow> curs_fp c = f \<longrightarrow> False"
      and e: "backtrace_cursor_read st m' c \<bind>
        (\<lambda>l. case backtrace_cursor_next m' c of None \<Rightarrow> Some [l] | Some c \<Rightarrow> tl st m' c \<bind> (\<lambda>ls. Some (l # ls))) = Some y"
    show "m' = m \<longrightarrow> curs_fp c = f \<longrightarrow> False" using e assms(2,3) ih [of st m "\<lparr>curs_pc = load32 m (unat f + 4) - 4, curs_fp = f\<rparr>"]
      by (auto simp: backtrace_cursor_next_def Let_def split: bind_splits)
  qed
  then show ?thesis using assms(1) by simp
qed simp

end
