(* ===== verification/Ubsan.thy ===== *)
theory Ubsan
  imports Backtrace
begin

text \<open>
  The runtime of the undefined-behavior sanitizer, \<^verbatim>\<open>generic/ubsan.h\<close> and \<^verbatim>\<open>generic/ubsan.c\<close>: the handlers
  that checked code calls, their classification of the error, the report that they print and the count of reports.
  The console is the list of what was printed. A panic ends the run; the reset behind it is not modelled. The code shifts
  words by the width of a type, which C leaves undefined from 32 on: the result is then \<open>None\<close>, and a handler goes on with
  a parameter of its environment in its place.
\<close>

section \<open>Data\<close>

record SourceLocation =
  filename :: string
  line :: u32
  col :: u32

text \<open>A type: its kind, its info and its name, with the bytes behind the terminator of the name.\<close>

record TypeDescriptor =
  type_kind :: u16
  type_info :: u16
  type_name :: string
  name_tail :: "u8 list"

definition TK_Integer :: u16 where "TK_Integer = 0"
definition TK_Float :: u16 where "TK_Float = 1"
definition TK_BitInt :: u16 where "TK_BitInt = 2"

definition td_is_int :: "TypeDescriptor \<Rightarrow> bool" where
  "td_is_int td \<longleftrightarrow> type_kind td = TK_Integer \<or> type_kind td = TK_BitInt"

definition td_is_bitint :: "TypeDescriptor \<Rightarrow> bool" where
  "td_is_bitint td \<longleftrightarrow> type_kind td = TK_BitInt"

definition td_is_sbitint :: "TypeDescriptor \<Rightarrow> bool" where
  "td_is_sbitint td \<longleftrightarrow> td_is_bitint td \<and> type_info td AND 1 \<noteq> 0"

definition td_is_sint :: "TypeDescriptor \<Rightarrow> bool" where
  "td_is_sint td \<longleftrightarrow> td_is_int td \<and> type_info td AND 1 \<noteq> 0"

definition td_is_uint :: "TypeDescriptor \<Rightarrow> bool" where
  "td_is_uint td \<longleftrightarrow> td_is_int td \<and> type_info td AND 1 = 0"

definition td_is_float :: "TypeDescriptor \<Rightarrow> bool" where
  "td_is_float td \<longleftrightarrow> type_kind td = TK_Float"

text \<open>
  The shift of a word by an amount that is not constant. By 32 or more it is undefined in C, which is \<open>None\<close>. The
  shift of the \<^verbatim>\<open>int\<close> 1 in the width of a type is undefined from 31 on, where the result is no \<^verbatim>\<open>int\<close>.
\<close>

definition lsl :: "u32 \<Rightarrow> nat \<Rightarrow> u32 option" where
  "lsl x n = (if n < 32 then Some (push_bit n x) else None)"

definition td_get_bit_width :: "TypeDescriptor \<Rightarrow> u32 option" where
  "td_get_bit_width td =
     (if td_is_sbitint td then Some (of_le32 (take 4 (name_tail td)))
      else let n = unat (drop_bit 1 (type_info td)) in if n < 31 then Some (push_bit n 1) else None)"

datatype type_check_kind = TCK_Load | TCK_Store | TCK_ReferenceBinding | TCK_MemberAccess | TCK_MemberCall
  | TCK_ConstructorCall | TCK_DowncastPointer | TCK_DowncastReference | TCK_Upcast | TCK_UpcastToVirtualBase
  | TCK_NonnullAssign | TCK_DynamicOperation

record TypeMismatchData =
  tm_loc :: SourceLocation
  tm_ty :: TypeDescriptor
  log_alignment :: u8
  tm_kind :: type_check_kind

record OverflowData =
  ov_loc :: SourceLocation
  ov_ty :: TypeDescriptor

datatype implicit_conversion_check_kind = ICCK_IntegerTruncation | ICCK_UnsignedIntegerTruncation
  | ICCK_SignedIntegerTruncation | ICCK_IntegerSignChange | ICCK_SignedIntegerTruncationOrSignChange

record ImplicitConversionData =
  ic_loc :: SourceLocation
  from_ty :: TypeDescriptor
  to_ty :: TypeDescriptor
  ic_kind :: implicit_conversion_check_kind
  bitfield_bits :: u32

datatype ErrorType = ET_GenericUB | ET_NullPointerUse | ET_NullPointerUseWithNullability | ET_NullptrWithOffset
  | ET_NullptrWithNonZeroOffset | ET_NullptrAfterNonZeroOffset | ET_PointerOverflow | ET_MisalignedPointerUse
  | ET_AlignmentAssumption | ET_InsufficientObjectSize | ET_SignedIntegerOverflow | ET_UnsignedIntegerOverflow
  | ET_IntegerDivideByZero | ET_FloatDivideByZero | ET_InvalidBuiltin | ET_ImplicitUnsignedIntegerTruncation
  | ET_ImplicitSignedIntegerTruncation | ET_ImplicitSignedIntegerSignChange
  | ET_ImplicitSignedIntegerTruncationOrSignChange | ET_InvalidShiftBase | ET_InvalidShiftExponent
  | ET_OutOfBoundsIndex | ET_LocalOutOfBounds | ET_UnreachableCall | ET_MissingReturn | ET_NonPositiveVLAIndex
  | ET_FloatCastOverflow | ET_InvalidBoolLoad | ET_InvalidEnumLoad | ET_FunctionTypeMismatch | ET_InvalidNullReturn
  | ET_InvalidNullReturnWithNullability | ET_InvalidNullArgument | ET_InvalidNullArgumentWithNullability
  | ET_DynamicTypeMismatch

fun ERROR_TYPE_SUMMARIES :: "ErrorType \<Rightarrow> string" where
  "ERROR_TYPE_SUMMARIES ET_GenericUB = ''undefined-behavior''"
| "ERROR_TYPE_SUMMARIES ET_NullPointerUse = ''null-pointer-use''"
| "ERROR_TYPE_SUMMARIES ET_NullPointerUseWithNullability = ''null-pointer-use''"
| "ERROR_TYPE_SUMMARIES ET_NullptrWithOffset = ''nullptr-with-offset''"
| "ERROR_TYPE_SUMMARIES ET_NullptrWithNonZeroOffset = ''nullptr-with-nonzero-offset''"
| "ERROR_TYPE_SUMMARIES ET_NullptrAfterNonZeroOffset = ''nullptr-after-nonzero-offset''"
| "ERROR_TYPE_SUMMARIES ET_PointerOverflow = ''pointer-overflow''"
| "ERROR_TYPE_SUMMARIES ET_MisalignedPointerUse = ''misaligned-pointer-use''"
| "ERROR_TYPE_SUMMARIES ET_AlignmentAssumption = ''alignment-assumption''"
| "ERROR_TYPE_SUMMARIES ET_InsufficientObjectSize = ''insufficient-object-size''"
| "ERROR_TYPE_SUMMARIES ET_SignedIntegerOverflow = ''signed-integer-overflow''"
| "ERROR_TYPE_SUMMARIES ET_UnsignedIntegerOverflow = ''unsigned-integer-overflow''"
| "ERROR_TYPE_SUMMARIES ET_IntegerDivideByZero = ''integer-divide-by-zero''"
| "ERROR_TYPE_SUMMARIES ET_FloatDivideByZero = ''float-divide-by-zero''"
| "ERROR_TYPE_SUMMARIES ET_InvalidBuiltin = ''invalid-builtin-use''"
| "ERROR_TYPE_SUMMARIES ET_ImplicitUnsignedIntegerTruncation = ''implicit-unsigned-integer-truncation''"
| "ERROR_TYPE_SUMMARIES ET_ImplicitSignedIntegerTruncation = ''implicit-signed-integer-truncation''"
| "ERROR_TYPE_SUMMARIES ET_ImplicitSignedIntegerSignChange = ''implicit-signed-integer-sign-change''"
| "ERROR_TYPE_SUMMARIES ET_ImplicitSignedIntegerTruncationOrSignChange = ''implicit-signed-integer-truncation-or-sign-change''"
| "ERROR_TYPE_SUMMARIES ET_InvalidShiftBase = ''invalid-shift-base''"
| "ERROR_TYPE_SUMMARIES ET_InvalidShiftExponent = ''invalid-shift-exponent''"
| "ERROR_TYPE_SUMMARIES ET_OutOfBoundsIndex = ''out-of-bounds-index''"
| "ERROR_TYPE_SUMMARIES ET_LocalOutOfBounds = ''local-out-of-bounds''"
| "ERROR_TYPE_SUMMARIES ET_UnreachableCall = ''unreachable-call''"
| "ERROR_TYPE_SUMMARIES ET_MissingReturn = ''missing-return''"
| "ERROR_TYPE_SUMMARIES ET_NonPositiveVLAIndex = ''non-positive-vla-index''"
| "ERROR_TYPE_SUMMARIES ET_FloatCastOverflow = ''float-cast-overflow''"
| "ERROR_TYPE_SUMMARIES ET_InvalidBoolLoad = ''invalid-bool-load''"
| "ERROR_TYPE_SUMMARIES ET_InvalidEnumLoad = ''invalid-enum-load''"
| "ERROR_TYPE_SUMMARIES ET_FunctionTypeMismatch = ''function-type-mismatch''"
| "ERROR_TYPE_SUMMARIES ET_InvalidNullReturn = ''invalid-null-return''"
| "ERROR_TYPE_SUMMARIES ET_InvalidNullReturnWithNullability = ''invalid-null-return''"
| "ERROR_TYPE_SUMMARIES ET_InvalidNullArgument = ''invalid-null-argument''"
| "ERROR_TYPE_SUMMARIES ET_InvalidNullArgumentWithNullability = ''invalid-null-argument''"
| "ERROR_TYPE_SUMMARIES ET_DynamicTypeMismatch = ''dynamic-type-mismatch''"

fun TYPE_CHECK_KIND_NAMES :: "type_check_kind \<Rightarrow> string" where
  "TYPE_CHECK_KIND_NAMES TCK_Load = ''load of''"
| "TYPE_CHECK_KIND_NAMES TCK_Store = ''store to''"
| "TYPE_CHECK_KIND_NAMES TCK_ReferenceBinding = ''reference binding to''"
| "TYPE_CHECK_KIND_NAMES TCK_MemberAccess = ''member access within''"
| "TYPE_CHECK_KIND_NAMES TCK_MemberCall = ''member call on''"
| "TYPE_CHECK_KIND_NAMES TCK_ConstructorCall = ''constructor call on''"
| "TYPE_CHECK_KIND_NAMES TCK_DowncastPointer = ''downcast of''"
| "TYPE_CHECK_KIND_NAMES TCK_DowncastReference = ''downcast of''"
| "TYPE_CHECK_KIND_NAMES TCK_Upcast = ''upcast of''"
| "TYPE_CHECK_KIND_NAMES TCK_UpcastToVirtualBase = ''cast to virtual base of''"
| "TYPE_CHECK_KIND_NAMES TCK_NonnullAssign = ''_Nonnull binding to''"
| "TYPE_CHECK_KIND_NAMES TCK_DynamicOperation = ''dynamic operation on''"

section \<open>Values\<close>

text \<open>Hexadecimal digits as \<^verbatim>\<open>printf\<close> writes them: without leading zeros, or two of a byte.\<close>

definition hex_digit :: "nat \<Rightarrow> char" where
  "hex_digit n = ''0123456789abcdef'' ! n"

fun hexs :: "nat \<Rightarrow> string" where
  "hexs n = (if n < 16 then [hex_digit n] else hexs (n div 16) @ [hex_digit (n mod 16)])"

declare hexs.simps [simp del]

definition hex02 :: "nat \<Rightarrow> string" where
  "hex02 n = [hex_digit (n div 16), hex_digit (n mod 16)]"

text \<open>The loop over the bytes of a value in memory, from the one at \<open>i\<close> down, whose masked value is the fourth argument.\<close>

fun print_bytes :: "mem \<Rightarrow> nat \<Rightarrow> nat \<Rightarrow> u32 \<Rightarrow> bool \<Rightarrow> string" where
  "print_bytes m intp i masked_val hit_nz =
     (let out = (if hit_nz then hex02 (unat (ucast masked_val :: u8))
                 else if masked_val \<noteq> 0 \<or> i = 0 then hexs (unat (ucast masked_val :: u8)) else [])
      in out @ (case i of 0 \<Rightarrow> [] | Suc j \<Rightarrow> print_bytes m intp j (ucast (m (intp + j))) (hit_nz \<or> masked_val \<noteq> 0)))"

declare print_bytes.simps [simp del]

text \<open>
  It is called for integer types only, as it asserts. For a type of 32 bits the mask is a shift by 32, and the text is
  undefined.
\<close>

definition print_value_int :: "mem \<Rightarrow> TypeDescriptor \<Rightarrow> u32 \<Rightarrow> string option" where
  "print_value_int m td val =
     do {
       bit_width \<leftarrow> td_get_bit_width td;
       let byte_width = (bit_width + 7) div 8;
       let zero = (if byte_width = 0 then ''0x0'' else []);
       if byte_width \<le> 4 then do {
         shifted \<leftarrow> lsl (NOT 0) (unat bit_width);
         let masked_val = NOT shifted AND val;
         Some (zero @ (if masked_val = 0 then ''0x0'' else ''0x'' @ hexs (unat masked_val)))
       }
       else do {
         let i = unat byte_width - 1;
         Some (zero @ ''0x'' @
           print_bytes m (unat val) i (NOT (push_bit (unat (bit_width AND 7)) 0xff) AND ucast (m (unat val + i))) False)
       }
     }"

definition print_value :: "mem \<Rightarrow> TypeDescriptor \<Rightarrow> u32 \<Rightarrow> string option" where
  "print_value m td val =
     (if td_is_int td then print_value_int m td val
      else Some (if type_kind td = TK_Float then ''TK_Float'' else ''TK_Unknown''))"

text \<open>
  The test for minus one, with the same shift by 32. In the loop over the bytes of a wide value, \<^verbatim>\<open>~v\<close> of a byte is computed as an \<^verbatim>\<open>int\<close>.
\<close>

fun minus_one_bytes :: "mem \<Rightarrow> nat \<Rightarrow> nat \<Rightarrow> u8 \<Rightarrow> bool" where
  "minus_one_bytes m intp i v =
     (if NOT (ucast v :: u32) \<noteq> 0 then False
      else case i of 0 \<Rightarrow> True | Suc j \<Rightarrow> minus_one_bytes m intp j (m (intp + j)))"

declare minus_one_bytes.simps [simp del]

definition is_minus_one :: "mem \<Rightarrow> TypeDescriptor \<Rightarrow> u32 \<Rightarrow> bool option" where
  "is_minus_one m td val =
     (if \<not> td_is_int td then Some False
      else if td_is_uint td then Some False
      else do {
        bit_width \<leftarrow> td_get_bit_width td;
        let i = (bit_width + 7) div 8;
        if i = 0 then Some False
        else if i \<le> 4 then do {
          imask \<leftarrow> lsl (NOT 0) (unat bit_width);
          Some (NOT (imask OR (val AND NOT imask)) = 0)
        }
        else do {
          let i = unat i - 1;
          let ff = push_bit (unat (bit_width AND 7)) (0xff :: u32);
          Some (minus_one_bytes m (unat val) i (ucast ((ucast (m (unat val + i)) AND NOT ff) OR ff)))
        }
      })"

section \<open>Reports\<close>

text \<open>
  What is printed: text, numbers (\<^verbatim>\<open>%d\<close> and \<^verbatim>\<open>%u\<close>), addresses (\<^verbatim>\<open>%p\<close> and \<^verbatim>\<open>%#10x\<close>) and symbols of the trace.
\<close>

datatype piece = Str string | Num u32 | Addr u32 | Sym "symname option"

record ubsan_state =
  NEXT_REPORT_INDEX :: u32
  console :: "piece list"

datatype outcome = Returns ubsan_state | Panics string ubsan_state

text \<open>
  What surrounds a call: the state of the traces, the memory, and the return address and frame of the new cursor. The
  last fields are what the compiled code makes of an undefined shift: the text of a value, the outcome of the test for
  minus one and the width of a type, in this order. They are parameters of the model, of which nothing is assumed: what is
  shown of the handlers holds whatever they are.
\<close>

record ubsan_env =
  tracing :: trace_state
  ram :: mem
  ret_addr :: u32
  frame_addr :: u32
  any_text :: "TypeDescriptor \<Rightarrow> u32 \<Rightarrow> string"
  any_test :: "TypeDescriptor \<Rightarrow> u32 \<Rightarrow> bool"
  any_width :: "TypeDescriptor \<Rightarrow> u32"

text \<open>The value of an expression in a handler, with the parameter where C does not define it.\<close>

definition value_text :: "ubsan_env \<Rightarrow> TypeDescriptor \<Rightarrow> u32 \<Rightarrow> string" where
  "value_text env td val = (case print_value (ram env) td val of Some s \<Rightarrow> s | None \<Rightarrow> any_text env td val)"

definition minus_one_test :: "ubsan_env \<Rightarrow> TypeDescriptor \<Rightarrow> u32 \<Rightarrow> bool" where
  "minus_one_test env td val = (case is_minus_one (ram env) td val of Some b \<Rightarrow> b | None \<Rightarrow> any_test env td val)"

definition width_of :: "ubsan_env \<Rightarrow> TypeDescriptor \<Rightarrow> u32" where
  "width_of env td = (case td_get_bit_width td of Some w \<Rightarrow> w | None \<Rightarrow> any_width env td)"

record ReportOpts =
  trace_cursor :: backtrace_cursor
  unrecoverable :: bool

definition UBSAN_OPTS :: "ubsan_env \<Rightarrow> bool \<Rightarrow> ReportOpts" where
  "UBSAN_OPTS env u = \<lparr>trace_cursor = backtrace_cursor_new (ret_addr env) (frame_addr env) (ram env), unrecoverable = u\<rparr>"

abbreviation newline :: char where
  "newline \<equiv> CHR 0x0A"

abbreviation escape :: char where
  "escape \<equiv> CHR 0x1B"

definition out_pieces :: "piece list \<Rightarrow> ubsan_state \<Rightarrow> ubsan_state" where
  "out_pieces ps st = st\<lparr>console := console st @ ps\<rparr>"

definition header_pieces :: "u32 \<Rightarrow> SourceLocation \<Rightarrow> ErrorType \<Rightarrow> piece list" where
  "header_pieces n loc et =
     [Str (newline # ''============================== [UBSAN REPORT ''), Num n, Str (''] ==============================''),
      Str [newline], Str (filename loc), Str '':'', Num (line loc), Str '':'', Num (col loc), Str '': '',
      Str (ERROR_TYPE_SUMMARIES et), Str '': '']"

definition footer_pieces :: "u32 \<Rightarrow> piece list" where
  "footer_pieces n = [Str ''============================== [ END REPORT '', Num n, Str '' ] =============================='', Str [newline]]"

definition ubsan_report_begin :: "SourceLocation \<Rightarrow> ErrorType \<Rightarrow> ReportOpts \<Rightarrow> ubsan_state \<Rightarrow> ubsan_state" where
  "ubsan_report_begin loc et opts st = out_pieces (header_pieces (NEXT_REPORT_INDEX st) loc et) st"

text \<open>One line of the trace; the walk itself is that of the backtrace.\<close>

definition trace_pieces :: "(u32 \<times> symname option) list \<Rightarrow> piece list" where
  "trace_pieces ls = concat (map (\<lambda>(pc, sym).
     [Str (CHR 0x09 # ''at ''), Addr pc, Str ('' in '' @ escape # ''[1m''), Sym sym, Str (escape # ''[0m''), Str [newline]]) ls)"

definition ubsan_report_end :: "ubsan_env \<Rightarrow> ReportOpts \<Rightarrow> ubsan_state \<Rightarrow> ubsan_state option" where
  "ubsan_report_end env opts st =
     do {
       st \<leftarrow> (if backtrace_enabled (tracing env) then do {
                 ls \<leftarrow> trace_lines (tracing env) (ram env) (trace_cursor opts);
                 Some (out_pieces (Str (''Backtrace:'' @ [newline]) # trace_pieces ls) st)
               }
               else Some st);
       let st = out_pieces (footer_pieces (NEXT_REPORT_INDEX st)) st;
       Some (st\<lparr>NEXT_REPORT_INDEX := NEXT_REPORT_INDEX st + 1\<rparr>)
     }"

definition ubsan_report_count :: "ubsan_state \<Rightarrow> u32" where
  "ubsan_report_count st = NEXT_REPORT_INDEX st"

definition ubsan_abort :: "ubsan_state \<Rightarrow> outcome" where
  "ubsan_abort st = Panics (''ubsan: unrecoverable fault'' @ [newline]) st"

text \<open>A handler and then the abort: the variants of the handlers that do not return.\<close>

definition then_abort :: "outcome option \<Rightarrow> outcome option" where
  "then_abort r = map_option (\<lambda>r. case r of Returns st \<Rightarrow> ubsan_abort st | Panics s st \<Rightarrow> Panics s st) r"

section \<open>The handlers that report\<close>

definition handle_type_mismatch :: "ubsan_env \<Rightarrow> TypeMismatchData \<Rightarrow> u32 \<Rightarrow> ReportOpts \<Rightarrow> ubsan_state \<Rightarrow> outcome option" where
  "handle_type_mismatch env Data Pointer opts st =
     do {
       alignment \<leftarrow> lsl 1 (unat (log_alignment Data));
       let et = (if Pointer = 0 then
                   (if tm_kind Data = TCK_NonnullAssign then ET_NullPointerUseWithNullability else ET_NullPointerUse)
                 else if Pointer AND (alignment - 1) \<noteq> 0 then ET_MisalignedPointerUse
                 else ET_InsufficientObjectSize);
       let st = ubsan_report_begin (tm_loc Data) et opts st;
       let kind = TYPE_CHECK_KIND_NAMES (tm_kind Data);
       let name = type_name (tm_ty Data);
       case (case et of
           ET_NullPointerUse \<Rightarrow> Some [Str kind, Str '' null pointer of type '', Str name, Str [newline]]
         | ET_NullPointerUseWithNullability \<Rightarrow> Some [Str kind, Str '' null pointer of type '', Str name, Str [newline]]
         | ET_MisalignedPointerUse \<Rightarrow>
             Some [Str kind, Str '' misaligned address '', Addr Pointer, Str '' for type '', Str name,
               Str '' which requires '', Num alignment, Str '' byte alignment'', Str [newline]]
         | ET_InsufficientObjectSize \<Rightarrow>
             Some [Str kind, Str '' address '', Addr Pointer, Str '' with insufficient space for an object of type '',
               Str name, Str [newline]]
         | _ \<Rightarrow> None) of
         None \<Rightarrow> Some (Panics (''unreachable!'' @ [newline]) st)
       | Some ps \<Rightarrow>
           let st = out_pieces ps st;
               st = (if Pointer \<noteq> 0 then out_pieces [Str ''NOTE: '', Addr Pointer, Str '': pointer points to here'', Str [newline]] st else st)
           in map_option Returns (ubsan_report_end env opts st)
     }"

definition overflow_type :: "TypeDescriptor \<Rightarrow> ErrorType" where
  "overflow_type ty = (if td_is_sint ty then ET_SignedIntegerOverflow else ET_UnsignedIntegerOverflow)"

definition signedness :: "TypeDescriptor \<Rightarrow> string" where
  "signedness ty = (if td_is_sint ty then ''signed'' else ''unsigned'')"

definition handle_integer_overflow ::
  "ubsan_env \<Rightarrow> OverflowData \<Rightarrow> u32 \<Rightarrow> u32 \<Rightarrow> string \<Rightarrow> ReportOpts \<Rightarrow> ubsan_state \<Rightarrow> outcome option" where
  "handle_integer_overflow env Data LHS RHS symbol opts st =
     (let ty = ov_ty Data;
          st = ubsan_report_begin (ov_loc Data) (overflow_type ty) opts st;
          st = out_pieces [Str (signedness ty), Str '' integer overflow: '', Str (value_text env ty LHS), Str '' '', Str symbol,
                 Str '' '', Str (value_text env ty RHS), Str '' cannot be represented in the type '', Str (type_name ty),
                 Str [newline]] st
      in map_option Returns (ubsan_report_end env opts st))"

definition handle_negate_overflow ::
  "ubsan_env \<Rightarrow> OverflowData \<Rightarrow> u32 \<Rightarrow> ReportOpts \<Rightarrow> ubsan_state \<Rightarrow> outcome option" where
  "handle_negate_overflow env Data OldVal opts st =
     (let ty = ov_ty Data;
          st = ubsan_report_begin (ov_loc Data) (overflow_type ty) opts st;
          st = out_pieces [Str (signedness ty), Str '' integer overflow: negation of '', Str (value_text env ty OldVal),
                 Str '' cannot be represented in type '', Str (type_name ty), Str [newline]] st
      in map_option Returns (ubsan_report_end env opts st))"

definition divrem_type :: "ubsan_env \<Rightarrow> TypeDescriptor \<Rightarrow> u32 \<Rightarrow> ErrorType option" where
  "divrem_type env ty RHS =
     (if minus_one_test env ty RHS then Some ET_SignedIntegerOverflow
      else if td_is_int ty then Some ET_IntegerDivideByZero
      else if td_is_float ty then Some ET_FloatDivideByZero
      else None)"

definition handle_divrem_overflow ::
  "ubsan_env \<Rightarrow> OverflowData \<Rightarrow> u32 \<Rightarrow> u32 \<Rightarrow> ReportOpts \<Rightarrow> ubsan_state \<Rightarrow> outcome option" where
  "handle_divrem_overflow env Data LHS RHS opts st =
     (let ty = ov_ty Data
      in case divrem_type env ty RHS of
           None \<Rightarrow> Some (Panics ''handle_divrem_overflow: RHS is not an integer or float'' st)
         | Some et \<Rightarrow>
             let st = ubsan_report_begin (ov_loc Data) et opts st;
                 st = out_pieces (if et = ET_SignedIntegerOverflow
                        then [Str ''division of '', Str (value_text env ty LHS), Str '' by -1 cannot be represented in type '',
                              Str (type_name ty), Str [newline]]
                        else [Str ''division by zero'', Str [newline]]) st
             in map_option Returns (ubsan_report_end env opts st))"

definition conversion_type :: "implicit_conversion_check_kind \<Rightarrow> ErrorType option" where
  "conversion_type k =
     (case k of
        ICCK_IntegerTruncation \<Rightarrow> None
      | ICCK_UnsignedIntegerTruncation \<Rightarrow> Some ET_ImplicitUnsignedIntegerTruncation
      | ICCK_SignedIntegerTruncation \<Rightarrow> Some ET_ImplicitSignedIntegerTruncation
      | ICCK_IntegerSignChange \<Rightarrow> Some ET_ImplicitSignedIntegerSignChange
      | ICCK_SignedIntegerTruncationOrSignChange \<Rightarrow> Some ET_ImplicitSignedIntegerTruncationOrSignChange)"

definition handle_implicit_conversion ::
  "ubsan_env \<Rightarrow> ImplicitConversionData \<Rightarrow> u32 \<Rightarrow> u32 \<Rightarrow> ReportOpts \<Rightarrow> ubsan_state \<Rightarrow> outcome option" where
  "handle_implicit_conversion env Data Src Dst opts st =
     (case conversion_type (ic_kind Data) of
        None \<Rightarrow> Some (Panics (''handle_implicit_conversion: ICCK_IntegerTruncation is no longer supported. Please '' @
          ''update your compiler.'' @ [newline]) st)
      | Some et \<Rightarrow>
          let st = ubsan_report_begin (ic_loc Data) et opts st;
              bits = bitfield_bits Data;
              st = out_pieces [Str ''implicit conversion from type '', Str (type_name (from_ty Data)), Str '' of value '',
                     Str (value_text env (from_ty Data) Src), Str '' ('', Num (width_of env (from_ty Data)),
                     Str ''-bit, '', Str (signedness (from_ty Data)), Str '') to type '', Str (type_name (to_ty Data)),
                     Str '' changed the value to '', Str (value_text env (to_ty Data) Dst), Str '' ('',
                     Num (if bits \<noteq> 0 then bits else width_of env (to_ty Data)), Str ''-bit'',
                     Str (if bits \<noteq> 0 then '' bitfield '' else []), Str '', '', Str (signedness (to_ty Data)), Str '')'',
                     Str [newline]] st
          in map_option Returns (ubsan_report_end env opts st))"

section \<open>The entry points\<close>

text \<open>The handlers that are not implemented.\<close>

datatype todo_check = Alignment_Assumption | Shift_Out_Of_Bounds | Out_Of_Bounds | Local_Out_Of_Bounds | Builtin_Unreachable
  | Missing_Return | VLA_Bound_Not_Positive | Float_Cast_Overflow | Load_Invalid_Value | Invalid_Builtin
  | Nonnull_Return_v1 | Nullability_Return_v1 | Nonnull_Arg | Nullability_Arg | Pointer_Overflow | Function_Type_Mismatch

definition handle_todo :: "todo_check \<Rightarrow> ubsan_state \<Rightarrow> outcome option" where
  "handle_todo c st =
     Some (Panics (''TODO: implement me'' @ (if c = Alignment_Assumption then [] else ''!'') @ [newline]) st)"

text \<open>The calls of checked code, \<^verbatim>\<open>__ubsan_handle_\<close> and the name, with their arguments.\<close>

datatype ubsan_call = type_mismatch_v1 TypeMismatchData u32 | add_overflow OverflowData u32 u32
  | sub_overflow OverflowData u32 u32 | mul_overflow OverflowData u32 u32 | negate_overflow OverflowData u32
  | divrem_overflow OverflowData u32 u32 | implicit_conversion ImplicitConversionData u32 u32 | todo_call todo_check

fun run_handler :: "ubsan_env \<Rightarrow> ReportOpts \<Rightarrow> ubsan_call \<Rightarrow> ubsan_state \<Rightarrow> outcome option" where
  "run_handler env opts (type_mismatch_v1 Data Pointer) st = handle_type_mismatch env Data Pointer opts st"
| "run_handler env opts (add_overflow Data LHS RHS) st = handle_integer_overflow env Data LHS RHS ''+'' opts st"
| "run_handler env opts (sub_overflow Data LHS RHS) st = handle_integer_overflow env Data LHS RHS ''-'' opts st"
| "run_handler env opts (mul_overflow Data LHS RHS) st = handle_integer_overflow env Data LHS RHS ''*'' opts st"
| "run_handler env opts (negate_overflow Data OldVal) st = handle_negate_overflow env Data OldVal opts st"
| "run_handler env opts (divrem_overflow Data LHS RHS) st = handle_divrem_overflow env Data LHS RHS opts st"
| "run_handler env opts (implicit_conversion Data Src Dst) st = handle_implicit_conversion env Data Src Dst opts st"
| "run_handler env opts (todo_call c) st = handle_todo c st"

definition ubsan_handle :: "ubsan_env \<Rightarrow> ubsan_call \<Rightarrow> ubsan_state \<Rightarrow> outcome option" where
  "ubsan_handle env c st = run_handler env (UBSAN_OPTS env False) c st"

definition ubsan_handle_abort :: "ubsan_env \<Rightarrow> ubsan_call \<Rightarrow> ubsan_state \<Rightarrow> outcome option" where
  "ubsan_handle_abort env c st = then_abort (run_handler env (UBSAN_OPTS env True) c st)"

section \<open>What a report says\<close>

text \<open>The error of a call, when its handler reports one, and its place.\<close>

fun reported :: "ubsan_env \<Rightarrow> ubsan_call \<Rightarrow> (SourceLocation \<times> ErrorType) option" where
  "reported env (type_mismatch_v1 Data Pointer) =
     Some (tm_loc Data,
       if Pointer = 0 then (if tm_kind Data = TCK_NonnullAssign then ET_NullPointerUseWithNullability else ET_NullPointerUse)
       else if \<not> 2 ^ unat (log_alignment Data) dvd unat Pointer then ET_MisalignedPointerUse else ET_InsufficientObjectSize)"
| "reported env (add_overflow Data LHS RHS) = Some (ov_loc Data, overflow_type (ov_ty Data))"
| "reported env (sub_overflow Data LHS RHS) = Some (ov_loc Data, overflow_type (ov_ty Data))"
| "reported env (mul_overflow Data LHS RHS) = Some (ov_loc Data, overflow_type (ov_ty Data))"
| "reported env (negate_overflow Data OldVal) = Some (ov_loc Data, overflow_type (ov_ty Data))"
| "reported env (divrem_overflow Data LHS RHS) = map_option (Pair (ov_loc Data)) (divrem_type env (ov_ty Data) RHS)"
| "reported env (implicit_conversion Data Src Dst) = map_option (Pair (ic_loc Data)) (conversion_type (ic_kind Data))"
| "reported env (todo_call c) = None"

text \<open>The lines of the trace between the text and the footer; \<open>None\<close> when the walk does not end.\<close>

definition trace_part :: "ubsan_env \<Rightarrow> ReportOpts \<Rightarrow> piece list option" where
  "trace_part env opts =
     (if backtrace_enabled (tracing env)
      then map_option (\<lambda>ls. Str (''Backtrace:'' @ [newline]) # trace_pieces ls) (trace_lines (tracing env) (ram env) (trace_cursor opts))
      else Some [])"

lemma out_pieces_fields [simp]:
  "NEXT_REPORT_INDEX (out_pieces ps st) = NEXT_REPORT_INDEX st" "console (out_pieces ps st) = console st @ ps"
  by (simp_all add: out_pieces_def)

lemma ubsan_report_end_eq:
  "ubsan_report_end env opts st = map_option (\<lambda>t. \<lparr>NEXT_REPORT_INDEX = NEXT_REPORT_INDEX st + 1,
     console = console st @ t @ footer_pieces (NEXT_REPORT_INDEX st)\<rparr>) (trace_part env opts)"
  by (cases "trace_lines (tracing env) (ram env) (trace_cursor opts)")
    (simp_all add: ubsan_report_end_def trace_part_def out_pieces_def Let_def)

text \<open>One whole report: header, text, trace and footer with the same number, and the next number.\<close>

definition after_report :: "SourceLocation \<Rightarrow> ErrorType \<Rightarrow> piece list \<Rightarrow> piece list \<Rightarrow> ubsan_state \<Rightarrow> ubsan_state" where
  "after_report loc et ps t st =
     (let n = NEXT_REPORT_INDEX st
      in \<lparr>NEXT_REPORT_INDEX = n + 1, console = console st @ header_pieces n loc et @ ps @ t @ footer_pieces n\<rparr>)"

lemma report_whole:
  "trace_part env opts = Some t \<Longrightarrow>
   ubsan_report_end env opts (out_pieces ps (ubsan_report_begin loc et opts st)) = Some (after_report loc et ps t st)"
  by (simp add: ubsan_report_end_eq ubsan_report_begin_def after_report_def Let_def)

lemma out_pieces_append: "out_pieces ps (out_pieces qs st) = out_pieces (qs @ ps) st"
  by (simp add: out_pieces_def)

lemma out_pieces_if: "(if P then out_pieces ps st else st) = out_pieces (if P then ps else []) st"
  by (simp add: out_pieces_def)

lemma low_bits_dvd: "p AND (push_bit k 1 - 1) = 0 \<longleftrightarrow> 2 ^ k dvd unat p" for p :: u32
proof -
  have "p AND (push_bit k 1 - 1) = take_bit k p" by (simp add: mask_eq_decr_exp take_bit_eq_mask)
  moreover have "unat (take_bit k p) = unat p mod 2 ^ k" by (simp only: unsigned_take_bit_eq) (simp add: take_bit_eq_mod)
  ultimately show ?thesis by (metis dvd_eq_mod_eq_0 unat_eq_zero)
qed

lemma handle_type_mismatch_reports:
  assumes "trace_part env opts = Some t" "log_alignment Data < 32" "reported env (type_mismatch_v1 Data Pointer) = Some (loc, et)"
  shows "\<exists>ps. handle_type_mismatch env Data Pointer opts st = Some (Returns (after_report loc et ps t st))"
proof -
  have "lsl 1 (unat (log_alignment Data)) = Some (push_bit (unat (log_alignment Data)) 1)"
    using assms(2) by (simp add: lsl_def word_less_nat_alt)
  then show ?thesis
    using assms(3) report_whole [OF assms(1)] low_bits_dvd [of Pointer "unat (log_alignment Data)"]
    by (auto simp: handle_type_mismatch_def Let_def out_pieces_append out_pieces_if split: if_splits)
qed

lemma run_handler_reports:
  assumes "trace_part env opts = Some t" "\<And>Data p. c = type_mismatch_v1 Data p \<Longrightarrow> log_alignment Data < 32"
    and "reported env c = Some (loc, et)"
  shows "\<exists>ps. run_handler env opts c st = Some (Returns (after_report loc et ps t st))"
proof -
  note r = report_whole [OF assms(1)]
  show ?thesis
  proof (cases c)
    case (type_mismatch_v1 Data p)
    then show ?thesis using handle_type_mismatch_reports [OF assms(1) _ assms(3) [unfolded type_mismatch_v1]] assms(2) by simp
  next
    case (divrem_overflow Data l p)
    then show ?thesis using assms(3) r by (auto simp: handle_divrem_overflow_def Let_def)
  next
    case (implicit_conversion Data p q)
    then show ?thesis using assms(3) r by (auto simp: handle_implicit_conversion_def Let_def)
  qed (use assms(3) r in \<open>auto simp: handle_integer_overflow_def handle_negate_overflow_def Let_def\<close>)
qed

lemma run_handler_panics:
  assumes "reported env c = None"
  shows "\<exists>s. run_handler env opts c st = Some (Panics s st)"
  using assms by (cases c) (auto simp: handle_divrem_overflow_def handle_implicit_conversion_def handle_todo_def Let_def)


section \<open>What the digits say\<close>

text \<open>The value of \<open>i\<close> bytes in memory, least significant first, and its digits with leading zeros.\<close>

fun bytes_val :: "mem \<Rightarrow> nat \<Rightarrow> nat \<Rightarrow> nat" where
  "bytes_val m p 0 = 0"
| "bytes_val m p (Suc j) = unat (m (p + j)) * 256 ^ j + bytes_val m p j"

lemma bytes_val_numeral: "bytes_val m p (numeral k) = unat (m (p + pred_numeral k)) * 256 ^ pred_numeral k + bytes_val m p (pred_numeral k)"
  by (simp add: numeral_eq_Suc)

fun hexpad :: "nat \<Rightarrow> nat \<Rightarrow> string" where
  "hexpad 0 n = []"
| "hexpad (Suc k) n = hexpad k (n div 16) @ [hex_digit (n mod 16)]"

lemma bytes_val_less: "bytes_val m p j < 256 ^ j"
proof (induction j)
  case (Suc j)
  have "unat (m (p + j)) \<le> 255" using unsigned_less [of "m (p + j)", where 'a = nat] by simp
  then have "unat (m (p + j)) * 256 ^ j + bytes_val m p j < 255 * 256 ^ j + 256 ^ j" using Suc by (intro add_le_less_mono) simp_all
  then show ?case by simp
qed simp

lemma hexpad_add: "b < 16 ^ k \<Longrightarrow> hexpad (l + k) (a * 16 ^ k + b) = hexpad l a @ hexpad k b"
proof (induction k arbitrary: b)
  case (Suc k)
  have "a * 16 ^ Suc k + b = (a * 16 ^ k) * 16 + b" by simp
  then have "(a * 16 ^ Suc k + b) div 16 = a * 16 ^ k + b div 16" "(a * 16 ^ Suc k + b) mod 16 = b mod 16"
    by (simp_all only: div_mult_self3 mod_mult_self3 add.commute) simp_all
  moreover have "b div 16 < 16 ^ k" using Suc.prems by (simp add: less_mult_imp_div_less mult.commute)
  ultimately show ?case using Suc.IH [of "b div 16"] by simp
qed simp

lemma hexs_add: "b < 16 ^ k \<Longrightarrow> a \<noteq> 0 \<Longrightarrow> hexs (a * 16 ^ k + b) = hexs a @ hexpad k b"
proof (induction k arbitrary: b)
  case (Suc k)
  have "a * 16 ^ Suc k + b = (a * 16 ^ k) * 16 + b" by simp
  then have d: "(a * 16 ^ Suc k + b) div 16 = a * 16 ^ k + b div 16" "(a * 16 ^ Suc k + b) mod 16 = b mod 16"
    by (simp_all only: div_mult_self3 mod_mult_self3 add.commute) simp_all
  have "1 * 1 \<le> a * 16 ^ k" using Suc.prems(2) by (intro mult_le_mono) simp_all
  then have "\<not> (a * 16 ^ k) * 16 + b < 16" by linarith
  then have "\<not> a * 16 ^ Suc k + b < 16" by (simp add: mult.assoc mult.commute)
  then have "hexs (a * 16 ^ Suc k + b) = hexs (a * 16 ^ k + b div 16) @ [hex_digit (b mod 16)]"
    by (subst hexs.simps) (simp only: if_False d)
  moreover have "b div 16 < 16 ^ k" using Suc.prems by (simp add: less_mult_imp_div_less mult.commute)
  ultimately show ?case using Suc.IH [of "b div 16"] Suc.prems(2) by simp
qed simp

lemma hex02_pad: "n < 256 \<Longrightarrow> hex02 n = hexpad 2 n"
  by (simp add: hex02_def numeral_2_eq_2)

lemma print_bytes_digits:
  assumes "unat b < 256"
  shows "print_bytes m p i b hit = (if hit then hexpad (2 * i + 2) else hexs) (unat b * 256 ^ i + bytes_val m p i)"
  using assms
proof (induction i arbitrary: b hit)
  case 0
  have "unat (ucast b :: u8) = unat b" using 0 by (simp add: unsigned_ucast_eq take_bit_eq_mod)
  then show ?case using 0 by (subst print_bytes.simps) (simp add: Let_def hex02_pad numeral_2_eq_2)
next
  case (Suc i)
  let ?v = "bytes_val m p (Suc i)" and ?c = "ucast (m (p + i)) :: u32"
  have u: "unat (ucast b :: u8) = unat b" using Suc.prems by (simp add: unsigned_ucast_eq take_bit_eq_mod)
  have ml: "unat (m (p + i)) < 256" using unsigned_less [of "m (p + i)", where 'a = nat] by simp
  then have c: "unat ?c = unat (m (p + i))" by (simp add: unsigned_ucast_eq take_bit_eq_mod)
  with ml have cl: "unat ?c < 256" by simp
  have k: "?v < 16 ^ (2 * Suc i)" using bytes_val_less [of m p "Suc i"] by (simp add: power_mult)
  have e: "(256 :: nat) ^ Suc i = 16 ^ (2 * Suc i)" by (simp add: power_mult)
  have v: "unat ?c * 256 ^ i + bytes_val m p i = ?v" by (simp add: c)
  have "print_bytes m p (Suc i) b hit =
      (if hit then hex02 (unat b) else if b \<noteq> 0 then hexs (unat b) else []) @ print_bytes m p i ?c (hit \<or> b \<noteq> 0)"
    by (subst print_bytes.simps) (simp add: Let_def u)
  also have "print_bytes m p i ?c (hit \<or> b \<noteq> 0) = (if hit \<or> b \<noteq> 0 then hexpad (2 * i + 2) else hexs) ?v"
    unfolding Suc.IH [OF cl] v ..
  finally have p: "print_bytes m p (Suc i) b hit = (if hit then hex02 (unat b) else if b \<noteq> 0 then hexs (unat b) else []) @
    (if hit \<or> b \<noteq> 0 then hexpad (2 * i + 2) else hexs) ?v" .
  have h: "hexpad (2 + 2 * Suc i) (unat b * 16 ^ (2 * Suc i) + ?v) = hexpad 2 (unat b) @ hexpad (2 * Suc i) ?v" by (rule hexpad_add [OF k])
  have n: "b \<noteq> 0 \<Longrightarrow> hexs (unat b * 16 ^ (2 * Suc i) + ?v) = hexs (unat b) @ hexpad (2 * Suc i) ?v"
    by (rule hexs_add [OF k]) (simp add: unat_eq_zero)
  show ?case unfolding p e using h n hex02_pad [OF Suc.prems] by (simp add: add.commute)
qed

lemma top_byte_mask: "NOT (push_bit k (0xff :: u32)) AND ucast b = take_bit k (ucast b)" if "k < 8" for b :: u8
proof (rule bit_word_eqI)
  fix n :: nat
  assume "n < LENGTH(32)"
  have f: "(0xff :: u32) = mask 8" by (simp add: mask_eq_decr_exp)
  have "bit b n \<Longrightarrow> n < 8" by (rule ccontr) (use bit_imp_le_length [of b n] in simp)
  then show "bit (NOT (push_bit k (0xff :: u32)) AND ucast b) n = bit (take_bit k (ucast b :: u32)) n"
    using that unfolding f by (auto simp: bit_simps)
qed

lemma low_mask: "NOT (push_bit w (NOT 0)) AND v = take_bit w v" for v :: u32
  by (rule bit_word_eqI) (auto simp: bit_simps)

lemma unat_take_bit_word: "unat (take_bit k (x :: u32)) = unat x mod 2 ^ k"
  by (simp only: unsigned_take_bit_eq) (simp add: take_bit_eq_mod)

lemma div_up: "0 < r \<Longrightarrow> r < 8 \<Longrightarrow> (8 * q + r + 7) div 8 = Suc q" for q r :: nat
  by (rule div_nat_eqI) simp_all

lemma byte_width: "unat ((w + 7) div 8) = (unat w + 7) div 8" if "unat w + 7 < 2 ^ 32" for w :: u32
  using that unat_add_of_nat [of w 7] by (simp add: unat_div)

text \<open>The number that is printed for a value of \<open>w\<close> bits, for a width other than 32.\<close>

definition printed_number :: "mem \<Rightarrow> nat \<Rightarrow> u32 \<Rightarrow> nat" where
  "printed_number m w val =
     (if w < 32 then unat val mod 2 ^ w
      else if 8 dvd w then bytes_val m (unat val) (w div 8) mod 2 ^ (w - 8)
      else bytes_val m (unat val) (w div 8 + 1) mod 2 ^ w)"

lemma bytes_val_top: "k < 8 \<Longrightarrow> (unat (m (p + i)) mod 2 ^ k) * 256 ^ i + bytes_val m p i = bytes_val m p (Suc i) mod 2 ^ (8 * i + k)"
proof -
  let ?b = "unat (m (p + i))" and ?v = "bytes_val m p i"
  have e: "(256 :: nat) ^ i = 2 ^ (8 * i)" by (simp add: power_mult)
  have v: "?v < 2 ^ (8 * i)" using bytes_val_less [of m p i] e by simp
  have "(?b * 2 ^ (8 * i) + ?v) mod (2 ^ (8 * i) * 2 ^ k) = 2 ^ (8 * i) * ((?b * 2 ^ (8 * i) + ?v) div 2 ^ (8 * i) mod 2 ^ k) + (?b * 2 ^ (8 * i) + ?v) mod 2 ^ (8 * i)"
    by (rule mod_mult2_eq)
  also have "(?b * 2 ^ (8 * i) + ?v) div 2 ^ (8 * i) = ?b" using v by simp
  also have "(?b * 2 ^ (8 * i) + ?v) mod 2 ^ (8 * i) = ?v" using v by simp
  finally show ?thesis by (simp add: e power_add mult.commute)
qed

lemma print_value_int_spells:
  assumes "td_get_bit_width td = Some b" "w = unat b" "0 < w" "w + 7 < 2 ^ 32"
  shows "print_value_int m td val = (if w = 32 then None else Some (''0x'' @ hexs (printed_number m w val)))"
proof -
  let ?w = "b" and ?n = "(b + 7) div 8"
  have n: "unat ?n = (w + 7) div 8" using byte_width [of ?w] assms by simp
  have n0: "?n \<noteq> 0" using n assms(3) by (auto simp flip: unat_eq_zero)
  have n4: "?n \<le> 4 \<longleftrightarrow> w \<le> 32" using n by (auto simp: word_le_nat_alt)
  show ?thesis
  proof (cases "w \<le> 32")
    case True
    have z: "''0x0'' = ''0x'' @ hexs 0" by (simp add: hexs.simps hex_digit_def)
    have "take_bit w val = 0 \<longleftrightarrow> unat val mod 2 ^ w = 0" by (simp only: unat_take_bit_word [symmetric] unat_eq_zero)
    then show ?thesis using True n0 n4 z
      by (auto simp: print_value_int_def Let_def assms(1) assms(2) [symmetric] lsl_def low_mask [simplified] printed_number_def unat_take_bit_word)
  next
    case False
    let ?k = "w mod 8" and ?i = "unat ?n - 1"
    have k: "unat (?w AND 7) = ?k" using unat_and_mask [of ?w 3] by (simp add: assms(2) mask_eq_exp_minus_1)
    have k8: "?k < 8" by simp
    let ?b = "NOT (push_bit ?k 0xff) AND ucast (m (unat val + ?i)) :: u32"
    have ml: "unat (m (unat val + ?i)) < 256" using unsigned_less [of "m (unat val + ?i)", where 'a = nat] by simp
    then have c: "unat (ucast (m (unat val + ?i)) :: u32) = unat (m (unat val + ?i))" by (simp add: unsigned_ucast_eq take_bit_eq_mod)
    have b: "unat ?b = unat (m (unat val + ?i)) mod 2 ^ ?k" unfolding top_byte_mask [OF k8] unat_take_bit_word c ..
    moreover have "unat (m (unat val + ?i)) mod 2 ^ ?k \<le> unat (m (unat val + ?i))" by (rule mod_less_eq_dividend)
    ultimately have "unat ?b < 256" using ml by linarith
    note d = print_bytes_digits [OF this, of m "unat val" ?i False]
    have "unat ?b * 256 ^ ?i + bytes_val m (unat val) ?i = bytes_val m (unat val) (Suc ?i) mod 2 ^ (8 * ?i + ?k)"
      unfolding b by (rule bytes_val_top [OF k8])
    also have "\<dots> = printed_number m w val"
    proof (cases "8 dvd w")
      case True
      then have "Suc ?i = w div 8" "8 * ?i + ?k = w - 8" using n False by (auto elim!: dvdE)
      then show ?thesis using False True by (simp add: printed_number_def)
    next
      case nd: False
      then have "0 < ?k" by (simp add: dvd_eq_mod_eq_0)
      then have "(w + 7) div 8 = Suc (w div 8)" using k8 div_up [of ?k "w div 8"] by simp
      then have "Suc ?i = w div 8 + 1" "8 * ?i + ?k = w" using n by simp_all
      then show ?thesis using False nd by (simp add: printed_number_def)
    qed
    finally show ?thesis using False n0 n4 d by (simp add: print_value_int_def Let_def assms(1) k)
  qed
qed

lemma all_ones: "NOT (push_bit w (NOT 0) OR (v AND NOT (push_bit w (NOT 0)))) = 0 \<longleftrightarrow> take_bit w v = mask w" for v :: u32
proof -
  have "NOT (push_bit w (NOT 0) OR (v AND NOT (push_bit w (NOT 0)))) = mask w AND NOT v"
    by (rule bit_word_eqI) (auto simp: bit_simps)
  also have "\<dots> = 0 \<longleftrightarrow> take_bit w v = mask w"
    by (auto simp: bit_eq_iff bit_simps)
  finally show ?thesis .
qed

lemma is_minus_one_narrow:
  assumes "td_is_sint td" "td_get_bit_width td = Some b" "w = unat b" "0 < w" "w \<le> 32"
  shows "is_minus_one m td val = (if w = 32 then None else Some (take_bit w val = mask w))"
proof -
  let ?n = "(b + 7) div 8"
  have n: "unat ?n = (w + 7) div 8" using byte_width [of b] assms by simp
  have "?n \<noteq> 0" "?n \<le> 4" using n assms(4,5) by (auto simp: word_le_nat_alt simp flip: unat_eq_zero)
  then show ?thesis using assms all_ones [of w val]
    by (auto simp: is_minus_one_def td_is_sint_def td_is_uint_def lsl_def Let_def)
qed

lemma is_minus_one_wide:
  assumes "td_get_bit_width td = Some b" "w = unat b" "32 < w" "w + 7 < 2 ^ 32"
  shows "is_minus_one m td val = Some False"
proof -
  let ?n = "(b + 7) div 8"
  have "unat ?n = (w + 7) div 8" using byte_width [of b] assms by simp
  then have "\<not> ?n \<le> 4" using assms(3) by (auto simp: word_le_nat_alt)
  moreover have "NOT (ucast v :: u32) \<noteq> 0" for v :: u8
  proof
    assume "NOT (ucast v :: u32) = 0"
    then have "bit (NOT (ucast v :: u32)) 31 = False" by simp
    then have "bit v 31" by (simp add: bit_simps)
    then show False using bit_imp_le_length [of v 31] by simp
  qed
  then have "\<not> minus_one_bytes m p i v" for p i v by (subst minus_one_bytes.simps) simp
  ultimately show ?thesis using assms(1) by (simp add: is_minus_one_def Let_def)
qed

section \<open>Properties\<close>

text \<open>
  C38: Every call of checked code has one outcome. When the walk over the frames ends, a handler that is implemented, for an
  error that it knows, prints exactly one report: a header with the number of the report, the place and the class of the error,
  a text, the trace, and a footer with the same number; the next report has the next number. It then returns, and
  its variant that aborts panics. Every other call panics without a report. This holds whatever the compiled code makes of
  the undefined shifts for types of 32 bits (\<open>any_text\<close>, \<open>any_test\<close>); the shift by \<open>log_alignment\<close> is defined by assumption.
\<close>

theorem calls_report_once:
  assumes "trace_part env (UBSAN_OPTS env False) = Some t" "\<forall>Data p. c = type_mismatch_v1 Data p \<longrightarrow> log_alignment Data < 32"
  shows "case reported env c of
     None \<Rightarrow> \<exists>s s'. ubsan_handle env c st = Some (Panics s st) \<and> ubsan_handle_abort env c st = Some (Panics s' st)
   | Some (loc, et) \<Rightarrow> \<exists>ps qs. ubsan_handle env c st = Some (Returns (after_report loc et ps t st)) \<and>
       ubsan_handle_abort env c st = Some (ubsan_abort (after_report loc et qs t st))"
proof (cases "reported env c")
  case None
  then obtain s1 s2 where "run_handler env (UBSAN_OPTS env False) c st = Some (Panics s1 st)"
    "run_handler env (UBSAN_OPTS env True) c st = Some (Panics s2 st)" using run_handler_panics by blast
  then show ?thesis using None by (simp add: ubsan_handle_def ubsan_handle_abort_def then_abort_def)
next
  case (Some le)
  then obtain loc et where le: "reported env c = Some (loc, et)" by (cases le) auto
  have "trace_cursor (UBSAN_OPTS env u) = trace_cursor (UBSAN_OPTS env False)" for u by (simp add: UBSAN_OPTS_def)
  then have t: "trace_part env (UBSAN_OPTS env u) = Some t" for u using assms(1) unfolding trace_part_def by metis
  have "\<exists>ps. run_handler env (UBSAN_OPTS env u) c st = Some (Returns (after_report loc et ps t st))" for u
    using run_handler_reports [OF t _ le] assms(2) by blast
  then show ?thesis unfolding le by (fastforce simp: ubsan_handle_def ubsan_handle_abort_def then_abort_def)
qed

text \<open>An overflow of two signed words, without traces.\<close>

definition int_type :: TypeDescriptor where
  "int_type = \<lparr>type_kind = TK_Integer, type_info = 11, type_name = ''int'', name_tail = []\<rparr>"

definition sample_loc :: SourceLocation where
  "sample_loc = \<lparr>filename = ''a.c'', line = 3, col = 7\<rparr>"

definition silent_env :: ubsan_env where
  "silent_env = \<lparr>tracing = \<lparr>trace_capability = TCAP_NONE, trace_info = \<lparr>image_base = 0, symtab = 0, strtab = 0\<rparr>\<rparr>,
     ram = (\<lambda>_. 0), ret_addr = 0, frame_addr = 0,
     any_text = (\<lambda>_ _. []), any_test = (\<lambda>_ _. False), any_width = (\<lambda>_. 0)\<rparr>"

definition first_state :: ubsan_state where
  "first_state = \<lparr>NEXT_REPORT_INDEX = 0, console = []\<rparr>"

theorem calls_report_once_witness:
  "\<exists>ps. ubsan_handle silent_env (add_overflow \<lparr>ov_loc = sample_loc, ov_ty = int_type\<rparr> 0x7fffffff 1) first_state =
    Some (Returns (after_report sample_loc ET_SignedIntegerOverflow ps [] first_state))"
proof -
  have "trace_part silent_env (UBSAN_OPTS silent_env False) = Some []"
    by (simp add: trace_part_def backtrace_enabled_def silent_env_def)
  moreover have "overflow_type int_type = ET_SignedIntegerOverflow"
    by (simp add: overflow_type_def td_is_sint_def td_is_int_def int_type_def)
  ultimately show ?thesis
    using calls_report_once [of silent_env "[]" "add_overflow \<lparr>ov_loc = sample_loc, ov_ty = int_type\<rparr> 0x7fffffff 1" first_state]
    by auto
qed

text \<open>
  C39: A value of an integer type of \<open>w\<close> bits is printed in hexadecimal, as its bits say: from the handle below 32 bits, from
  memory above. For 32 bits the code shifts by the width of the word, and what it prints is undefined. When a wider type is
  a whole number of bytes, the mask of its highest byte is zero, so that this byte is lost: the printed number is the value
  without its top eight bits.
\<close>

theorem integers_are_spelled:
  assumes "td_is_int td" "td_get_bit_width td = Some b" "w = unat b" "0 < w" "w + 7 < 2 ^ 32"
  shows "print_value m td val = (
    if w = 32 then None
    else Some (''0x'' @ hexs (
      if w < 32 then unat val mod 2 ^ w
      else if 8 dvd w then bytes_val m (unat val) (w div 8) mod 2 ^ (w - 8)
      else bytes_val m (unat val) (w div 8 + 1) mod 2 ^ w)))"
  using print_value_int_spells [OF assms(2-5)] assms(1) by (simp add: print_value_def printed_number_def)

theorem integers_are_spelled_witness:
  "print_value (\<lambda>_. 0x12) \<lparr>type_kind = TK_Integer, type_info = 9, type_name = ''short'', name_tail = []\<rparr> 0xffffcafe = Some ''0xcafe'' \<and>
   print_value (\<lambda>_. 0x12) int_type 0xcafe = None \<and>
   print_value (\<lambda>_. 0x12) \<lparr>type_kind = TK_Integer, type_info = 13, type_name = ''long long'', name_tail = []\<rparr> 0x100 =
     Some ''0x12121212121212''"
proof -
  let ?s = "\<lparr>type_kind = TK_Integer, type_info = 9, type_name = ''short'', name_tail = []\<rparr>"
  let ?ll = "\<lparr>type_kind = TK_Integer, type_info = 13, type_name = ''long long'', name_tail = []\<rparr>"
  have "td_is_int ?s" "td_is_int int_type" "td_is_int ?ll" "td_get_bit_width ?s = Some 16"
    "td_get_bit_width int_type = Some 32" "td_get_bit_width ?ll = Some 64"
    by code_simp+
  note w = this
  have "hexs (unat (0xffffcafe :: u32) mod 2 ^ 16) = ''cafe''" by (simp add: hexs.simps hex_digit_def)
  moreover have "hexs (bytes_val (\<lambda>_. 0x12) (unat (0x100 :: u32)) (64 div 8) mod 2 ^ (64 - 8)) = ''12121212121212''"
    by (simp add: bytes_val_numeral hexs.simps hex_digit_def)
  ultimately show ?thesis
    using integers_are_spelled [OF w(1,4) refl, of "\<lambda>_. 0x12" "0xffffcafe"]
      integers_are_spelled [OF w(2,5) refl, of "\<lambda>_. 0x12" "0xcafe"]
      integers_are_spelled [OF w(3,6) refl, of "\<lambda>_. 0x12" "0x100"] by simp
qed

text \<open>
  A division overflow is told from a division by zero for types of less than 32 bits only: the test is undefined at 32
  bits, and fails above.
\<close>

theorem division_errors:
  assumes "td_is_sint td" "td_get_bit_width td = Some b" "w = unat b" "0 < w" "w + 7 < 2 ^ 32"
  shows "divrem_type env td RHS = Some (
    if w < 32 \<and> take_bit w RHS = mask w \<or> w = 32 \<and> any_test env td RHS then ET_SignedIntegerOverflow else ET_IntegerDivideByZero)"
proof (cases "w \<le> 32")
  case True
  then show ?thesis using assms(1) is_minus_one_narrow [OF assms(1-4) True, of "ram env" RHS]
    by (auto simp: divrem_type_def minus_one_test_def td_is_sint_def)
next
  case False
  then show ?thesis using assms(1) is_minus_one_wide [OF assms(2,3) _ assms(5), of "ram env" RHS]
    by (auto simp: divrem_type_def minus_one_test_def td_is_sint_def)
qed

end
