(* ===== verification/Page_Alloc.thy ===== *)
theory Page_Alloc
  imports Prelude
begin

text \<open>
  The allocator of physical pages, \<^verbatim>\<open>bcm2835/240-superopt/ppa.c\<close> and \<^verbatim>\<open>sopter.h\<close>: supersections of sixteen
  sections of sixteen large pages of sixteen small pages. Arrays are functions of the index, with their bounds
  in the operations; \<open>None\<close> is a failed assertion or an access outside of an array. Its messages are left out.
\<close>

section \<open>Regions\<close>

text \<open>The kinds are the numbers of their enumeration; the code computes with them.\<close>

type_synonym RegionKind = nat

definition RK_Supersection :: RegionKind where "RK_Supersection = 0"
definition RK_Section :: RegionKind where "RK_Section = 1"
definition RK_LargePage :: RegionKind where "RK_LargePage = 2"
definition RK_SmallPage :: RegionKind where "RK_SmallPage = 3"

lemmas kinds = RK_Supersection_def RK_Section_def RK_LargePage_def RK_SmallPage_def

record RegionInfo =
  bitmap :: u16
  ri_next :: u16
  ri_prev :: u16

definition REGION_COUNT :: nat where "REGION_COUNT = 0x2220"
definition CHAIN_END :: u16 where "CHAIN_END = 0xffff"
definition SIZE_MAX :: u32 where "SIZE_MAX = 0xffffffff"

record PhysicalPageAllocator =
  regions :: "nat \<Rightarrow> RegionInfo"
  supersection_mask :: u32
  floating_lists :: "nat \<Rightarrow> u32"
  floating_counts :: "nat \<Rightarrow> u32"
  allocated_counts :: "nat \<Rightarrow> u32"

definition REGION_SCALES :: "RegionKind \<Rightarrow> u32" where
  "REGION_SCALES rk = [16 * 1024 * 1024, 1 * 1024 * 1024, 64 * 1024, 4 * 1024] ! rk"

definition get_region_ptr :: "u32 \<Rightarrow> RegionKind \<Rightarrow> u32" where
  "get_region_ptr no rk = REGION_SCALES rk * no"

definition INDEX_OFFSETS :: "RegionKind \<Rightarrow> u32" where
  "INDEX_OFFSETS rk = [0x2200, 0x2000, 0, 0xdeaddead] ! rk"

definition region_index :: "u32 \<Rightarrow> RegionKind \<Rightarrow> u32 option" where
  "region_index i rk = (if rk = RK_SmallPage then None else Some (i + INDEX_OFFSETS rk))"

text \<open>Updates of one region, and one more region allocated.\<close>

definition upd_region :: "u32 \<Rightarrow> (RegionInfo \<Rightarrow> RegionInfo) \<Rightarrow> PhysicalPageAllocator \<Rightarrow> PhysicalPageAllocator option" where
  "upd_region idx f ppa =
     (if unat idx < REGION_COUNT then Some (ppa\<lparr>regions := (regions ppa)(unat idx := f (regions ppa (unat idx)))\<rparr>) else None)"

definition count_allocated :: "RegionKind \<Rightarrow> PhysicalPageAllocator \<Rightarrow> PhysicalPageAllocator" where
  "count_allocated rk ppa = ppa\<lparr>allocated_counts := (allocated_counts ppa)(rk := allocated_counts ppa rk + 1)\<rparr>"

section \<open>Floating regions\<close>

text \<open>A region floats while it is allocated in part; the floating regions of a kind are chained.\<close>

definition float_region :: "PhysicalPageAllocator \<Rightarrow> u32 \<Rightarrow> RegionKind \<Rightarrow> PhysicalPageAllocator option" where
  "float_region ppa idx_in_kind rk =
     do {
       idx \<leftarrow> region_index idx_in_kind rk;
       let ppa = ppa\<lparr>floating_counts := (floating_counts ppa)(rk := floating_counts ppa rk + 1)\<rparr>;
       let l = floating_lists ppa rk;
       ppa \<leftarrow> upd_region idx (\<lambda>r. r\<lparr>ri_prev := CHAIN_END, ri_next := (if l = SIZE_MAX then CHAIN_END else ucast l)\<rparr>) ppa;
       Some (ppa\<lparr>floating_lists := (floating_lists ppa)(rk := idx)\<rparr>)
     }"

definition unfloat_region :: "PhysicalPageAllocator \<Rightarrow> u32 \<Rightarrow> RegionKind \<Rightarrow> PhysicalPageAllocator option" where
  "unfloat_region ppa region_idx rk =
     (if \<not> unat region_idx < REGION_COUNT then None
      else do {
        let ppa = ppa\<lparr>floating_counts := (floating_counts ppa)(rk := floating_counts ppa rk - 1)\<rparr>;
        let nxt = ri_next (regions ppa (unat region_idx));
        ppa \<leftarrow> (if nxt \<noteq> CHAIN_END then upd_region (ucast nxt) (\<lambda>r. r\<lparr>ri_prev := CHAIN_END\<rparr>) ppa else Some ppa);
        let prev = ri_prev (regions ppa (unat region_idx));
        if prev \<noteq> CHAIN_END then upd_region (ucast prev) (\<lambda>r. r\<lparr>ri_next := nxt\<rparr>) ppa
        else if unat region_idx < 3 then
          Some (ppa\<lparr>floating_lists := (floating_lists ppa)(unat region_idx := (if nxt = CHAIN_END then SIZE_MAX else ucast nxt))\<rparr>)
        else None
      })"

section \<open>Initialization\<close>

text \<open>The loop that passes the claims that end before a page; \<open>Some None\<close> is its jump out of the loop over the pages.\<close>

function pass_preclaims :: "(u32 \<times> u32) list \<Rightarrow> u32 \<Rightarrow> nat \<Rightarrow> nat option option" where
  "pass_preclaims preclaims r1 j =
     (if \<not> j < length preclaims then None
      else if snd (preclaims ! j) \<le> r1 then
        (if j \<ge> length preclaims then Some None else pass_preclaims preclaims r1 (Suc j))
      else Some (Some j))"
  by auto
termination by (relation "measure (\<lambda>(p, _, j). length p - j)") auto

fun claim_pages :: "(u32 \<times> u32) list \<Rightarrow> nat list \<Rightarrow> nat \<Rightarrow> PhysicalPageAllocator \<Rightarrow> PhysicalPageAllocator option" where
  "claim_pages preclaims [] j ppa = Some ppa"
| "claim_pages preclaims (i # is) j ppa =
     (let r1 = get_region_ptr (of_nat (i + 1)) RK_SmallPage
      in if r1 \<le> fst (preclaims ! 0) then claim_pages preclaims is j ppa
         else do {
           let ppa = count_allocated RK_SmallPage ppa;
           idx \<leftarrow> region_index (of_nat (i div 16)) RK_LargePage;
           ppa \<leftarrow> upd_region idx (\<lambda>r. r\<lparr>bitmap := bitmap r AND NOT (push_bit (i mod 16) 1)\<rparr>) ppa;
           j \<leftarrow> pass_preclaims preclaims r1 j;
           case j of None \<Rightarrow> Some ppa | Some j \<Rightarrow> claim_pages preclaims is j ppa
         })"

text \<open>A region that is not entirely free is allocated in its parent, and floats when some of it is free.\<close>

definition claim_region :: "RegionKind \<Rightarrow> nat \<Rightarrow> nat \<Rightarrow> PhysicalPageAllocator \<Rightarrow> PhysicalPageAllocator option" where
  "claim_region rk i j ppa =
     do {
       idx \<leftarrow> region_index (of_nat j) rk;
       if bitmap (regions ppa (unat idx)) \<noteq> 0xffff then do {
         let ppa = count_allocated rk ppa;
         parent \<leftarrow> region_index (of_nat i) (rk - 1);
         ppa \<leftarrow> upd_region parent (\<lambda>r. r\<lparr>bitmap := bitmap r AND NOT (push_bit (j mod 16) 1)\<rparr>) ppa;
         if bitmap (regions ppa (unat idx)) \<noteq> 0 then float_region ppa (of_nat j) rk else Some ppa
       } else Some ppa
     }"

definition claim_supersection :: "nat \<Rightarrow> PhysicalPageAllocator \<Rightarrow> PhysicalPageAllocator option" where
  "claim_supersection i ppa =
     do {
       idx \<leftarrow> region_index (of_nat i) RK_Supersection;
       if bitmap (regions ppa (unat idx)) \<noteq> 0xffff then do {
         let ppa = count_allocated RK_Supersection ppa;
         let ppa = ppa\<lparr>supersection_mask := supersection_mask ppa AND NOT (push_bit i 1)\<rparr>;
         if bitmap (regions ppa (unat idx)) \<noteq> 0 then float_region ppa (of_nat i) RK_Supersection else Some ppa
       } else Some ppa
     }"

fun steps :: "('a \<Rightarrow> 's \<Rightarrow> 's option) \<Rightarrow> 'a list \<Rightarrow> 's \<Rightarrow> 's option" where
  "steps f [] s = Some s"
| "steps f (x # xs) s = do { s \<leftarrow> f x s; steps f xs s }"

definition ppa_reset :: PhysicalPageAllocator where
  "ppa_reset = \<lparr>regions = \<lambda>_. \<lparr>bitmap = 0xffff, ri_next = CHAIN_END, ri_prev = CHAIN_END\<rparr>, supersection_mask = 0xffffffff,
     floating_lists = \<lambda>_. SIZE_MAX, floating_counts = \<lambda>_. 0, allocated_counts = \<lambda>_. 0\<rparr>"

definition ppa_init :: "(u32 \<times> u32) list \<Rightarrow> PhysicalPageAllocator option" where
  "ppa_init preclaims =
     (if preclaims = [] then Some ppa_reset
      else do {
        ppa \<leftarrow> claim_pages preclaims [0..<0x20000] 0 ppa_reset;
        ppa \<leftarrow> steps (\<lambda>i. steps (claim_region RK_LargePage i) [i * 16..<i * 16 + 16]) [0..<0x200] ppa;
        ppa \<leftarrow> steps (\<lambda>i. steps (claim_region RK_Section i) [i * 16..<i * 16 + 16]) [0..<0x20] ppa;
        steps claim_supersection [0..<32] ppa
      })"

section \<open>Allocation\<close>

text \<open>The compiler's count of leading zeros, of a word of 32 bits that is not zero.\<close>

definition clz :: "u32 \<Rightarrow> nat" where
  "clz w = length (takeWhile (\<lambda>n. \<not> bit w n) (rev [0..<32]))"

function commit_region :: "PhysicalPageAllocator \<Rightarrow> u32 \<Rightarrow> RegionKind \<Rightarrow> RegionKind \<Rightarrow> (u32 \<times> PhysicalPageAllocator) option" where
  "commit_region ppa from_region_idx from_region_kind alloc_kind =
     (if \<not> alloc_kind \<le> RK_SmallPage \<or> \<not> from_region_kind < alloc_kind \<or> \<not> unat from_region_idx < REGION_COUNT then None
      else do {
        let bm = bitmap (regions ppa (unat from_region_idx));
        let lz = (if bm \<noteq> 0 then clz (ucast bm) else 0);
        let bm = bm AND ucast (NOT (drop_bit lz (0x8000 :: u32)));
        ppa \<leftarrow> upd_region from_region_idx (\<lambda>r. r\<lparr>bitmap := bm\<rparr>) ppa;
        ppa \<leftarrow> (if bm = 0 then unfloat_region ppa from_region_idx from_region_kind else Some ppa);
        let child_no = 16 - of_nat lz;
        let from_region_no = from_region_idx - INDEX_OFFSETS from_region_kind;
        let region_no = child_no + (from_region_no * 16);
        if from_region_kind = alloc_kind - 1 then Some (get_region_ptr region_no alloc_kind, ppa)
        else do {
          idx \<leftarrow> region_index region_no (from_region_kind + 1);
          commit_region ppa idx (from_region_kind + 1) alloc_kind
        }
      })"
  by auto
termination by (relation "measure (\<lambda>(_, _, from_kind, alloc_kind). alloc_kind - from_kind)") auto

declare commit_region.simps [simp del]

partial_function (option) ppa_alloc :: "PhysicalPageAllocator \<Rightarrow> RegionKind \<Rightarrow> (u32 \<times> PhysicalPageAllocator) option" where
  "ppa_alloc ppa rk =
     (case find (\<lambda>rki. floating_lists ppa rki \<noteq> SIZE_MAX) (rev [0..<rk]) of
        Some rki \<Rightarrow> do {
          (ix, ppa) \<leftarrow> commit_region ppa (floating_lists ppa rki) rki rk;
          Some (ix, count_allocated rk ppa)
        }
      | None \<Rightarrow>
          if supersection_mask ppa = 0 then Some (SIZE_MAX, ppa)
          else
            let lz = clz (supersection_mask ppa);
                ppa = ppa\<lparr>supersection_mask := supersection_mask ppa AND NOT (drop_bit lz 0x80000000)\<rparr>;
                ss_no = 31 - of_nat lz
            in if rk = RK_Supersection then Some (get_region_ptr ss_no RK_Supersection, count_allocated rk ppa)
               else do { ppa \<leftarrow> float_region ppa ss_no RK_Supersection; ppa_alloc ppa rk })"

section \<open>Release\<close>

fun free_region_recursive :: "PhysicalPageAllocator \<Rightarrow> u32 \<Rightarrow> RegionKind \<Rightarrow> PhysicalPageAllocator option" where
  "free_region_recursive ppa region_no 0 =
     (if region_no < 32 then Some (ppa\<lparr>supersection_mask := supersection_mask ppa OR push_bit (unat region_no) 1\<rparr>) else None)"
| "free_region_recursive ppa region_no (Suc parent_kind) =
     do {
       let parent_no = region_no div 16;
       parent_idx \<leftarrow> region_index parent_no parent_kind;
       ppa \<leftarrow> upd_region parent_idx (\<lambda>r. r\<lparr>bitmap := bitmap r OR push_bit (unat (region_no mod 16)) 1\<rparr>) ppa;
       let bm = bitmap (regions ppa (unat parent_idx));
       if bm = 0xffff then do {
         ppa \<leftarrow> unfloat_region ppa parent_idx parent_kind;
         free_region_recursive ppa parent_no parent_kind
       }
       else if bm = 0 then float_region ppa parent_idx parent_kind
       else Some ppa
     }"

definition ppa_free :: "PhysicalPageAllocator \<Rightarrow> u32 \<Rightarrow> RegionKind \<Rightarrow> PhysicalPageAllocator option" where
  "ppa_free ppa p rk =
     (if p AND (REGION_SCALES rk - 1) \<noteq> 0 then None
      else do {
        let region_no = p div REGION_SCALES rk;
        ppa \<leftarrow> free_region_recursive ppa region_no rk;
        Some (ppa\<lparr>allocated_counts := (allocated_counts ppa)(rk := allocated_counts ppa rk - 1)\<rparr>)
      })"

section \<open>Supersections\<close>

lemma clz_highest_bit:
  assumes "w \<noteq> 0"
  shows "clz w < 32" "bit w (31 - clz w)" "\<And>k. 31 - clz w < k \<Longrightarrow> \<not> bit w k"
proof -
  let ?l = "rev [0..<32]"
  have n: "?l ! k = 31 - k" if "k < 32" for k using that by (simp add: rev_nth del: upt_conv_Cons)
  have "\<exists>i. bit w i" using assms by (auto simp: bit_eq_iff [of w])
  then obtain i where i: "bit w i" "i < 32" using bit_imp_le_length [of w] by auto
  show l: "clz w < 32"
  proof (rule ccontr)
    assume "\<not> clz w < 32"
    moreover have "clz w \<le> 32" unfolding clz_def using length_takeWhile_le [of "\<lambda>n. \<not> bit w n" ?l] by simp
    ultimately have "length (takeWhile (\<lambda>n. \<not> bit w n) ?l) = length ?l" by (simp add: clz_def)
    then have "takeWhile (\<lambda>n. \<not> bit w n) ?l = ?l" by (metis takeWhile_dropWhile_id append_Nil2 length_0_conv add_left_cancel length_append add_0_right)
    then have "\<forall>n \<in> set ?l. \<not> bit w n" by (metis takeWhile_eq_all_conv)
    with i show False by auto
  qed
  show "bit w (31 - clz w)"
    using nth_length_takeWhile [of "\<lambda>n. \<not> bit w n" ?l] l n [of "clz w"] by (simp add: clz_def)
  show "\<not> bit w k" if "31 - clz w < k" for k
  proof (cases "k < 32")
    case True
    then have "31 - k < clz w" using that l by linarith
    then have "?l ! (31 - k) = takeWhile (\<lambda>n. \<not> bit w n) ?l ! (31 - k)" unfolding clz_def by (simp add: takeWhile_nth)
    moreover have "takeWhile (\<lambda>n. \<not> bit w n) ?l ! (31 - k) \<in> set (takeWhile (\<lambda>n. \<not> bit w n) ?l)"
      using \<open>31 - k < clz w\<close> unfolding clz_def by (rule nth_mem)
    ultimately have "\<not> bit w (?l ! (31 - k))" by (metis set_takeWhileD)
    then show ?thesis using n [of "31 - k"] True by simp
  next
    case False
    then show ?thesis using bit_imp_le_length by fastforce
  qed
qed

lemma top_bit:
  assumes "l < 32"
  shows "drop_bit l (0x80000000 :: u32) = push_bit (31 - l) 1"
proof (rule bit_word_eqI)
  fix n assume "n < LENGTH(32)"
  have e: "(0x80000000 :: u32) = 2 ^ 31" by simp
  have p: "push_bit k 1 = (2 :: u32) ^ k" for k by (simp add: push_bit_eq_mult)
  show "bit (drop_bit l (0x80000000 :: u32)) n \<longleftrightarrow> bit (push_bit (31 - l) 1 :: u32) n"
    unfolding e p bit_drop_bit_eq comp_def bit_exp_iff possible_bit_word using assms by auto
qed

lemma supersection_ptr:
  assumes "i < 32"
  shows "get_region_ptr (of_nat i) RK_Supersection = of_nat i * 0x1000000"
    "of_nat i * 0x1000000 AND (REGION_SCALES RK_Supersection - 1) = 0"
    "of_nat i * 0x1000000 div REGION_SCALES RK_Supersection = of_nat i"
proof -
  show "get_region_ptr (of_nat i) RK_Supersection = of_nat i * 0x1000000"
    by (simp add: get_region_ptr_def REGION_SCALES_def kinds mult.commute)
  have "of_nat i * 0x1000000 = (push_bit 24 (of_nat i) :: u32)" by (simp add: push_bit_eq_mult)
  moreover have "(0xffffff :: u32) = mask 24" by (simp add: mask_eq_exp_minus_1)
  moreover have "push_bit 24 (of_nat i) AND mask 24 = (0 :: u32)" by (simp only: take_bit_eq_mask [symmetric] take_bit_push_bit) simp
  ultimately show "of_nat i * 0x1000000 AND (REGION_SCALES RK_Supersection - 1) = 0"
    by (simp add: REGION_SCALES_def kinds)
  have "unat (of_nat i * 0x1000000 :: u32) = i * 0x1000000" using assms by (simp add: unat_word_ariths unat_of_nat)
  then have "unat (of_nat i * 0x1000000 div 0x1000000 :: u32) = i" by (simp add: unat_div)
  then show "of_nat i * 0x1000000 div REGION_SCALES RK_Supersection = of_nat i"
    using assms by (simp add: REGION_SCALES_def kinds word_unat_eq_iff unat_of_nat)
qed

text \<open>
  C36: While there is a free supersection, the allocation of one returns the highest, which is then no longer free.
  When it is released the allocator is as it was.
\<close>

theorem supersection_alloc_free:
  assumes "supersection_mask ppa \<noteq> 0"
  shows "\<exists>i p ppa'. ppa_alloc ppa RK_Supersection = Some (p, ppa') \<and>
    i < 32 \<and> bit (supersection_mask ppa) i \<and> (\<forall>k > i. \<not> bit (supersection_mask ppa) k) \<and>
    p = of_nat i * 0x1000000 \<and> supersection_mask ppa' = unset_bit i (supersection_mask ppa) \<and>
    ppa_free ppa' p RK_Supersection = Some ppa"
proof -
  let ?w = "supersection_mask ppa" let ?i = "31 - clz ?w"
  note z = clz_highest_bit [OF assms]
  have o: "31 - of_nat (clz ?w) = (of_nat ?i :: u32)" using z(1) by (simp add: of_nat_diff)
  have u: "?w AND NOT (drop_bit (clz ?w) 0x80000000) = unset_bit ?i ?w"
    by (simp add: top_bit z(1) unset_bit_eq_and_not)
  define ppa' where "ppa' = count_allocated RK_Supersection (ppa\<lparr>supersection_mask := unset_bit ?i ?w\<rparr>)"
  have "ppa_alloc ppa RK_Supersection = Some (of_nat ?i * 0x1000000, ppa')"
    using assms by (subst ppa_alloc.simps) (simp add: u o ppa'_def Let_def supersection_ptr(1) [unfolded kinds] kinds del: of_nat_diff)
  moreover have "?w = unset_bit ?i ?w OR push_bit ?i 1"
    using z(2) by (intro bit_word_eqI) (auto simp: bit_simps)
  then have "ppa_free ppa' (of_nat ?i * 0x1000000) RK_Supersection = Some ppa"
    using supersection_ptr [of ?i, unfolded kinds] by (simp add: ppa_free_def ppa'_def count_allocated_def kinds word_less_nat_alt unat_of_nat)
  ultimately show ?thesis using z by (auto simp: ppa'_def count_allocated_def intro!: exI [of _ ?i])
qed

lemma supersection_alloc_free_witness:
  "\<exists>ppa i p ppa'. ppa_init [] = Some ppa \<and> ppa_alloc ppa RK_Supersection = Some (p, ppa') \<and>
    i < 32 \<and> bit (supersection_mask ppa) i \<and> (\<forall>k > i. \<not> bit (supersection_mask ppa) k) \<and>
    p = of_nat i * 0x1000000 \<and> supersection_mask ppa' = unset_bit i (supersection_mask ppa) \<and>
    ppa_free ppa' p RK_Supersection = Some ppa"
  using supersection_alloc_free [of ppa_reset] by (auto simp: ppa_init_def ppa_reset_def)

text \<open>None is left when the mask is empty and nothing floats.\<close>

lemma alloc_exhausted:
  assumes "supersection_mask ppa = 0" "\<And>rki. rki < rk \<Longrightarrow> floating_lists ppa rki = SIZE_MAX"
  shows "ppa_alloc ppa rk = Some (SIZE_MAX, ppa)"
proof -
  have "find (\<lambda>rki. floating_lists ppa rki \<noteq> SIZE_MAX) (rev [0..<rk]) = None"
    using assms(2) by (auto simp: find_None_iff)
  then show ?thesis using assms(1) by (subst ppa_alloc.simps) simp
qed

section \<open>Sections\<close>

text \<open>The count of leading zeros of a bitmap is at least sixteen, so no bit of the bitmap is cleared.\<close>

lemma clz_bitmap:
  fixes b :: u16
  assumes "bit b i" "\<And>k. i < k \<Longrightarrow> \<not> bit b k"
  shows "clz (ucast b) = 31 - i" "i < 16"
proof -
  have u: "bit (ucast b :: u32) k \<longleftrightarrow> bit b k" for k
    using bit_imp_le_length [of b k] by (auto simp: bit_simps)
  show i: "i < 16" using bit_imp_le_length [OF assms(1)] by simp
  have "ucast b \<noteq> (0 :: u32)" using assms(1) u [of i] by auto
  note z = clz_highest_bit [OF this]
  have "31 - clz (ucast b) = i" using z(2,3) assms u by (metis linorder_neqE_nat)
  then show "clz (ucast b) = 31 - i" using z(1) i by linarith
qed

lemma no_bit_cleared: "16 \<le> l \<Longrightarrow> drop_bit l (0x8000 :: u32) = 0"
proof (rule bit_word_eqI)
  fix n assume l: "16 \<le> l" and "n < LENGTH(32)"
  have e: "(0x8000 :: u32) = 2 ^ 15" by simp
  show "bit (drop_bit l (0x8000 :: u32)) n \<longleftrightarrow> bit (0 :: u32) n"
    unfolding e bit_drop_bit_eq comp_def bit_exp_iff possible_bit_word using l by auto
qed

lemma commit_section:
  assumes "no < 32" "bit (bitmap (regions ppa (unat (0x2200 + no)))) i" "\<And>k. i < k \<Longrightarrow> \<not> bit (bitmap (regions ppa (unat (0x2200 + no)))) k"
  shows "commit_region ppa (0x2200 + no) RK_Supersection RK_Section = Some ((16 * no + of_nat i - 15) * 0x100000, ppa)"
proof -
  let ?b = "bitmap (regions ppa (unat (0x2200 + no)))"
  note z = clz_bitmap [OF assms(2,3)]
  have b: "?b \<noteq> 0" using assms(2) by auto
  have n: "unat no < 32" using assms(1) by (simp add: word_less_nat_alt)
  then have "unat (0x2200 + no) < REGION_COUNT" by (simp add: REGION_COUNT_def unat_word_ariths)
  moreover have "drop_bit (31 - i) (0x8000 :: u32) = 0" using z(2) by (intro no_bit_cleared) simp
  moreover have "of_nat (31 - i) = (31 - of_nat i :: u32)"
    using z(2) by (simp add: of_nat_diff)
  moreover have "ucast (- 1 :: u32) = (- 1 :: u16)" by (rule bit_word_eqI) (simp add: bit_simps)
  moreover have "(16 - (31 - x) + no * 16) = (16 * no + x - 15)" for x :: u32 by simp
  moreover have "(regions ppa)(k := regions ppa k\<lparr>bitmap := bitmap (regions ppa k)\<rparr>) = regions ppa" for k by simp
  ultimately show ?thesis using b
    by (simp add: commit_region.simps [of ppa] z Let_def upd_region_def kinds INDEX_OFFSETS_def get_region_ptr_def REGION_SCALES_def mult.commute)
qed

text \<open>
  C37: Sections are allocated from the supersection that floats without being marked: two allocations in a row
  return the same address. It is the one of the first section only while the supersection is entirely free; when \<open>i < 15\<close>
  is the highest free section of it, the address lies in the supersection before.
\<close>

theorem section_alloc_repeats:
  assumes "floating_lists ppa RK_Supersection = 0x2200 + no" "no < 32"
    and "bit (bitmap (regions ppa (unat (0x2200 + no)))) i" "\<And>k. i < k \<Longrightarrow> \<not> bit (bitmap (regions ppa (unat (0x2200 + no)))) k"
  shows "\<exists>ppa' ppa''. ppa_alloc ppa RK_Section = Some ((16 * no + of_nat i - 15) * 0x100000, ppa') \<and>
    ppa_alloc ppa' RK_Section = Some ((16 * no + of_nat i - 15) * 0x100000, ppa'')"
proof -
  have n: "0x2200 + no \<noteq> SIZE_MAX" 
  proof -
    have "unat (0x2200 + no) < 0x2220" using assms(2) by (simp add: unat_word_ariths word_less_nat_alt)
    then show ?thesis by (auto simp: SIZE_MAX_def)
  qed
  have "ppa_alloc p RK_Section = Some ((16 * no + of_nat i - 15) * 0x100000, count_allocated RK_Section p)"
    if "floating_lists p = floating_lists ppa" "regions p = regions ppa" for p
    using commit_section [of no p i, unfolded kinds] assms n that by (subst ppa_alloc.simps) (simp add: kinds)
  then show ?thesis by (simp add: count_allocated_def)
qed

lemma section_alloc_repeats_witness:
  "\<exists>ppa ppa' ppa''. float_region ppa_reset 31 RK_Supersection = Some ppa \<and>
    ppa_alloc ppa RK_Section = Some (0x1f000000, ppa') \<and> ppa_alloc ppa' RK_Section = Some (0x1f000000, ppa'')"
proof -
  obtain ppa where p: "float_region ppa_reset 31 RK_Supersection = Some ppa" "floating_lists ppa RK_Supersection = 0x2200 + 31"
    "bitmap (regions ppa (unat (0x2200 + 31 :: u32))) = 0xffff"
    by (simp add: float_region_def ppa_reset_def region_index_def INDEX_OFFSETS_def upd_region_def REGION_COUNT_def kinds)
  have "bit (0xffff :: u16) 15" "\<not> bit (0xffff :: u16) k" if "15 < k" for k
  proof -
    show "bit (0xffff :: u16) 15" by simp
    show "\<not> bit (0xffff :: u16) k" using that bit_imp_le_length [of "0xffff :: u16" k] by auto
  qed
  with section_alloc_repeats [of ppa 31 15] p show ?thesis by auto
qed

text \<open>Since no bit is cleared, a release finds the supersection free as a whole, and writes to the lists far behind their end.\<close>

lemma free_section_undefined:
  assumes "region_no < 0x200" "regions ppa (unat (0x2200 + region_no div 16)) = \<lparr>bitmap = 0xffff, ri_next = CHAIN_END, ri_prev = CHAIN_END\<rparr>"
  shows "free_region_recursive ppa region_no RK_Section = None"
proof -
  have n: "unat region_no < 0x200" using assms(1) by (simp add: word_less_nat_alt)
  then have "unat (region_no div 16) < 32" by (simp add: unat_div)
  then have u: "unat (0x2200 + region_no div 16) = 0x2200 + unat (region_no div 16)" by (simp add: unat_word_ariths)
  have "(0xffff :: u16) OR x = 0xffff" for x
  proof -
    have e: "(0xffff :: u16) = - 1" by simp
    show ?thesis unfolding e by (rule bit_word_eqI) (simp add: bit_simps)
  qed
  then show ?thesis using assms(2) n
    by (simp add: kinds region_index_def INDEX_OFFSETS_def upd_region_def REGION_COUNT_def unfloat_region_def CHAIN_END_def Let_def
      add.commute [of _ "0x2200"] unat_div u)
qed

section \<open>Claims\<close>

text \<open>Without claims the allocator starts with everything free. When the last claim ends by the end of memory, the loop reads behind the claims.\<close>

lemma pass_all:
  assumes "\<And>c. c \<in> set preclaims \<Longrightarrow> snd c \<le> r1"
  shows "pass_preclaims preclaims r1 j = None"
  using assms by (induction preclaims r1 j rule: pass_preclaims.induct) simp

lemma pass_no_jump: "pass_preclaims preclaims r1 j \<noteq> Some None"
  by (induction preclaims r1 j rule: pass_preclaims.induct) simp

lemma claim_pages_undefined:
  assumes "fst (preclaims ! 0) < get_region_ptr (of_nat (n + 1)) RK_SmallPage"
    and "\<And>c. c \<in> set preclaims \<Longrightarrow> snd c \<le> get_region_ptr (of_nat (n + 1)) RK_SmallPage"
  shows "claim_pages preclaims (is @ [n]) j ppa = None"
proof (induction "is" arbitrary: j ppa)
  case Nil
  show ?case using assms(1) pass_all [OF assms(2), of preclaims j]
    by (auto simp: Let_def not_le [symmetric] simp del: pass_preclaims.simps split: bind_splits)
next
  case (Cons i "is")
  then show ?case using pass_no_jump [of preclaims]
    by (auto simp: Let_def simp del: pass_preclaims.simps split: bind_splits option.splits)
qed

lemma ppa_init_reads_behind_claims:
  assumes "preclaims \<noteq> []" "fst (preclaims ! 0) < 0x20000000" "\<And>c. c \<in> set preclaims \<Longrightarrow> snd c \<le> 0x20000000"
  shows "ppa_init preclaims = None"
proof -
  have p: "get_region_ptr (of_nat (0x1ffff + 1)) RK_SmallPage = 0x20000000"
    by (simp add: get_region_ptr_def REGION_SCALES_def kinds)
  have "[0..<0x20000] = [0..<0x1ffff] @ [0x1ffff]" using upt_Suc_append [of 0 "0x1ffff"] by simp
  then show ?thesis using claim_pages_undefined [of preclaims "0x1ffff" "[0..<0x1ffff]"] assms unfolding p
    by (simp add: ppa_init_def)
qed

end
