(* ===== verification/Spec2Isabelle.thy ===== *)
theory Spec2Isabelle
  imports Boot_Main Host_Linux Dma_Sum Dma_Shift Dma_Mono Integ Mailbox Ubsan Page_Alloc
begin

text \<open>
  A verification development for a bare-metal program loader and a library that computes with the DMA engine of the
  BCM2835 (source directories \<^verbatim>\<open>pup/\<close>, \<^verbatim>\<open>bcm2835/\<close> and \<^verbatim>\<open>generic/\<close>; paths below are relative to \<^verbatim>\<open>src/\<close>).

  \<^bold>\<open>The program.\<close> A host program sends a file over a serial line; a boot loader on the board receives it in chunks,
  checks it, places it, possibly over itself, and starts it. Both ends run a state machine over frames with check sequences
  and timers. On the board, programs use a library that builds chains of DMA control blocks which do arithmetic by table
  lookups, and support code: the timer, pins, the serial port, the mailbox to the VideoCore, stack traces, the runtime of the
  undefined-behavior sanitizer, a checker of memory integrity and an allocator of physical pages.

  \<^bold>\<open>How the code is translated.\<close> A machine integer is a word of its width and wraps as in C; a struct is a record, an enum a
  datatype (or its numbers, where the code computes with them); memory is a function from addresses to bytes
  (\<^verbatim>\<open>mem\<close> of theory Memory), and static variables are the fields of a state that is passed on. A failed assertion, a
  panic, undefined behavior and a loop without end are values: \<open>None\<close>, or \<open>Panic\<close> and \<open>Overrun\<close> in the ELF loader. So the word
  accesses of the stub that relocates an image have no result at an address that is no multiple of four, and \<^verbatim>\<open>main\<close> of the host has
  none when the two bytes that \<open>host_pread\<close> writes past an array meet with less than two unused bytes of the stack frame (the
  argument \<open>slack\<close>). There is one exception: where the runtime of the sanitizer shifts a word by 32, the text, test or
  width is \<open>None\<close>, and the handlers go on with a value of which nothing is assumed (\<open>any_text\<close>, \<open>any_test\<close>, \<open>any_width\<close>). Loops that
  need not end are \<open>partial_function (option)\<close>. What is outside of the repository (the VideoCore, the XZ decoder, liblzma, the operating
  system, the linker's symbols, the clock) is an argument of the definitions that use it. The texts of messages are
  modelled for the sanitizer only.

  \<^bold>\<open>The theories and the code.\<close>

  \<^item> Prelude: names of the integer types, collections of rewrite rules (\<open>le_simps\<close>, \<open>crc_simps\<close>), little-endian bytes and
    lemmas on words that the components share. Memory: reading and writing byte ranges, \<^verbatim>\<open>memcpy\<close>, \<^verbatim>\<open>memmove\<close>, \<^verbatim>\<open>memset\<close>.

  \<^item> Checksum: \<^verbatim>\<open>pup/fcs.c\<close>, \<^verbatim>\<open>pup/crc.c\<close> and \<^verbatim>\<open>xz_crc32_init\<close>. The locale \<open>reflected_crc\<close> states what the loop needs of its table; it
    is interpreted for the two literal tables and the generated one, and gives that each loop is the bit-serial checksum and
    that it can be computed in pieces.

  \<^item> Wire, Wire_Correct: \<^verbatim>\<open>pup/common.h\<close> and the first half of \<^verbatim>\<open>pup/fsm.c\<close>: timers, sending and receiving of frames and
    acknowledgements. The line is a list of readings (a byte, or none yet) and the clock a function of the number of the
    reading (record \<open>io\<close>). The receivers are recursive over that list. Locales: \<open>io_view\<close> (a part of the state that receiving
    keeps), \<open>frame_store\<close> (a buffer that bytes are stored into, interpreted for header, body and acknowledgement). Shown: a
    sent frame is received, a received frame was well-formed with correct check sequences, timers fire only when due.
    Bytes that come after pauses are pairs of a number of empty polls and a byte (\<open>delayed\<close>); such a frame is received when
    no timer has expired at the readings of the clock at which it is looked at (\<open>patient\<close>, \<open>prompt\<close>).

  \<^item> Fsm, Fsm_Correct: \<open>fsm_download\<close> and \<open>fsm_upload\<close>, the second half of \<^verbatim>\<open>pup/fsm.c\<close>, as steps between control points, the
    labels and blocking calls of the code (\<open>dl_step\<close>, \<open>ul_step\<close>). \<open>fsm_download ops config n\<close> is the state after \<open>n\<close> control
    points; the completion lemmas give the number that suffices (the number of chunks and five for the device, and the number of
    heartbeats besides for the host), and the safety lemmas hold for every number. Completion asks that the other side's
    frames come in time: \<open>download_in_time\<close> and \<open>upload_in_time\<close> follow the readings at which the reset and resend timers are
    cleared and ask that neither has expired where it is looked at, with pauses at every byte. Safety asks nothing of the line:
    \<open>delivered\<close> says that what was read holds the poll frame and, in order, a numbered frame for each chunk. The locale \<open>download_platform\<close> states what the
    machine expects of the platform's three operations: its assumptions say what is held after metadata, after each chunk
    and after loading, and its lemma \<open>download_safe\<close> says what a successful end means. Shown besides: the uploader
    visits its reset label a bounded number of times.

  \<^item> Boot_Loader, Boot_Correct, Boot_Start: \<^verbatim>\<open>pup/bcm2835.c\<close> and the stub \<^verbatim>\<open>pup/trampolines/bin.bcm2835.S\<close>: placement, reception with
    relocation of the part that overlaps the running loader, XZ feeding, the check with heartbeats, the start, which needs the
    relocated part at multiples of four (\<open>trampoline_misaligned_buffer\<close> shows the failure without). \<open>view\<close> reads the
    image through the relocation; \<open>boot_holds\<close> and \<open>boot_loaded\<close> are the platform's contract, and \<open>bcm\<close> the interpretation of
    \<open>download_platform\<close>.

  \<^item> Elf_Loader, Elf_Correct, Elf_Safe: \<^verbatim>\<open>pup/elf_loader.c\<close>: the map of claimed ranges refines insertion into a sorted list,
    the allocator is a first fit, a successful load has the planned layout, and the loader stays in its arrays.
    Mem_Routines: the assembly of \<^verbatim>\<open>__aeabi_memmove\<close> and \<^verbatim>\<open>__aeabi_memset\<close>. Elf_Boot: the second stage,
    \<^verbatim>\<open>pup/trampolines/elf.bcm2835.S\<close>, reads its parameters from memory and carries out the plan, when the file is well-formed and the places that the loader chose
    are usable (\<open>stage_clear\<close>, \<open>clear_of\<close>), which the code does not check and \<open>low_memory_places\<close> gives when there is room at
    the bottom of memory. Elf_Session: interpretation
    \<open>elf\<close> of \<open>download_platform\<close>, and the way from the line to the running ELF program, under \<open>elf_file_ok\<close> or \<open>elf_file_fits\<close>.

  \<^item> Boot_Main: \<open>main\<close> of the boot loader. Host, Host_Correct: \<^verbatim>\<open>pup/host.c\<close> with its options, metadata and chunks. Host_Linux:
    \<^verbatim>\<open>pup/host_linux.c\<close>. Upload_Session: both ends over one line.

  \<^item> Dma_Engine, Dma_Kit, Dma_Run: \<^verbatim>\<open>bcm2835/dma/private.h\<close>, \<^verbatim>\<open>emit.h\<close>, \<^verbatim>\<open>dmakit.c\<close>, \<^verbatim>\<open>dma.c\<close>: bus addresses, control blocks, the
    emission of blocks into an arena, channels, runs. The engine is hardware and so an argument: a step on the address of a
    block and memory. The predicate \<open>dma_engine\<close> states its documented behavior, \<open>documented_engine\<close> satisfies it, and \<open>dma_run\<close> takes
    as many steps as the chain has blocks, after which the lemmas show its end.

  \<^item> Dma_Arith, Dma_Init, Dma_Tables: \<^verbatim>\<open>arith*.c\<close> and \<^verbatim>\<open>private.c\<close>: the emitters, the initializers of the tables and what the tables
    contain. Dma_Steps, Dma_Bitwise, Dma_Compare, Dma_Sum, Dma_Shift, Dma_Mono, Dma_Correct: what the emitted chains compute,
    for numbers of up to \<open>2 ^ 14\<close> bytes (the limit of the strides of the engine), when operands, result, blocks and tables lie
    apart in memory that the engine can address: bitwise operations, comparisons, sums, shifts and the cache of tables.

  \<^item> Board: \<^verbatim>\<open>systmr.c\<close>, \<^verbatim>\<open>gpio.c\<close>, \<^verbatim>\<open>mmu.c\<close>, \<^verbatim>\<open>uart.c\<close>. The n-th access to a register that changes by itself is a function of n.
    Mailbox: \<^verbatim>\<open>ptags.c\<close>. Backtrace: \<^verbatim>\<open>generic/backtrace.c\<close>. Ubsan: \<^verbatim>\<open>generic/ubsan.c\<close>. Integ_Hash, Integ: \<^verbatim>\<open>240-integ/hash.c\<close> and
    \<^verbatim>\<open>2-integ.c\<close>; the locales \<open>hashing_loop\<close> and \<open>word_hashing_loop\<close> state when a changed byte changes a hash, and are interpreted for
    blocks, words and bytes. A hash is of its own region only when the region contains a boundary of 32-byte blocks
    (\<open>spans\<close>, \<open>hash_fits\<close>, \<open>hash_memory_reads_outside\<close>). Page_Alloc: \<^verbatim>\<open>240-superopt/ppa.c\<close>.

  \<^bold>\<open>Where the code falls short.\<close> Some theorems state behavior that the code does not intend: \<open>boot_main_starts_file\<close> (an image with
  a wrong CRC is started), \<open>fastreloc_never_ends\<close>, \<open>second_stage_unaligned\<close>, \<open>claim_space_overrun\<close>, \<open>section_alloc_repeats\<close>,
  \<open>integers_are_spelled\<close> (nothing defined at 32 bits, the highest byte of wide values), \<open>division_errors\<close>, \<open>line_is_raw\<close> (breaks are not ignored),
  \<open>retries_option_ignored\<close>, \<open>trampoline_misaligned_buffer\<close>,
  \<open>host_meta_overruns\<close>. Other theorems have hypotheses that exclude such cases, named where they are stated.

  \<^bold>\<open>Not modelled.\<close> The XZ decoder (\<^verbatim>\<open>pup/xz-embedded/\<close>) and the C library (\<^verbatim>\<open>libc/\<close>, but for the two routines above) are third-party
  code; so are the constants of \<^verbatim>\<open>pup/elf.h\<close>, but for those that the loader uses. \<^verbatim>\<open>pup/host_macos.c\<close> is calls of a
  framework of the operating system. The start code, the barriers, caches and control registers of the processor, the
  watchdog reset, the assembly of \<^verbatim>\<open>integ_run\<close> that switches stacks, and the second stage's console output have no
  counterpart in the memory model. \<^verbatim>\<open>generic/integ.c\<close> is not implemented. The remaining programs under \<^verbatim>\<open>bcm2835/\<close> are
  demonstrations and measurements that run on the board.
\<close>

end
